(* ===== verification/Peak_Prelude.thy ===== *)
theory Peak_Prelude
  imports Main "HOL-Library.Word"
begin

text \<open>
  Shared material of the PEAK development: the machine types of the C sources as type synonyms,
  generic lemmas on loops over index ranges, ring buffers and machine words, and the interface
  \<open>step_system\<close>, in which the preservation of an invariant over a whole run is proved once
  for every component whose operations are modelled as a step function.
\<close>

unbundle bit_operations_syntax

type_synonym uint64 = "64 word"
type_synonym uint32 = "32 word"
type_synonym byte = "8 word"

subsection \<open>Search loops over an index range\<close>

text \<open>A C loop \<^verbatim>\<open>for (i = 0; i < n; i++) if (P(i)) return i;\<close> is
  \<open>List.find P [0..<n]\<close>; these lemmas read its result.\<close>

lemma find_upt_Some:
  "List.find P [0..<n] = Some i \<longleftrightarrow> i < n \<and> P i \<and> (\<forall>j<i. \<not> P j)"
  by (auto simp: find_Some_iff)

lemma find_upt_None: "List.find P [0..<n] = None \<longleftrightarrow> (\<forall>j<n. \<not> P j)"
  by (auto simp: find_None_iff)

lemma find_upt_unique:
  assumes "i < n" and "P i" and "\<And>j. j < n \<Longrightarrow> P j \<Longrightarrow> j = i"
  shows "List.find P [0..<n] = Some i"
  unfolding find_upt_Some using assms by (metis order_less_imp_not_eq order_less_trans)

subsection \<open>Machine words\<close>

lemma unat_uint32_less: "unat (w :: uint32) < 2 ^ 32"
proof -
  have "unat w < 2 ^ LENGTH(32)"
    by (rule unsigned_less)
  then show ?thesis
    by simp
qed

lemma unat_add_guarded:
  fixes x y :: uint64
  assumes "\<not> x > - 1 - y"
  shows "unat (x + y) = unat x + unat y"
proof -
  have "x \<le> - 1 - y"
    using assms by simp
  then have "unat x \<le> unat (- 1 - y :: uint64)"
    by (simp add: word_le_nat_alt)
  also have "\<dots> = unat (- 1 :: uint64) - unat y"
    by (rule unat_sub) simp
  also have "unat (- 1 :: uint64) = 2 ^ 64 - 1"
    by (simp add: unsigned_minus_1_eq_mask mask_eq_exp_minus_1)
  finally have le: "unat x \<le> 2 ^ 64 - 1 - unat y" .
  have "unat y < 2 ^ LENGTH(64)"
    by (rule unsigned_less)
  with le have "unat x + unat y < 2 ^ 64"
    by simp
  then show ?thesis
    by (simp add: unat_word_ariths(1))
qed

subsection \<open>Ring buffers\<close>

text \<open>
  A queue of \<open>n\<close> elements kept in an array of \<open>cap\<close> cells from position \<open>h\<close> on, with
  wrap-around at the end of the array.
\<close>

definition ring_list :: "(nat \<Rightarrow> 'a) \<Rightarrow> nat \<Rightarrow> nat \<Rightarrow> nat \<Rightarrow> 'a list" where
  "ring_list f cap h n = map (\<lambda>k. f ((h + k) mod cap)) [0..<n]"

lemma length_ring_list [simp]: "length (ring_list f cap h n) = n"
  by (simp add: ring_list_def)

lemma ring_list_0 [simp]: "ring_list f cap h 0 = []"
  by (simp add: ring_list_def)

lemma ring_list_enqueue:
  assumes "n < cap"
  shows "ring_list (f((h + n) mod cap := x)) cap h (Suc n) = ring_list f cap h n @ [x]"
proof -
  have "(h + k) mod cap \<noteq> (h + n) mod cap" if "k < n" for k
  proof
    assume "(h + k) mod cap = (h + n) mod cap"
    then have "(n - k) mod cap = 0"
      using that by (metis add_diff_cancel_left less_imp_le mod_eq_dvd_iff_nat
          mod_0_imp_dvd dvd_imp_mod_0 nat_add_left_cancel_le)
    then show False
      using that assms by simp
  qed
  then show ?thesis
    by (simp add: ring_list_def)
qed

lemma ring_list_dequeue:
  assumes "0 < n"
  shows "ring_list f cap h n = f (h mod cap) # ring_list f cap ((h + 1) mod cap) (n - 1)"
proof -
  obtain m where m: "n = Suc m"
    using assms by (cases n) auto
  have "(h + Suc k) mod cap = ((h + 1) mod cap + k) mod cap" for k
    by (simp add: mod_add_left_eq)
  then show ?thesis
    unfolding m ring_list_def
    by (simp del: upt_Suc add: upt_conv_Cons map_Suc_upt [symmetric])
qed

subsection \<open>Invariants over runs\<close>

text \<open>
  The contract of a component with a step function: every step keeps the invariant. Its clients
  run sequences of operations; what they use is that the invariant holds after any sequence.
\<close>

locale step_system =
  fixes step :: "'op \<Rightarrow> 'st \<Rightarrow> 'st"
    and inv :: "'st \<Rightarrow> bool"
  assumes step_inv: "inv s \<Longrightarrow> inv (step op s)"
begin

lemma run_inv: "inv s \<Longrightarrow> inv (fold step ops s)"
  by (induction ops arbitrary: s) (auto intro: step_inv)

lemma run_take_inv: "inv s \<Longrightarrow> inv (fold step (take k ops) s)"
  by (rule run_inv)

end

text \<open>
  Counters that wrap: every operation adds its weight, modulo the width of the counter. A client learns
  that a value read earlier cannot come back before the counter has gone all the way round.
\<close>

locale wrapping_counter =
  fixes step :: "'op \<Rightarrow> 'st \<Rightarrow> 'st"
    and counter :: "'st \<Rightarrow> nat"
    and weight :: "'op \<Rightarrow> nat"
    and modulus :: nat
  assumes counter_step: "counter (step op s) = (counter s + weight op) mod modulus"
    and counter_less: "counter s < modulus"
begin

lemma counter_run: "counter (fold step ops s) = (counter s + sum_list (map weight ops)) mod modulus"
proof (induction ops arbitrary: s)
  case Nil
  then show ?case
    using counter_less by simp
next
  case (Cons op ops)
  then show ?case
    by (simp add: counter_step mod_add_left_eq add.assoc)
qed

lemma counter_fresh:
  assumes "0 < sum_list (map weight ops)" and "sum_list (map weight ops) < modulus"
  shows "counter (fold step ops s) \<noteq> counter s"
proof
  assume "counter (fold step ops s) = counter s"
  then have "(counter s + sum_list (map weight ops)) mod modulus = counter s"
    using counter_run by simp
  moreover have "(counter s + sum_list (map weight ops)) mod modulus =
      (if counter s + sum_list (map weight ops) < modulus then counter s + sum_list (map weight ops)
       else counter s + sum_list (map weight ops) - modulus)"
    using assms(2) counter_less [of s] by (simp add: mod_if)
  ultimately show False
    using assms by (simp split: if_splits)
qed

end

end
