(* ===== verification/Slot_Registry.thy ===== *)
theory Slot_Registry
  imports Peak_Prelude
begin

text \<open>
  The pthread slot registry of \<^verbatim>\<open>src/pthread_slot_registry.c\<close>: the table that gives every
  application thread a slot of PEAK's per-thread statistics arrays. Every operation runs under the
  registry's mutex and is one state transformer here. The entry table and the ring of reusable
  slots are the C arrays, as functions from the index; only indices below the capacity are used.
  \<^verbatim>\<open>uint64_t\<close> generations are 64-bit words, so their wrap-around is the code's. A NULL registry or
  NULL output pointer, on which the C operations return false without an effect, has no model
  value: the outputs are results of the functions.

  After the definitions: the invariant and its preservation, the refinement of the slot
  allocation to a set of held slots and a FIFO queue of reusable slots, the rejection of stale
  tokens, and the start handshake.
\<close>

subsection \<open>State\<close>

type_synonym pthread_t = "64 word"
type_synonym pid_t = int

definition PEAK_PTHREAD_SLOT_REGISTRY_MAX_CAPACITY :: nat where
  "PEAK_PTHREAD_SLOT_REGISTRY_MAX_CAPACITY = 4096"

record PeakPthreadSlotToken =
  slot :: nat
  generation :: uint64

record PeakPthreadDetachedCandidate =
  cand_token :: PeakPthreadSlotToken
  cand_kernel_tid :: pid_t

record PeakPthreadSlotRegistryEntry =
  tid :: pthread_t
  token :: PeakPthreadSlotToken
  kernel_tid :: pid_t
  occupied :: bool
  detached :: bool
  final_destructor_pass :: bool
  exit_pending :: bool
  retiring :: bool

record PeakPthreadSlotRegistry =
  entries :: "nat \<Rightarrow> PeakPthreadSlotRegistryEntry"
  reusable :: "nat \<Rightarrow> nat"
  reusable_head :: nat
  reusable_count :: nat
  next_slot :: nat
  capacity :: nat
  reclaim_cursor :: nat
  exit_pending_count :: nat
  max_exit_pending_count :: nat
  next_generation :: uint64
  initialized :: bool

definition zero_entry :: PeakPthreadSlotRegistryEntry where
  "zero_entry = \<lparr>tid = 0, token = \<lparr>slot = 0, generation = 0\<rparr>, kernel_tid = 0, occupied = False,
     detached = False, final_destructor_pass = False, exit_pending = False, retiring = False\<rparr>"

definition zero_registry :: PeakPthreadSlotRegistry where
  "zero_registry = \<lparr>entries = (\<lambda>_. zero_entry), reusable = (\<lambda>_. 0), reusable_head = 0,
     reusable_count = 0, next_slot = 0, capacity = 0, reclaim_cursor = 0, exit_pending_count = 0,
     max_exit_pending_count = 0, next_generation = 0, initialized = False\<rparr>"

text \<open>Writing one entry of the table.\<close>

definition set_entry ::
  "nat \<Rightarrow> PeakPthreadSlotRegistryEntry \<Rightarrow> PeakPthreadSlotRegistry \<Rightarrow> PeakPthreadSlotRegistry" where
  "set_entry i e r = r\<lparr>entries := (entries r)(i := e)\<rparr>"

subsection \<open>Internal operations\<close>

definition find_unlocked :: "PeakPthreadSlotRegistry \<Rightarrow> pthread_t \<Rightarrow> nat option" where
  "find_unlocked r t = List.find (\<lambda>i. occupied (entries r i) \<and> tid (entries r i) = t) [0..<capacity r]"

definition find_token_unlocked :: "PeakPthreadSlotRegistry \<Rightarrow> PeakPthreadSlotToken \<Rightarrow> nat option" where
  "find_token_unlocked r tk =
     (if capacity r \<le> slot tk then None
      else if \<not> occupied (entries r (slot tk)) \<or> generation (token (entries r (slot tk))) \<noteq> generation tk
      then None
      else Some (slot tk))"

definition discard_unlocked :: "nat \<Rightarrow> PeakPthreadSlotRegistry \<Rightarrow> PeakPthreadSlotRegistry" where
  "discard_unlocked i r =
     (let e = entries r i;
          r1 = (if exit_pending e \<and> exit_pending_count r \<noteq> 0
                then r\<lparr>exit_pending_count := exit_pending_count r - 1\<rparr> else r)
      in set_entry i (e\<lparr>occupied := False, detached := False, final_destructor_pass := False,
                        exit_pending := False, retiring := False, kernel_tid := 0\<rparr>) r1)"

definition update_exit_pending_unlocked ::
  "nat \<Rightarrow> PeakPthreadSlotRegistry \<Rightarrow> bool \<times> PeakPthreadSlotRegistry" where
  "update_exit_pending_unlocked i r =
     (let e = entries r i in
      if exit_pending e \<or> retiring e \<or> \<not> detached e \<or> \<not> final_destructor_pass e \<or> kernel_tid e \<le> 0
      then (False, r)
      else let r1 = (set_entry i (e\<lparr>exit_pending := True\<rparr>) r)
                      \<lparr>exit_pending_count := exit_pending_count r + 1\<rparr>;
               r2 = (if exit_pending_count r1 > max_exit_pending_count r1
                     then r1\<lparr>max_exit_pending_count := exit_pending_count r1\<rparr> else r1)
           in (True, r2))"

definition enqueue_reusable_unlocked :: "nat \<Rightarrow> PeakPthreadSlotRegistry \<Rightarrow> PeakPthreadSlotRegistry" where
  "enqueue_reusable_unlocked s r =
     (let reusable_tail = (reusable_head r + reusable_count r) mod capacity r
      in r\<lparr>reusable := (reusable r)(reusable_tail := s), reusable_count := reusable_count r + 1\<rparr>)"

subsection \<open>Interface operations\<close>

text \<open>\<open>mutex_ok\<close> is the outcome of \<^verbatim>\<open>pthread_mutex_init\<close>.\<close>

definition registry_init ::
  "bool \<Rightarrow> nat \<Rightarrow> PeakPthreadSlotRegistry \<Rightarrow> bool \<times> PeakPthreadSlotRegistry" where
  "registry_init mutex_ok cap r =
     (if cap > PEAK_PTHREAD_SLOT_REGISTRY_MAX_CAPACITY then (False, r)
      else if \<not> mutex_ok then (False, zero_registry)
      else (True, zero_registry\<lparr>capacity := cap, initialized := True\<rparr>))"

definition registry_destroy :: "PeakPthreadSlotRegistry \<Rightarrow> PeakPthreadSlotRegistry" where
  "registry_destroy r = (if \<not> initialized r then r else r\<lparr>initialized := False\<rparr>)"

text \<open>The slot and generation chosen by a reservation, then the reservation itself.\<close>

definition take_slot :: "PeakPthreadSlotRegistry \<Rightarrow> (nat \<times> PeakPthreadSlotRegistry) option" where
  "take_slot r =
     (if reusable_count r \<noteq> 0 then
        Some (reusable r (reusable_head r),
              r\<lparr>reusable_head := (reusable_head r + 1) mod capacity r,
                reusable_count := reusable_count r - 1\<rparr>)
      else if next_slot r < capacity r then
        Some (next_slot r, r\<lparr>next_slot := next_slot r + 1\<rparr>)
      else None)"

definition bump_generation :: "uint64 \<Rightarrow> uint64" where
  "bump_generation g = (if g + 1 = 0 then g + 1 + 1 else g + 1)"

definition reserve_insert ::
  "pthread_t \<Rightarrow> PeakPthreadSlotRegistry \<Rightarrow> PeakPthreadSlotToken option \<times> PeakPthreadSlotRegistry" where
  "reserve_insert t r =
     (if \<not> initialized r then (None, r)
      else
        let old_entry = find_unlocked r t;
            drop_old = (\<lambda>q. case old_entry of None \<Rightarrow> q | Some i \<Rightarrow> discard_unlocked i q)
        in case take_slot r of
             None \<Rightarrow> (None, drop_old r)
           | Some (s, r1) \<Rightarrow>
               let r2 = drop_old r1;
                   g = bump_generation (next_generation r2);
                   tk = \<lparr>slot = s, generation = g\<rparr>;
                   e = zero_entry\<lparr>tid := t, token := tk, occupied := True\<rparr>
               in (Some tk, (set_entry s e r2)\<lparr>next_generation := g\<rparr>))"

definition capture :: "pthread_t \<Rightarrow> PeakPthreadSlotRegistry \<Rightarrow> PeakPthreadSlotToken option" where
  "capture t r =
     (if \<not> initialized r then None
      else case find_unlocked r t of
             None \<Rightarrow> None
           | Some i \<Rightarrow> if retiring (entries r i) then None else Some (token (entries r i)))"

definition recycle_and_discard ::
  "bool \<Rightarrow> nat \<Rightarrow> PeakPthreadSlotRegistry \<Rightarrow> PeakPthreadSlotRegistry" where
  "recycle_and_discard reuse i r =
     discard_unlocked i (if reuse then enqueue_reusable_unlocked (slot (token (entries r i))) r else r)"

definition compare_remove ::
  "pthread_t \<Rightarrow> uint64 \<Rightarrow> bool \<Rightarrow> PeakPthreadSlotRegistry \<Rightarrow> bool \<times> PeakPthreadSlotRegistry" where
  "compare_remove t g reuse r =
     (if \<not> initialized r then (False, r)
      else case find_unlocked r t of
             None \<Rightarrow> (False, r)
           | Some i \<Rightarrow>
               if retiring (entries r i) \<or> generation (token (entries r i)) \<noteq> g then (False, r)
               else (True, recycle_and_discard reuse i r))"

definition compare_remove_token ::
  "PeakPthreadSlotToken \<Rightarrow> bool \<Rightarrow> PeakPthreadSlotRegistry \<Rightarrow> bool \<times> PeakPthreadSlotRegistry" where
  "compare_remove_token tk reuse r =
     (if \<not> initialized r then (False, r)
      else case find_token_unlocked r tk of
             None \<Rightarrow> (False, r)
           | Some i \<Rightarrow> if retiring (entries r i) then (False, r)
                       else (True, recycle_and_discard reuse i r))"

definition begin_retire ::
  "PeakPthreadSlotToken \<Rightarrow> PeakPthreadSlotRegistry \<Rightarrow> bool \<times> PeakPthreadSlotRegistry" where
  "begin_retire tk r =
     (if \<not> initialized r then (False, r)
      else case find_token_unlocked r tk of
             None \<Rightarrow> (False, r)
           | Some i \<Rightarrow> if retiring (entries r i) then (False, r)
                       else (True, set_entry i ((entries r i)\<lparr>retiring := True\<rparr>) r))"

definition complete_retire ::
  "PeakPthreadSlotToken \<Rightarrow> bool \<Rightarrow> PeakPthreadSlotRegistry \<Rightarrow> bool \<times> PeakPthreadSlotRegistry" where
  "complete_retire tk reuse r =
     (if \<not> initialized r then (False, r)
      else case find_token_unlocked r tk of
             None \<Rightarrow> (False, r)
           | Some i \<Rightarrow> if \<not> retiring (entries r i) then (False, r)
                       else (True, recycle_and_discard reuse i r))"

definition defer_retire ::
  "PeakPthreadSlotToken \<Rightarrow> PeakPthreadSlotRegistry \<Rightarrow> bool \<times> PeakPthreadSlotRegistry" where
  "defer_retire tk r =
     (if \<not> initialized r then (False, r)
      else case find_token_unlocked r tk of
             None \<Rightarrow> (False, r)
           | Some i \<Rightarrow> if \<not> retiring (entries r i) then (False, r)
                       else (True, set_entry i ((entries r i)\<lparr>retiring := False\<rparr>) r))"

definition mark_kernel_tid ::
  "PeakPthreadSlotToken \<Rightarrow> pid_t \<Rightarrow> PeakPthreadSlotRegistry \<Rightarrow> bool \<times> PeakPthreadSlotRegistry" where
  "mark_kernel_tid tk k r =
     (if \<not> initialized r \<or> k \<le> 0 then (False, r)
      else case find_token_unlocked r tk of
             None \<Rightarrow> (False, r)
           | Some i \<Rightarrow>
               (True, snd (update_exit_pending_unlocked i
                            (set_entry i ((entries r i)\<lparr>kernel_tid := k\<rparr>) r))))"

text \<open>The two marks below return (success, \<^verbatim>\<open>*became_exit_pending\<close>, registry).\<close>

definition mark_detached ::
  "pthread_t \<Rightarrow> uint64 \<Rightarrow> PeakPthreadSlotRegistry \<Rightarrow> bool \<times> bool \<times> PeakPthreadSlotRegistry" where
  "mark_detached t g r =
     (if \<not> initialized r then (False, False, r)
      else case find_unlocked r t of
             None \<Rightarrow> (False, False, r)
           | Some i \<Rightarrow>
               if generation (token (entries r i)) = g
               then (True, update_exit_pending_unlocked i
                             (set_entry i ((entries r i)\<lparr>detached := True\<rparr>) r))
               else (False, False, r))"

definition mark_final_destructor ::
  "PeakPthreadSlotToken \<Rightarrow> PeakPthreadSlotRegistry \<Rightarrow> bool \<times> bool \<times> PeakPthreadSlotRegistry" where
  "mark_final_destructor tk r =
     (if \<not> initialized r then (False, False, r)
      else case find_token_unlocked r tk of
             None \<Rightarrow> (False, False, r)
           | Some i \<Rightarrow>
               (True, update_exit_pending_unlocked i
                        (set_entry i ((entries r i)\<lparr>final_destructor_pass := True\<rparr>) r)))"

definition snapshot_exit_pending ::
  "nat \<Rightarrow> PeakPthreadSlotRegistry \<Rightarrow>
    PeakPthreadDetachedCandidate list \<times> nat \<times> PeakPthreadSlotRegistry" where
  "snapshot_exit_pending budget r =
     (if \<not> initialized r \<or> budget = 0 \<or> capacity r = 0 then ([], 0, r)
      else
        let limit = min budget (capacity r);
            indices = map (\<lambda>examined. (reclaim_cursor r + examined) mod capacity r) [0..<limit];
            due = filter (\<lambda>i. occupied (entries r i) \<and> exit_pending (entries r i)
                              \<and> \<not> retiring (entries r i)) indices
        in (map (\<lambda>i. \<lparr>cand_token = token (entries r i), cand_kernel_tid = kernel_tid (entries r i)\<rparr>) due,
            limit,
            r\<lparr>reclaim_cursor := (reclaim_cursor r + limit) mod capacity r\<rparr>))"

definition registry_exit_pending_count :: "PeakPthreadSlotRegistry \<Rightarrow> nat \<times> nat" where
  "registry_exit_pending_count r =
     (if \<not> initialized r then (0, 0) else (exit_pending_count r, max_exit_pending_count r))"

definition quarantine :: "pthread_t \<Rightarrow> PeakPthreadSlotRegistry \<Rightarrow> bool \<times> PeakPthreadSlotRegistry" where
  "quarantine t r =
     (if \<not> initialized r then (False, r)
      else case find_unlocked r t of
             None \<Rightarrow> (False, r)
           | Some i \<Rightarrow> (True, discard_unlocked i r))"

definition contains :: "pthread_t \<Rightarrow> PeakPthreadSlotRegistry \<Rightarrow> bool" where
  "contains t r = (capture t r \<noteq> None)"

text \<open>\<open>buffers\<close>: whether both output arrays were given; \<open>room\<close>: how many elements they hold. The
  result is the copied (thread, slot) pairs and \<^verbatim>\<open>*complete\<close>.\<close>

definition snapshot ::
  "bool \<Rightarrow> nat \<Rightarrow> PeakPthreadSlotRegistry \<Rightarrow> (pthread_t \<times> nat) list \<times> bool" where
  "snapshot buffers room r =
     (if \<not> initialized r then ([], True)
      else
        let live = filter (\<lambda>i. occupied (entries r i)) [0..<capacity r];
            copied = (if buffers then take room live else [])
        in (map (\<lambda>i. (tid (entries r i), slot (token (entries r i)))) copied,
            length copied = length live))"

subsection \<open>Start handshake\<close>

datatype PeakPthreadStartHandshakeState =
    PEAK_PTHREAD_START_PENDING | PEAK_PTHREAD_START_READY | PEAK_PTHREAD_START_ABANDONED

text \<open>A strong compare-and-exchange on the shared handshake word: (success, new value).\<close>

definition cas_start ::
  "PeakPthreadStartHandshakeState \<Rightarrow> PeakPthreadStartHandshakeState \<Rightarrow>
   PeakPthreadStartHandshakeState \<Rightarrow> bool \<times> PeakPthreadStartHandshakeState" where
  "cas_start expected desired st = (if st = expected then (True, desired) else (False, st))"

definition publish_ready :: "PeakPthreadStartHandshakeState \<Rightarrow> bool \<times> PeakPthreadStartHandshakeState" where
  "publish_ready st = cas_start PEAK_PTHREAD_START_PENDING PEAK_PTHREAD_START_READY st"

definition abandon_start :: "PeakPthreadStartHandshakeState \<Rightarrow> PeakPthreadStartHandshakeState" where
  "abandon_start st = snd (cas_start PEAK_PTHREAD_START_PENDING PEAK_PTHREAD_START_ABANDONED st)"

text \<open>
  \<^verbatim>\<open>peak_pthread_slot_registry_wait_ready\<close>. Its environment: whether the gate is ready, the
  deadline could be computed and the gate mutex locked (\<open>gate_ok\<close>), whether the starter publishes
  between the first load and the locked section, and, for every timed wait, whether the starter
  published while the waiter slept and what the wait returned. The result is the state the caller
  sees with the shared word, or \<open>None\<close> while the waiter is still asleep.
\<close>

fun wait_loop ::
  "(bool \<times> int) list \<Rightarrow> PeakPthreadStartHandshakeState \<Rightarrow> PeakPthreadStartHandshakeState option" where
  "wait_loop [] st = (if st \<noteq> PEAK_PTHREAD_START_PENDING then Some st else None)"
| "wait_loop ((published, wait_status) # waits) st =
     (if st \<noteq> PEAK_PTHREAD_START_PENDING then Some st
      else let st1 = (if published then snd (publish_ready st) else st)
           in if wait_status \<noteq> 0 then Some (abandon_start st1) else wait_loop waits st1)"

definition wait_ready ::
  "nat \<Rightarrow> bool \<Rightarrow> bool \<Rightarrow> (bool \<times> int) list \<Rightarrow> PeakPthreadStartHandshakeState \<Rightarrow>
   PeakPthreadStartHandshakeState option" where
  "wait_ready timeout_ms gate_ok published waits st =
     (if st \<noteq> PEAK_PTHREAD_START_PENDING then Some st
      else let st1 = (if published then snd (publish_ready st) else st)
           in if timeout_ms = 0 \<or> \<not> gate_ok then Some (abandon_start st1)
              else wait_loop waits st1)"

text \<open>The deadline of the wait: seconds and nanoseconds of \<^verbatim>\<open>CLOCK_MONOTONIC\<close> now, a timeout in
  milliseconds; \<open>None\<close> is a failing \<^verbatim>\<open>clock_gettime\<close>.\<close>

definition start_deadline :: "(int \<times> int) option \<Rightarrow> uint32 \<Rightarrow> (int \<times> int) option" where
  "start_deadline now timeout_ms =
     (case now of
        None \<Rightarrow> None
      | Some (tv_sec, tv_nsec) \<Rightarrow>
          let sec = tv_sec + uint timeout_ms div 1000;
              nsec = tv_nsec + (uint timeout_ms mod 1000) * 1000000
          in if nsec \<ge> 1000000000 then Some (sec + 1, nsec - 1000000000) else Some (sec, nsec))"

subsection \<open>Runs of the registry\<close>

datatype slot_op =
    Reserve pthread_t
  | Compare_remove pthread_t uint64 bool
  | Compare_remove_token PeakPthreadSlotToken bool
  | Begin_retire PeakPthreadSlotToken
  | Complete_retire PeakPthreadSlotToken bool
  | Defer_retire PeakPthreadSlotToken
  | Mark_kernel_tid PeakPthreadSlotToken pid_t
  | Mark_detached pthread_t uint64
  | Mark_final_destructor PeakPthreadSlotToken
  | Snapshot_exit_pending nat
  | Quarantine pthread_t

fun slot_step :: "slot_op \<Rightarrow> PeakPthreadSlotRegistry \<Rightarrow> PeakPthreadSlotRegistry" where
  "slot_step (Reserve t) r = snd (reserve_insert t r)"
| "slot_step (Compare_remove t g reuse) r = snd (compare_remove t g reuse r)"
| "slot_step (Compare_remove_token tk reuse) r = snd (compare_remove_token tk reuse r)"
| "slot_step (Begin_retire tk) r = snd (begin_retire tk r)"
| "slot_step (Complete_retire tk reuse) r = snd (complete_retire tk reuse r)"
| "slot_step (Defer_retire tk) r = snd (defer_retire tk r)"
| "slot_step (Mark_kernel_tid tk k) r = snd (mark_kernel_tid tk k r)"
| "slot_step (Mark_detached t g) r = snd (snd (mark_detached t g r))"
| "slot_step (Mark_final_destructor tk) r = snd (snd (mark_final_destructor tk r))"
| "slot_step (Snapshot_exit_pending b) r = snd (snd (snapshot_exit_pending b r))"
| "slot_step (Quarantine t) r = snd (quarantine t r)"

subsection \<open>The invariant\<close>

definition reusable_list :: "PeakPthreadSlotRegistry \<Rightarrow> nat list" where
  "reusable_list r = ring_list (reusable r) (capacity r) (reusable_head r) (reusable_count r)"

definition pending_set :: "PeakPthreadSlotRegistry \<Rightarrow> nat set" where
  "pending_set r = {i. i < capacity r \<and> exit_pending (entries r i)}"

text \<open>What an entry promises by itself: an unoccupied entry carries no flag, the token of an occupied
  entry names its own slot and a nonzero generation, and an entry waits for the exit of its thread
  only when the thread is detached, past its last destructor pass and known to the kernel.\<close>

definition entry_ok :: "nat \<Rightarrow> PeakPthreadSlotRegistryEntry \<Rightarrow> bool" where
  "entry_ok i e \<longleftrightarrow>
     (\<not> occupied e \<longrightarrow> \<not> exit_pending e \<and> \<not> retiring e) \<and>
     (occupied e \<longrightarrow> slot (token e) = i \<and> generation (token e) \<noteq> 0) \<and>
     (exit_pending e \<longrightarrow> detached e \<and> final_destructor_pass e \<and> kernel_tid e > 0)"

definition queue_ok :: "PeakPthreadSlotRegistry \<Rightarrow> bool" where
  "queue_ok r \<longleftrightarrow>
     (capacity r \<noteq> 0 \<longrightarrow> reusable_head r < capacity r) \<and>
     reusable_count r \<le> capacity r \<and>
     distinct (reusable_list r) \<and>
     (\<forall>s \<in> set (reusable_list r). s < next_slot r \<and> \<not> occupied (entries r s))"

definition registry_inv :: "PeakPthreadSlotRegistry \<Rightarrow> bool" where
  "registry_inv r \<longleftrightarrow>
     capacity r \<le> PEAK_PTHREAD_SLOT_REGISTRY_MAX_CAPACITY \<and>
     next_slot r \<le> capacity r \<and>
     queue_ok r \<and>
     (\<forall>i. entry_ok i (entries r i)) \<and>
     (\<forall>i. occupied (entries r i) \<longrightarrow> i < next_slot r) \<and>
     (\<forall>i j. occupied (entries r i) \<longrightarrow> occupied (entries r j) \<longrightarrow>
            tid (entries r i) = tid (entries r j) \<longrightarrow> i = j) \<and>
     exit_pending_count r = card (pending_set r) \<and>
     exit_pending_count r \<le> max_exit_pending_count r"

text \<open>The slots that are handed out and not given back: what the clients of the registry own, and
  what was quarantined.\<close>

definition held :: "PeakPthreadSlotRegistry \<Rightarrow> nat set" where
  "held r = {..<next_slot r} - set (reusable_list r)"

subsection \<open>Frame facts\<close>

lemma set_entry_simps [simp]:
  "entries (set_entry i e r) = (entries r)(i := e)"
  "reusable (set_entry i e r) = reusable r"
  "reusable_head (set_entry i e r) = reusable_head r"
  "reusable_count (set_entry i e r) = reusable_count r"
  "next_slot (set_entry i e r) = next_slot r"
  "capacity (set_entry i e r) = capacity r"
  "reclaim_cursor (set_entry i e r) = reclaim_cursor r"
  "exit_pending_count (set_entry i e r) = exit_pending_count r"
  "max_exit_pending_count (set_entry i e r) = max_exit_pending_count r"
  "next_generation (set_entry i e r) = next_generation r"
  "initialized (set_entry i e r) = initialized r"
  by (simp_all add: set_entry_def)

lemma reusable_list_set_entry [simp]: "reusable_list (set_entry i e r) = reusable_list r"
  by (simp add: reusable_list_def)

lemma find_unlocked_Some:
  "find_unlocked r t = Some i \<Longrightarrow> i < capacity r \<and> occupied (entries r i) \<and> tid (entries r i) = t"
  by (simp add: find_unlocked_def find_upt_Some)

lemma find_unlocked_None:
  "find_unlocked r t = None \<longleftrightarrow> (\<forall>i < capacity r. occupied (entries r i) \<longrightarrow> tid (entries r i) \<noteq> t)"
  by (auto simp: find_unlocked_def find_upt_None)

lemma find_token_unlocked_Some:
  "find_token_unlocked r tk = Some i \<longleftrightarrow>
     i = slot tk \<and> i < capacity r \<and> occupied (entries r i) \<and> generation (token (entries r i)) = generation tk"
  by (auto simp: find_token_unlocked_def split: if_splits)

lemma discard_frame [simp]:
  "reusable (discard_unlocked i r) = reusable r"
  "reusable_head (discard_unlocked i r) = reusable_head r"
  "reusable_count (discard_unlocked i r) = reusable_count r"
  "next_slot (discard_unlocked i r) = next_slot r"
  "capacity (discard_unlocked i r) = capacity r"
  "next_generation (discard_unlocked i r) = next_generation r"
  "initialized (discard_unlocked i r) = initialized r"
  "max_exit_pending_count (discard_unlocked i r) = max_exit_pending_count r"
  "reusable_list (discard_unlocked i r) = reusable_list r"
  by (simp_all add: discard_unlocked_def Let_def reusable_list_def)

lemma discard_entries:
  "entries (discard_unlocked i r) j =
     (if j = i then (entries r i)\<lparr>occupied := False, detached := False, final_destructor_pass := False,
                        exit_pending := False, retiring := False, kernel_tid := 0\<rparr>
      else entries r j)"
  by (simp add: discard_unlocked_def Let_def)

lemma discard_occupied [simp]:
  "occupied (entries (discard_unlocked i r) j) \<longleftrightarrow> j \<noteq> i \<and> occupied (entries r j)"
  by (simp add: discard_entries)

lemma update_exit_pending_frame [simp]:
  "reusable (snd (update_exit_pending_unlocked i r)) = reusable r"
  "reusable_head (snd (update_exit_pending_unlocked i r)) = reusable_head r"
  "reusable_count (snd (update_exit_pending_unlocked i r)) = reusable_count r"
  "next_slot (snd (update_exit_pending_unlocked i r)) = next_slot r"
  "capacity (snd (update_exit_pending_unlocked i r)) = capacity r"
  "next_generation (snd (update_exit_pending_unlocked i r)) = next_generation r"
  "initialized (snd (update_exit_pending_unlocked i r)) = initialized r"
  "reusable_list (snd (update_exit_pending_unlocked i r)) = reusable_list r"
  "occupied (entries (snd (update_exit_pending_unlocked i r)) j) = occupied (entries r j)"
  "token (entries (snd (update_exit_pending_unlocked i r)) j) = token (entries r j)"
  "tid (entries (snd (update_exit_pending_unlocked i r)) j) = tid (entries r j)"
  by (simp_all add: update_exit_pending_unlocked_def Let_def reusable_list_def)

subsection \<open>Consequences of the invariant\<close>

lemma pending_set_finite [simp]: "finite (pending_set r)"
  by (simp add: pending_set_def)

lemma registry_invD:
  assumes "registry_inv r"
  shows "next_slot r \<le> capacity r" "queue_ok r" "entry_ok i (entries r i)"
    "occupied (entries r i) \<Longrightarrow> i < next_slot r"
    "exit_pending (entries r i) \<Longrightarrow> occupied (entries r i)"
    "exit_pending_count r = card (pending_set r)"
    "exit_pending_count r \<le> max_exit_pending_count r"
    "capacity r \<le> PEAK_PTHREAD_SLOT_REGISTRY_MAX_CAPACITY"
  using assms unfolding registry_inv_def entry_ok_def by blast+

lemma find_unlocked_eq:
  assumes "registry_inv r" and "occupied (entries r i)"
  shows "find_unlocked r (tid (entries r i)) = Some i"
proof -
  have "i < capacity r"
    using assms registry_invD(1,4) by (metis order_less_le_trans)
  then show ?thesis
    unfolding find_unlocked_def
    using assms by (intro find_upt_unique) (auto simp: registry_inv_def)
qed

text \<open>The ring is never full when a slot is given back: the reusable slots are distinct, below
  \<^verbatim>\<open>next_slot\<close>, and do not contain the occupied slot that is given back.\<close>

lemma ring_has_room:
  assumes "registry_inv r" and "occupied (entries r i)"
  shows "reusable_count r < capacity r"
proof -
  have q: "queue_ok r" and i: "i < next_slot r"
    using assms registry_invD by auto
  have "set (reusable_list r) \<subseteq> {..<next_slot r} - {i}"
    using q assms(2) by (auto simp: queue_ok_def)
  then have "card (set (reusable_list r)) \<le> card ({..<next_slot r} - {i})"
    by (intro card_mono) auto
  moreover have "card (set (reusable_list r)) = reusable_count r"
    using q by (simp add: queue_ok_def distinct_card) (simp add: reusable_list_def)
  ultimately show ?thesis
    using i registry_invD(1) [OF assms(1)] by simp
qed

lemma enqueue_list:
  assumes "reusable_count r < capacity r"
  shows "reusable_list (enqueue_reusable_unlocked s r) = reusable_list r @ [s]"
  using ring_list_enqueue [OF assms] by (simp add: enqueue_reusable_unlocked_def reusable_list_def Let_def)

lemma enqueue_frame [simp]:
  "entries (enqueue_reusable_unlocked s r) = entries r"
  "next_slot (enqueue_reusable_unlocked s r) = next_slot r"
  "capacity (enqueue_reusable_unlocked s r) = capacity r"
  "reusable_head (enqueue_reusable_unlocked s r) = reusable_head r"
  "next_generation (enqueue_reusable_unlocked s r) = next_generation r"
  "initialized (enqueue_reusable_unlocked s r) = initialized r"
  "exit_pending_count (enqueue_reusable_unlocked s r) = exit_pending_count r"
  "max_exit_pending_count (enqueue_reusable_unlocked s r) = max_exit_pending_count r"
  "pending_set (enqueue_reusable_unlocked s r) = pending_set r"
  by (simp_all add: enqueue_reusable_unlocked_def pending_set_def Let_def)

subsection \<open>Preservation, operation by operation\<close>

text \<open>Changing flags of an occupied entry other than \<^verbatim>\<open>exit_pending\<close>.\<close>

lemma registry_inv_set_entry:
  assumes "registry_inv r" and "occupied (entries r i)"
    and "occupied e" "tid e = tid (entries r i)" "exit_pending e = exit_pending (entries r i)"
    and "entry_ok i e"
  shows "registry_inv (set_entry i e r)"
proof -
  have "pending_set (set_entry i e r) = pending_set r"
    using assms(5) by (auto simp: pending_set_def)
  then show ?thesis
    using assms unfolding registry_inv_def queue_ok_def by auto
qed

lemma registry_inv_update_exit_pending:
  assumes "registry_inv r" and "occupied (entries r i)"
  shows "registry_inv (snd (update_exit_pending_unlocked i r))"
proof (cases "exit_pending (entries r i) \<or> retiring (entries r i) \<or> \<not> detached (entries r i)
    \<or> \<not> final_destructor_pass (entries r i) \<or> kernel_tid (entries r i) \<le> 0")
  case True
  then show ?thesis
    using assms(1) by (auto simp: update_exit_pending_unlocked_def Let_def)
next
  case False
  let ?r = "snd (update_exit_pending_unlocked i r)"
  have i: "i < capacity r" "i \<notin> pending_set r"
    using False assms registry_invD(1,4) by (auto simp: pending_set_def intro: order_less_le_trans)
  have ent: "entries ?r = (entries r)(i := (entries r i)\<lparr>exit_pending := True\<rparr>)"
    and cnt: "exit_pending_count ?r = exit_pending_count r + 1"
    and mx: "exit_pending_count ?r \<le> max_exit_pending_count ?r"
    using False by (auto simp: update_exit_pending_unlocked_def Let_def)
  have "pending_set ?r = insert i (pending_set r)"
    using i ent by (auto simp: pending_set_def)
  then have "exit_pending_count ?r = card (pending_set ?r)"
    using i cnt registry_invD(6) [OF assms(1)] by simp
  moreover have "entry_ok j (entries ?r j)" for j
    using registry_invD(3) [OF assms(1), of j] assms(2) False ent by (auto simp: entry_ok_def)
  ultimately show ?thesis
    using assms mx unfolding registry_inv_def queue_ok_def by auto
qed

lemma registry_inv_discard:
  assumes "registry_inv r" and "i < capacity r"
  shows "registry_inv (discard_unlocked i r)"
proof -
  let ?r = "discard_unlocked i r"
  have ps: "pending_set ?r = pending_set r - {i}"
    by (auto simp: pending_set_def discard_entries)
  have "exit_pending_count ?r = card (pending_set ?r)"
  proof (cases "exit_pending (entries r i)")
    case True
    then have "i \<in> pending_set r"
      using assms(2) by (simp add: pending_set_def)
    then have "exit_pending_count r \<noteq> 0" and "card (pending_set r - {i}) = exit_pending_count r - 1"
      using registry_invD(6) [OF assms(1)] by (auto simp: card_gt_0_iff)
    then show ?thesis
      using True ps by (simp add: discard_unlocked_def Let_def)
  next
    case False
    then have "pending_set r - {i} = pending_set r"
      by (auto simp: pending_set_def)
    then show ?thesis
      using False ps registry_invD(6) [OF assms(1)] by (simp add: discard_unlocked_def Let_def)
  qed
  moreover have "exit_pending_count ?r \<le> exit_pending_count r"
    by (simp add: discard_unlocked_def Let_def)
  moreover have "entry_ok j (entries ?r j)" for j
    using registry_invD(3) [OF assms(1), of j] by (auto simp: entry_ok_def discard_entries)
  moreover have "queue_ok ?r"
    using registry_invD(2) [OF assms(1)] by (auto simp: queue_ok_def)
  ultimately show ?thesis
    using assms(1) registry_invD(7) [OF assms(1)]
    unfolding registry_inv_def by (auto simp: discard_entries)
qed

lemma recycle_frame:
  "recycle_and_discard True i r =
     enqueue_reusable_unlocked (slot (token (entries r i))) (discard_unlocked i r)"
  by (simp add: recycle_and_discard_def discard_unlocked_def enqueue_reusable_unlocked_def Let_def
      set_entry_def)

lemma registry_inv_recycle:
  assumes "registry_inv r" and "occupied (entries r i)"
  shows "registry_inv (recycle_and_discard reuse i r)"
proof (cases reuse)
  case False
  have "i < capacity r"
    using assms registry_invD(1) registry_invD(4) by (meson order_less_le_trans)
  then show ?thesis
    using False registry_inv_discard [OF assms(1)] by (simp add: recycle_and_discard_def)
next
  case True
  let ?d = "discard_unlocked i r"
  let ?r = "enqueue_reusable_unlocked i ?d"
  have "i < next_slot r"
    using assms by (rule registry_invD(4))
  moreover have "slot (token (entries r i)) = i"
    using registry_invD(3) [OF assms(1), of i] assms(2) by (simp add: entry_ok_def)
  ultimately have i: "i < next_slot r" "i < capacity r" "slot (token (entries r i)) = i"
    using registry_invD(1) [OF assms(1)] by simp_all
  have d: "registry_inv ?d"
    using assms(1) i(2) by (rule registry_inv_discard)
  have room: "reusable_count ?d < capacity ?d"
    using ring_has_room [OF assms] by simp
  have lst: "reusable_list ?r = reusable_list r @ [i]"
    using enqueue_list [OF room] by simp
  have "i \<notin> set (reusable_list r)"
    using registry_invD(2) [OF assms(1)] assms(2) by (auto simp: queue_ok_def)
  moreover have "reusable_count ?r \<le> capacity r"
    using room by (simp add: enqueue_reusable_unlocked_def Let_def)
  ultimately have "queue_ok ?r"
    using registry_invD(2) [OF d] i(1) unfolding queue_ok_def lst by simp
  then have "registry_inv ?r"
    using d unfolding registry_inv_def by auto
  then show ?thesis
    using True i(3) by (simp add: recycle_frame)
qed

text \<open>What a reservation finds in the ring or above \<^verbatim>\<open>next_slot\<close>: an unoccupied slot that nobody
  holds, with the rest of the ring in order.\<close>

lemma take_slot_spec:
  assumes "registry_inv r" and "take_slot r = Some (s, r1)"
  shows "s < next_slot r1" "next_slot r1 \<le> capacity r" "s \<notin> held r" "s \<notin> set (reusable_list r1)"
    "\<not> occupied (entries r s)" "registry_inv r1" "held r1 = insert s (held r)"
    "entries r1 = entries r" "next_generation r1 = next_generation r" "initialized r1 = initialized r"
    "capacity r1 = capacity r"
proof -
  have q: "queue_ok r"
    using assms(1) by (rule registry_invD)
  have "s < next_slot r1 \<and> next_slot r1 \<le> capacity r \<and> s \<notin> held r \<and> s \<notin> set (reusable_list r1)
    \<and> \<not> occupied (entries r s) \<and> registry_inv r1 \<and> held r1 = insert s (held r)
    \<and> entries r1 = entries r \<and> next_generation r1 = next_generation r \<and> initialized r1 = initialized r
    \<and> capacity r1 = capacity r"
  proof (cases "reusable_count r = 0")
    case False
    then have hd: "reusable_head r < capacity r"
      using q by (auto simp: queue_ok_def)
    have s: "s = reusable r (reusable_head r)"
      and r1: "r1 = r\<lparr>reusable_head := (reusable_head r + 1) mod capacity r,
                reusable_count := reusable_count r - 1\<rparr>"
      using False assms(2) by (auto simp: take_slot_def)
    have lst: "reusable_list r = s # reusable_list r1"
      using ring_list_dequeue [of "reusable_count r" "reusable r" "capacity r" "reusable_head r"] False hd
      by (simp add: reusable_list_def s r1)
    have "pending_set r1 = pending_set r"
      by (simp add: pending_set_def r1)
    moreover have "queue_ok r1"
      using q hd lst by (auto simp: queue_ok_def r1)
    ultimately have "registry_inv r1"
      using assms(1) unfolding registry_inv_def by (simp add: r1)
    then show ?thesis
      using q lst registry_invD(1) [OF assms(1)] by (auto simp: queue_ok_def held_def r1)
  next
    case True
    then have s: "s = next_slot r" "next_slot r < capacity r" and r1: "r1 = r\<lparr>next_slot := next_slot r + 1\<rparr>"
      using assms(2) by (auto simp: take_slot_def split: if_splits)
    have lst: "reusable_list r1 = []" "reusable_list r = []"
      using True by (simp_all add: reusable_list_def r1)
    have "pending_set r1 = pending_set r"
      by (simp add: pending_set_def r1)
    moreover have "queue_ok r1"
      using q lst by (auto simp: queue_ok_def r1)
    moreover have "\<not> occupied (entries r s)"
      using registry_invD(4) [OF assms(1)] s by auto
    ultimately show ?thesis
      using assms(1) s lst unfolding registry_inv_def
      by (auto simp: r1 held_def lessThan_Suc less_Suc_eq)
  qed
  then show "s < next_slot r1" "next_slot r1 \<le> capacity r" "s \<notin> held r" "s \<notin> set (reusable_list r1)"
    "\<not> occupied (entries r s)" "registry_inv r1" "held r1 = insert s (held r)"
    "entries r1 = entries r" "next_generation r1 = next_generation r" "initialized r1 = initialized r"
    "capacity r1 = capacity r"
    by blast+
qed

lemma bump_generation_nonzero: "bump_generation g \<noteq> 0"
  by (auto simp: bump_generation_def)

text \<open>The state after a successful reservation, in terms of the state after the slot was taken and
  the older entry of the same thread discarded.\<close>

lemma registry_inv_install:
  assumes "registry_inv r" and "s < next_slot r" and "\<not> occupied (entries r s)"
    and "s \<notin> set (reusable_list r)" and "find_unlocked r t = None" and "g \<noteq> 0"
  shows "registry_inv ((set_entry s (zero_entry\<lparr>tid := t, token := \<lparr>slot = s, generation = g\<rparr>,
            occupied := True\<rparr>) r)\<lparr>next_generation := g\<rparr>)"
    (is "registry_inv ?r")
proof -
  have "\<not> exit_pending (entries r s)"
    using assms(3) registry_invD(3) [OF assms(1), of s] by (auto simp: entry_ok_def)
  then have ps: "pending_set ?r = pending_set r"
    by (auto simp: pending_set_def zero_entry_def)
  have "entry_ok j (entries ?r j)" for j
    using registry_invD(3) [OF assms(1), of j] assms(6) by (auto simp: entry_ok_def zero_entry_def)
  moreover have "\<forall>i. occupied (entries r i) \<longrightarrow> tid (entries r i) \<noteq> t"
    using assms(5) registry_invD(1,4) [OF assms(1)]
    by (auto simp: find_unlocked_None) (metis order_less_le_trans)
  moreover have "reusable_list ?r = reusable_list r"
    by (simp add: reusable_list_def)
  moreover from this have "queue_ok ?r"
    using registry_invD(2) [OF assms(1)] assms(4) by (auto simp: queue_ok_def)
  ultimately show ?thesis
    using assms(1,2) ps unfolding registry_inv_def by (auto simp: zero_entry_def)
qed

lemma discard_find_None:
  assumes "registry_inv r" and "find_unlocked r t = Some i"
  shows "find_unlocked (discard_unlocked i r) t = None"
  using assms find_unlocked_eq
  by (auto simp: find_unlocked_None discard_entries)

lemma reserve_insert_cases:
  assumes inv: "registry_inv r" and ini: "initialized r"
  obtains (full) d where "take_slot r = None" "reserve_insert t r = (None, d)" "registry_inv d"
      "held d = held r" "next_generation d = next_generation r"
      "\<And>j. occupied (entries d j) \<longleftrightarrow> occupied (entries r j) \<and> tid (entries r j) \<noteq> t"
      "\<And>j. token (entries d j) = token (entries r j)" "initialized d" "capacity d = capacity r"
    | (got) s g r' where "g = bump_generation (next_generation r)"
      "reserve_insert t r = (Some \<lparr>slot = s, generation = g\<rparr>, r')" "registry_inv r'"
      "s \<notin> held r" "held r' = insert s (held r)" "s < capacity r" "next_generation r' = g"
      "\<not> occupied (entries r s)"
      "\<And>j. occupied (entries r' j) \<longleftrightarrow> j = s \<or> occupied (entries r j) \<and> tid (entries r j) \<noteq> t"
      "\<And>j. j \<noteq> s \<Longrightarrow> token (entries r' j) = token (entries r j)"
      "entries r' s = zero_entry\<lparr>tid := t, token := \<lparr>slot = s, generation = g\<rparr>, occupied := True\<rparr>"
      "initialized r'" "capacity r' = capacity r"
proof -
  define drop where "drop q = (case find_unlocked r t of None \<Rightarrow> q | Some i \<Rightarrow> discard_unlocked i q)" for q
  have drop_frame: "next_generation (drop q) = next_generation q" "next_slot (drop q) = next_slot q"
    "reusable_list (drop q) = reusable_list q" "held (drop q) = held q"
    "initialized (drop q) = initialized q" "capacity (drop q) = capacity q"
    "token (entries (drop q) j) = token (entries q j)" for q j
    by (auto simp: drop_def held_def discard_entries split: option.splits)
  have drop_ok: "registry_inv (drop q)" "find_unlocked (drop q) t = None"
    "occupied (entries (drop q) j) \<longleftrightarrow> occupied (entries r j) \<and> tid (entries r j) \<noteq> t"
    if q: "registry_inv q" "entries q = entries r" "capacity q = capacity r" for q j
  proof -
    have same: "find_unlocked q t = find_unlocked r t"
      using q by (simp add: find_unlocked_def)
    show "registry_inv (drop q)"
      using q registry_inv_discard by (auto simp: drop_def dest: find_unlocked_Some split: option.splits)
    show "find_unlocked (drop q) t = None"
      using same discard_find_None [OF q(1)] by (auto simp: drop_def split: option.splits)
    show "occupied (entries (drop q) j) \<longleftrightarrow> occupied (entries r j) \<and> tid (entries r j) \<noteq> t"
    proof (cases "find_unlocked r t")
      case None
      then have "occupied (entries r j) \<Longrightarrow> tid (entries r j) \<noteq> t"
        using find_unlocked_eq [OF inv, of j] by auto
      then show ?thesis
        using None q by (auto simp: drop_def)
    next
      case (Some i)
      then have "occupied (entries r j) \<Longrightarrow> tid (entries r j) = t \<Longrightarrow> j = i"
        using find_unlocked_eq [OF inv, of j] by auto
      then show ?thesis
        using Some q find_unlocked_Some [OF Some] by (auto simp: drop_def)
    qed
  qed
  show thesis
  proof (cases "take_slot r")
    case None
    then have "reserve_insert t r = (None, drop r)"
      using ini by (simp add: reserve_insert_def drop_def)
    then show thesis
      using None inv ini by (intro full [of "drop r"]) (simp_all add: drop_ok drop_frame)
  next
    case (Some p)
    obtain s r1 where p: "p = (s, r1)"
      by (cases p)
    note t = take_slot_spec [OF inv Some [unfolded p]]
    let ?g = "bump_generation (next_generation r)"
    let ?e = "zero_entry\<lparr>tid := t, token := \<lparr>slot = s, generation = ?g\<rparr>, occupied := True\<rparr>"
    let ?r = "(set_entry s ?e (drop r1))\<lparr>next_generation := ?g\<rparr>"
    note d = drop_ok [OF t(6) t(8) t(11)]
    have res: "reserve_insert t r = (Some \<lparr>slot = s, generation = ?g\<rparr>, ?r)"
      using ini Some t(9) drop_frame(1)
      by (simp add: reserve_insert_def drop_def p Let_def)
    have "registry_inv ?r"
      using t d drop_frame by (intro registry_inv_install) (auto simp: bump_generation_nonzero)
    moreover have "held ?r = insert s (held r)"
      using t(7) drop_frame by (simp add: held_def reusable_list_def)
    ultimately show thesis
      using t d drop_frame res ini by (intro got [of ?g s ?r]) (auto simp: zero_entry_def)
  qed
qed

subsection \<open>The registry as a step system\<close>

text \<open>Each remaining operation leaves the registry as it is, or rewrites or releases one occupied
  entry; the shape below is what their proofs share.\<close>

definition touches :: "PeakPthreadSlotRegistry \<Rightarrow> PeakPthreadSlotRegistry \<Rightarrow> bool" where
  "touches r r' \<longleftrightarrow> registry_inv r' \<and> next_generation r' = next_generation r \<and>
     capacity r' = capacity r \<and> initialized r' = initialized r \<and> held r' \<subseteq> held r \<and>
     (\<forall>j. occupied (entries r' j) \<longrightarrow> occupied (entries r j) \<and> token (entries r' j) = token (entries r j))"

lemma touches_refl: "registry_inv r \<Longrightarrow> touches r r"
  by (simp add: touches_def)

lemma touches_set_entry:
  assumes "registry_inv r" "occupied (entries r i)" "occupied e" "tid e = tid (entries r i)"
    "token e = token (entries r i)" "exit_pending e = exit_pending (entries r i)" "entry_ok i e"
  shows "touches r (set_entry i e r)"
  using assms registry_inv_set_entry [OF assms(1,2,3,4,6,7)] by (auto simp: touches_def held_def)

lemma touches_update_exit_pending:
  assumes "touches r r'" and "occupied (entries r' i)"
  shows "touches r (snd (update_exit_pending_unlocked i r'))"
  using assms registry_inv_update_exit_pending [of r' i] by (auto simp: touches_def held_def)

lemma touches_recycle:
  assumes "registry_inv r" "occupied (entries r i)"
  shows "touches r (recycle_and_discard reuse i r)"
proof -
  have "held (recycle_and_discard reuse i r) \<subseteq> held r"
    using enqueue_list [OF ring_has_room [OF assms]]
    by (cases reuse) (auto simp: recycle_and_discard_def held_def)
  moreover have "next_generation (recycle_and_discard reuse i r) = next_generation r"
    "capacity (recycle_and_discard reuse i r) = capacity r"
    "initialized (recycle_and_discard reuse i r) = initialized r"
    by (simp_all add: recycle_and_discard_def)
  moreover have "occupied (entries (recycle_and_discard reuse i r) j) \<longrightarrow> occupied (entries r j) \<and>
      token (entries (recycle_and_discard reuse i r) j) = token (entries r j)" for j
    by (simp add: recycle_and_discard_def discard_entries)
  ultimately show ?thesis
    using registry_inv_recycle [OF assms] by (simp add: touches_def)
qed

lemma touches_quarantine:
  assumes "registry_inv r" "i < capacity r"
  shows "touches r (discard_unlocked i r)"
  using registry_inv_discard [OF assms] by (auto simp: touches_def held_def discard_entries)

lemma touches_snapshot:
  assumes "registry_inv r"
  shows "touches r (r\<lparr>reclaim_cursor := c\<rparr>)"
  using assms by (simp add: touches_def registry_inv_def queue_ok_def reusable_list_def pending_set_def held_def)

lemmas touches_rules = touches_refl touches_set_entry touches_update_exit_pending touches_recycle
  touches_quarantine touches_snapshot

text \<open>Every operation but a reservation only touches.\<close>

lemma compare_remove_touches: "registry_inv r \<Longrightarrow> touches r (snd (compare_remove t g reuse r))"
  by (auto simp: compare_remove_def touches_refl split: option.splits
      dest: find_unlocked_Some intro!: touches_recycle)

lemma compare_remove_token_touches: "registry_inv r \<Longrightarrow> touches r (snd (compare_remove_token tk reuse r))"
  by (auto simp: compare_remove_token_def touches_refl find_token_unlocked_Some split: option.splits
      intro!: touches_recycle)

lemma complete_retire_touches: "registry_inv r \<Longrightarrow> touches r (snd (complete_retire tk reuse r))"
  by (auto simp: complete_retire_def touches_refl find_token_unlocked_Some split: option.splits
      intro!: touches_recycle)

lemma begin_retire_touches:
  assumes "registry_inv r"
  shows "touches r (snd (begin_retire tk r))"
  using registry_invD(3) [OF assms, of "slot tk"]
  by (auto simp: begin_retire_def touches_refl assms find_token_unlocked_Some entry_ok_def
      split: option.splits intro!: touches_set_entry [OF assms])

lemma defer_retire_touches:
  assumes "registry_inv r"
  shows "touches r (snd (defer_retire tk r))"
  using registry_invD(3) [OF assms, of "slot tk"]
  by (auto simp: defer_retire_def touches_refl assms find_token_unlocked_Some entry_ok_def
      split: option.splits intro!: touches_set_entry [OF assms])

lemma mark_kernel_tid_touches:
  assumes "registry_inv r"
  shows "touches r (snd (mark_kernel_tid tk k r))"
  using registry_invD(3) [OF assms, of "slot tk"]
  by (auto simp: mark_kernel_tid_def touches_refl assms find_token_unlocked_Some entry_ok_def
      split: option.splits intro!: touches_update_exit_pending touches_set_entry [OF assms])

lemma mark_final_destructor_touches:
  assumes "registry_inv r"
  shows "touches r (snd (snd (mark_final_destructor tk r)))"
  using registry_invD(3) [OF assms, of "slot tk"]
  by (auto simp: mark_final_destructor_def touches_refl assms find_token_unlocked_Some entry_ok_def
      split: option.splits intro!: touches_update_exit_pending touches_set_entry [OF assms])

lemma mark_detached_touches:
  assumes "registry_inv r"
  shows "touches r (snd (snd (mark_detached t g r)))"
proof (cases "find_unlocked r t")
  case None
  then show ?thesis
    using assms by (simp add: mark_detached_def touches_refl)
next
  case (Some i)
  then have i: "occupied (entries r i)"
    by (simp add: find_unlocked_Some)
  then show ?thesis
    using Some registry_invD(3) [OF assms, of i]
    by (auto simp: mark_detached_def touches_refl assms entry_ok_def
        intro!: touches_update_exit_pending touches_set_entry [OF assms])
qed

lemma snapshot_exit_pending_touches: "registry_inv r \<Longrightarrow> touches r (snd (snd (snapshot_exit_pending b r)))"
  by (simp add: snapshot_exit_pending_def touches_refl touches_snapshot Let_def)

lemma quarantine_touches: "registry_inv r \<Longrightarrow> touches r (snd (quarantine t r))"
  by (auto simp: quarantine_def touches_refl split: option.splits
      dest: find_unlocked_Some intro!: touches_quarantine)

lemmas slot_op_touches = compare_remove_touches compare_remove_token_touches complete_retire_touches
  begin_retire_touches defer_retire_touches mark_kernel_tid_touches mark_final_destructor_touches
  mark_detached_touches snapshot_exit_pending_touches quarantine_touches

lemma slot_step_touches:
  assumes "registry_inv r" and "\<And>t. op \<noteq> Reserve t"
  shows "touches r (slot_step op r)"
  using assms by (cases op) (auto simp: slot_op_touches)

lemma slot_step_inv: "registry_inv r \<Longrightarrow> registry_inv (slot_step op r)"
proof (cases "\<exists>t. op = Reserve t")
  case True
  then obtain t where op: "op = Reserve t"
    by blast
  assume inv: "registry_inv r"
  show ?thesis
  proof (cases "initialized r")
    case True
    then show ?thesis
      using op by (auto intro: reserve_insert_cases [OF inv True, of t])
  next
    case False
    then show ?thesis
      using op inv by (simp add: reserve_insert_def)
  qed
next
  case False
  assume "registry_inv r"
  then show ?thesis
    using slot_step_touches False by (auto simp: touches_def)
qed

interpretation registry: step_system slot_step registry_inv
  by unfold_locales (rule slot_step_inv)

subsection \<open>Slots are exclusive: the allocator contract\<close>

text \<open>
  What the per-thread statistics arrays need of the registry: the slot given to a thread is held by
  nobody, and a slot stays held until it is explicitly given back for reuse.
\<close>

text \<open>Reserving for a sequence of threads; the tokens of the successful reservations in order.\<close>

fun reserve_seq :: "('t \<Rightarrow> 'r \<Rightarrow> 'k option \<times> 'r) \<Rightarrow> 't list \<Rightarrow> 'r \<Rightarrow> 'k list \<times> 'r" where
  "reserve_seq reserve [] r = ([], r)"
| "reserve_seq reserve (t # ts) r =
     (case reserve t r of
        (None, r1) \<Rightarrow> reserve_seq reserve ts r1
      | (Some k, r1) \<Rightarrow> (case reserve_seq reserve ts r1 of (ks, r2) \<Rightarrow> (k # ks, r2)))"

locale slot_allocator =
  fixes reserve :: "'t \<Rightarrow> 'r \<Rightarrow> 'k option \<times> 'r"
    and slot_of :: "'k \<Rightarrow> nat"
    and held_slots :: "'r \<Rightarrow> nat set"
    and limit :: "'r \<Rightarrow> nat"
    and ok :: "'r \<Rightarrow> bool"
  assumes reserve_ok: "ok r \<Longrightarrow> ok (snd (reserve t r))"
    and reserve_limit: "ok r \<Longrightarrow> limit (snd (reserve t r)) = limit r"
    and reserve_None: "ok r \<Longrightarrow> reserve t r = (None, r1) \<Longrightarrow> held_slots r1 = held_slots r"
    and reserve_Some: "ok r \<Longrightarrow> reserve t r = (Some k, r1) \<Longrightarrow>
          slot_of k \<notin> held_slots r \<and> held_slots r1 = insert (slot_of k) (held_slots r)"
    and held_bound: "ok r \<Longrightarrow> held_slots r \<subseteq> {..<limit r}"
begin

lemma reserve_seq_spec:
  assumes "ok r" and "reserve_seq reserve ts r = (ks, r1)"
  shows "ok r1 \<and> limit r1 = limit r \<and> distinct (map slot_of ks) \<and>
    set (map slot_of ks) \<inter> held_slots r = {} \<and> held_slots r1 = set (map slot_of ks) \<union> held_slots r"
  using assms
proof (induction ts arbitrary: r ks r1)
  case Nil
  then show ?case by simp
next
  case (Cons t ts)
  obtain o1 r0 where res: "reserve t r = (o1, r0)"
    by (cases "reserve t r")
  have r0: "ok r0" "limit r0 = limit r"
    using reserve_ok [OF Cons.prems(1), of t] reserve_limit [OF Cons.prems(1), of t] res by simp_all
  show ?case
  proof (cases o1)
    case None
    then show ?thesis
      using Cons.IH [OF r0(1)] Cons.prems r0 res reserve_None [OF Cons.prems(1)] by fastforce
  next
    case (Some k)
    obtain ks0 r2 where rest: "reserve_seq reserve ts r0 = (ks0, r2)"
      by (cases "reserve_seq reserve ts r0")
    have "ks = k # ks0" "r1 = r2"
      using Cons.prems(2) res Some rest by simp_all
    then show ?thesis
      using Cons.IH [OF r0(1) rest] r0 reserve_Some [OF Cons.prems(1)] res Some by auto
  qed
qed

lemma reserve_seq_count:
  assumes "ok r" and "reserve_seq reserve ts r = (ks, r1)"
  shows "length ks + card (held_slots r) \<le> limit r"
proof -
  note spec = reserve_seq_spec [OF assms]
  have "held_slots r1 \<subseteq> {..<limit r}"
    using held_bound spec by metis
  then have "card (held_slots r1) \<le> limit r"
    using card_mono [of "{..<limit r}" "held_slots r1"] by simp
  moreover have "card (held_slots r1) = length ks + card (held_slots r)"
    using spec held_bound [OF assms(1)] finite_subset
    by (metis List.finite_set card_Un_disjoint distinct_card finite_lessThan length_map)
  ultimately show ?thesis
    by simp
qed

end

lemma held_subset: "registry_inv r \<Longrightarrow> held r \<subseteq> {..<capacity r}"
  using registry_invD(1) by (fastforce simp: held_def)

interpretation slots: slot_allocator reserve_insert slot held capacity "\<lambda>r. registry_inv r \<and> initialized r"
proof (unfold_locales, goal_cases)
  case (1 r t)
  then show ?case by (auto intro: reserve_insert_cases [of r t])
next
  case (2 r t)
  then show ?case by (auto intro: reserve_insert_cases [of r t])
next
  case (3 r t r1)
  then show ?case by (auto intro: reserve_insert_cases [of r t])
next
  case (4 r t k r1)
  then have inv: "registry_inv r" "initialized r"
    by simp_all
  show ?case
    by (rule reserve_insert_cases [OF inv, of t]) (use 4 in auto)
next
  case (5 r)
  then show ?case by (simp add: held_subset)
qed

lemma take_slot_None_iff:
  assumes "registry_inv r"
  shows "take_slot r = None \<longleftrightarrow> held r = {..<capacity r}"
proof
  assume "take_slot r = None"
  then have "reusable_list r = []" "next_slot r = capacity r"
    using registry_invD(1) [OF assms] by (auto simp: take_slot_def reusable_list_def split: if_splits)
  then show "held r = {..<capacity r}"
    by (simp add: held_def)
next
  assume h: "held r = {..<capacity r}"
  show "take_slot r = None"
  proof (rule ccontr)
    assume "take_slot r \<noteq> None"
    then obtain s r1 where "take_slot r = Some (s, r1)"
      by auto
    note t = take_slot_spec [OF assms this]
    then show False
      using h by (metis lessThan_iff order_less_le_trans)
  qed
qed

subsection \<open>Stale tokens\<close>

lemma live_token_step:
  assumes "registry_inv r" and "find_token_unlocked (slot_step op r) tk = Some i"
  shows "find_token_unlocked r tk = Some i \<or> generation tk = bump_generation (next_generation r)"
proof (cases "\<exists>t. op = Reserve t \<and> initialized r")
  case True
  then obtain t where t: "op = Reserve t" "initialized r"
    by blast
  show ?thesis
  proof (rule reserve_insert_cases [OF assms(1) t(2), of t])
    fix d
    assume "reserve_insert t r = (None, d)" "capacity d = capacity r"
      "\<And>j. occupied (entries d j) \<longleftrightarrow> occupied (entries r j) \<and> tid (entries r j) \<noteq> t"
      "\<And>j. token (entries d j) = token (entries r j)"
    then show ?thesis
      using assms(2) t by (auto simp: find_token_unlocked_Some)
  next
    fix s g r'
    assume "reserve_insert t r = (Some \<lparr>slot = s, generation = g\<rparr>, r')" "capacity r' = capacity r"
      "\<And>j. occupied (entries r' j) \<longleftrightarrow> j = s \<or> occupied (entries r j) \<and> tid (entries r j) \<noteq> t"
      "\<And>j. j \<noteq> s \<Longrightarrow> token (entries r' j) = token (entries r j)"
      "entries r' s = zero_entry\<lparr>tid := t, token := \<lparr>slot = s, generation = g\<rparr>, occupied := True\<rparr>"
      "g = bump_generation (next_generation r)"
    then show ?thesis
      using assms(2) t by (cases "slot tk = s") (auto simp: find_token_unlocked_Some)
  qed
next
  case False
  then have "touches r (slot_step op r)"
    using slot_step_touches [OF assms(1), of op] touches_refl [OF assms(1)]
    by (cases op) (auto simp: reserve_insert_def)
  then show ?thesis
    using assms(2) by (auto simp: touches_def find_token_unlocked_Some)
qed

lemma generation_step:
  assumes "registry_inv r"
  shows "next_generation (slot_step op r) \<in> {next_generation r, bump_generation (next_generation r)}"
proof (cases "\<exists>t. op = Reserve t \<and> initialized r")
  case True
  then obtain t where t: "op = Reserve t" "initialized r"
    by blast
  show ?thesis
    by (rule reserve_insert_cases [OF assms t(2), of t]) (auto simp: t)
next
  case False
  then have "touches r (slot_step op r)"
    using slot_step_touches [OF assms, of op] touches_refl [OF assms]
    by (cases op) (auto simp: reserve_insert_def)
  then show ?thesis
    by (simp add: touches_def)
qed

lemma unat_bump_generation:
  assumes "unat g + 1 < 2 ^ 64"
  shows "unat (bump_generation g) = unat g + 1"
proof -
  have "unat (g + 1) = unat g + 1"
    using assms by (simp add: unat_word_ariths)
  then show ?thesis
    by (auto simp: bump_generation_def)
qed

lemma stale_token_run:
  assumes "registry_inv r" and "find_token_unlocked r tk = None"
    and "unat (generation tk) \<le> unat (next_generation r)"
    and "unat (next_generation r) + length ops < 2 ^ 64"
  shows "find_token_unlocked (fold slot_step ops r) tk = None"
  using assms
proof (induction ops arbitrary: r)
  case Nil
  then show ?case by simp
next
  case (Cons op ops)
  let ?r = "slot_step op r"
  have bump: "unat (bump_generation (next_generation r)) = unat (next_generation r) + 1"
    using Cons.prems(4) by (intro unat_bump_generation) simp
  have "generation tk \<noteq> bump_generation (next_generation r)"
    using bump Cons.prems(3) by auto
  then have "find_token_unlocked ?r tk = None"
    using live_token_step [OF Cons.prems(1), of op tk] Cons.prems(2)
    by (cases "find_token_unlocked ?r tk") auto
  then show ?case
    using Cons.IH [of ?r] Cons.prems slot_step_inv [OF Cons.prems(1)]
      generation_step [OF Cons.prems(1), of op] bump by auto
qed

subsection \<open>Reclaiming rounds\<close>

text \<open>Repeated snapshots, as the reclaimer takes them; the candidates of all rounds together.\<close>

fun reclaim_rounds ::
  "nat \<Rightarrow> nat \<Rightarrow> PeakPthreadSlotRegistry \<Rightarrow> PeakPthreadDetachedCandidate list \<times> PeakPthreadSlotRegistry" where
  "reclaim_rounds 0 budget r = ([], r)"
| "reclaim_rounds (Suc n) budget r =
     (case snapshot_exit_pending budget r of (cs, examined, r1) \<Rightarrow>
        (case reclaim_rounds n budget r1 of (ds, r2) \<Rightarrow> (cs @ ds, r2)))"

definition due :: "PeakPthreadSlotRegistry \<Rightarrow> nat \<Rightarrow> bool" where
  "due r i \<longleftrightarrow> occupied (entries r i) \<and> exit_pending (entries r i) \<and> \<not> retiring (entries r i)"

definition candidate_of :: "PeakPthreadSlotRegistry \<Rightarrow> nat \<Rightarrow> PeakPthreadDetachedCandidate" where
  "candidate_of r i = \<lparr>cand_token = token (entries r i), cand_kernel_tid = kernel_tid (entries r i)\<rparr>"

lemma snapshot_exit_pending_eq:
  assumes "initialized r" "0 < budget" "0 < capacity r"
  shows "snapshot_exit_pending budget r =
    (map (candidate_of r) (filter (due r)
       (map (\<lambda>k. (reclaim_cursor r + k) mod capacity r) [0..<min budget (capacity r)])),
     min budget (capacity r),
     r\<lparr>reclaim_cursor := (reclaim_cursor r + min budget (capacity r)) mod capacity r\<rparr>)"
proof -
  have "due r = (\<lambda>i. occupied (entries r i) \<and> exit_pending (entries r i) \<and> \<not> retiring (entries r i))"
    and "candidate_of r = (\<lambda>i. \<lparr>cand_token = token (entries r i), cand_kernel_tid = kernel_tid (entries r i)\<rparr>)"
    by (simp_all add: fun_eq_iff due_def candidate_of_def)
  then show ?thesis
    using assms by (simp add: snapshot_exit_pending_def Let_def)
qed

lemma reclaim_rounds_candidates:
  assumes "initialized r" "0 < budget" "0 < capacity r" "due r i"
    and "k < n * min budget (capacity r)" "(reclaim_cursor r + k) mod capacity r = i"
  shows "candidate_of r i \<in> set (fst (reclaim_rounds n budget r))"
  using assms
proof (induction n arbitrary: r k)
  case 0
  then show ?case by simp
next
  case (Suc n)
  let ?m = "min budget (capacity r)"
  let ?r = "r\<lparr>reclaim_cursor := (reclaim_cursor r + ?m) mod capacity r\<rparr>"
  note snap = snapshot_exit_pending_eq [OF Suc.prems(1,2,3)]
  show ?case
  proof (cases "k < ?m")
    case True
    then have "i \<in> set (filter (due r) (map (\<lambda>k. (reclaim_cursor r + k) mod capacity r) [0..<?m]))"
      using Suc.prems(4,6) by auto
    then show ?thesis
      by (auto simp: snap split: prod.splits)
  next
    case False
    then have k: "k - ?m < n * min budget (capacity ?r)"
      using Suc.prems(5) by (simp only: mult_Suc) (simp del: min_less_iff_conj)
    have "reclaim_cursor r + ?m + (k - ?m) = reclaim_cursor r + k"
      using False by linarith
    then have "((reclaim_cursor r + ?m) mod capacity r + (k - ?m)) mod capacity r = i"
      using Suc.prems(6) by (metis mod_add_left_eq)
    moreover have "reclaim_cursor ?r = (reclaim_cursor r + ?m) mod capacity r" "capacity ?r = capacity r"
      by simp_all
    ultimately have "(reclaim_cursor ?r + (k - ?m)) mod capacity ?r = i"
      by (simp only:)
    then have "candidate_of ?r i \<in> set (fst (reclaim_rounds n budget ?r))"
      using Suc.IH [of ?r, OF _ _ _ _ k] Suc.prems(1,2,3,4) by (simp add: due_def)
    then show ?thesis
      by (auto simp: snap candidate_of_def split: prod.splits)
  qed
qed

lemma ring_position:
  assumes "i < (c :: nat)"
  shows "\<exists>k < c. (h + k) mod c = i"
proof -
  let ?k = "(i + (c - h mod c)) mod c"
  have "(h + ?k) mod c = (h mod c + (i + (c - h mod c))) mod c"
    by (simp add: mod_simps)
  also have "h mod c + (i + (c - h mod c)) = i + c"
    using assms mod_less_divisor [of c h] by linarith
  also have "(i + c) mod c = i"
    using assms by simp
  finally show ?thesis
    using assms mod_less_divisor [of c] by (metis gr_zeroI not_less0)
qed

subsection \<open>Start handshake facts\<close>

lemma publish_ready_simps [simp]:
  "snd (publish_ready PEAK_PTHREAD_START_PENDING) = PEAK_PTHREAD_START_READY"
  "abandon_start PEAK_PTHREAD_START_PENDING = PEAK_PTHREAD_START_ABANDONED"
  "st \<noteq> PEAK_PTHREAD_START_PENDING \<Longrightarrow> abandon_start st = st"
  "st \<noteq> PEAK_PTHREAD_START_PENDING \<Longrightarrow> publish_ready st = (False, st)"
  by (simp_all add: publish_ready_def abandon_start_def cas_start_def)

lemma wait_loop_settled: "wait_loop waits st = Some st' \<Longrightarrow> st' \<noteq> PEAK_PTHREAD_START_PENDING"
proof (induction waits st rule: wait_loop.induct)
  case (2 published wait_status waits st)
  then show ?case
    by (cases "abandon_start st") (auto simp: Let_def abandon_start_def cas_start_def split: if_splits)
qed (auto split: if_splits)

lemma wait_loop_timeout:
  assumes "\<exists>w \<in> set waits. snd w \<noteq> 0"
  shows "\<exists>st'. wait_loop waits st = Some st'"
  using assms by (induction waits st rule: wait_loop.induct) (auto simp: Let_def)

lemma wait_loop_ready:
  "wait_loop ws PEAK_PTHREAD_START_PENDING = Some PEAK_PTHREAD_START_READY \<Longrightarrow> \<exists>w \<in> set ws. fst w"
proof (induction ws)
  case (Cons w ws)
  then show ?case
    by (cases w) (auto simp: Let_def split: if_splits)
qed simp

lemma registry_init_inv:
  "fst (registry_init mutex_ok cap r0) \<Longrightarrow> registry_inv (snd (registry_init mutex_ok cap r0))"
  by (auto simp: registry_init_def registry_inv_def queue_ok_def entry_ok_def
      reusable_list_def pending_set_def zero_registry_def zero_entry_def split: if_splits)

text \<open>A registry of two slots, for concrete runs.\<close>

definition small_registry :: PeakPthreadSlotRegistry where
  "small_registry = snd (registry_init True 2 zero_registry)"

lemma small_registry_simps [simp]:
  "entries small_registry = (\<lambda>_. zero_entry)" "reusable small_registry = (\<lambda>_. 0)"
  "reusable_head small_registry = 0" "reusable_count small_registry = 0" "next_slot small_registry = 0"
  "capacity small_registry = 2" "reclaim_cursor small_registry = 0"
  "exit_pending_count small_registry = 0" "max_exit_pending_count small_registry = 0"
  "next_generation small_registry = 0" "initialized small_registry"
  by (simp_all add: small_registry_def registry_init_def zero_registry_def
      PEAK_PTHREAD_SLOT_REGISTRY_MAX_CAPACITY_def)

lemma small_registry_inv: "registry_inv small_registry"
  unfolding small_registry_def
  by (rule registry_init_inv) (simp add: registry_init_def PEAK_PTHREAD_SLOT_REGISTRY_MAX_CAPACITY_def)

lemmas registry_eval = reserve_insert_def take_slot_def find_unlocked_def bump_generation_def
  set_entry_def zero_entry_def discard_unlocked_def find_token_unlocked_def quarantine_def
  mark_detached_def mark_final_destructor_def mark_kernel_tid_def update_exit_pending_unlocked_def
  compare_remove_token_def recycle_and_discard_def enqueue_reusable_unlocked_def capture_def
  held_def reusable_list_def ring_list_def upt_rec numeral_2_eq_2 Let_def

subsection \<open>Properties\<close>

text \<open>
  (C8) From initialisation on, whatever sequence of registry operations runs, the registry is
  consistent: the reusable ring holds distinct free slots below \<^verbatim>\<open>next_slot\<close>, no two live entries
  share a thread, every live token names its own slot, and \<^verbatim>\<open>exit_pending_count\<close> is exactly the number
  of entries that wait for the exit of their thread.
\<close>

theorem registry_run_invariant:
  assumes "fst (registry_init mutex_ok cap r0)"
  shows "registry_inv (fold slot_step ops (snd (registry_init mutex_ok cap r0)))"
  by (rule registry.run_inv) (rule registry_init_inv [OF assms])

theorem registry_run_invariant_witness:
  "registry_inv (fold slot_step [Reserve 7, Reserve 8, Quarantine 7]
     (snd (registry_init True 2 zero_registry)))"
  by (rule registry_run_invariant)
    (simp add: registry_init_def PEAK_PTHREAD_SLOT_REGISTRY_MAX_CAPACITY_def)

text \<open>
  (C14) Two threads never share a slot: the slots handed out by a sequence of reservations are
  pairwise distinct, none of them was held before, exactly those become held, and the number of
  slots held never exceeds the capacity of the registry.
\<close>

theorem reservations_are_exclusive:
  assumes "registry_inv r" "initialized r" and "reserve_seq reserve_insert ts r = (ks, r1)"
  shows "distinct (map slot ks) \<and> set (map slot ks) \<inter> held r = {} \<and>
    held r1 = set (map slot ks) \<union> held r \<and> length ks + card (held r) \<le> capacity r"
  using slots.reserve_seq_spec [OF _ assms(3)] slots.reserve_seq_count [OF _ assms(3)] assms(1,2) by simp

theorem reservations_are_exclusive_witness:
  "\<exists>ks r1. reserve_seq reserve_insert [7, 8, 9] small_registry = (ks, r1) \<and> length ks = 2 \<and>
    distinct (map slot ks) \<and> held r1 = set (map slot ks) \<and> length ks \<le> 2"
proof -
  obtain ks r1 where res: "reserve_seq reserve_insert [7, 8, 9] small_registry = (ks, r1)"
    by (cases "reserve_seq reserve_insert [7, 8, 9] small_registry")
  have "length ks = 2"
    using res by (auto simp: registry_eval)
  then show ?thesis
    using reservations_are_exclusive [OF small_registry_inv _ res] res
    by (auto simp: held_def)
qed

text \<open>
  (C29) A reservation is refused exactly when every slot of the registry is held, that is when the
  ring of reusable slots is empty and no fresh slot is left.
\<close>

theorem reserve_refused_iff_full:
  assumes "registry_inv r" "initialized r"
  shows "fst (reserve_insert t r) = None \<longleftrightarrow> held r = {..<capacity r}"
proof (rule reserve_insert_cases [OF assms, of t])
  fix d
  assume "take_slot r = None" "reserve_insert t r = (None, d)"
  then show ?thesis
    using take_slot_None_iff [OF assms(1)] by simp
next
  fix s g r'
  assume "reserve_insert t r = (Some \<lparr>slot = s, generation = g\<rparr>, r')" "s \<notin> held r" "s < capacity r"
  then show ?thesis
    by auto
qed

theorem reserve_refused_iff_full_witness:
  "fst (reserve_insert 7 small_registry) = None \<longleftrightarrow> held small_registry = {..<2}"
  using reserve_refused_iff_full [OF small_registry_inv, of 7] by simp

text \<open>
  (C8) A token that is not live, because its entry was removed or its slot was given to another
  thread, is never accepted again, whatever operations follow, as long as the 64-bit generation
  counter does not wrap around during them.
\<close>

theorem stale_token_never_accepted:
  assumes "registry_inv r" and "find_token_unlocked r tk = None"
    and "unat (generation tk) \<le> unat (next_generation r)"
    and "unat (next_generation r) + length ops < 2 ^ 64"
  shows "fst (compare_remove_token tk reuse (fold slot_step ops r)) = False \<and>
    fst (begin_retire tk (fold slot_step ops r)) = False \<and>
    fst (complete_retire tk reuse (fold slot_step ops r)) = False \<and>
    fst (mark_final_destructor tk (fold slot_step ops r)) = False"
  using stale_token_run [OF assms]
  by (simp add: compare_remove_token_def begin_retire_def complete_retire_def mark_final_destructor_def)

theorem stale_token_never_accepted_witness:
  "\<exists>tk r. reserve_insert 7 small_registry = (Some tk, r) \<and> fst (compare_remove_token tk True r) \<and>
     fst (compare_remove_token tk True (fold slot_step [Reserve 9, Reserve 9]
            (snd (compare_remove_token tk True r)))) = False"
proof -
  obtain tk r where r: "reserve_insert 7 small_registry = (Some tk, r)"
    and tk: "tk = \<lparr>slot = 0, generation = 1\<rparr>" and ok: "fst (compare_remove_token tk True r)"
    and dead: "find_token_unlocked (snd (compare_remove_token tk True r)) tk = None"
    and g: "next_generation (snd (compare_remove_token tk True r)) = 1"
    by (simp add: registry_eval)
  have "registry_inv (snd (compare_remove_token tk True r))"
    using slot_step_inv [OF slot_step_inv [OF small_registry_inv, of "Reserve 7"],
        of "Compare_remove_token tk True"] r by simp
  from stale_token_never_accepted [OF this dead, of "[Reserve 9, Reserve 9]" True]
  show ?thesis
    using r ok g tk by auto
qed

text \<open>
  (C35) Reclaiming is fair: an entry that waits for the exit of its detached thread, and is not being
  retired, is offered as a candidate within as many bounded snapshots as it takes their budgets to
  add up to the capacity, wherever the rotating cursor stands.
\<close>

theorem exit_pending_is_offered:
  assumes "initialized r" "i < capacity r" "due r i" "0 < budget" "capacity r \<le> n * budget"
  shows "candidate_of r i \<in> set (fst (reclaim_rounds n budget r))"
proof -
  have "0 < n"
    using assms by (cases n) auto
  then have "capacity r \<le> n * min budget (capacity r)"
    using assms(5) by (cases "budget \<le> capacity r") (auto simp: min_def)
  moreover obtain k where "k < capacity r" "(reclaim_cursor r + k) mod capacity r = i"
    using ring_position [OF assms(2)] by blast
  ultimately show ?thesis
    using assms by (intro reclaim_rounds_candidates [of r budget i k n]) auto
qed

theorem exit_pending_is_offered_witness:
  "let r = fold slot_step [Reserve 7, Reserve 8, Mark_kernel_tid \<lparr>slot = 1, generation = 2\<rparr> 55,
        Mark_detached 8 2, Mark_final_destructor \<lparr>slot = 1, generation = 2\<rparr>] small_registry
   in due r 1 \<and> candidate_of r 1 \<in> set (fst (reclaim_rounds 2 1 r))"
proof -
  let ?r = "fold slot_step [Reserve 7, Reserve 8, Mark_kernel_tid \<lparr>slot = 1, generation = 2\<rparr> 55,
        Mark_detached 8 2, Mark_final_destructor \<lparr>slot = 1, generation = 2\<rparr>] small_registry"
  have "initialized ?r" "capacity ?r = 2" "due ?r 1"
    by (simp_all add: registry_eval due_def)
  then show ?thesis
    using exit_pending_is_offered [of ?r 1 1 2] by simp
qed

text \<open>
  (C37) The starter and the new thread agree, whatever the timing: a wait that ends is decided, it
  saw READY only if the starter published, it saw READY whenever the publication came before the
  waiter went to sleep, and a later publication fails and leaves the decision as it is. A wait whose
  timed wait reports its deadline (or any error) always ends.
\<close>

theorem start_handshake_agreement:
  assumes "timeout_ms = 0 \<or> \<not> gate_ok \<or> published \<or> (\<exists>w \<in> set waits. snd w \<noteq> 0)"
  shows "\<exists>st. wait_ready timeout_ms gate_ok published waits PEAK_PTHREAD_START_PENDING = Some st \<and>
    st \<noteq> PEAK_PTHREAD_START_PENDING \<and>
    publish_ready st = (False, st) \<and>
    (st = PEAK_PTHREAD_START_READY \<longrightarrow> published \<or> (\<exists>w \<in> set waits. fst w)) \<and>
    (published \<longrightarrow> st = PEAK_PTHREAD_START_READY)"
proof -
  have "\<exists>st. wait_ready timeout_ms gate_ok published waits PEAK_PTHREAD_START_PENDING = Some st"
    using assms wait_loop_timeout [of waits PEAK_PTHREAD_START_PENDING]
    by (cases waits) (auto simp: wait_ready_def Let_def)
  then obtain st where
    st: "wait_ready timeout_ms gate_ok published waits PEAK_PTHREAD_START_PENDING = Some st"
    by blast
  have "st \<noteq> PEAK_PTHREAD_START_PENDING"
    using st wait_loop_settled by (auto simp: wait_ready_def Let_def split: if_splits)
  moreover have "st = PEAK_PTHREAD_START_READY \<longrightarrow> published \<or> (\<exists>w \<in> set waits. fst w)"
    using st wait_loop_ready by (auto simp: wait_ready_def Let_def split: if_splits)
  moreover have "published \<longrightarrow> st = PEAK_PTHREAD_START_READY"
    using st by (cases waits) (auto simp: wait_ready_def Let_def split: if_splits)
  ultimately show ?thesis
    using st by auto
qed

theorem start_handshake_agreement_witness:
  "\<exists>st. wait_ready 100 True False [(False, 0), (True, 0), (False, 110)] PEAK_PTHREAD_START_PENDING = Some st \<and>
   st = PEAK_PTHREAD_START_READY \<and> publish_ready st = (False, st)"
  using start_handshake_agreement [of 100 True False "[(False, 0), (True, 0), (False, 110)]"]
  by (auto simp: wait_ready_def)

text \<open>
  (C38) The deadline of a bounded wait is exact and normalised: for a normalised current time it lies
  exactly the given number of milliseconds ahead and its nanosecond part stays below a second, so
  that the timed wait never sees an invalid time.
\<close>

theorem start_deadline_exact:
  assumes "0 \<le> nsec" "nsec < 1000000000" and "start_deadline (Some (sec, nsec)) timeout_ms = Some (dsec, dnsec)"
  shows "0 \<le> dnsec \<and> dnsec < 1000000000 \<and>
    dsec * 1000000000 + dnsec = sec * 1000000000 + nsec + uint timeout_ms * 1000000"
proof -
  have "uint timeout_ms div 1000 * 1000000000 + uint timeout_ms mod 1000 * 1000000
      = uint timeout_ms * 1000000"
    using div_mult_mod_eq [of "uint timeout_ms" 1000] by linarith
  moreover have "0 \<le> uint timeout_ms mod 1000" "uint timeout_ms mod 1000 < 1000"
    by simp_all
  ultimately show ?thesis
    using assms by (simp add: start_deadline_def Let_def split: if_splits) linarith+
qed

theorem start_deadline_exact_witness:
  "start_deadline (Some (5, 999999999)) 1500 = Some (7, 499999999) \<and>
   7 * 1000000000 + 499999999 = 5 * 1000000000 + 999999999 + uint (1500 :: uint32) * 1000000"
proof -
  have "start_deadline (Some (5, 999999999)) 1500 = Some (7, 499999999)"
    by (simp add: start_deadline_def)
  then show ?thesis
    using start_deadline_exact [of 999999999 5 1500 7 499999999] by simp
qed

end
