(* ===== verification/Pthread_Listener.thy ===== *)
theory Pthread_Listener
  imports Slot_Registry
begin

text \<open>
  The pthread listener of \<^verbatim>\<open>src/pthread_listener.c\<close>: the hooks around \<^verbatim>\<open>pthread_create\<close>, \<^verbatim>\<open>pthread_join\<close> and
  \<^verbatim>\<open>pthread_detach\<close>, the wrapped start routine, the thread-local slot identity with its destructor, and the
  scan that reclaims the slots of detached threads. All threads run interleaved; a step of a thread is the
  code between two accesses to something shared: an operation of the slot registry, which runs under its
  mutex, an atomic access to a start context, or a call into the thread library.

  Threads are numbered in the order of the calls of \<^verbatim>\<open>pthread_create\<close> that make them, and a start context
  has the number of the thread it is for. The thread library is part of the state: which thread a
  \<^verbatim>\<open>pthread_t\<close> denotes (until the thread is joined, or is detached and has ended), and which threads can
  still run. What it answers is chosen by the action, within what POSIX and Linux promise: a new thread
  gets a \<^verbatim>\<open>pthread_t\<close> that is not in use and a kernel thread id of no living thread, a join succeeds on an
  ended thread that is not detached, and a living thread is found in \<^verbatim>\<open>/proc/self/task\<close>. An action that is
  not possible in a state leaves it unchanged. Gum, the general listener and the signal policy are called
  without an answer that matters; such calls are recorded as events.
\<close>

subsection \<open>State\<close>

definition PTHREAD_DESTRUCTOR_ITERATIONS :: nat where
  "PTHREAD_DESTRUCTOR_ITERATIONS = 4"

definition PEAK_PTHREAD_RECLAIM_SCAN_BUDGET :: nat where
  "PEAK_PTHREAD_RECLAIM_SCAN_BUDGET = 64"

definition PEAK_PTHREAD_RECLAIM_SCAN_INTERVAL_MS :: nat where
  "PEAK_PTHREAD_RECLAIM_SCAN_INTERVAL_MS = 100"

record PeakPthreadSlotIdentity =
  id_slot :: nat
  id_generation :: uint64
  destructor_passes :: nat
  valid :: bool

record PeakPthreadStartContext =
  start_routine :: uint64
  start_arg :: uint64
  skip_tracking :: bool
  tracked :: bool
  ctx_detached :: bool
  ctx_slot :: nat
  ctx_generation :: uint64
  handshake_state :: PeakPthreadStartHandshakeState
  references :: nat

record PeakPthreadReclamationDiagnostics =
  scans :: nat
  entries_examined :: nat
  candidates_checked :: nat
  reclaimed :: nat
  deferred_alive :: nat
  ambiguous_checks :: nat
  retire_failures :: nat
  pending :: nat
  max_pending :: nat

text \<open>Where a thread is: in the wrapped start routine, in application code, or inside a hook. A hook
  around the creation of thread \<open>c\<close> keeps whether the caller passed a place for its \<^verbatim>\<open>pthread_t\<close>.\<close>

datatype thread_pc =
    Start_wait
  | Start_adopt
  | Start_mark
  | In_application
  | Create_call nat bool
  | Leave_register nat pthread_t bool
  | Leave_detached nat pthread_t bool
  | Leave_quarantine nat pthread_t bool
  | Leave_publish nat pthread_t bool
  | Leave_remove nat pthread_t bool
  | Leave_release nat bool
  | Join_call pthread_t "PeakPthreadSlotToken option" uint64
  | Join_begin PeakPthreadSlotToken
  | Join_retire PeakPthreadSlotToken
  | Join_complete PeakPthreadSlotToken bool
  | Detach_call pthread_t "PeakPthreadSlotToken option"
  | Detach_mark pthread_t PeakPthreadSlotToken

record pthread_thread =
  self :: pthread_t
  ktid :: pid_t
  alive :: bool
  os_detached :: bool
  exiting :: bool
  slot_identity :: PeakPthreadSlotIdentity
  slot_key :: bool
  next_create_is_helper :: bool
  thread_excluded :: bool
  at :: thread_pc

datatype reclaim_pc =
    Reclaim_idle
  | Reclaim_locked "int \<times> int"
  | Reclaim_next "PeakPthreadDetachedCandidate list" bool
  | Reclaim_begin PeakPthreadSlotToken "PeakPthreadDetachedCandidate list" bool
  | Reclaim_retire PeakPthreadSlotToken "PeakPthreadDetachedCandidate list" bool
  | Reclaim_defer PeakPthreadSlotToken "PeakPthreadDetachedCandidate list" bool
  | Reclaim_complete PeakPthreadSlotToken "PeakPthreadDetachedCandidate list" bool

datatype listener_event =
    Routine_called nat uint64 uint64
  | Warned_abandoned
  | Controller_woken
  | Frames_released nat
  | State_released nat
  | Unwind_joined uint64 pthread_t "PeakPthreadSlotToken option"
  | Context_freed nat
  | Child_tid_freed nat
  | Reclaim_returned bool

text \<open>\<open>heap_fault\<close> becomes true when a freed start context is read, written or freed.\<close>

record pthread_listener =
  pthread_slot_registry :: PeakPthreadSlotRegistry
  tid_mapping_initialized :: bool
  start_handshake_timeout_ms :: nat
  slot_key_created :: "bool option"
  start_timeout_warning_emitted :: bool
  contexts :: "nat \<Rightarrow> PeakPthreadStartContext option"
  next_thread :: nat
  threads :: "nat \<Rightarrow> pthread_thread option"
  handles :: "pthread_t \<Rightarrow> nat option"
  reclaimer :: reclaim_pc
  task_directory_open :: bool
  reclaim_last_scan :: "(int \<times> int) option"
  reclaim_diagnostics :: PeakPthreadReclamationDiagnostics
  heap_fault :: bool
  events :: "listener_event list"

definition emit :: "listener_event \<Rightarrow> pthread_listener \<Rightarrow> pthread_listener" where
  "emit e s = s\<lparr>events := events s @ [e]\<rparr>"

definition set_registry :: "PeakPthreadSlotRegistry \<Rightarrow> pthread_listener \<Rightarrow> pthread_listener" where
  "set_registry r s = s\<lparr>pthread_slot_registry := r\<rparr>"

definition set_thread :: "nat \<Rightarrow> pthread_thread \<Rightarrow> pthread_listener \<Rightarrow> pthread_listener" where
  "set_thread n t s = s\<lparr>threads := (threads s)(n := Some t)\<rparr>"

definition upd_thread :: "(pthread_thread \<Rightarrow> pthread_thread) \<Rightarrow> nat \<Rightarrow> pthread_listener \<Rightarrow> pthread_listener" where
  "upd_thread f n s = (case threads s n of None \<Rightarrow> s | Some t \<Rightarrow> set_thread n (f t) s)"

definition go :: "thread_pc \<Rightarrow> nat \<Rightarrow> pthread_listener \<Rightarrow> pthread_listener" where
  "go pc n s = upd_thread (\<lambda>t. t\<lparr>at := pc\<rparr>) n s"

definition set_context :: "nat \<Rightarrow> PeakPthreadStartContext \<Rightarrow> pthread_listener \<Rightarrow> pthread_listener" where
  "set_context c x s = s\<lparr>contexts := (contexts s)(c := Some x)\<rparr>"

definition heap_error :: "pthread_listener \<Rightarrow> pthread_listener" where
  "heap_error s = s\<lparr>heap_fault := True\<rparr>"

text \<open>Whether a thread that can still run has the kernel thread id \<open>k\<close>.\<close>

definition task_alive :: "pid_t \<Rightarrow> pthread_listener \<Rightarrow> bool" where
  "task_alive k s =
     list_ex (\<lambda>n. case threads s n of None \<Rightarrow> False | Some t \<Rightarrow> alive t \<and> ktid t = k) [0..<next_thread s]"

subsection \<open>Helpers of the hooks\<close>

definition wake_reclaimer_if_pending :: "bool \<Rightarrow> pthread_listener \<Rightarrow> pthread_listener" where
  "wake_reclaimer_if_pending became s = (if became then emit Controller_woken s else s)"

text \<open>\<open>key_ok\<close> and \<open>set_ok\<close>: the outcomes of \<^verbatim>\<open>pthread_key_create\<close>, asked once per process, and of
  \<^verbatim>\<open>pthread_setspecific\<close>.\<close>

definition publish_current_slot ::
  "bool \<Rightarrow> bool \<Rightarrow> nat \<Rightarrow> uint64 \<Rightarrow> nat \<Rightarrow> pthread_listener \<Rightarrow> bool \<times> pthread_listener" where
  "publish_current_slot key_ok set_ok sl g n s =
     (let created = (case slot_key_created s of None \<Rightarrow> key_ok | Some b \<Rightarrow> b);
          s1 = s\<lparr>slot_key_created := Some created\<rparr>;
          idn = \<lparr>id_slot = sl, id_generation = g, destructor_passes = 0, valid = set_ok\<rparr>
      in if \<not> created then (False, s1)
         else (set_ok, upd_thread (\<lambda>t. t\<lparr>slot_identity := idn, slot_key := slot_key t \<or> set_ok\<rparr>) n s1))"

definition start_context_release :: "nat \<Rightarrow> pthread_listener \<Rightarrow> pthread_listener" where
  "start_context_release c s =
     (case contexts s c of
        None \<Rightarrow> heap_error s
      | Some x \<Rightarrow>
          if references x = 1
          then emit (Context_freed c) (s\<lparr>contexts := (contexts s)(c := None)\<rparr>)
          else set_context c (x\<lparr>references := references x - 1\<rparr>) s)"

definition start_warn_abandoned :: "pthread_listener \<Rightarrow> pthread_listener" where
  "start_warn_abandoned s =
     (if start_timeout_warning_emitted s then s
      else emit Warned_abandoned (s\<lparr>start_timeout_warning_emitted := True\<rparr>))"

definition identity_token :: "PeakPthreadSlotIdentity \<Rightarrow> PeakPthreadSlotToken" where
  "identity_token i = \<lparr>slot = id_slot i, generation = id_generation i\<rparr>"

text \<open>The destructor of the slot key, which the thread library has set to null before it calls it.\<close>

definition slot_destructor :: "bool \<Rightarrow> nat \<Rightarrow> pthread_listener \<Rightarrow> pthread_listener" where
  "slot_destructor set_ok n s =
     (case threads s n of
        None \<Rightarrow> s
      | Some t \<Rightarrow>
          if \<not> valid (slot_identity t) then s
          else
            let passes = destructor_passes (slot_identity t) + 1;
                idn = (slot_identity t)\<lparr>destructor_passes := passes\<rparr>;
                s1 = emit (Frames_released n) s
            in if passes < PTHREAD_DESTRUCTOR_ITERATIONS
               then set_thread n (t\<lparr>slot_identity := idn, slot_key := set_ok\<rparr>) s1
               else
                 let s2 = set_thread n (t\<lparr>slot_identity := idn\<rparr>) s1
                 in if \<not> tid_mapping_initialized s2 then s2
                    else case mark_final_destructor (identity_token idn) (pthread_slot_registry s2) of
                           (marked, became, r) \<Rightarrow> wake_reclaimer_if_pending became (set_registry r s2))"

definition quarantine_ambiguous_tid :: "pthread_t \<Rightarrow> pthread_listener \<Rightarrow> pthread_listener" where
  "quarantine_ambiguous_tid p s =
     (if \<not> tid_mapping_initialized s then s
      else set_registry (snd (quarantine p (pthread_slot_registry s))) s)"

definition capture_thread_token :: "pthread_t \<Rightarrow> pthread_listener \<Rightarrow> PeakPthreadSlotToken option" where
  "capture_thread_token p s =
     (if \<not> tid_mapping_initialized s then None else capture p (pthread_slot_registry s))"

text \<open>Registering the thread that attaches the listener: it has the whole registry to itself.\<close>

definition insert_thread :: "bool \<Rightarrow> bool \<Rightarrow> pthread_t \<Rightarrow> nat \<Rightarrow> pthread_listener \<Rightarrow> bool \<times> pthread_listener" where
  "insert_thread key_ok set_ok p n s =
     (case reserve_insert p (pthread_slot_registry s) of
        (None, r) \<Rightarrow> (False, set_registry r s)
      | (Some tk, r) \<Rightarrow>
          (case publish_current_slot key_ok set_ok (slot tk) (generation tk) n (set_registry r s) of
             (True, s1) \<Rightarrow> (True, s1)
           | (False, s1) \<Rightarrow>
               (False, set_registry (snd (compare_remove p (generation tk) True (pthread_slot_registry s1))) s1)))"

subsection \<open>The wrapped start routine\<close>

text \<open>Calling the application's start routine; the context is read while the thread holds its
  reference.\<close>

definition call_routine :: "nat \<Rightarrow> pthread_listener \<Rightarrow> pthread_listener" where
  "call_routine n s =
     (case contexts s n of
        None \<Rightarrow> heap_error s
      | Some x \<Rightarrow> go In_application n (emit (Routine_called n (start_routine x) (start_arg x)) s))"

definition exclude :: "nat \<Rightarrow> pthread_listener \<Rightarrow> pthread_listener" where
  "exclude n s = upd_thread (\<lambda>t. t\<lparr>thread_excluded := True\<rparr>) n s"

text \<open>One turn of the wait for the creator: \<open>gate_ok\<close> and the results of timed waits are answers.\<close>

definition start_wait :: "bool \<Rightarrow> int list \<Rightarrow> nat \<Rightarrow> pthread_listener \<Rightarrow> pthread_listener" where
  "start_wait gate_ok waits n s =
     (case contexts s n of
        None \<Rightarrow> heap_error s
      | Some x \<Rightarrow>
          (case wait_ready (start_handshake_timeout_ms s) gate_ok False (map (\<lambda>w. (False, w)) waits)
                  (handshake_state x) of
             None \<Rightarrow> s
           | Some st \<Rightarrow>
               let s1 = set_context n (x\<lparr>handshake_state := st\<rparr>) s;
                   s2 = (if st = PEAK_PTHREAD_START_ABANDONED then start_warn_abandoned s1 else s1)
               in if \<not> skip_tracking x \<and> st = PEAK_PTHREAD_START_READY
                  then if tracked x then go Start_adopt n s2 else call_routine n s2
                  else call_routine n (exclude n s2)))"

definition start_adopt :: "bool \<Rightarrow> bool \<Rightarrow> nat \<Rightarrow> pthread_listener \<Rightarrow> pthread_listener" where
  "start_adopt key_ok set_ok n s =
     (case contexts s n of
        None \<Rightarrow> heap_error s
      | Some x \<Rightarrow>
          (case publish_current_slot key_ok set_ok (ctx_slot x) (ctx_generation x) n s of
             (False, s1) \<Rightarrow> call_routine n (upd_thread (\<lambda>t. t\<lparr>thread_excluded := False\<rparr>) n s1)
           | (True, s1) \<Rightarrow> if tid_mapping_initialized s1 then go Start_mark n s1 else call_routine n s1))"

definition start_mark :: "nat \<Rightarrow> pthread_listener \<Rightarrow> pthread_listener" where
  "start_mark n s =
     (case (contexts s n, threads s n) of
        (Some x, Some t) \<Rightarrow>
          call_routine n (set_registry (snd (mark_kernel_tid
             \<lparr>slot = ctx_slot x, generation = ctx_generation x\<rparr> (ktid t) (pthread_slot_registry s))) s)
      | _ \<Rightarrow> heap_error s)"

text \<open>The start routine has returned, or the thread exits or is cancelled: the cleanup handler runs.\<close>

definition start_cleanup :: "nat \<Rightarrow> pthread_listener \<Rightarrow> pthread_listener" where
  "start_cleanup n s =
     (let s1 = upd_thread (\<lambda>t. t\<lparr>exiting := True\<rparr>) n s
      in if n = 0 then s1 else start_context_release n s1)"

subsection \<open>Creating a thread\<close>

text \<open>\<open>no_place\<close>: the caller passed a null \<^verbatim>\<open>pthread_t*\<close>; \<open>heartbeat\<close>: it passed the heartbeat's;
  \<open>attr_detached\<close>: the attributes are given and ask for a detached thread.\<close>

definition create_enter ::
  "bool \<Rightarrow> bool \<Rightarrow> bool \<Rightarrow> uint64 \<Rightarrow> uint64 \<Rightarrow> nat \<Rightarrow> pthread_thread \<Rightarrow> pthread_listener \<Rightarrow> pthread_listener" where
  "create_enter no_place heartbeat attr_detached routine arg n t s =
     (let c = next_thread s;
          x = \<lparr>start_routine = routine, start_arg = arg,
               skip_tracking = (\<not> no_place \<and> heartbeat \<or> next_create_is_helper t),
               tracked = False, ctx_detached = attr_detached, ctx_slot = 0, ctx_generation = 0,
               handshake_state = PEAK_PTHREAD_START_PENDING, references = 2\<rparr>
      in set_thread n (t\<lparr>next_create_is_helper := False, at := Create_call c (\<not> no_place)\<rparr>)
           (set_context c x (s\<lparr>next_thread := c + 1\<rparr>)))"

definition leave_child_tid :: "nat \<Rightarrow> bool \<Rightarrow> pthread_listener \<Rightarrow> pthread_listener" where
  "leave_child_tid c is_original s = (if is_original then s else emit (Child_tid_freed c) s)"

definition new_thread :: "pthread_t \<Rightarrow> pid_t \<Rightarrow> bool \<Rightarrow> pthread_thread" where
  "new_thread p k det =
     \<lparr>self = p, ktid = k, alive = True, os_detached = det, exiting = False,
      slot_identity = \<lparr>id_slot = 0, id_generation = 0, destructor_passes = 0, valid = False\<rparr>,
      slot_key = False, next_create_is_helper = False, thread_excluded = False, at = Start_wait\<rparr>"

text \<open>The thread library creates the thread, or fails and the hook frees the context.\<close>

definition create_failed :: "nat \<Rightarrow> bool \<Rightarrow> nat \<Rightarrow> pthread_listener \<Rightarrow> pthread_listener" where
  "create_failed c is_original n s =
     (case contexts s c of
        None \<Rightarrow> heap_error s
      | Some x \<Rightarrow> leave_child_tid c is_original (go In_application n
                    (emit (Context_freed c) (s\<lparr>contexts := (contexts s)(c := None)\<rparr>))))"

definition create_succeeded :: "pthread_t \<Rightarrow> pid_t \<Rightarrow> nat \<Rightarrow> bool \<Rightarrow> nat \<Rightarrow> pthread_listener \<Rightarrow> pthread_listener" where
  "create_succeeded p k c is_original n s =
     (case contexts s c of
        None \<Rightarrow> heap_error s
      | Some x \<Rightarrow>
          if handles s p \<noteq> None \<or> k \<le> 0 \<or> task_alive k s then s
          else go (Leave_register c p is_original) n
                 (set_thread c (new_thread p k (ctx_detached x)) (s\<lparr>handles := (handles s)(p := Some c)\<rparr>)))"

definition leave_register :: "nat \<Rightarrow> pthread_t \<Rightarrow> bool \<Rightarrow> nat \<Rightarrow> pthread_listener \<Rightarrow> pthread_listener" where
  "leave_register c p is_original n s =
     (case contexts s c of
        None \<Rightarrow> heap_error s
      | Some x \<Rightarrow>
          if \<not> tid_mapping_initialized s then go (Leave_publish c p is_original) n s
          else if skip_tracking x then go (Leave_quarantine c p is_original) n s
          else
            (case reserve_insert p (pthread_slot_registry s) of
               (None, r) \<Rightarrow> go (Leave_quarantine c p is_original) n (set_registry r s)
             | (Some tk, r) \<Rightarrow>
                 go (if ctx_detached x then Leave_detached c p is_original else Leave_publish c p is_original) n
                   (set_context c (x\<lparr>ctx_slot := slot tk, ctx_generation := generation tk, tracked := True\<rparr>)
                      (set_registry r s))))"

definition leave_detached :: "nat \<Rightarrow> pthread_t \<Rightarrow> bool \<Rightarrow> nat \<Rightarrow> pthread_listener \<Rightarrow> pthread_listener" where
  "leave_detached c p is_original n s =
     (case contexts s c of
        None \<Rightarrow> heap_error s
      | Some x \<Rightarrow>
          go (Leave_publish c p is_original) n
            (set_registry (snd (snd (mark_detached p (ctx_generation x) (pthread_slot_registry s)))) s))"

definition leave_publish :: "nat \<Rightarrow> pthread_t \<Rightarrow> bool \<Rightarrow> nat \<Rightarrow> pthread_listener \<Rightarrow> pthread_listener" where
  "leave_publish c p is_original n s =
     (case contexts s c of
        None \<Rightarrow> heap_error s
      | Some x \<Rightarrow>
          (case publish_ready (handshake_state x) of
             (published, st) \<Rightarrow>
               go (if \<not> published \<and> tracked x then Leave_remove c p is_original else Leave_release c is_original) n
                 (set_context c (x\<lparr>handshake_state := st\<rparr>) s)))"

definition leave_remove :: "nat \<Rightarrow> pthread_t \<Rightarrow> bool \<Rightarrow> nat \<Rightarrow> pthread_listener \<Rightarrow> pthread_listener" where
  "leave_remove c p is_original n s =
     (case contexts s c of
        None \<Rightarrow> heap_error s
      | Some x \<Rightarrow>
          go (Leave_release c is_original) n
            (set_context c (x\<lparr>tracked := False\<rparr>)
              (set_registry (snd (compare_remove p (ctx_generation x) True (pthread_slot_registry s))) s)))"

definition leave_release :: "nat \<Rightarrow> bool \<Rightarrow> nat \<Rightarrow> pthread_listener \<Rightarrow> pthread_listener" where
  "leave_release c is_original n s =
     leave_child_tid c is_original (go In_application n (start_context_release c s))"

subsection \<open>Joining and detaching\<close>

definition pthread_join_enter :: "pthread_t \<Rightarrow> uint64 \<Rightarrow> nat \<Rightarrow> pthread_listener \<Rightarrow> pthread_listener" where
  "pthread_join_enter p cookie n s = go (Join_call p (capture_thread_token p s) cookie) n s"

text \<open>The real join: it succeeds only on a thread that has ended and is not detached.\<close>

definition joinable :: "pthread_t \<Rightarrow> pthread_listener \<Rightarrow> bool" where
  "joinable p s =
     (case handles s p of
        None \<Rightarrow> False
      | Some m \<Rightarrow> (case threads s m of None \<Rightarrow> False | Some t \<Rightarrow> \<not> alive t \<and> \<not> os_detached t))"

definition pthread_join_return ::
  "bool \<Rightarrow> pthread_t \<Rightarrow> PeakPthreadSlotToken option \<Rightarrow> uint64 \<Rightarrow> nat \<Rightarrow> pthread_listener \<Rightarrow> pthread_listener" where
  "pthread_join_return ok p captured cookie n s =
     (if \<not> ok then go In_application n s
      else if \<not> joinable p s then s
      else let s1 = emit (Unwind_joined cookie p captured) (s\<lparr>handles := (handles s)(p := None)\<rparr>)
           in case captured of
                None \<Rightarrow> go In_application n s1
              | Some tk \<Rightarrow> go (Join_begin tk) n s1)"

definition join_begin_retire :: "PeakPthreadSlotToken \<Rightarrow> nat \<Rightarrow> pthread_listener \<Rightarrow> pthread_listener" where
  "join_begin_retire tk n s =
     (case begin_retire tk (pthread_slot_registry s) of
        (claimed, r) \<Rightarrow> go (if claimed then Join_retire tk else In_application) n (set_registry r s))"

definition join_complete_retire :: "PeakPthreadSlotToken \<Rightarrow> bool \<Rightarrow> nat \<Rightarrow> pthread_listener \<Rightarrow> pthread_listener" where
  "join_complete_retire tk reuse n s =
     go In_application n (set_registry (snd (complete_retire tk reuse (pthread_slot_registry s))) s)"

definition pthread_detach_enter :: "pthread_t \<Rightarrow> nat \<Rightarrow> pthread_listener \<Rightarrow> pthread_listener" where
  "pthread_detach_enter p n s = go (Detach_call p (capture_thread_token p s)) n s"

definition os_detach :: "pthread_t \<Rightarrow> pthread_listener \<Rightarrow> pthread_listener option" where
  "os_detach p s =
     (case handles s p of
        None \<Rightarrow> None
      | Some m \<Rightarrow>
          (case threads s m of
             None \<Rightarrow> None
           | Some t \<Rightarrow>
               if os_detached t then None
               else Some (set_thread m (t\<lparr>os_detached := True\<rparr>)
                      (if alive t then s else s\<lparr>handles := (handles s)(p := None)\<rparr>))))"

definition pthread_detach_return ::
  "bool \<Rightarrow> pthread_t \<Rightarrow> PeakPthreadSlotToken option \<Rightarrow> nat \<Rightarrow> pthread_listener \<Rightarrow> pthread_listener" where
  "pthread_detach_return ok p captured n s =
     (if \<not> ok then go In_application n s
      else case os_detach p s of
             None \<Rightarrow> s
           | Some s1 \<Rightarrow>
               (case captured of
                  None \<Rightarrow> go In_application n s1
                | Some tk \<Rightarrow> go (Detach_mark p tk) n s1))"

definition detach_mark :: "pthread_t \<Rightarrow> PeakPthreadSlotToken \<Rightarrow> nat \<Rightarrow> pthread_listener \<Rightarrow> pthread_listener" where
  "detach_mark p tk n s =
     (case mark_detached p (generation tk) (pthread_slot_registry s) of
        (marked, became, r) \<Rightarrow> go In_application n (wake_reclaimer_if_pending became (set_registry r s)))"

subsection \<open>Exclusion, exit and queries\<close>

definition exclude_current_thread :: "nat \<Rightarrow> pthread_thread \<Rightarrow> pthread_listener \<Rightarrow> pthread_listener" where
  "exclude_current_thread n t s =
     (let s1 = exclude n s
      in if \<not> valid (slot_identity t) then s1
         else upd_thread (\<lambda>t. t\<lparr>slot_identity := (slot_identity t)\<lparr>valid := False\<rparr>,
                                slot_key := slot_key t \<and> slot_key_created s \<noteq> Some True\<rparr>) n
                (quarantine_ambiguous_tid (self t) (emit (State_released n) s1)))"

definition mark_next_created_thread_helper :: "nat \<Rightarrow> pthread_listener \<Rightarrow> pthread_listener" where
  "mark_next_created_thread_helper n s = upd_thread (\<lambda>t. t\<lparr>next_create_is_helper := True\<rparr>) n s"

text \<open>The end of a thread; a detached one gives its \<^verbatim>\<open>pthread_t\<close> back.\<close>

definition terminate :: "nat \<Rightarrow> pthread_thread \<Rightarrow> pthread_listener \<Rightarrow> pthread_listener" where
  "terminate n t s =
     set_thread n (t\<lparr>alive := False\<rparr>)
       (if os_detached t then s\<lparr>handles := (handles s)(self t := None)\<rparr> else s)"

definition lookup_thread :: "pthread_t \<Rightarrow> pthread_listener \<Rightarrow> nat \<times> bool" where
  "lookup_thread p s =
     (case capture_thread_token p s of None \<Rightarrow> (0, False) | Some tk \<Rightarrow> (slot tk, True))"

definition current_thread_slot :: "nat \<Rightarrow> pthread_listener \<Rightarrow> nat option" where
  "current_thread_slot n s =
     (case threads s n of
        None \<Rightarrow> None
      | Some t \<Rightarrow> if \<not> valid (slot_identity t) then None else Some (id_slot (slot_identity t)))"

definition current_thread_token :: "nat \<Rightarrow> pthread_listener \<Rightarrow> (nat \<times> uint64) option" where
  "current_thread_token n s =
     (case threads s n of
        None \<Rightarrow> None
      | Some t \<Rightarrow> if \<not> valid (slot_identity t) then None
                  else Some (id_slot (slot_identity t), id_generation (slot_identity t)))"

definition snapshot_threads :: "bool \<Rightarrow> nat \<Rightarrow> pthread_listener \<Rightarrow> (pthread_t \<times> nat) list \<times> bool" where
  "snapshot_threads buffers room s =
     (if \<not> tid_mapping_initialized s then ([], True) else snapshot buffers room (pthread_slot_registry s))"

subsection \<open>Reclaiming the slots of detached threads\<close>

definition reclaim_interval_elapsed :: "int \<times> int \<Rightarrow> pthread_listener \<Rightarrow> bool" where
  "reclaim_interval_elapsed now s =
     (case reclaim_last_scan s of
        None \<Rightarrow> True
      | Some prev \<Rightarrow>
          (fst now - fst prev) * 1000000000 + (snd now - snd prev)
            \<ge> int PEAK_PTHREAD_RECLAIM_SCAN_INTERVAL_MS * 1000000)"

definition diagnose :: "(PeakPthreadReclamationDiagnostics \<Rightarrow> PeakPthreadReclamationDiagnostics) \<Rightarrow>
    pthread_listener \<Rightarrow> pthread_listener" where
  "diagnose f s = s\<lparr>reclaim_diagnostics := f (reclaim_diagnostics s)\<rparr>"

text \<open>The checks in front of the lock; \<open>now\<close> is the clock, \<open>None\<close> when it fails.\<close>

definition reclaim_start :: "(int \<times> int) option \<Rightarrow> pthread_listener \<Rightarrow> pthread_listener" where
  "reclaim_start now s =
     (if \<not> tid_mapping_initialized s \<or> \<not> task_directory_open s
         \<or> fst (registry_exit_pending_count (pthread_slot_registry s)) = 0
      then emit (Reclaim_returned False) s
      else case now of
             None \<Rightarrow> emit (Reclaim_returned False) s
           | Some ts \<Rightarrow> s\<lparr>reclaimer := Reclaim_locked ts\<rparr>)"

definition reclaim_snapshot :: "int \<times> int \<Rightarrow> pthread_listener \<Rightarrow> pthread_listener" where
  "reclaim_snapshot now s =
     (if \<not> reclaim_interval_elapsed now s
      then emit (Reclaim_returned False) (s\<lparr>reclaimer := Reclaim_idle\<rparr>)
      else case snapshot_exit_pending PEAK_PTHREAD_RECLAIM_SCAN_BUDGET (pthread_slot_registry s) of
             (cs, examined, r) \<Rightarrow>
               diagnose (\<lambda>d. d\<lparr>scans := scans d + 1, entries_examined := entries_examined d + examined,
                            candidates_checked := candidates_checked d + length cs\<rparr>)
                 (set_registry r (s\<lparr>reclaim_last_scan := Some now, reclaimer := Reclaim_next cs False\<rparr>)))"

text \<open>What \<^verbatim>\<open>fstatat\<close> says of the kernel thread of a candidate.\<close>

datatype task_stat = Task_exists | Task_absent | Task_unknown

definition reclaim_candidate :: "task_stat \<Rightarrow> pthread_listener \<Rightarrow> pthread_listener" where
  "reclaim_candidate answer s =
     (case reclaimer s of
        Reclaim_next [] did_work \<Rightarrow>
          diagnose (\<lambda>d. case registry_exit_pending_count (pthread_slot_registry s) of
                      (p, m) \<Rightarrow> d\<lparr>pending := p, max_pending := m\<rparr>)
            (emit (Reclaim_returned did_work) (s\<lparr>reclaimer := Reclaim_idle\<rparr>))
      | Reclaim_next (cand # cs) did_work \<Rightarrow>
          (case answer of
             Task_exists \<Rightarrow> diagnose (\<lambda>d. d\<lparr>deferred_alive := deferred_alive d + 1\<rparr>)
                               (s\<lparr>reclaimer := Reclaim_next cs did_work\<rparr>)
           | Task_unknown \<Rightarrow> diagnose (\<lambda>d. d\<lparr>ambiguous_checks := ambiguous_checks d + 1\<rparr>)
                               (s\<lparr>reclaimer := Reclaim_next cs did_work\<rparr>)
           | Task_absent \<Rightarrow>
               if task_alive (cand_kernel_tid cand) s then s
               else s\<lparr>reclaimer := Reclaim_begin (cand_token cand) cs did_work\<rparr>)
      | _ \<Rightarrow> s)"

text \<open>The next step of a scan; \<open>reuse\<close> is the answer of the general listener to the retirement.\<close>

definition reclaim_step :: "task_stat \<Rightarrow> bool \<Rightarrow> pthread_listener \<Rightarrow> pthread_listener" where
  "reclaim_step answer reuse s =
     (case reclaimer s of
        Reclaim_idle \<Rightarrow> s
      | Reclaim_locked now \<Rightarrow> reclaim_snapshot now s
      | Reclaim_next cs did_work \<Rightarrow> reclaim_candidate answer s
      | Reclaim_begin tk cs did_work \<Rightarrow>
          (case begin_retire tk (pthread_slot_registry s) of
             (False, r) \<Rightarrow> diagnose (\<lambda>d. d\<lparr>ambiguous_checks := ambiguous_checks d + 1\<rparr>)
                             (set_registry r (s\<lparr>reclaimer := Reclaim_next cs did_work\<rparr>))
           | (True, r) \<Rightarrow> set_registry r (s\<lparr>reclaimer := Reclaim_retire tk cs did_work\<rparr>))
      | Reclaim_retire tk cs did_work \<Rightarrow>
          if reuse then s\<lparr>reclaimer := Reclaim_complete tk cs did_work\<rparr>
          else diagnose (\<lambda>d. d\<lparr>retire_failures := retire_failures d + 1\<rparr>) (s\<lparr>reclaimer := Reclaim_defer tk cs did_work\<rparr>)
      | Reclaim_defer tk cs did_work \<Rightarrow>
          set_registry (snd (defer_retire tk (pthread_slot_registry s))) (s\<lparr>reclaimer := Reclaim_next cs did_work\<rparr>)
      | Reclaim_complete tk cs did_work \<Rightarrow>
          (case complete_retire tk True (pthread_slot_registry s) of
             (True, r) \<Rightarrow> diagnose (\<lambda>d. d\<lparr>reclaimed := reclaimed d + 1\<rparr>)
                            (set_registry r (s\<lparr>reclaimer := Reclaim_next cs True\<rparr>))
           | (False, r) \<Rightarrow> diagnose (\<lambda>d. d\<lparr>ambiguous_checks := ambiguous_checks d + 1\<rparr>)
                             (set_registry r (s\<lparr>reclaimer := Reclaim_next cs did_work\<rparr>))))"

definition get_reclamation_diagnostics ::
  "pthread_listener \<Rightarrow> PeakPthreadReclamationDiagnostics \<times> pthread_listener" where
  "get_reclamation_diagnostics s =
     (let s1 = diagnose (\<lambda>d. case registry_exit_pending_count (pthread_slot_registry s) of
                           (p, m) \<Rightarrow> d\<lparr>pending := p, max_pending := m\<rparr>) s
      in (reclaim_diagnostics s1, s1))"

subsection \<open>Runs\<close>

text \<open>What a thread in application code does next; the other program points have one continuation,
  which takes the answers it needs.\<close>

datatype call =
    Call_create bool bool bool uint64 uint64
  | Call_join pthread_t uint64
  | Call_detach pthread_t
  | Call_exclude
  | Call_mark_helper
  | Call_exit
  | Run_destructor bool
  | End_thread

datatype listener_action =
    Call nat call
  | Start nat bool "int list" bool
  | Create_returns nat "(pthread_t \<times> pid_t) option"
  | Proceed nat
  | Returns nat bool
  | Reclaim_scan "(int \<times> int) option"
  | Reclaim task_stat bool

fun application_call :: "call \<Rightarrow> nat \<Rightarrow> pthread_thread \<Rightarrow> pthread_listener \<Rightarrow> pthread_listener" where
  "application_call (Call_create no_place heartbeat det routine arg) n t s =
     create_enter no_place heartbeat det routine arg n t s"
| "application_call (Call_join p cookie) n t s = pthread_join_enter p cookie n s"
| "application_call (Call_detach p) n t s = pthread_detach_enter p n s"
| "application_call Call_exclude n t s = exclude_current_thread n t s"
| "application_call Call_mark_helper n t s = mark_next_created_thread_helper n s"
| "application_call Call_exit n t s = (if exiting t then s else start_cleanup n s)"
| "application_call (Run_destructor set_ok) n t s =
     (if exiting t \<and> slot_key t
      then slot_destructor set_ok n (set_thread n (t\<lparr>slot_key := False\<rparr>) s) else s)"
| "application_call End_thread n t s = (if exiting t then terminate n t s else s)"

fun start_action :: "thread_pc \<Rightarrow> bool \<Rightarrow> int list \<Rightarrow> bool \<Rightarrow> nat \<Rightarrow> pthread_listener \<Rightarrow> pthread_listener" where
  "start_action Start_wait ok waits ok2 n s = start_wait ok waits n s"
| "start_action Start_adopt ok waits ok2 n s = start_adopt ok ok2 n s"
| "start_action Start_mark ok waits ok2 n s = start_mark n s"
| "start_action _ ok waits ok2 n s = s"

fun create_action :: "thread_pc \<Rightarrow> (pthread_t \<times> pid_t) option \<Rightarrow> nat \<Rightarrow> pthread_listener \<Rightarrow> pthread_listener" where
  "create_action (Create_call c orig) None n s = create_failed c orig n s"
| "create_action (Create_call c orig) (Some (p, k)) n s = create_succeeded p k c orig n s"
| "create_action _ _ n s = s"

fun proceed_action :: "thread_pc \<Rightarrow> nat \<Rightarrow> pthread_listener \<Rightarrow> pthread_listener" where
  "proceed_action (Leave_register c p orig) n s = leave_register c p orig n s"
| "proceed_action (Leave_detached c p orig) n s = leave_detached c p orig n s"
| "proceed_action (Leave_quarantine c p orig) n s =
     go (Leave_publish c p orig) n (quarantine_ambiguous_tid p s)"
| "proceed_action (Leave_publish c p orig) n s = leave_publish c p orig n s"
| "proceed_action (Leave_remove c p orig) n s = leave_remove c p orig n s"
| "proceed_action (Leave_release c orig) n s = leave_release c orig n s"
| "proceed_action (Join_begin tk) n s = join_begin_retire tk n s"
| "proceed_action (Join_complete tk reuse) n s = join_complete_retire tk reuse n s"
| "proceed_action (Detach_mark p tk) n s = detach_mark p tk n s"
| "proceed_action _ n s = s"

fun return_action :: "thread_pc \<Rightarrow> bool \<Rightarrow> nat \<Rightarrow> pthread_listener \<Rightarrow> pthread_listener" where
  "return_action (Join_call p captured cookie) ok n s = pthread_join_return ok p captured cookie n s"
| "return_action (Join_retire tk) reuse n s = go (Join_complete tk reuse) n s"
| "return_action (Detach_call p captured) ok n s = pthread_detach_return ok p captured n s"
| "return_action _ ok n s = s"

definition with_thread ::
  "nat \<Rightarrow> (pthread_thread \<Rightarrow> pthread_listener \<Rightarrow> pthread_listener) \<Rightarrow> pthread_listener \<Rightarrow> pthread_listener" where
  "with_thread n f s =
     (case threads s n of None \<Rightarrow> s | Some t \<Rightarrow> if alive t then f t s else s)"

fun listener_step :: "listener_action \<Rightarrow> pthread_listener \<Rightarrow> pthread_listener" where
  "listener_step (Call n c) s =
     with_thread n (\<lambda>t s. if at t = In_application then application_call c n t s else s) s"
| "listener_step (Start n ok waits ok2) s = with_thread n (\<lambda>t. start_action (at t) ok waits ok2 n) s"
| "listener_step (Create_returns n res) s = with_thread n (\<lambda>t. create_action (at t) res n) s"
| "listener_step (Proceed n) s = with_thread n (\<lambda>t. proceed_action (at t) n) s"
| "listener_step (Returns n ok) s = with_thread n (\<lambda>t. return_action (at t) ok n) s"
| "listener_step (Reclaim_scan now) s = (if reclaimer s = Reclaim_idle then reclaim_start now s else s)"
| "listener_step (Reclaim answer reuse) s = reclaim_step answer reuse s"

text \<open>The state in which the hooks are in place: the registry is initialised for \<open>cap\<close> threads and the
  attaching thread, number 0, is registered. \<open>mutex_ok\<close>, \<open>key_ok\<close>, \<open>set_ok\<close> and \<open>dir_ok\<close> are the answers of
  the system, \<open>timeout\<close> the configured handshake timeout.\<close>

definition listener_zero :: "pthread_t \<Rightarrow> pid_t \<Rightarrow> bool \<Rightarrow> nat \<Rightarrow> pthread_listener" where
  "listener_zero p k dir_ok timeout =
     \<lparr>pthread_slot_registry = zero_registry, tid_mapping_initialized = False,
      start_handshake_timeout_ms = timeout, slot_key_created = None, start_timeout_warning_emitted = False,
      contexts = (\<lambda>_. None), next_thread = 1,
      threads = (\<lambda>_. None)(0 := Some ((new_thread p k False)\<lparr>at := In_application\<rparr>)),
      handles = (\<lambda>_. None)(p := Some 0), reclaimer = Reclaim_idle, task_directory_open = dir_ok,
      reclaim_last_scan = None,
      reclaim_diagnostics = \<lparr>scans = 0, entries_examined = 0, candidates_checked = 0, reclaimed = 0,
        deferred_alive = 0, ambiguous_checks = 0, retire_failures = 0, pending = 0, max_pending = 0\<rparr>,
      heap_fault = False, events = []\<rparr>"

definition listener_attach ::
  "bool \<Rightarrow> bool \<Rightarrow> bool \<Rightarrow> bool \<Rightarrow> nat \<Rightarrow> nat \<Rightarrow> pthread_t \<Rightarrow> pid_t \<Rightarrow> pthread_listener" where
  "listener_attach mutex_ok key_ok set_ok dir_ok timeout cap p k =
     (let s = listener_zero p k dir_ok timeout
      in case registry_init mutex_ok cap (pthread_slot_registry s) of
           (ok, r) \<Rightarrow>
             let s1 = set_registry r (s\<lparr>tid_mapping_initialized := ok\<rparr>)
             in if ok then snd (insert_thread key_ok set_ok p 0 s1) else s1)"

subsection \<open>Installing and removing the hooks\<close>

text \<open>Which Gum objects and hook addresses the listener holds; the calls into Gum are a list.\<close>

record listener_hooks =
  create_interceptor :: bool
  create_listener :: bool
  create_address :: bool
  join_address :: bool
  detach_address :: bool

datatype gum_call =
    Gate_installed bool
  | Begin_transaction
  | Attach_create
  | Replace_join
  | Replace_detach
  | Detach_listener
  | Revert_join
  | Revert_detach
  | End_transaction
  | Flush
  | Unref_listener
  | Unref_interceptor

text \<open>\<open>found\<close>: which of the three functions were resolved; \<open>attached\<close>: the outcome of the attach.\<close>

definition install_hooks :: "bool \<times> bool \<times> bool \<Rightarrow> bool \<Rightarrow> gum_call list \<times> listener_hooks" where
  "install_hooks found attached =
     (case found of
        (create, join, detach) \<Rightarrow>
          ([Gate_installed False, Begin_transaction]
             @ (if create then Attach_create # (if attached then [Gate_installed True] else []) else [])
             @ (if join then [Replace_join] else []) @ (if detach then [Replace_detach] else [])
             @ [End_transaction],
           \<lparr>create_interceptor = True, create_listener = True, create_address = create,
            join_address = join, detach_address = detach\<rparr>))"

text \<open>Up to a hundred attempts with a pause, then a last one; \<open>flushed i\<close> is what Gum answers to attempt \<open>i\<close>.\<close>

fun flush_attempts :: "(nat \<Rightarrow> bool) \<Rightarrow> nat \<Rightarrow> nat \<Rightarrow> bool \<times> gum_call list" where
  "flush_attempts flushed i 0 = (flushed i, [Flush])"
| "flush_attempts flushed i (Suc left) =
     (if flushed i then (True, [Flush])
      else case flush_attempts flushed (i + 1) left of (ok, calls) \<Rightarrow> (ok, Flush # calls))"

definition flush_teardown :: "(nat \<Rightarrow> bool) \<Rightarrow> listener_hooks \<Rightarrow> bool \<times> gum_call list" where
  "flush_teardown flushed h =
     (if \<not> create_interceptor h then (True, []) else flush_attempts flushed 0 100)"

definition listener_dettach :: "(nat \<Rightarrow> bool) \<Rightarrow> listener_hooks \<Rightarrow> bool \<times> gum_call list \<times> listener_hooks" where
  "listener_dettach flushed h =
     (if \<not> create_interceptor h then (True, [], h)
      else
        let removal = [Begin_transaction] @ (if create_listener h then [Detach_listener] else [])
              @ (if join_address h then [Revert_join] else []) @ (if detach_address h then [Revert_detach] else [])
              @ [End_transaction]
        in case flush_teardown flushed h of
             (False, calls) \<Rightarrow> (False, removal @ calls, h)
           | (True, calls) \<Rightarrow>
               (True, removal @ calls @ (if create_listener h then [Unref_listener] else []) @ [Unref_interceptor],
                \<lparr>create_interceptor = False, create_listener = False, create_address = False,
                 join_address = False, detach_address = False\<rparr>))"

text \<open>The listener object is released only behind a flush that Gum confirmed, and after a teardown that
  failed everything is kept for a later one.\<close>

lemma flush_attempts_spec:
  "fst (flush_attempts flushed i left) \<longleftrightarrow> (\<exists>k \<le> left. flushed (i + k))"
proof (induction left arbitrary: i)
  case (Suc left)
  have "(\<exists>k \<le> Suc left. flushed (i + k)) \<longleftrightarrow> flushed i \<or> (\<exists>k \<le> left. flushed (i + 1 + k))"
    by (auto simp: le_Suc_eq) (metis add_Suc_right le_Suc_eq less_Suc_eq_le not0_implies_Suc Suc_le_mono add.right_neutral)+
  then show ?case
    using Suc.IH [of "i + 1"] by (simp add: case_prod_beta)
qed simp

lemma dettach_keeps_until_flushed:
  assumes "create_interceptor h" "\<And>i. i \<le> 100 \<Longrightarrow> \<not> flushed i"
  shows "\<exists>calls. listener_dettach flushed h = (False, calls, h)"
proof -
  have "\<not> fst (flush_attempts flushed 0 100)"
    using assms(2) by (auto simp: flush_attempts_spec)
  then show ?thesis
    using assms(1)
    by (cases "flush_attempts flushed 0 100") (simp add: listener_dettach_def flush_teardown_def Let_def)
qed

end
