(* ===== verification/Pthread_Contexts.thy ===== *)
theory Pthread_Contexts
  imports Pthread_Listener
begin

text \<open>
  The start contexts of the pthread listener over every interleaving of its threads: a context is shared
  by the hook around \<^verbatim>\<open>pthread_create\<close> and the thread it creates, and whichever is done with it last frees
  it. The invariant below says who refers to a context at each program point; from it follows that no
  freed context is touched, that none is leaked, and who may still use a \<^verbatim>\<open>pthread_t\<close>.
\<close>

subsection \<open>Projections\<close>

lemma listener_emit_simps [simp]:
  "pthread_slot_registry (emit e s) = pthread_slot_registry s"
  "tid_mapping_initialized (emit e s) = tid_mapping_initialized s"
  "contexts (emit e s) = contexts s" "next_thread (emit e s) = next_thread s"
  "threads (emit e s) = threads s" "handles (emit e s) = handles s" "reclaimer (emit e s) = reclaimer s"
  "heap_fault (emit e s) = heap_fault s" "slot_key_created (emit e s) = slot_key_created s"
  by (simp_all add: emit_def)

lemma set_registry_simps [simp]:
  "pthread_slot_registry (set_registry r s) = r"
  "tid_mapping_initialized (set_registry r s) = tid_mapping_initialized s"
  "contexts (set_registry r s) = contexts s" "next_thread (set_registry r s) = next_thread s"
  "threads (set_registry r s) = threads s" "handles (set_registry r s) = handles s"
  "reclaimer (set_registry r s) = reclaimer s"
  "heap_fault (set_registry r s) = heap_fault s"
  by (simp_all add: set_registry_def)

lemma diagnose_simps [simp]:
  "pthread_slot_registry (diagnose f s) = pthread_slot_registry s"
  "contexts (diagnose f s) = contexts s" "next_thread (diagnose f s) = next_thread s"
  "threads (diagnose f s) = threads s" "handles (diagnose f s) = handles s"
  "reclaimer (diagnose f s) = reclaimer s"
  "heap_fault (diagnose f s) = heap_fault s"
  by (simp_all add: diagnose_def)

lemma set_thread_simps [simp]:
  "pthread_slot_registry (set_thread n t s) = pthread_slot_registry s"
  "tid_mapping_initialized (set_thread n t s) = tid_mapping_initialized s"
  "contexts (set_thread n t s) = contexts s" "next_thread (set_thread n t s) = next_thread s"
  "threads (set_thread n t s) = (threads s)(n := Some t)" "handles (set_thread n t s) = handles s"
  "reclaimer (set_thread n t s) = reclaimer s"
  "heap_fault (set_thread n t s) = heap_fault s"
  by (simp_all add: set_thread_def)

lemma set_context_simps [simp]:
  "pthread_slot_registry (set_context c x s) = pthread_slot_registry s"
  "tid_mapping_initialized (set_context c x s) = tid_mapping_initialized s"
  "contexts (set_context c x s) = (contexts s)(c := Some x)" "next_thread (set_context c x s) = next_thread s"
  "threads (set_context c x s) = threads s" "handles (set_context c x s) = handles s"
  "reclaimer (set_context c x s) = reclaimer s"
  "heap_fault (set_context c x s) = heap_fault s"
  by (simp_all add: set_context_def)

lemma upd_thread_simps [simp]:
  "pthread_slot_registry (upd_thread f n s) = pthread_slot_registry s"
  "tid_mapping_initialized (upd_thread f n s) = tid_mapping_initialized s"
  "contexts (upd_thread f n s) = contexts s" "next_thread (upd_thread f n s) = next_thread s"
  "threads (upd_thread f n s) = (threads s)(n := map_option f (threads s n))"
  "handles (upd_thread f n s) = handles s" "reclaimer (upd_thread f n s) = reclaimer s"
  "heap_fault (upd_thread f n s) = heap_fault s"
  by (simp_all add: upd_thread_def fun_eq_iff split: option.splits)

lemma go_simps [simp]:
  "pthread_slot_registry (go pc n s) = pthread_slot_registry s"
  "tid_mapping_initialized (go pc n s) = tid_mapping_initialized s"
  "contexts (go pc n s) = contexts s" "next_thread (go pc n s) = next_thread s"
  "threads (go pc n s) = (threads s)(n := map_option (\<lambda>t. t\<lparr>at := pc\<rparr>) (threads s n))"
  "handles (go pc n s) = handles s" "reclaimer (go pc n s) = reclaimer s"
  "heap_fault (go pc n s) = heap_fault s"
  by (simp_all add: go_def)

lemma leave_child_tid_simps [simp]:
  "pthread_slot_registry (leave_child_tid c b s) = pthread_slot_registry s"
  "contexts (leave_child_tid c b s) = contexts s" "next_thread (leave_child_tid c b s) = next_thread s"
  "threads (leave_child_tid c b s) = threads s" "handles (leave_child_tid c b s) = handles s"
  "reclaimer (leave_child_tid c b s) = reclaimer s" "heap_fault (leave_child_tid c b s) = heap_fault s"
  by (simp_all add: leave_child_tid_def)

lemma wake_simps [simp]:
  "pthread_slot_registry (wake_reclaimer_if_pending b s) = pthread_slot_registry s"
  "contexts (wake_reclaimer_if_pending b s) = contexts s"
  "next_thread (wake_reclaimer_if_pending b s) = next_thread s"
  "threads (wake_reclaimer_if_pending b s) = threads s" "handles (wake_reclaimer_if_pending b s) = handles s"
  "reclaimer (wake_reclaimer_if_pending b s) = reclaimer s"
  "heap_fault (wake_reclaimer_if_pending b s) = heap_fault s"
  by (simp_all add: wake_reclaimer_if_pending_def)

lemma listener_warn_simps [simp]:
  "pthread_slot_registry (start_warn_abandoned s) = pthread_slot_registry s"
  "contexts (start_warn_abandoned s) = contexts s" "next_thread (start_warn_abandoned s) = next_thread s"
  "threads (start_warn_abandoned s) = threads s" "handles (start_warn_abandoned s) = handles s"
  "reclaimer (start_warn_abandoned s) = reclaimer s" "heap_fault (start_warn_abandoned s) = heap_fault s"
  by (simp_all add: start_warn_abandoned_def)

lemma quarantine_ambiguous_simps [simp]:
  "contexts (quarantine_ambiguous_tid p s) = contexts s"
  "next_thread (quarantine_ambiguous_tid p s) = next_thread s"
  "threads (quarantine_ambiguous_tid p s) = threads s" "handles (quarantine_ambiguous_tid p s) = handles s"
  "reclaimer (quarantine_ambiguous_tid p s) = reclaimer s"
  "heap_fault (quarantine_ambiguous_tid p s) = heap_fault s"
  by (simp_all add: quarantine_ambiguous_tid_def)

lemma call_routine_simps:
  assumes "contexts s n = Some x"
  shows "pthread_slot_registry (call_routine n s) = pthread_slot_registry s"
    "contexts (call_routine n s) = contexts s" "next_thread (call_routine n s) = next_thread s"
    "threads (call_routine n s) = (threads s)(n := map_option (\<lambda>t. t\<lparr>at := In_application\<rparr>) (threads s n))"
    "handles (call_routine n s) = handles s" "reclaimer (call_routine n s) = reclaimer s"
    "heap_fault (call_routine n s) = heap_fault s"
  using assms by (simp_all add: call_routine_def)

lemma publish_current_simps:
  "publish_current_slot ko so sl g n s = (b, s1) \<Longrightarrow>
     pthread_slot_registry s1 = pthread_slot_registry s \<and> contexts s1 = contexts s \<and>
     next_thread s1 = next_thread s \<and> handles s1 = handles s \<and> reclaimer s1 = reclaimer s \<and>
     heap_fault s1 = heap_fault s \<and> tid_mapping_initialized s1 = tid_mapping_initialized s"
  by (auto simp: publish_current_slot_def Let_def split: if_splits)

lemma publish_current_thread:
  assumes "publish_current_slot ko so sl g n s = (b, s1)" and "threads s n = Some t"
  shows "\<exists>idn k. threads s1 = (threads s)(n := Some (t\<lparr>slot_identity := idn, slot_key := k\<rparr>)) \<and>
       (b \<longrightarrow> valid idn \<and> id_slot idn = sl \<and> id_generation idn = g) \<and>
       (\<not> b \<longrightarrow> \<not> valid idn \<or> idn = slot_identity t)"
proof (cases "case slot_key_created s of None \<Rightarrow> ko | Some b \<Rightarrow> b")
  case True
  let ?idn = "\<lparr>id_slot = sl, id_generation = g, destructor_passes = 0, valid = so\<rparr>"
  have "threads s1 = (threads s)(n := Some (t\<lparr>slot_identity := ?idn, slot_key := slot_key t \<or> so\<rparr>))"
    "b = so"
    using assms True by (auto simp: publish_current_slot_def Let_def)
  then show ?thesis
    by (intro exI [of _ ?idn] exI [of _ "slot_key t \<or> so"]) simp
next
  case False
  then have "threads s1 = threads s" "\<not> b"
    using assms by (auto simp: publish_current_slot_def Let_def)
  moreover have "t\<lparr>slot_identity := slot_identity t, slot_key := slot_key t\<rparr> = t"
    by simp
  ultimately show ?thesis
    using assms(2) by (intro exI [of _ "slot_identity t"] exI [of _ "slot_key t"]) (auto simp: fun_eq_iff)
qed

subsection \<open>Who refers to a context\<close>

datatype pc_shape = Starting | Idle | Creating nat | Leaving nat

fun shape :: "thread_pc \<Rightarrow> pc_shape" where
  "shape Start_wait = Starting"
| "shape Start_adopt = Starting"
| "shape Start_mark = Starting"
| "shape (Create_call c b) = Creating c"
| "shape (Leave_register c p b) = Leaving c"
| "shape (Leave_detached c p b) = Leaving c"
| "shape (Leave_quarantine c p b) = Leaving c"
| "shape (Leave_publish c p b) = Leaving c"
| "shape (Leave_remove c p b) = Leaving c"
| "shape (Leave_release c b) = Leaving c"
| "shape _ = Idle"

fun shape_context :: "pc_shape \<Rightarrow> nat option" where
  "shape_context (Creating c) = Some c"
| "shape_context (Leaving c) = Some c"
| "shape_context _ = None"

definition refs :: "pthread_listener \<Rightarrow> nat \<Rightarrow> nat" where
  "refs s c = (case contexts s c of None \<Rightarrow> 0 | Some x \<Rightarrow> references x)"

text \<open>The references a context should have: one of the hook that has not left yet, one of the thread
  that has not exited, or that is about to be created.\<close>

definition hook_ref :: "pthread_listener \<Rightarrow> nat \<Rightarrow> bool" where
  "hook_ref s c \<longleftrightarrow> (\<exists>n t. threads s n = Some t \<and> shape_context (shape (at t)) = Some c)"

definition child_ref :: "pthread_listener \<Rightarrow> nat \<Rightarrow> bool" where
  "child_ref s c \<longleftrightarrow>
     (case threads s c of Some t \<Rightarrow> \<not> exiting t | None \<Rightarrow> hook_ref s c)"

definition thread_ok :: "pthread_listener \<Rightarrow> nat \<Rightarrow> pthread_thread \<Rightarrow> bool" where
  "thread_ok s n t \<longleftrightarrow>
     n < next_thread s \<and>
     (alive t \<longrightarrow> handles s (self t) = Some n) \<and>
     (\<not> alive t \<longrightarrow> exiting t \<and> shape (at t) = Idle) \<and>
     (exiting t \<longrightarrow> shape (at t) \<noteq> Starting) \<and>
     (n = 0 \<longrightarrow> shape (at t) \<noteq> Starting) \<and>
     (\<forall>c. shape (at t) = Creating c \<longrightarrow> 0 < c \<and> c < next_thread s \<and> threads s c = None) \<and>
     (\<forall>c. shape (at t) = Leaving c \<longrightarrow> 0 < c \<and> c \<noteq> n \<and> threads s c \<noteq> None)"

definition contexts_inv :: "pthread_listener \<Rightarrow> bool" where
  "contexts_inv s \<longleftrightarrow>
     \<not> heap_fault s \<and> 0 < next_thread s \<and>
     (\<forall>n t. threads s n = Some t \<longrightarrow> thread_ok s n t) \<and>
     (\<forall>n m t u c. threads s n = Some t \<longrightarrow> threads s m = Some u \<longrightarrow>
        shape_context (shape (at t)) = Some c \<longrightarrow> shape_context (shape (at u)) = Some c \<longrightarrow> n = m) \<and>
     (\<forall>c. contexts s c = None \<longleftrightarrow> refs s c = 0) \<and>
     contexts s 0 = None \<and>
     (\<forall>c. 0 < c \<longrightarrow> refs s c = of_bool (hook_ref s c) + of_bool (child_ref s c))"

lemma contexts_inv_thread: "contexts_inv s \<Longrightarrow> threads s n = Some t \<Longrightarrow> thread_ok s n t"
  by (simp add: contexts_inv_def)

lemma contexts_inv_unique:
  "contexts_inv s \<Longrightarrow> threads s n = Some t \<Longrightarrow> threads s m = Some u \<Longrightarrow>
   shape_context (shape (at t)) = Some c \<Longrightarrow> shape_context (shape (at u)) = Some c \<Longrightarrow> n = m"
  unfolding contexts_inv_def by blast

lemma contexts_inv_refs:
  assumes "contexts_inv s"
  shows "\<not> heap_fault s" "0 < next_thread s" "contexts s c = None \<longleftrightarrow> refs s c = 0" "contexts s 0 = None"
    "0 < c \<Longrightarrow> refs s c = of_bool (hook_ref s c) + of_bool (child_ref s c)"
  using assms unfolding contexts_inv_def by blast+

lemma contexts_invI:
  assumes "\<not> heap_fault s" "0 < next_thread s" "\<And>n t. threads s n = Some t \<Longrightarrow> thread_ok s n t"
    and "\<And>n m t u c. threads s n = Some t \<Longrightarrow> threads s m = Some u \<Longrightarrow>
        shape_context (shape (at t)) = Some c \<Longrightarrow> shape_context (shape (at u)) = Some c \<Longrightarrow> n = m"
    and "\<And>c. contexts s c = None \<longleftrightarrow> refs s c = 0" "contexts s 0 = None"
    and "\<And>c. 0 < c \<Longrightarrow> refs s c = of_bool (hook_ref s c) + of_bool (child_ref s c)"
  shows "contexts_inv s"
  unfolding contexts_inv_def using assms by blast

subsection \<open>Steps that keep the references\<close>

text \<open>A thread whose program point changes without a change of what it refers to, and threads that end.\<close>

definition similar :: "pthread_thread \<Rightarrow> pthread_thread \<Rightarrow> bool" where
  "similar t t' \<longleftrightarrow> self t' = self t \<and> exiting t' = exiting t \<and> (alive t' \<longrightarrow> alive t) \<and>
     (\<not> alive t' \<longrightarrow> exiting t' \<and> shape (at t') = Idle) \<and>
     (shape (at t') = shape (at t) \<or> shape (at t) = Starting \<and> shape (at t') = Idle)"

lemma similar_context: "similar t t' \<Longrightarrow> shape_context (shape (at t')) = shape_context (shape (at t))"
  by (auto simp: similar_def)

lemma similar_refl:
  assumes "contexts_inv s" "threads s n = Some t"
  shows "similar t t"
  using contexts_inv_thread [OF assms] by (auto simp: similar_def thread_ok_def)

lemma contexts_inv_similar:
  assumes inv: "contexts_inv s"
    and same: "heap_fault s' = heap_fault s" "next_thread s' = next_thread s"
    and ctx: "\<And>c. map_option references (contexts s' c) = map_option references (contexts s c)"
    and thr: "\<And>n. rel_option similar (threads s n) (threads s' n)"
    and os: "\<And>n t'. threads s' n = Some t' \<Longrightarrow> alive t' \<Longrightarrow> handles s' (self t') = Some n"
  shows "contexts_inv s'"
proof -
  have fwd: "threads s' n = Some t' \<Longrightarrow> \<exists>t. threads s n = Some t \<and> similar t t'" for n t'
    using thr [of n] by (auto simp: option_rel_Some2)
  have bwd: "threads s n = Some t \<Longrightarrow> \<exists>t'. threads s' n = Some t' \<and> similar t t'" for n t
    using thr [of n] by (auto simp: option_rel_Some1)
  have none: "threads s' n = None \<longleftrightarrow> threads s n = None" for n
    using fwd bwd by (metis not_Some_eq)
  have nocontext: "contexts s' c = None \<longleftrightarrow> contexts s c = None" for c
    using ctx [of c] by (metis map_option_is_None)
  have refs: "refs s' c = refs s c" for c
    using ctx [of c] by (auto simp: refs_def split: option.splits)
  have hook: "hook_ref s' c \<longleftrightarrow> hook_ref s c" for c
  proof
    assume "hook_ref s' c"
    then show "hook_ref s c"
      unfolding hook_ref_def using fwd similar_context by metis
  next
    assume "hook_ref s c"
    then show "hook_ref s' c"
      unfolding hook_ref_def using bwd similar_context by metis
  qed
  have child: "child_ref s' c \<longleftrightarrow> child_ref s c" for c
  proof (cases "threads s c")
    case None
    then show ?thesis
      using none [of c] hook [of c] by (simp add: child_ref_def)
  next
    case (Some t)
    then obtain t' where "threads s' c = Some t'" "exiting t' = exiting t"
      using bwd by (auto simp: similar_def)
    then show ?thesis
      using Some by (simp add: child_ref_def)
  qed
  show ?thesis
  proof (rule contexts_invI)
    show "thread_ok s' n t'" if "threads s' n = Some t'" for n t'
    proof -
      from fwd [OF that] obtain t where t: "threads s n = Some t" "similar t t'"
        by blast
      then have ok: "thread_ok s n t"
        using inv contexts_inv_thread by blast
      have cases: "shape (at t') = shape (at t) \<or> shape (at t) = Starting \<and> shape (at t') = Idle"
        using t(2) by (simp add: similar_def)
      have "(\<forall>c. shape (at t') = Creating c \<longrightarrow> 0 < c \<and> c < next_thread s' \<and> threads s' c = None)"
        "(\<forall>c. shape (at t') = Leaving c \<longrightarrow> 0 < c \<and> c \<noteq> n \<and> threads s' c \<noteq> None)"
        using ok cases same(2) none by (auto simp: thread_ok_def)
      then show ?thesis
        using ok t(2) cases os [OF that] same(2) by (auto simp: thread_ok_def similar_def)
    qed
    show "n = m" if "threads s' n = Some t" "threads s' m = Some u"
      "shape_context (shape (at t)) = Some c" "shape_context (shape (at u)) = Some c" for n m t u c
    proof -
      from fwd [OF that(1)] fwd [OF that(2)] obtain t0 u0 where
        "threads s n = Some t0" "similar t0 t" "threads s m = Some u0" "similar u0 u"
        by blast
      then show ?thesis
        using that(3,4) similar_context [of t0 t] similar_context [of u0 u] contexts_inv_unique [OF inv, of n t0 m u0 c]
        by simp
    qed
  qed (use contexts_inv_refs [OF inv] same nocontext refs hook child in simp_all)
qed

text \<open>The usual case: one thread moves, and nothing changes in the thread library.\<close>

lemma contexts_inv_move:
  assumes "contexts_inv s" "threads s n = Some t" "alive t"
    and "threads s' = (threads s)(n := Some t')" "self t' = self t" "exiting t' = exiting t" "alive t'"
    and "shape (at t') = shape (at t) \<or> shape (at t) = Starting \<and> shape (at t') = Idle"
    and "heap_fault s' = heap_fault s" "next_thread s' = next_thread s" "handles s' = handles s"
    and "\<And>c. map_option references (contexts s' c) = map_option references (contexts s c)"
  shows "contexts_inv s'"
proof (rule contexts_inv_similar [OF assms(1) assms(9,10,12)])
  show "rel_option similar (threads s m) (threads s' m)" for m
    using assms(2-8) similar_refl [OF assms(1), of m] by (cases "threads s m") (auto simp: similar_def)
  show "handles s' (self u) = Some m" if "threads s' m = Some u" "alive u" for m u
    using assms(2,3,4,5,7,11) that contexts_inv_thread [OF assms(1), of m]
    by (cases "m = n") (auto simp: thread_ok_def)
qed

lemma contexts_inv_cong:
  assumes "threads s' = threads s" "heap_fault s' = heap_fault s"
    "next_thread s' = next_thread s" "handles s' = handles s" "contexts s' = contexts s"
  shows "contexts_inv s' \<longleftrightarrow> contexts_inv s"
proof -
  have "refs s' = refs s" "hook_ref s' = hook_ref s" "child_ref s' = child_ref s" "thread_ok s' = thread_ok s"
    unfolding fun_eq_iff refs_def hook_ref_def child_ref_def thread_ok_def assms(1,3,4,5) by simp_all
  then show ?thesis
    using assms by (simp add: contexts_inv_def)
qed

subsection \<open>Steps that take or drop a reference\<close>

definition hook_by_others :: "pthread_listener \<Rightarrow> nat \<Rightarrow> nat \<Rightarrow> bool" where
  "hook_by_others s n c \<longleftrightarrow>
     (\<exists>m t. m \<noteq> n \<and> threads s m = Some t \<and> shape_context (shape (at t)) = Some c)"

lemma hook_ref_split:
  "threads s n = Some t \<Longrightarrow> hook_ref s c \<longleftrightarrow> shape_context (shape (at t)) = Some c \<or> hook_by_others s n c"
  unfolding hook_ref_def hook_by_others_def by (metis option.inject)

lemma hook_by_others_cong: "(\<And>m. m \<noteq> n \<Longrightarrow> threads s' m = threads s m) \<Longrightarrow> hook_by_others s' n c = hook_by_others s n c"
  unfolding hook_by_others_def by (metis (no_types))

lemma hook_by_others_unique:
  assumes "contexts_inv s" "threads s n = Some t" "shape_context (shape (at t)) = Some c"
  shows "\<not> hook_by_others s n c"
  using contexts_inv_unique [OF assms(1,2) _ assms(3)] unfolding hook_by_others_def by blast

lemma hook_by_others_bound:
  assumes "contexts_inv s" "hook_by_others s n c"
  shows "0 < c \<and> c < next_thread s"
proof -
  obtain m t where t: "threads s m = Some t" "shape_context (shape (at t)) = Some c"
    using assms(2) unfolding hook_by_others_def by blast
  have ok: "thread_ok s m t"
    using contexts_inv_thread [OF assms(1) t(1)] .
  show ?thesis
  proof (cases "shape (at t)")
    case (Creating d)
    then show ?thesis
      using ok t(2) by (simp add: thread_ok_def)
  next
    case (Leaving d)
    then obtain u where u: "threads s c = Some u" "0 < c"
      using ok t(2) by (auto simp: thread_ok_def)
    then show ?thesis
      using contexts_inv_thread [OF assms(1) u(1)] by (simp add: thread_ok_def)
  qed (use t(2) in auto)
qed

lemma no_thread_beyond:
  assumes "contexts_inv s" "next_thread s \<le> c"
  shows "threads s c = None"
  using contexts_inv_thread [OF assms(1), of c] assms(2) by (cases "threads s c") (auto simp: thread_ok_def)

text \<open>The thread \<open>n\<close> moves from \<open>t\<close> to \<open>t'\<close>; the reference counts of the result are what it then needs.\<close>

lemma contexts_inv_actor:
  assumes inv: "contexts_inv s" and t: "threads s n = Some t"
    and thr: "threads s' n = Some t'" "\<And>m. m \<noteq> n \<Longrightarrow> threads s' m = threads s m"
    and ok: "thread_ok s' n t'"
    and fresh: "\<And>c. shape_context (shape (at t')) = Some c \<Longrightarrow>
      shape_context (shape (at t)) = Some c \<or> next_thread s \<le> c"
    and os: "handles s' = handles s" "next_thread s \<le> next_thread s'" "\<not> heap_fault s'"
    and zero: "\<And>c. contexts s' c = None \<longleftrightarrow> refs s' c = 0" "contexts s' 0 = None"
    and refs: "\<And>c. 0 < c \<Longrightarrow> refs s' c = of_bool (hook_ref s' c) + of_bool (child_ref s' c)"
  shows "contexts_inv s'"
proof (rule contexts_invI)
  have none: "threads s' c = None \<longleftrightarrow> threads s c = None" for c
    using t thr by (cases "c = n") auto
  show "thread_ok s' m u" if "threads s' m = Some u" for m u
  proof (cases "m = n")
    case False
    then show ?thesis
      using contexts_inv_thread [OF inv, of m u] that thr(2) os none by (auto simp: thread_ok_def)
  qed (use that ok thr(1) in auto)
  have beyond: "\<not> hook_by_others s' n c" if "shape_context (shape (at t')) = Some c" for c
    using fresh [OF that] hook_by_others_unique [OF inv t] hook_by_others_bound [OF inv]
      hook_by_others_cong [OF thr(2)] by (metis not_le)
  show "m = k" if "threads s' m = Some u" "threads s' k = Some v"
    "shape_context (shape (at u)) = Some c" "shape_context (shape (at v)) = Some c" for m k u v c
  proof (cases "m = n \<or> k = n")
    case True
    then show ?thesis
      using that thr(1) beyond [of c] unfolding hook_by_others_def by (metis option.inject)
  next
    case False
    then show ?thesis
      using that thr(2) contexts_inv_unique [OF inv, of m u k v c] by simp
  qed
  show "0 < next_thread s'"
    using contexts_inv_refs(2) [OF inv] os(2) by linarith
qed (use os(3) zero refs in auto)

lemma refs_upd [simp]:
  "contexts s' = (contexts s)(c := Some x) \<Longrightarrow> refs s' d = (if d = c then references x else refs s d)"
  "contexts s' = (contexts s)(c := None) \<Longrightarrow> refs s' d = (if d = c then 0 else refs s d)"
  by (simp_all add: refs_def)

lemma child_ref_same:
  assumes "threads s n = Some t" "threads s' n = Some t'" "exiting t' = exiting t"
    "\<And>m. m \<noteq> n \<Longrightarrow> threads s' m = threads s m"
  shows "child_ref s' c \<longleftrightarrow> (if threads s c = None then hook_ref s' c else child_ref s c)"
  using assms by (cases "c = n") (auto simp: child_ref_def split: option.splits)

lemma create_enter_contexts:
  assumes inv: "contexts_inv s" and t: "threads s n = Some t" "alive t" "at t = In_application"
  shows "contexts_inv (create_enter np hb det rt arg n t s)" (is "contexts_inv ?s")
proof -
  let ?c = "next_thread s"
  obtain t' where t': "threads ?s n = Some t'" "at t' = Create_call ?c (\<not> np)" "self t' = self t"
    "alive t'" "exiting t' = exiting t"
    using t(2) by (simp add: create_enter_def Let_def)
  have others: "threads ?s m = threads s m" if "m \<noteq> n" for m
    using that by (simp add: create_enter_def Let_def)
  obtain x where x: "contexts ?s = (contexts s)(?c := Some x)" "references x = 2"
    by (simp add: create_enter_def Let_def)
  have frame: "handles ?s = handles s" "next_thread ?s = ?c + 1" "heap_fault ?s = heap_fault s"
    by (simp_all add: create_enter_def Let_def)
  have fresh: "threads s ?c = None" "?c \<noteq> n"
    using no_thread_beyond [OF inv, of ?c] t(1) by auto
  have hook: "hook_ref ?s d \<longleftrightarrow> d = ?c \<or> hook_ref s d" for d
    using hook_ref_split [of ?s n t' d] hook_ref_split [of s n t d] hook_by_others_cong [of n ?s s d] others t t'
    by auto
  show ?thesis
  proof (rule contexts_inv_actor [OF inv t(1) t'(1) others])
    show "thread_ok ?s n t'"
      using contexts_inv_thread [OF inv t(1)] t t' frame fresh others contexts_inv_refs(2) [OF inv]
      by (auto simp: thread_ok_def)
    show "refs ?s d = of_bool (hook_ref ?s d) + of_bool (child_ref ?s d)" if "0 < d" for d
    proof (cases "d = ?c")
      case True
      then show ?thesis
        using x hook fresh child_ref_same [OF t(1) t'(1) t'(5) others, of d] by simp
    next
      case False
      then show ?thesis
        using x hook child_ref_same [OF t(1) t'(1) t'(5) others, of d] contexts_inv_refs(5) [OF inv that]
        by (simp add: child_ref_def)
    qed
    show "contexts ?s d = None \<longleftrightarrow> refs ?s d = 0" for d
      using x contexts_inv_refs(3) [OF inv, of d] by simp
    show "contexts ?s 0 = None"
      using x contexts_inv_refs(2,4) [OF inv] by simp
  qed (use t' frame contexts_inv_refs(1) [OF inv] in auto)
qed

lemma create_failed_contexts:
  assumes inv: "contexts_inv s" and t: "threads s n = Some t" "alive t" "at t = Create_call c orig"
  shows "contexts_inv (create_failed c orig n s)" (is "contexts_inv ?s")
proof -
  have c: "0 < c" "threads s c = None"
    using contexts_inv_thread [OF inv t(1)] t(3) by (simp_all add: thread_ok_def)
  have "hook_ref s c"
    using hook_ref_split [OF t(1)] t(3) by simp
  then have "refs s c = 2"
    using contexts_inv_refs(5) [OF inv c(1)] c(2) by (simp add: child_ref_def)
  then obtain x where x: "contexts s c = Some x"
    using contexts_inv_refs(3) [OF inv, of c] by auto
  let ?t = "t\<lparr>at := In_application\<rparr>"
  have thr: "threads ?s n = Some ?t" "\<And>m. m \<noteq> n \<Longrightarrow> threads ?s m = threads s m"
    using x t by (simp_all add: create_failed_def)
  have frame: "contexts ?s = (contexts s)(c := None)" "handles ?s = handles s" "next_thread ?s = next_thread s"
    "heap_fault ?s = heap_fault s"
    using x by (simp_all add: create_failed_def)
  have hook: "hook_ref ?s d \<longleftrightarrow> d \<noteq> c \<and> hook_ref s d" for d
    using hook_ref_split [of ?s n ?t d] hook_ref_split [of s n t d] hook_by_others_cong [of n ?s s d] thr t
      hook_by_others_unique [OF inv t(1), of c]
    by auto
  show ?thesis
  proof (rule contexts_inv_actor [OF inv t(1) thr])
    show "thread_ok ?s n ?t"
      using contexts_inv_thread [OF inv t(1)] t frame by (auto simp: thread_ok_def)
    show "refs ?s d = of_bool (hook_ref ?s d) + of_bool (child_ref ?s d)" if "0 < d" for d
      using frame hook c child_ref_same [OF t(1) thr(1) _ thr(2), of d] contexts_inv_refs(5) [OF inv that]
      by (cases "d = c") (simp_all add: child_ref_def)
    show "contexts ?s d = None \<longleftrightarrow> refs ?s d = 0" for d
      using frame contexts_inv_refs(3) [OF inv, of d] by simp
    show "contexts ?s 0 = None"
      using frame contexts_inv_refs(4) [OF inv] by simp
  qed (use frame contexts_inv_refs(1) [OF inv] in auto)
qed

lemma leaving_refs:
  assumes inv: "contexts_inv s" and t: "threads s n = Some t" "shape (at t) = Leaving c"
  shows "0 < c" "\<exists>u x. threads s c = Some u \<and> contexts s c = Some x \<and> references x = (if exiting u then 1 else 2)"
proof -
  show c: "0 < c"
    using contexts_inv_thread [OF inv t(1)] t(2) by (simp add: thread_ok_def)
  obtain u where u: "threads s c = Some u"
    using contexts_inv_thread [OF inv t(1)] t(2) by (auto simp: thread_ok_def)
  have "hook_ref s c"
    using hook_ref_split [OF t(1)] t(2) by simp
  then have "refs s c = (if exiting u then 1 else 2)"
    using contexts_inv_refs(5) [OF inv c] u by (simp add: child_ref_def)
  then show "\<exists>u x. threads s c = Some u \<and> contexts s c = Some x \<and> references x = (if exiting u then 1 else 2)"
    using u contexts_inv_refs(3) [OF inv, of c] by (auto simp: refs_def split: option.splits if_splits)
qed

text \<open>Dropping a reference of a context that is there.\<close>

lemma release_refs:
  assumes "contexts s c = Some x" "0 < references x"
  shows "refs (start_context_release c s) d = (if d = c then refs s c - 1 else refs s d)"
    "contexts (start_context_release c s) c = None \<longleftrightarrow> references x = 1"
    "d \<noteq> c \<Longrightarrow> contexts (start_context_release c s) d = contexts s d"
    "threads (start_context_release c s) = threads s" "handles (start_context_release c s) = handles s"
    "next_thread (start_context_release c s) = next_thread s"
    "heap_fault (start_context_release c s) = heap_fault s"
    "reclaimer (start_context_release c s) = reclaimer s"
    "pthread_slot_registry (start_context_release c s) = pthread_slot_registry s"
  using assms by (simp_all add: start_context_release_def refs_def)

lemma refs_cong: "contexts s' = contexts s \<Longrightarrow> refs s' = refs s"
  by (simp add: refs_def fun_eq_iff)

lemma leave_release_contexts:
  assumes inv: "contexts_inv s" and t: "threads s n = Some t" "alive t" "at t = Leave_release c orig"
  shows "contexts_inv (leave_release c orig n s)" (is "contexts_inv ?s")
proof -
  let ?r = "start_context_release c s"
  obtain u x where u: "threads s c = Some u" and x: "contexts s c = Some x"
    "references x = (if exiting u then 1 else 2)" and c: "0 < c"
    using leaving_refs [OF inv t(1)] t(3) by auto
  note rel = release_refs [OF x(1)]
  let ?t = "t\<lparr>at := In_application\<rparr>"
  have pos: "0 < references x"
    using x(2) by auto
  have thr: "threads ?s n = Some ?t" "\<And>m. m \<noteq> n \<Longrightarrow> threads ?s m = threads s m"
    using rel(4) [OF pos] t by (simp_all add: leave_release_def)
  have ctx: "contexts ?s = contexts ?r"
    by (simp add: leave_release_def)
  have frame: "handles ?s = handles s" "next_thread ?s = next_thread s" "heap_fault ?s = heap_fault s"
    using rel(5-7) [OF pos] by (simp_all add: leave_release_def)
  have hook: "hook_ref ?s d \<longleftrightarrow> d \<noteq> c \<and> hook_ref s d" for d
    using hook_ref_split [of ?s n ?t d] hook_ref_split [of s n t d] hook_by_others_cong [of n ?s s d] thr t
      hook_by_others_unique [OF inv t(1), of c]
    by auto
  have hc: "hook_ref s c"
    using hook_ref_split [OF t(1)] t(3) by simp
  show ?thesis
  proof (rule contexts_inv_actor [OF inv t(1) thr])
    show "thread_ok ?s n ?t"
      using contexts_inv_thread [OF inv t(1)] t frame by (auto simp: thread_ok_def)
    show "refs ?s d = of_bool (hook_ref ?s d) + of_bool (child_ref ?s d)" if "0 < d" for d
      using hook hc u rel(1) [OF pos, of d] refs_cong [OF ctx] child_ref_same [OF t(1) thr(1) _ thr(2), of d]
        contexts_inv_refs(5) [OF inv that]
      by (cases "d = c") (simp_all add: child_ref_def)
    show "contexts ?s d = None \<longleftrightarrow> refs ?s d = 0" for d
      using contexts_inv_refs(3) [OF inv, of d] ctx refs_cong [OF ctx] rel(1) [OF pos, of d] rel(2) [OF pos] rel(3) [OF pos, of d] x
      by (cases "d = c") (auto simp: refs_def)
    show "contexts ?s 0 = None"
      using contexts_inv_refs(4) [OF inv] ctx rel(3) [OF pos, of 0] c by simp
  qed (use frame contexts_inv_refs(1) [OF inv] in auto)
qed

lemma start_cleanup_contexts:
  assumes inv: "contexts_inv s" and t: "threads s n = Some t" "alive t" "at t = In_application" "\<not> exiting t"
  shows "contexts_inv (start_cleanup n s)" (is "contexts_inv ?s")
proof -
  let ?t = "t\<lparr>exiting := True\<rparr>" and ?u = "upd_thread (\<lambda>t. t\<lparr>exiting := True\<rparr>) n s"
  have ok: "thread_ok s n t"
    using contexts_inv_thread [OF inv t(1)] .
  have child: "child_ref s n"
    using t by (simp add: child_ref_def)
  have refs: "0 < n \<Longrightarrow> refs s n = of_bool (hook_ref s n) + 1"
    using contexts_inv_refs(5) [OF inv] child by simp
  have x: "\<exists>x. contexts s n = Some x \<and> 0 < references x" if "0 < n"
    using refs [OF that] contexts_inv_refs(3) [OF inv, of n] by (auto simp: refs_def split: option.splits)
  have thr: "threads ?s n = Some ?t" "\<And>m. m \<noteq> n \<Longrightarrow> threads ?s m = threads s m"
    using t x release_refs(4) [of ?u n] by (auto simp: start_cleanup_def Let_def)
  have frame: "handles ?s = handles s" "next_thread ?s = next_thread s" "heap_fault ?s = heap_fault s"
    using x release_refs(5-7) [of ?u n] by (auto simp: start_cleanup_def Let_def)
  have refs': "refs ?s d = (if d = n \<and> 0 < n then refs s n - 1 else refs s d)" for d
    using x release_refs(1) [of ?u n] refs_cong [of ?u s] by (auto simp: start_cleanup_def Let_def)
  have hook: "hook_ref ?s d \<longleftrightarrow> hook_ref s d" for d
    using hook_ref_split [of ?s n ?t d] hook_ref_split [of s n t d] hook_by_others_cong [of n ?s s d] thr t
    by auto
  have child': "child_ref ?s d \<longleftrightarrow> d \<noteq> n \<and> child_ref s d" for d
    using thr hook by (cases "d = n") (simp_all add: child_ref_def split: option.split)
  show ?thesis
  proof (rule contexts_inv_actor [OF inv t(1) thr])
    show "thread_ok ?s n ?t"
      using ok t frame by (auto simp: thread_ok_def)
    show "refs ?s d = of_bool (hook_ref ?s d) + of_bool (child_ref ?s d)" if "0 < d" for d
      using hook child' refs' [of d] refs contexts_inv_refs(5) [OF inv that] that by (cases "d = n") simp_all
    show "contexts ?s d = None \<longleftrightarrow> refs ?s d = 0" for d
      using contexts_inv_refs(3) [OF inv, of d] refs' [of d] x release_refs(2,3) [of ?u n]
      by (cases "d = n") (auto simp: start_cleanup_def Let_def refs_def)
    show "contexts ?s 0 = None"
      using contexts_inv_refs(4) [OF inv] x release_refs(3) [of ?u n _ 0] by (auto simp: start_cleanup_def Let_def)
  qed (use frame t contexts_inv_refs(1) [OF inv] in auto)
qed

lemma create_succeeded_contexts:
  assumes inv: "contexts_inv s" and t: "threads s n = Some t" "alive t" "at t = Create_call c orig"
  shows "contexts_inv (create_succeeded p k c orig n s)" (is "contexts_inv ?s")
proof -
  have c: "0 < c" "threads s c = None" "c < next_thread s" "c \<noteq> n"
    using contexts_inv_thread [OF inv t(1)] t by (auto simp: thread_ok_def)
  have hc: "hook_ref s c"
    using hook_ref_split [OF t(1)] t(3) by simp
  then have refs: "refs s c = 2"
    using contexts_inv_refs(5) [OF inv c(1)] c(2) by (simp add: child_ref_def)
  then obtain x where x: "contexts s c = Some x"
    using contexts_inv_refs(3) [OF inv, of c] by auto
  show ?thesis
  proof (cases "handles s p \<noteq> None \<or> k \<le> 0 \<or> task_alive k s")
    case True
    then show ?thesis
      using x inv by (auto simp: create_succeeded_def)
  next
    case False
    let ?t = "t\<lparr>at := Leave_register c p orig\<rparr>" and ?u = "new_thread p k (ctx_detached x)"
    have frame: "contexts ?s = contexts s" "handles ?s = (handles s)(p := Some c)" "next_thread ?s = next_thread s"
      "heap_fault ?s = heap_fault s" "threads ?s = (threads s)(c := Some ?u, n := Some ?t)"
      using x False t(1) c(4) by (auto simp: create_succeeded_def)
    have "n < next_thread s"
      using contexts_inv_thread [OF inv t(1)] by (simp add: thread_ok_def)
    have shapes: "shape (at ?t) = Leaving c" "shape (at ?u) = Starting" "shape (at t) = Creating c"
      using t by (simp_all add: new_thread_def)
    have ctxs: "threads ?s m = Some v \<Longrightarrow> shape_context (shape (at v)) = Some d \<Longrightarrow>
        \<exists>v0. threads s m = Some v0 \<and> shape_context (shape (at v0)) = Some d" for m v d
      using frame(5) t(1) shapes by (auto split: if_splits)
    have ctxs': "threads s m = Some v \<Longrightarrow> shape_context (shape (at v)) = Some d \<Longrightarrow>
        \<exists>v0. threads ?s m = Some v0 \<and> shape_context (shape (at v0)) = Some d" for m v d
      using frame(5) t(1) shapes c(2) by (cases "m = n"; cases "m = c") auto
    have hook: "hook_ref ?s d \<longleftrightarrow> hook_ref s d" for d
      unfolding hook_ref_def using ctxs ctxs' by (metis (no_types))
    have child: "child_ref ?s d \<longleftrightarrow> d = c \<or> child_ref s d" for d
      using frame(5) hook t(1) hc c(4) by (auto simp: child_ref_def new_thread_def split: option.split)
    have creating: "d \<noteq> c" if "threads s m = Some v" "shape (at v) = Creating d" "m \<noteq> n" for m v d
      using contexts_inv_unique [OF inv that(1) t(1), of c] that shapes by auto
    show ?thesis
    proof (rule contexts_invI)
      show "thread_ok ?s m v" if "threads ?s m = Some v" for m v
      proof -
        from that frame(5) c(4)
        consider "m = c" "v = ?u" | "m = n" "v = ?t" | "m \<noteq> c" "m \<noteq> n" "threads s m = Some v"
          by (auto split: if_splits)
        then show ?thesis
        proof cases
          case 1
          then show ?thesis
            using c frame by (simp add: thread_ok_def new_thread_def)
        next
          case 2
          then show ?thesis
            using contexts_inv_thread [OF inv t(1)] t c frame False by (auto simp: thread_ok_def)
        next
          case 3
          then have "thread_ok s m v"
            using contexts_inv_thread [OF inv] by blast
          moreover have "shape (at v) = Creating d \<Longrightarrow> d \<noteq> c \<and> d \<noteq> n" for d
            using creating 3 contexts_inv_thread [OF inv 3(3)] t(1) by (auto simp: thread_ok_def)
          ultimately show ?thesis
            using frame False 3 by (auto simp: thread_ok_def)
        qed
      qed
      show "m = k'" if "threads ?s m = Some v" "threads ?s k' = Some w"
        "shape_context (shape (at v)) = Some d" "shape_context (shape (at w)) = Some d" for m k' v w d
        using ctxs [OF that(1,3)] ctxs [OF that(2,4)] contexts_inv_unique [OF inv] by blast
      show "refs ?s d = of_bool (hook_ref ?s d) + of_bool (child_ref ?s d)" if "0 < d" for d
        using contexts_inv_refs(5) [OF inv that] refs_cong [OF frame(1)] hook child hc refs by (cases "d = c") simp_all
    qed (use frame refs_cong [OF frame(1)] contexts_inv_refs [OF inv] in auto)
  qed
qed

subsection \<open>Every step\<close>

lemma contexts_inv_frame [simp]:
  "contexts_inv (emit e s) \<longleftrightarrow> contexts_inv s"
  "contexts_inv (set_registry r s) \<longleftrightarrow> contexts_inv s"
  "contexts_inv (diagnose f s) \<longleftrightarrow> contexts_inv s"
  "contexts_inv (s\<lparr>reclaimer := pc\<rparr>) \<longleftrightarrow> contexts_inv s"
  "contexts_inv (s\<lparr>reclaim_last_scan := l\<rparr>) \<longleftrightarrow> contexts_inv s"
  "contexts_inv (wake_reclaimer_if_pending b s) \<longleftrightarrow> contexts_inv s"
  "contexts_inv (start_warn_abandoned s) \<longleftrightarrow> contexts_inv s"
  "contexts_inv (quarantine_ambiguous_tid p s) \<longleftrightarrow> contexts_inv s"
  "contexts_inv (leave_child_tid c b s) \<longleftrightarrow> contexts_inv s"
  by (rule contexts_inv_cong; simp)+

lemma contexts_inv_go:
  assumes "contexts_inv s" "threads s n = Some t" "alive t"
    and "shape pc = shape (at t) \<or> shape (at t) = Starting \<and> shape pc = Idle"
  shows "contexts_inv (go pc n s)"
  by (rule contexts_inv_move [OF assms(1-3), of _ "t\<lparr>at := pc\<rparr>"]) (use assms in simp_all)

lemma contexts_inv_upd_thread:
  assumes "contexts_inv s" "threads s n = Some t" "alive t"
    and "self (f t) = self t" "exiting (f t) = exiting t" "alive (f t)" "at (f t) = at t"
  shows "contexts_inv (upd_thread f n s)"
  by (rule contexts_inv_move [OF assms(1-3), of _ "f t"]) (use assms in simp_all)

lemma contexts_inv_set_thread:
  assumes "contexts_inv s" "threads s n = Some t" "alive t"
    and "self t' = self t" "exiting t' = exiting t" "alive t'" "at t' = at t"
  shows "contexts_inv (set_thread n t' s)"
  by (rule contexts_inv_move [OF assms(1-3), of _ t']) (use assms in simp_all)

lemma contexts_inv_set_context:
  assumes "contexts_inv s" "contexts s c = Some x" "references x' = references x"
  shows "contexts_inv (set_context c x' s)"
proof (rule contexts_inv_similar [OF assms(1)])
  show "rel_option similar (threads s m) (threads (set_context c x' s) m)" for m
    using similar_refl [OF assms(1), of m] by (cases "threads s m") auto
  show "handles (set_context c x' s) (self t) = Some m" if "threads (set_context c x' s) m = Some t" "alive t" for m t
    using contexts_inv_thread [OF assms(1), of m t] that by (simp add: thread_ok_def)
qed (use assms in simp_all)

lemma starting_context:
  assumes "contexts_inv s" "threads s n = Some t" "shape (at t) = Starting"
  shows "\<exists>x. contexts s n = Some x"
proof -
  have "0 < n" "\<not> exiting t"
    using contexts_inv_thread [OF assms(1,2)] assms(3) by (auto simp: thread_ok_def)
  then show ?thesis
    using contexts_inv_refs(3,5) [OF assms(1), of n] assms(2) by (auto simp: child_ref_def)
qed

lemma leaving_context:
  assumes "contexts_inv s" "threads s n = Some t" "shape (at t) = Leaving c"
  shows "\<exists>x. contexts s c = Some x"
  using leaving_refs(2) [OF assms] by blast

lemma call_routine_contexts:
  assumes "contexts_inv s" "threads s n = Some t" "alive t" "shape (at t) = Starting"
  shows "contexts_inv (call_routine n s)"
proof -
  obtain x where "contexts s n = Some x"
    using starting_context [OF assms(1,2,4)] by blast
  then show ?thesis
    using contexts_inv_go [of "emit e s" n t for e] assms by (simp add: call_routine_def)
qed

lemma start_action_contexts:
  assumes inv: "contexts_inv s" and t: "threads s n = Some t" "alive t"
  shows "contexts_inv (start_action (at t) ok waits ok2 n s)"
proof (cases "at t")
  case Start_wait
  then obtain x where x: "contexts s n = Some x"
    using starting_context [OF inv t(1)] by auto
  show ?thesis
  proof (cases "wait_ready (start_handshake_timeout_ms s) ok False (map (\<lambda>w. (False, w)) waits) (handshake_state x)")
    case None
    then show ?thesis
      using Start_wait x inv by (simp add: start_wait_def)
  next
    case (Some st)
    let ?s = "set_context n (x\<lparr>handshake_state := st\<rparr>) s"
    let ?w = "if st = PEAK_PTHREAD_START_ABANDONED then start_warn_abandoned ?s else ?s"
    have w: "contexts_inv ?w" "threads ?w n = Some t"
      using contexts_inv_set_context [OF inv x] t(1) by simp_all
    have "contexts_inv (exclude n ?w)" "threads (exclude n ?w) n = Some (t\<lparr>thread_excluded := True\<rparr>)"
      using contexts_inv_upd_thread [OF w t(2)] w(2) t(2) by (simp_all add: exclude_def)
    then have "contexts_inv (call_routine n (exclude n ?w))"
      by (rule call_routine_contexts) (use t(2) Start_wait in simp_all)
    moreover have "contexts_inv (call_routine n ?w)" "contexts_inv (go Start_adopt n ?w)"
      using call_routine_contexts [OF w t(2)] contexts_inv_go [OF w t(2)] Start_wait by simp_all
    ultimately show ?thesis
      using Start_wait x Some by (cases st) (simp_all add: start_wait_def Let_def)
  qed
next
  case Start_adopt
  then obtain x where x: "contexts s n = Some x"
    using starting_context [OF inv t(1)] by auto
  obtain b s1 where p: "publish_current_slot ok ok2 (ctx_slot x) (ctx_generation x) n s = (b, s1)"
    by fastforce
  obtain idn k where thr: "threads s1 = (threads s)(n := Some (t\<lparr>slot_identity := idn, slot_key := k\<rparr>))"
    using publish_current_thread [OF p t(1)] by blast
  have s1: "contexts_inv s1"
    by (rule contexts_inv_move [OF inv t, of s1, OF thr]) (use t publish_current_simps [OF p] in simp_all)
  let ?t = "t\<lparr>slot_identity := idn, slot_key := k\<rparr>"
  have t1: "threads s1 n = Some ?t" "alive ?t" "shape (at ?t) = Starting"
    using thr t Start_adopt by simp_all
  have "contexts_inv (call_routine n s1)" "contexts_inv (go Start_mark n s1)"
    using call_routine_contexts [OF s1 t1] contexts_inv_go [OF s1 t1(1,2)] t1(3) by simp_all
  moreover have "contexts_inv (call_routine n (upd_thread (\<lambda>t. t\<lparr>thread_excluded := False\<rparr>) n s1))"
    using contexts_inv_upd_thread [OF s1 t1(1,2)] t1
    by (intro call_routine_contexts [of _ _ "?t\<lparr>thread_excluded := False\<rparr>"]) simp_all
  ultimately show ?thesis
    using Start_adopt x p by (simp add: start_adopt_def split: bool.split)
next
  case Start_mark
  then obtain x where x: "contexts s n = Some x"
    using starting_context [OF inv t(1)] by auto
  then show ?thesis
    using Start_mark t inv by (simp add: start_mark_def call_routine_contexts)
qed (use inv in simp_all)

lemma go_same_context:
  assumes "contexts_inv s" "threads s n = Some t" "alive t" "shape pc = shape (at t)"
  shows "contexts_inv (go pc n s)" "contexts_inv (go pc n (set_registry r s))"
    "contexts_inv (go pc n (quarantine_ambiguous_tid p s))"
    "contexts_inv (go pc n (wake_reclaimer_if_pending b (set_registry r s)))"
  by (rule contexts_inv_go [of _ n t]; use assms in simp)+

lemma go_set_context:
  assumes "contexts_inv s" "threads s n = Some t" "alive t" "shape pc = shape (at t)"
    and "contexts s c = Some x" "references x' = references x"
  shows "contexts_inv (go pc n (set_context c x' s))" "contexts_inv (go pc n (set_context c x' (set_registry r s)))"
  by (rule contexts_inv_go [of _ n t]; use assms contexts_inv_set_context [of _ c x x'] in simp)+

lemma proceed_action_contexts:
  assumes inv: "contexts_inv s" and t: "threads s n = Some t" "alive t"
  shows "contexts_inv (proceed_action (at t) n s)"
proof (cases "\<exists>c. shape (at t) = Leaving c")
  case True
  then obtain c where c: "shape (at t) = Leaving c"
    by blast
  then obtain x where x: "contexts s c = Some x"
    using leaving_context [OF inv t(1)] by blast
  note moves = go_same_context [OF inv t] go_set_context [OF inv t _ x]
  show ?thesis
  proof (cases "at t")
    case (Leave_register d p orig)
    then show ?thesis
      using c x moves by (simp add: leave_register_def split: option.split prod.split)
  next
    case (Leave_publish d p orig)
    then show ?thesis
      using c x moves by (simp add: leave_publish_def split: prod.split)
  next
    case (Leave_release d orig)
    then show ?thesis
      using c leave_release_contexts [OF inv t] by simp
  qed (use c x moves in \<open>simp_all add: leave_detached_def leave_remove_def\<close>)
next
  case False
  note moves = go_same_context [OF inv t]
  show ?thesis
  proof (cases "at t")
    case (Join_begin tk)
    then show ?thesis
      using moves by (simp add: join_begin_retire_def split: prod.split)
  next
    case (Detach_mark p tk)
    then show ?thesis
      using moves by (simp add: detach_mark_def split: prod.split)
  qed (use False inv moves in \<open>simp_all add: join_complete_retire_def\<close>)
qed

text \<open>What the thread library forgets about a \<^verbatim>\<open>pthread_t\<close> no living thread has.\<close>

lemma forget_handle_contexts:
  assumes "contexts_inv s" "handles s p = Some m" "threads s m = Some u" "\<not> alive u"
  shows "contexts_inv (s\<lparr>handles := (handles s)(p := None)\<rparr>)"
proof (rule contexts_inv_similar [OF assms(1)])
  show "rel_option similar (threads s k) (threads (s\<lparr>handles := (handles s)(p := None)\<rparr>) k)" for k
    using similar_refl [OF assms(1), of k] by (cases "threads s k") auto
  show "handles (s\<lparr>handles := (handles s)(p := None)\<rparr>) (self v) = Some k"
    if "threads (s\<lparr>handles := (handles s)(p := None)\<rparr>) k = Some v" "alive v" for k v
    using contexts_inv_thread [OF assms(1), of k v] that assms(2-4) by (auto simp: thread_ok_def)
qed simp_all

lemma join_return_contexts:
  assumes inv: "contexts_inv s" and t: "threads s n = Some t" "alive t" "at t = Join_call p captured cookie"
  shows "contexts_inv (pthread_join_return ok p captured cookie n s)"
proof (cases "ok \<and> joinable p s")
  case True
  then obtain m u where "handles s p = Some m" "threads s m = Some u" "\<not> alive u"
    by (auto simp: joinable_def split: option.splits)
  then have "contexts_inv (s\<lparr>handles := (handles s)(p := None)\<rparr>)"
    by (rule forget_handle_contexts [OF inv])
  then have "contexts_inv (go pc n (emit e (s\<lparr>handles := (handles s)(p := None)\<rparr>)))" if "shape pc = Idle" for pc e
    by (intro contexts_inv_go [of _ n t]) (use t that in simp_all)
  then show ?thesis
    using True by (simp add: pthread_join_return_def Let_def split: option.split)
next
  case False
  then show ?thesis
    using go_same_context(1) [OF inv t(1,2), of In_application] t(3) inv by (auto simp: pthread_join_return_def)
qed

lemma os_detach_contexts:
  assumes inv: "contexts_inv s" and "os_detach p s = Some s'"
  shows "contexts_inv s'"
proof -
  obtain m u where u: "handles s p = Some m" "threads s m = Some u"
    and s': "s' = set_thread m (u\<lparr>os_detached := True\<rparr>) (if alive u then s else s\<lparr>handles := (handles s)(p := None)\<rparr>)"
    using assms(2) by (auto simp: os_detach_def split: option.splits if_splits)
  let ?s = "if alive u then s else s\<lparr>handles := (handles s)(p := None)\<rparr>"
  have h: "contexts_inv ?s" "threads ?s m = Some u" "threads ?s = threads s"
    using inv u forget_handle_contexts [OF inv u] by auto
  show ?thesis
    unfolding s'
  proof (rule contexts_inv_similar [OF h(1)])
    show "rel_option similar (threads ?s k) (threads (set_thread m (u\<lparr>os_detached := True\<rparr>) ?s) k)" for k
      using similar_refl [OF h(1), of k] h(2) by (cases "threads ?s k"; cases "k = m") (auto simp: similar_def)
    show "handles (set_thread m (u\<lparr>os_detached := True\<rparr>) ?s) (self v) = Some k"
      if "threads (set_thread m (u\<lparr>os_detached := True\<rparr>) ?s) k = Some v" "alive v" for k v
      using contexts_inv_thread [OF h(1), of k] that h(2) by (cases "k = m") (auto simp: thread_ok_def)
  qed simp_all
qed

lemma os_detach_thread:
  assumes "os_detach p s = Some s'" "threads s n = Some t"
  shows "\<exists>b. threads s' n = Some (t\<lparr>os_detached := b\<rparr>)"
proof -
  obtain m u where "threads s m = Some u" "threads s' = (threads s)(m := Some (u\<lparr>os_detached := True\<rparr>))"
    using assms(1) by (auto simp: os_detach_def split: option.splits if_splits)
  then show ?thesis
    using assms(2) by (cases "n = m") (auto intro: exI [of _ True] exI [of _ "os_detached t"])
qed

lemma return_action_contexts:
  assumes inv: "contexts_inv s" and t: "threads s n = Some t" "alive t"
  shows "contexts_inv (return_action (at t) ok n s)"
proof (cases "at t")
  case (Join_call p captured cookie)
  then show ?thesis
    using join_return_contexts [OF inv t] by simp
next
  case (Detach_call p captured)
  then have "contexts_inv (go pc n s')" if "os_detach p s = Some s'" "shape pc = Idle" for s' pc
    using os_detach_contexts [OF inv that(1)] os_detach_thread [OF that(1) t(1)] t(2) that(2)
    by (auto intro!: contexts_inv_go)
  then show ?thesis
    using Detach_call inv go_same_context(1) [OF inv t]
    by (simp add: pthread_detach_return_def split: option.split)
qed (use inv go_same_context [OF inv t] in simp_all)

lemma terminate_contexts:
  assumes inv: "contexts_inv s" and t: "threads s n = Some t" "alive t" "at t = In_application" "exiting t"
  shows "contexts_inv (terminate n t s)" (is "contexts_inv ?s")
proof (rule contexts_inv_similar [OF inv])
  show "rel_option similar (threads s k) (threads ?s k)" for k
    using similar_refl [OF inv, of k] t by (cases "threads s k"; cases "k = n") (auto simp: similar_def terminate_def)
  show "handles ?s (self v) = Some k" if "threads ?s k = Some v" "alive v" for k v
    using contexts_inv_thread [OF inv, of k v] contexts_inv_thread [OF inv t(1)] that t
    by (cases "k = n") (auto simp: thread_ok_def terminate_def split: if_splits)
qed (simp_all add: terminate_def)

lemma slot_destructor_contexts:
  assumes "contexts_inv s" "threads s n = Some t" "alive t"
  shows "contexts_inv (slot_destructor set_ok n s)"
  using contexts_inv_set_thread [of "emit (Frames_released n) s" n t] assms
  by (auto simp: slot_destructor_def Let_def split: prod.split)

lemma application_call_contexts:
  assumes inv: "contexts_inv s" and t: "threads s n = Some t" "alive t" "at t = In_application"
  shows "contexts_inv (application_call c n t s)"
proof (cases c)
  case (Call_create np hb det rt arg)
  then show ?thesis
    using create_enter_contexts [OF inv t] by simp
next
  case Call_exclude
  have s: "contexts_inv (exclude n s)" "threads (exclude n s) n = Some (t\<lparr>thread_excluded := True\<rparr>)"
    using contexts_inv_upd_thread [OF inv t(1,2)] t by (simp_all add: exclude_def)
  then have "contexts_inv (upd_thread f n (quarantine_ambiguous_tid p (emit e (exclude n s))))"
    if "\<And>u. self (f u) = self u \<and> exiting (f u) = exiting u \<and> alive (f u) = alive u \<and> at (f u) = at u" for f p e
    by (intro contexts_inv_upd_thread [of _ n "t\<lparr>thread_excluded := True\<rparr>"]) (use that t in simp_all)
  then show ?thesis
    using Call_exclude s by (simp add: exclude_current_thread_def Let_def)
next
  case Call_mark_helper
  then show ?thesis
    using contexts_inv_upd_thread [OF inv t(1,2)] t by (simp add: mark_next_created_thread_helper_def)
next
  case Call_exit
  then show ?thesis
    using start_cleanup_contexts [OF inv t] inv by simp
next
  case (Run_destructor set_ok)
  have "contexts_inv (set_thread n (t\<lparr>slot_key := False\<rparr>) s)"
    using contexts_inv_set_thread [OF inv t(1,2)] t by simp
  then show ?thesis
    using Run_destructor inv t slot_destructor_contexts [of "set_thread n (t\<lparr>slot_key := False\<rparr>) s" n] by simp
next
  case End_thread
  then show ?thesis
    using terminate_contexts [OF inv t] inv by simp
qed (use go_same_context(1) [OF inv t(1,2)] t(3) in \<open>simp_all add: pthread_join_enter_def pthread_detach_enter_def\<close>)

lemma create_action_contexts:
  assumes "contexts_inv s" "threads s n = Some t" "alive t"
  shows "contexts_inv (create_action (at t) res n s)"
proof (cases "at t")
  case (Create_call c orig)
  then show ?thesis
    using assms create_failed_contexts [OF assms] create_succeeded_contexts [OF assms]
    by (cases res) (auto simp: case_prod_beta)
qed (use assms in simp_all)

lemma reclaim_step_contexts: "contexts_inv s \<Longrightarrow> contexts_inv (reclaim_step answer reuse s)"
  by (simp add: reclaim_step_def reclaim_snapshot_def reclaim_candidate_def
      split: reclaim_pc.split list.split task_stat.split prod.split bool.split)

lemma listener_step_contexts:
  assumes "contexts_inv s"
  shows "contexts_inv (listener_step a s)"
proof (cases a)
  case (Call n c)
  then show ?thesis
    using assms application_call_contexts [OF assms, of n]
    by (simp add: with_thread_def split: option.split)
next
  case (Reclaim_scan now)
  then show ?thesis
    using assms by (simp add: reclaim_start_def split: option.split)
next
  case (Reclaim answer reuse)
  then show ?thesis
    using assms reclaim_step_contexts by simp
qed (use assms start_action_contexts [OF assms] create_action_contexts [OF assms]
      proceed_action_contexts [OF assms] return_action_contexts [OF assms] in
    \<open>simp_all add: with_thread_def split: option.split\<close>)

interpretation listener_contexts: step_system listener_step contexts_inv
  by unfold_locales (rule listener_step_contexts)

end
