(* ===== verification/Pthread_Slots.thy ===== *)
theory Pthread_Slots
  imports Pthread_Contexts
begin

text \<open>
  Threads never share a slot. A slot of the statistics arrays belongs to the thread whose thread-local
  identity names it; the registry may hand it out again only when that thread can no longer run. The
  proof follows the claims of the living threads: a thread claims the token of its valid identity, or the
  one its start context offers it while it waits to start. Two invariants are kept by every step of every
  thread: what the handshake of a start context says about creator and child, and that the slots of the
  claims are held, different, and not about to be retired by a join or a scan.
\<close>

subsection \<open>The handshake\<close>

definition context_token :: "PeakPthreadStartContext \<Rightarrow> PeakPthreadSlotToken" where
  "context_token x = \<lparr>slot = ctx_slot x, generation = ctx_generation x\<rparr>"

fun hand_pc :: "pthread_listener \<Rightarrow> nat \<Rightarrow> PeakPthreadSlotIdentity \<Rightarrow> thread_pc \<Rightarrow> bool" where
  "hand_pc s n i Start_wait \<longleftrightarrow> \<not> valid i"
| "hand_pc s n i Start_adopt \<longleftrightarrow> \<not> valid i \<and>
     (\<forall>x. contexts s n = Some x \<longrightarrow> handshake_state x = PEAK_PTHREAD_START_READY \<and> tracked x)"
| "hand_pc s n i Start_mark \<longleftrightarrow> valid i \<and>
     (\<forall>x. contexts s n = Some x \<longrightarrow> handshake_state x = PEAK_PTHREAD_START_READY \<and> tracked x \<and>
        identity_token i = context_token x)"
| "hand_pc s n i (Create_call c b) \<longleftrightarrow>
     (\<forall>x. contexts s c = Some x \<longrightarrow> handshake_state x = PEAK_PTHREAD_START_PENDING \<and> \<not> tracked x)"
| "hand_pc s n i (Leave_register c p b) \<longleftrightarrow>
     (\<forall>x. contexts s c = Some x \<longrightarrow> handshake_state x \<noteq> PEAK_PTHREAD_START_READY \<and> \<not> tracked x) \<and>
     (\<forall>u. threads s c = Some u \<longrightarrow> self u = p)"
| "hand_pc s n i (Leave_detached c p b) \<longleftrightarrow>
     (\<forall>x. contexts s c = Some x \<longrightarrow> handshake_state x \<noteq> PEAK_PTHREAD_START_READY)"
| "hand_pc s n i (Leave_quarantine c p b) \<longleftrightarrow>
     (\<forall>x. contexts s c = Some x \<longrightarrow> handshake_state x \<noteq> PEAK_PTHREAD_START_READY)"
| "hand_pc s n i (Leave_publish c p b) \<longleftrightarrow>
     (\<forall>x. contexts s c = Some x \<longrightarrow> handshake_state x \<noteq> PEAK_PTHREAD_START_READY)"
| "hand_pc s n i (Leave_remove c p b) \<longleftrightarrow>
     (\<forall>x. contexts s c = Some x \<longrightarrow> handshake_state x = PEAK_PTHREAD_START_ABANDONED \<and> tracked x)"
| "hand_pc s n i _ \<longleftrightarrow> True"

definition hand_ok :: "pthread_listener \<Rightarrow> nat \<Rightarrow> pthread_thread \<Rightarrow> bool" where
  "hand_ok s n t \<longleftrightarrow> hand_pc s n (slot_identity t) (at t) \<and>
     (valid (slot_identity t) \<longrightarrow>
        (\<forall>x. contexts s n = Some x \<longrightarrow> handshake_state x = PEAK_PTHREAD_START_READY))"

definition hand_inv :: "pthread_listener \<Rightarrow> bool" where
  "hand_inv s \<longleftrightarrow> (\<forall>n t. threads s n = Some t \<longrightarrow> hand_ok s n t)"

lemma hand_invD: "hand_inv s \<Longrightarrow> threads s n = Some t \<Longrightarrow> hand_ok s n t"
  by (simp add: hand_inv_def)

text \<open>A wait that ends has seen the handshake settled, or has abandoned it.\<close>

lemma wait_loop_alone:
  "wait_loop (map (\<lambda>w. (False, w)) waits) st = Some st' \<Longrightarrow>
     st' \<noteq> PEAK_PTHREAD_START_PENDING \<and>
     (st' = st \<or> st = PEAK_PTHREAD_START_PENDING \<and> st' = PEAK_PTHREAD_START_ABANDONED)"
  by (induction waits) (auto simp: abandon_start_def cas_start_def split: if_splits)

lemma wait_ready_alone:
  assumes "wait_ready ms ok False (map (\<lambda>w. (False, w)) waits) st = Some st'"
  shows "st' \<noteq> PEAK_PTHREAD_START_PENDING"
    "st' = st \<or> st = PEAK_PTHREAD_START_PENDING \<and> st' = PEAK_PTHREAD_START_ABANDONED"
  using assms wait_loop_alone [of waits st st']
  by (auto simp: wait_ready_def abandon_start_def cas_start_def split: if_splits)

text \<open>Two states that agree about the contexts and the threads as far as the handshake goes.\<close>

definition like_context :: "PeakPthreadStartContext \<Rightarrow> PeakPthreadStartContext \<Rightarrow> bool" where
  "like_context x x' \<longleftrightarrow> handshake_state x' = handshake_state x \<and> tracked x' = tracked x \<and>
     context_token x' = context_token x"

definition like_thread :: "pthread_thread \<Rightarrow> pthread_thread \<Rightarrow> bool" where
  "like_thread t t' \<longleftrightarrow> self t' = self t \<and> ktid t' = ktid t \<and> (alive t' \<longrightarrow> alive t) \<and>
     (valid (slot_identity t') \<longrightarrow>
        valid (slot_identity t) \<and> identity_token (slot_identity t') = identity_token (slot_identity t))"

definition quiet :: "pthread_listener \<Rightarrow> pthread_listener \<Rightarrow> nat \<Rightarrow> pthread_thread \<Rightarrow> bool" where
  "quiet s s' n t' \<longleftrightarrow>
     (\<forall>c x'. contexts s' c = Some x' \<longrightarrow> (\<exists>x. contexts s c = Some x \<and> like_context x x')) \<and>
     (\<forall>m u'. threads s' m = Some u' \<longrightarrow> (\<exists>u. threads s m = Some u \<and> like_thread u u' \<and>
        (m \<noteq> n \<longrightarrow> at u' = at u \<and> slot_identity u' = slot_identity u))) \<and>
     threads s' n = Some t' \<and>
     ((\<exists>t. threads s n = Some t \<and> at t' = at t \<and> slot_identity t' = slot_identity t) \<or> shape (at t') \<noteq> Starting)"

lemma quiet_context: "quiet s s' n t' \<Longrightarrow> contexts s' c = Some x' \<Longrightarrow> \<exists>x. contexts s c = Some x \<and> like_context x x'"
  by (simp add: quiet_def)

lemma quiet_thread: "quiet s s' n t' \<Longrightarrow> threads s' m = Some u' \<Longrightarrow> \<exists>u. threads s m = Some u \<and> like_thread u u'"
  unfolding quiet_def by blast

lemma hand_pc_mono:
  assumes "hand_pc s n i pc"
    and "\<And>c x'. contexts s' c = Some x' \<Longrightarrow> \<exists>x. contexts s c = Some x \<and> like_context x x'"
    and "\<And>c u'. threads s' c = Some u' \<Longrightarrow> \<exists>u. threads s c = Some u \<and> self u' = self u"
  shows "hand_pc s' n i pc"
  using assms by (cases pc) (fastforce simp: like_context_def)+

lemma hand_inv_quiet:
  assumes inv: "hand_inv s" and q: "quiet s s' n t'"
    and ok: "(\<exists>t. threads s n = Some t \<and> at t' = at t \<and> slot_identity t' = slot_identity t) \<or>
      hand_pc s' n (slot_identity t') (at t')"
  shows "hand_inv s'"
  unfolding hand_inv_def
proof (intro allI impI)
  fix m u'
  assume u': "threads s' m = Some u'"
  then obtain u where u: "threads s m = Some u" "like_thread u u'"
    "m \<noteq> n \<Longrightarrow> at u' = at u \<and> slot_identity u' = slot_identity u"
    using q unfolding quiet_def by blast
  have t': "threads s' n = Some t'"
    using q by (simp add: quiet_def)
  have old: "hand_ok s m u"
    using hand_invD [OF inv u(1)] .
  have selfs: "\<exists>v. threads s c = Some v \<and> self v' = self v" if "threads s' c = Some v'" for c v'
    using quiet_thread [OF q that] by (auto simp: like_thread_def)
  have "hand_pc s' m (slot_identity u') (at u')"
  proof (cases "m \<noteq> n \<or> (\<exists>t. threads s n = Some t \<and> at t' = at t \<and> slot_identity t' = slot_identity t)")
    case True
    then have "at u' = at u" "slot_identity u' = slot_identity u"
      using u u' t' by (cases "m = n"; auto)+
    then show ?thesis
      using hand_pc_mono [OF _ quiet_context [OF q] selfs] old by (simp add: hand_ok_def)
  next
    case False
    then show ?thesis
      using ok u' t' by auto
  qed
  moreover have "handshake_state x' = PEAK_PTHREAD_START_READY"
    if "valid (slot_identity u')" "contexts s' m = Some x'" for x'
    using quiet_context [OF q that(2)] that(1) u(2) old by (auto simp: like_context_def like_thread_def hand_ok_def)
  ultimately show "hand_ok s' m u'"
    by (simp add: hand_ok_def)
qed

text \<open>The creator of thread \<open>c\<close> changes the context before it is ready: the child has not gone on.\<close>

lemma hand_ok_creator:
  assumes "hand_ok s m u" "contexts s c = Some x" "handshake_state x \<noteq> PEAK_PTHREAD_START_READY"
    and "shape_context (shape (at u)) \<noteq> Some c"
    and "contexts s' = (contexts s)(c := Some x')"
    and "\<And>d v'. threads s' d = Some v' \<Longrightarrow> \<exists>v. threads s d = Some v \<and> self v' = self v"
  shows "hand_ok s' m u"
proof -
  have "hand_pc s' m (slot_identity u) (at u)"
    using assms by (cases "at u"; cases "m = c") (fastforce simp: hand_ok_def)+
  then show ?thesis
    using assms by (cases "m = c") (auto simp: hand_ok_def)
qed

text \<open>The child gives up waiting: its creator then finds the handshake abandoned.\<close>

lemma hand_ok_abandoned:
  assumes "hand_ok s m u" "m \<noteq> n" "contexts s n = Some x"
    and "contexts s' = (contexts s)(n := Some (x\<lparr>handshake_state := PEAK_PTHREAD_START_ABANDONED\<rparr>))"
    and "shape (at u) \<noteq> Creating n"
    and "\<And>d v'. threads s' d = Some v' \<Longrightarrow> \<exists>v. threads s d = Some v \<and> self v' = self v"
  shows "hand_ok s' m u"
proof -
  have "hand_pc s' m (slot_identity u) (at u)"
  proof (cases "at u")
    case (Leave_register d p b)
    have "self v = p" if "threads s' d = Some v" for v
      using assms(6) [OF that] assms(1) Leave_register by (auto simp: hand_ok_def)
    then show ?thesis
      using assms(1,3,4) Leave_register by (auto simp: hand_ok_def)
  next
    case (Leave_remove d p b)
    then have "\<forall>y. contexts s d = Some y \<longrightarrow> handshake_state y = PEAK_PTHREAD_START_ABANDONED \<and> tracked y"
      using assms(1) by (simp add: hand_ok_def)
    then show ?thesis
      using Leave_remove assms(3,4) by (cases "d = n") simp_all
  qed (use assms(1,2,3,4,5) in \<open>auto simp: hand_ok_def\<close>)
  then show ?thesis
    using assms(1,2,4) by (auto simp: hand_ok_def)
qed

subsection \<open>Claims\<close>

definition claim_of :: "pthread_thread \<Rightarrow> PeakPthreadStartContext option \<Rightarrow> PeakPthreadSlotToken option" where
  "claim_of t xo =
     (if \<not> alive t then None
      else if valid (slot_identity t) then Some (identity_token (slot_identity t))
      else if at t = Start_wait \<or> at t = Start_adopt
      then (case xo of
              None \<Rightarrow> None
            | Some x \<Rightarrow> if tracked x \<and> handshake_state x \<noteq> PEAK_PTHREAD_START_ABANDONED
                        then Some (context_token x) else None)
      else None)"

definition claim :: "pthread_listener \<Rightarrow> nat \<Rightarrow> PeakPthreadSlotToken option" where
  "claim s n = (case threads s n of None \<Rightarrow> None | Some t \<Rightarrow> claim_of t (contexts s n))"

abbreviation issued :: "pthread_listener \<Rightarrow> nat" where
  "issued s \<equiv> unat (next_generation (pthread_slot_registry s))"

text \<open>A token that was handed out, and whose claimant, if there still is one, is known by its
  \<^verbatim>\<open>pthread_t\<close> and kernel thread id.\<close>

definition owned :: "pthread_listener \<Rightarrow> (pthread_t \<Rightarrow> pid_t \<Rightarrow> bool) \<Rightarrow> PeakPthreadSlotToken \<Rightarrow> bool" where
  "owned s P tk \<longleftrightarrow> unat (generation tk) \<le> issued s \<and>
     (\<forall>m t. claim s m = Some tk \<longrightarrow> threads s m = Some t \<longrightarrow> P (self t) (ktid t))"

abbreviation gone :: "pthread_listener \<Rightarrow> PeakPthreadSlotToken \<Rightarrow> bool" where
  "gone s tk \<equiv> owned s (\<lambda>_ _. False) tk"

fun pc_tokens :: "pthread_listener \<Rightarrow> thread_pc \<Rightarrow> bool" where
  "pc_tokens s (Join_call p (Some tk) cookie) \<longleftrightarrow> owned s (\<lambda>p' _. p' = p) tk"
| "pc_tokens s (Join_begin tk) \<longleftrightarrow> gone s tk"
| "pc_tokens s (Join_retire tk) \<longleftrightarrow> gone s tk"
| "pc_tokens s (Join_complete tk reuse) \<longleftrightarrow> gone s tk"
| "pc_tokens s _ \<longleftrightarrow> True"

definition candidates_ok :: "pthread_listener \<Rightarrow> PeakPthreadDetachedCandidate list \<Rightarrow> bool" where
  "candidates_ok s cs \<longleftrightarrow>
     (\<forall>cand \<in> set cs. owned s (\<lambda>_ k. k = cand_kernel_tid cand) (cand_token cand))"

fun reclaim_tokens :: "pthread_listener \<Rightarrow> reclaim_pc \<Rightarrow> bool" where
  "reclaim_tokens s Reclaim_idle \<longleftrightarrow> True"
| "reclaim_tokens s (Reclaim_locked now) \<longleftrightarrow> True"
| "reclaim_tokens s (Reclaim_next cs b) \<longleftrightarrow> candidates_ok s cs"
| "reclaim_tokens s (Reclaim_begin tk cs b) \<longleftrightarrow> gone s tk \<and> candidates_ok s cs"
| "reclaim_tokens s (Reclaim_retire tk cs b) \<longleftrightarrow> gone s tk \<and> candidates_ok s cs"
| "reclaim_tokens s (Reclaim_defer tk cs b) \<longleftrightarrow> gone s tk \<and> candidates_ok s cs"
| "reclaim_tokens s (Reclaim_complete tk cs b) \<longleftrightarrow> gone s tk \<and> candidates_ok s cs"

definition entry_of_claim :: "PeakPthreadSlotRegistryEntry \<Rightarrow> PeakPthreadSlotToken \<Rightarrow> pthread_thread \<Rightarrow> bool" where
  "entry_of_claim e tk t \<longleftrightarrow>
     (occupied e \<longrightarrow> token e = tk \<and> tid e = self t \<and> (kernel_tid e \<noteq> 0 \<longrightarrow> kernel_tid e = ktid t))"

definition slots_inv :: "pthread_listener \<Rightarrow> bool" where
  "slots_inv s \<longleftrightarrow>
     registry_inv (pthread_slot_registry s) \<and>
     (\<forall>i. occupied (entries (pthread_slot_registry s) i) \<longrightarrow>
        unat (generation (token (entries (pthread_slot_registry s) i))) \<le> issued s) \<and>
     (\<forall>n tk t. claim s n = Some tk \<longrightarrow> threads s n = Some t \<longrightarrow>
        slot tk \<in> held (pthread_slot_registry s) \<and> unat (generation tk) \<le> issued s \<and>
        entry_of_claim (entries (pthread_slot_registry s) (slot tk)) tk t) \<and>
     (\<forall>n m tk tk'. claim s n = Some tk \<longrightarrow> claim s m = Some tk' \<longrightarrow> slot tk = slot tk' \<longrightarrow> n = m) \<and>
     (\<forall>c x. contexts s c = Some x \<longrightarrow> tracked x \<longrightarrow> unat (ctx_generation x) \<le> issued s \<and>
        (\<forall>m tk. claim s m = Some tk \<longrightarrow> generation tk = ctx_generation x \<longrightarrow> m = c)) \<and>
     (\<forall>n t. threads s n = Some t \<longrightarrow> pc_tokens s (at t)) \<and>
     reclaim_tokens s (reclaimer s)"

lemma slots_invD:
  assumes "slots_inv s"
  shows "registry_inv (pthread_slot_registry s)"
    "occupied (entries (pthread_slot_registry s) i) \<Longrightarrow>
       unat (generation (token (entries (pthread_slot_registry s) i))) \<le> issued s"
    "claim s n = Some tk \<Longrightarrow> threads s n = Some t \<Longrightarrow>
       slot tk \<in> held (pthread_slot_registry s) \<and> unat (generation tk) \<le> issued s \<and>
       entry_of_claim (entries (pthread_slot_registry s) (slot tk)) tk t"
    "claim s n = Some tk \<Longrightarrow> claim s m = Some tk' \<Longrightarrow> slot tk = slot tk' \<Longrightarrow> n = m"
    "contexts s c = Some x \<Longrightarrow> tracked x \<Longrightarrow> unat (ctx_generation x) \<le> issued s"
    "contexts s c = Some x \<Longrightarrow> tracked x \<Longrightarrow> claim s m = Some tk \<Longrightarrow> generation tk = ctx_generation x \<Longrightarrow> m = c"
    "threads s n = Some t \<Longrightarrow> pc_tokens s (at t)"
    "reclaim_tokens s (reclaimer s)"
  using assms unfolding slots_inv_def by blast+

lemma claim_thread: "claim s n = Some tk \<Longrightarrow> \<exists>t. threads s n = Some t \<and> alive t"
  by (auto simp: claim_def claim_of_def split: option.splits if_splits)

subsection \<open>What the registry operations release\<close>

text \<open>The operation gives back only slots whose entry carries a token in \<open>T\<close>, and sets a kernel thread id
  only as \<open>K\<close> allows.\<close>

definition releases ::
  "(PeakPthreadSlotToken \<Rightarrow> bool) \<Rightarrow> (PeakPthreadSlotToken \<Rightarrow> pid_t \<Rightarrow> bool) \<Rightarrow>
   PeakPthreadSlotRegistry \<Rightarrow> PeakPthreadSlotRegistry \<Rightarrow> bool" where
  "releases T K r r' \<longleftrightarrow>
     registry_inv r' \<and> next_generation r' = next_generation r \<and>
     (\<forall>j \<in> held r. j \<in> held r' \<or> occupied (entries r j) \<and> T (token (entries r j))) \<and>
     (\<forall>j. occupied (entries r' j) \<longrightarrow>
        occupied (entries r j) \<and> token (entries r' j) = token (entries r j) \<and>
        tid (entries r' j) = tid (entries r j) \<and>
        (kernel_tid (entries r' j) = kernel_tid (entries r j) \<or>
         K (token (entries r j)) (kernel_tid (entries r' j))))"

abbreviation no_token :: "PeakPthreadSlotToken \<Rightarrow> bool" where
  "no_token \<equiv> \<lambda>_. False"

abbreviation no_tid :: "PeakPthreadSlotToken \<Rightarrow> pid_t \<Rightarrow> bool" where
  "no_tid \<equiv> \<lambda>_ _. False"

lemma releases_refl: "registry_inv r \<Longrightarrow> releases T K r r"
  by (simp add: releases_def)

lemma update_exit_pending_kernel_tid [simp]:
  "kernel_tid (entries (snd (update_exit_pending_unlocked i r)) j) = kernel_tid (entries r j)"
  by (simp add: update_exit_pending_unlocked_def Let_def)

lemma held_update_exit_pending [simp]: "held (snd (update_exit_pending_unlocked i r)) = held r"
  by (simp add: held_def)

lemma held_set_entry [simp]: "held (set_entry i e r) = held r"
  by (simp add: held_def)

lemma held_discard [simp]: "held (discard_unlocked i r) = held r"
  by (simp add: held_def)

lemma releases_touches:
  assumes "touches r r'" "held r \<subseteq> held r'"
    and "\<And>j. occupied (entries r' j) \<Longrightarrow> tid (entries r' j) = tid (entries r j) \<and>
      (kernel_tid (entries r' j) = kernel_tid (entries r j) \<or> K (token (entries r j)) (kernel_tid (entries r' j)))"
  shows "releases T K r r'"
  using assms unfolding touches_def releases_def by blast

lemma releases_quarantine: "registry_inv r \<Longrightarrow> releases T K r (snd (quarantine p r))"
  by (rule releases_touches [OF quarantine_touches])
     (auto simp: quarantine_def discard_entries split: option.splits if_splits)

lemma releases_mark_detached: "registry_inv r \<Longrightarrow> releases T K r (snd (snd (mark_detached p g r)))"
  by (rule releases_touches [OF mark_detached_touches])
     (auto simp: mark_detached_def split: option.splits if_splits)

lemma releases_mark_final: "registry_inv r \<Longrightarrow> releases T K r (snd (snd (mark_final_destructor tk r)))"
  by (rule releases_touches [OF mark_final_destructor_touches])
     (auto simp: mark_final_destructor_def split: option.splits if_splits)

lemma releases_begin_retire: "registry_inv r \<Longrightarrow> releases T K r (snd (begin_retire tk r))"
  by (rule releases_touches [OF begin_retire_touches])
     (auto simp: begin_retire_def split: option.splits if_splits)

lemma releases_defer_retire: "registry_inv r \<Longrightarrow> releases T K r (snd (defer_retire tk r))"
  by (rule releases_touches [OF defer_retire_touches])
     (auto simp: defer_retire_def split: option.splits if_splits)

lemma releases_snapshot: "registry_inv r \<Longrightarrow> releases T K r (snd (snd (snapshot_exit_pending b r)))"
  by (rule releases_touches [OF snapshot_exit_pending_touches])
     (auto simp: snapshot_exit_pending_def Let_def held_def reusable_list_def split: if_splits)

lemma releases_mark_kernel_tid:
  assumes "registry_inv r" and "\<And>i. occupied (entries r i) \<Longrightarrow> i = slot tk \<Longrightarrow>
      generation (token (entries r i)) = generation tk \<Longrightarrow> K (token (entries r i)) k"
  shows "releases T K r (snd (mark_kernel_tid tk k r))"
  by (rule releases_touches [OF mark_kernel_tid_touches [OF assms(1)]])
     (use assms(2) in \<open>auto simp: mark_kernel_tid_def find_token_unlocked_Some split: option.splits if_splits\<close>)

lemma held_recycle:
  assumes "registry_inv r" "occupied (entries r i)" "j \<in> held r" "j \<noteq> i"
  shows "j \<in> held (recycle_and_discard reuse i r)"
proof -
  have "slot (token (entries r i)) = i"
    using registry_invD(3) [OF assms(1), of i] assms(2) by (simp add: entry_ok_def)
  then show ?thesis
    using assms(3,4) enqueue_list [OF ring_has_room [OF assms(1,2)], of i]
    by (cases reuse) (auto simp: recycle_and_discard_def held_def)
qed

lemma releases_recycle:
  assumes "registry_inv r" "occupied (entries r i)" "T (token (entries r i))"
  shows "releases T K r (recycle_and_discard reuse i r)"
proof -
  have t: "touches r (recycle_and_discard reuse i r)"
    using touches_recycle [OF assms(1,2)] .
  have "occupied (entries (recycle_and_discard reuse i r) j) \<Longrightarrow>
      tid (entries (recycle_and_discard reuse i r) j) = tid (entries r j) \<and>
      kernel_tid (entries (recycle_and_discard reuse i r) j) = kernel_tid (entries r j)" for j
    by (simp add: recycle_and_discard_def discard_entries split: if_splits)
  moreover have "j \<in> held (recycle_and_discard reuse i r) \<or> occupied (entries r j) \<and> T (token (entries r j))"
    if "j \<in> held r" for j
    using held_recycle [OF assms(1,2) that] assms(2,3) by (cases "j = i") auto
  ultimately show ?thesis
    using t unfolding touches_def releases_def by blast
qed

lemma releases_compare_remove:
  "registry_inv r \<Longrightarrow> releases (\<lambda>tk. generation tk = g) K r (snd (compare_remove p g reuse r))"
  by (auto simp: compare_remove_def releases_refl split: option.splits
      dest: find_unlocked_Some intro!: releases_recycle)

lemma releases_complete_retire:
  assumes "registry_inv r"
  shows "releases (\<lambda>tk'. tk' = tk) K r (snd (complete_retire tk reuse r))"
proof -
  have "token (entries r i) = tk" if "find_token_unlocked r tk = Some i" for i
    using registry_invD(3) [OF assms, of i] that by (auto simp: find_token_unlocked_Some entry_ok_def)
  then show ?thesis
    using assms by (auto simp: complete_retire_def releases_refl find_token_unlocked_Some split: option.splits
        intro!: releases_recycle)
qed

subsection \<open>Steps without a reservation\<close>

text \<open>Claims are only given up, and the tokens of what the thread goes on to are known.\<close>

definition settles :: "pthread_listener \<Rightarrow> pthread_listener \<Rightarrow> bool" where
  "settles s s' \<longleftrightarrow>
     issued s \<le> issued s' \<and>
     (\<forall>m tk t'. claim s' m = Some tk \<longrightarrow> threads s' m = Some t' \<longrightarrow>
        (claim s m = Some tk \<and> (\<exists>t. threads s m = Some t \<and> self t' = self t \<and> ktid t' = ktid t)) \<or>
        issued s < unat (generation tk))"

lemma owned_settles: "owned s P tk \<Longrightarrow> settles s s' \<Longrightarrow> owned s' P tk"
  unfolding owned_def settles_def by fastforce

lemma pc_tokens_settles: "pc_tokens s pc \<Longrightarrow> settles s s' \<Longrightarrow> pc_tokens s' pc"
  by (cases "(s, pc)" rule: pc_tokens.cases) (auto intro: owned_settles)

lemma reclaim_tokens_settles: "reclaim_tokens s pc \<Longrightarrow> settles s s' \<Longrightarrow> reclaim_tokens s' pc"
  by (cases pc) (auto simp: candidates_ok_def intro: owned_settles)

text \<open>The registry operation releases no claimed token and knows the kernel thread ids it sets.\<close>

definition spares ::
  "pthread_listener \<Rightarrow> (PeakPthreadSlotToken \<Rightarrow> bool) \<Rightarrow> (PeakPthreadSlotToken \<Rightarrow> pid_t \<Rightarrow> bool) \<Rightarrow> bool" where
  "spares s T K \<longleftrightarrow>
     (\<forall>m tk t. claim s m = Some tk \<longrightarrow> threads s m = Some t \<longrightarrow> \<not> T tk \<and> (\<forall>k. K tk k \<longrightarrow> k = ktid t))"

lemma spares_none [simp]: "spares s no_token no_tid"
  by (simp add: spares_def)

lemma spares_gone: "gone s tk \<Longrightarrow> spares s (\<lambda>tk'. tk' = tk) no_tid"
  using claim_thread by (fastforce simp: spares_def owned_def)

lemma slots_inv_frame:
  assumes inv: "slots_inv s"
    and rel: "releases T K (pthread_slot_registry s) (pthread_slot_registry s')"
    and free: "spares s T K"
    and claims: "\<And>m tk t'. claim s' m = Some tk \<Longrightarrow> threads s' m = Some t' \<Longrightarrow>
      claim s m = Some tk \<and> (\<exists>t. threads s m = Some t \<and> self t' = self t \<and> ktid t' = ktid t)"
    and ctx: "\<And>c x'. contexts s' c = Some x' \<Longrightarrow> tracked x' \<Longrightarrow>
      \<exists>x. contexts s c = Some x \<and> tracked x \<and> ctx_generation x = ctx_generation x'"
    and pcs: "\<And>m t'. threads s' m = Some t' \<Longrightarrow>
      (\<exists>k t. threads s k = Some t \<and> at t' = at t) \<or> pc_tokens s' (at t')"
    and rec: "reclaimer s' = reclaimer s \<or> reclaim_tokens s' (reclaimer s')"
  shows "slots_inv s'"
proof -
  let ?r = "pthread_slot_registry s" and ?r' = "pthread_slot_registry s'"
  have ng: "next_generation ?r' = next_generation ?r" and ri: "registry_inv ?r'"
    using rel by (simp_all add: releases_def)
  have settle: "settles s s'"
    using claims ng unfolding settles_def by auto
  have old: "claim s' m = Some tk \<Longrightarrow> claim s m = Some tk" for m tk
    using claims claim_thread by blast
  have entry: "occupied (entries ?r' j) \<Longrightarrow> occupied (entries ?r j) \<and> token (entries ?r' j) = token (entries ?r j)" for j
    using rel unfolding releases_def by blast
  have claim: "slot tk \<in> held ?r' \<and> unat (generation tk) \<le> issued s' \<and> entry_of_claim (entries ?r' (slot tk)) tk t'"
    if c: "claim s' m = Some tk" "threads s' m = Some t'" for m tk t'
  proof -
    obtain t where t: "claim s m = Some tk" "threads s m = Some t" "self t' = self t" "ktid t' = ktid t"
      using claims [OF c] by blast
    note d = slots_invD(3) [OF inv t(1,2)] and f = free [unfolded spares_def, rule_format, OF t(1,2)]
    have "slot tk \<in> held ?r'"
      using d f rel unfolding releases_def entry_of_claim_def by auto
    moreover have "entry_of_claim (entries ?r' (slot tk)) tk t'"
      using d f rel t(3,4) unfolding releases_def entry_of_claim_def by fastforce
    ultimately show ?thesis
      using d ng by simp
  qed
  show ?thesis
    unfolding slots_inv_def
  proof (intro conjI allI impI)
    show "registry_inv ?r'"
      by (rule ri)
    show "unat (generation (token (entries ?r' i))) \<le> issued s'" if "occupied (entries ?r' i)" for i
      using entry [OF that] slots_invD(2) [OF inv, of i] ng by simp
    show "n = m" if "claim s' n = Some tk" "claim s' m = Some tk'" "slot tk = slot tk'" for n m tk tk'
      using slots_invD(4) [OF inv old [OF that(1)] old [OF that(2)] that(3)] .
    show "unat (ctx_generation x) \<le> issued s'" if "contexts s' c = Some x" "tracked x" for c x
      using ctx [OF that] slots_invD(5) [OF inv, of c] ng by auto
    show "m = c" if "contexts s' c = Some x" "tracked x" "claim s' m = Some tk" "generation tk = ctx_generation x"
      for c x m tk
      using ctx [OF that(1,2)] slots_invD(6) [OF inv, of c _ m tk] old [OF that(3)] that(4) by auto
    show "pc_tokens s' (at t)" if "threads s' n = Some t" for n t
      using pcs [OF that] slots_invD(7) [OF inv] pc_tokens_settles [OF _ settle] by metis
    show "reclaim_tokens s' (reclaimer s')"
      using rec slots_invD(8) [OF inv] reclaim_tokens_settles [OF _ settle] by metis
  qed (use claim in blast)+
qed

text \<open>A quiet step of the thread \<open>n\<close>, whatever it does to the registry.\<close>

lemma claim_quiet:
  assumes q: "quiet s s' n t'" and c: "claim s' m = Some tk" "threads s' m = Some u'"
  shows "claim s m = Some tk \<and> (\<exists>u. threads s m = Some u \<and> self u' = self u \<and> ktid u' = ktid u)"
proof -
  obtain u where u: "threads s m = Some u" "like_thread u u'"
    "m \<noteq> n \<Longrightarrow> at u' = at u \<and> slot_identity u' = slot_identity u"
    using q c(2) unfolding quiet_def by blast
  have pc: "at u' = at u \<and> slot_identity u' = slot_identity u \<or> shape (at u') \<noteq> Starting"
  proof (cases "m = n")
    case True
    then have "u' = t'"
      using q c(2) by (simp add: quiet_def)
    then show ?thesis
      using q u(1) True unfolding quiet_def by auto
  qed (use u(3) in simp)
  have "claim_of u (contexts s m) = Some tk"
  proof (cases "valid (slot_identity u')")
    case True
    then show ?thesis
      using c u(2) by (auto simp: claim_def claim_of_def like_thread_def split: if_splits)
  next
    case False
    then obtain x' where x': "contexts s' m = Some x'" "at u' = Start_wait \<or> at u' = Start_adopt" "alive u'"
      "tracked x'" "handshake_state x' \<noteq> PEAK_PTHREAD_START_ABANDONED" "tk = context_token x'"
      using c by (auto simp: claim_def claim_of_def split: if_splits option.splits)
    then have same: "at u' = at u" "slot_identity u' = slot_identity u"
      using pc by auto
    obtain x where "contexts s m = Some x" "like_context x x'"
      using quiet_context [OF q x'(1)] by blast
    then show ?thesis
      using x' same False u(2) by (auto simp: claim_of_def like_context_def like_thread_def)
  qed
  then show ?thesis
    using u by (auto simp: claim_def like_thread_def)
qed

lemma slots_inv_quiet:
  assumes inv: "slots_inv s" and q: "quiet s s' n t'"
    and rel: "releases T K (pthread_slot_registry s) (pthread_slot_registry s')"
    and free: "spares s T K"
    and pc: "(\<exists>t. threads s n = Some t \<and> at t' = at t) \<or> pc_tokens s' (at t')"
    and rec: "reclaimer s' = reclaimer s"
  shows "slots_inv s'"
proof (rule slots_inv_frame [OF inv rel free])
  show "claim s m = Some tk \<and> (\<exists>t. threads s m = Some t \<and> self u' = self t \<and> ktid u' = ktid t)"
    if "claim s' m = Some tk" "threads s' m = Some u'" for m tk u'
    by (rule claim_quiet [OF q that])
  show "\<exists>x. contexts s c = Some x \<and> tracked x \<and> ctx_generation x = ctx_generation x'"
    if "contexts s' c = Some x'" "tracked x'" for c x'
    using quiet_context [OF q that(1)] that(2) by (auto simp: like_context_def context_token_def)
  show "(\<exists>k t. threads s k = Some t \<and> at u' = at t) \<or> pc_tokens s' (at u')" if "threads s' m = Some u'" for m u'
  proof (cases "m = n")
    case True
    then show ?thesis
      using that q pc unfolding quiet_def by auto
  next
    case False
    then show ?thesis
      using that q unfolding quiet_def by blast
  qed
  show "reclaimer s' = reclaimer s \<or> reclaim_tokens s' (reclaimer s')"
    using rec by simp
qed

subsection \<open>The quiet steps\<close>

definition listener_inv :: "pthread_listener \<Rightarrow> bool" where
  "listener_inv s \<longleftrightarrow> contexts_inv s \<and> hand_inv s \<and> slots_inv s"

lemma quiet_actor:
  assumes "threads s n = Some t" "threads s' = (threads s)(n := Some t')" "like_thread t t'"
    and "\<And>c x'. contexts s' c = Some x' \<Longrightarrow> \<exists>x. contexts s c = Some x \<and> like_context x x'"
    and "at t' = at t \<and> slot_identity t' = slot_identity t \<or> shape (at t') \<noteq> Starting"
  shows "quiet s s' n t'"
  using assms unfolding quiet_def by (auto simp: like_thread_def)

lemma like_context_refl [simp]: "like_context x x"
  by (simp add: like_context_def)

lemma quiet_inv:
  assumes inv: "hand_inv s" "slots_inv s" and q: "quiet s s' n t'"
    and rel: "releases T K (pthread_slot_registry s) (pthread_slot_registry s')"
    and free: "spares s T K"
    and hand: "hand_pc s' n (slot_identity t') (at t')" and pc: "pc_tokens s' (at t')"
    and rec: "reclaimer s' = reclaimer s"
  shows "hand_inv s' \<and> slots_inv s'"
proof
  show "hand_inv s'"
    by (rule hand_inv_quiet [OF inv(1) q]) (use hand in blast)
  show "slots_inv s'"
    by (rule slots_inv_quiet [OF inv(2) q rel free _ rec]) (use pc in blast)
qed

text \<open>Moving on with the contexts as they are.\<close>

lemma quiet_move:
  assumes inv: "hand_inv s" "slots_inv s" and t: "threads s n = Some t"
    and s': "threads s' = (threads s)(n := Some t')" "contexts s' = contexts s" "like_thread t t'"
      "shape (at t') \<noteq> Starting"
    and rel: "releases T K (pthread_slot_registry s) (pthread_slot_registry s')"
    and free: "spares s T K"
    and hand: "hand_pc s' n (slot_identity t') (at t')" and pc: "pc_tokens s' (at t')"
    and rec: "reclaimer s' = reclaimer s"
  shows "hand_inv s' \<and> slots_inv s'"
  by (rule quiet_inv [OF inv quiet_actor [OF t s'(1,3)] rel free hand pc rec]) (use s' in auto)

lemma like_thread_at [simp]: "like_thread t (t\<lparr>at := pc\<rparr>)"
  by (simp add: like_thread_def)

lemma registry_refl: "slots_inv s \<Longrightarrow> pthread_slot_registry s' = pthread_slot_registry s \<Longrightarrow>
    releases T K (pthread_slot_registry s) (pthread_slot_registry s')"
  using slots_invD(1) releases_refl by simp

text \<open>A token captured by its \<^verbatim>\<open>pthread_t\<close> is claimed by a thread with that \<^verbatim>\<open>pthread_t\<close> or by none.\<close>

lemma capture_owned:
  assumes "slots_inv s" "capture_thread_token p s = Some tk"
  shows "owned s (\<lambda>p' _. p' = p) tk"
proof -
  let ?r = "pthread_slot_registry s"
  obtain i where i: "occupied (entries ?r i)" "tid (entries ?r i) = p" "token (entries ?r i) = tk"
    using assms(2) find_unlocked_Some
    by (fastforce simp: capture_thread_token_def capture_def split: if_splits option.splits)
  have "slot tk = i"
    using registry_invD(3) [OF slots_invD(1) [OF assms(1)], of i] i by (simp add: entry_ok_def)
  then have "self t = p" if "claim s m = Some tk" "threads s m = Some t" for m t
    using slots_invD(3) [OF assms(1) that] i by (simp add: entry_of_claim_def)
  then show ?thesis
    using slots_invD(2) [OF assms(1) i(1)] i(3) unfolding owned_def by blast
qed

text \<open>Nobody alive has a \<^verbatim>\<open>pthread_t\<close> that denotes an ended thread.\<close>

lemma owned_by_ended:
  assumes "contexts_inv s" "owned s (\<lambda>p' _. p' = p) tk" "handles s p = Some m" "threads s m = Some u" "\<not> alive u"
  shows "gone s tk"
proof -
  have False if c: "claim s n = Some tk" "threads s n = Some t" for n t
  proof -
    have "alive t" "self t = p"
      using claim_thread [OF c(1)] c assms(2) by (auto simp: owned_def)
    then have "handles s p = Some n"
      using contexts_inv_thread [OF assms(1) c(2)] by (simp add: thread_ok_def)
    then show False
      using assms(3-5) c(2) \<open>alive t\<close> by simp
  qed
  then show ?thesis
    using assms(2) unfolding owned_def by blast
qed

lemma settles_threads:
  assumes "threads s' = threads s" "contexts s' = contexts s"
    "next_generation (pthread_slot_registry s') = next_generation (pthread_slot_registry s)"
  shows "settles s s'"
  using assms by (auto simp: settles_def claim_def)

lemma quiet_settles:
  assumes "quiet s s' n t'"
    "next_generation (pthread_slot_registry s') = next_generation (pthread_slot_registry s)"
  shows "settles s s'"
  using claim_quiet [OF assms(1)] assms(2) unfolding settles_def by auto

lemma join_enter_inv:
  assumes inv: "hand_inv s" "slots_inv s" and t: "threads s n = Some t"
  shows "hand_inv (pthread_join_enter p cookie n s) \<and> slots_inv (pthread_join_enter p cookie n s)"
    (is "hand_inv ?s \<and> slots_inv ?s")
proof -
  let ?t = "t\<lparr>at := Join_call p (capture_thread_token p s) cookie\<rparr>"
  have thr: "threads ?s = (threads s)(n := Some ?t)" and frame: "contexts ?s = contexts s"
    "pthread_slot_registry ?s = pthread_slot_registry s" "reclaimer ?s = reclaimer s"
    using t by (simp_all add: pthread_join_enter_def)
  have q: "quiet s ?s n ?t"
    by (rule quiet_actor [OF t thr]) (use frame in auto)
  have "settles s ?s"
    by (rule quiet_settles [OF q]) (use frame in simp)
  then have "pc_tokens ?s (at ?t)"
    using capture_owned [OF inv(2), of p] owned_settles by (cases "capture_thread_token p s") auto
  then show ?thesis
    using quiet_inv [OF inv q registry_refl [OF inv(2) frame(2)], of no_token no_tid] frame by simp
qed

lemma hand_pc_idle: "shape pc = Idle \<Longrightarrow> hand_pc s n i pc"
  by (cases pc) auto

lemma idle_move:
  assumes inv: "hand_inv s" "slots_inv s" and t: "threads s n = Some t"
    and s': "threads s' = (threads s)(n := Some t')" "contexts s' = contexts s" "like_thread t t'"
      "shape (at t') = Idle" "reclaimer s' = reclaimer s"
    and rel: "releases T K (pthread_slot_registry s) (pthread_slot_registry s')" "spares s T K"
    and pc: "pc_tokens s' (at t')"
  shows "hand_inv s' \<and> slots_inv s'"
  by (rule quiet_move [OF inv t s'(1-3) _ rel hand_pc_idle pc s'(5)]) (use s'(4) in simp_all)

lemma application_pc [simp]: "pc_tokens s In_application"
  by simp

lemma detach_enter_inv:
  assumes "hand_inv s" "slots_inv s" "threads s n = Some t"
  shows "hand_inv (pthread_detach_enter p n s) \<and> slots_inv (pthread_detach_enter p n s)"
  by (rule idle_move [OF assms, of _ "t\<lparr>at := Detach_call p (capture_thread_token p s)\<rparr>" no_token no_tid])
     (use assms slots_invD(1) [OF assms(2)] in \<open>simp_all add: pthread_detach_enter_def releases_refl\<close>)

lemma releases_quarantine_ambiguous:
  "slots_inv s \<Longrightarrow> pthread_slot_registry s' = pthread_slot_registry s \<Longrightarrow>
   releases T K (pthread_slot_registry s) (pthread_slot_registry (quarantine_ambiguous_tid p s'))"
  using slots_invD(1) [of s] by (simp add: quarantine_ambiguous_tid_def releases_refl releases_quarantine)

lemma exclude_inv:
  assumes inv: "hand_inv s" "slots_inv s" and t: "threads s n = Some t" "at t = In_application"
  shows "hand_inv (exclude_current_thread n t s) \<and> slots_inv (exclude_current_thread n t s)"
proof (cases "valid (slot_identity t)")
  case True
  let ?t = "t\<lparr>thread_excluded := True, slot_identity := (slot_identity t)\<lparr>valid := False\<rparr>,
      slot_key := slot_key t \<and> slot_key_created s \<noteq> Some True\<rparr>"
  show ?thesis
    by (rule idle_move [OF inv t(1), of _ ?t no_token no_tid])
       (use True t releases_quarantine_ambiguous [OF inv(2)] in
         \<open>simp_all add: exclude_current_thread_def exclude_def Let_def like_thread_def\<close>)
next
  case False
  show ?thesis
    by (rule idle_move [OF inv t(1), of _ "t\<lparr>thread_excluded := True\<rparr>" no_token no_tid])
       (use False t releases_refl [OF slots_invD(1) [OF inv(2)]] in
         \<open>simp_all add: exclude_current_thread_def exclude_def Let_def like_thread_def\<close>)
qed

lemma mark_helper_inv:
  assumes inv: "hand_inv s" "slots_inv s" and t: "threads s n = Some t" "at t = In_application"
  shows "hand_inv (mark_next_created_thread_helper n s) \<and> slots_inv (mark_next_created_thread_helper n s)"
  by (rule idle_move [OF inv t(1), of _ "t\<lparr>next_create_is_helper := True\<rparr>" no_token no_tid])
     (use t releases_refl [OF slots_invD(1) [OF inv(2)]] in \<open>simp_all add: mark_next_created_thread_helper_def like_thread_def\<close>)

lemma terminate_inv:
  assumes inv: "hand_inv s" "slots_inv s" and t: "threads s n = Some t" "at t = In_application"
  shows "hand_inv (terminate n t s) \<and> slots_inv (terminate n t s)"
  by (rule idle_move [OF inv t(1), of _ "t\<lparr>alive := False\<rparr>" no_token no_tid])
     (use t releases_refl [OF slots_invD(1) [OF inv(2)]] in
       \<open>(cases "os_detached t"; simp add: terminate_def like_thread_def)+\<close>)

lemma destructor_inv:
  fixes set_ok :: bool
  assumes inv: "hand_inv s" "slots_inv s" and t: "threads s n = Some t" "at t = In_application"
  defines "s' \<equiv> slot_destructor set_ok n (set_thread n (t\<lparr>slot_key := False\<rparr>) s)"
  shows "hand_inv s' \<and> slots_inv s'"
proof -
  let ?idn = "(slot_identity t)\<lparr>destructor_passes := destructor_passes (slot_identity t) + 1\<rparr>"
  have "\<exists>t'. threads s' = (threads s)(n := Some t') \<and> like_thread t t' \<and> at t' = at t"
  proof (cases "valid (slot_identity t)")
    case False
    then have "threads s' = (threads s)(n := Some (t\<lparr>slot_key := False\<rparr>))"
      by (simp add: s'_def slot_destructor_def)
    then show ?thesis
      by (intro exI) (auto simp: like_thread_def)
  next
    case True
    let ?u = "t\<lparr>slot_key := False\<rparr>"
    let ?t' = "if destructor_passes (slot_identity t) + 1 < PTHREAD_DESTRUCTOR_ITERATIONS
         then ?u\<lparr>slot_identity := ?idn, slot_key := set_ok\<rparr> else ?u\<lparr>slot_identity := ?idn\<rparr>"
    have "threads s' = (threads s)(n := Some ?t')"
      using True by (simp add: s'_def slot_destructor_def Let_def split: prod.split)
    moreover have "like_thread t ?t' \<and> at ?t' = at t"
      by (simp add: like_thread_def identity_token_def)
    ultimately show ?thesis
      by blast
  qed
  then obtain t' where thr: "threads s' = (threads s)(n := Some t')" and t': "like_thread t t'" "at t' = at t"
    by blast
  have frame: "contexts s' = contexts s" "reclaimer s' = reclaimer s"
    by (simp_all add: s'_def slot_destructor_def Let_def split: prod.split)
  have "pthread_slot_registry s' = pthread_slot_registry s \<or>
      pthread_slot_registry s' =
        snd (snd (mark_final_destructor (identity_token ?idn) (pthread_slot_registry s)))"
    by (auto simp: s'_def slot_destructor_def Let_def split: prod.split)
  then have rel: "releases no_token no_tid (pthread_slot_registry s) (pthread_slot_registry s')"
    using slots_invD(1) [OF inv(2)] releases_refl releases_mark_final by metis
  show ?thesis
    by (rule idle_move [OF inv t(1) thr frame(1) _ _ frame(2) rel])
       (use t t' in simp_all)
qed

lemma release_like:
  "contexts (start_context_release c s) d = Some x' \<Longrightarrow> \<exists>x. contexts s d = Some x \<and> like_context x x'"
  by (auto simp: start_context_release_def heap_error_def like_context_def context_token_def
      split: option.splits if_splits)

lemma release_frame [simp]:
  "pthread_slot_registry (start_context_release c s) = pthread_slot_registry s"
  "threads (start_context_release c s) = threads s" "reclaimer (start_context_release c s) = reclaimer s"
  by (simp_all add: start_context_release_def heap_error_def split: option.split)

lemma cleanup_inv:
  assumes inv: "hand_inv s" "slots_inv s" and t: "threads s n = Some t" "at t = In_application"
  shows "hand_inv (start_cleanup n s) \<and> slots_inv (start_cleanup n s)" (is "hand_inv ?s \<and> slots_inv ?s")
proof -
  let ?t = "t\<lparr>exiting := True\<rparr>"
  have thr: "threads ?s = (threads s)(n := Some ?t)" and frame: "reclaimer ?s = reclaimer s"
    "pthread_slot_registry ?s = pthread_slot_registry s"
    using t by (cases "n = 0"; simp add: start_cleanup_def Let_def)+
  have like: "\<exists>x. contexts s c = Some x \<and> like_context x x'" if "contexts ?s c = Some x'" for c x'
    using that release_like [of n "upd_thread (\<lambda>t. t\<lparr>exiting := True\<rparr>) n s" c x']
    by (auto simp: start_cleanup_def Let_def split: if_splits)
  have q: "quiet s ?s n ?t"
    by (rule quiet_actor [OF t(1) thr]) (use like t in \<open>auto simp: like_thread_def\<close>)
  show ?thesis
    by (rule quiet_inv [OF inv q registry_refl [OF inv(2) frame(2)], of no_token no_tid])
       (use frame t in simp_all)
qed

lemma create_failed_inv:
  assumes inv: "hand_inv s" "slots_inv s" and t: "threads s n = Some t" and x: "contexts s c = Some x"
  shows "hand_inv (create_failed c orig n s) \<and> slots_inv (create_failed c orig n s)"
    (is "hand_inv ?s \<and> slots_inv ?s")
proof -
  let ?t = "t\<lparr>at := In_application\<rparr>"
  have thr: "threads ?s = (threads s)(n := Some ?t)" and frame: "reclaimer ?s = reclaimer s"
    "pthread_slot_registry ?s = pthread_slot_registry s" "contexts ?s = (contexts s)(c := None)"
    using t x by (simp_all add: create_failed_def)
  have q: "quiet s ?s n ?t"
    by (rule quiet_actor [OF t thr]) (use frame(3) in \<open>auto split: if_splits\<close>)
  show ?thesis
    by (rule quiet_inv [OF inv q registry_refl [OF inv(2) frame(2)], of no_token no_tid]) (use frame in simp_all)
qed

lemma leave_release_inv:
  assumes inv: "hand_inv s" "slots_inv s" and t: "threads s n = Some t"
  shows "hand_inv (leave_release c orig n s) \<and> slots_inv (leave_release c orig n s)"
    (is "hand_inv ?s \<and> slots_inv ?s")
proof -
  let ?t = "t\<lparr>at := In_application\<rparr>"
  have thr: "threads ?s = (threads s)(n := Some ?t)" and frame: "reclaimer ?s = reclaimer s"
    "pthread_slot_registry ?s = pthread_slot_registry s"
    using t by (simp_all add: leave_release_def)
  have q: "quiet s ?s n ?t"
    by (rule quiet_actor [OF t thr]) (use release_like [of c s] in \<open>auto simp: leave_release_def\<close>)
  show ?thesis
    by (rule quiet_inv [OF inv q registry_refl [OF inv(2) frame(2)], of no_token no_tid]) (use frame in simp_all)
qed

lemma leave_detached_inv:
  assumes inv: "hand_inv s" "slots_inv s" and t: "threads s n = Some t" "at t = Leave_detached c p orig"
    and x: "contexts s c = Some x"
  shows "hand_inv (leave_detached c p orig n s) \<and> slots_inv (leave_detached c p orig n s)"
  by (rule quiet_move [OF inv t(1), of _ "t\<lparr>at := Leave_publish c p orig\<rparr>" no_token no_tid])
     (use t x hand_invD [OF inv(1) t(1)] releases_mark_detached [OF slots_invD(1) [OF inv(2)]] in
       \<open>simp_all add: leave_detached_def hand_ok_def\<close>)

lemma leave_quarantine_inv:
  assumes inv: "hand_inv s" "slots_inv s" and t: "threads s n = Some t" "at t = Leave_quarantine c p orig"
  defines "s' \<equiv> go (Leave_publish c p orig) n (quarantine_ambiguous_tid p s)"
  shows "hand_inv s' \<and> slots_inv s'"
  unfolding s'_def
  by (rule quiet_move [OF inv t(1), of _ "t\<lparr>at := Leave_publish c p orig\<rparr>" no_token no_tid])
     (use t hand_invD [OF inv(1) t(1)] releases_quarantine_ambiguous [OF inv(2)] in
       \<open>simp_all add: hand_ok_def\<close>)

lemma tokens_go:
  assumes "threads s n = Some t" "owned s P tk" "shape pc \<noteq> Starting" "next_generation r = next_generation (pthread_slot_registry s)"
  shows "owned (go pc n (set_registry r s)) P tk"
proof -
  have q: "quiet s (go pc n (set_registry r s)) n (t\<lparr>at := pc\<rparr>)"
    by (rule quiet_actor [OF assms(1)]) (use assms in auto)
  show ?thesis
    by (rule owned_settles [OF assms(2) quiet_settles [OF q]]) (use assms in simp)
qed

lemma releases_generation: "releases T K r r' \<Longrightarrow> next_generation r' = next_generation r"
  by (simp add: releases_def)

lemma join_begin_inv:
  assumes inv: "hand_inv s" "slots_inv s" and t: "threads s n = Some t" "at t = Join_begin tk"
  shows "hand_inv (join_begin_retire tk n s) \<and> slots_inv (join_begin_retire tk n s)"
proof -
  let ?r = "pthread_slot_registry s"
  obtain b r where br: "begin_retire tk ?r = (b, r)"
    by fastforce
  then have rel: "releases no_token no_tid ?r r"
    using releases_begin_retire [OF slots_invD(1) [OF inv(2)], of no_token no_tid tk] by simp
  let ?pc = "if b then Join_retire tk else In_application"
  have eq: "join_begin_retire tk n s = go ?pc n (set_registry r s)"
    by (simp add: join_begin_retire_def br)
  have "pc_tokens (go ?pc n (set_registry r s)) ?pc"
    using tokens_go [OF t(1) _ _ releases_generation [OF rel], of _ tk "Join_retire tk"]
      slots_invD(7) [OF inv(2) t(1)] t(2) by simp
  then show ?thesis
    unfolding eq by (intro idle_move [OF inv t(1), of _ "t\<lparr>at := ?pc\<rparr>" no_token no_tid]) (use t rel in simp_all)
qed

lemma join_complete_inv:
  assumes inv: "hand_inv s" "slots_inv s" and t: "threads s n = Some t" "at t = Join_complete tk reuse"
  shows "hand_inv (join_complete_retire tk reuse n s) \<and> slots_inv (join_complete_retire tk reuse n s)"
  by (rule idle_move [OF inv t(1), of _ "t\<lparr>at := In_application\<rparr>" "\<lambda>tk'. tk' = tk" no_tid])
     (use t slots_invD(7) [OF inv(2) t(1)] releases_complete_retire [OF slots_invD(1) [OF inv(2)]] spares_gone in
       \<open>simp_all add: join_complete_retire_def\<close>)

lemma detach_mark_inv:
  assumes inv: "hand_inv s" "slots_inv s" and t: "threads s n = Some t"
  shows "hand_inv (detach_mark p tk n s) \<and> slots_inv (detach_mark p tk n s)"
  by (rule idle_move [OF inv t(1), of _ "t\<lparr>at := In_application\<rparr>" no_token no_tid])
     (use t releases_mark_detached [OF slots_invD(1) [OF inv(2)], of no_token no_tid p "generation tk"] in
       \<open>simp_all add: detach_mark_def case_prod_beta\<close>)

lemma join_retire_inv:
  assumes inv: "hand_inv s" "slots_inv s" and t: "threads s n = Some t" "at t = Join_retire tk"
  shows "hand_inv (go (Join_complete tk reuse) n s) \<and> slots_inv (go (Join_complete tk reuse) n s)"
proof -
  have "set_registry (pthread_slot_registry s) s = s"
    by (simp add: set_registry_def)
  then have "pc_tokens (go (Join_complete tk reuse) n s) (Join_complete tk reuse)"
    using tokens_go [OF t(1), of _ tk "Join_complete tk reuse" "pthread_slot_registry s"] slots_invD(7) [OF inv(2) t(1)] t(2)
    by simp
  then show ?thesis
    by (intro idle_move [OF inv t(1), of _ "t\<lparr>at := Join_complete tk reuse\<rparr>" no_token no_tid])
       (use t releases_refl [OF slots_invD(1) [OF inv(2)]] in simp_all)
qed

lemma join_return_inv:
  assumes ci: "contexts_inv s" and inv: "hand_inv s" "slots_inv s"
    and t: "threads s n = Some t" "at t = Join_call p captured cookie"
  shows "hand_inv (pthread_join_return ok p captured cookie n s) \<and>
    slots_inv (pthread_join_return ok p captured cookie n s)"
proof (cases "ok \<and> joinable p s")
  case False
  show ?thesis
  proof (cases ok)
    case True
    then show ?thesis
      using False inv by (simp add: pthread_join_return_def)
  next
    case False
    then show ?thesis
      by (intro idle_move [OF inv t(1), of _ "t\<lparr>at := In_application\<rparr>" no_token no_tid])
         (use t releases_refl [OF slots_invD(1) [OF inv(2)]] in \<open>simp_all add: pthread_join_return_def\<close>)
  qed
next
  case True
  then obtain m u where u: "handles s p = Some m" "threads s m = Some u" "\<not> alive u"
    by (auto simp: joinable_def split: option.splits)
  let ?pc = "case captured of None \<Rightarrow> In_application | Some tk \<Rightarrow> Join_begin tk"
  let ?s1 = "emit (Unwind_joined cookie p captured) (s\<lparr>handles := (handles s)(p := None)\<rparr>)"
  have eq: "pthread_join_return ok p captured cookie n s = go ?pc n ?s1"
    using True by (simp add: pthread_join_return_def Let_def split: option.split)
  have q: "quiet s (go ?pc n ?s1) n (t\<lparr>at := ?pc\<rparr>)"
    by (rule quiet_actor [OF t(1)]) (use t in \<open>auto split: option.split\<close>)
  have "settles s (go ?pc n ?s1)"
    by (rule quiet_settles [OF q]) simp
  then have "pc_tokens (go ?pc n ?s1) ?pc"
    using slots_invD(7) [OF inv(2) t(1)] t(2) owned_by_ended [OF ci _ u, THEN owned_settles] by (cases captured) auto
  then show ?thesis
    unfolding eq
    by (intro idle_move [OF inv t(1), of _ "t\<lparr>at := ?pc\<rparr>" no_token no_tid])
       (use t releases_refl [OF slots_invD(1) [OF inv(2)]] in \<open>simp_all split: option.split\<close>)
qed

lemma detach_return_inv:
  assumes inv: "hand_inv s" "slots_inv s" and t: "threads s n = Some t" "at t = Detach_call p captured"
  shows "hand_inv (pthread_detach_return ok p captured n s) \<and> slots_inv (pthread_detach_return ok p captured n s)"
proof (cases "ok \<and> os_detach p s \<noteq> None")
  case False
  show ?thesis
  proof (cases ok)
    case True
    then show ?thesis
      using False inv by (simp add: pthread_detach_return_def)
  next
    case False
    then show ?thesis
      by (intro idle_move [OF inv t(1), of _ "t\<lparr>at := In_application\<rparr>" no_token no_tid])
         (use t releases_refl [OF slots_invD(1) [OF inv(2)]] in \<open>simp_all add: pthread_detach_return_def\<close>)
  qed
next
  case True
  then obtain s1 where s1: "os_detach p s = Some s1"
    by auto
  then obtain m u where u: "threads s m = Some u" "threads s1 = (threads s)(m := Some (u\<lparr>os_detached := True\<rparr>))"
    and frame: "contexts s1 = contexts s" "pthread_slot_registry s1 = pthread_slot_registry s" "reclaimer s1 = reclaimer s"
    by (auto simp: os_detach_def split: option.splits if_splits)
  let ?pc = "case captured of None \<Rightarrow> In_application | Some tk \<Rightarrow> Detach_mark p tk"
  have eq: "pthread_detach_return ok p captured n s = go ?pc n s1"
    using True s1 by (simp add: pthread_detach_return_def split: option.split)
  obtain b where b: "threads s1 n = Some (t\<lparr>os_detached := b\<rparr>)"
    using os_detach_thread [OF s1 t(1)] by blast
  let ?t = "t\<lparr>os_detached := b, at := ?pc\<rparr>"
  have q: "quiet s (go ?pc n s1) n ?t"
    using t u b frame by (auto simp: quiet_def like_thread_def split: option.split if_splits)
  show ?thesis
    unfolding eq
    by (rule quiet_inv [OF inv q, of no_token no_tid])
       (use frame releases_refl [OF slots_invD(1) [OF inv(2)]] in \<open>simp_all split: option.split\<close>)
qed

subsection \<open>Starting a thread\<close>

lemma hand_ok_cong:
  assumes "hand_ok s m u" "contexts s' m = contexts s m"
    and "\<And>c. shape_context (shape (at u)) = Some c \<Longrightarrow> contexts s' c = contexts s c"
    and "\<And>c v'. shape (at u) = Leaving c \<Longrightarrow> threads s' c = Some v' \<Longrightarrow>
      \<exists>v. threads s c = Some v \<and> self v' = self v"
  shows "hand_ok s' m u"
proof -
  have "hand_pc s' m (slot_identity u) (at u)"
    using assms by (cases "at u") (fastforce simp: hand_ok_def)+
  then show ?thesis
    using assms by (auto simp: hand_ok_def)
qed

lemma context_bound:
  assumes "contexts_inv s" "threads s m = Some u" "shape_context (shape (at u)) = Some c"
  shows "c < next_thread s"
  using hook_by_others_bound [OF assms(1), of "Suc m" c] assms(2,3) unfolding hook_by_others_def
  by (metis n_not_Suc_n)

lemma create_enter_inv:
  assumes ci: "contexts_inv s" and inv: "hand_inv s" "slots_inv s" and t: "threads s n = Some t" "at t = In_application"
  shows "hand_inv (create_enter np hb det rt arg n t s) \<and> slots_inv (create_enter np hb det rt arg n t s)"
    (is "hand_inv ?s \<and> slots_inv ?s")
proof
  let ?c = "next_thread s" and ?t = "t\<lparr>next_create_is_helper := False, at := Create_call (next_thread s) (\<not> np)\<rparr>"
  obtain x where ctx: "contexts ?s = (contexts s)(?c := Some x)" and x: "\<not> tracked x"
    "handshake_state x = PEAK_PTHREAD_START_PENDING"
    by (simp add: create_enter_def Let_def)
  have thr: "threads ?s = (threads s)(n := Some ?t)" and frame: "reclaimer ?s = reclaimer s"
    "pthread_slot_registry ?s = pthread_slot_registry s"
    by (simp_all add: create_enter_def Let_def)
  have fresh: "threads s ?c = None" "n \<noteq> ?c"
    using no_thread_beyond [OF ci, of ?c] t(1) by auto
  have like: "threads ?s m = Some u' \<Longrightarrow> \<exists>u. threads s m = Some u \<and> self u' = self u \<and> ktid u' = ktid u \<and>
      claim_of u' (contexts ?s m) = claim_of u (contexts s m)" for m u'
  proof (cases "m = n")
    case True
    assume "threads ?s m = Some u'"
    then have "u' = ?t"
      using True thr by simp
    then show ?thesis
      using True t by (simp add: claim_of_def)
  next
    case False
    assume "threads ?s m = Some u'"
    then have "threads s m = Some u'"
      using False thr by simp
    moreover from this have "m \<noteq> ?c"
      using fresh by auto
    ultimately show ?thesis
      using ctx by simp
  qed
  have selfs: "\<exists>v. threads s d = Some v \<and> self v' = self v" if "threads ?s d = Some v'" for d v'
    using like [OF that] by blast
  show "hand_inv ?s"
    unfolding hand_inv_def
  proof (intro allI impI)
    fix m u
    assume u: "threads ?s m = Some u"
    show "hand_ok ?s m u"
    proof (cases "m = n")
      case True
      then show ?thesis
        using u thr ctx x fresh hand_invD [OF inv(1) t(1)] by (auto simp: hand_ok_def)
    next
      case False
      then have s: "threads s m = Some u"
        using u thr by simp
      moreover have "m \<noteq> ?c"
        using s fresh by auto
      moreover have "c \<noteq> ?c" if "shape_context (shape (at u)) = Some c" for c
        using context_bound [OF ci s that] by simp
      ultimately show ?thesis
        using ctx selfs by (intro hand_ok_cong [OF hand_invD [OF inv(1) s]]) simp_all
    qed
  qed
  show "slots_inv ?s"
  proof (rule slots_inv_frame [OF inv(2), of no_token no_tid])
    show "claim s m = Some tk \<and> (\<exists>t. threads s m = Some t \<and> self t' = self t \<and> ktid t' = ktid t)"
      if "claim ?s m = Some tk" "threads ?s m = Some t'" for m tk t'
      using like [OF that(2)] that by (auto simp: claim_def)
    show "\<exists>y. contexts s c = Some y \<and> tracked y \<and> ctx_generation y = ctx_generation x'"
      if "contexts ?s c = Some x'" "tracked x'" for c x'
      using that ctx x by (auto split: if_splits)
    show "(\<exists>k t. threads s k = Some t \<and> at t' = at t) \<or> pc_tokens ?s (at t')" if "threads ?s m = Some t'" for m t'
      using that thr by (auto split: if_splits)
  qed (use frame releases_refl [OF slots_invD(1) [OF inv(2)]] in simp_all)
qed

lemma create_succeeded_inv:
  assumes ci: "contexts_inv s" and inv: "hand_inv s" "slots_inv s"
    and t: "threads s n = Some t" "at t = Create_call c orig" and x: "contexts s c = Some x"
  shows "hand_inv (create_succeeded p k c orig n s) \<and> slots_inv (create_succeeded p k c orig n s)"
    (is "hand_inv ?s \<and> slots_inv ?s")
proof (cases "handles s p \<noteq> None \<or> k \<le> 0 \<or> task_alive k s")
  case True
  then show ?thesis
    using x inv by (auto simp: create_succeeded_def)
next
  case False
  let ?t = "t\<lparr>at := Leave_register c p orig\<rparr>" and ?u = "new_thread p k (ctx_detached x)"
  have c: "threads s c = None" "c \<noteq> n"
    using contexts_inv_thread [OF ci t(1)] t by (auto simp: thread_ok_def)
  have frame: "contexts ?s = contexts s" "threads ?s = (threads s)(c := Some ?u, n := Some ?t)"
    "pthread_slot_registry ?s = pthread_slot_registry s" "reclaimer ?s = reclaimer s"
    using x False t(1) c by (auto simp: create_succeeded_def)
  have old: "handshake_state x = PEAK_PTHREAD_START_PENDING" "\<not> tracked x" "hand_ok s n t"
    using hand_invD [OF inv(1) t(1)] t(2) x by (auto simp: hand_ok_def)
  show ?thesis
  proof
    show "hand_inv ?s"
      unfolding hand_inv_def
    proof (intro allI impI)
      fix m v
      assume v: "threads ?s m = Some v"
      consider "m = c" "v = ?u" | "m = n" "v = ?t" | "m \<noteq> c" "m \<noteq> n" "threads s m = Some v"
        using v frame(2) c by (auto split: if_splits)
      then show "hand_ok ?s m v"
      proof cases
        case 1
        then show ?thesis
          by (simp add: hand_ok_def new_thread_def)
      next
        case 2
        then show ?thesis
          using old x frame c by (auto simp: hand_ok_def new_thread_def)
      next
        case 3
        have "d \<noteq> c" if "shape (at v) = Leaving d" for d
          using contexts_inv_thread [OF ci 3(3)] that c(1) by (auto simp: thread_ok_def)
        then show ?thesis
          using frame t(1) by (intro hand_ok_cong [OF hand_invD [OF inv(1) 3(3)]]) (auto split: if_splits)
      qed
    qed
    show "slots_inv ?s"
    proof (rule slots_inv_frame [OF inv(2), of no_token no_tid])
      show "claim s m = Some tk \<and> (\<exists>t. threads s m = Some t \<and> self t' = self t \<and> ktid t' = ktid t)"
        if "claim ?s m = Some tk" "threads ?s m = Some t'" for m tk t'
        using that frame t c x old(2)
        by (auto simp: claim_def claim_of_def new_thread_def split: if_splits)
      show "(\<exists>k t. threads s k = Some t \<and> at t' = at t) \<or> pc_tokens ?s (at t')" if "threads ?s m = Some t'" for m t'
        using that frame(2) by (auto simp: new_thread_def split: if_splits)
    qed (use frame releases_refl [OF slots_invD(1) [OF inv(2)]] in auto)
  qed
qed

text \<open>The starting thread \<open>n\<close> goes on, having at most abandoned its own context.\<close>

lemma own_context_inv:
  assumes ci: "contexts_inv s" and inv: "hand_inv s" "slots_inv s"
    and t: "threads s n = Some t" and x: "contexts s n = Some x"
    and s': "threads s' = (threads s)(n := Some t')" "contexts s' = (contexts s)(n := Some x')"
      "self t' = self t" "ktid t' = ktid t" "reclaimer s' = reclaimer s"
    and x': "x' = x \<or> x' = x\<lparr>handshake_state := PEAK_PTHREAD_START_ABANDONED\<rparr>"
    and cl: "claim_of t' (Some x') = None \<or> claim_of t' (Some x') = claim_of t (Some x)"
    and hand: "hand_ok s' n t'" and pc: "pc_tokens s' (at t')"
    and rel: "releases T K (pthread_slot_registry s) (pthread_slot_registry s')" "spares s T K"
  shows "hand_inv s' \<and> slots_inv s'"
proof
  have selfs: "\<exists>v. threads s d = Some v \<and> self v' = self v" if "threads s' d = Some v'" for d v'
    using that s' t by (cases "d = n") auto
  show "hand_inv s'"
    unfolding hand_inv_def
  proof (intro allI impI)
    fix m u
    assume u: "threads s' m = Some u"
    show "hand_ok s' m u"
    proof (cases "m = n")
      case False
      then have s: "threads s m = Some u"
        using u s'(1) by simp
      have creating: "shape (at u) \<noteq> Creating n"
        using contexts_inv_thread [OF ci s] t by (auto simp: thread_ok_def)
      show ?thesis
        using x'
      proof
        assume "x' = x"
        then have "contexts s' = contexts s"
          using s'(2) x by (simp add: fun_eq_iff)
        then show ?thesis
          by (intro hand_ok_cong [OF hand_invD [OF inv(1) s]]) (simp_all add: selfs)
      next
        assume ab: "x' = x\<lparr>handshake_state := PEAK_PTHREAD_START_ABANDONED\<rparr>"
        show ?thesis
          by (rule hand_ok_abandoned [OF hand_invD [OF inv(1) s] False x s'(2) [unfolded ab] creating])
             (rule selfs)
      qed
    qed (use u s'(1) hand in simp)
  qed
  show "slots_inv s'"
  proof (rule slots_inv_frame [OF inv(2) rel])
    show "claim s m = Some tk \<and> (\<exists>t. threads s m = Some t \<and> self u' = self t \<and> ktid u' = ktid t)"
      if "claim s' m = Some tk" "threads s' m = Some u'" for m tk u'
      using that s' t x cl by (cases "m = n") (auto simp: claim_def)
    show "\<exists>y. contexts s c = Some y \<and> tracked y \<and> ctx_generation y = ctx_generation y'"
      if "contexts s' c = Some y'" "tracked y'" for c y'
      using that s'(2) x x' by (cases "c = n") auto
    show "(\<exists>k t. threads s k = Some t \<and> at u' = at t) \<or> pc_tokens s' (at u')" if "threads s' m = Some u'" for m u'
      using that s'(1) pc by (cases "m = n") auto
  qed (use s'(5) in simp)
qed

text \<open>The hook of the creator goes on, having changed the context before the child could go on.\<close>

lemma creator_hand:
  assumes ci: "contexts_inv s" and inv: "hand_inv s"
    and t: "threads s n = Some t" "shape (at t) = Leaving c" and x: "contexts s c = Some x"
      "handshake_state x \<noteq> PEAK_PTHREAD_START_READY"
    and s': "threads s' = (threads s)(n := Some (t\<lparr>at := pc\<rparr>))" "contexts s' = (contexts s)(c := Some x')"
    and hand: "hand_pc s' n (slot_identity t) pc"
  shows "hand_inv s'"
  unfolding hand_inv_def
proof (intro allI impI)
  fix m u
  assume u: "threads s' m = Some u"
  have selfs: "\<exists>v. threads s d = Some v \<and> self v' = self v" if "threads s' d = Some v'" for d v'
    using that s' t by (cases "d = n") auto
  show "hand_ok s' m u"
  proof (cases "m = n")
    case True
    have "n \<noteq> c"
      using contexts_inv_thread [OF ci t(1)] t(2) by (auto simp: thread_ok_def)
    then show ?thesis
      using True u s' hand hand_invD [OF inv t(1)] by (auto simp: hand_ok_def)
  next
    case False
    then have s: "threads s m = Some u"
      using u s'(1) by simp
    then have "shape_context (shape (at u)) \<noteq> Some c"
      using contexts_inv_unique [OF ci s t(1), of c] t(2) False by auto
    then show ?thesis
      using hand_ok_creator [OF hand_invD [OF inv s] x _ s'(2) selfs] by blast
  qed
qed

text \<open>The child of a context that is not ready has no valid identity yet.\<close>

lemma child_unpublished:
  assumes "hand_inv s" "threads s c = Some u" "contexts s c = Some x" "handshake_state x \<noteq> PEAK_PTHREAD_START_READY"
  shows "\<not> valid (slot_identity u)" "at u \<noteq> Start_adopt"
  using hand_invD [OF assms(1,2)] assms(3,4) by (auto simp: hand_ok_def)

lemma start_wait_inv:
  assumes ci: "contexts_inv s" and inv: "hand_inv s" "slots_inv s"
    and t: "threads s n = Some t" "at t = Start_wait" and x: "contexts s n = Some x"
  shows "hand_inv (start_wait ok waits n s) \<and> slots_inv (start_wait ok waits n s)" (is "hand_inv ?s \<and> slots_inv ?s")
proof (cases "wait_ready (start_handshake_timeout_ms s) ok False (map (\<lambda>w. (False, w)) waits) (handshake_state x)")
  case None
  then show ?thesis
    using x inv by (simp add: start_wait_def)
next
  case (Some st)
  note w = wait_ready_alone [OF Some]
  let ?x = "x\<lparr>handshake_state := st\<rparr>"
  let ?adopt = "\<not> skip_tracking x \<and> st = PEAK_PTHREAD_START_READY \<and> tracked x"
  have "\<exists>t'. threads ?s = (threads s)(n := Some t') \<and> self t' = self t \<and> ktid t' = ktid t \<and> alive t' = alive t \<and>
      slot_identity t' = slot_identity t \<and> at t' = (if ?adopt then Start_adopt else In_application)"
    using t x Some by (cases st) (auto simp: start_wait_def call_routine_def exclude_def Let_def intro!: exI)
  then obtain t' where thr: "threads ?s = (threads s)(n := Some t')" and t': "self t' = self t" "ktid t' = ktid t"
    "alive t' = alive t" "slot_identity t' = slot_identity t" "at t' = (if ?adopt then Start_adopt else In_application)"
    by blast
  have frame: "contexts ?s = (contexts s)(n := Some ?x)" "pthread_slot_registry ?s = pthread_slot_registry s"
    "reclaimer ?s = reclaimer s"
    using x Some by (cases st; simp add: start_wait_def call_routine_def exclude_def Let_def)+
  have nv: "\<not> valid (slot_identity t)"
    using hand_invD [OF inv(1) t(1)] t(2) by (simp add: hand_ok_def)
  have x': "?x = x \<or> ?x = x\<lparr>handshake_state := PEAK_PTHREAD_START_ABANDONED\<rparr>"
    using w(2) by auto
  show ?thesis
  proof (rule own_context_inv [OF ci inv t(1) x thr frame(1) t'(1,2) frame(3) x', of no_token no_tid])
    show "claim_of t' (Some ?x) = None \<or> claim_of t' (Some ?x) = claim_of t (Some x)"
      using nv t' t(2) w(2) by (auto simp: claim_of_def context_token_def)
    show "hand_ok ?s n t'"
      using nv t' frame(1) by (auto simp: hand_ok_def)
    show "pc_tokens ?s (at t')"
      using t'(5) by simp
  qed (use frame(2) releases_refl [OF slots_invD(1) [OF inv(2)]] in simp_all)
qed

lemma start_adopt_inv:
  assumes ci: "contexts_inv s" and inv: "hand_inv s" "slots_inv s"
    and t: "threads s n = Some t" "at t = Start_adopt" and x: "contexts s n = Some x"
  shows "hand_inv (start_adopt ok ok2 n s) \<and> slots_inv (start_adopt ok ok2 n s)" (is "hand_inv ?s \<and> slots_inv ?s")
proof -
  obtain b s1 where p: "publish_current_slot ok ok2 (ctx_slot x) (ctx_generation x) n s = (b, s1)"
    by fastforce
  obtain idn k where s1: "threads s1 = (threads s)(n := Some (t\<lparr>slot_identity := idn, slot_key := k\<rparr>))"
    and idn: "b \<Longrightarrow> valid idn \<and> id_slot idn = ctx_slot x \<and> id_generation idn = ctx_generation x"
      "\<not> b \<Longrightarrow> \<not> valid idn \<or> idn = slot_identity t"
    using publish_current_thread [OF p t(1)] by blast
  note f1 = publish_current_simps [OF p]
  have h: "\<not> valid (slot_identity t)" "handshake_state x = PEAK_PTHREAD_START_READY" "tracked x"
    using hand_invD [OF inv(1) t(1)] t(2) x by (auto simp: hand_ok_def)
  let ?mark = "b \<and> tid_mapping_initialized s"
  have "\<exists>t'. threads ?s = (threads s)(n := Some t') \<and> self t' = self t \<and> ktid t' = ktid t \<and> alive t' = alive t \<and>
      slot_identity t' = idn \<and> at t' = (if ?mark then Start_mark else In_application)"
    using x p s1 f1 by (cases b) (auto simp: start_adopt_def call_routine_def intro!: exI)
  then obtain t' where thr: "threads ?s = (threads s)(n := Some t')" and t': "self t' = self t" "ktid t' = ktid t"
    "alive t' = alive t" "slot_identity t' = idn" "at t' = (if ?mark then Start_mark else In_application)"
    by blast
  have frame: "contexts ?s = (contexts s)(n := Some x)" "pthread_slot_registry ?s = pthread_slot_registry s"
    "reclaimer ?s = reclaimer s"
    using x p f1 by (cases b; auto simp: start_adopt_def call_routine_def fun_eq_iff)+
  have tok: "b \<Longrightarrow> identity_token idn = context_token x" "\<not> b \<Longrightarrow> \<not> valid idn" "b \<Longrightarrow> valid idn"
    using idn h(1) by (auto simp: identity_token_def context_token_def)
  show ?thesis
  proof (rule own_context_inv [OF ci inv t(1) x thr frame(1) t'(1,2) frame(3) disjI1 [OF refl], of no_token no_tid])
    show "claim_of t' (Some x) = None \<or> claim_of t' (Some x) = claim_of t (Some x)"
      using h t' t(2) tok by (cases b) (auto simp: claim_of_def)
    show "hand_ok ?s n t'"
      using h t' frame(1) tok by (cases b) (auto simp: hand_ok_def)
    show "pc_tokens ?s (at t')"
      using t'(5) by simp
  qed (use frame(2) releases_refl [OF slots_invD(1) [OF inv(2)]] in simp_all)
qed

lemma start_mark_inv:
  assumes ci: "contexts_inv s" and inv: "hand_inv s" "slots_inv s"
    and t: "threads s n = Some t" "at t = Start_mark" and x: "contexts s n = Some x"
  shows "hand_inv (start_mark n s) \<and> slots_inv (start_mark n s)" (is "hand_inv ?s \<and> slots_inv ?s")
proof -
  let ?K = "\<lambda>tk k. tk = context_token x \<and> k = ktid t" and ?t = "t\<lparr>at := In_application\<rparr>"
  have h: "valid (slot_identity t)" "handshake_state x = PEAK_PTHREAD_START_READY" "tracked x"
    using hand_invD [OF inv(1) t(1)] t(2) x by (auto simp: hand_ok_def)
  have frame: "contexts ?s = (contexts s)(n := Some x)" "reclaimer ?s = reclaimer s"
    "threads ?s = (threads s)(n := Some ?t)"
    "pthread_slot_registry ?s = snd (mark_kernel_tid (context_token x) (ktid t) (pthread_slot_registry s))"
    using x t by (auto simp: start_mark_def call_routine_def context_token_def fun_eq_iff)
  have "token (entries (pthread_slot_registry s) i) = context_token x"
    if "occupied (entries (pthread_slot_registry s) i)" "i = slot (context_token x)"
      "generation (token (entries (pthread_slot_registry s) i)) = generation (context_token x)" for i
    using registry_invD(3) [OF slots_invD(1) [OF inv(2)], of i] that by (simp add: entry_ok_def)
  then have rel: "releases no_token ?K (pthread_slot_registry s) (pthread_slot_registry ?s)"
    unfolding frame(4) by (intro releases_mark_kernel_tid [OF slots_invD(1) [OF inv(2)]]) simp
  have "spares s no_token ?K"
    using slots_invD(6) [OF inv(2) x h(3)] t(1) by (fastforce simp: spares_def context_token_def)
  then show ?thesis
    by (intro own_context_inv [OF ci inv t(1) x frame(3,1) _ _ frame(2) disjI1 [OF refl] _ _ _ rel])
       (use h t(2) frame(1) in \<open>auto simp: claim_of_def hand_ok_def\<close>)
qed

subsection \<open>Leaving the creation of a thread\<close>

lemma creator_inv:
  assumes ci: "contexts_inv s" and inv: "hand_inv s" "slots_inv s"
    and t: "threads s n = Some t" "shape (at t) = Leaving c" and x: "contexts s c = Some x"
      "handshake_state x \<noteq> PEAK_PTHREAD_START_READY"
    and s': "threads s' = (threads s)(n := Some (t\<lparr>at := pc\<rparr>))" "contexts s' = (contexts s)(c := Some x')"
      "reclaimer s' = reclaimer s"
    and hand: "hand_pc s' n (slot_identity t) pc" and pc: "shape pc \<noteq> Starting" "pc_tokens s' pc"
    and x': "tracked x' \<Longrightarrow> tracked x \<and> context_token x' = context_token x"
      "handshake_state x' \<noteq> PEAK_PTHREAD_START_ABANDONED \<Longrightarrow> handshake_state x \<noteq> PEAK_PTHREAD_START_ABANDONED"
    and rel: "releases T K (pthread_slot_registry s) (pthread_slot_registry s')" "spares s T K"
  shows "hand_inv s' \<and> slots_inv s'"
proof
  show "hand_inv s'"
    by (rule creator_hand [OF ci inv(1) t x s'(1,2) hand])
  have nc: "n \<noteq> c"
    using contexts_inv_thread [OF ci t(1)] t(2) by (auto simp: thread_ok_def)
  show "slots_inv s'"
  proof (rule slots_inv_frame [OF inv(2) rel])
    show "claim s m = Some tk \<and> (\<exists>t. threads s m = Some t \<and> self u' = self t \<and> ktid u' = ktid t)"
      if u: "claim s' m = Some tk" "threads s' m = Some u'" for m tk u'
    proof (cases "m = n")
      case True
      then show ?thesis
        using u s' t pc(1) nc by (auto simp: claim_def claim_of_def split: if_splits)
    next
      case False
      then have "threads s m = Some u'"
        using u s'(1) by simp
      moreover from this have "claim s m = Some tk"
        using u s'(2) x x' by (cases "m = c") (auto simp: claim_def claim_of_def split: if_splits)
      ultimately show ?thesis
        by blast
    qed
    show "\<exists>y. contexts s d = Some y \<and> tracked y \<and> ctx_generation y = ctx_generation y'"
      if "contexts s' d = Some y'" "tracked y'" for d y'
      using that s'(2) x x'(1) by (cases "d = c") (auto simp: context_token_def)
    show "(\<exists>k t. threads s k = Some t \<and> at u' = at t) \<or> pc_tokens s' (at u')" if "threads s' m = Some u'" for m u'
      using that s'(1) pc(2) by (cases "m = n") auto
  qed (use s'(3) in simp)
qed

lemma leave_publish_inv:
  assumes ci: "contexts_inv s" and inv: "hand_inv s" "slots_inv s"
    and t: "threads s n = Some t" "at t = Leave_publish c p orig" and x: "contexts s c = Some x"
  shows "hand_inv (leave_publish c p orig n s) \<and> slots_inv (leave_publish c p orig n s)" (is "hand_inv ?s \<and> slots_inv ?s")
proof -
  have nr: "handshake_state x \<noteq> PEAK_PTHREAD_START_READY"
    using hand_invD [OF inv(1) t(1)] t(2) x by (auto simp: hand_ok_def)
  obtain b st where b: "publish_ready (handshake_state x) = (b, st)"
    by fastforce
  have st: "b \<and> handshake_state x = PEAK_PTHREAD_START_PENDING \<or>
      \<not> b \<and> st = PEAK_PTHREAD_START_ABANDONED \<and> handshake_state x = PEAK_PTHREAD_START_ABANDONED"
    using b nr by (cases "handshake_state x") (auto simp: publish_ready_def cas_start_def)
  let ?pc = "if \<not> b \<and> tracked x then Leave_remove c p orig else Leave_release c orig"
  have frame: "threads ?s = (threads s)(n := Some (t\<lparr>at := ?pc\<rparr>))" "contexts ?s = (contexts s)(c := Some (x\<lparr>handshake_state := st\<rparr>))"
    "reclaimer ?s = reclaimer s" "pthread_slot_registry ?s = pthread_slot_registry s"
    using t x b by (simp_all add: leave_publish_def)
  show ?thesis
    by (rule creator_inv [OF ci inv t(1) _ x nr frame(1-3), of no_token no_tid])
       (use st frame t(2) releases_refl [OF slots_invD(1) [OF inv(2)]] in \<open>auto simp: context_token_def\<close>)
qed

lemma leave_remove_inv:
  assumes ci: "contexts_inv s" and inv: "hand_inv s" "slots_inv s"
    and t: "threads s n = Some t" "at t = Leave_remove c p orig" and x: "contexts s c = Some x"
  shows "hand_inv (leave_remove c p orig n s) \<and> slots_inv (leave_remove c p orig n s)" (is "hand_inv ?s \<and> slots_inv ?s")
proof -
  have h: "handshake_state x = PEAK_PTHREAD_START_ABANDONED" "tracked x"
    using hand_invD [OF inv(1) t(1)] t(2) x by (auto simp: hand_ok_def)
  have frame: "threads ?s = (threads s)(n := Some (t\<lparr>at := Leave_release c orig\<rparr>))"
    "contexts ?s = (contexts s)(c := Some (x\<lparr>tracked := False\<rparr>))" "reclaimer ?s = reclaimer s"
    "pthread_slot_registry ?s = snd (compare_remove p (ctx_generation x) True (pthread_slot_registry s))"
    using t x by (simp_all add: leave_remove_def)
  have "claim s c = None"
    using h x child_unpublished [OF inv(1) _ x] by (auto simp: claim_def claim_of_def split: option.splits)
  then have "spares s (\<lambda>tk. generation tk = ctx_generation x) no_tid"
    using slots_invD(6) [OF inv(2) x h(2)] by (fastforce simp: spares_def)
  then show ?thesis
    by (intro creator_inv [OF ci inv t(1) _ x _ frame(1-3)])
       (use h frame t(2) releases_compare_remove [OF slots_invD(1) [OF inv(2)]] in auto)
qed

lemma reserve_insert_failed:
  "reserve_insert p r = (None, r') \<Longrightarrow> r' = snd (quarantine p r)"
  by (auto simp: reserve_insert_def quarantine_def Let_def split: if_splits option.splits prod.splits)

lemma reserve_insert_entries:
  assumes "reserve_insert p r = (Some tk, r')" "j \<noteq> slot tk" "occupied (entries r' j)"
  shows "entries r' j = entries r j"
  using assms
  by (auto simp: reserve_insert_def take_slot_def Let_def discard_entries split: if_splits option.splits)

text \<open>A successful reservation: the only step that makes a claim, of a slot nobody holds and a generation
  nobody has seen.\<close>

lemma reserve_inv:
  assumes ci: "contexts_inv s" and inv: "hand_inv s" "slots_inv s"
    and t: "threads s n = Some t" "at t = Leave_register c p orig" and x: "contexts s c = Some x"
    and res: "reserve_insert p (pthread_slot_registry s) = (Some tk, r)"
    and room: "issued s + 1 < 2 ^ 64"
    and s': "threads s' = (threads s)(n := Some (t\<lparr>at := pc\<rparr>))"
      "contexts s' = (contexts s)(c := Some (x\<lparr>ctx_slot := slot tk, ctx_generation := generation tk, tracked := True\<rparr>))"
      "pthread_slot_registry s' = r" "reclaimer s' = reclaimer s"
    and pc: "pc \<in> {Leave_detached c p orig, Leave_publish c p orig}"
  shows "hand_inv s' \<and> slots_inv s'"
proof
  let ?r = "pthread_slot_registry s"
  let ?x = "x\<lparr>ctx_slot := slot tk, ctx_generation := generation tk, tracked := True\<rparr>"
  have h: "handshake_state x \<noteq> PEAK_PTHREAD_START_READY" "\<not> tracked x" "\<And>u. threads s c = Some u \<Longrightarrow> self u = p"
    using hand_invD [OF inv(1) t(1)] t(2) x by (auto simp: hand_ok_def)
  show "hand_inv s'"
    by (rule creator_hand [OF ci inv(1) t(1) _ x h(1) s'(1,2)]) (use t(2) pc h(1) s'(2) in auto)
  have ini: "initialized ?r"
    using res by (auto simp: reserve_insert_def split: if_splits)
  note ri = slots_invD(1) [OF inv(2)]
  obtain g: "generation tk = bump_generation (next_generation ?r)" and r: "registry_inv r" "slot tk \<notin> held ?r"
    "held r = insert (slot tk) (held ?r)" "next_generation r = generation tk"
    "\<And>j. occupied (entries r j) \<Longrightarrow> j = slot tk \<or> occupied (entries ?r j)"
    "entries r (slot tk) = zero_entry\<lparr>tid := p, token := tk, occupied := True\<rparr>"
    by (rule reserve_insert_cases [OF ri ini, of p]) (use res in auto)
  have new: "unat (generation tk) = issued s + 1" "issued s' = issued s + 1"
    using unat_bump_generation [OF room] g r(4) s'(3) by simp_all
  have nc: "n \<noteq> c"
    using contexts_inv_thread [OF ci t(1)] t(2) by (auto simp: thread_ok_def)
  have claims: "claim s m = Some tk' \<and> m \<noteq> c \<and> (\<exists>v. threads s m = Some v \<and> self u' = self v \<and> ktid u' = ktid v)
      \<or> m = c \<and> tk' = tk \<and> self u' = p"
    if u: "claim s' m = Some tk'" "threads s' m = Some u'" for m tk' u'
  proof (cases "m = c")
    case True
    then have "threads s c = Some u'"
      using u s'(1) nc by simp
    then show ?thesis
      using True u s'(2) h child_unpublished [OF inv(1) _ x h(1)]
      by (auto simp: claim_def claim_of_def context_token_def split: if_splits)
  next
    case False
    then show ?thesis
      using u s'(1,2) t pc by (cases "m = n") (auto simp: claim_def claim_of_def split: if_splits)
  qed
  have old: "unat (generation tk') \<le> issued s" "slot tk' \<in> held ?r" if "claim s m = Some tk'" for m tk'
    using that claim_thread [OF that] slots_invD(3) [OF inv(2) that] by auto
  have settle: "settles s s'"
    using claims new unfolding settles_def by fastforce
  show "slots_inv s'"
    unfolding slots_inv_def s'(3)
  proof (intro conjI allI impI)
    show "unat (generation (token (entries r i))) \<le> unat (next_generation r)" if "occupied (entries r i)" for i
      using r(4,5,6) that reserve_insert_entries [OF res, of i] slots_invD(2) [OF inv(2), of i] new
      by (cases "i = slot tk") auto
    fix m tk' u'
    assume u: "claim s' m = Some tk'" "threads s' m = Some u'"
    consider v where "claim s m = Some tk'" "threads s m = Some v" "self u' = self v" "ktid u' = ktid v"
      | "tk' = tk" "self u' = p"
      using claims [OF u] by blast
    then have "slot tk' \<in> held r \<and> unat (generation tk') \<le> unat (next_generation r) \<and>
        entry_of_claim (entries r (slot tk')) tk' u'"
    proof cases
      case 1
      then have "slot tk' \<noteq> slot tk"
        using old(2) [OF 1(1)] r(2) by auto
      then show ?thesis
        using 1 slots_invD(3) [OF inv(2) 1(1,2)] r(3,4,5) reserve_insert_entries [OF res, of "slot tk'"] new
        by (auto simp: entry_of_claim_def)
    next
      case 2
      then show ?thesis
        using r(3,4,6) by (simp add: entry_of_claim_def zero_entry_def)
    qed
    then show "slot tk' \<in> held r" "unat (generation tk') \<le> unat (next_generation r)"
      "entry_of_claim (entries r (slot tk')) tk' u'"
      by blast+
  next
    show "n' = m" if "claim s' n' = Some k" "claim s' m = Some k'" "slot k = slot k'" for n' m k k'
    proof -
      from claim_thread [OF that(1)] claim_thread [OF that(2)]
      obtain a b where "threads s' n' = Some a" "threads s' m = Some b"
        by blast
      then show ?thesis
        using claims [OF that(1)] claims [OF that(2)] slots_invD(4) [OF inv(2), of n' k m k'] that(3) old r(2) by metis
    qed
    fix d y
    assume y: "contexts s' d = Some y" "tracked y"
    show "unat (ctx_generation y) \<le> unat (next_generation r)"
      using y s'(2) slots_invD(5) [OF inv(2), of d y] r(4) new by (cases "d = c") auto
    show "m = d" if "claim s' m = Some k" "generation k = ctx_generation y" for m k
    proof -
      from claim_thread [OF that(1)] obtain a where a: "threads s' m = Some a"
        by blast
      show ?thesis
      proof (cases "d = c")
        case True
        then have "generation k = generation tk"
          using y(1) s'(2) that(2) by auto
        then show ?thesis
          using claims [OF that(1) a] old(1) [of m k] new(1) True by auto
      next
        case False
        then have d: "contexts s d = Some y"
          using y(1) s'(2) by simp
        show ?thesis
          using claims [OF that(1) a] slots_invD(5) [OF inv(2) d y(2)] slots_invD(6) [OF inv(2) d y(2), of m k] that(2) new(1)
          by auto
      qed
    qed
  next
    show "pc_tokens s' (at u)" if "threads s' m = Some u" for m u
      using that s'(1) pc slots_invD(7) [OF inv(2), of m u, THEN pc_tokens_settles [OF _ settle]] by (cases "m = n") auto
    show "reclaim_tokens s' (reclaimer s')"
      using s'(4) reclaim_tokens_settles [OF slots_invD(8) [OF inv(2)] settle] by simp
  qed (rule r(1))
qed

lemma leave_register_inv:
  assumes ci: "contexts_inv s" and inv: "hand_inv s" "slots_inv s"
    and t: "threads s n = Some t" "at t = Leave_register c p orig" and x: "contexts s c = Some x"
    and room: "issued s + 1 < 2 ^ 64"
  shows "hand_inv (leave_register c p orig n s) \<and> slots_inv (leave_register c p orig n s)"
proof -
  have h: "handshake_state x \<noteq> PEAK_PTHREAD_START_READY"
    using hand_invD [OF inv(1) t(1)] t(2) x by (auto simp: hand_ok_def)
  have quiet: "hand_inv (go pc n (set_registry r s)) \<and> slots_inv (go pc n (set_registry r s))"
    if "releases no_token no_tid (pthread_slot_registry s) r" "pc \<in> {Leave_publish c p orig, Leave_quarantine c p orig}"
    for r pc
    by (rule quiet_move [OF inv t(1), of _ "t\<lparr>at := pc\<rparr>" no_token no_tid]) (use that t h x in auto)
  have same: "set_registry (pthread_slot_registry s) s = s"
    by (simp add: set_registry_def)
  note ri = slots_invD(1) [OF inv(2)]
  show ?thesis
  proof (cases "tid_mapping_initialized s \<and> \<not> skip_tracking x")
    case False
    then show ?thesis
      using quiet [OF releases_refl [OF ri]] x unfolding same by (auto simp: leave_register_def)
  next
    case True
    show ?thesis
    proof (cases "reserve_insert p (pthread_slot_registry s)")
      case (Pair tko r)
      show ?thesis
      proof (cases tko)
        case None
        then show ?thesis
          using True Pair x quiet [of r] reserve_insert_failed [of p "pthread_slot_registry s" r] releases_quarantine [OF ri]
          by (simp add: leave_register_def)
      next
        case (Some tk)
        show ?thesis
          by (rule reserve_inv [OF ci inv t x Pair [unfolded Some] room,
                where pc = "if ctx_detached x then Leave_detached c p orig else Leave_publish c p orig"])
             (use True Pair Some x t in \<open>simp_all add: leave_register_def\<close>)
      qed
    qed
  qed
qed

subsection \<open>The scan\<close>

lemma hand_inv_same: "threads s' = threads s \<Longrightarrow> contexts s' = contexts s \<Longrightarrow> hand_inv s' = hand_inv s"
proof -
  assume a: "threads s' = threads s" "contexts s' = contexts s"
  have "hand_pc s' n i pc = hand_pc s n i pc" for n i pc
    using a by (cases pc) simp_all
  then show "hand_inv s' = hand_inv s"
    using a by (simp add: hand_inv_def hand_ok_def)
qed

lemma scan_inv:
  assumes inv: "hand_inv s" "slots_inv s" and same: "threads s' = threads s" "contexts s' = contexts s"
    and rel: "releases T K (pthread_slot_registry s) (pthread_slot_registry s')" "spares s T K"
    and rec: "reclaim_tokens s (reclaimer s')"
  shows "hand_inv s' \<and> slots_inv s'"
proof
  show "hand_inv s'"
    using inv(1) hand_inv_same [OF same] by simp
  have settle: "settles s s'"
    using settles_threads [OF same] releases_generation [OF rel(1)] by simp
  have claim: "claim s' m = claim s m" for m
    unfolding claim_def same ..
  show "slots_inv s'"
    by (rule slots_inv_frame [OF inv(2) rel])
       (use same claim reclaim_tokens_settles [OF rec settle] in auto)
qed

lemma snapshot_candidates:
  assumes "slots_inv s" "snapshot_exit_pending b (pthread_slot_registry s) = (cs, examined, r)"
  shows "candidates_ok s cs"
  unfolding candidates_ok_def
proof
  fix cand
  assume "cand \<in> set cs"
  let ?r = "pthread_slot_registry s"
  obtain i where i: "occupied (entries ?r i)" "exit_pending (entries ?r i)"
    and cand: "cand = \<lparr>cand_token = token (entries ?r i), cand_kernel_tid = kernel_tid (entries ?r i)\<rparr>"
    using assms(2) \<open>cand \<in> set cs\<close> by (auto simp: snapshot_exit_pending_def Let_def split: if_splits)
  have e: "slot (token (entries ?r i)) = i" "kernel_tid (entries ?r i) > 0"
    using registry_invD(3) [OF slots_invD(1) [OF assms(1)], of i] i by (auto simp: entry_ok_def)
  have "ktid t = kernel_tid (entries ?r i)"
    if "claim s m = Some (token (entries ?r i))" "threads s m = Some t" for m t
    using slots_invD(3) [OF assms(1) that] e i by (auto simp: entry_of_claim_def)
  then show "owned s (\<lambda>_ k. k = cand_kernel_tid cand) (cand_token cand)"
    using slots_invD(2) [OF assms(1) i(1)] by (simp add: cand owned_def)
qed

lemma absent_task:
  assumes "contexts_inv s" "owned s (\<lambda>_ k. k = kt) tk" "\<not> task_alive kt s"
  shows "gone s tk"
proof -
  have False if c: "claim s m = Some tk" "threads s m = Some t" for m t
  proof -
    have "alive t" "ktid t = kt" "m < next_thread s"
      using claim_thread [OF c(1)] c assms(2) contexts_inv_thread [OF assms(1) c(2)]
      by (auto simp: owned_def thread_ok_def)
    then have "task_alive kt s"
      using c(2) by (auto simp: task_alive_def list_ex_iff intro!: bexI [of _ m])
    then show False
      using assms(3) by simp
  qed
  then show ?thesis
    using assms(2) unfolding owned_def by blast
qed

lemma reclaim_step_inv:
  assumes ci: "contexts_inv s" and inv: "hand_inv s" "slots_inv s"
  shows "hand_inv (reclaim_step answer reuse s) \<and> slots_inv (reclaim_step answer reuse s)"
    (is "hand_inv ?s \<and> slots_inv ?s")
proof -
  note ri = slots_invD(1) [OF inv(2)] and tokens = slots_invD(8) [OF inv(2)]
  let ?r = "pthread_slot_registry s"
  show ?thesis
  proof (cases "reclaimer s")
    case Reclaim_idle
    then show ?thesis
      using inv by (simp add: reclaim_step_def)
  next
    case (Reclaim_locked now)
    show ?thesis
    proof (cases "snapshot_exit_pending PEAK_PTHREAD_RECLAIM_SCAN_BUDGET ?r")
      case (fields cs examined r)
      then show ?thesis
        using Reclaim_locked snapshot_candidates [OF inv(2) fields] releases_refl [OF ri]
          releases_snapshot [OF ri, of no_token no_tid PEAK_PTHREAD_RECLAIM_SCAN_BUDGET]
        by (intro scan_inv [OF inv, of _ no_token no_tid]) (auto simp: reclaim_step_def reclaim_snapshot_def)
    qed
  next
    case (Reclaim_next cs did_work)
    show ?thesis
    proof (cases cs)
      case Nil
      then show ?thesis
        using Reclaim_next releases_refl [OF ri]
        by (intro scan_inv [OF inv, of _ no_token no_tid]) (simp_all add: reclaim_step_def reclaim_candidate_def)
    next
      case (Cons cand ds)
      have ok: "candidates_ok s ds" "owned s (\<lambda>_ k. k = cand_kernel_tid cand) (cand_token cand)"
        using tokens Reclaim_next Cons by (simp_all add: candidates_ok_def)
      show ?thesis
      proof (cases "answer = Task_absent \<and> task_alive (cand_kernel_tid cand) s")
        case True
        then show ?thesis
          using Reclaim_next Cons inv by (simp add: reclaim_step_def reclaim_candidate_def)
      next
        case False
        then show ?thesis
          using Reclaim_next Cons ok absent_task [OF ci ok(2)] releases_refl [OF ri]
          by (intro scan_inv [OF inv, of _ no_token no_tid])
             (cases answer; simp add: reclaim_step_def reclaim_candidate_def)+
      qed
    qed
  next
    case (Reclaim_begin tk cs did_work)
    show ?thesis
    proof (cases "begin_retire tk ?r")
      case (Pair b r)
      then show ?thesis
        using Reclaim_begin tokens releases_begin_retire [OF ri, of no_token no_tid tk]
        by (intro scan_inv [OF inv, of _ no_token no_tid]) (cases b; simp add: reclaim_step_def)+
    qed
  next
    case (Reclaim_retire tk cs did_work)
    then show ?thesis
      using tokens releases_refl [OF ri]
      by (intro scan_inv [OF inv, of _ no_token no_tid]) (simp_all add: reclaim_step_def)
  next
    case (Reclaim_defer tk cs did_work)
    then show ?thesis
      using tokens releases_defer_retire [OF ri]
      by (intro scan_inv [OF inv, of _ no_token no_tid]) (simp_all add: reclaim_step_def)
  next
    case (Reclaim_complete tk cs did_work)
    show ?thesis
    proof (cases "complete_retire tk True ?r")
      case (Pair b r)
      then show ?thesis
        using Reclaim_complete tokens releases_complete_retire [OF ri, of tk no_tid True] spares_gone
        by (intro scan_inv [OF inv, of _ "\<lambda>tk'. tk' = tk" no_tid]) (cases b; simp add: reclaim_step_def)+
    qed
  qed
qed

subsection \<open>Every step\<close>

lemma application_call_inv:
  assumes ci: "contexts_inv s" and inv: "hand_inv s" "slots_inv s" and t: "threads s n = Some t" "at t = In_application"
  shows "hand_inv (application_call c n t s) \<and> slots_inv (application_call c n t s)"
  using inv create_enter_inv [OF ci inv t] join_enter_inv [OF inv t(1)] detach_enter_inv [OF inv t(1)] exclude_inv [OF inv t]
    mark_helper_inv [OF inv t] cleanup_inv [OF inv t] destructor_inv [OF inv t] terminate_inv [OF inv t]
  by (cases c) simp_all

lemma start_action_inv:
  assumes ci: "contexts_inv s" and inv: "hand_inv s" "slots_inv s" and t: "threads s n = Some t"
  shows "hand_inv (start_action (at t) ok waits ok2 n s) \<and> slots_inv (start_action (at t) ok waits ok2 n s)"
proof (cases "shape (at t) = Starting")
  case True
  then obtain x where "contexts s n = Some x"
    using starting_context [OF ci t] by blast
  then show ?thesis
    using True inv start_wait_inv [OF ci inv t] start_adopt_inv [OF ci inv t] start_mark_inv [OF ci inv t]
    by (cases "at t") simp_all
next
  case False
  then show ?thesis
    using inv by (cases "at t") simp_all
qed

lemma create_action_inv:
  assumes ci: "contexts_inv s" and inv: "hand_inv s" "slots_inv s" and t: "threads s n = Some t"
  shows "hand_inv (create_action (at t) res n s) \<and> slots_inv (create_action (at t) res n s)"
proof (cases "at t")
  case (Create_call c orig)
  have "hook_ref s c"
    using hook_ref_split [OF t] Create_call by simp
  moreover have "0 < c" "threads s c = None"
    using contexts_inv_thread [OF ci t] Create_call by (simp_all add: thread_ok_def)
  ultimately obtain x where "contexts s c = Some x"
    using contexts_inv_refs(3,5) [OF ci, of c] by (cases "contexts s c") (auto simp: child_ref_def)
  then show ?thesis
    using Create_call create_failed_inv [OF inv t] create_succeeded_inv [OF ci inv t Create_call]
    by (cases res) auto
qed (use inv in simp_all)

lemma proceed_action_inv:
  assumes ci: "contexts_inv s" and inv: "hand_inv s" "slots_inv s" and t: "threads s n = Some t"
    and room: "issued s + 1 < 2 ^ 64"
  shows "hand_inv (proceed_action (at t) n s) \<and> slots_inv (proceed_action (at t) n s)"
proof (cases "\<exists>c. shape (at t) = Leaving c")
  case True
  then obtain c x where "shape (at t) = Leaving c" "contexts s c = Some x"
    using leaving_context [OF ci t] by blast
  then show ?thesis
    using leave_register_inv [OF ci inv t _ _ room] leave_detached_inv [OF inv t] leave_quarantine_inv [OF inv t]
      leave_publish_inv [OF ci inv t] leave_remove_inv [OF ci inv t] leave_release_inv [OF inv t]
    by (cases "at t") auto
next
  case False
  then show ?thesis
    using inv join_begin_inv [OF inv t] join_complete_inv [OF inv t] detach_mark_inv [OF inv t]
    by (cases "at t") auto
qed

lemma return_action_inv:
  assumes ci: "contexts_inv s" and inv: "hand_inv s" "slots_inv s" and t: "threads s n = Some t"
  shows "hand_inv (return_action (at t) ok n s) \<and> slots_inv (return_action (at t) ok n s)"
  using inv join_return_inv [OF ci inv t] join_retire_inv [OF inv t] detach_return_inv [OF inv t]
  by (cases "at t") auto

lemma listener_step_inv:
  assumes inv: "listener_inv s" and room: "issued s + 1 < 2 ^ 64"
  shows "listener_inv (listener_step a s)"
proof -
  have ci: "contexts_inv s" and hs: "hand_inv s" "slots_inv s"
    using inv by (simp_all add: listener_inv_def)
  have "hand_inv (listener_step a s) \<and> slots_inv (listener_step a s)"
  proof (cases a)
    case (Reclaim_scan now)
    then show ?thesis
      using hs releases_refl [OF slots_invD(1) [OF hs(2)]] slots_invD(8) [OF hs(2)]
      by (intro scan_inv [OF hs, of _ no_token no_tid]) (auto simp: reclaim_start_def split: option.split)
  qed (use hs application_call_inv [OF ci hs] start_action_inv [OF ci hs] create_action_inv [OF ci hs]
        proceed_action_inv [OF ci hs _ room] return_action_inv [OF ci hs] reclaim_step_inv [OF ci hs] in
      \<open>simp_all add: with_thread_def split: option.split\<close>)
  then show ?thesis
    using listener_step_contexts [OF ci] by (simp add: listener_inv_def)
qed

subsection \<open>Runs\<close>

text \<open>The listener is a client of the registry: a step makes at most one call of it.\<close>

definition calls_registry :: "PeakPthreadSlotRegistry \<Rightarrow> PeakPthreadSlotRegistry \<Rightarrow> bool" where
  "calls_registry r r' \<longleftrightarrow> r' = r \<or> (\<exists>op. r' = slot_step op r)"

lemma calls_refl [simp]: "calls_registry r r"
  by (simp add: calls_registry_def)

lemma calls_registry_ops [simp]:
  "calls_registry r (snd (reserve_insert p r))" "calls_registry r (snd (compare_remove p g b r))"
  "calls_registry r (snd (begin_retire tk r))" "calls_registry r (snd (complete_retire tk b r))"
  "calls_registry r (snd (defer_retire tk r))" "calls_registry r (snd (mark_kernel_tid tk k r))"
  "calls_registry r (snd (snd (mark_detached p g r)))" "calls_registry r (snd (snd (mark_final_destructor tk r)))"
  "calls_registry r (snd (snd (snapshot_exit_pending b' r)))" "calls_registry r (snd (quarantine p r))"
  unfolding calls_registry_def by (metis slot_step.simps)+

lemma calls_registry_reserve: "reserve_insert p r = (tko, r') \<Longrightarrow> calls_registry r r'"
  using calls_registry_ops(1) [of r p] by simp

lemma call_routine_registry [simp]: "pthread_slot_registry (call_routine n s) = pthread_slot_registry s"
  by (simp add: call_routine_def heap_error_def split: option.split)

lemma heap_error_registry [simp]: "pthread_slot_registry (heap_error s) = pthread_slot_registry s"
  by (simp add: heap_error_def)

lemma quarantine_ambiguous_calls [simp]:
  "calls_registry r (pthread_slot_registry s) \<Longrightarrow> pthread_slot_registry s = r \<Longrightarrow>
   calls_registry r (pthread_slot_registry (quarantine_ambiguous_tid p s))"
  by (simp add: quarantine_ambiguous_tid_def)

lemma application_call_registry:
  "calls_registry (pthread_slot_registry s) (pthread_slot_registry (application_call c n t s))"
proof (cases c)
  case (Run_destructor set_ok)
  then show ?thesis
    by (simp add: slot_destructor_def Let_def case_prod_beta split: option.split)
qed (simp_all add: create_enter_def pthread_join_enter_def pthread_detach_enter_def exclude_current_thread_def exclude_def
    mark_next_created_thread_helper_def start_cleanup_def terminate_def Let_def)

lemma start_action_registry:
  "calls_registry (pthread_slot_registry s) (pthread_slot_registry (start_action pc ok waits ok2 n s))"
proof (cases pc)
  case Start_adopt
  have "pthread_slot_registry s1 = pthread_slot_registry s"
    if "publish_current_slot ko so sl g n s = (b, s1)" for ko so sl g b s1
    using publish_current_simps [OF that] by simp
  then show ?thesis
    using Start_adopt by (simp add: start_adopt_def split: option.split prod.split bool.split)
qed (simp_all add: start_wait_def start_mark_def exclude_def Let_def split: option.split)

lemma listener_step_registry:
  "calls_registry (pthread_slot_registry s) (pthread_slot_registry (listener_step a s))"
proof (cases a)
  case (Create_returns n res)
  have "pthread_slot_registry (create_action pc res n s) = pthread_slot_registry s" for pc
    by (cases "(pc, res, n, s)" rule: create_action.cases)
       (simp_all add: create_failed_def create_succeeded_def split: option.split)
  then show ?thesis
    using Create_returns by (simp add: with_thread_def split: option.split)
next
  case (Proceed n)
  have "calls_registry (pthread_slot_registry s) (pthread_slot_registry (proceed_action pc n s))" for pc
  proof (cases pc)
    case (Leave_register c p orig)
    then show ?thesis
      by (simp add: leave_register_def calls_registry_reserve split: option.split prod.split)
  qed (simp_all add: leave_detached_def leave_publish_def leave_remove_def leave_release_def
      join_begin_retire_def join_complete_retire_def detach_mark_def case_prod_beta split: option.split)
  then show ?thesis
    using Proceed by (simp add: with_thread_def split: option.split)
next
  case (Returns n ok)
  have "pthread_slot_registry s' = pthread_slot_registry s" if "os_detach p s = Some s'" for p s'
    using that by (auto simp: os_detach_def split: option.splits if_splits)
  then have "pthread_slot_registry (return_action pc ok n s) = pthread_slot_registry s" for pc
    by (cases pc) (simp_all add: pthread_join_return_def pthread_detach_return_def Let_def split: option.split)
  then show ?thesis
    using Returns by (simp add: with_thread_def split: option.split)
next
  case (Reclaim answer reuse)
  then show ?thesis
    by (simp add: reclaim_step_def reclaim_snapshot_def reclaim_candidate_def case_prod_beta
        split: reclaim_pc.split list.split task_stat.split bool.split)
qed (simp_all add: with_thread_def application_call_registry start_action_registry reclaim_start_def split: option.split)

lemma issued_step:
  assumes "listener_inv s" "issued s + 1 < 2 ^ 64"
  shows "issued (listener_step a s) \<le> issued s + 1"
proof -
  have ri: "registry_inv (pthread_slot_registry s)"
    using assms(1) slots_invD(1) by (simp add: listener_inv_def)
  have "next_generation (pthread_slot_registry (listener_step a s)) \<in>
      {next_generation (pthread_slot_registry s), bump_generation (next_generation (pthread_slot_registry s))}"
    using listener_step_registry [of s a] generation_step [OF ri] unfolding calls_registry_def by (metis insertI1)
  then show ?thesis
    using unat_bump_generation [OF assms(2)] by auto
qed

lemma listener_run_inv:
  assumes "listener_inv s" "issued s + length acts < 2 ^ 64"
  shows "listener_inv (fold listener_step acts s)"
  using assms
proof (induction acts arbitrary: s)
  case (Cons a acts)
  have room: "issued s + 1 < 2 ^ 64"
    using Cons.prems(2) by simp
  have "listener_inv (fold listener_step acts (listener_step a s))"
    using listener_step_inv [OF Cons.prems(1) room] issued_step [OF Cons.prems(1) room, of a] Cons.prems(2)
    by (intro Cons.IH) simp_all
  then show ?case
    by simp
qed simp

text \<open>Right after attaching there is one thread, which claims the slot of its identity or none.\<close>

lemma single_thread_inv:
  assumes thr: "threads s = (\<lambda>_. None)(0 := Some t)" and t: "alive t" "\<not> exiting t" "at t = In_application"
    and os: "handles s (self t) = Some 0" "contexts s = (\<lambda>_. None)" "next_thread s = 1" "\<not> heap_fault s"
      "reclaimer s = Reclaim_idle"
    and r: "registry_inv (pthread_slot_registry s)"
      "\<And>i. occupied (entries (pthread_slot_registry s) i) \<Longrightarrow>
         unat (generation (token (entries (pthread_slot_registry s) i))) \<le> issued s"
    and cl: "valid (slot_identity t) \<Longrightarrow>
        id_slot (slot_identity t) \<in> held (pthread_slot_registry s) \<and> unat (id_generation (slot_identity t)) \<le> issued s \<and>
        entry_of_claim (entries (pthread_slot_registry s) (id_slot (slot_identity t))) (identity_token (slot_identity t)) t"
  shows "listener_inv s"
  unfolding listener_inv_def
proof (intro conjI)
  show "contexts_inv s"
    by (rule contexts_invI)
       (use thr t os in \<open>auto simp: thread_ok_def refs_def hook_ref_def child_ref_def split: if_splits\<close>)
  show "hand_inv s"
    using thr t os by (auto simp: hand_inv_def hand_ok_def)
  have claim: "claim s m = Some tk \<longleftrightarrow> m = 0 \<and> valid (slot_identity t) \<and> tk = identity_token (slot_identity t)" for m tk
    using thr t os by (auto simp: claim_def claim_of_def)
  show "slots_inv s"
    unfolding slots_inv_def using r cl thr t os claim by (auto simp: identity_token_def split: if_splits)
qed

lemma zero_registry_inv: "registry_inv zero_registry"
  by (auto simp: registry_inv_def queue_ok_def entry_ok_def reusable_list_def pending_set_def zero_registry_def
      zero_entry_def PEAK_PTHREAD_SLOT_REGISTRY_MAX_CAPACITY_def)

lemma listener_zero_simps [simp]:
  "threads (listener_zero p k d ms) = (\<lambda>_. None)(0 := Some ((new_thread p k False)\<lparr>at := In_application\<rparr>))"
  "handles (listener_zero p k d ms) p = Some 0" "contexts (listener_zero p k d ms) = (\<lambda>_. None)"
  "next_thread (listener_zero p k d ms) = 1" "\<not> heap_fault (listener_zero p k d ms)"
  "reclaimer (listener_zero p k d ms) = Reclaim_idle" "pthread_slot_registry (listener_zero p k d ms) = zero_registry"
  by (simp_all add: listener_zero_def)

lemma attached_inv:
  assumes thr: "threads s = (\<lambda>_. None)(0 := Some ((new_thread p k False)\<lparr>at := In_application\<rparr>))"
    and os: "handles s p = Some 0" "contexts s = (\<lambda>_. None)" "next_thread s = 1" "\<not> heap_fault s"
      "reclaimer s = Reclaim_idle"
    and r: "registry_inv (pthread_slot_registry s)" "initialized (pthread_slot_registry s)"
      "\<And>i. \<not> occupied (entries (pthread_slot_registry s) i)" "next_generation (pthread_slot_registry s) = 0"
  shows "listener_inv (snd (insert_thread ko so p 0 s)) \<and> issued (snd (insert_thread ko so p 0 s)) \<le> 1"
proof (rule reserve_insert_cases [OF r(1,2), of p])
  let ?t = "(new_thread p k False)\<lparr>at := In_application\<rparr>"
  fix d
  assume d: "reserve_insert p (pthread_slot_registry s) = (None, d)" "registry_inv d"
    "next_generation d = next_generation (pthread_slot_registry s)"
    "\<And>j. occupied (entries d j) \<longleftrightarrow> occupied (entries (pthread_slot_registry s) j) \<and> tid (entries (pthread_slot_registry s) j) \<noteq> p"
  show ?thesis
    using d r thr os by (auto simp: insert_thread_def new_thread_def intro!: single_thread_inv)
next
  fix sl g r'
  assume got: "g = bump_generation (next_generation (pthread_slot_registry s))"
    "reserve_insert p (pthread_slot_registry s) = (Some \<lparr>slot = sl, generation = g\<rparr>, r')" "registry_inv r'"
    "held r' = insert sl (held (pthread_slot_registry s))" "next_generation r' = g"
    "\<And>j. occupied (entries r' j) \<longleftrightarrow> j = sl \<or> occupied (entries (pthread_slot_registry s) j) \<and> tid (entries (pthread_slot_registry s) j) \<noteq> p"
    "entries r' sl = zero_entry\<lparr>tid := p, token := \<lparr>slot = sl, generation = g\<rparr>, occupied := True\<rparr>"
  let ?t = "(new_thread p k False)\<lparr>at := In_application\<rparr>"
  obtain b s1 where p: "publish_current_slot ko so sl g 0 (set_registry r' s) = (b, s1)"
    by fastforce
  have t0: "threads (set_registry r' s) 0 = Some ?t"
    using thr by simp
  obtain idn key where thr1: "threads s1 = (threads s)(0 := Some (?t\<lparr>slot_identity := idn, slot_key := key\<rparr>))"
    and idn: "b \<Longrightarrow> valid idn \<and> id_slot idn = sl \<and> id_generation idn = g" "\<not> b \<Longrightarrow> \<not> valid idn"
    using publish_current_thread [OF p t0] by (auto simp: new_thread_def)
  note f1 = publish_current_simps [OF p, simplified]
  let ?r = "if b then r' else snd (compare_remove p g True r')"
  have eq: "snd (insert_thread ko so p 0 s) = set_registry ?r s1"
    using got(2) p f1 by (cases b) (simp_all add: insert_thread_def set_registry_def)
  have rel: "releases (\<lambda>tk. generation tk = g) no_tid r' ?r"
    using releases_compare_remove [OF got(3)] releases_refl [OF got(3)] by simp
  have occ: "occupied (entries ?r i) \<Longrightarrow> i = sl \<and> token (entries ?r i) = \<lparr>slot = sl, generation = g\<rparr>" for i
    using rel got(6,7) r(3) unfolding releases_def by fastforce
  have ng: "next_generation ?r = g" and ri: "registry_inv ?r"
    using rel got(5) by (simp_all add: releases_def)
  have g: "unat g \<le> 1"
    using got(1) r(4) by (simp add: bump_generation_def)
  have "listener_inv (set_registry ?r s1)"
  proof (rule single_thread_inv)
    show "threads (set_registry ?r s1) = (\<lambda>_. None)(0 := Some (?t\<lparr>slot_identity := idn, slot_key := key\<rparr>))"
      using thr1 thr by simp
    show "unat (generation (token (entries (pthread_slot_registry (set_registry ?r s1)) i))) \<le> issued (set_registry ?r s1)"
      if "occupied (entries (pthread_slot_registry (set_registry ?r s1)) i)" for i
      using occ [of i] that ng by (cases b) auto
  qed (use f1 os ng ri idn got(4,7) in \<open>auto simp: new_thread_def entry_of_claim_def zero_entry_def identity_token_def\<close>)
  then show ?thesis
    using eq ng g by simp
qed

lemma attach_inv:
  "listener_inv (listener_attach mo ko so dok ms cap p k) \<and> issued (listener_attach mo ko so dok ms cap p k) \<le> 1"
proof -
  let ?z = "listener_zero p k dok ms"
  obtain ok r where init: "registry_init mo cap zero_registry = (ok, r)"
    by fastforce
  let ?s = "set_registry r (?z\<lparr>tid_mapping_initialized := ok\<rparr>)"
  have eq: "listener_attach mo ko so dok ms cap p k = (if ok then snd (insert_thread ko so p 0 ?s) else ?s)"
    using init by (simp add: listener_attach_def Let_def)
  show ?thesis
  proof (cases ok)
    case True
    then have r: "r = zero_registry\<lparr>capacity := cap, initialized := True\<rparr>" "registry_inv r"
      using init registry_init_inv [of mo cap zero_registry] by (auto simp: registry_init_def split: if_splits)
    show ?thesis
      unfolding eq using True r attached_inv [of ?s p k ko so] by (simp add: zero_registry_def zero_entry_def)
  next
    case False
    then have "r = zero_registry"
      using init by (auto simp: registry_init_def split: if_splits)
    then have "listener_inv ?s"
      using zero_registry_inv
      by (intro single_thread_inv [of _ "(new_thread p k False)\<lparr>at := In_application\<rparr>"])
         (simp_all add: new_thread_def zero_registry_def zero_entry_def)
    then show ?thesis
      unfolding eq using False \<open>r = zero_registry\<close> by (simp add: zero_registry_def)
  qed
qed

subsection \<open>Properties\<close>

text \<open>
  (C7) Two threads that can still run never use the same slot of the statistics arrays: whatever the
  threads of the process create, join, detach or exclude, in whatever interleaving with the scans of the
  reclaimer, timeouts of the start handshake, failing system calls and reuse of \<^verbatim>\<open>pthread_t\<close> values and
  kernel thread ids, the slots that two living threads read from their thread-local identities differ.
  The bound is the number of reservations after which the 64-bit generation comes round.
\<close>

theorem threads_never_share_a_slot:
  assumes "s = fold listener_step acts (listener_attach mutex_ok key_ok set_ok dir_ok timeout cap p k)"
    and "length acts + 1 < 2 ^ 64"
    and "threads s n = Some t" "alive t" "threads s m = Some u" "alive u" "n \<noteq> m"
    and "current_thread_slot n s = Some i" "current_thread_slot m s = Some j"
  shows "i \<noteq> j"
proof -
  note a = attach_inv [of mutex_ok key_ok set_ok dir_ok timeout cap p k]
  have "listener_inv s"
    unfolding assms(1) by (rule listener_run_inv) (use a assms(2) in linarith)+
  then have slots: "slots_inv s"
    by (simp add: listener_inv_def)
  have "claim s n = Some (identity_token (slot_identity t))" "claim s m = Some (identity_token (slot_identity u))"
    "i = slot (identity_token (slot_identity t))" "j = slot (identity_token (slot_identity u))"
    using assms(3-6,8,9)
    by (auto simp: claim_def claim_of_def current_thread_slot_def identity_token_def split: if_splits)
  then show ?thesis
    using slots_invD(4) [OF slots] assms(7) by blast
qed

definition two_thread_acts :: "listener_action list" where
  "two_thread_acts =
     [Call 0 (Call_create False False False 5 6), Create_returns 0 (Some (2, 2)), Proceed 0, Proceed 0, Proceed 0,
      Start 1 True [] True, Start 1 True [] True, Start 1 True [] True]"

definition two_thread_run :: pthread_listener where
  "two_thread_run = fold listener_step two_thread_acts (listener_attach True True True True 5000 2 1 1)"

lemma two_thread_run_facts:
  "map_option alive (threads two_thread_run 0) = Some True" "map_option alive (threads two_thread_run 1) = Some True"
  "current_thread_slot 0 two_thread_run = Some 0" "current_thread_slot 1 two_thread_run = Some 1"
  by code_simp+

theorem threads_never_share_a_slot_witness:
  "\<exists>t u. threads two_thread_run 0 = Some t \<and> alive t \<and> threads two_thread_run 1 = Some u \<and> alive u \<and>
     current_thread_slot 0 two_thread_run = Some 0 \<and> current_thread_slot 1 two_thread_run = Some 1 \<and> (0 :: nat) \<noteq> 1"
proof -
  obtain t u where tu: "threads two_thread_run 0 = Some t" "alive t" "threads two_thread_run 1 = Some u" "alive u"
    using two_thread_run_facts(1,2) by auto
  have "(0 :: nat) \<noteq> 1"
    by (rule threads_never_share_a_slot [OF two_thread_run_def _ tu _ two_thread_run_facts(3,4)])
       (simp_all add: two_thread_acts_def)
  then show ?thesis
    using tu two_thread_run_facts(3,4) by blast
qed

text \<open>
  (C9) A start context is freed exactly when nobody needs it any more: in every interleaving no step reads,
  writes or frees a context that was freed, and a context exists precisely while the hook around its
  \<^verbatim>\<open>pthread_create\<close> has not left or the thread it is for has not exited. So no context is leaked when the
  creation fails, when the child gives up waiting, or when it outlives its creator's hook or the reverse.
\<close>

theorem start_contexts_live_exactly_while_used:
  "\<not> heap_fault (fold listener_step acts (listener_attach mutex_ok key_ok set_ok dir_ok timeout cap p k)) \<and>
   (contexts (fold listener_step acts (listener_attach mutex_ok key_ok set_ok dir_ok timeout cap p k)) c \<noteq> None \<longleftrightarrow>
      0 < c \<and>
      (hook_ref (fold listener_step acts (listener_attach mutex_ok key_ok set_ok dir_ok timeout cap p k)) c \<or>
       child_ref (fold listener_step acts (listener_attach mutex_ok key_ok set_ok dir_ok timeout cap p k)) c))"
proof -
  have inv: "contexts_inv (fold listener_step acts (listener_attach mutex_ok key_ok set_ok dir_ok timeout cap p k))"
    using attach_inv [of mutex_ok key_ok set_ok dir_ok timeout cap p k]
    by (intro listener_contexts.run_inv) (simp add: listener_inv_def)
  show ?thesis
    using contexts_inv_refs(1,4) [OF inv] contexts_inv_refs(3,5) [OF inv, of c] by (cases "c = 0") auto
qed

end
