(* ===== verification/Selector_Syntax.thy ===== *)
theory Selector_Syntax
  imports Peak_Prelude
begin

text \<open>
  The lexer of C++ target selectors, \<^verbatim>\<open>src/utils/target_selector_syntax.c\<close>: it finds the next
  delimiter of a selector list that is not inside parentheses, brackets, braces or template angle
  brackets and is not part of an operator name. A C string is a \<open>char list\<close> without its
  terminator, a \<^verbatim>\<open>const char*\<close> into it is an index, and reading at the end gives the terminator
  \<open>CHR 0x00\<close>. Allocation outcomes are a parameter.
\<close>

subsection \<open>C strings\<close>

definition NUL :: char where
  "NUL = CHR 0x00"

definition char_at :: "string \<Rightarrow> nat \<Rightarrow> char" where
  "char_at t i = (if i < length t then t ! i else NUL)"

text \<open>\<^verbatim>\<open>isspace\<close> and \<^verbatim>\<open>isalnum\<close> of the C locale.\<close>

definition c_isspace :: "char \<Rightarrow> bool" where
  "c_isspace c \<longleftrightarrow> c \<in> {CHR 0x20, CHR 0x09, CHR 0x0A, CHR 0x0B, CHR 0x0C, CHR 0x0D}"

definition c_isalnum :: "char \<Rightarrow> bool" where
  "c_isalnum c \<longleftrightarrow> (let n = (of_char c :: nat) in
     48 \<le> n \<and> n \<le> 57 \<or> 65 \<le> n \<and> n \<le> 90 \<or> 97 \<le> n \<and> n \<le> 122)"

definition ident_char :: "char \<Rightarrow> bool" where
  "ident_char c \<longleftrightarrow> c_isalnum c \<or> c = CHR ''_''"

text \<open>\<^verbatim>\<open>strncmp(t + i, w, strlen(w)) == 0\<close>.\<close>

definition word_at :: "string \<Rightarrow> nat \<Rightarrow> string \<Rightarrow> bool" where
  "word_at t i w \<longleftrightarrow> take (length w) (drop i t) = w"

text \<open>\<^verbatim>\<open>while (cursor > text && isspace(cursor[-1])) cursor--;\<close>\<close>

fun skip_space_back :: "string \<Rightarrow> nat \<Rightarrow> nat" where
  "skip_space_back t 0 = 0"
| "skip_space_back t (Suc n) = (if c_isspace (char_at t n) then skip_space_back t n else Suc n)"

subsection \<open>Operator names and keywords\<close>

definition selector_operator_token_ends_at :: "string \<Rightarrow> nat \<Rightarrow> bool" where
  "selector_operator_token_ends_at t cursor =
     (let c = skip_space_back t cursor in
      8 \<le> c \<and> word_at t (c - 8) ''operator'' \<and> (c - 8 = 0 \<or> \<not> ident_char (char_at t (c - 9))))"

definition operator_tokens :: "string list" where
  "operator_tokens =
     [''<=>'', ''->*'', ''<<='', ''>>='', ''<<'', ''>>'', ''<='', ''>='', ''=='', ''!='',
      ''++'', ''--'', ''&&'', ''||'', ''+='', ''-='', ''*='', ''/='', ''%='', ''^='', ''&='',
      ''|='', ''->'', ''<'', ''>'', ''+'', ''-'', ''*'', ''/'', ''%'', ''^'', ''&'', ''|'', ''~'',
      ''!'', ''='', '','']"

definition skip_space :: "string \<Rightarrow> nat \<Rightarrow> nat" where
  "skip_space t i = i + length (takeWhile c_isspace (drop i t))"

definition selector_operator_punctuation_at :: "string \<Rightarrow> nat \<Rightarrow> bool" where
  "selector_operator_punctuation_at t cursor =
     list_ex (\<lambda>w. word_at t w ''operator'' \<and> \<not> (0 < w \<and> ident_char (char_at t (w - 1))) \<and>
        (let tk = skip_space t (w + 8) in
         list_ex (\<lambda>op. word_at t tk op \<and> tk \<le> cursor \<and> cursor < tk + length op) operator_tokens))
       [0..<cursor]"

definition selector_preceding_keyword :: "string \<Rightarrow> nat \<Rightarrow> string \<Rightarrow> bool" where
  "selector_preceding_keyword t cursor keyword =
     (let e = skip_space_back t cursor in
      if e < length keyword \<or> \<not> word_at t (e - length keyword) keyword then False
      else e - length keyword = 0 \<or> \<not> ident_char (char_at t (e - length keyword - 1)))"

definition selector_parenthesis_is_grouping :: "string \<Rightarrow> nat \<Rightarrow> bool" where
  "selector_parenthesis_is_grouping t cursor =
     (let c = skip_space_back t cursor in
      if c = 0 \<or> selector_preceding_keyword t c ''decltype''
         \<or> selector_preceding_keyword t c ''noexcept'' \<or> selector_preceding_keyword t c ''sizeof''
         \<or> selector_preceding_keyword t c ''alignof'' \<or> selector_preceding_keyword t c ''typeid''
      then True
      else char_at t (c - 1) \<in> set ''<[{,(+-*/%&|^~!=?>'')"

subsection \<open>The scanner\<close>

record PeakSelectorFrame =
  grouping :: bool
  closer :: char
  frame_id :: nat

text \<open>
  The locals of the scan. Both stacks have their top element first; the bottom of \<open>frames\<close> is the
  zero-initialised frame of the C array, so \<^verbatim>\<open>frame_count == 1\<close> is a stack of one frame.
\<close>

record selector_scan =
  frames :: "PeakSelectorFrame list"
  angles :: "nat list"
  frame_capacity :: nat
  angle_capacity :: nat
  next_frame :: nat
  nested :: "nat option"

datatype selector_array = Frame_array | Angle_array

definition SIZE_MAX :: nat where
  "SIZE_MAX = 2 ^ 64 - 1"

definition element_size :: "selector_array \<Rightarrow> nat" where
  "element_size a = (case a of Frame_array \<Rightarrow> 16 | Angle_array \<Rightarrow> 8)"

text \<open>\<open>mem a n\<close>: whether an allocation of \<open>n\<close> elements for array \<open>a\<close> succeeds.\<close>

definition selector_grow :: "(selector_array \<Rightarrow> nat \<Rightarrow> bool) \<Rightarrow> selector_array \<Rightarrow> nat \<Rightarrow> nat option" where
  "selector_grow mem a cap =
     (if cap > SIZE_MAX div 2 \<or> cap * 2 > SIZE_MAX div element_size a then None
      else if mem a (cap * 2) then Some (cap * 2) else None)"

definition selector_frame_has_angle :: "nat list \<Rightarrow> nat \<Rightarrow> bool" where
  "selector_frame_has_angle as f = (case as of [] \<Rightarrow> False | a # _ \<Rightarrow> a = f)"

definition bottom_frame :: PeakSelectorFrame where
  "bottom_frame = \<lparr>grouping = False, closer = NUL, frame_id = 0\<rparr>"

definition scan_start :: selector_scan where
  "scan_start = \<lparr>frames = [bottom_frame], angles = [], frame_capacity = 8, angle_capacity = 8,
     next_frame = 1, nested = None\<rparr>"

definition top_frame :: "selector_scan \<Rightarrow> PeakSelectorFrame" where
  "top_frame s = (case frames s of [] \<Rightarrow> bottom_frame | f # _ \<Rightarrow> f)"

datatype scan_outcome = Continue selector_scan | Found nat | Invalid

definition closer_of :: "char \<Rightarrow> char" where
  "closer_of c = (if c = CHR ''('' then CHR '')'' else if c = CHR ''['' then CHR '']'' else CHR ''}'')"

definition scan_open ::
  "(selector_array \<Rightarrow> nat \<Rightarrow> bool) \<Rightarrow> string \<Rightarrow> nat \<Rightarrow> char \<Rightarrow> selector_scan \<Rightarrow> scan_outcome" where
  "scan_open mem t cursor c s =
     (let grown = (if length (frames s) = frame_capacity s
                   then selector_grow mem Frame_array (frame_capacity s)
                   else Some (frame_capacity s))
      in case grown of
           None \<Rightarrow> Invalid
         | Some cap \<Rightarrow>
             let f = \<lparr>grouping = (if c = CHR ''('' then selector_parenthesis_is_grouping t cursor else True),
                      closer = closer_of c, frame_id = next_frame s\<rparr>
             in Continue (s\<lparr>frames := f # frames s, frame_capacity := cap,
                            next_frame := next_frame s + 1\<rparr>))"

definition scan_close :: "char \<Rightarrow> selector_scan \<Rightarrow> scan_outcome" where
  "scan_close c s =
     (if length (frames s) = 1 then Invalid
      else let current = top_frame s in
        if c \<noteq> closer current then Invalid
        else if selector_frame_has_angle (angles s) (frame_id current) then
          if \<not> grouping current then Invalid
          else Continue (s\<lparr>angles := dropWhile (\<lambda>a. a = frame_id current) (angles s),
                           frames := tl (frames s)\<rparr>)
        else Continue (s\<lparr>frames := tl (frames s)\<rparr>))"

definition scan_less ::
  "(selector_array \<Rightarrow> nat \<Rightarrow> bool) \<Rightarrow> selector_scan \<Rightarrow> scan_outcome" where
  "scan_less mem s =
     (let grown = (if length (angles s) = angle_capacity s
                   then selector_grow mem Angle_array (angle_capacity s)
                   else Some (angle_capacity s))
      in case grown of
           None \<Rightarrow> Invalid
         | Some cap \<Rightarrow> Continue (s\<lparr>angles := frame_id (top_frame s) # angles s, angle_capacity := cap\<rparr>))"

definition scan_greater :: "string \<Rightarrow> nat \<Rightarrow> selector_scan \<Rightarrow> scan_outcome" where
  "scan_greater t cursor s =
     (if 0 < cursor \<and> char_at t (cursor - 1) = CHR ''='' then Invalid
      else if char_at t (cursor + 1) \<noteq> CHR ''='' \<and> selector_frame_has_angle (angles s) (frame_id (top_frame s))
      then Continue (s\<lparr>angles := tl (angles s)\<rparr>)
      else if char_at t (cursor + 1) \<noteq> CHR ''='' \<and> \<not> grouping (top_frame s) then Invalid
      else Continue s)"

definition scan_delimiter :: "nat \<Rightarrow> selector_scan \<Rightarrow> scan_outcome" where
  "scan_delimiter cursor s =
     (if length (frames s) = 1 \<and> angles s = [] then Found cursor
      else Continue (if nested s = None then s\<lparr>nested := Some cursor\<rparr> else s))"

definition scan_step ::
  "(selector_array \<Rightarrow> nat \<Rightarrow> bool) \<Rightarrow> string \<Rightarrow> char \<Rightarrow> nat \<Rightarrow> char \<Rightarrow> selector_scan \<Rightarrow> scan_outcome" where
  "scan_step mem t delimiter cursor c s =
     (if c \<in> {CHR ''('', CHR ''['', CHR ''{''} then scan_open mem t cursor c s
      else if c \<in> {CHR '')'', CHR '']'', CHR ''}''} then scan_close c s
      else if c = CHR ''<'' \<and> \<not> selector_operator_punctuation_at t cursor \<and> char_at t (cursor + 1) \<noteq> CHR ''=''
      then scan_less mem s
      else if c = CHR ''>'' \<and> \<not> selector_operator_punctuation_at t cursor then scan_greater t cursor s
      else if c = delimiter \<and> \<not> selector_operator_punctuation_at t cursor
              \<and> \<not> (delimiter = CHR '','' \<and> selector_operator_token_ends_at t cursor)
      then scan_delimiter cursor s
      else Continue s)"

text \<open>The loop over the rest of the text; on \<open>Invalid\<close> the state is kept for the recovery.\<close>

fun scan_loop ::
  "(selector_array \<Rightarrow> nat \<Rightarrow> bool) \<Rightarrow> string \<Rightarrow> char \<Rightarrow> string \<Rightarrow> nat \<Rightarrow> selector_scan \<Rightarrow>
   scan_outcome \<times> selector_scan" where
  "scan_loop mem t delimiter [] cursor s = (Continue s, s)"
| "scan_loop mem t delimiter (c # rest) cursor s =
     (case scan_step mem t delimiter cursor c s of
        Continue s1 \<Rightarrow> scan_loop mem t delimiter rest (cursor + 1) s1
      | Found p \<Rightarrow> (Found p, s)
      | Invalid \<Rightarrow> (Invalid, s))"

definition scan_recover :: "bool \<Rightarrow> selector_scan \<Rightarrow> bool \<times> nat option" where
  "scan_recover recover_nested s = (recover_nested, if recover_nested then nested s else None)"

text \<open>The result: the C return value and \<^verbatim>\<open>*delimiter_out\<close> (\<open>None\<close> is NULL).\<close>

definition peak_target_selector_next_delimiter ::
  "(selector_array \<Rightarrow> nat \<Rightarrow> bool) \<Rightarrow> string \<Rightarrow> char \<Rightarrow> bool \<Rightarrow> bool \<times> nat option" where
  "peak_target_selector_next_delimiter mem t delimiter recover_nested =
     (if delimiter = NUL then (False, None)
      else if \<not> mem Frame_array 8 \<or> \<not> mem Angle_array 8 then (False, None)
      else case scan_loop mem t delimiter t 0 scan_start of
             (Found p, _) \<Rightarrow> (True, Some p)
           | (Continue s, _) \<Rightarrow>
               if length (frames s) = 1 \<and> angles s = [] then (True, None) else scan_recover recover_nested s
           | (Invalid, s) \<Rightarrow> scan_recover recover_nested s)"

text \<open>\<^verbatim>\<open>peak_target_selector_has_top_level_offset\<close>; the cursor is the rest of the text.\<close>

function has_top_level_offset :: "(selector_array \<Rightarrow> nat \<Rightarrow> bool) \<Rightarrow> string \<Rightarrow> bool" where
  "has_top_level_offset mem t =
     (if t = [] then False
      else case peak_target_selector_next_delimiter mem t (CHR ''+'') False of
             (True, Some at) \<Rightarrow>
               if char_at t (at + 1) = CHR ''0'' \<and>
                  (char_at t (at + 2) = CHR ''x'' \<or> char_at t (at + 2) = CHR ''X'') then True
               else has_top_level_offset mem (drop (at + 1) t)
           | _ \<Rightarrow> False)"
  by pat_completeness auto
termination
  by (relation "measure (\<lambda>(mem, t). length t)") auto

declare has_top_level_offset.simps [simp del]

subsection \<open>Reference definitions\<close>

definition open_bracket :: "char \<Rightarrow> bool" where
  "open_bracket c \<longleftrightarrow> c \<in> {CHR ''('', CHR ''['', CHR ''{''}"

definition close_bracket :: "char \<Rightarrow> bool" where
  "close_bracket c \<longleftrightarrow> c \<in> {CHR '')'', CHR '']'', CHR ''}''}"

text \<open>Bracket matching by itself: the stack of the closers that are still expected, \<open>None\<close> on a
  closer that does not match.\<close>

fun match_brackets :: "string \<Rightarrow> char list \<Rightarrow> char list option" where
  "match_brackets [] expected = Some expected"
| "match_brackets (c # cs) expected =
     (if open_bracket c then match_brackets cs (closer_of c # expected)
      else if close_bracket c then
        (case expected of
           [] \<Rightarrow> None
         | e # es \<Rightarrow> if c = e then match_brackets cs es else None)
      else match_brackets cs expected)"

text \<open>The first position of a character, as \<^verbatim>\<open>strchr\<close> finds it.\<close>

definition first_index :: "string \<Rightarrow> char \<Rightarrow> nat option" where
  "first_index t d = (if d \<in> set t then Some (length (takeWhile (\<lambda>c. c \<noteq> d) t)) else None)"

text \<open>A text the C++ rules do not apply to: no bracket of any kind and no operator name.\<close>

definition plain_text :: "string \<Rightarrow> bool" where
  "plain_text t \<longleftrightarrow>
     (\<forall>c \<in> set t. \<not> open_bracket c \<and> \<not> close_bracket c \<and> c \<noteq> CHR ''<'' \<and> c \<noteq> CHR ''>'') \<and>
     list_all (\<lambda>i. \<not> word_at t i ''operator'') [0..<length t]"

subsection \<open>The scanner keeps its frame stack in step with the brackets\<close>

definition expected_closers :: "selector_scan \<Rightarrow> char list" where
  "expected_closers s = map closer (butlast (frames s))"

lemma expected_closers_update [simp]:
  "expected_closers (s\<lparr>angles := a\<rparr>) = expected_closers s"
  "expected_closers (s\<lparr>nested := n\<rparr>) = expected_closers s"
  "expected_closers (s\<lparr>angle_capacity := k\<rparr>) = expected_closers s"
  by (simp_all add: expected_closers_def)

lemma scan_open_Continue:
  "scan_open mem t cursor c s = Continue s1 \<Longrightarrow> frames s \<noteq> [] \<Longrightarrow>
    frames s1 \<noteq> [] \<and> expected_closers s1 = closer_of c # expected_closers s"
  by (auto simp: scan_open_def expected_closers_def Let_def split: option.splits if_splits)

lemma scan_close_Continue:
  assumes "scan_close c s = Continue s1" and "frames s \<noteq> []"
  shows "frames s1 \<noteq> [] \<and> expected_closers s = c # expected_closers s1"
proof -
  obtain f g fs where "frames s = f # g # fs"
    using assms by (cases "frames s"; cases "tl (frames s)") (auto simp: scan_close_def)
  then show ?thesis
    using assms by (auto simp: scan_close_def top_frame_def expected_closers_def Let_def split: if_splits)
qed

lemma scan_other_Continue:
  "scan_less mem s = Continue s1 \<Longrightarrow> frames s1 = frames s"
  "scan_greater t cursor s = Continue s1 \<Longrightarrow> frames s1 = frames s"
  "scan_delimiter cursor s = Continue s1 \<Longrightarrow> frames s1 = frames s"
  by (auto simp: scan_less_def scan_greater_def scan_delimiter_def Let_def split: option.splits if_splits)

lemma scan_Found:
  "scan_open mem t cursor c s \<noteq> Found p" "scan_close c s \<noteq> Found p" "scan_less mem s \<noteq> Found p"
  "scan_greater t cursor s \<noteq> Found p"
  "scan_delimiter cursor s = Found p \<Longrightarrow> p = cursor \<and> length (frames s) = 1 \<and> angles s = []"
  by (auto simp: scan_open_def scan_close_def scan_less_def scan_greater_def scan_delimiter_def Let_def
      split: option.splits if_splits)

text \<open>One step against the reference: a bracket moves both stacks, everything else neither.\<close>

lemma scan_step_Continue:
  assumes "scan_step mem t delimiter cursor c s = Continue s1" and "frames s \<noteq> []"
  shows "frames s1 \<noteq> [] \<and>
    match_brackets (c # cs) (expected_closers s) = match_brackets cs (expected_closers s1)"
proof (cases "open_bracket c")
  case True
  then have "scan_open mem t cursor c s = Continue s1"
    using assms(1) by (simp add: scan_step_def open_bracket_def)
  then show ?thesis
    using scan_open_Continue assms(2) True by simp
next
  case not_open: False
  show ?thesis
  proof (cases "close_bracket c")
    case True
    then have "scan_close c s = Continue s1"
      using assms(1) not_open by (simp add: scan_step_def close_bracket_def open_bracket_def)
    then show ?thesis
      using scan_close_Continue assms(2) True not_open by fastforce
  next
    case False
    then have "frames s1 = frames s"
      using assms(1) not_open scan_other_Continue
      by (auto simp: scan_step_def close_bracket_def open_bracket_def split: if_splits)
    then show ?thesis
      using assms(2) False not_open by (simp add: expected_closers_def)
  qed
qed

lemma scan_step_Found:
  assumes "scan_step mem t delimiter cursor c s = Found p"
  shows "p = cursor \<and> c = delimiter \<and> length (frames s) = 1 \<and> angles s = []"
  using assms scan_Found by (auto simp: scan_step_def split: if_splits)

lemma scan_loop_Found:
  assumes "fst (scan_loop mem t delimiter rest cursor s) = Found p" and "frames s \<noteq> []"
  shows "\<exists>k < length rest. p = cursor + k \<and> rest ! k = delimiter \<and>
    match_brackets (take k rest) (expected_closers s) = Some []"
  using assms
proof (induction rest arbitrary: cursor s)
  case Nil
  then show ?case by simp
next
  case (Cons c rest)
  show ?case
  proof (cases "scan_step mem t delimiter cursor c s")
    case (Continue s1)
    note step = scan_step_Continue [OF Continue Cons.prems(2)]
    obtain k where "k < length rest" "p = cursor + 1 + k" "rest ! k = delimiter"
      "match_brackets (take k rest) (expected_closers s1) = Some []"
      using Cons.IH [of "cursor + 1" s1] Cons.prems(1) Continue step by auto
    then show ?thesis
      using step by (intro exI [of _ "Suc k"]) simp
  next
    case (Found q)
    then have "q = p"
      using Cons.prems(1) by simp
    then show ?thesis
      using scan_step_Found [OF Found]
      by (intro exI [of _ 0]) (auto simp: expected_closers_def length_Suc_conv)
  next
    case Invalid
    then show ?thesis
      using Cons.prems(1) by simp
  qed
qed

lemma scan_loop_Continue:
  assumes "fst (scan_loop mem t delimiter rest cursor s) = Continue s1" and "frames s \<noteq> []"
  shows "match_brackets rest (expected_closers s) = Some (expected_closers s1)"
  using assms
proof (induction rest arbitrary: cursor s)
  case Nil
  then show ?case by simp
next
  case (Cons c rest)
  then obtain s2 where s2: "scan_step mem t delimiter cursor c s = Continue s2"
    by (cases "scan_step mem t delimiter cursor c s") auto
  show ?case
    using Cons.IH [of "cursor + 1" s2] Cons.prems s2 scan_step_Continue [OF s2 Cons.prems(2)] by simp
qed

text \<open>The recovery position is the position of a delimiter that was seen.\<close>

definition nested_ok :: "string \<Rightarrow> char \<Rightarrow> nat \<Rightarrow> selector_scan \<Rightarrow> bool" where
  "nested_ok t delimiter cursor s \<longleftrightarrow>
     (\<forall>q. nested s = Some q \<longrightarrow> q < cursor \<and> char_at t q = delimiter)"

lemma nested_ok_cong: "nested s1 = nested s \<Longrightarrow> nested_ok t d c s1 = nested_ok t d c s"
  by (simp add: nested_ok_def)

lemma scan_step_nested:
  assumes "scan_step mem t delimiter cursor c s = Continue s1" and "char_at t cursor = c"
    and "nested_ok t delimiter cursor s"
  shows "nested_ok t delimiter (cursor + 1) s1"
proof -
  have "nested s1 = nested s \<or> nested s1 = Some cursor \<and> c = delimiter"
    using assms(1)
    by (auto simp: scan_step_def scan_open_def scan_close_def scan_less_def scan_greater_def
        scan_delimiter_def Let_def split: option.splits if_splits)
  then show ?thesis
    using assms(2,3) by (auto simp: nested_ok_def)
qed

lemma scan_loop_nested:
  assumes "scan_loop mem t delimiter rest cursor s = (res, s1)" and "drop cursor t = rest"
    and "nested_ok t delimiter cursor s" and "cursor \<le> length t"
  shows "nested_ok t delimiter (length t) s1 \<and> (\<forall>s2. res = Continue s2 \<longrightarrow> s2 = s1)"
  using assms
proof (induction rest arbitrary: cursor s)
  case Nil
  then have "cursor = length t"
    by simp
  with Nil show ?case
    by auto
next
  case (Cons c rest)
  have len: "cursor < length t"
    using Cons.prems(2) by (metis drop_eq_Nil leI list.discI)
  have c: "char_at t cursor = c" and rest: "drop (cursor + 1) t = rest"
    using Cons.prems(2) len by (simp_all add: char_at_def Cons_nth_drop_Suc [symmetric])
  show ?case
  proof (cases "scan_step mem t delimiter cursor c s")
    case (Continue s2)
    then show ?thesis
      using Cons.IH [OF _ rest scan_step_nested [OF Continue c Cons.prems(3)]] Cons.prems(1) len by simp
  next
    case (Found p)
    then show ?thesis
      using Cons.prems(1,3) len by (auto simp: nested_ok_def)
  next
    case Invalid
    then show ?thesis
      using Cons.prems(1,3) len by (auto simp: nested_ok_def)
  qed
qed

lemma scan_start_simps [simp]:
  "frames scan_start \<noteq> []" "expected_closers scan_start = []" "nested_ok t d c scan_start"
  "length (frames scan_start) = 1" "angles scan_start = []"
  by (simp_all add: scan_start_def expected_closers_def nested_ok_def)

lemma expected_closers_Nil: "length (frames s) = 1 \<Longrightarrow> expected_closers s = []"
  by (auto simp: expected_closers_def length_Suc_conv)

subsection \<open>Plain texts\<close>

lemma word_at_length: "word_at t i w \<Longrightarrow> w \<noteq> [] \<Longrightarrow> i < length t"
  by (metis drop_eq_Nil leI take_eq_Nil2 take_Nil word_at_def)

lemma plain_no_operator:
  assumes "plain_text t"
  shows "\<not> selector_operator_punctuation_at t cursor" "\<not> selector_operator_token_ends_at t cursor"
proof -
  have all: "\<forall>i \<in> set [0..<length t]. \<not> word_at t i ''operator''"
    using assms unfolding plain_text_def list_all_iff by blast
  have no: "\<not> word_at t i ''operator''" for i
    using all word_at_length [of t i "''operator''"] by fastforce
  show "\<not> selector_operator_punctuation_at t cursor"
    using no by (auto simp: selector_operator_punctuation_at_def list_ex_iff)
  show "\<not> selector_operator_token_ends_at t cursor"
    using no by (simp add: selector_operator_token_ends_at_def Let_def)
qed

lemma scan_step_plain:
  assumes "plain_text t" and "\<not> open_bracket c" "\<not> close_bracket c" "c \<noteq> CHR ''<''" "c \<noteq> CHR ''>''"
  shows "scan_step mem t delimiter cursor c s = (if c = delimiter then scan_delimiter cursor s else Continue s)"
  using assms plain_no_operator [OF assms(1)]
  by (auto simp: scan_step_def open_bracket_def close_bracket_def)

lemma scan_loop_plain:
  assumes "plain_text t" and "\<forall>c \<in> set rest. \<not> open_bracket c \<and> \<not> close_bracket c \<and> c \<noteq> CHR ''<'' \<and> c \<noteq> CHR ''>''"
    and "length (frames s) = 1" "angles s = []"
  shows "scan_loop mem t delimiter rest cursor s =
    (if delimiter \<in> set rest then (Found (cursor + length (takeWhile (\<lambda>c. c \<noteq> delimiter) rest)), s)
     else (Continue s, s))"
  using assms
  by (induction rest arbitrary: cursor) (auto simp: scan_step_plain scan_delimiter_def)

lemma next_delimiter_plain:
  assumes "plain_text t" and "mem Frame_array 8" "mem Angle_array 8" and "delimiter \<noteq> NUL"
  shows "peak_target_selector_next_delimiter mem t delimiter recover_nested = (True, first_index t delimiter)"
proof -
  have "\<forall>c \<in> set t. \<not> open_bracket c \<and> \<not> close_bracket c \<and> c \<noteq> CHR ''<'' \<and> c \<noteq> CHR ''>''"
    using assms(1) by (simp add: plain_text_def)
  note loop = scan_loop_plain [OF assms(1) this, of scan_start mem delimiter 0]
  show ?thesis
    using assms loop by (simp add: peak_target_selector_next_delimiter_def first_index_def)
qed

text \<open>With recovery, a position that is returned is always the position of a delimiter.\<close>

lemma next_delimiter_position:
  assumes "peak_target_selector_next_delimiter mem t delimiter recover_nested = (b, Some p)"
  shows "b \<and> p < length t \<and> t ! p = delimiter"
proof -
  obtain res s1 where loop: "scan_loop mem t delimiter t 0 scan_start = (res, s1)"
    by (cases "scan_loop mem t delimiter t 0 scan_start")
  have nst: "nested_ok t delimiter (length t) s1" "\<forall>s2. res = Continue s2 \<longrightarrow> s2 = s1"
    using scan_loop_nested [OF loop] by simp_all
  then have nst1: "nested s1 = Some p \<Longrightarrow> p < length t \<and> t ! p = delimiter"
    by (auto simp: nested_ok_def char_at_def split: if_splits)
  show ?thesis
  proof (cases res)
    case (Continue s)
    then show ?thesis
      using assms loop nst nst1
      by (auto simp: peak_target_selector_next_delimiter_def scan_recover_def split: if_splits)
  next
    case (Found q)
    then show ?thesis
      using assms loop scan_loop_Found [of mem t delimiter t 0 scan_start q]
      by (auto simp: peak_target_selector_next_delimiter_def split: if_splits)
  next
    case Invalid
    then show ?thesis
      using assms loop nst1
      by (auto simp: peak_target_selector_next_delimiter_def scan_recover_def split: if_splits)
  qed
qed

subsection \<open>Splitting at delimiters: the interface the list parsers use\<close>

text \<open>The loop of the list parsers: cut the text at the position the finder gives, and go on behind
  it. A finder that gives a position gives one inside the text, so the loop ends.\<close>

function split_fields :: "(string \<Rightarrow> nat option) \<Rightarrow> string \<Rightarrow> string list" where
  "split_fields finder t =
     (case finder t of
        None \<Rightarrow> [t]
      | Some p \<Rightarrow> if p < length t then take p t # split_fields finder (drop (p + 1) t) else [t])"
  by pat_completeness auto
termination
  by (relation "measure (\<lambda>(finder, t). length t)") auto

declare split_fields.simps [simp del]

fun join_fields :: "char \<Rightarrow> string list \<Rightarrow> string" where
  "join_fields d [] = []"
| "join_fields d [f] = f"
| "join_fields d (f # g # fs) = f @ d # join_fields d (g # fs)"

locale delimiter_finder =
  fixes finder :: "string \<Rightarrow> nat option"
    and delim :: char
  assumes find_position: "finder t = Some p \<Longrightarrow> p < length t \<and> t ! p = delim"
begin

lemma split_fields_nonempty: "split_fields finder t \<noteq> []"
  by (subst split_fields.simps) (simp split: option.splits)

lemma split_fields_Some:
  "finder t = Some p \<Longrightarrow> split_fields finder t = take p t # split_fields finder (drop (p + 1) t)"
  using find_position by (subst split_fields.simps) simp

lemma join_split: "join_fields delim (split_fields finder t) = t"
proof (induction t rule: length_induct)
  case (1 t)
  show ?case
  proof (cases "finder t")
    case None
    then show ?thesis
      by (simp add: split_fields.simps [of finder t])
  next
    case (Some p)
    then have p: "p < length t" "t ! p = delim"
      using find_position by simp_all
    obtain g gs where rest: "split_fields finder (drop (p + 1) t) = g # gs"
      using split_fields_nonempty by (metis neq_Nil_conv)
    have "join_fields delim (g # gs) = drop (p + 1) t"
      using 1 p(1) unfolding rest [symmetric] by auto
    then show ?thesis
      using split_fields_Some [OF Some] p rest id_take_nth_drop [OF p(1)] by simp
  qed
qed

end

interpretation strchr: delimiter_finder "\<lambda>t. first_index t d" d for d
proof
  fix t p
  assume "first_index t d = Some p"
  then have d: "d \<in> set t" and p: "p = length (takeWhile (\<lambda>c. c \<noteq> d) t)"
    by (auto simp: first_index_def split: if_splits)
  have "p < length t"
    using d p by (metis (full_types) length_takeWhile_le nat_less_le nth_mem set_takeWhileD
        takeWhile_eq_all_conv takeWhile_eq_take take_all)
  then show "p < length t \<and> t ! p = d"
    using p nth_length_takeWhile [of "\<lambda>c. c \<noteq> d" t] by simp
qed

interpretation selector: delimiter_finder
  "\<lambda>t. snd (peak_target_selector_next_delimiter mem t d recover_nested)" d for mem d recover_nested
proof
  fix t p
  assume "snd (peak_target_selector_next_delimiter mem t d recover_nested) = Some p"
  then show "p < length t \<and> t ! p = d"
    using next_delimiter_position [of mem t d recover_nested _ p]
    by (cases "peak_target_selector_next_delimiter mem t d recover_nested") auto
qed

subsection \<open>Properties\<close>



text \<open>
  (C40) On a selector list without brackets, template arguments and operator names the lexer is exactly
  \<^verbatim>\<open>strchr\<close>: it succeeds and gives the first delimiter of the text, or none.
\<close>

theorem next_delimiter_plain_is_strchr:
  assumes "plain_text t" and "mem Frame_array 8" "mem Angle_array 8" and "delimiter \<noteq> NUL"
  shows "peak_target_selector_next_delimiter mem t delimiter recover_nested = (True, first_index t delimiter)"
  using assms by (rule next_delimiter_plain)

theorem next_delimiter_plain_is_strchr_witness:
  "peak_target_selector_next_delimiter (\<lambda>_ _. True) ''dgemm_,ddot_'' (CHR '','') False = (True, Some 6)"
proof -
  have "plain_text ''dgemm_,ddot_''"
    by code_simp
  moreover have "first_index ''dgemm_,ddot_'' (CHR '','') = Some 6"
    by code_simp
  ultimately show ?thesis
    using next_delimiter_plain_is_strchr [of "''dgemm_,ddot_''" "\<lambda>_ _. True" "CHR '',''" False]
    by (simp add: NUL_def)
qed

end
