(* ===== verification/Target_Config.thy ===== *)
theory Target_Config
  imports Selector_Syntax "HOL-Library.Sublist"
begin

text \<open>
  Target lists and target groups, \<^verbatim>\<open>src/utils/target_config.c\<close>: the growable list of target
  names, the parsers of \<^verbatim>\<open>PEAK_TARGET\<close>-style lists, of target files and of group selections.
  The heap is modelled by its answers: \<open>ok n\<close> says whether allocation attempt number \<open>n\<close> succeeds
  (the counter of the test hook of the file), and the builder counts the attempts. Warnings go to a
  log. The environment variable's value and the lines of the file are arguments; the symbol tables
  of \<^verbatim>\<open>src/utils/source_target.c\<close> are arguments too.
\<close>

datatype target_warning =
    Warn_empty_token | Warn_allocation | Warn_cannot_open | Warn_unknown_group string

record TargetBuilder =
  items :: "string list"
  builder_capacity :: nat
  allocation_failed :: bool
  attempts :: nat
  warned_empty :: bool
  log :: "target_warning list"

definition checked_add_size :: "nat \<Rightarrow> nat \<Rightarrow> nat option" where
  "checked_add_size left right = (if right > SIZE_MAX - left then None else Some (left + right))"

definition checked_mul_size :: "nat \<Rightarrow> nat \<Rightarrow> nat option" where
  "checked_mul_size left right =
     (if left \<noteq> 0 \<and> right > SIZE_MAX div left then None else Some (left * right))"

definition target_config_warn_empty_once :: "TargetBuilder \<Rightarrow> TargetBuilder" where
  "target_config_warn_empty_once b =
     (if \<not> warned_empty b then b\<lparr>warned_empty := True, log := log b @ [Warn_empty_token]\<rparr> else b)"

definition target_config_warn_allocation_once :: "TargetBuilder \<Rightarrow> TargetBuilder" where
  "target_config_warn_allocation_once b =
     (if \<not> allocation_failed b then b\<lparr>allocation_failed := True, log := log b @ [Warn_allocation]\<rparr> else b)"

text \<open>One allocation attempt.\<close>

definition attempt :: "(nat \<Rightarrow> bool) \<Rightarrow> TargetBuilder \<Rightarrow> bool \<times> TargetBuilder" where
  "attempt ok b = (ok (attempts b), b\<lparr>attempts := attempts b + 1\<rparr>)"

definition trim_token :: "string \<Rightarrow> string" where
  "trim_token tok = rev (dropWhile c_isspace (rev (dropWhile c_isspace tok)))"

text \<open>The doubling loop of \<^verbatim>\<open>target_builder_grow\<close>; it is entered with a nonzero capacity.\<close>

function grow_capacity :: "nat \<Rightarrow> nat \<Rightarrow> nat" where
  "grow_capacity cap required =
     (if cap < required \<and> cap \<noteq> 0
      then if cap > SIZE_MAX div 2 then required else grow_capacity (cap * 2) required
      else cap)"
  by pat_completeness auto
termination
  by (relation "measure (\<lambda>(cap, required). required - cap)") auto

declare grow_capacity.simps [simp del]

definition target_builder_grow :: "(nat \<Rightarrow> bool) \<Rightarrow> nat \<Rightarrow> TargetBuilder \<Rightarrow> bool \<times> TargetBuilder" where
  "target_builder_grow ok required b =
     (if required \<le> builder_capacity b then (True, b)
      else
        let cap = grow_capacity (if builder_capacity b = 0 then 8 else builder_capacity b) required
        in case checked_mul_size cap 8 of
             None \<Rightarrow> (False, target_config_warn_allocation_once b)
           | Some bytes \<Rightarrow>
               (case attempt ok b of
                  (False, b1) \<Rightarrow> (False, target_config_warn_allocation_once b1)
                | (True, b1) \<Rightarrow> (True, b1\<lparr>builder_capacity := cap\<rparr>)))"

definition target_builder_append :: "(nat \<Rightarrow> bool) \<Rightarrow> string \<Rightarrow> TargetBuilder \<Rightarrow> bool \<times> TargetBuilder" where
  "target_builder_append ok tok b =
     (case (checked_add_size (length tok) 1, checked_add_size (length (items b)) 1) of
        (Some bytes, Some required) \<Rightarrow>
          (case attempt ok b of
             (False, b1) \<Rightarrow> (False, target_config_warn_allocation_once b1)
           | (True, b1) \<Rightarrow>
               (case target_builder_grow ok required b1 of
                  (False, b2) \<Rightarrow> (False, b2)
                | (True, b2) \<Rightarrow> (True, b2\<lparr>items := items b2 @ [tok]\<rparr>)))
      | _ \<Rightarrow> (False, target_config_warn_allocation_once b))"

definition target_config_duplicate :: "(nat \<Rightarrow> bool) \<Rightarrow> string \<Rightarrow> TargetBuilder \<Rightarrow> bool \<times> TargetBuilder" where
  "target_config_duplicate ok value b =
     (case checked_add_size (length value) 1 of
        None \<Rightarrow> (False, target_config_warn_allocation_once b)
      | Some bytes \<Rightarrow>
          (case attempt ok b of
             (False, b1) \<Rightarrow> (False, target_config_warn_allocation_once b1)
           | (True, b1) \<Rightarrow> (True, b1)))"

definition target_builder_from_result :: "string list \<Rightarrow> TargetBuilder" where
  "target_builder_from_result result =
     \<lparr>items = result, builder_capacity = length result, allocation_failed = False, attempts = 0,
      warned_empty = False, log = []\<rparr>"

definition append_trimmed_token :: "(nat \<Rightarrow> bool) \<Rightarrow> string \<Rightarrow> TargetBuilder \<Rightarrow> bool \<times> TargetBuilder" where
  "append_trimmed_token ok tok b =
     (let tok = trim_token tok in
      if tok = [] then (True, target_config_warn_empty_once b)
      else target_builder_append ok tok b)"

definition target_config_next_delimiter ::
  "(selector_array \<Rightarrow> nat \<Rightarrow> bool) \<Rightarrow> char \<Rightarrow> string \<Rightarrow> nat option" where
  "target_config_next_delimiter mem delimiter tok =
     (case peak_target_selector_next_delimiter mem tok delimiter True of
        (True, nxt) \<Rightarrow> nxt
      | (False, _) \<Rightarrow> None)"

text \<open>The token loop of \<^verbatim>\<open>parse_env_w_delim\<close>; the token is the rest of the duplicated value.\<close>

function parse_loop ::
  "(nat \<Rightarrow> bool) \<Rightarrow> (selector_array \<Rightarrow> nat \<Rightarrow> bool) \<Rightarrow> char \<Rightarrow> string \<Rightarrow> TargetBuilder \<Rightarrow> TargetBuilder" where
  "parse_loop ok mem delimiter tok b =
     (case target_config_next_delimiter mem delimiter tok of
        None \<Rightarrow> snd (append_trimmed_token ok tok b)
      | Some p \<Rightarrow>
          (case append_trimmed_token ok (take p tok) b of
             (False, b1) \<Rightarrow> b1
           | (True, b1) \<Rightarrow> if p < length tok then parse_loop ok mem delimiter (drop (p + 1) tok) b1 else b1))"
  by pat_completeness auto
termination
  by (relation "measure (\<lambda>(ok, mem, delimiter, tok, b). length tok)") auto

declare parse_loop.simps [simp del]

text \<open>The count that is returned and \<^verbatim>\<open>*result\<close>; \<open>env\<close> is the value of the variable.\<close>

definition parse_env_w_delim ::
  "(nat \<Rightarrow> bool) \<Rightarrow> (selector_array \<Rightarrow> nat \<Rightarrow> bool) \<Rightarrow> string option \<Rightarrow> char \<Rightarrow> nat \<times> TargetBuilder" where
  "parse_env_w_delim ok mem env delimiter =
     (let b0 = target_builder_from_result [] in
      if delimiter = NUL then (0, b0)
      else case env of
             None \<Rightarrow> (0, b0)
           | Some value \<Rightarrow>
               if value = [] then (0, b0)
               else (case target_config_duplicate ok value b0 of
                       (False, b1) \<Rightarrow> (length (items b1), b1)
                     | (True, b1) \<Rightarrow>
                         let b2 = parse_loop ok mem delimiter value b1 in (length (items b2), b2)))"

fun read_lines :: "(nat \<Rightarrow> bool) \<Rightarrow> string list \<Rightarrow> TargetBuilder \<Rightarrow> TargetBuilder" where
  "read_lines ok [] b = b"
| "read_lines ok (line # lines) b =
     (case append_trimmed_token ok line b of
        (False, b1) \<Rightarrow> b1
      | (True, b1) \<Rightarrow> read_lines ok lines b1)"

text \<open>\<open>file path\<close> is what \<^verbatim>\<open>fopen\<close> and \<^verbatim>\<open>getline\<close> give for the path: the lines, or \<open>None\<close>.\<close>

definition load_profiling_symbols ::
  "(nat \<Rightarrow> bool) \<Rightarrow> (string \<Rightarrow> string list option) \<Rightarrow> string option \<Rightarrow> string list \<Rightarrow> nat \<times> TargetBuilder" where
  "load_profiling_symbols ok file env existing =
     (let b0 = target_builder_from_result existing in
      case env of
        None \<Rightarrow> (0, b0)
      | Some path \<Rightarrow>
          if path = [] then (0, b0)
          else (case file path of
                  None \<Rightarrow> (0, b0\<lparr>log := [Warn_cannot_open]\<rparr>)
                | Some lines \<Rightarrow>
                    let b1 = read_lines ok lines b0 in (length (items b1) - length existing, b1)))"

definition target_groups ::
  "string list \<Rightarrow> string list \<Rightarrow> string list \<Rightarrow> string list \<Rightarrow> string list \<Rightarrow> (string \<times> string list) list" where
  "target_groups blas lapack pblas scalapack fftw =
     [(''BLAS'', blas), (''LAPACK'', lapack), (''PBLAS'', pblas), (''ScaLAPACK'', scalapack), (''FFTW'', fftw)]"

definition find_target_group :: "(string \<times> string list) list \<Rightarrow> string \<Rightarrow> string list option" where
  "find_target_group groups name = map_of groups name"

fun append_symbols :: "(nat \<Rightarrow> bool) \<Rightarrow> string list \<Rightarrow> TargetBuilder \<Rightarrow> TargetBuilder" where
  "append_symbols ok [] b = b"
| "append_symbols ok (y # syms) b =
     (case target_builder_append ok y b of
        (False, b1) \<Rightarrow> b1
      | (True, b1) \<Rightarrow> append_symbols ok syms b1)"

definition append_group ::
  "(nat \<Rightarrow> bool) \<Rightarrow> (string \<times> string list) list \<Rightarrow> string \<Rightarrow> TargetBuilder \<Rightarrow> TargetBuilder" where
  "append_group ok groups tok b =
     (let tok = trim_token tok in
      if tok = [] then target_config_warn_empty_once b
      else case find_target_group groups tok of
             Some syms \<Rightarrow> append_symbols ok syms b
           | None \<Rightarrow> b\<lparr>log := log b @ [Warn_unknown_group tok]\<rparr>)"

function group_loop ::
  "(nat \<Rightarrow> bool) \<Rightarrow> (string \<times> string list) list \<Rightarrow> string \<Rightarrow> TargetBuilder \<Rightarrow> TargetBuilder" where
  "group_loop ok groups tok b =
     (case first_index tok (CHR '','') of
        None \<Rightarrow> append_group ok groups tok b
      | Some p \<Rightarrow>
          (let b1 = append_group ok groups (take p tok) b in
           if allocation_failed b1 then b1
           else if p < length tok then group_loop ok groups (drop (p + 1) tok) b1 else b1))"
  by pat_completeness auto
termination
  by (relation "measure (\<lambda>(ok, groups, tok, b). length tok)") auto

declare group_loop.simps [simp del]

definition load_symbols_from_array ::
  "(nat \<Rightarrow> bool) \<Rightarrow> (string \<times> string list) list \<Rightarrow> string option \<Rightarrow> string list \<Rightarrow> nat \<times> TargetBuilder" where
  "load_symbols_from_array ok groups env existing =
     (let b0 = target_builder_from_result existing in
      case env of
        None \<Rightarrow> (0, b0)
      | Some value \<Rightarrow>
          if value = [] then (0, b0)
          else (case target_config_duplicate ok value b0 of
                  (False, b1) \<Rightarrow> (length (items b1) - length existing, b1)
                | (True, b1) \<Rightarrow>
                    let b2 = group_loop ok groups value b1 in (length (items b2) - length existing, b2)))"

subsection \<open>The growable list\<close>

lemma grow_capacity_ge: "cap \<noteq> 0 \<Longrightarrow> required \<le> grow_capacity cap required"
proof (induction cap required rule: grow_capacity.induct)
  case (1 cap required)
  then show ?case
    by (subst grow_capacity.simps) auto
qed

lemma grow_capacity_le: "grow_capacity cap required \<le> max cap (2 * required)"
proof (induction cap required rule: grow_capacity.induct)
  case (1 cap required)
  show ?case
  proof (cases "cap < required \<and> cap \<noteq> 0 \<and> \<not> cap > SIZE_MAX div 2")
    case True
    then have "grow_capacity (cap * 2) required \<le> max (cap * 2) (2 * required)"
      using 1 by simp
    then show ?thesis
      using True by (subst grow_capacity.simps) auto
  next
    case False
    then show ?thesis
      by (subst grow_capacity.simps) auto
  qed
qed

text \<open>The C array never overflows: the number of items stays within the capacity.\<close>

definition builder_ok :: "TargetBuilder \<Rightarrow> bool" where
  "builder_ok b \<longleftrightarrow> length (items b) \<le> builder_capacity b"

lemma warn_simps [simp]:
  "items (target_config_warn_allocation_once b) = items b"
  "items (target_config_warn_empty_once b) = items b"
  "builder_capacity (target_config_warn_allocation_once b) = builder_capacity b"
  "builder_capacity (target_config_warn_empty_once b) = builder_capacity b"
  "allocation_failed (target_config_warn_allocation_once b)"
  "allocation_failed (target_config_warn_empty_once b) = allocation_failed b"
  by (simp_all add: target_config_warn_allocation_once_def target_config_warn_empty_once_def)

lemma target_builder_grow_spec:
  assumes "target_builder_grow ok required b = (res, b1)"
  shows "items b1 = items b \<and> (if res then required \<le> builder_capacity b1 \<and>
    allocation_failed b1 = allocation_failed b else allocation_failed b1 \<and> builder_capacity b1 = builder_capacity b)"
  using assms grow_capacity_ge [of "if builder_capacity b = 0 then 8 else builder_capacity b" required]
  by (auto simp: target_builder_grow_def attempt_def Let_def split: if_splits option.splits bool.splits)

lemma target_builder_append_spec:
  assumes "target_builder_append ok tok b = (res, b1)" and "builder_ok b"
  shows "builder_ok b1 \<and> items b1 = items b @ (if res then [tok] else []) \<and>
    allocation_failed b1 = (if res then allocation_failed b else True)"
proof -
  obtain r b2 where grow: "target_builder_grow ok (length (items b) + 1) (snd (attempt ok b)) = (r, b2)"
    by (cases "target_builder_grow ok (length (items b) + 1) (snd (attempt ok b))")
  note g = target_builder_grow_spec [OF grow]
  show ?thesis
    using assms grow g
    by (auto simp: target_builder_append_def builder_ok_def attempt_def checked_add_size_def
        split: if_splits option.splits bool.splits)
qed

text \<open>With an allocator that never refuses, lists of any realistic size are built completely.\<close>

lemma checked_mul_size_small: "cap \<le> 2 ^ 60 \<Longrightarrow> checked_mul_size cap 8 = Some (cap * 8)"
proof (cases "cap = 0")
  case False
  assume "cap \<le> 2 ^ 60"
  then have "SIZE_MAX div 2 ^ 60 \<le> SIZE_MAX div cap"
    using False by (intro div_le_mono2) auto
  moreover have "SIZE_MAX div 2 ^ 60 = 15"
    by (simp add: SIZE_MAX_def)
  ultimately show ?thesis
    by (simp add: checked_mul_size_def)
qed (simp add: checked_mul_size_def)

lemma target_builder_grow_total:
  assumes "\<And>n. ok n" and "required \<le> 2 ^ 58"
  shows "fst (target_builder_grow ok required b)"
proof (cases "required \<le> builder_capacity b")
  case False
  let ?c = "if builder_capacity b = 0 then 8 else builder_capacity b"
  have "grow_capacity ?c required \<le> 2 ^ 60"
    using grow_capacity_le [of ?c required] assms(2) False by (auto split: if_splits)
  from checked_mul_size_small [OF this] show ?thesis
    using assms(1) by (auto simp: target_builder_grow_def attempt_def Let_def)
qed (simp add: target_builder_grow_def)

lemma target_builder_append_total:
  assumes "\<And>n. ok n" and "length tok < 2 ^ 58" and "length (items b) < 2 ^ 58"
  shows "fst (target_builder_append ok tok b)"
proof -
  have "fst (target_builder_grow ok (length (items b) + 1) b1)" for b1
    using assms by (intro target_builder_grow_total) auto
  moreover have "checked_add_size (length tok) 1 = Some (length tok + 1)"
    "checked_add_size (length (items b)) 1 = Some (length (items b) + 1)"
    using assms(2,3) by (auto simp: checked_add_size_def SIZE_MAX_def)
  ultimately show ?thesis
    using assms(1) by (simp add: target_builder_append_def attempt_def split: prod.splits bool.splits)
      (metis fst_conv)
qed

subsection \<open>Fields and tokens\<close>

text \<open>The names a sequence of fields stands for: trimmed, empty ones dropped.\<close>

definition wanted :: "string list \<Rightarrow> string list" where
  "wanted fs = filter (\<lambda>f. f \<noteq> []) (map trim_token fs)"

lemma wanted_simps [simp]:
  "wanted [] = []"
  "wanted (f # fs) = (if trim_token f = [] then [] else [trim_token f]) @ wanted fs"
  by (simp_all add: wanted_def)

lemma trim_token_trimmed:
  "tok \<noteq> [] \<Longrightarrow> \<not> c_isspace (hd tok) \<Longrightarrow> \<not> c_isspace (last tok) \<Longrightarrow> trim_token tok = tok"
proof -
  assume a: "tok \<noteq> []" "\<not> c_isspace (hd tok)" "\<not> c_isspace (last tok)"
  have 1: "dropWhile c_isspace tok = tok"
    using a by (cases tok) auto
  have 2: "dropWhile c_isspace (rev tok) = rev tok"
    using a(1,3) by (cases tok rule: rev_cases) simp_all
  show ?thesis
    by (simp add: trim_token_def 1 2)
qed

lemma append_trimmed_token_spec:
  assumes "append_trimmed_token ok tok b = (res, b1)" and "builder_ok b"
  shows "builder_ok b1 \<and> items b1 = items b @ (if res then wanted [tok] else []) \<and>
    (res \<longrightarrow> allocation_failed b1 = allocation_failed b) \<and> (\<not> res \<longrightarrow> allocation_failed b1)"
  using assms target_builder_append_spec [of ok "trim_token tok" b res b1]
  by (auto simp: append_trimmed_token_def builder_ok_def Let_def split: if_splits)

lemma trim_token_length: "length (trim_token tok) \<le> length tok"
  using length_dropWhile_le [of c_isspace "rev (dropWhile c_isspace tok)"]
    length_dropWhile_le [of c_isspace tok] by (simp add: trim_token_def)

lemma append_trimmed_token_total:
  assumes "\<And>n. ok n" and "length tok < 2 ^ 58" and "length (items b) < 2 ^ 58"
  shows "fst (append_trimmed_token ok tok b)"
  using assms target_builder_append_total [of ok "trim_token tok" b] trim_token_length [of tok]
  by (simp add: append_trimmed_token_def Let_def)

subsection \<open>The list parser\<close>

abbreviation list_finder :: "(selector_array \<Rightarrow> nat \<Rightarrow> bool) \<Rightarrow> char \<Rightarrow> string \<Rightarrow> nat option" where
  "list_finder mem d \<equiv> target_config_next_delimiter mem d"

lemma list_finder_eq: "list_finder mem d tok = snd (peak_target_selector_next_delimiter mem tok d True)"
  using next_delimiter_position [of mem tok d True False]
  by (auto simp: target_config_next_delimiter_def split: prod.splits bool.splits)
    (metis option.exhaust)

interpretation list_selector: delimiter_finder "list_finder mem d" d for mem d
  by unfold_locales (use selector.find_position in \<open>simp add: list_finder_eq\<close>)

lemma parse_loop_Some:
  assumes "list_finder mem d tok = Some p"
  shows "parse_loop ok mem d tok b = (case append_trimmed_token ok (take p tok) b of
      (False, b1) \<Rightarrow> b1 | (True, b1) \<Rightarrow> parse_loop ok mem d (drop (p + 1) tok) b1)"
  using assms list_selector.find_position [OF assms]
  by (subst parse_loop.simps) (simp split: bool.splits prod.splits)

text \<open>The builder after the loop: the wanted names of the fields, in order, all of them unless an
  allocation failed.\<close>

lemma parse_loop_spec:
  assumes "builder_ok b" and "b1 = parse_loop ok mem d tok b" and "\<not> allocation_failed b"
  shows "builder_ok b1 \<and> (\<exists>ys. items b1 = items b @ ys \<and>
    prefix ys (wanted (split_fields (list_finder mem d) tok)) \<and>
    (\<not> allocation_failed b1 \<longrightarrow> ys = wanted (split_fields (list_finder mem d) tok)))"
  using assms
proof (induction tok arbitrary: b rule: length_induct)
  case (1 tok)
  show ?case
  proof (cases "list_finder mem d tok")
    case None
    obtain res b2 where app: "append_trimmed_token ok tok b = (res, b2)"
      by (cases "append_trimmed_token ok tok b")
    have "b1 = b2"
      using 1 None app by (simp add: parse_loop.simps [of ok mem d tok])
    then show ?thesis
      using append_trimmed_token_spec [OF app 1(2)] None 1(4)
      by (cases res) (auto simp: split_fields.simps [of _ tok])
  next
    case (Some p)
    obtain res b2 where app: "append_trimmed_token ok (take p tok) b = (res, b2)"
      by (cases "append_trimmed_token ok (take p tok) b")
    note a = append_trimmed_token_spec [OF app 1(2)]
    note flds = list_selector.split_fields_Some [OF Some]
    have len: "length (drop (p + 1) tok) < length tok"
      using list_selector.find_position [OF Some] by auto
    show ?thesis
    proof (cases res)
      case True
      then have "b1 = parse_loop ok mem d (drop (p + 1) tok) b2" "\<not> allocation_failed b2" "builder_ok b2"
        using 1(3,4) parse_loop_Some [OF Some] app a by simp_all
      then obtain rest where "builder_ok b1" "items b1 = items b2 @ rest"
        "prefix rest (wanted (split_fields (list_finder mem d) (drop (p + 1) tok)))"
        "\<not> allocation_failed b1 \<longrightarrow> rest = wanted (split_fields (list_finder mem d) (drop (p + 1) tok))"
        using 1(1) len by blast
      then show ?thesis
        using a True flds by (intro conjI exI [of _ "wanted [take p tok] @ rest"]) auto
    next
      case False
      then show ?thesis
        using 1(3) parse_loop_Some [OF Some] app a by auto
    qed
  qed
qed

text \<open>Without refused allocations nothing is lost.\<close>

lemma parse_loop_total:
  assumes "\<And>n. ok n" and "length (items b) + length tok < 2 ^ 58" and "builder_ok b"
  shows "allocation_failed (parse_loop ok mem d tok b) = allocation_failed b"
  using assms(2,3)
proof (induction tok arbitrary: b rule: length_induct)
  case (1 tok)
  show ?case
  proof (cases "list_finder mem d tok")
    case None
    obtain b2 where app: "append_trimmed_token ok tok b = (True, b2)"
      using append_trimmed_token_total [of ok tok b] assms(1) 1(2)
      by (cases "append_trimmed_token ok tok b") auto
    then show ?thesis
      using append_trimmed_token_spec [OF app 1(3)] None by (simp add: parse_loop.simps [of ok mem d tok])
  next
    case (Some p)
    have p: "p < length tok"
      using list_selector.find_position [OF Some] by simp
    obtain b2 where app: "append_trimmed_token ok (take p tok) b = (True, b2)"
      using append_trimmed_token_total [of ok "take p tok" b] assms(1) 1(2) p
      by (cases "append_trimmed_token ok (take p tok) b") auto
    note a = append_trimmed_token_spec [OF app 1(3)]
    have "length (wanted [take p tok]) \<le> 1"
      by simp
    then have "length (items b2) + length (drop (p + 1) tok) < 2 ^ 58"
      using a p 1(2) by auto
    then have "allocation_failed (parse_loop ok mem d (drop (p + 1) tok) b2) = allocation_failed b2"
      using 1(1) a p by auto
    then show ?thesis
      using parse_loop_Some [OF Some] app a by simp
  qed
qed

lemma target_builder_from_result_ok: "builder_ok (target_builder_from_result result)"
  by (simp add: builder_ok_def target_builder_from_result_def)

lemma target_config_duplicate_spec:
  assumes "target_config_duplicate ok v b = (res, b1)"
  shows "items b1 = items b \<and> builder_capacity b1 = builder_capacity b \<and>
    (if res then allocation_failed b1 = allocation_failed b else allocation_failed b1)"
  using assms by (auto simp: target_config_duplicate_def attempt_def split: option.splits bool.splits)

lemma target_config_duplicate_total:
  "\<lbrakk>\<And>n. ok n; length v < 2 ^ 58\<rbrakk> \<Longrightarrow> fst (target_config_duplicate ok v b)"
  by (simp add: target_config_duplicate_def checked_add_size_def attempt_def SIZE_MAX_def)

subsection \<open>Splitting plain lists\<close>

lemma word_at_drop: "word_at (drop n t) i w = word_at t (n + i) w"
  by (simp add: word_at_def add.commute)

lemma plain_text_drop: "plain_text t \<Longrightarrow> plain_text (drop n t)"
  by (auto simp: plain_text_def list_all_iff word_at_drop dest: in_set_dropD)

lemma list_finder_plain:
  assumes "plain_text t" "mem Frame_array 8" "mem Angle_array 8" "d \<noteq> NUL"
  shows "list_finder mem d t = first_index t d"
  using next_delimiter_plain [of t mem d True] assms by (simp add: target_config_next_delimiter_def)

lemma split_fields_plain:
  assumes "mem Frame_array 8" "mem Angle_array 8" "d \<noteq> NUL" and "plain_text t"
  shows "split_fields (list_finder mem d) t = split_fields (\<lambda>t. first_index t d) t"
  using assms(4)
proof (induction t rule: length_induct)
  case (1 t)
  show ?case
  proof (cases "first_index t d")
    case None
    then show ?thesis
      using list_finder_plain assms 1(2) by (simp add: split_fields.simps [of _ t])
  next
    case (Some p)
    then have "p < length t"
      using strchr.find_position by blast
    then show ?thesis
      using Some list_finder_plain [of t mem d] 1 assms(1-3) plain_text_drop [OF 1(2)]
        list_selector.split_fields_Some [of mem d t p] strchr.split_fields_Some [OF Some]
      by (simp add: less_imp_diff_less)
  qed
qed

lemma first_index_append:
  "d \<notin> set f \<Longrightarrow> first_index (f @ d # t) d = Some (length f)"
  by (simp add: first_index_def takeWhile_append)

lemma split_join_fields:
  assumes "fs \<noteq> []" and "\<forall>f \<in> set fs. d \<notin> set f"
  shows "split_fields (\<lambda>t. first_index t d) (join_fields d fs) = fs"
  using assms
proof (induction d fs rule: join_fields.induct)
  case (2 d f)
  then show ?case
    by (subst split_fields.simps) (simp add: first_index_def)
next
  case (3 d f g fs)
  then have "first_index (join_fields d (f # g # fs)) d = Some (length f)"
    by (simp add: first_index_append)
  from strchr.split_fields_Some [OF this] show ?case
    using 3 by simp
qed simp

lemma wanted_trimmed:
  assumes "\<forall>f \<in> set fs. f \<noteq> [] \<and> \<not> c_isspace (hd f) \<and> \<not> c_isspace (last f)"
  shows "wanted fs = fs"
  using assms by (induction fs) (auto simp: trim_token_trimmed)

subsection \<open>The group loader\<close>

definition group_symbols :: "(string \<times> string list) list \<Rightarrow> string list \<Rightarrow> string list" where
  "group_symbols groups fs =
     concat (map (\<lambda>f. case find_target_group groups f of None \<Rightarrow> [] | Some syms \<Rightarrow> syms) (wanted fs))"

lemma append_symbols_spec:
  assumes "builder_ok b" and "\<not> allocation_failed b"
  shows "builder_ok (append_symbols ok syms b) \<and>
    (\<exists>ys. items (append_symbols ok syms b) = items b @ ys \<and> prefix ys syms \<and>
      (\<not> allocation_failed (append_symbols ok syms b) \<longrightarrow> ys = syms))"
  using assms
proof (induction syms arbitrary: b)
  case Nil
  then show ?case by simp
next
  case (Cons y syms)
  obtain res b1 where app: "target_builder_append ok y b = (res, b1)"
    by (cases "target_builder_append ok y b")
  note a = target_builder_append_spec [OF app Cons.prems(1)]
  show ?case
  proof (cases res)
    case True
    then obtain zs where "builder_ok (append_symbols ok syms b1)"
      "items (append_symbols ok syms b1) = items b1 @ zs" "prefix zs syms"
      "\<not> allocation_failed (append_symbols ok syms b1) \<longrightarrow> zs = syms"
      using Cons.IH [of b1] Cons.prems a by auto
    then show ?thesis
      using True app a by (intro conjI exI [of _ "y # zs"]) auto
  next
    case False
    then show ?thesis
      using app a by auto
  qed
qed

lemma append_group_spec:
  assumes "builder_ok b" and "\<not> allocation_failed b"
  shows "builder_ok (append_group ok groups tok b) \<and>
    (\<exists>ys. items (append_group ok groups tok b) = items b @ ys \<and> prefix ys (group_symbols groups [tok]) \<and>
      (\<not> allocation_failed (append_group ok groups tok b) \<longrightarrow> ys = group_symbols groups [tok]))"
proof (cases "trim_token tok = [] \<or> find_target_group groups (trim_token tok) = None")
  case True
  then show ?thesis
    using assms by (auto simp: append_group_def group_symbols_def builder_ok_def Let_def)
next
  case False
  then show ?thesis
    using append_symbols_spec [OF assms] by (auto simp: append_group_def group_symbols_def Let_def)
qed

lemma group_loop_spec:
  assumes "builder_ok b" and "\<not> allocation_failed b" and "b1 = group_loop ok groups tok b"
  shows "builder_ok b1 \<and> (\<exists>ys. items b1 = items b @ ys \<and>
    prefix ys (group_symbols groups (split_fields (\<lambda>t. first_index t (CHR '','')) tok)) \<and>
    (\<not> allocation_failed b1 \<longrightarrow> ys = group_symbols groups (split_fields (\<lambda>t. first_index t (CHR '','')) tok)))"
  using assms
proof (induction tok arbitrary: b rule: length_induct)
  case (1 tok)
  show ?case
  proof (cases "first_index tok (CHR '','')")
    case None
    then show ?thesis
      using append_group_spec [OF 1(2,3), of ok groups tok] 1(4)
      by (simp add: group_loop.simps [of ok groups tok] split_fields.simps [of _ tok])
  next
    case (Some p)
    have p: "p < length tok"
      using strchr.find_position [OF Some] by simp
    define b2 where "b2 = append_group ok groups (take p tok) b"
    obtain ys where a: "builder_ok b2" "items b2 = items b @ ys" "prefix ys (group_symbols groups [take p tok])"
      "\<not> allocation_failed b2 \<longrightarrow> ys = group_symbols groups [take p tok]"
      using append_group_spec [OF 1(2,3), of ok groups "take p tok"] b2_def by blast
    let ?rest = "split_fields (\<lambda>t. first_index t (CHR '','')) (drop (p + 1) tok)"
    have syms: "group_symbols groups (take p tok # ?rest) =
        group_symbols groups [take p tok] @ group_symbols groups ?rest"
      by (simp add: group_symbols_def)
    have b1: "b1 = (if allocation_failed b2 then b2 else group_loop ok groups (drop (p + 1) tok) b2)"
      using 1(4) Some p by (simp add: group_loop.simps [of ok groups tok] b2_def Let_def)
    note flds = strchr.split_fields_Some [OF Some]
    show ?thesis
    proof (cases "allocation_failed b2")
      case True
      have "prefix ys (group_symbols groups [take p tok] @ rest)" for rest
        using a(3) by (rule prefix_prefix)
      then show ?thesis
        unfolding flds syms using a(1,2) b1 True by (intro conjI exI [of _ ys]) simp_all
    next
      case False
      have len: "length (drop (p + 1) tok) < length tok"
        using p by simp
      obtain zs where "builder_ok b1" "items b1 = items b2 @ zs"
        "prefix zs (group_symbols groups (split_fields (\<lambda>t. first_index t (CHR '','')) (drop (p + 1) tok)))"
        "\<not> allocation_failed b1 \<longrightarrow>
          zs = group_symbols groups (split_fields (\<lambda>t. first_index t (CHR '','')) (drop (p + 1) tok))"
        using 1(1) [rule_format, OF len a(1) False] b1 False by auto
      then show ?thesis
        unfolding flds syms using a False by (intro conjI exI [of _ "ys @ zs"]) simp_all
    qed
  qed
qed

lemma read_lines_spec:
  assumes "builder_ok b" and "\<not> allocation_failed b" and "b1 = read_lines ok lines b"
  shows "builder_ok b1 \<and> (\<exists>ys. items b1 = items b @ ys \<and> prefix ys (wanted lines) \<and>
    (\<not> allocation_failed b1 \<longrightarrow> ys = wanted lines))"
  using assms
proof (induction lines arbitrary: b)
  case Nil
  then show ?case by simp
next
  case (Cons line lines)
  obtain res b2 where app: "append_trimmed_token ok line b = (res, b2)"
    by (cases "append_trimmed_token ok line b")
  note a = append_trimmed_token_spec [OF app Cons.prems(1)]
  show ?case
  proof (cases res)
    case True
    then obtain zs where "builder_ok b1" "items b1 = items b2 @ zs" "prefix zs (wanted lines)"
      "\<not> allocation_failed b1 \<longrightarrow> zs = wanted lines"
      using Cons.IH [of b2] Cons.prems a app by auto
    then show ?thesis
      using True a by (intro conjI exI [of _ "wanted [line] @ zs"]) auto
  next
    case False
    then show ?thesis
      using app a Cons.prems by auto
  qed
qed

subsection \<open>Properties of the target lists\<close>

text \<open>(C21) Target lists, whatever the allocator answers: the value is cut into fields at the
  selector-aware delimiters without losing a character (joining the fields again gives the value),
  the list returned holds the trimmed nonempty fields in their order, and when an allocation fails
  it holds a prefix of them and the failure flag is set. The count returned is the length of the
  list, and the list never outgrows its capacity.\<close>

theorem target_list_is_faithful:
  assumes "val \<noteq> []" and "delimiter \<noteq> NUL"
    and "parse_env_w_delim ok mem (Some val) delimiter = (count, b)"
  shows "count = length (items b) \<and> count \<le> builder_capacity b \<and>
    join_fields delimiter (split_fields (target_config_next_delimiter mem delimiter) val) = val \<and>
    prefix (items b) (wanted (split_fields (target_config_next_delimiter mem delimiter) val)) \<and>
    (\<not> allocation_failed b \<longrightarrow>
      items b = wanted (split_fields (target_config_next_delimiter mem delimiter) val))"
proof -
  let ?b0 = "target_builder_from_result []"
  obtain res b1 where dup: "target_config_duplicate ok val ?b0 = (res, b1)"
    by (cases "target_config_duplicate ok val ?b0")
  note d = target_config_duplicate_spec [OF dup]
  have b0: "items ?b0 = []" "builder_capacity ?b0 = 0" "\<not> allocation_failed ?b0"
    by (simp_all add: target_builder_from_result_def)
  have b: "b = (if res then parse_loop ok mem delimiter val b1 else b1)" "count = length (items b)"
    using assms dup by (auto simp: parse_env_w_delim_def Let_def split: bool.splits)
  have b1: "builder_ok b1" "items b1 = []"
    using d b0 by (simp_all add: builder_ok_def)
  show ?thesis
  proof (cases res)
    case True
    then show ?thesis
      using parse_loop_spec [OF b1(1), of b ok mem delimiter val] b b1 b0 d list_selector.join_split
      by (auto simp: builder_ok_def)
  next
    case False
    then show ?thesis
      using b b1 d list_selector.join_split by (simp add: builder_ok_def)
  qed
qed

text \<open>Round trip of target lists: joining names that contain no delimiter, no surrounding
  blanks and no selector syntax and parsing the result gives the names back, in order and
  complete, when memory is available.\<close>

theorem target_list_round_trip:
  assumes "\<And>n. ok n" and "mem Frame_array 8" and "mem Angle_array 8" and "delimiter \<noteq> NUL"
    and "fs \<noteq> []" and "\<forall>f \<in> set fs. f \<noteq> [] \<and> \<not> c_isspace (hd f) \<and> \<not> c_isspace (last f) \<and> delimiter \<notin> set f"
    and "plain_text (join_fields delimiter fs)" and "length (join_fields delimiter fs) < 2 ^ 58"
  shows "\<exists>b. parse_env_w_delim ok mem (Some (join_fields delimiter fs)) delimiter = (length fs, b) \<and> items b = fs"
proof -
  let ?v = "join_fields delimiter fs" and ?b0 = "target_builder_from_result []"
  have ne: "?v \<noteq> []"
    using assms(5,6) by (induction delimiter fs rule: join_fields.induct) auto
  obtain b1 where dup: "target_config_duplicate ok ?v ?b0 = (True, b1)"
    using target_config_duplicate_total [of ok ?v ?b0] assms(1,8)
    by (cases "target_config_duplicate ok ?v ?b0") auto
  note d = target_config_duplicate_spec [OF dup]
  have b1: "builder_ok b1" "items b1 = []" "\<not> allocation_failed b1"
    using d by (simp_all add: builder_ok_def target_builder_from_result_def)
  define b where "b = parse_loop ok mem delimiter ?v b1"
  have "\<not> allocation_failed b"
    using parse_loop_total [of ok b1 ?v mem delimiter] assms(1,8) b1 by (simp add: b_def)
  then have "items b = wanted (split_fields (list_finder mem delimiter) ?v)"
    using parse_loop_spec [OF b1(1) b_def b1(3)] b1(2) by auto
  also have "\<dots> = wanted fs"
    using split_fields_plain [of mem delimiter ?v] assms(2-4,7) split_join_fields [of fs delimiter] assms(5,6) by simp
  also have "\<dots> = fs"
    using assms(6) by (intro wanted_trimmed) auto
  finally have "items b = fs" .
  then show ?thesis
    using assms(4) ne dup by (simp add: parse_env_w_delim_def Let_def b_def)
qed

text \<open>Loading groups or a target file keeps the targets already configured and appends the
  group symbols, or the trimmed nonempty lines, in order. When an allocation fails the result is the
  earlier list with a prefix of the new names. The number returned is the number of names added.\<close>

theorem loaders_only_append:
  assumes "load_symbols_from_array ok groups (Some val) existing = (n, b)" and "val \<noteq> []"
    and "load_profiling_symbols ok' file (Some path) existing = (n', b')" and "path \<noteq> []"
    and "file path = Some lines"
  shows "(\<exists>ys. items b = existing @ ys \<and> n = length ys \<and>
      prefix ys (group_symbols groups (split_fields (\<lambda>t. first_index t (CHR '','')) val)) \<and>
      (\<not> allocation_failed b \<longrightarrow> ys = group_symbols groups (split_fields (\<lambda>t. first_index t (CHR '','')) val))) \<and>
    (\<exists>ys. items b' = existing @ ys \<and> n' = length ys \<and> prefix ys (wanted lines) \<and>
      (\<not> allocation_failed b' \<longrightarrow> ys = wanted lines))"
proof -
  let ?b0 = "target_builder_from_result existing"
  have b0: "builder_ok ?b0" "items ?b0 = existing" "\<not> allocation_failed ?b0"
    by (simp_all add: builder_ok_def target_builder_from_result_def)
  obtain res b1 where dup: "target_config_duplicate ok val ?b0 = (res, b1)"
    by (cases "target_config_duplicate ok val ?b0")
  note d = target_config_duplicate_spec [OF dup]
  have b: "b = (if res then group_loop ok groups val b1 else b1)" "n = length (items b) - length existing"
    using assms(1,2) dup by (auto simp: load_symbols_from_array_def Let_def split: bool.splits)
  have b1: "builder_ok b1" "items b1 = existing"
    using d b0 by (simp_all add: builder_ok_def)
  have 1: "\<exists>ys. items b = existing @ ys \<and> n = length ys \<and>
      prefix ys (group_symbols groups (split_fields (\<lambda>t. first_index t (CHR '','')) val)) \<and>
      (\<not> allocation_failed b \<longrightarrow> ys = group_symbols groups (split_fields (\<lambda>t. first_index t (CHR '','')) val))"
  proof (cases res)
    case True
    then show ?thesis
      using group_loop_spec [OF b1(1), of b ok groups val] b b0 b1 d by auto
  next
    case False
    then show ?thesis
      using b b1 d by simp
  qed
  have b': "b' = read_lines ok' lines ?b0" "n' = length (items b') - length existing"
    using assms(3-5) by (auto simp: load_profiling_symbols_def Let_def)
  show ?thesis
    using 1 read_lines_spec [OF b0(1,3) b'(1)] b0(2) b'(2) by auto
qed

theorem target_list_is_faithful_witness:
  "prefix (items (snd (parse_env_w_delim (\<lambda>n. n < 3) (\<lambda>_ _. True) (Some ''f<a,b>, g'') (CHR '',''))))
    [''f<a,b>'', ''g'']"
proof -
  let ?r = "parse_env_w_delim (\<lambda>n. n < 3) (\<lambda>_ _. True) (Some ''f<a,b>, g'') (CHR '','')"
  have "wanted (split_fields (target_config_next_delimiter (\<lambda>_ _. True) (CHR '','')) ''f<a,b>, g'') = [''f<a,b>'', ''g'']"
    by code_simp
  with target_list_is_faithful [of "''f<a,b>, g''" "CHR '',''" "\<lambda>n. n < 3" "\<lambda>_ _. True" "fst ?r" "snd ?r"]
  show ?thesis
    by (simp add: NUL_def)
qed

theorem target_list_round_trip_witness:
  "\<exists>b. parse_env_w_delim (\<lambda>_. True) (\<lambda>_ _. True) (Some ''dgemm,ddot'') (CHR '','') = (2, b) \<and>
    items b = [''dgemm'', ''ddot'']"
proof -
  let ?fs = "[''dgemm'', ''ddot'']"
  have j: "join_fields (CHR '','') ?fs = ''dgemm,ddot''"
    by simp
  have "plain_text (join_fields (CHR '','') ?fs)"
    "\<forall>f \<in> set ?fs. f \<noteq> [] \<and> \<not> c_isspace (hd f) \<and> \<not> c_isspace (last f) \<and> CHR '','' \<notin> set f"
    by code_simp+
  moreover have "length (join_fields (CHR '','') ?fs) < 2 ^ 58"
    by simp
  ultimately have "\<exists>b. parse_env_w_delim (\<lambda>_. True) (\<lambda>_ _. True) (Some (join_fields (CHR '','') ?fs)) (CHR '','') =
      (length ?fs, b) \<and> items b = ?fs"
    by (intro target_list_round_trip) (simp_all only: NUL_def, simp_all)
  then show ?thesis
    unfolding j by (simp add: numeral_2_eq_2)
qed

theorem loaders_only_append_witness:
  "(\<exists>ys. items (snd (load_symbols_from_array (\<lambda>n. n < 2) [(''BLAS'', [''dgemm_''])] (Some ''BLAS'') [''main''])) =
      [''main''] @ ys \<and> prefix ys [''dgemm_'']) \<and>
    (\<exists>ys. items (snd (load_profiling_symbols (\<lambda>_. False) (\<lambda>_. Some [''f'']) (Some ''p'') [''main''])) = [''main''] @ ys)"
proof -
  let ?a = "load_symbols_from_array (\<lambda>n. n < 2) [(''BLAS'', [''dgemm_''])] (Some ''BLAS'') [''main'']"
  let ?p = "load_profiling_symbols (\<lambda>_. False) (\<lambda>_. Some [''f'']) (Some ''p'') [''main'']"
  have "group_symbols [(''BLAS'', [''dgemm_''])] (split_fields (\<lambda>t. first_index t (CHR '','')) ''BLAS'') = [''dgemm_'']"
    by code_simp
  with loaders_only_append [of "\<lambda>n. n < 2" "[(''BLAS'', [''dgemm_''])]" "''BLAS''" "[''main'']" "fst ?a" "snd ?a"
      "\<lambda>_. False" "\<lambda>_. Some [''f'']" "''p''" "fst ?p" "snd ?p" "[''f'']"]
  show ?thesis
    by auto
qed

end
