(* ===== verification/Env_Parser.thy ===== *)
theory Env_Parser
  imports Selector_Syntax
begin

text \<open>
  Validated numeric environment variables, \<^verbatim>\<open>src/utils/env_parser.c\<close>: the unsigned schema parser, the
  once-only fallback warnings and the boolean parser. \<^verbatim>\<open>getenv\<close> is an argument of type \<open>environment\<close>.
  The C library's \<^verbatim>\<open>strtoull\<close> and \<^verbatim>\<open>strtol\<close> in base ten are modelled by their result, the text from
  \<^verbatim>\<open>end\<close> on, and the \<^verbatim>\<open>ERANGE\<close> indication.
\<close>

type_synonym environment = "string \<Rightarrow> string option"

definition ULLONG_MAX :: nat where
  "ULLONG_MAX = 2 ^ 64 - 1"

definition c_isdigit :: "char \<Rightarrow> bool" where
  "c_isdigit c \<longleftrightarrow> c \<in> set ''0123456789''"

definition digit_value :: "char \<Rightarrow> nat" where
  "digit_value c = of_char c - of_char (CHR ''0'')"

definition digits_value :: "string \<Rightarrow> nat" where
  "digits_value ds = foldl (\<lambda>n c. 10 * n + digit_value c) 0 ds"

text \<open>The optional sign of a number: whether it is a minus, and the text behind it.\<close>

definition strip_sign :: "string \<Rightarrow> bool \<times> string" where
  "strip_sign inp =
     (case inp of
        [] \<Rightarrow> (False, inp)
      | c # rest \<Rightarrow> if c = CHR ''-'' then (True, rest) else if c = CHR ''+'' then (False, rest) else (False, inp))"

text \<open>The value, the text at \<^verbatim>\<open>end\<close> (the whole text when there are no digits) and \<^verbatim>\<open>errno == ERANGE\<close>.\<close>

definition strtoull :: "string \<Rightarrow> nat \<times> string \<times> bool" where
  "strtoull inp =
     (case strip_sign (dropWhile c_isspace inp) of
        (neg, body) \<Rightarrow>
          let ds = takeWhile c_isdigit body; n = digits_value ds in
          if ds = [] then (0, inp, False)
          else if n > ULLONG_MAX then (ULLONG_MAX, dropWhile c_isdigit body, True)
          else (if neg then (2 ^ 64 - n) mod 2 ^ 64 else n, dropWhile c_isdigit body, False))"

definition strtol :: "string \<Rightarrow> int \<times> string \<times> bool" where
  "strtol inp =
     (case strip_sign (dropWhile c_isspace inp) of
        (neg, body) \<Rightarrow>
          let ds = takeWhile c_isdigit body; n = (if neg then - int (digits_value ds) else int (digits_value ds)) in
          if ds = [] then (0, inp, False)
          else if n > 2 ^ 63 - 1 then (2 ^ 63 - 1, dropWhile c_isdigit body, True)
          else if n < - (2 ^ 63) then (- (2 ^ 63), dropWhile c_isdigit body, True)
          else (n, dropWhile c_isdigit body, False))"

record PeakEnvUnsignedSchema =
  schema_name :: string
  schema_unit :: string
  schema_fallback :: nat
  schema_minimum :: nat
  schema_maximum :: nat
  zero_allowed :: bool
  warning_emitted :: "string option"
  decimal_digits_only :: bool

text \<open>The warning flags that are set, named by the variable they belong to, and the messages
  printed: variable and value.\<close>

record env_warnings =
  emitted :: "string list"
  messages :: "(string \<times> string) list"

definition env_warn_once :: "string option \<Rightarrow> string \<times> string \<Rightarrow> env_warnings \<Rightarrow> env_warnings" where
  "env_warn_once flag message w =
     (case flag of
        None \<Rightarrow> w\<lparr>messages := messages w @ [message]\<rparr>
      | Some f \<Rightarrow>
          if f \<in> set (emitted w) then w
          else w\<lparr>emitted := f # emitted w, messages := messages w @ [message]\<rparr>)"

definition env_warn_unsigned_fallback :: "PeakEnvUnsignedSchema \<Rightarrow> string \<Rightarrow> env_warnings \<Rightarrow> env_warnings" where
  "env_warn_unsigned_fallback schema inp w = env_warn_once (warning_emitted schema) (schema_name schema, inp) w"

definition parse_env_unsigned_checked :: "environment \<Rightarrow> PeakEnvUnsignedSchema \<Rightarrow> nat option" where
  "parse_env_unsigned_checked getenv schema =
     (case getenv (schema_name schema) of
        None \<Rightarrow> None
      | Some inp \<Rightarrow>
          if decimal_digits_only schema \<and> (inp = [] \<or> \<not> list_all c_isdigit inp) then None
          else if inp = [] \<or> (case dropWhile c_isspace inp of [] \<Rightarrow> False | c # _ \<Rightarrow> c = CHR ''-'') then None
          else
            (case strtoull inp of
               (parsed, end_text, erange) \<Rightarrow>
                 if erange \<or> end_text = inp \<or> end_text \<noteq> [] \<or> parsed < schema_minimum schema \<or>
                    parsed > schema_maximum schema \<or> (\<not> zero_allowed schema \<and> parsed = 0)
                 then None else Some parsed))"

definition parse_env_unsigned :: "environment \<Rightarrow> PeakEnvUnsignedSchema \<Rightarrow> env_warnings \<Rightarrow> nat \<times> env_warnings" where
  "parse_env_unsigned getenv schema w =
     (case getenv (schema_name schema) of
        None \<Rightarrow> (schema_fallback schema, w)
      | Some inp \<Rightarrow>
          (case parse_env_unsigned_checked getenv schema of
             None \<Rightarrow> (schema_fallback schema, env_warn_unsigned_fallback schema inp w)
           | Some parsed \<Rightarrow> (parsed, w)))"

definition ascii_tolower :: "char \<Rightarrow> char" where
  "ascii_tolower c = (if c \<in> set ''ABCDEFGHIJKLMNOPQRSTUVWXYZ'' then char_of (of_char c + 32 :: nat) else c)"

definition parse_env_to_bool :: "environment \<Rightarrow> string \<Rightarrow> bool" where
  "parse_env_to_bool getenv env_var =
     (case getenv env_var of
        None \<Rightarrow> False
      | Some inp \<Rightarrow> map ascii_tolower inp = ''true'' \<or> inp = ''1'')"

subsection \<open>Decimal numbers\<close>

text \<open>The decimal text of a number, the reference for the parser.\<close>

fun decimal :: "nat \<Rightarrow> string" where
  "decimal n = (if n < 10 then [char_of (48 + n)] else decimal (n div 10) @ [char_of (48 + n mod 10)])"

declare decimal.simps [simp del]

lemma c_isdigit_char_of: "n < (10::nat) \<Longrightarrow> c_isdigit (char_of (48 + n))"
proof -
  assume "n < 10"
  then have "n \<in> set [0..<10]"
    by simp
  moreover have "list_all (\<lambda>n. c_isdigit (char_of (48 + n))) [0..<10]"
    by code_simp
  ultimately show ?thesis
    by (metis list_all_iff)
qed

lemma digit_value_char_of: "n < (10::nat) \<Longrightarrow> digit_value (char_of (48 + n)) = n"
  by (simp add: digit_value_def of_char_of)

lemma digits_value_snoc [simp]: "digits_value (ds @ [c]) = 10 * digits_value ds + digit_value c"
  by (simp add: digits_value_def)

lemma decimal_digits: "list_all c_isdigit (decimal n) \<and> decimal n \<noteq> [] \<and> digits_value (decimal n) = n"
proof (induction n rule: decimal.induct)
  case (1 n)
  show ?case
  proof (cases "n < 10")
    case True
    then show ?thesis
      using c_isdigit_char_of [of n] digit_value_char_of [of n]
      by (simp add: decimal.simps [of n] digits_value_def)
  next
    case False
    then show ?thesis
      using 1 c_isdigit_char_of [of "n mod 10"] digit_value_char_of [of "n mod 10"]
      by (simp add: decimal.simps [of n])
  qed
qed

lemma c_isdigit_not_space: "c_isdigit c \<Longrightarrow> \<not> c_isspace c \<and> c \<noteq> CHR ''-'' \<and> c \<noteq> CHR ''+''"
  by (auto simp: c_isdigit_def c_isspace_def)

text \<open>What the parser accepts: blanks, an optional plus sign, at least one digit, nothing else.\<close>

definition unsigned_text :: "string \<Rightarrow> nat \<Rightarrow> bool" where
  "unsigned_text inp n \<longleftrightarrow>
     (\<exists>blanks psign ds. inp = blanks @ psign @ ds \<and> list_all c_isspace blanks \<and> (psign = [] \<or> psign = ''+'') \<and>
        ds \<noteq> [] \<and> list_all c_isdigit ds \<and> digits_value ds = n)"

lemma digits_prefix:
  "list_all c_isdigit ds \<Longrightarrow> takeWhile c_isdigit ds = ds \<and> dropWhile c_isdigit ds = []"
  by (simp add: list_all_iff takeWhile_eq_all_conv dropWhile_eq_Nil_conv)

lemma drop_blanks:
  "list_all c_isspace blanks \<Longrightarrow> dropWhile c_isspace (blanks @ rest) = dropWhile c_isspace rest"
  by (simp add: list_all_iff dropWhile_append2)

lemma strip_sign_plain:
  "list_all c_isdigit ds \<Longrightarrow> ds \<noteq> [] \<Longrightarrow> psign = [] \<or> psign = ''+'' \<Longrightarrow>
     dropWhile c_isspace (psign @ ds) = psign @ ds \<and> strip_sign (psign @ ds) = (False, ds) \<and> hd (psign @ ds) \<noteq> CHR ''-''"
  by (cases ds) (auto simp: strip_sign_def c_isspace_def dest: c_isdigit_not_space)

lemma unsigned_text_parsed:
  assumes "unsigned_text inp n" and "n \<le> ULLONG_MAX"
  shows "strtoull inp = (n, [], False)" and "inp \<noteq> []"
    and "\<not> (case dropWhile c_isspace inp of [] \<Rightarrow> False | c # _ \<Rightarrow> c = CHR ''-'')"
proof -
  obtain blanks psign ds where t: "inp = blanks @ psign @ ds" "list_all c_isspace blanks" "psign = [] \<or> psign = ''+''"
    "ds \<noteq> []" "list_all c_isdigit ds" "digits_value ds = n"
    using assms(1) by (auto simp: unsigned_text_def)
  note s = strip_sign_plain [OF t(5,4,3)]
  have d: "dropWhile c_isspace inp = psign @ ds"
    using t s drop_blanks by simp
  show "strtoull inp = (n, [], False)"
    unfolding strtoull_def d conjunct1 [OF conjunct2 [OF s]] prod.case Let_def
      conjunct1 [OF digits_prefix [OF t(5)]] conjunct2 [OF digits_prefix [OF t(5)]]
    using assms(2) t(4,6) by (simp only: if_False not_le [symmetric]) simp
  show "inp \<noteq> []"
    using t by simp
  show "\<not> (case dropWhile c_isspace inp of [] \<Rightarrow> False | c # _ \<Rightarrow> c = CHR ''-'')"
    using s by (cases "psign @ ds") (simp_all add: d)
qed

lemma strip_sign_cases:
  "\<not> (case t of [] \<Rightarrow> False | c # _ \<Rightarrow> c = CHR ''-'') \<Longrightarrow>
     \<exists>psign body. (psign = [] \<or> psign = ''+'') \<and> t = psign @ body \<and> strip_sign t = (False, body)"
  by (cases t) (auto simp: strip_sign_def)

lemma strtoull_text:
  assumes "strtoull inp = (n, [], False)" and "inp \<noteq> []"
    and "\<not> (case dropWhile c_isspace inp of [] \<Rightarrow> False | c # _ \<Rightarrow> c = CHR ''-'')"
  shows "unsigned_text inp n \<and> n \<le> ULLONG_MAX"
proof -
  obtain psign body where s: "psign = [] \<or> psign = ''+''" "dropWhile c_isspace inp = psign @ body"
    "strip_sign (dropWhile c_isspace inp) = (False, body)"
    using strip_sign_cases [OF assms(3)] by blast
  have "(if takeWhile c_isdigit body = [] then (0, inp, False)
      else if digits_value (takeWhile c_isdigit body) > ULLONG_MAX then (ULLONG_MAX, dropWhile c_isdigit body, True)
      else (digits_value (takeWhile c_isdigit body), dropWhile c_isdigit body, False)) = (n, [], False)"
    using assms(1) unfolding strtoull_def s(3) prod.case Let_def by (simp only: if_False)
  then have d: "takeWhile c_isdigit body \<noteq> []" "digits_value (takeWhile c_isdigit body) \<le> ULLONG_MAX"
    "dropWhile c_isdigit body = []" "n = digits_value (takeWhile c_isdigit body)"
    using assms(2) by (simp_all split: if_split_asm)
  then have b: "takeWhile c_isdigit body = body" "list_all c_isdigit body"
    by (simp_all add: dropWhile_eq_Nil_conv takeWhile_eq_all_conv list_all_iff)
  have "inp = takeWhile c_isspace inp @ psign @ body"
    using s(2) takeWhile_dropWhile_id [of c_isspace inp] by simp
  moreover have "list_all c_isspace (takeWhile c_isspace inp)"
    by (auto simp: list_all_iff dest: set_takeWhileD)
  ultimately show ?thesis
    using d b s(1) unfolding unsigned_text_def by metis
qed

text \<open>What the checked parser accepts.\<close>

definition unsigned_accepted :: "PeakEnvUnsignedSchema \<Rightarrow> string \<Rightarrow> nat \<Rightarrow> bool" where
  "unsigned_accepted schema inp n \<longleftrightarrow>
     unsigned_text inp n \<and> n \<le> ULLONG_MAX \<and> schema_minimum schema \<le> n \<and> n \<le> schema_maximum schema \<and>
     (zero_allowed schema \<or> n \<noteq> 0) \<and> (decimal_digits_only schema \<longrightarrow> list_all c_isdigit inp)"

lemma parse_env_unsigned_checked_iff:
  assumes "getenv (schema_name schema) = Some inp"
  shows "parse_env_unsigned_checked getenv schema = Some n \<longleftrightarrow> unsigned_accepted schema inp n"
proof
  assume "parse_env_unsigned_checked getenv schema = Some n"
  then have "strtoull inp = (n, [], False)" "inp \<noteq> []"
    "\<not> (case dropWhile c_isspace inp of [] \<Rightarrow> False | c # _ \<Rightarrow> c = CHR ''-'')"
    "schema_minimum schema \<le> n" "n \<le> schema_maximum schema" "zero_allowed schema \<or> n \<noteq> 0"
    "decimal_digits_only schema \<longrightarrow> list_all c_isdigit inp"
    using assms by (auto simp: parse_env_unsigned_checked_def split: if_splits prod.splits)
  then show "unsigned_accepted schema inp n"
    using strtoull_text [of inp n] by (simp add: unsigned_accepted_def)
next
  assume a: "unsigned_accepted schema inp n"
  then show "parse_env_unsigned_checked getenv schema = Some n"
    using unsigned_text_parsed [of inp n] assms
    by (auto simp: parse_env_unsigned_checked_def unsigned_accepted_def)
qed

lemma decimal_unsigned_text: "unsigned_text (decimal n) n"
  unfolding unsigned_text_def using decimal_digits [of n] by (intro exI [of _ "[]"] exI [of _ "decimal n"]) simp

subsection \<open>Properties of the numeric parser\<close>

text \<open>(C40) The unsigned parser accepts exactly the texts that consist of blanks, an optional plus sign
  and decimal digits whose value fits 64 bits and lies within the bounds of the schema (with digits
  only when the schema asks for it), and returns that value. Negative, overflowing and partially
  numeric texts are refused.\<close>

theorem unsigned_parser_exact:
  assumes "getenv (schema_name schema) = Some inp"
  shows "parse_env_unsigned_checked getenv schema = Some n \<longleftrightarrow>
    (\<exists>blanks psign ds. inp = blanks @ psign @ ds \<and> list_all c_isspace blanks \<and> (psign = [] \<or> psign = ''+'') \<and>
       ds \<noteq> [] \<and> list_all c_isdigit ds \<and> digits_value ds = n) \<and> n \<le> ULLONG_MAX \<and>
    schema_minimum schema \<le> n \<and> n \<le> schema_maximum schema \<and> (zero_allowed schema \<or> n \<noteq> 0) \<and>
    (decimal_digits_only schema \<longrightarrow> list_all c_isdigit inp)"
  unfolding parse_env_unsigned_checked_iff [of getenv, OF assms] unsigned_accepted_def unsigned_text_def by simp

text \<open>Configuration values round trip: the decimal text of a number within the bounds parses to
  the number without a warning; a text the schema refuses gives the fallback, and however often it is
  parsed again the warning is printed at most once.\<close>

theorem unsigned_round_trip_and_fallback:
  assumes "getenv (schema_name schema) = Some inp" and "warning_emitted schema = Some f"
  shows "(inp = decimal n \<and> n \<le> ULLONG_MAX \<and> schema_minimum schema \<le> n \<and> n \<le> schema_maximum schema \<and>
      (zero_allowed schema \<or> n \<noteq> 0) \<longrightarrow> parse_env_unsigned getenv schema w = (n, w)) \<and>
    ((\<nexists>n. unsigned_accepted schema inp n) \<longrightarrow>
      (\<exists>w1. parse_env_unsigned getenv schema w = (schema_fallback schema, w1) \<and>
        parse_env_unsigned getenv schema w1 = (schema_fallback schema, w1) \<and>
        (f \<notin> set (emitted w) \<longrightarrow> messages w1 = messages w @ [(schema_name schema, inp)])))"
proof (intro conjI impI)
  assume "inp = decimal n \<and> n \<le> ULLONG_MAX \<and> schema_minimum schema \<le> n \<and> n \<le> schema_maximum schema \<and>
      (zero_allowed schema \<or> n \<noteq> 0)"
  then show "parse_env_unsigned getenv schema w = (n, w)"
    using parse_env_unsigned_checked_iff [of getenv schema inp n] assms(1) decimal_unsigned_text [of n] decimal_digits [of n]
    by (simp add: unsigned_accepted_def parse_env_unsigned_def)
next
  assume "\<nexists>n. unsigned_accepted schema inp n"
  then have "parse_env_unsigned_checked getenv schema = None"
    using parse_env_unsigned_checked_iff [of getenv schema inp, OF assms(1)]
    by (cases "parse_env_unsigned_checked getenv schema") blast+
  then show "\<exists>w1. parse_env_unsigned getenv schema w = (schema_fallback schema, w1) \<and>
      parse_env_unsigned getenv schema w1 = (schema_fallback schema, w1) \<and>
      (f \<notin> set (emitted w) \<longrightarrow> messages w1 = messages w @ [(schema_name schema, inp)])"
    using assms by (simp add: parse_env_unsigned_def env_warn_unsigned_fallback_def env_warn_once_def)
qed

theorem unsigned_parser_exact_witness:
  "parse_env_unsigned_checked (\<lambda>_. Some '' +15'')
     \<lparr>schema_name = ''N'', schema_unit = ''ms'', schema_fallback = 7, schema_minimum = 1, schema_maximum = 100,
      zero_allowed = False, warning_emitted = Some ''N'', decimal_digits_only = False\<rparr> = Some 15"
proof -
  have "'' +15'' = '' '' @ ''+'' @ ''15'' \<and> list_all c_isspace '' '' \<and> list_all c_isdigit ''15'' \<and> digits_value ''15'' = 15"
    by code_simp
  moreover have "(15::nat) \<le> ULLONG_MAX"
    by (simp add: ULLONG_MAX_def)
  ultimately have "\<exists>blanks psign ds. '' +15'' = blanks @ psign @ ds \<and> list_all c_isspace blanks \<and>
      (psign = [] \<or> psign = ''+'') \<and> ds \<noteq> [] \<and> list_all c_isdigit ds \<and> digits_value ds = 15"
    by (intro exI [of _ "'' ''"] exI [of _ "''+''"] exI [of _ "''15''"]) simp
  with \<open>15 \<le> ULLONG_MAX\<close> show ?thesis
    by (subst unsigned_parser_exact [of _ _ "'' +15''"]) simp_all
qed

theorem unsigned_round_trip_and_fallback_witness:
  "parse_env_unsigned (\<lambda>_. Some (decimal 15))
     \<lparr>schema_name = ''N'', schema_unit = ''ms'', schema_fallback = 7, schema_minimum = 1, schema_maximum = 100,
      zero_allowed = False, warning_emitted = Some ''N'', decimal_digits_only = False\<rparr>
     \<lparr>emitted = [], messages = []\<rparr> = (15, \<lparr>emitted = [], messages = []\<rparr>)"
  by (rule conjunct1 [OF unsigned_round_trip_and_fallback [of _ _ "decimal 15"], THEN mp])
    (simp_all add: ULLONG_MAX_def)

end
