(* ===== verification/Runtime_Config.thy ===== *)
theory Runtime_Config
  imports Env_Parser
begin

text \<open>
  Report and listener settings, \<^verbatim>\<open>src/general_listener/runtime_config.c\<close>: the timeout budget shared by
  socket publication and MPI teardown, the rank and size of the MPI world as the launcher announces
  them, and the truth values of variables. Unsigned C integers are 32-bit words, so that the absence
  of wrap-around is something the theorems show.
\<close>

definition INT_MAX :: nat where
  "INT_MAX = 2 ^ 31 - 1"

definition UINT_MAX :: nat where
  "UINT_MAX = 2 ^ 32 - 1"

definition parse_positive_uint_bounded ::
  "environment \<Rightarrow> string \<Rightarrow> nat \<Rightarrow> string option \<Rightarrow> nat \<Rightarrow> env_warnings \<Rightarrow> uint32 option \<times> env_warnings" where
  "parse_positive_uint_bounded getenv name maximum flag fallback w =
     (let schema = \<lparr>schema_name = name, schema_unit = ''milliseconds'', schema_fallback = fallback,
                    schema_minimum = 1, schema_maximum = maximum, zero_allowed = False,
                    warning_emitted = flag, decimal_digits_only = False\<rparr> in
      case getenv name of
        None \<Rightarrow> (None, w)
      | Some _ \<Rightarrow>
          (case parse_env_unsigned_checked getenv schema of
             None \<Rightarrow> (None, snd (parse_env_unsigned getenv schema w))
           | Some parsed \<Rightarrow> (Some (of_nat parsed), w)))"

definition multiply_saturated :: "uint32 \<Rightarrow> uint32 \<Rightarrow> uint32 \<Rightarrow> uint32" where
  "multiply_saturated v multiplier maximum = (if v > maximum div multiplier then maximum else v * multiplier)"

definition add_saturated :: "uint32 \<Rightarrow> uint32 \<Rightarrow> uint32" where
  "add_saturated left right = (if left > - 1 - right then - 1 else left + right)"

record PeakReportTimeoutBudget =
  socket_phase_timeout_ms :: uint32
  socket_gather_wave_budget_ms :: uint32
  socket_gather_hard_timeout_ms :: uint32
  socket_release_timeout_ms :: uint32
  mpi_report_release_timeout_ms :: uint32
  socket_gather_timeout_was_scaled :: bool
  socket_release_was_raised :: bool
  socket_combined_release_minimum_ms :: uint32

text \<open>The macros of the header and of the file.\<close>

definition PEAK_SOCKET_GATHER_ACTIVE_MAX :: uint32 where
  "PEAK_SOCKET_GATHER_ACTIVE_MAX = 128"

definition PEAK_SOCKET_GATHER_WAVE_BUDGET_MS :: uint32 where
  "PEAK_SOCKET_GATHER_WAVE_BUDGET_MS = 5000"

definition PEAK_SOCKET_GATHER_ADAPTIVE_MARGIN_MAX_MS :: uint32 where
  "PEAK_SOCKET_GATHER_ADAPTIVE_MARGIN_MAX_MS = 300000"

definition PEAK_SOCKET_PHASE_TIMEOUT_MS_DEFAULT :: uint32 where
  "PEAK_SOCKET_PHASE_TIMEOUT_MS_DEFAULT = 60000"

definition PEAK_MPI_REPORT_RELEASE_TIMEOUT_MS_DEFAULT :: uint32 where
  "PEAK_MPI_REPORT_RELEASE_TIMEOUT_MS_DEFAULT = 180000"

definition word_INT_MAX :: uint32 where
  "word_INT_MAX = of_nat INT_MAX"

lemmas budget_constants =
  PEAK_SOCKET_GATHER_ACTIVE_MAX_def PEAK_SOCKET_GATHER_WAVE_BUDGET_MS_def
  PEAK_SOCKET_GATHER_ADAPTIVE_MARGIN_MAX_MS_def PEAK_SOCKET_PHASE_TIMEOUT_MS_DEFAULT_def
  PEAK_MPI_REPORT_RELEASE_TIMEOUT_MS_DEFAULT_def

text \<open>The number of connection waves, the absolute gather deadline and the release minimum.\<close>

definition gather_waves :: "uint32 \<Rightarrow> uint32" where
  "gather_waves rank_count =
     (let peer_count = (if rank_count > 0 then rank_count - 1 else 0) in
      peer_count div PEAK_SOCKET_GATHER_ACTIVE_MAX + (if peer_count mod PEAK_SOCKET_GATHER_ACTIVE_MAX \<noteq> 0 then 1 else 0))"

definition gather_hard_timeout :: "uint32 \<Rightarrow> uint32 \<Rightarrow> uint32" where
  "gather_hard_timeout phase adaptive_margin =
     (if phase > word_INT_MAX - adaptive_margin then word_INT_MAX else phase + adaptive_margin)"

definition minimum_socket_release :: "uint32 \<Rightarrow> uint32 \<Rightarrow> uint32" where
  "minimum_socket_release hard phase =
     (let m = add_saturated hard (multiply_saturated phase 2 word_INT_MAX)
      in if m > word_INT_MAX then word_INT_MAX else m)"

definition report_timeout_budget_for_rank_count ::
  "environment \<Rightarrow> uint32 \<Rightarrow> env_warnings \<Rightarrow> PeakReportTimeoutBudget \<times> env_warnings" where
  "report_timeout_budget_for_rank_count getenv rank_count w0 =
     (let (configured, w1) = parse_positive_uint_bounded getenv ''PEAK_OUTPUT_AGGREGATION_TIMEOUT_MS'' INT_MAX
                               (Some ''output_timeout'') (unat PEAK_SOCKET_PHASE_TIMEOUT_MS_DEFAULT) w0;
          phase = (case configured of Some c \<Rightarrow> c | None \<Rightarrow> PEAK_SOCKET_PHASE_TIMEOUT_MS_DEFAULT);
          wave_budget_ms = PEAK_SOCKET_GATHER_WAVE_BUDGET_MS;
          adaptive_margin = multiply_saturated (gather_waves rank_count) wave_budget_ms
                              PEAK_SOCKET_GATHER_ADAPTIVE_MARGIN_MAX_MS;
          adaptive_hard = gather_hard_timeout phase adaptive_margin;
          min_release = minimum_socket_release adaptive_hard phase;
          (configured_release, w2) = parse_positive_uint_bounded getenv ''PEAK_OUTPUT_AGGREGATION_RELEASE_TIMEOUT_MS'' INT_MAX
                               (Some ''output_release_timeout'') (unat min_release) w1;
          raised = (case configured_release of Some c \<Rightarrow> c < min_release | None \<Rightarrow> False);
          release = (case configured_release of
                       Some c \<Rightarrow> if c < min_release then min_release else c
                     | None \<Rightarrow> min_release);
          w3 = (if raised
                then env_warn_once (Some ''output_release_timeout'')
                       (''PEAK_OUTPUT_AGGREGATION_RELEASE_TIMEOUT_MS'', ''below required minimum'') w2
                else w2);
          (configured_mpi, w4) = parse_positive_uint_bounded getenv ''PEAK_MPI_REPORT_RELEASE_TIMEOUT_MS'' UINT_MAX
                               (Some ''mpi_release_timeout'') (unat PEAK_MPI_REPORT_RELEASE_TIMEOUT_MS_DEFAULT) w3
      in (\<lparr>socket_phase_timeout_ms = phase, socket_gather_wave_budget_ms = wave_budget_ms,
            socket_gather_hard_timeout_ms = adaptive_hard, socket_release_timeout_ms = release,
            mpi_report_release_timeout_ms =
              (case configured_mpi of Some c \<Rightarrow> c | None \<Rightarrow> PEAK_MPI_REPORT_RELEASE_TIMEOUT_MS_DEFAULT),
            socket_gather_timeout_was_scaled = adaptive_hard > phase,
            socket_release_was_raised = raised,
            socket_combined_release_minimum_ms = add_saturated release (multiply_saturated phase 2 (- 1))\<rparr>, w4))"

definition parse_detach_count_override :: "environment \<Rightarrow> env_warnings \<Rightarrow> nat option \<times> env_warnings" where
  "parse_detach_count_override getenv w =
     (case getenv ''PEAK_DETACH_COUNT'' of
        None \<Rightarrow> (None, w)
      | Some _ \<Rightarrow>
          (case parse_env_unsigned getenv
                  \<lparr>schema_name = ''PEAK_DETACH_COUNT'', schema_unit = ''calls'', schema_fallback = 0,
                   schema_minimum = 1, schema_maximum = ULLONG_MAX, zero_allowed = False,
                   warning_emitted = Some ''detach_count'', decimal_digits_only = False\<rparr> w of
             (parsed, w1) \<Rightarrow> if parsed = 0 then (None, w1) else (Some parsed, w1)))"

definition parse_positive_uint_text :: "string option \<Rightarrow> uint32 option" where
  "parse_positive_uint_text v =
     (case v of
        None \<Rightarrow> None
      | Some t \<Rightarrow>
          if t = [] \<or> \<not> list_all c_isdigit t then None
          else (case strtoull t of
                  (parsed, end_text, erange) \<Rightarrow>
                    if erange \<or> end_text = t \<or> end_text \<noteq> [] \<or> parsed = 0 \<or> parsed > UINT_MAX
                    then None else Some (of_nat parsed)))"

fun first_positive :: "environment \<Rightarrow> string list \<Rightarrow> uint32" where
  "first_positive getenv [] = 1"
| "first_positive getenv (name # names) =
     (case parse_positive_uint_text (getenv name) of Some parsed \<Rightarrow> parsed | None \<Rightarrow> first_positive getenv names)"

definition detect_local_mpi_ranks :: "environment \<Rightarrow> uint32" where
  "detect_local_mpi_ranks getenv =
     first_positive getenv
       [''MPI_LOCALNRANKS'', ''OMPI_COMM_WORLD_LOCAL_SIZE'', ''MV2_COMM_WORLD_LOCAL_SIZE'', ''PMI_LOCAL_SIZE'']"

fun ascii_equal_ci :: "string \<Rightarrow> string \<Rightarrow> bool" where
  "ascii_equal_ci (l # left) (r # right) = (if ascii_tolower l \<noteq> ascii_tolower r then False else ascii_equal_ci left right)"
| "ascii_equal_ci left right = (left = [] \<and> right = [])"

definition env_value_truthy :: "string option \<Rightarrow> bool" where
  "env_value_truthy v =
     (case v of
        None \<Rightarrow> False
      | Some t \<Rightarrow> ascii_equal_ci t ''1'' \<or> ascii_equal_ci t ''true'' \<or> ascii_equal_ci t ''yes'' \<or> ascii_equal_ci t ''on'')"

definition env_value_falsey :: "string option \<Rightarrow> bool" where
  "env_value_falsey v =
     (case v of
        None \<Rightarrow> False
      | Some t \<Rightarrow> ascii_equal_ci t ''0'' \<or> ascii_equal_ci t ''false'' \<or> ascii_equal_ci t ''off'' \<or> ascii_equal_ci t ''no'')"

definition socket_reduce_fallback_enabled :: "environment \<Rightarrow> bool" where
  "socket_reduce_fallback_enabled getenv =
     (let v = getenv ''PEAK_OUTPUT_AGGREGATION_SOCKET_FALLBACK'' in
      if v = None \<or> v = Some [] then True
      else if env_value_falsey v then False
      else if env_value_truthy v then True
      else True)"

definition parse_long_env :: "environment \<Rightarrow> string \<Rightarrow> int" where
  "parse_long_env getenv name =
     (case getenv name of
        None \<Rightarrow> - 1
      | Some t \<Rightarrow>
          if t = [] then - 1
          else (case strtol t of
                  (parsed, end_text, erange) \<Rightarrow>
                    if erange \<or> end_text = t \<or> end_text \<noteq> [] \<or> parsed < 0 \<or> parsed > int INT_MAX
                    then - 1 else parsed))"

definition mpi_pairs :: "(string \<times> string) list" where
  "mpi_pairs =
     [(''PMI_RANK'', ''PMI_SIZE''), (''PMIX_RANK'', ''PMIX_SIZE''),
      (''OMPI_COMM_WORLD_RANK'', ''OMPI_COMM_WORLD_SIZE''),
      (''MV2_COMM_WORLD_RANK'', ''MV2_COMM_WORLD_SIZE''), (''I_MPI_RANK'', ''I_MPI_SIZE'')]"

definition env_present :: "environment \<Rightarrow> string \<Rightarrow> bool" where
  "env_present getenv name \<longleftrightarrow> (case getenv name of None \<Rightarrow> False | Some t \<Rightarrow> t \<noteq> [])"

definition pair_invalid :: "int \<Rightarrow> int \<Rightarrow> bool" where
  "pair_invalid rank sz \<longleftrightarrow> rank < 0 \<or> sz \<le> 0 \<or> sz > int INT_MAX \<or> rank \<ge> sz"

text \<open>The loop over the MPI namespaces: \<open>None\<close> is the early \<^verbatim>\<open>return false\<close>, otherwise the resolved
  rank and size, which are \<open>- 1\<close> until a complete pair was met.\<close>

fun resolve_pairs :: "environment \<Rightarrow> (string \<times> string) list \<Rightarrow> int \<times> int \<Rightarrow> (int \<times> int) option" where
  "resolve_pairs getenv [] resolved = Some resolved"
| "resolve_pairs getenv ((rank_name, size_name) # pairs) resolved =
     (if \<not> env_present getenv rank_name \<or> \<not> env_present getenv size_name
      then resolve_pairs getenv pairs resolved
      else
        let rank = parse_long_env getenv rank_name; sz = parse_long_env getenv size_name in
        if pair_invalid rank sz then None
        else if fst resolved \<ge> 0 \<and> (fst resolved \<noteq> rank \<or> snd resolved \<noteq> sz) then None
        else resolve_pairs getenv pairs (rank, sz))"

definition mpi_env_rank_size :: "environment \<Rightarrow> (int \<times> int) option" where
  "mpi_env_rank_size getenv =
     (case resolve_pairs getenv mpi_pairs (- 1, - 1) of
        None \<Rightarrow> None
      | Some (rank, sz) \<Rightarrow>
          if rank < 0 then
            if \<not> env_present getenv ''SLURM_PROCID'' \<or> \<not> env_present getenv ''SLURM_NTASKS'' then None
            else
              let rank = parse_long_env getenv ''SLURM_PROCID''; sz = parse_long_env getenv ''SLURM_NTASKS'' in
              if pair_invalid rank sz then None else Some (rank, sz)
          else Some (rank, sz))"

definition mpi_env_world_metadata_present :: "environment \<Rightarrow> bool" where
  "mpi_env_world_metadata_present getenv \<longleftrightarrow>
     list_ex (env_present getenv)
       [''PMI_RANK'', ''PMI_SIZE'', ''PMIX_RANK'', ''PMIX_SIZE'', ''OMPI_COMM_WORLD_RANK'', ''OMPI_COMM_WORLD_SIZE'',
        ''MV2_COMM_WORLD_RANK'', ''MV2_COMM_WORLD_SIZE'', ''I_MPI_RANK'', ''I_MPI_SIZE'',
        ''SLURM_PROCID'', ''SLURM_NTASKS'']"

definition report_timeout_budget :: "environment \<Rightarrow> env_warnings \<Rightarrow> PeakReportTimeoutBudget \<times> env_warnings" where
  "report_timeout_budget getenv w =
     (let rank_count = (case mpi_env_rank_size getenv of Some (_, sz) \<Rightarrow> sz | None \<Rightarrow> - 1) in
      report_timeout_budget_for_rank_count getenv
        (if rank_count > 0 \<and> nat rank_count \<le> UINT_MAX then of_int rank_count else 1) w)"

definition should_print_text :: "environment \<Rightarrow> bool \<Rightarrow> bool" where
  "should_print_text getenv rank_local_mpi_output =
     (let v = getenv ''PEAK_TEXT_OUTPUT'' in
      if v \<noteq> None \<and> v \<noteq> Some [] then env_value_truthy v else \<not> rank_local_mpi_output)"

subsection \<open>Saturating arithmetic\<close>

lemma multiply_saturated_exact:
  assumes "m \<noteq> 0"
  shows "unat (multiply_saturated v m maximum) = min (unat v * unat m) (unat maximum)"
proof -
  have m: "0 < unat m"
    using assms by (simp add: unat_gt_0)
  show ?thesis
  proof (cases "v > maximum div m")
    case True
    then have "unat maximum < unat v * unat m"
      using m by (simp add: word_less_nat_alt unat_div div_less_iff_less_mult)
    then show ?thesis
      using True by (simp add: multiply_saturated_def)
  next
    case False
    then have le: "unat v * unat m \<le> unat maximum"
      using m by (simp add: word_less_nat_alt unat_div div_less_iff_less_mult not_less)
    also have "\<dots> < 2 ^ 32"
      using unat_uint32_less [of maximum] by simp
    finally have "unat (v * m) = unat v * unat m"
      by (simp add: unat_word_ariths)
    then show ?thesis
      using False le by (simp add: multiply_saturated_def)
  qed
qed

lemma add_saturated_exact: "unat (add_saturated a b) = min (unat a + unat b) UINT_MAX"
proof -
  have m: "unat (- 1 :: uint32) = UINT_MAX"
    by (simp add: UINT_MAX_def unsigned_minus_1_eq_mask mask_eq_exp_minus_1)
  have b: "unat b \<le> UINT_MAX"
    using unat_uint32_less [of b] by (simp add: UINT_MAX_def)
  then have "b \<le> - 1"
    by (simp add: word_le_nat_alt m)
  then have sub: "unat (- 1 - b) = UINT_MAX - unat b"
    using unat_sub [of b "- 1"] m by simp
  show ?thesis
  proof (cases "a > - 1 - b")
    case True
    then have "unat a + unat b > UINT_MAX"
      using b by (simp add: word_less_nat_alt sub)
    then show ?thesis
      using True by (simp add: add_saturated_def m)
  next
    case False
    then have le: "unat a + unat b \<le> UINT_MAX"
      using b by (simp add: word_less_nat_alt sub)
    then have "unat (a + b) = unat a + unat b"
      by (simp add: unat_word_ariths UINT_MAX_def)
    then show ?thesis
      using False le by (simp add: add_saturated_def)
  qed
qed

lemma unat_INT_MAX: "unat word_INT_MAX = INT_MAX"
  by (simp add: word_INT_MAX_def INT_MAX_def)

lemma gather_hard_timeout_exact:
  assumes "unat margin \<le> INT_MAX"
  shows "unat (gather_hard_timeout phase margin) = min (unat phase + unat margin) INT_MAX"
proof -
  have "margin \<le> word_INT_MAX"
    using assms by (simp add: word_le_nat_alt unat_INT_MAX)
  then have sub: "unat (word_INT_MAX - margin) = INT_MAX - unat margin"
    using unat_sub [of margin word_INT_MAX] unat_INT_MAX by simp
  show ?thesis
  proof (cases "phase > word_INT_MAX - margin")
    case True
    then have "unat phase + unat margin > INT_MAX"
      using assms by (simp add: word_less_nat_alt sub)
    then show ?thesis
      using True by (simp add: gather_hard_timeout_def unat_INT_MAX)
  next
    case False
    then have le: "unat phase + unat margin \<le> INT_MAX"
      using assms by (simp add: word_less_nat_alt sub)
    then have "unat (phase + margin) = unat phase + unat margin"
      by (simp add: unat_word_ariths INT_MAX_def)
    then show ?thesis
      using False le by (simp add: gather_hard_timeout_def)
  qed
qed

lemma minimum_socket_release_exact:
  assumes "unat hard \<le> INT_MAX"
  shows "unat (minimum_socket_release hard phase) = min (unat hard + 2 * unat phase) INT_MAX"
proof -
  let ?m = "add_saturated hard (multiply_saturated phase 2 word_INT_MAX)"
  have "unat ?m = min (unat hard + min (2 * unat phase) INT_MAX) UINT_MAX"
    by (simp add: add_saturated_exact multiply_saturated_exact unat_INT_MAX mult.commute)
  also have "\<dots> = unat hard + min (2 * unat phase) INT_MAX"
    using assms by (simp add: INT_MAX_def UINT_MAX_def)
  finally have m: "unat ?m = unat hard + min (2 * unat phase) INT_MAX" .
  show ?thesis
  proof (cases "?m > word_INT_MAX")
    case True
    then have "unat hard + min (2 * unat phase) INT_MAX > INT_MAX"
      by (simp only: word_less_nat_alt m unat_INT_MAX)
    then show ?thesis
      using True by (simp add: minimum_socket_release_def Let_def unat_INT_MAX)
  next
    case False
    then have "unat hard + min (2 * unat phase) INT_MAX \<le> INT_MAX"
      by (simp only: word_less_nat_alt m unat_INT_MAX not_less)
    then show ?thesis
      using False m by (simp add: minimum_socket_release_def Let_def)
  qed
qed

lemma ceiling_div_128: "k div 128 + (if k mod 128 \<noteq> 0 then 1 else 0) = (k + 127) div (128::nat)"
proof -
  have "(k + 127) div 128 = (k div 128 * 128 + (k mod 128 + 127)) div 128"
    by (metis add.assoc div_mult_mod_eq)
  also have "\<dots> = k div 128 + (k mod 128 + 127) div 128"
    by (rule div_mult_self3) simp
  also have "(k mod 128 + 127) div 128 = (if k mod 128 \<noteq> 0 then 1 else 0)"
    using mod_less_divisor [of 128 k] by (auto simp: div_nat_eqI)
  finally show ?thesis
    by simp
qed

lemma gather_waves_exact: "unat (gather_waves n) = ((unat n - 1) + 127) div 128"
proof -
  define p where "p = (if n > 0 then n - 1 else 0)"
  have p: "unat p = unat n - 1"
    by (auto simp: p_def word_less_nat_alt unat_minus_one word_neq_0_conv)
  have q: "unat (p div 128) = unat p div 128" "unat (p mod 128) = unat p mod 128"
    by (simp_all add: unat_div unat_mod)
  have small: "unat p div 128 < 2 ^ 25"
    using unat_uint32_less [of p] by (simp add: less_mult_imp_div_less)
  have "unat (gather_waves n) = unat p div 128 + (if unat p mod 128 \<noteq> 0 then 1 else 0)"
  proof (cases "p mod 128 = 0")
    case True
    then show ?thesis
      using q by (simp add: gather_waves_def p_def [symmetric] budget_constants Let_def)
  next
    case False
    then have "unat p mod 128 \<noteq> 0"
      using q(2) by (metis unat_eq_zero)
    moreover have "unat (p div 128 + 1) = unat p div 128 + 1"
      using q(1) small by (subst unat_word_ariths) simp
    ultimately show ?thesis
      using False by (simp add: gather_waves_def p_def [symmetric] budget_constants Let_def)
  qed
  also have "\<dots> = (unat p + 127) div 128"
    by (rule ceiling_div_128)
  finally show ?thesis
    by (simp add: p)
qed

lemma parse_positive_uint_bounded_range:
  assumes "parse_positive_uint_bounded getenv name maximum flag fallback w = (Some c, w')" and "maximum \<le> UINT_MAX"
  shows "1 \<le> unat c \<and> unat c \<le> maximum"
proof -
  let ?schema = "\<lparr>schema_name = name, schema_unit = ''milliseconds'', schema_fallback = fallback,
    schema_minimum = 1, schema_maximum = maximum, zero_allowed = False,
    warning_emitted = flag, decimal_digits_only = False\<rparr>"
  obtain inp n where n: "getenv name = Some inp" "parse_env_unsigned_checked getenv ?schema = Some n" "c = of_nat n"
    using assms(1) by (auto simp: parse_positive_uint_bounded_def Let_def split: option.splits)
  then have "1 \<le> n" "n \<le> maximum"
    using parse_env_unsigned_checked_iff [of getenv ?schema inp n] by (simp_all add: unsigned_accepted_def)
  then show ?thesis
    using n(3) assms(2) by (simp add: UINT_MAX_def unat_of_nat)
qed

subsection \<open>World metadata\<close>

definition complete_pair :: "environment \<Rightarrow> string \<times> string \<Rightarrow> bool" where
  "complete_pair getenv p \<longleftrightarrow> env_present getenv (fst p) \<and> env_present getenv (snd p)"

definition pair_value :: "environment \<Rightarrow> string \<times> string \<Rightarrow> int \<times> int" where
  "pair_value getenv p = (parse_long_env getenv (fst p), parse_long_env getenv (snd p))"

lemma resolve_pairs_spec:
  assumes "resolve_pairs getenv pairs resolved = Some r" and "0 \<le> fst resolved \<longrightarrow> \<not> pair_invalid (fst resolved) (snd resolved)"
  shows "(\<forall>p \<in> set pairs. complete_pair getenv p \<longrightarrow> pair_value getenv p = r \<and> \<not> pair_invalid (fst r) (snd r)) \<and>
    (0 \<le> fst resolved \<longrightarrow> r = resolved) \<and>
    ((\<forall>p \<in> set pairs. \<not> complete_pair getenv p) \<longrightarrow> r = resolved)"
  using assms
proof (induction getenv pairs resolved rule: resolve_pairs.induct)
  case (2 getenv rank_name size_name pairs resolved)
  let ?p = "(rank_name, size_name)"
  let ?v = "pair_value getenv ?p"
  show ?case
  proof (cases "complete_pair getenv ?p")
    case False
    then have "resolve_pairs getenv pairs resolved = Some r"
      using 2(3) by (auto simp: complete_pair_def)
    then show ?thesis
      using 2(1) 2(4) False by (auto simp: complete_pair_def)
  next
    case True
    then have v: "\<not> pair_invalid (fst ?v) (snd ?v)" "0 \<le> fst resolved \<longrightarrow> resolved = ?v"
      and rec: "resolve_pairs getenv pairs ?v = Some r"
      using 2(3) by (auto simp: complete_pair_def pair_value_def Let_def prod_eq_iff split: if_split_asm)
    then have IH: "(\<forall>p \<in> set pairs. complete_pair getenv p \<longrightarrow> pair_value getenv p = r \<and> \<not> pair_invalid (fst r) (snd r)) \<and>
        (0 \<le> fst ?v \<longrightarrow> r = ?v)"
      using 2(2) [OF _ refl refl] 2(3) True by (auto simp: complete_pair_def pair_value_def Let_def split: if_split_asm)
    moreover have "0 \<le> fst ?v"
      using v(1) by (simp add: pair_invalid_def)
    ultimately show ?thesis
      using v True by auto
  qed
qed simp

subsection \<open>Properties of the settings\<close>

text \<open>(C26) The timeout budget contract, whatever the environment holds: all arithmetic saturates instead
  of wrapping. The gather deadline is the phase timeout plus five seconds per wave of 128 peers (margin
  capped at five minutes, sum at \<^verbatim>\<open>INT_MAX\<close>), so the phase timeout is never shortened; the release
  timeout is at least the gather deadline plus two phases (capped), even when a smaller one is
  configured, which is then reported as raised; the combined MPI gate adds two more phases, capped at
  \<^verbatim>\<open>UINT_MAX\<close>.\<close>

theorem timeout_budget_contract:
  assumes "report_timeout_budget_for_rank_count getenv rank_count w = (b, w')"
  shows "(let phase = unat (socket_phase_timeout_ms b); hard = unat (socket_gather_hard_timeout_ms b);
          release = unat (socket_release_timeout_ms b);
          margin = min (((unat rank_count - 1) + 127) div 128 * 5000) 300000
      in 1 \<le> phase \<and> hard = min (phase + margin) INT_MAX \<and> phase \<le> hard \<and>
         (socket_gather_timeout_was_scaled b \<longleftrightarrow> phase < hard) \<and>
         min (hard + 2 * phase) INT_MAX \<le> release \<and> release \<le> INT_MAX \<and>
         (socket_release_was_raised b \<longrightarrow> release = min (hard + 2 * phase) INT_MAX) \<and>
         unat (socket_combined_release_minimum_ms b) = min (release + 2 * phase) UINT_MAX)"
proof -
  define margin where "margin = multiply_saturated (gather_waves rank_count) PEAK_SOCKET_GATHER_WAVE_BUDGET_MS
    PEAK_SOCKET_GATHER_ADAPTIVE_MARGIN_MAX_MS"
  obtain c1 w1 where p1: "parse_positive_uint_bounded getenv ''PEAK_OUTPUT_AGGREGATION_TIMEOUT_MS'' INT_MAX
      (Some ''output_timeout'') (unat PEAK_SOCKET_PHASE_TIMEOUT_MS_DEFAULT) w = (c1, w1)"
    by fastforce
  define phase where "phase = (case c1 of Some c \<Rightarrow> c | None \<Rightarrow> PEAK_SOCKET_PHASE_TIMEOUT_MS_DEFAULT)"
  define hard where "hard = gather_hard_timeout phase margin"
  define least where "least = minimum_socket_release hard phase"
  obtain c2 w2 where p2: "parse_positive_uint_bounded getenv ''PEAK_OUTPUT_AGGREGATION_RELEASE_TIMEOUT_MS'' INT_MAX
      (Some ''output_release_timeout'') (unat least) w1 = (c2, w2)"
    by fastforce
  define release where "release = (case c2 of Some c \<Rightarrow> if c < least then least else c | None \<Rightarrow> least)"
  have b: "socket_phase_timeout_ms b = phase" "socket_gather_hard_timeout_ms b = hard"
    "socket_release_timeout_ms b = release" "socket_gather_timeout_was_scaled b = (hard > phase)"
    "socket_release_was_raised b = (case c2 of Some c \<Rightarrow> c < least | None \<Rightarrow> False)"
    "socket_combined_release_minimum_ms b = add_saturated release (multiply_saturated phase 2 (- 1))"
    using assms unfolding report_timeout_budget_for_rank_count_def margin_def [symmetric] p1 Let_def prod.case
      phase_def [symmetric] hard_def [symmetric] least_def [symmetric] p2 release_def [symmetric]
    by (auto split: prod.splits)
  have im: "INT_MAX \<le> UINT_MAX"
    by (simp add: INT_MAX_def UINT_MAX_def)
  have phase: "1 \<le> unat phase" "unat phase \<le> INT_MAX"
    using parse_positive_uint_bounded_range [OF _ im] p1
    by (auto simp: phase_def budget_constants INT_MAX_def split: option.splits)
  have margin: "unat margin = min (((unat rank_count - 1) + 127) div 128 * 5000) 300000"
    unfolding margin_def by (subst multiply_saturated_exact) (simp_all add: gather_waves_exact budget_constants)
  then have hard: "unat hard = min (unat phase + unat margin) INT_MAX"
    unfolding hard_def by (intro gather_hard_timeout_exact) (simp add: INT_MAX_def)
  then have least: "unat least = min (unat hard + 2 * unat phase) INT_MAX"
    unfolding least_def by (intro minimum_socket_release_exact) simp
  have release: "unat least \<le> unat release" "unat release \<le> INT_MAX"
    using parse_positive_uint_bounded_range [OF _ im] p2 least
    by (auto simp: release_def word_less_nat_alt split: option.splits)
  have gate: "unat (add_saturated release (multiply_saturated phase 2 (- 1))) = min (unat release + 2 * unat phase) UINT_MAX"
    by (simp add: add_saturated_exact multiply_saturated_exact unsigned_minus_1_eq_mask mask_eq_exp_minus_1
        UINT_MAX_def mult.commute)
  have long: "unat phase \<le> unat hard"
    using hard phase by simp
  have raised: "(case c2 of Some c \<Rightarrow> unat c < unat least | None \<Rightarrow> False) \<longrightarrow> unat release = unat least"
    by (auto simp: release_def word_less_nat_alt split: option.splits)
  show ?thesis
    unfolding b Let_def gate word_less_nat_alt margin [symmetric] least [symmetric]
    by (intro conjI phase hard long release raised refl)
qed

theorem timeout_budget_contract_witness:
  "unat (socket_gather_hard_timeout_ms (fst (report_timeout_budget_for_rank_count (\<lambda>_. None) 1000
     \<lparr>emitted = [], messages = []\<rparr>))) = 100000"
proof -
  let ?r = "report_timeout_budget_for_rank_count (\<lambda>_. None) 1000 \<lparr>emitted = [], messages = []\<rparr>"
  have "socket_phase_timeout_ms (fst ?r) = 60000"
    by (simp add: report_timeout_budget_for_rank_count_def parse_positive_uint_bounded_def Let_def budget_constants)
  then show ?thesis
    using timeout_budget_contract [of "\<lambda>_. None" 1000 _ "fst ?r" "snd ?r"]
    by (simp add: Let_def INT_MAX_def)
qed

text \<open>The world rank and size are never mixed from different launcher namespaces: a result is a valid
  pair (\<open>0 \<le> rank < size \<le> INT_MAX\<close>); every complete MPI namespace present announces exactly this pair;
  and the Slurm pair is used only when no MPI namespace is complete.\<close>

theorem world_rank_size_consistent:
  assumes "mpi_env_rank_size getenv = Some (rank, sz)"
  shows "0 \<le> rank \<and> rank < sz \<and> sz \<le> int INT_MAX \<and>
    (\<forall>p \<in> set mpi_pairs. env_present getenv (fst p) \<and> env_present getenv (snd p) \<longrightarrow>
       parse_long_env getenv (fst p) = rank \<and> parse_long_env getenv (snd p) = sz) \<and>
    ((\<forall>p \<in> set mpi_pairs. \<not> (env_present getenv (fst p) \<and> env_present getenv (snd p))) \<longrightarrow>
       rank = parse_long_env getenv ''SLURM_PROCID'' \<and> sz = parse_long_env getenv ''SLURM_NTASKS'')"
proof -
  obtain r where r: "resolve_pairs getenv mpi_pairs (- 1, - 1) = Some r"
    using assms by (auto simp: mpi_env_rank_size_def split: option.splits)
  note spec = resolve_pairs_spec [OF r]
  show ?thesis
  proof (cases "\<exists>p \<in> set mpi_pairs. complete_pair getenv p")
    case True
    then have v: "\<not> pair_invalid (fst r) (snd r)"
      using spec by auto
    then have "(rank, sz) = r"
      using assms r by (cases r) (simp add: mpi_env_rank_size_def pair_invalid_def)
    then show ?thesis
      using spec v True by (fastforce simp: pair_invalid_def complete_pair_def pair_value_def)
  next
    case False
    then have "r = (- 1, - 1)"
      using spec by simp
    then show ?thesis
      using assms r False
      by (auto simp: mpi_env_rank_size_def pair_invalid_def complete_pair_def Let_def split: if_splits)
  qed
qed

theorem world_rank_size_consistent_witness:
  "(let env = (\<lambda>v. if v = ''PMI_RANK'' then Some ''2'' else if v = ''PMI_SIZE'' then Some ''4'' else None) in
    mpi_env_rank_size env = Some (2, 4) \<and> (2 :: int) < 4 \<and> (4 :: int) \<le> int INT_MAX \<and>
    parse_long_env env ''PMI_RANK'' = 2 \<and> parse_long_env env ''PMI_SIZE'' = 4)"
proof -
  let ?env = "\<lambda>v. if v = ''PMI_RANK'' then Some ''2'' else if v = ''PMI_SIZE'' then Some ''4'' else None"
  have s: "strtol ''2'' = (2, [], False)" "strtol ''4'' = (4, [], False)"
    by code_simp+
  have m: "mpi_env_rank_size ?env = Some (2, 4)"
    by (simp add: mpi_env_rank_size_def mpi_pairs_def env_present_def parse_long_env_def s pair_invalid_def INT_MAX_def)
  have p: "(''PMI_RANK'', ''PMI_SIZE'') \<in> set mpi_pairs" "env_present ?env ''PMI_RANK''" "env_present ?env ''PMI_SIZE''"
    by (simp_all add: mpi_pairs_def env_present_def)
  then show ?thesis
    using world_rank_size_consistent [OF m] m unfolding Let_def by fastforce
qed

end
