(* ===== verification/Gum_Prologue.thy ===== *)
theory Gum_Prologue
  imports Peak_Prelude
begin

text \<open>
  The prologue classifier \<^verbatim>\<open>src/unsafe_gum_prologue.c\<close>: the x86-64 instruction length decoder and
  the entry patterns that make a Gum entry patch unsafe, the AArch64 operand scan, the attach plan of
  a target and the policy selected by the environment.

  Code bytes are a function from the offset to the byte, so \<^verbatim>\<open>&code[n]\<close> is \<open>at code n\<close>. Every pointer
  of the file that is read directly is such a function; memory that is read through
  \<^verbatim>\<open>gum_memory_read\<close> is the parameter \<open>gum_memory_read\<close>, which gives the bytes or \<open>None\<close>.
  The conditional compilation on the architecture is the argument of type \<open>arch\<close>.
\<close>

datatype arch = X86_64 | AArch64 | Other_arch

type_synonym code = "nat \<Rightarrow> byte"

definition at :: "code \<Rightarrow> nat \<Rightarrow> code" where
  "at code n = (\<lambda>k. code (n + k))"

definition UINTPTR_MAX :: nat where
  "UINTPTR_MAX = 2 ^ 64 - 1"

subsection \<open>Policy\<close>

datatype PeakUnsafeGumProloguePolicy = POLICY_DEFAULT | POLICY_CONSERVATIVE

definition g_ascii_tolower :: "char \<Rightarrow> char" where
  "g_ascii_tolower c = (if c \<in> set ''ABCDEFGHIJKLMNOPQRSTUVWXYZ'' then char_of (of_char c + 32 :: nat) else c)"

definition strcasecmp_eq :: "string \<Rightarrow> string \<Rightarrow> bool" where
  "strcasecmp_eq left right \<longleftrightarrow> map g_ascii_tolower left = map g_ascii_tolower right"

text \<open>The policy and \<^verbatim>\<open>*valid_out\<close>.\<close>

definition policy_from_env :: "string option \<Rightarrow> PeakUnsafeGumProloguePolicy \<times> bool" where
  "policy_from_env env =
     (case env of
        None \<Rightarrow> (POLICY_DEFAULT, True)
      | Some txt \<Rightarrow>
          if txt = [] \<or> strcasecmp_eq txt ''default'' \<or> strcasecmp_eq txt ''audited'' \<or> strcasecmp_eq txt ''narrow''
          then (POLICY_DEFAULT, True)
          else if strcasecmp_eq txt ''conservative'' \<or> strcasecmp_eq txt ''broad''
          then (POLICY_CONSERVATIVE, True)
          else (POLICY_DEFAULT, False))"

definition policy_name :: "PeakUnsafeGumProloguePolicy \<Rightarrow> string" where
  "policy_name policy = (case policy of POLICY_DEFAULT \<Rightarrow> ''default'' | POLICY_CONSERVATIVE \<Rightarrow> ''conservative'')"

subsection \<open>Patterns of x86-64 entries\<close>

definition x86_match_endbr :: "code \<Rightarrow> nat \<Rightarrow> nat option" where
  "x86_match_endbr code available =
     (if available \<ge> 4 \<and> code 0 = 0xf3 \<and> code 1 = 0x0f \<and> code 2 = 0x1e \<and> (code 3 = 0xfa \<or> code 3 = 0xfb)
      then Some 4 else None)"

definition x86_match_zero_rdx :: "code \<Rightarrow> nat option" where
  "x86_match_zero_rdx code =
     (if (code 0 = 0x30 \<or> code 0 = 0x32 \<or> code 0 = 0x28 \<or> code 0 = 0x2a \<or>
          code 0 = 0x31 \<or> code 0 = 0x33 \<or> code 0 = 0x29 \<or> code 0 = 0x2b) \<and> code 1 = 0xd2
      then Some 2
      else if code 0 = 0x48 \<and> (code 1 = 0x31 \<or> code 1 = 0x33 \<or> code 1 = 0x29 \<or> code 1 = 0x2b) \<and> code 2 = 0xd2
      then Some 3
      else if code 0 = 0xb2 \<and> code 1 = 0x00 then Some 2
      else if code 0 = 0xba \<and> code 1 = 0x00 \<and> code 2 = 0x00 \<and> code 3 = 0x00 \<and> code 4 = 0x00 then Some 5
      else None)"

definition x86_match_zero_eax :: "code \<Rightarrow> bool" where
  "x86_match_zero_eax code \<longleftrightarrow> (code 0 = 0x31 \<or> code 0 = 0x33) \<and> code 1 = 0xc0"

definition x86_match_first_indexed_load_after_zero :: "code \<Rightarrow> bool" where
  "x86_match_first_indexed_load_after_zero code \<longleftrightarrow>
     code 0 = 0x8b \<and> code 1 = 0x0c \<and> (code 2 = 0x07 \<or> code 2 = 0x38)"

definition x86_match_rdx_counter_update_after_load :: "code \<Rightarrow> bool" where
  "x86_match_rdx_counter_update_after_load code =
     (if code 0 = 0xfe \<and> code 1 = 0xc2 then True
      else if code 0 = 0xff \<and> code 1 = 0xc2 then True
      else if code 0 = 0x48 \<and> code 1 = 0xff \<and> code 2 = 0xc2 then True
      else if code 0 = 0x80 \<and> (code 1 = 0xc2 \<or> code 1 = 0xea) \<and> code 2 \<noteq> 0x00 then True
      else if code 0 = 0x83 \<and> (code 1 = 0xc2 \<or> code 1 = 0xea) \<and> code 2 \<noteq> 0x00 then True
      else if code 0 = 0x48 \<and> code 1 = 0x83 \<and> (code 2 = 0xc2 \<or> code 2 = 0xea) \<and> code 3 \<noteq> 0x00 then True
      else False)"

text \<open>The pointer behind an optional \<^verbatim>\<open>endbr\<close> instruction.\<close>

definition skip_endbr :: "code \<Rightarrow> code" where
  "skip_endbr code = (case x86_match_endbr code 4 of Some n \<Rightarrow> at code n | None \<Rightarrow> code)"

definition is_return_byte :: "byte \<Rightarrow> bool" where
  "is_return_byte b \<longleftrightarrow> b = 0xc2 \<or> b = 0xc3 \<or> b = 0xca \<or> b = 0xcb"

definition x86_immediate_contains_return_opcode :: "code \<Rightarrow> nat \<Rightarrow> bool" where
  "x86_immediate_contains_return_opcode immediate imm_size \<longleftrightarrow>
     list_ex (\<lambda>i. is_return_byte (immediate i)) [0..<imm_size]"

definition x86_has_high_movabs_at_entry :: "code \<Rightarrow> bool" where
  "x86_has_high_movabs_at_entry code0 =
     (let code = skip_endbr code0 in
      if \<not> (0x40 \<le> code 0 \<and> code 0 \<le> 0x4f \<and> code 0 AND 0x08 \<noteq> 0 \<and> code 0 AND 0x01 \<noteq> 0 \<and>
             0xb8 \<le> code 1 \<and> code 1 \<le> 0xbf)
      then False
      else list_ex (\<lambda>i. is_return_byte (code (2 + i))) [0..<8])"

subsection \<open>The instruction length decoder\<close>

text \<open>The bytes behind the opcode that a ModRM byte announces: the byte itself, a SIB byte and the
  displacement; \<open>sib_base\<close> matters only when there is a SIB byte.\<close>

definition modrm_size :: "byte \<Rightarrow> byte \<Rightarrow> byte \<Rightarrow> nat" where
  "modrm_size md rm sib_base =
     (if md \<noteq> 3 \<and> rm = 4 then 2 + (if md = 0 \<and> sib_base = 5 then 4 else 0)
      else 1 + (if md = 0 \<and> rm = 5 then 4 else 0))
     + (if md = 1 then 1 else if md = 2 then 4 else 0)"

definition x86_modrm_tail_size :: "code \<Rightarrow> nat \<Rightarrow> nat option" where
  "x86_modrm_tail_size code available =
     (if available = 0 then None
      else
        let modrm = code 0; md = drop_bit 6 modrm; rm = modrm AND 0x7 in
        if md \<noteq> 3 \<and> rm = 4 \<and> available < 1 + 1 then None
        else
          let size = modrm_size md rm (code 1 AND 0x7)
          in if size > available then None else Some size)"

definition is_legacy_prefix :: "byte \<Rightarrow> bool" where
  "is_legacy_prefix p \<longleftrightarrow> p = 0xf0 \<or> p = 0xf2 \<or> p = 0xf3 \<or> p = 0x2e \<or> p = 0x36 \<or> p = 0x3e \<or>
     p = 0x26 \<or> p = 0x64 \<or> p = 0x65 \<or> p = 0x67"

text \<open>The prefix loop: the offset of the opcode, \<^verbatim>\<open>rex_w\<close> and \<^verbatim>\<open>operand16\<close>.\<close>

function scan_prefixes :: "code \<Rightarrow> nat \<Rightarrow> nat \<Rightarrow> bool \<Rightarrow> bool \<Rightarrow> nat \<times> bool \<times> bool" where
  "scan_prefixes code limit offset rex_w operand16 =
     (if offset < limit then
        let p = code offset in
        if p = 0x66 then scan_prefixes code limit (offset + 1) rex_w True
        else if is_legacy_prefix p then scan_prefixes code limit (offset + 1) rex_w operand16
        else if 0x40 \<le> p \<and> p \<le> 0x4f then scan_prefixes code limit (offset + 1) (p AND 0x08 \<noteq> 0) operand16
        else (offset, rex_w, operand16)
      else (offset, rex_w, operand16))"
  by pat_completeness auto
termination
  by (relation "measure (\<lambda>(code, limit, offset, rex_w, operand16). limit - offset)") auto

declare scan_prefixes.simps [simp del]

text \<open>\<open>fits available n r\<close>: the instruction of \<open>n\<close> bytes, when the window holds it.\<close>

definition fits :: "nat \<Rightarrow> nat \<Rightarrow> bool \<Rightarrow> (nat \<times> bool) option" where
  "fits available n is_return = (if available < n then None else Some (n, is_return))"

definition modrm_insn :: "code \<Rightarrow> nat \<Rightarrow> nat \<Rightarrow> nat \<Rightarrow> (nat \<times> bool) option" where
  "modrm_insn code available offset imm_size =
     (case x86_modrm_tail_size (at code offset) (available - offset) of
        None \<Rightarrow> None
      | Some modrm_tail \<Rightarrow>
          if imm_size = 0 then Some (offset + modrm_tail, False)
          else fits available (offset + modrm_tail + imm_size) False)"

definition decode_two_byte :: "code \<Rightarrow> nat \<Rightarrow> nat \<Rightarrow> (nat \<times> bool) option" where
  "decode_two_byte code available offset0 =
     (if available \<le> offset0 then None
      else
        let op = code offset0; offset = offset0 + 1 in
        if op = 0x05 \<or> op = 0x34 then Some (offset, False)
        else if 0x80 \<le> op \<and> op \<le> 0x8f then fits available (offset + 4) False
        else if (0x90 \<le> op \<and> op \<le> 0x9f) \<or> (0xb6 \<le> op \<and> op \<le> 0xbf) then modrm_insn code available offset 0
        else None)"

definition decode_opcode :: "code \<Rightarrow> nat \<Rightarrow> nat \<Rightarrow> bool \<Rightarrow> bool \<Rightarrow> (nat \<times> bool) option" where
  "decode_opcode code available offset0 rex_w operand16 =
     (let op = code offset0; offset = offset0 + 1 in
      if op = 0xc3 \<or> op = 0xcb then Some (offset, True)
      else if op = 0xc2 \<or> op = 0xca then fits available (offset + 2) True
      else if 0xb8 \<le> op \<and> op \<le> 0xbf
        then fits available (offset + (if rex_w then 8 else if operand16 then 2 else 4)) False
      else if op = 0x68 \<or> op = 0xe8 \<or> op = 0xe9 then fits available (offset + 4) False
      else if op AND 0xfe = 0x04 \<or> op AND 0xfe = 0x0c \<or> op AND 0xfe = 0x14 \<or> op AND 0xfe = 0x1c \<or>
              op AND 0xfe = 0x24 \<or> op AND 0xfe = 0x2c \<or> op AND 0xfe = 0x34 \<or> op AND 0xfe = 0x3c
        then fits available (offset + (if op AND 0x01 \<noteq> 0 then if operand16 then 2 else 4 else 1)) False
      else if op = 0x6a \<or> op = 0xeb \<or> (0x70 \<le> op \<and> op \<le> 0x7f) then fits available (offset + 1) False
      else if (0x50 \<le> op \<and> op \<le> 0x5f) \<or> op = 0x90 \<or> op = 0x9c \<or> op = 0x9d \<or> op = 0xcc
        then Some (offset, False)
      else if op = 0x80 \<or> op = 0x82 \<or> op = 0x83 \<or> op = 0xc0 \<or> op = 0xc1 \<or> op = 0xc6
        then modrm_insn code available offset 1
      else if op = 0x81 \<or> op = 0xc7 then modrm_insn code available offset (if operand16 then 2 else 4)
      else if (op \<le> 0x3b \<and> op AND 0x07 \<le> 0x03) \<or> op = 0x84 \<or> op = 0x85 \<or> (0x88 \<le> op \<and> op \<le> 0x8f) \<or>
              op = 0xfe \<or> op = 0xff
        then modrm_insn code available offset 0
      else if op = 0x0f then decode_two_byte code available offset
      else None)"

definition x86_decode_instruction_size :: "code \<Rightarrow> nat \<Rightarrow> (nat \<times> bool) option" where
  "x86_decode_instruction_size code available =
     (case scan_prefixes code available 0 False False of
        (offset, rex_w, operand16) \<Rightarrow>
          if offset \<ge> available then None else decode_opcode code available offset rex_w operand16)"

text \<open>The scan of the bytes an entry patch replaces: the answer and \<^verbatim>\<open>*undecodable_out\<close>.\<close>

definition min_patch_size :: nat where
  "min_patch_size = 5"

function patch_scan :: "code \<Rightarrow> nat \<Rightarrow> bool \<times> bool" where
  "patch_scan code offset =
     (if offset < min_patch_size then
        (case x86_decode_instruction_size (at code offset) (min_patch_size - offset) of
           None \<Rightarrow> (False, True)
         | Some (insn_size, is_return) \<Rightarrow>
             if insn_size = 0 then (False, True)
             else if is_return then (True, False)
             else patch_scan code (offset + insn_size))
      else (False, False))"
  by pat_completeness auto
termination
  by (relation "measure (\<lambda>(code, offset). min_patch_size - offset)") auto

declare patch_scan.simps [simp del]

definition x86_has_return_before_entry_patch :: "code \<Rightarrow> bool \<times> bool" where
  "x86_has_return_before_entry_patch code =
     patch_scan code (case x86_match_endbr code 4 of Some n \<Rightarrow> n | None \<Rightarrow> 0)"

definition x86_has_return_opcode_mov_immediate_at_entry :: "code \<Rightarrow> bool" where
  "x86_has_return_opcode_mov_immediate_at_entry code0 =
     (let code = skip_endbr code0 in
      case scan_prefixes code 8 0 False False of
        (offset, rex_w, operand16) \<Rightarrow>
          let op = code offset in
          if 0xb8 \<le> op \<and> op \<le> 0xbf
          then x86_immediate_contains_return_opcode (at code (offset + 1))
                 (if rex_w then 8 else if operand16 then 2 else 4)
          else False)"

definition x86_has_rdx_prefix_prologue :: "code \<Rightarrow> bool" where
  "x86_has_rdx_prefix_prologue code0 =
     (let code = skip_endbr code0 in
      case x86_match_zero_rdx code of
        None \<Rightarrow> False
      | Some zero_size \<Rightarrow>
          if \<not> x86_match_zero_eax (at code zero_size) \<or>
             \<not> x86_match_first_indexed_load_after_zero (at code (zero_size + 2))
          then False
          else if \<not> x86_match_rdx_counter_update_after_load (at code (zero_size + 2 + 3)) then False
          else True)"

subsection \<open>AArch64\<close>

definition arm64_note_ip :: "uint32 \<Rightarrow> bool \<times> bool \<Rightarrow> bool \<times> bool" where
  "arm64_note_ip reg seen =
     (if reg = 16 then (True, snd seen) else if reg = 17 then (fst seen, True) else seen)"

definition arm64_note_prefix_operands :: "uint32 \<Rightarrow> bool \<times> bool \<Rightarrow> bool \<times> bool" where
  "arm64_note_prefix_operands insn seen =
     (let rd = insn AND 0x1f; rn = drop_bit 5 insn AND 0x1f; rm = drop_bit 16 insn AND 0x1f; rt = rd in
      if insn AND 0x7f800000 = 0x52800000 \<or> insn AND 0x7f800000 = 0x12800000 \<or> insn AND 0x7f800000 = 0x72800000
        then arm64_note_ip rd seen
      else if insn AND 0x1f000000 = 0x11000000 then arm64_note_ip rn (arm64_note_ip rd seen)
      else if insn AND 0x1f000000 = 0x0a000000 then arm64_note_ip rm (arm64_note_ip rn (arm64_note_ip rd seen))
      else if insn AND 0x1f000000 = 0x10000000 then arm64_note_ip rd seen
      else if insn AND 0x7e000000 = 0x34000000 then arm64_note_ip rt seen
      else if insn AND 0x3b000000 = 0x39000000 \<or> insn AND 0x3b200c00 = 0x38000400 \<or>
              insn AND 0x3b200c00 = 0x38000c00 \<or> insn AND 0x3b200c00 = 0x38200800
        then arm64_note_ip rn (arm64_note_ip rt seen)
      else if insn AND 0xfffffc1f = 0xd65f0000 then arm64_note_ip rn seen
      else seen)"

text \<open>A 32-bit little-endian load, as \<^verbatim>\<open>memcpy\<close> into a \<^verbatim>\<open>guint32\<close> on AArch64.\<close>

definition load32 :: "code \<Rightarrow> nat \<Rightarrow> uint32" where
  "load32 code n = ucast (code n) OR push_bit 8 (ucast (code (n + 1))) OR
     push_bit 16 (ucast (code (n + 2))) OR push_bit 24 (ucast (code (n + 3)))"

definition arm64_conservative_both_ip_registers_in_prefix :: "code \<Rightarrow> bool" where
  "arm64_conservative_both_ip_registers_in_prefix code =
     (let seen = fold (\<lambda>i. arm64_note_prefix_operands (load32 code (i * 4))) [0..<4] (False, False)
      in fst seen \<and> snd seen)"

type_synonym memory_reader = "nat \<Rightarrow> nat \<Rightarrow> byte list option"

text \<open>A read of exactly \<open>n\<close> bytes: \<^verbatim>\<open>copy != NULL && bytes_read == n\<close>.\<close>

definition read_exact :: "memory_reader \<Rightarrow> nat \<Rightarrow> nat \<Rightarrow> code option" where
  "read_exact gum_memory_read address n =
     (case gum_memory_read address n of
        None \<Rightarrow> None
      | Some bytes \<Rightarrow> if length bytes = n then Some (\<lambda>k. if k < n then bytes ! k else 0) else None)"

definition branch_displacement :: "uint32 \<Rightarrow> int" where
  "branch_displacement branch =
     (let d = uint (branch AND 0x03ffffff) in if d AND 2 ^ 25 \<noteq> 0 then d - 2 ^ 26 else d)"

definition branch_target :: "nat \<Rightarrow> int \<Rightarrow> nat option" where
  "branch_target source byte_displacement =
     (if byte_displacement \<ge> 0
      then if source > UINTPTR_MAX - nat byte_displacement then None else Some (source + nat byte_displacement)
      else if source < nat (- byte_displacement) then None else Some (source - nat (- byte_displacement)))"

definition is_canonical_plt :: "code \<Rightarrow> bool" where
  "is_canonical_plt plt \<longleftrightarrow>
     load32 plt 0 AND 0x9f00001f = 0x90000010 \<and> load32 plt 4 AND 0xffc003ff = 0xf9400211 \<and>
     load32 plt 8 AND 0xffc003ff = 0x91000210 \<and> load32 plt 12 = 0xd61f0220 \<and>
     (drop_bit 10 (load32 plt 4) AND 0xfff) * 8 = drop_bit 10 (load32 plt 8) AND 0xfff"

definition arm64_target_branches_to_elf_plt :: "memory_reader \<Rightarrow> nat \<Rightarrow> nat option" where
  "arm64_target_branches_to_elf_plt gum_memory_read address =
     (if address = 0 \<or> address > UINTPTR_MAX - 3 then None
      else case read_exact gum_memory_read address 4 of
        None \<Rightarrow> None
      | Some branch_copy \<Rightarrow>
          let branch = load32 branch_copy 0 in
          if branch AND 0xfc000000 \<noteq> 0x14000000 then None
          else case branch_target address (branch_displacement branch * 4) of
            None \<Rightarrow> None
          | Some plt_address \<Rightarrow>
              if plt_address > UINTPTR_MAX - 15 then None
              else case read_exact gum_memory_read plt_address 16 of
                None \<Rightarrow> None
              | Some plt \<Rightarrow> if is_canonical_plt plt then Some plt_address else None)"

subsection \<open>The attach plan\<close>

definition x86_target_redirect_size :: "memory_reader \<Rightarrow> nat \<Rightarrow> nat" where
  "x86_target_redirect_size gum_memory_read address =
     (if address = 0 \<or> address > UINTPTR_MAX - 4 then 0
      else case read_exact gum_memory_read address 5 of
        None \<Rightarrow> 0
      | Some code \<Rightarrow>
          if code 0 = 0xe9 then 5
          else if code 0 = 0xff \<and> code 1 = 0x25 \<and> address \<le> UINTPTR_MAX - 5
          then (case read_exact gum_memory_read address 6 of
                  None \<Rightarrow> 0
                | Some code' \<Rightarrow> if code' 0 = 0xff \<and> code' 1 = 0x25 then 6 else 0)
          else 0)"

datatype GumRedirectWriteResult = GUM_REDIRECT_DECLINED | GUM_REDIRECT_WRITTEN

text \<open>The redirect writer: \<open>can_branch\<close> and \<open>put_jmp\<close> are the answers of Gum's code writer.\<close>

definition x86_write_near_redirect :: "nat option \<Rightarrow> bool \<Rightarrow> bool \<Rightarrow> GumRedirectWriteResult" where
  "x86_write_near_redirect writer_capacity can_branch put_jmp =
     (case writer_capacity of
        None \<Rightarrow> GUM_REDIRECT_DECLINED
      | Some cap \<Rightarrow>
          if cap < 5 then GUM_REDIRECT_DECLINED
          else if \<not> can_branch \<or> \<not> put_jmp then GUM_REDIRECT_DECLINED
          else GUM_REDIRECT_WRITTEN)"

record PeakGumTargetAttachPlan =
  near_redirect_writer :: bool
  redirect_space_hint :: nat
  relocation_forced :: bool
  mutation_address :: nat
  mutation_guard_size :: nat
  attach_exact_entry :: bool

definition empty_plan :: "nat \<Rightarrow> PeakGumTargetAttachPlan" where
  "empty_plan address =
     \<lparr>near_redirect_writer = False, redirect_space_hint = 0, relocation_forced = False,
      mutation_address = address, mutation_guard_size = 0, attach_exact_entry = False\<rparr>"

definition gum_target_attach_plan :: "arch \<Rightarrow> nat \<Rightarrow> memory_reader \<Rightarrow> nat \<Rightarrow> PeakGumTargetAttachPlan" where
  "gum_target_attach_plan arch max_prologue_size gum_memory_read address =
     (case arch of
        X86_64 \<Rightarrow>
          let redirect_size = x86_target_redirect_size gum_memory_read address in
          if redirect_size > 0
          then (empty_plan address)
                 \<lparr>near_redirect_writer := True, redirect_space_hint := redirect_size,
                  mutation_guard_size := redirect_size, attach_exact_entry := True\<rparr>
          else empty_plan address
      | AArch64 \<Rightarrow>
          (case arm64_target_branches_to_elf_plt gum_memory_read address of
             Some plt_address \<Rightarrow>
               (empty_plan address)
                 \<lparr>relocation_forced := True, mutation_address := plt_address,
                  mutation_guard_size := max_prologue_size\<rparr>
           | None \<Rightarrow> empty_plan address)
      | Other_arch \<Rightarrow> empty_plan address)"

text \<open>Which of Gum's entry points performs the attach.\<close>

datatype gum_attach_call = Gum_attach_exact PeakGumTargetAttachPlan | Gum_attach "PeakGumTargetAttachPlan option"

definition gum_interceptor_attach_target :: "PeakGumTargetAttachPlan option \<Rightarrow> gum_attach_call" where
  "gum_interceptor_attach_target plan =
     (case plan of
        Some p \<Rightarrow> if attach_exact_entry p then Gum_attach_exact p else Gum_attach plan
      | None \<Rightarrow> Gum_attach None)"

subsection \<open>The classification\<close>

definition has_default_unsafe_prologue :: "arch \<Rightarrow> code \<Rightarrow> string option" where
  "has_default_unsafe_prologue arch code =
     (if arch = X86_64 \<and> x86_has_rdx_prefix_prologue code then Some ''x86-rdx-prefix'' else None)"

definition has_conservative_unsafe_prologue :: "arch \<Rightarrow> code \<Rightarrow> string option" where
  "has_conservative_unsafe_prologue arch code =
     (case arch of
        X86_64 \<Rightarrow>
          if x86_has_high_movabs_at_entry code then Some ''x86-high-movabs-entry''
          else if x86_has_return_opcode_mov_immediate_at_entry code then Some ''x86-return-immediate-entry''
          else None
      | AArch64 \<Rightarrow>
          if arm64_conservative_both_ip_registers_in_prefix code
          then Some ''arm64-both-ip-prefix-conservative'' else None
      | Other_arch \<Rightarrow> None)"

text \<open>The reason when the prologue is unsafe; the code is \<open>None\<close> for a null address.\<close>

definition unsafe_gum_prologue_check ::
  "arch \<Rightarrow> code option \<Rightarrow> PeakUnsafeGumProloguePolicy \<Rightarrow> string option" where
  "unsafe_gum_prologue_check arch address policy =
     (case address of
        None \<Rightarrow> None
      | Some code \<Rightarrow>
          (case has_default_unsafe_prologue arch code of
             Some reason \<Rightarrow> Some reason
           | None \<Rightarrow>
               if policy = POLICY_CONSERVATIVE then has_conservative_unsafe_prologue arch code else None))"

definition gum_prologue_too_short_for_attach :: "arch \<Rightarrow> code option \<Rightarrow> string option" where
  "gum_prologue_too_short_for_attach arch address =
     (case address of
        None \<Rightarrow> None
      | Some code \<Rightarrow>
          if arch = X86_64 \<and> fst (x86_has_return_before_entry_patch code)
          then Some ''x86-return-before-entry-patch'' else None)"

definition unsafe_gum_support_prologue_check :: "code option \<Rightarrow> string option" where
  "unsafe_gum_support_prologue_check address = None"

subsection \<open>The decoder stays in its window\<close>

definition same_bytes :: "nat \<Rightarrow> code \<Rightarrow> code \<Rightarrow> bool" where
  "same_bytes n c c' \<longleftrightarrow> (\<forall>k<n. c k = c' k)"

lemma same_bytes_at: "same_bytes n c c' \<Longrightarrow> same_bytes (n - k) (at c k) (at c' k)"
  by (auto simp: same_bytes_def at_def)

lemma same_bytes_mono: "same_bytes n c c' \<Longrightarrow> m \<le> n \<Longrightarrow> same_bytes m c c'"
  by (auto simp: same_bytes_def)

lemma fits_Some: "fits available n r = Some x \<longleftrightarrow> n \<le> available \<and> x = (n, r)"
  by (auto simp: fits_def)

lemma modrm_size_pos: "1 \<le> modrm_size md rm sib_base"
  by (simp add: modrm_size_def)

lemma modrm_size_sib: "\<not> (md \<noteq> 3 \<and> rm = 4) \<Longrightarrow> modrm_size md rm b = modrm_size md rm b'"
  unfolding modrm_size_def by (simp only: if_False)

lemma guarded_size_Some:
  "(if a = 0 then None else if short then None else if s > a then None else Some s) = Some n \<longleftrightarrow>
     a \<noteq> (0::nat) \<and> \<not> short \<and> n = s \<and> n \<le> a"
  by auto

lemma modrm_tail_Some:
  "x86_modrm_tail_size code available = Some n \<longleftrightarrow>
     (available \<noteq> 0 \<and> \<not> (drop_bit 6 (code 0) \<noteq> 3 \<and> code 0 AND 0x7 = 4 \<and> available < 2) \<and>
      n = modrm_size (drop_bit 6 (code 0)) (code 0 AND 0x7) (code 1 AND 0x7) \<and> n \<le> available)"
  unfolding x86_modrm_tail_size_def Let_def one_add_one by (rule guarded_size_Some)

lemma modrm_tail_bounds:
  "x86_modrm_tail_size code available = Some n \<Longrightarrow> 1 \<le> n \<and> n \<le> available"
  using modrm_size_pos unfolding modrm_tail_Some by blast

lemma modrm_tail_window:
  assumes "x86_modrm_tail_size code available = Some n" and "available \<le> available'"
  shows "x86_modrm_tail_size code available' = Some n"
  using assms unfolding modrm_tail_Some by linarith

lemma modrm_tail_local_Some:
  assumes "same_bytes available c c'" and "x86_modrm_tail_size c available = Some n"
  shows "x86_modrm_tail_size c' available = Some n"
proof -
  have 0: "c 0 = c' 0"
    using assms by (simp add: same_bytes_def modrm_tail_Some)
  show ?thesis
  proof (cases "drop_bit 6 (c 0) \<noteq> 3 \<and> c 0 AND 0x7 = 4")
    case True
    then have "1 < available"
      using assms(2) unfolding modrm_tail_Some by linarith
    then have "c 1 = c' 1"
      using assms(1) unfolding same_bytes_def by blast
    then show ?thesis
      using assms(2) unfolding modrm_tail_Some 0 by metis
  next
    case False
    then show ?thesis
      using assms(2) modrm_size_sib [OF False, of "c 1 AND 0x7" "c' 1 AND 0x7"]
      unfolding modrm_tail_Some 0 by metis
  qed
qed

lemma same_bytes_sym: "same_bytes n c c' \<Longrightarrow> same_bytes n c' c"
  by (simp add: same_bytes_def)

lemma modrm_tail_local:
  assumes "same_bytes available c c'"
  shows "x86_modrm_tail_size c available = x86_modrm_tail_size c' available"
  using modrm_tail_local_Some [OF assms] modrm_tail_local_Some [OF same_bytes_sym [OF assms]]
  by (metis option.exhaust)

text \<open>Two notions for chains of conditionals: every result lies in the window, and a result of the
  first is a result of the second.\<close>

definition within :: "nat \<Rightarrow> nat \<Rightarrow> (nat \<times> bool) option \<Rightarrow> bool" where
  "within lo hi r \<longleftrightarrow> (\<forall>n q. r = Some (n, q) \<longrightarrow> lo < n \<and> n \<le> hi)"

definition extends :: "'a option \<Rightarrow> 'a option \<Rightarrow> bool" where
  "extends r r' \<longleftrightarrow> (\<forall>x. r = Some x \<longrightarrow> r' = Some x)"

lemma within_intros [intro]:
  "within lo hi None"
  "lo < n \<Longrightarrow> n \<le> hi \<Longrightarrow> within lo hi (Some (n, q))"
  "lo < n \<Longrightarrow> within lo hi (fits hi n q)"
  by (auto simp: within_def fits_Some)

lemma within_if: "within lo hi x \<Longrightarrow> within lo hi y \<Longrightarrow> within lo hi (if b then x else y)"
  by simp

lemma extends_intros [intro]:
  "extends None r" "extends r r" "available \<le> available' \<Longrightarrow> extends (fits available n q) (fits available' n q)"
  by (auto simp: extends_def fits_Some)

lemma extends_if: "extends x x' \<Longrightarrow> extends y y' \<Longrightarrow> extends (if b then x else y) (if b then x' else y')"
  by simp

lemma modrm_insn_within: "offset \<le> available \<Longrightarrow> within offset available (modrm_insn code available offset imm)"
  using modrm_tail_bounds [of "at code offset" "available - offset"]
  by (fastforce simp: within_def modrm_insn_def fits_Some split: option.splits if_splits)

lemma modrm_insn_extends:
  assumes "available \<le> available'"
  shows "extends (modrm_insn code available offset imm) (modrm_insn code available' offset imm)"
  unfolding extends_def
proof (intro allI impI)
  fix x
  assume x: "modrm_insn code available offset imm = Some x"
  then obtain t where t: "x86_modrm_tail_size (at code offset) (available - offset) = Some t"
    by (auto simp: modrm_insn_def split: option.splits)
  have "x86_modrm_tail_size (at code offset) (available' - offset) = Some t"
    by (rule modrm_tail_window [OF t]) (use assms in simp)
  then show "modrm_insn code available' offset imm = Some x"
    using x t assms by (auto simp: modrm_insn_def fits_Some split: if_splits)
qed

lemma modrm_insn_local:
  "same_bytes available c c' \<Longrightarrow> modrm_insn c available offset imm = modrm_insn c' available offset imm"
  by (simp add: modrm_insn_def modrm_tail_local [OF same_bytes_at])

lemma within_mono: "within lo hi r \<Longrightarrow> lo' \<le> lo \<Longrightarrow> within lo' hi r"
  by (auto simp: within_def)

lemma decode_two_byte_within: "within offset available (decode_two_byte code available offset)"
proof (cases "available \<le> offset")
  case False
  then have "within offset available (modrm_insn code available (offset + 1) 0)"
    by (intro within_mono [OF modrm_insn_within]) simp_all
  then show ?thesis
    using False unfolding decode_two_byte_def Let_def by (intro within_if within_intros) simp_all
qed (simp add: decode_two_byte_def within_intros)

lemma decode_two_byte_extends:
  assumes "available \<le> available'"
  shows "extends (decode_two_byte code available offset) (decode_two_byte code available' offset)"
proof (cases "available \<le> offset")
  case False
  then have "\<not> available' \<le> offset"
    using assms by simp
  with False show ?thesis
    unfolding decode_two_byte_def Let_def if_not_P [OF False] if_not_P [OF \<open>\<not> available' \<le> offset\<close>]
    by (intro extends_if extends_intros modrm_insn_extends assms)
qed (simp add: decode_two_byte_def extends_intros)

lemma decode_two_byte_local:
  assumes "same_bytes available c c'"
  shows "decode_two_byte c available offset = decode_two_byte c' available offset"
proof (cases "available \<le> offset")
  case False
  then have "c offset = c' offset"
    using assms by (simp add: same_bytes_def)
  then show ?thesis
    unfolding decode_two_byte_def modrm_insn_local [OF assms] by (simp only:)
qed (simp add: decode_two_byte_def)

lemma decode_opcode_within:
  assumes "offset < available"
  shows "within offset available (decode_opcode code available offset rex_w operand16)"
proof -
  have "within offset available (modrm_insn code available (offset + 1) imm)" for imm
    using assms by (intro within_mono [OF modrm_insn_within]) simp_all
  moreover have "within offset available (decode_two_byte code available (offset + 1))"
    by (intro within_mono [OF decode_two_byte_within]) simp
  ultimately show ?thesis
    using assms unfolding decode_opcode_def Let_def by (intro within_if within_intros) simp_all
qed

lemma decode_opcode_extends:
  assumes "available \<le> available'"
  shows "extends (decode_opcode code available offset rex_w operand16) (decode_opcode code available' offset rex_w operand16)"
  unfolding decode_opcode_def Let_def
  by (intro extends_if extends_intros modrm_insn_extends decode_two_byte_extends assms)

lemma decode_opcode_local:
  assumes "same_bytes available c c'" and "offset < available"
  shows "decode_opcode c available offset rex_w operand16 = decode_opcode c' available offset rex_w operand16"
proof -
  have "c offset = c' offset"
    using assms by (simp add: same_bytes_def)
  then show ?thesis
    unfolding decode_opcode_def modrm_insn_local [OF assms(1)] decode_two_byte_local [OF assms(1)] by (simp only:)
qed

lemma scan_prefixes_window:
  assumes "scan_prefixes code limit offset w o16 = (p, w', o16')" and "p < limit" and "limit \<le> limit'"
  shows "scan_prefixes code limit' offset w o16 = (p, w', o16')"
  using assms
proof (induction code limit offset w o16 rule: scan_prefixes.induct)
  case (1 code limit offset w o16)
  note eq = scan_prefixes.simps [of code _ offset w o16]
  show ?case
  proof (cases "offset < limit")
    case True
    then have "offset < limit'"
      using 1(6) by simp
    then show ?thesis
      using 1 True unfolding eq [of limit] eq [of limit'] Let_def by (auto split: if_split_asm)
  next
    case False
    then show ?thesis
      using 1 unfolding eq [of limit] by simp
  qed
qed

lemma scan_prefixes_local:
  assumes "same_bytes limit c c'"
  shows "scan_prefixes c limit offset w o16 = scan_prefixes c' limit offset w o16"
  using assms
proof (induction c limit offset w o16 rule: scan_prefixes.induct)
  case (1 c limit offset w o16)
  show ?case
  proof (cases "offset < limit")
    case True
    then have "c offset = c' offset"
      using 1(4) by (simp add: same_bytes_def)
    then show ?thesis
      using 1 True unfolding scan_prefixes.simps [of _ limit offset w o16] Let_def by simp
  qed (simp add: scan_prefixes.simps)
qed

lemma decode_within: "within 0 available (x86_decode_instruction_size code available)"
  by (auto simp: x86_decode_instruction_size_def split: prod.splits
      intro!: within_intros(1) within_mono [OF decode_opcode_within])

lemma decode_extends:
  assumes "available \<le> available'"
  shows "extends (x86_decode_instruction_size code available) (x86_decode_instruction_size code available')"
proof -
  obtain p w o16 where scan: "scan_prefixes code available 0 False False = (p, w, o16)"
    by (cases "scan_prefixes code available 0 False False")
  show ?thesis
  proof (cases "p < available")
    case True
    then show ?thesis
      using scan scan_prefixes_window [OF scan True assms] decode_opcode_extends [OF assms] assms
      by (simp add: x86_decode_instruction_size_def)
  qed (simp add: x86_decode_instruction_size_def scan extends_intros)
qed

lemma decode_local:
  "same_bytes available c c' \<Longrightarrow> x86_decode_instruction_size c available = x86_decode_instruction_size c' available"
  by (simp add: x86_decode_instruction_size_def scan_prefixes_local decode_opcode_local split: prod.split)

subsection \<open>The scan of the entry patch\<close>

text \<open>Instruction boundaries of the entry, as the decoder sees them within the patch window.\<close>

inductive insn_boundary :: "code \<Rightarrow> nat \<Rightarrow> nat \<Rightarrow> bool" for code entry where
  entry: "insn_boundary code entry entry"
| next_insn: "insn_boundary code entry off \<Longrightarrow> off < min_patch_size \<Longrightarrow>
    x86_decode_instruction_size (at code off) (min_patch_size - off) = Some (n, False) \<Longrightarrow>
    insn_boundary code entry (off + n)"

inductive_cases insn_boundary_E: "insn_boundary code entry off"

lemma insn_boundary_step:
  assumes "insn_boundary code (entry + n) off" and "entry < min_patch_size"
    and "x86_decode_instruction_size (at code entry) (min_patch_size - entry) = Some (n, False)"
  shows "insn_boundary code entry off"
  using assms(1)
proof (induction off rule: insn_boundary.induct)
  case entry
  then show ?case
    using insn_boundary.next_insn [OF insn_boundary.entry] assms(2,3) by blast
qed (auto intro: insn_boundary.next_insn)

lemma insn_boundary_first:
  assumes "insn_boundary code entry off"
  shows "off = entry \<or> (\<exists>n. entry < min_patch_size \<and>
    x86_decode_instruction_size (at code entry) (min_patch_size - entry) = Some (n, False) \<and>
    insn_boundary code (entry + n) off)"
  using assms
proof (induction off rule: insn_boundary.induct)
  case (next_insn off n)
  then show ?case
    by (auto intro: insn_boundary.intros)
qed simp

lemma insn_boundary_ge: "insn_boundary code entry off \<Longrightarrow> entry \<le> off"
  by (induction off rule: insn_boundary.induct) auto

lemma patch_scan_return:
  "fst (patch_scan code entry) \<longleftrightarrow> (\<exists>off n. insn_boundary code entry off \<and> off < min_patch_size \<and>
     x86_decode_instruction_size (at code off) (min_patch_size - off) = Some (n, True))"
proof (induction code entry rule: patch_scan.induct)
  case (1 code entry)
  show ?case
  proof (cases "entry < min_patch_size")
    case True
    show ?thesis
    proof (cases "x86_decode_instruction_size (at code entry) (min_patch_size - entry)")
      case None
      then have "off = entry" if "insn_boundary code entry off" for off
        using insn_boundary_first [OF that] by simp
      then have "\<nexists>off n. insn_boundary code entry off \<and> off < min_patch_size \<and>
          x86_decode_instruction_size (at code off) (min_patch_size - off) = Some (n, True)"
        using None by (metis option.distinct(1))
      then show ?thesis
        using True None by (simp add: patch_scan.simps [of code entry])
    next
      case (Some x)
      then obtain n r where x: "x86_decode_instruction_size (at code entry) (min_patch_size - entry) = Some (n, r)" "n \<noteq> 0"
        using decode_within [of "min_patch_size - entry" "at code entry"] by (cases x) (auto simp: within_def)
      show ?thesis
      proof (cases r)
        case True
        with x \<open>entry < min_patch_size\<close> show ?thesis
          by (auto simp: patch_scan.simps [of code entry] intro: insn_boundary.entry)
      next
        case False
        then have "patch_scan code entry = patch_scan code (entry + n)"
          using x True by (simp add: patch_scan.simps [of code entry])
        moreover have "fst (patch_scan code (entry + n)) \<longleftrightarrow> (\<exists>off m. insn_boundary code (entry + n) off \<and>
            off < min_patch_size \<and> x86_decode_instruction_size (at code off) (min_patch_size - off) = Some (m, True))"
          using 1 True x False by simp
        moreover have "insn_boundary code entry off \<longleftrightarrow> off = entry \<or> insn_boundary code (entry + n) off" for off
          using insn_boundary_step [of code entry n off] insn_boundary_first [of code entry off] x True False
          by (auto intro: insn_boundary.entry)
        ultimately show ?thesis
          using x False by auto
      qed
    qed
  next
    case False
    then show ?thesis
      by (auto simp: patch_scan.simps [of code entry] dest!: insn_boundary_ge)
  qed
qed

lemma patch_scan_local:
  "same_bytes min_patch_size c c' \<Longrightarrow> patch_scan c entry = patch_scan c' entry"
proof (induction c entry rule: patch_scan.induct)
  case (1 c entry)
  then show ?case
    using decode_local [OF same_bytes_at [OF 1(2)], of entry]
    by (simp add: patch_scan.simps [of _ entry] split: option.split)
qed

subsection \<open>Branch targets\<close>

lemma branch_displacement_eq: "branch_displacement branch = signed_take_bit 25 (uint branch)"
proof -
  have m: "(0x03ffffff :: uint32) = mask 26"
    by (simp add: mask_eq_exp_minus_1)
  have d: "uint (branch AND 0x03ffffff) = take_bit 26 (uint branch)"
    unfolding m by (simp add: unsigned_take_bit_eq flip: take_bit_eq_mask)
  have "(take_bit 26 (uint branch) AND 2 ^ 25 \<noteq> 0) = bit (uint branch) 25"
    unfolding and_exp_eq_0_iff_not_bit by (simp add: bit_take_bit_iff)
  then show ?thesis
    unfolding branch_displacement_def Let_def d by (simp add: signed_take_bit_eq_take_bit_minus)
qed

lemma branch_target_exact:
  assumes "branch_target source disp = Some t" and "source \<le> UINTPTR_MAX" and "\<bar>disp\<bar> \<le> 2 ^ 60"
  shows "int t = int source + disp \<and> t \<le> UINTPTR_MAX"
  using assms by (auto simp: branch_target_def UINTPTR_MAX_def split: if_splits)

subsection \<open>Properties of the classifier\<close>

text \<open>(C38) The instruction length decoder never leaves its window: the length is positive and at
  most the number of available bytes, and only those bytes are read, so that two code sequences that
  agree on them decode alike. A length found in a window is also the length in every larger one.\<close>

theorem decoder_stays_in_window:
  assumes "x86_decode_instruction_size code available = Some (n, is_return)"
    and "\<forall>k<available. code' k = code k" and "available \<le> available'"
  shows "1 \<le> n \<and> n \<le> available \<and> x86_decode_instruction_size code' available' = Some (n, is_return)"
proof -
  have "same_bytes available code code'"
    using assms(2) by (simp add: same_bytes_def)
  then have "x86_decode_instruction_size code' available = Some (n, is_return)"
    using decode_local assms(1) by metis
  then show ?thesis
    using decode_extends [OF assms(3), of code'] decode_within [of available code] assms(1)
    by (simp add: extends_def within_def Suc_le_eq)
qed

theorem decoder_stays_in_window_witness:
  "x86_decode_instruction_size (\<lambda>k. [0x48, 0x8b, 0x04, 0x25, 1, 2, 3, 4, 0x90] ! k) 9 = Some (8, False)"
proof -
  have "x86_decode_instruction_size (\<lambda>k. [0x48, 0x8b, 0x04, 0x25, 1, 2, 3, 4] ! k) 8 = Some (8, False)"
    by code_simp
  from decoder_stays_in_window [OF this, of "\<lambda>k. [0x48, 0x8b, 0x04, 0x25, 1, 2, 3, 4, 0x90] ! k" 9]
  show ?thesis
    by (simp add: less_Suc_eq numeral_eq_Suc)
qed


text \<open>The attach plan on AArch64: it asks for forced relocation exactly when the entry is a
  branch to a canonical PLT stub, and then the address it reports is the sign-extended branch target,
  computed without wrap-around, so the whole stub lies in the address space.\<close>

theorem plt_plan_is_branch_target:
  assumes "relocation_forced (gum_target_attach_plan AArch64 m rd address)" and "address \<le> UINTPTR_MAX"
    and "p = mutation_address (gum_target_attach_plan AArch64 m rd address)"
  shows "\<exists>branch plt. read_exact rd address 4 = Some branch \<and>
    int p = int address + 4 * signed_take_bit 25 (uint (load32 branch 0)) \<and> p + 15 \<le> UINTPTR_MAX \<and>
    read_exact rd p 16 = Some plt \<and> is_canonical_plt plt"
proof -
  have "arm64_target_branches_to_elf_plt rd address = Some p"
    using assms by (auto simp: gum_target_attach_plan_def empty_plan_def split: option.splits)
  then obtain branch plt where b: "read_exact rd address 4 = Some branch"
    "branch_target address (branch_displacement (load32 branch 0) * 4) = Some p" "\<not> p > UINTPTR_MAX - 15"
    "read_exact rd p 16 = Some plt" "is_canonical_plt plt"
    by (auto simp: arm64_target_branches_to_elf_plt_def Let_def split: if_splits option.splits)
  have "\<bar>signed_take_bit 25 (uint (load32 branch 0)) * 4\<bar> \<le> 2 ^ 60"
    using signed_take_bit_int_less_exp [of 25 "uint (load32 branch 0)"]
      signed_take_bit_int_greater_eq_minus_exp [of 25 "uint (load32 branch 0)"] by simp
  with branch_target_exact [OF b(2) assms(2)] show ?thesis
    using b by (auto simp: branch_displacement_eq UINTPTR_MAX_def)
qed

theorem plt_plan_is_branch_target_witness:
  "\<exists>branch. int 4080 = int 4096 + 4 * signed_take_bit 25 (uint (load32 branch 0))"
proof -
  let ?stub = "[0x10, 0, 0, 0x90, 0x11, 2, 0x40, 0xf9, 0x10, 2, 0, 0x91, 0x20, 2, 0x1f, 0xd6] :: byte list"
  let ?rd = "\<lambda>a n. if a = 4096 \<and> n = 4 then Some [0xfc, 0xff, 0xff, 0x17]
      else if a = 4080 \<and> n = 16 then Some ?stub else None"
  let ?code = "\<lambda>bs (n::nat) k. if k < n then (bs :: byte list) ! k else 0"
  have r: "read_exact ?rd 4096 4 = Some (?code [0xfc, 0xff, 0xff, 0x17] 4)" "read_exact ?rd 4080 16 = Some (?code ?stub 16)"
    by (simp_all add: read_exact_def)
  have l: "load32 (?code [0xfc, 0xff, 0xff, 0x17] 4) 0 = 0x17fffffc" "is_canonical_plt (?code ?stub 16)"
    "branch_displacement 0x17fffffc = - 4" "0x17fffffc AND 0xfc000000 = (0x14000000 :: uint32)"
    by code_simp+
  have "arm64_target_branches_to_elf_plt ?rd 4096 = Some 4080"
    by (simp add: arm64_target_branches_to_elf_plt_def r l branch_target_def UINTPTR_MAX_def)
  then have "relocation_forced (gum_target_attach_plan AArch64 16 ?rd 4096)"
    "4080 = mutation_address (gum_target_attach_plan AArch64 16 ?rd 4096)"
    by (simp_all add: gum_target_attach_plan_def)
  from plt_plan_is_branch_target [OF this(1) _ this(2)] show ?thesis
    by (auto simp: UINTPTR_MAX_def)
qed

text \<open>The conservative policy is a strengthening of the default one: a prologue the default policy
  rejects is rejected by the conservative policy for the same reason, on every architecture, and an
  unknown policy name selects the default policy.\<close>

theorem conservative_policy_strengthens_default:
  assumes "unsafe_gum_prologue_check arch address POLICY_DEFAULT = Some reason"
  shows "unsafe_gum_prologue_check arch address policy = Some reason \<and> arch = X86_64 \<and> address \<noteq> None \<and>
    reason = ''x86-rdx-prefix'' \<and> (\<not> snd (policy_from_env env) \<longrightarrow> fst (policy_from_env env) = POLICY_DEFAULT)"
  using assms by (auto simp: unsafe_gum_prologue_check_def has_default_unsafe_prologue_def policy_from_env_def
      split: option.splits if_splits)

theorem conservative_policy_strengthens_default_witness:
  "unsafe_gum_prologue_check X86_64
     (Some (\<lambda>k. if k < 12 then [0x31, 0xd2, 0x31, 0xc0, 0x8b, 0x0c, 0x07, 0xff, 0xc2, 0, 0, 0] ! k else 0))
     POLICY_CONSERVATIVE = Some ''x86-rdx-prefix''"
proof -
  have "unsafe_gum_prologue_check X86_64
     (Some (\<lambda>k. if k < 12 then [0x31, 0xd2, 0x31, 0xc0, 0x8b, 0x0c, 0x07, 0xff, 0xc2, 0, 0, 0] ! k else 0))
     POLICY_DEFAULT = Some ''x86-rdx-prefix''"
    by code_simp
  from conservative_policy_strengthens_default [OF this] show ?thesis
    by blast
qed

end
