(* ===== verification/Attach_Policy.thy ===== *)
theory Attach_Policy
  imports Runtime_Config Gum_Prologue
begin

text \<open>
  The attach policy, \<^verbatim>\<open>src/general_listener/attach_policy.c\<close>: whether a resolved target may be hooked.
  The policy is read from the environment once per process; the classification of the prologue is
  the interface \<open>prologue_classifier\<close>, which \<^verbatim>\<open>Gum_Prologue\<close> provides.
\<close>

datatype attach_skip = Skip_redirect | Skip_too_short string | Skip_unsafe string PeakUnsafeGumProloguePolicy

record attach_policy_state =
  peak_attach_policy_initialized :: bool
  peak_allow_unsafe_gum_prologue :: bool
  peak_unsafe_gum_prologue_policy :: PeakUnsafeGumProloguePolicy
  attach_log :: "attach_skip list"

definition initial_attach_policy :: attach_policy_state where
  "initial_attach_policy =
     \<lparr>peak_attach_policy_initialized = False, peak_allow_unsafe_gum_prologue = False,
      peak_unsafe_gum_prologue_policy = POLICY_DEFAULT, attach_log = []\<rparr>"

definition init_attach_policy_once :: "environment \<Rightarrow> attach_policy_state \<Rightarrow> attach_policy_state" where
  "init_attach_policy_once getenv st =
     (case policy_from_env (getenv ''PEAK_UNSAFE_GUM_PROLOGUE_POLICY'') of
        (policy, policy_valid) \<Rightarrow>
          st\<lparr>peak_allow_unsafe_gum_prologue := env_value_truthy (getenv ''PEAK_ALLOW_UNSAFE_GUM_PROLOGUE''),
             peak_unsafe_gum_prologue_policy := (if policy_valid then policy else POLICY_DEFAULT)\<rparr>)"

definition init_attach_policy :: "environment \<Rightarrow> attach_policy_state \<Rightarrow> attach_policy_state" where
  "init_attach_policy getenv st =
     (if \<not> peak_attach_policy_initialized st
      then (init_attach_policy_once getenv st)\<lparr>peak_attach_policy_initialized := True\<rparr>
      else st)"

text \<open>\<open>redirects\<close> is the Darwin Arm64 check for an entry that branches away, false elsewhere.\<close>

definition attach_target_is_supported ::
  "(code option \<Rightarrow> string option) \<Rightarrow> (code option \<Rightarrow> PeakUnsafeGumProloguePolicy \<Rightarrow> string option) \<Rightarrow>
   environment \<Rightarrow> bool \<Rightarrow> code option \<Rightarrow> attach_policy_state \<Rightarrow> bool \<times> attach_policy_state" where
  "attach_target_is_supported too_short unsafe getenv redirects address st0 =
     (let st = init_attach_policy getenv st0 in
      if redirects then (False, st\<lparr>attach_log := attach_log st @ [Skip_redirect]\<rparr>)
      else if peak_allow_unsafe_gum_prologue st then (True, st)
      else case too_short address of
        Some reason \<Rightarrow> (False, st\<lparr>attach_log := attach_log st @ [Skip_too_short reason]\<rparr>)
      | None \<Rightarrow>
          (case unsafe address (peak_unsafe_gum_prologue_policy st) of
             Some reason \<Rightarrow>
               (False, st\<lparr>attach_log := attach_log st @ [Skip_unsafe reason (peak_unsafe_gum_prologue_policy st)]\<rparr>)
           | None \<Rightarrow> (True, st)))"

definition support_attach_target_is_supported :: "environment \<Rightarrow> attach_policy_state \<Rightarrow> bool \<times> attach_policy_state" where
  "support_attach_target_is_supported getenv st = (True, init_attach_policy getenv st)"

text \<open>The scan of \<^verbatim>\<open>/proc/self/task\<close>: the names \<^verbatim>\<open>readdir\<close> gives and its final \<^verbatim>\<open>errno\<close>; the directory is
  \<open>None\<close> when it cannot be opened.\<close>

fun count_tasks :: "string list \<Rightarrow> nat \<Rightarrow> int \<Rightarrow> bool" where
  "count_tasks [] task_count read_errno = (read_errno = 0 \<and> task_count = 1)"
| "count_tasks (name # names) task_count read_errno =
     (if name \<noteq> [] \<and> hd name = CHR ''.'' then count_tasks names task_count read_errno
      else if task_count + 1 > 1 then False
      else count_tasks names (task_count + 1) read_errno)"

definition startup_attach_can_skip_stop :: "(string list \<times> int) option \<Rightarrow> bool" where
  "startup_attach_can_skip_stop dir =
     (case dir of None \<Rightarrow> False | Some (names, read_errno) \<Rightarrow> count_tasks names 0 read_errno)"

subsection \<open>The classifier interface\<close>

locale prologue_classifier =
  fixes too_short :: "code option \<Rightarrow> string option"
    and unsafe :: "code option \<Rightarrow> PeakUnsafeGumProloguePolicy \<Rightarrow> string option"
  assumes null_too_short: "too_short None = None"
    and null_unsafe: "unsafe None policy = None"
    and default_weakest: "unsafe address POLICY_DEFAULT = Some reason \<Longrightarrow> unsafe address policy = Some reason"
begin

abbreviation supported :: "environment \<Rightarrow> bool \<Rightarrow> code option \<Rightarrow> attach_policy_state \<Rightarrow> bool" where
  "supported getenv redirects address st \<equiv>
     fst (attach_target_is_supported too_short unsafe getenv redirects address st)"

lemma supported_iff:
  "supported getenv redirects address st \<longleftrightarrow>
     \<not> redirects \<and> (peak_allow_unsafe_gum_prologue (init_attach_policy getenv st) \<or>
       too_short address = None \<and>
       unsafe address (peak_unsafe_gum_prologue_policy (init_attach_policy getenv st)) = None)"
  by (auto simp: attach_target_is_supported_def Let_def split: option.splits)

lemma default_None: "unsafe address policy = None \<Longrightarrow> unsafe address POLICY_DEFAULT = None"
  using default_weakest [of address _ policy] by (cases "unsafe address POLICY_DEFAULT") simp_all

text \<open>Relaxing the policy never loses a target.\<close>

lemma supported_antimono:
  assumes "supported getenv redirects address st"
    and "st' = st\<lparr>peak_unsafe_gum_prologue_policy := POLICY_DEFAULT\<rparr>" and "peak_attach_policy_initialized st"
  shows "supported getenv redirects address st'"
  using assms default_None by (auto simp: supported_iff init_attach_policy_def)

lemma null_supported: "supported getenv redirects None st \<longleftrightarrow> \<not> redirects"
  by (auto simp: supported_iff null_too_short null_unsafe)

end

interpretation prologue: prologue_classifier "gum_prologue_too_short_for_attach arch" "unsafe_gum_prologue_check arch" for arch
  by unfold_locales
    (auto simp: gum_prologue_too_short_for_attach_def unsafe_gum_prologue_check_def split: option.splits)

subsection \<open>Properties of the attach policy\<close>

text \<open>The attach decision: a target is accepted exactly when its entry does not redirect and either
  the override is set or the prologue is neither too short nor unsafe under the active policy; a
  redirecting entry is refused even with the override, and a policy relaxed to the default keeps every
  accepted target.\<close>

theorem attach_decision:
  assumes "peak_attach_policy_initialized st"
  shows "(fst (attach_target_is_supported (gum_prologue_too_short_for_attach arch) (unsafe_gum_prologue_check arch)
        getenv redirects address st) \<longleftrightarrow>
      \<not> redirects \<and> (peak_allow_unsafe_gum_prologue st \<or> gum_prologue_too_short_for_attach arch address = None \<and>
        unsafe_gum_prologue_check arch address (peak_unsafe_gum_prologue_policy st) = None)) \<and>
    (fst (attach_target_is_supported (gum_prologue_too_short_for_attach arch) (unsafe_gum_prologue_check arch)
        getenv redirects address st) \<longrightarrow>
      fst (attach_target_is_supported (gum_prologue_too_short_for_attach arch) (unsafe_gum_prologue_check arch)
        getenv redirects address (st\<lparr>peak_unsafe_gum_prologue_policy := POLICY_DEFAULT\<rparr>)))"
  using assms prologue.supported_iff [of arch getenv redirects address st]
    prologue.supported_antimono [of arch getenv redirects address st] by (simp add: init_attach_policy_def)

theorem attach_decision_witness:
  "\<not> fst (attach_target_is_supported (gum_prologue_too_short_for_attach X86_64) (unsafe_gum_prologue_check X86_64)
      (\<lambda>_. None) False (Some (\<lambda>_. 0xc3)) (initial_attach_policy\<lparr>peak_attach_policy_initialized := True\<rparr>))"
proof -
  have "gum_prologue_too_short_for_attach X86_64 (Some (\<lambda>_. 0xc3)) \<noteq> None"
    by code_simp
  then show ?thesis
    using attach_decision [of "initial_attach_policy\<lparr>peak_attach_policy_initialized := True\<rparr>" X86_64 "\<lambda>_. None" False
        "Some (\<lambda>_. 0xc3)"]
    by (simp add: initial_attach_policy_def)
qed

text \<open>The policy is fixed by the first query: later changes of the environment are not seen, so every
  target of a run is judged by the same rules.\<close>

theorem attach_policy_read_once:
  "init_attach_policy getenv' (init_attach_policy getenv st) = init_attach_policy getenv st \<and>
   snd (attach_target_is_supported t u getenv' r a (init_attach_policy getenv st)) =
     (init_attach_policy getenv st)
       \<lparr>attach_log := attach_log (snd (attach_target_is_supported t u getenv' r a (init_attach_policy getenv st)))\<rparr>"
  by (auto simp: init_attach_policy_def init_attach_policy_once_def attach_target_is_supported_def Let_def
      split: prod.splits option.splits)

lemma count_tasks_iff:
  "k \<le> 1 \<Longrightarrow> count_tasks names k e \<longleftrightarrow>
     e = 0 \<and> k + length (filter (\<lambda>n. \<not> (n \<noteq> [] \<and> hd n = CHR ''.'')) names) = 1"
  by (induction names k e rule: count_tasks.induct) auto

text \<open>Startup skips the stop of peer threads only when the task directory was read completely and
  shows exactly one task.\<close>

theorem skip_stop_only_single_threaded:
  "startup_attach_can_skip_stop dir \<longleftrightarrow>
     (\<exists>names. dir = Some (names, 0) \<and> length (filter (\<lambda>n. \<not> (n \<noteq> [] \<and> hd n = CHR ''.'')) names) = 1)"
  by (auto simp: startup_attach_can_skip_stop_def count_tasks_iff split: option.splits)

end
