(* ===== verification/Hook_Control.thy ===== *)
theory Hook_Control
  imports Peak_Prelude
begin

text \<open>
  The packed control word of a listener, \<^verbatim>\<open>src/general_listener.c\<close>: the hook state in the low four bits, the
  detach-count request and the initial-crossing bit, and a generation above them that every state
  change increments. Callbacks and the controller share the word through compare-and-exchange; an
  exchange is modelled by the word it meets, so that a snapshot may be stale.
\<close>

datatype PeakHookState =
    PEAK_HOOK_UNRESOLVED | PEAK_HOOK_ATTACHED | PEAK_HOOK_DETACH_REQUESTED | PEAK_HOOK_DETACHING
  | PEAK_HOOK_DETACHED | PEAK_HOOK_REATTACH_REQUESTED | PEAK_HOOK_REATTACHING | PEAK_HOOK_SHUTDOWN

primrec state_code :: "PeakHookState \<Rightarrow> uint64" where
  "state_code PEAK_HOOK_UNRESOLVED = 0"
| "state_code PEAK_HOOK_ATTACHED = 1"
| "state_code PEAK_HOOK_DETACH_REQUESTED = 2"
| "state_code PEAK_HOOK_DETACHING = 3"
| "state_code PEAK_HOOK_DETACHED = 4"
| "state_code PEAK_HOOK_REATTACH_REQUESTED = 5"
| "state_code PEAK_HOOK_REATTACHING = 6"
| "state_code PEAK_HOOK_SHUTDOWN = 7"

definition PEAK_CALLBACK_HOOK_STATE_MASK :: uint64 where
  "PEAK_CALLBACK_HOOK_STATE_MASK = 0x0f"

definition PEAK_CALLBACK_DETACH_COUNT_REQUEST_BIT :: uint64 where
  "PEAK_CALLBACK_DETACH_COUNT_REQUEST_BIT = 0x10"

definition PEAK_CALLBACK_INITIAL_DETACH_COUNT_CROSSING_BIT :: uint64 where
  "PEAK_CALLBACK_INITIAL_DETACH_COUNT_CROSSING_BIT = 0x20"

definition PEAK_CALLBACK_HOOK_CONTROL_LOW_MASK :: uint64 where
  "PEAK_CALLBACK_HOOK_CONTROL_LOW_MASK =
     PEAK_CALLBACK_HOOK_STATE_MASK OR PEAK_CALLBACK_DETACH_COUNT_REQUEST_BIT OR
     PEAK_CALLBACK_INITIAL_DETACH_COUNT_CROSSING_BIT"

definition PEAK_CALLBACK_HOOK_GENERATION_INCREMENT :: uint64 where
  "PEAK_CALLBACK_HOOK_GENERATION_INCREMENT = 0x40"

lemmas control_constants =
  PEAK_CALLBACK_HOOK_STATE_MASK_def PEAK_CALLBACK_DETACH_COUNT_REQUEST_BIT_def
  PEAK_CALLBACK_INITIAL_DETACH_COUNT_CROSSING_BIT_def PEAK_CALLBACK_HOOK_CONTROL_LOW_MASK_def
  PEAK_CALLBACK_HOOK_GENERATION_INCREMENT_def

definition callback_hook_state :: "uint64 \<Rightarrow> uint64" where
  "callback_hook_state control = control AND PEAK_CALLBACK_HOOK_STATE_MASK"

definition first_attached_generation_is_adjacent :: "uint64 \<Rightarrow> uint64 \<Rightarrow> bool" where
  "first_attached_generation_is_adjacent unresolved_control attached_control \<longleftrightarrow>
     callback_hook_state unresolved_control = state_code PEAK_HOOK_UNRESOLVED \<and>
     callback_hook_state attached_control = state_code PEAK_HOOK_ATTACHED \<and>
     attached_control AND NOT PEAK_CALLBACK_HOOK_CONTROL_LOW_MASK =
       (unresolved_control AND NOT PEAK_CALLBACK_HOOK_CONTROL_LOW_MASK) + PEAK_CALLBACK_HOOK_GENERATION_INCREMENT"

text \<open>\<open>compare_exchange cell expected desired\<close>: success and the word afterwards.\<close>

definition compare_exchange :: "uint64 \<Rightarrow> uint64 \<Rightarrow> uint64 \<Rightarrow> bool \<times> uint64" where
  "compare_exchange cell expected desired = (if cell = expected then (True, desired) else (False, cell))"

definition try_publish_detach_count_request_snapshot :: "uint64 \<Rightarrow> uint64 \<Rightarrow> bool \<times> uint64" where
  "try_publish_detach_count_request_snapshot cell control =
     (if callback_hook_state control \<noteq> state_code PEAK_HOOK_ATTACHED \<or>
         control AND PEAK_CALLBACK_DETACH_COUNT_REQUEST_BIT \<noteq> 0
      then (False, cell)
      else compare_exchange cell control (control OR PEAK_CALLBACK_DETACH_COUNT_REQUEST_BIT))"

text \<open>The exchange also writes the word it met back to \<^verbatim>\<open>*control\<close>: the third component.\<close>

definition try_publish_initial_detach_count_crossing_snapshot :: "uint64 \<Rightarrow> uint64 \<Rightarrow> bool \<times> uint64 \<times> uint64" where
  "try_publish_initial_detach_count_crossing_snapshot cell control =
     (if callback_hook_state control \<noteq> state_code PEAK_HOOK_UNRESOLVED \<or>
         control AND (PEAK_CALLBACK_DETACH_COUNT_REQUEST_BIT OR PEAK_CALLBACK_INITIAL_DETACH_COUNT_CROSSING_BIT) \<noteq> 0
      then (False, cell, control)
      else (case compare_exchange cell control (control OR PEAK_CALLBACK_INITIAL_DETACH_COUNT_CROSSING_BIT) of
              (True, cell') \<Rightarrow> (True, cell', control)
            | (False, cell') \<Rightarrow> (False, cell', cell')))"

text \<open>One round of the state writer's loop: whether the crossing is carried, and the desired word.\<close>

definition publish_desired :: "uint64 \<Rightarrow> PeakHookState \<Rightarrow> bool \<times> uint64" where
  "publish_desired control state =
     (let generation = (control AND NOT PEAK_CALLBACK_HOOK_CONTROL_LOW_MASK) + PEAK_CALLBACK_HOOK_GENERATION_INCREMENT;
          carried_initial_crossing =
            state = PEAK_HOOK_ATTACHED \<and> callback_hook_state control = state_code PEAK_HOOK_UNRESOLVED \<and>
            control AND PEAK_CALLBACK_INITIAL_DETACH_COUNT_CROSSING_BIT \<noteq> 0
      in (carried_initial_crossing,
          generation OR state_code state OR (if carried_initial_crossing then PEAK_CALLBACK_DETACH_COUNT_REQUEST_BIT else 0)))"

text \<open>The loop. Each attempt is the word the weak exchange meets and whether it fails spuriously; the
  result is the word met by the successful exchange, the carried flag and the new word.\<close>

fun publish_callback_hook_state ::
  "PeakHookState \<Rightarrow> uint64 \<Rightarrow> (uint64 \<times> bool) list \<Rightarrow> (uint64 \<times> bool \<times> uint64) option" where
  "publish_callback_hook_state state control [] = None"
| "publish_callback_hook_state state control ((cell, spurious) # attempts) =
     (case publish_desired control state of
        (carried, desired) \<Rightarrow>
          if cell = control \<and> \<not> spurious then Some (cell, carried, desired)
          else publish_callback_hook_state state cell attempts)"

definition take_detach_count_request :: "uint64 \<Rightarrow> uint64 \<Rightarrow> bool \<times> uint64" where
  "take_detach_count_request cell control =
     (if callback_hook_state control \<noteq> state_code PEAK_HOOK_ATTACHED \<or>
         control AND PEAK_CALLBACK_DETACH_COUNT_REQUEST_BIT = 0
      then (False, cell)
      else compare_exchange cell control (control AND NOT PEAK_CALLBACK_DETACH_COUNT_REQUEST_BIT))"

text \<open>The accesses to the word, each with the snapshot it was computed from.\<close>

datatype control_op =
    Publish PeakHookState
  | Request uint64
  | Crossing uint64
  | Take uint64

primrec control_step :: "control_op \<Rightarrow> uint64 \<Rightarrow> uint64" where
  "control_step (Publish state) cell = snd (publish_desired cell state)"
| "control_step (Request control) cell = snd (try_publish_detach_count_request_snapshot cell control)"
| "control_step (Crossing control) cell = fst (snd (try_publish_initial_detach_count_crossing_snapshot cell control))"
| "control_step (Take control) cell = snd (take_detach_count_request cell control)"

subsection \<open>Bits of the control word\<close>

definition generation :: "uint64 \<Rightarrow> nat" where
  "generation control = unat (drop_bit 6 control)"

lemma request_exp: "PEAK_CALLBACK_DETACH_COUNT_REQUEST_BIT = 2 ^ 4"
  by (simp add: control_constants)

lemma crossing_exp: "PEAK_CALLBACK_INITIAL_DETACH_COUNT_CROSSING_BIT = 2 ^ 5"
  by (simp add: control_constants)

lemma low_mask: "PEAK_CALLBACK_HOOK_CONTROL_LOW_MASK = mask 6"
  by (simp add: control_constants mask_eq_exp_minus_1)

lemma state_mask: "PEAK_CALLBACK_HOOK_STATE_MASK = mask 4"
  by (simp add: control_constants mask_eq_exp_minus_1)

lemma callback_hook_state_take: "callback_hook_state control = take_bit 4 control"
  by (simp add: callback_hook_state_def state_mask take_bit_eq_mask)

lemma and_request: "control AND PEAK_CALLBACK_DETACH_COUNT_REQUEST_BIT = 0 \<longleftrightarrow> \<not> bit control 4"
  unfolding request_exp by (rule and_exp_eq_0_iff_not_bit)

lemma and_crossing: "control AND PEAK_CALLBACK_INITIAL_DETACH_COUNT_CROSSING_BIT = 0 \<longleftrightarrow> \<not> bit control 5"
  unfolding crossing_exp by (rule and_exp_eq_0_iff_not_bit)

lemma and_both:
  "control AND (PEAK_CALLBACK_DETACH_COUNT_REQUEST_BIT OR PEAK_CALLBACK_INITIAL_DETACH_COUNT_CROSSING_BIT) = 0 \<longleftrightarrow>
     \<not> bit control 4 \<and> \<not> bit control 5"
  unfolding bit.conj_disj_distrib or_eq_0_iff and_request and_crossing by simp

lemma set_flag:
  assumes "n = 4 \<or> n = (5::nat)"
  shows "callback_hook_state (control OR 2 ^ n) = callback_hook_state control"
    and "generation (control OR 2 ^ n) = generation control"
    and "bit (control OR 2 ^ n) n" and "m \<noteq> n \<Longrightarrow> bit (control OR 2 ^ n) m = bit control m"
proof -
  show "callback_hook_state (control OR 2 ^ n) = callback_hook_state control"
    unfolding callback_hook_state_take by (rule bit_eqI) (use assms in \<open>auto simp: bit_simps\<close>)
  have "drop_bit 6 (control OR 2 ^ n) = drop_bit 6 control"
    by (rule bit_eqI) (use assms in \<open>auto simp: bit_simps\<close>)
  then show "generation (control OR 2 ^ n) = generation control"
    by (simp add: generation_def)
  show "bit (control OR 2 ^ n) n" and "m \<noteq> n \<Longrightarrow> bit (control OR 2 ^ n) m = bit control m"
    using assms by (auto simp: bit_simps)
qed

lemma clear_flag:
  assumes "4 \<le> n" and "n < (6::nat)"
  shows "callback_hook_state (control AND NOT (2 ^ n)) = callback_hook_state control"
    and "generation (control AND NOT (2 ^ n)) = generation control"
    and "\<not> bit (control AND NOT (2 ^ n)) n"
    and "m \<noteq> n \<Longrightarrow> bit (control AND NOT (2 ^ n)) m = bit control m"
proof -
  show "callback_hook_state (control AND NOT (2 ^ n)) = callback_hook_state control"
    unfolding callback_hook_state_take by (rule bit_eqI) (use assms in \<open>auto simp: bit_simps\<close>)
  have "drop_bit 6 (control AND NOT (2 ^ n)) = drop_bit 6 control"
    by (rule bit_eqI) (use assms in \<open>auto simp: bit_simps dest: bit_imp_le_length\<close>)
  then show "generation (control AND NOT (2 ^ n)) = generation control"
    by (simp add: generation_def)
  show "\<not> bit (control AND NOT (2 ^ n)) n"
    and "m \<noteq> n \<Longrightarrow> bit (control AND NOT (2 ^ n)) m = bit control m"
    using assms by (auto simp: bit_simps dest: bit_imp_le_length)
qed

lemma generation_div: "generation control = unat control div 64"
  by (simp add: generation_def drop_bit_eq_div unat_div)

lemma generation_less: "generation control < 2 ^ 58"
proof -
  have "unat control < 2 ^ LENGTH(64)"
    by (rule unsigned_less)
  then show ?thesis
    by (simp add: generation_div less_mult_imp_div_less)
qed

lemma next_generation:
  fixes control :: uint64
  defines "g \<equiv> (control AND NOT (mask 6)) + 64"
  shows "take_bit 6 g = 0" and "unat g div 64 = (generation control + 1) mod 2 ^ 58"
proof -
  have p: "control AND NOT (mask 6) = push_bit 6 (drop_bit 6 control)"
    by (rule bit_eqI) (auto simp: bit_simps)
  have "g = push_bit 6 (drop_bit 6 control + 1)"
    unfolding g_def p push_bit_add by simp
  then show "take_bit 6 g = 0"
    by (auto intro!: bit_eqI simp: bit_simps)
  have "unat (control AND NOT (mask 6)) = 64 * generation control"
  proof -
    have "unat (push_bit 6 (drop_bit 6 control)) = take_bit 64 (push_bit 6 (unat (drop_bit 6 control)))"
      by (simp add: unsigned_push_bit_eq)
    also have "\<dots> = (64 * generation control) mod 2 ^ 64"
      by (simp add: take_bit_eq_mod push_bit_eq_mult generation_def mult.commute)
    also have "\<dots> = 64 * generation control"
      using generation_less [of control] by simp
    finally show ?thesis
      by (simp only: p)
  qed
  then have "unat g = (64 * generation control + 64) mod 2 ^ 64"
    unfolding g_def by (simp add: unat_word_ariths)
  also have "\<dots> = (64 * (generation control + 1)) mod (64 * 2 ^ 58)"
    by (simp add: algebra_simps)
  also have "\<dots> = 64 * ((generation control + 1) mod 2 ^ 58)"
    by (rule mult_mod_right [symmetric])
  finally show "unat g div 64 = (generation control + 1) mod 2 ^ 58"
    by simp
qed

text \<open>What a state change writes: the new state, the next generation, the request bit exactly when a
  crossing is carried, and no crossing bit.\<close>

lemma publish_desired_spec:
  assumes "publish_desired control state = (carried, desired)"
  shows "callback_hook_state desired = state_code state" and "bit desired 4 \<longleftrightarrow> carried" and "\<not> bit desired 5"
    and "generation desired = (generation control + 1) mod 2 ^ 58"
    and "carried \<longleftrightarrow> state = PEAK_HOOK_ATTACHED \<and> callback_hook_state control = state_code PEAK_HOOK_UNRESOLVED \<and> bit control 5"
proof -
  define g where "g = (control AND NOT (mask 6)) + 64"
  define l where "l = state_code state OR (if carried then 2 ^ 4 else 0)"
  have d: "desired = g OR l"
    using assms unfolding publish_desired_def Let_def g_def l_def low_mask request_exp
      PEAK_CALLBACK_HOOK_GENERATION_INCREMENT_def by (auto simp: or.assoc)
  note g = next_generation [of control, folded g_def]
  have l: "take_bit 6 l = l" "drop_bit 6 l = 0" "take_bit 4 l = state_code state" "bit l 4 \<longleftrightarrow> carried" "\<not> bit l 5"
    unfolding l_def by (cases state; cases carried; simp)+
  have t: "take_bit 6 desired = l"
    by (simp add: d take_bit_or g(1) l(1))
  have b: "bit desired n = bit l n" if "n < 6" for n
    using that unfolding t [symmetric] by (simp add: bit_take_bit_iff)
  show "callback_hook_state desired = state_code state"
    unfolding callback_hook_state_take l(3) [symmetric] t [symmetric] by simp
  show "bit desired 4 \<longleftrightarrow> carried" "\<not> bit desired 5"
    using b l by simp_all
  have "drop_bit 6 desired = drop_bit 6 g"
    by (simp add: d drop_bit_or l(2))
  then show "generation desired = (generation control + 1) mod 2 ^ 58"
    using g(2) generation_div [of g] by (simp add: generation_def)
  show "carried \<longleftrightarrow> state = PEAK_HOOK_ATTACHED \<and> callback_hook_state control = state_code PEAK_HOOK_UNRESOLVED \<and> bit control 5"
    using assms by (auto simp: publish_desired_def Let_def and_crossing)
qed

subsection \<open>The word as a shared object\<close>

primrec is_publish :: "control_op \<Rightarrow> nat" where
  "is_publish (Publish state) = 1"
| "is_publish (Request control) = 0"
| "is_publish (Crossing control) = 0"
| "is_publish (Take control) = 0"

lemma callback_steps:
  "try_publish_detach_count_request_snapshot cell control = (res, cell1) \<Longrightarrow>
     cell1 = (if res then cell OR 2 ^ 4 else cell) \<and>
     (res \<longrightarrow> control = cell \<and> callback_hook_state cell = state_code PEAK_HOOK_ATTACHED \<and> \<not> bit cell 4)"
  "try_publish_initial_detach_count_crossing_snapshot cell control = (res, cell1, control1) \<Longrightarrow>
     cell1 = (if res then cell OR 2 ^ 5 else cell) \<and>
     (res \<longrightarrow> control = cell \<and> callback_hook_state cell = state_code PEAK_HOOK_UNRESOLVED \<and> \<not> bit cell 4 \<and> \<not> bit cell 5)"
  "take_detach_count_request cell control = (res, cell1) \<Longrightarrow>
     cell1 = (if res then cell AND NOT (2 ^ 4) else cell) \<and>
     (res \<longrightarrow> control = cell \<and> callback_hook_state cell = state_code PEAK_HOOK_ATTACHED \<and> bit cell 4)"
  unfolding try_publish_detach_count_request_snapshot_def try_publish_initial_detach_count_crossing_snapshot_def
    take_detach_count_request_def compare_exchange_def and_both and_request unfolding request_exp crossing_exp
  by (auto split: if_split_asm)

lemma control_step_generation: "generation (control_step op cell) = (generation cell + is_publish op) mod 2 ^ 58"
proof (cases op)
  case (Publish state)
  obtain carried desired where "publish_desired cell state = (carried, desired)"
    by fastforce
  with publish_desired_spec(4) [OF this] show ?thesis
    by (simp add: Publish)
next
  case (Request control)
  obtain res cell1 where r: "try_publish_detach_count_request_snapshot cell control = (res, cell1)"
    by fastforce
  with callback_steps(1) [OF r] show ?thesis
    using set_flag(2) [of 4 cell] generation_less [of cell] by (simp add: Request del: power_numeral)
next
  case (Crossing control)
  obtain res cell1 control1 where r: "try_publish_initial_detach_count_crossing_snapshot cell control = (res, cell1, control1)"
    by (metis prod_cases3)
  with callback_steps(2) [OF r] show ?thesis
    using set_flag(2) [of 5 cell] generation_less [of cell] by (simp add: Crossing del: power_numeral)
next
  case (Take control)
  obtain res cell1 where r: "take_detach_count_request cell control = (res, cell1)"
    by fastforce
  with callback_steps(3) [OF r] show ?thesis
    using clear_flag(2) [of 4 cell] generation_less [of cell] by (simp add: Take del: power_numeral)
qed

text \<open>Callbacks and takes leave the state alone.\<close>

lemma control_step_state:
  assumes "is_publish op = 0"
  shows "callback_hook_state (control_step op cell) = callback_hook_state cell"
proof (cases op)
  case (Request control)
  obtain res cell1 where r: "try_publish_detach_count_request_snapshot cell control = (res, cell1)"
    by fastforce
  with callback_steps(1) [OF r] show ?thesis
    using set_flag(1) [of 4 cell] by (simp add: Request del: power_numeral)
next
  case (Crossing control)
  obtain res cell1 control1 where r: "try_publish_initial_detach_count_crossing_snapshot cell control = (res, cell1, control1)"
    by (metis prod_cases3)
  with callback_steps(2) [OF r] show ?thesis
    using set_flag(1) [of 5 cell] by (simp add: Crossing del: power_numeral)
next
  case (Take control)
  obtain res cell1 where r: "take_detach_count_request cell control = (res, cell1)"
    by fastforce
  with callback_steps(3) [OF r] show ?thesis
    using clear_flag(1) [of 4 cell] by (simp add: Take del: power_numeral)
qed (use assms in simp)

interpretation generations: wrapping_counter control_step generation is_publish "2 ^ 58"
  by unfold_locales (rule control_step_generation, rule generation_less)

text \<open>The invariant of the word: a request is only pending while attached, a crossing only while
  unresolved, and the state is one of the eight.\<close>

definition control_ok :: "uint64 \<Rightarrow> bool" where
  "control_ok cell \<longleftrightarrow>
     (bit cell 4 \<longrightarrow> callback_hook_state cell = state_code PEAK_HOOK_ATTACHED) \<and>
     (bit cell 5 \<longrightarrow> callback_hook_state cell = state_code PEAK_HOOK_UNRESOLVED) \<and>
     (\<exists>state. callback_hook_state cell = state_code state)"

lemma control_step_ok:
  assumes "control_ok cell"
  shows "control_ok (control_step op cell)"
proof (cases op)
  case (Publish state)
  obtain carried desired where p: "publish_desired cell state = (carried, desired)"
    by fastforce
  note spec = publish_desired_spec [OF p]
  have "control_ok desired"
    unfolding control_ok_def spec(1,2) using spec(3,5) by auto
  then show ?thesis
    by (simp add: Publish p)
next
  case (Request control)
  obtain res cell1 where r: "try_publish_detach_count_request_snapshot cell control = (res, cell1)"
    by fastforce
  have "control_ok cell1"
    using callback_steps(1) [OF r] assms set_flag [of 4]
    unfolding control_ok_def by (cases res) (simp_all del: power_numeral)
  then show ?thesis
    by (simp add: Request r)
next
  case (Crossing control)
  obtain res cell1 control1 where r: "try_publish_initial_detach_count_crossing_snapshot cell control = (res, cell1, control1)"
    by (metis prod_cases3)
  have "control_ok cell1"
    using callback_steps(2) [OF r] assms set_flag [of 5]
    unfolding control_ok_def by (cases res) (simp_all del: power_numeral)
  then show ?thesis
    by (simp add: Crossing r)
next
  case (Take control)
  obtain res cell1 where r: "take_detach_count_request cell control = (res, cell1)"
    by fastforce
  have "control_ok cell1"
    using callback_steps(3) [OF r] assms clear_flag [of 4]
    unfolding control_ok_def by (cases res) (simp_all del: power_numeral)
  then show ?thesis
    by (simp add: Take r)
qed

interpretation control: step_system control_step control_ok
  by unfold_locales (rule control_step_ok)

lemma publish_loop_spec:
  assumes "publish_callback_hook_state state control attempts = Some (cell, carried, desired)"
  shows "publish_desired cell state = (carried, desired) \<and> (cell, False) \<in> set attempts"
  using assms
proof (induction attempts arbitrary: control)
  case (Cons a attempts)
  then show ?case
    by (cases a) (auto split: prod.splits if_split_asm)
qed simp

lemma publish_loop_progress:
  assumes "publish_callback_hook_state state control attempts = None" and "Suc i < length attempts"
    and "fst (attempts ! i) = fst (attempts ! Suc i)"
  shows "snd (attempts ! Suc i)"
  using assms
proof (induction state control attempts arbitrary: i rule: publish_callback_hook_state.induct)
  case (2 state control cell spurious attempts)
  obtain carried desired where p: "publish_desired control state = (carried, desired)"
    by fastforce
  have rest: "publish_callback_hook_state state cell attempts = None"
    using 2(2) p by (simp split: if_split_asm)
  show ?case
  proof (cases i)
    case 0
    then obtain cell1 spurious1 more where m: "attempts = (cell1, spurious1) # more" "cell1 = cell"
      using 2(3,4) by (cases attempts) auto
    have "publish_callback_hook_state state cell ((cell, spurious1) # more) = None"
      using rest m by simp
    then have "spurious1"
      by (auto split: prod.splits if_split_asm)
    then show ?thesis
      by (simp add: 0 m)
  next
    case (Suc k)
    then show ?thesis
      using 2(1) [OF p [symmetric]] 2(2-4) rest p by (auto split: if_split_asm)
  qed
qed simp

subsection \<open>Properties of the control word\<close>

text \<open>(C20) A state change is atomic although it is a loop of compare-and-exchange: whatever other threads
  write between the attempts, and however often the exchange fails, the word that is replaced determines
  the outcome. The new word has the new state and the next generation; the detach-count request is set
  exactly when the first attach replaces a word with a crossing that a callback published meanwhile, so
  the crossing is never lost, and otherwise both callback bits are cleared. The loop ends as soon as the
  word is the same at two consecutive attempts and the second exchange does not fail spuriously.\<close>

theorem state_publication_is_atomic:
  "(publish_callback_hook_state state control attempts = Some (cell, carried, desired) \<longrightarrow>
      (cell, False) \<in> set attempts \<and> callback_hook_state desired = state_code state \<and>
      generation desired = (generation cell + 1) mod 2 ^ 58 \<and> \<not> bit desired 5 \<and> (bit desired 4 \<longleftrightarrow> carried) \<and>
      (carried \<longleftrightarrow> state = PEAK_HOOK_ATTACHED \<and> callback_hook_state cell = state_code PEAK_HOOK_UNRESOLVED \<and> bit cell 5)) \<and>
   (Suc i < length attempts \<and> fst (attempts ! i) = fst (attempts ! Suc i) \<and> \<not> snd (attempts ! Suc i) \<longrightarrow>
      publish_callback_hook_state state control attempts \<noteq> None)"
  using publish_loop_spec [of state control attempts cell carried desired]
    publish_desired_spec [of cell state carried desired] publish_loop_progress [of state control attempts i]
  by blast

theorem state_publication_is_atomic_witness:
  "callback_hook_state 0x51 = state_code PEAK_HOOK_ATTACHED \<and> bit (0x51 :: uint64) 4"
proof -
  have "publish_callback_hook_state PEAK_HOOK_ATTACHED 0 [(0x20, False), (0x20, True), (0x20, False)] =
      Some (0x20, True, 0x51)"
    by code_simp
  with state_publication_is_atomic [of PEAK_HOOK_ATTACHED 0 _ "0x20" True "0x51" 0] show ?thesis
    by blast
qed

text \<open>A callback that computed a detach-count request from a snapshot of an earlier generation cannot
  set it any more: once at least one and less than \<open>2 ^ 58\<close> state changes have happened since the
  snapshot was read, among any other accesses, the exchange fails and leaves the word as it is. The same
  holds for crossings and for the controller taking a request.\<close>

theorem stale_snapshot_has_no_effect:
  assumes "0 < sum_list (map is_publish ops)" and "sum_list (map is_publish ops) < 2 ^ 58"
    and "cell = fold control_step ops snapshot"
  shows "try_publish_detach_count_request_snapshot cell snapshot = (False, cell) \<and>
    fst (try_publish_initial_detach_count_crossing_snapshot cell snapshot) = False \<and>
    fst (snd (try_publish_initial_detach_count_crossing_snapshot cell snapshot)) = cell \<and>
    take_detach_count_request cell snapshot = (False, cell)"
proof -
  have "cell \<noteq> snapshot"
    using generations.counter_fresh [OF assms(1,2), of snapshot] assms(3) by auto
  then show ?thesis
    by (simp add: try_publish_detach_count_request_snapshot_def try_publish_initial_detach_count_crossing_snapshot_def
        take_detach_count_request_def compare_exchange_def)
qed

theorem stale_snapshot_has_no_effect_witness:
  "try_publish_detach_count_request_snapshot
     (fold control_step [Publish PEAK_HOOK_DETACH_REQUESTED, Publish PEAK_HOOK_ATTACHED] 0x41) 0x41 =
   (False, 0xc1)"
proof -
  have c: "fold control_step [Publish PEAK_HOOK_DETACH_REQUESTED, Publish PEAK_HOOK_ATTACHED] 0x41 = 0xc1"
    by code_simp
  show ?thesis
    using stale_snapshot_has_no_effect [of "[Publish PEAK_HOOK_DETACH_REQUESTED, Publish PEAK_HOOK_ATTACHED]" "0xc1" "0x41"]
    unfolding c by simp
qed

text \<open>(C37) The control word over any interleaving of state changes, callback requests, crossings and takes,
  starting from a fresh listener: a detach-count request is only ever pending in the attached state, a
  crossing only in the unresolved state, and a request that was taken cannot be taken again.\<close>

theorem control_word_invariant:
  assumes "cell = fold control_step ops 0"
  shows "(bit cell 4 \<longrightarrow> callback_hook_state cell = state_code PEAK_HOOK_ATTACHED) \<and>
    (bit cell 5 \<longrightarrow> callback_hook_state cell = state_code PEAK_HOOK_UNRESOLVED) \<and>
    (take_detach_count_request cell control = (True, cell1) \<longrightarrow> \<not> fst (take_detach_count_request cell1 control1))"
proof -
  have "control_ok 0"
    by (simp add: control_ok_def callback_hook_state_take) (metis state_code.simps(1))
  then have "control_ok cell"
    using control.run_inv assms by simp
  moreover have "\<not> fst (take_detach_count_request cell1 control1)" if "take_detach_count_request cell control = (True, cell1)"
  proof -
    have "\<not> bit cell1 4"
      using callback_steps(3) [OF that] clear_flag(3) [of 4 cell] by (simp del: power_numeral)
    then show ?thesis
      using callback_steps(3) [of cell1 control1] by (cases "take_detach_count_request cell1 control1") auto
  qed
  ultimately show ?thesis
    by (simp add: control_ok_def)
qed

theorem control_word_invariant_witness:
  "fold control_step [Crossing 0, Publish PEAK_HOOK_ATTACHED] 0 = 0x51 \<and>
   callback_hook_state 0x51 = state_code PEAK_HOOK_ATTACHED \<and>
   take_detach_count_request 0x51 0x51 = (True, 0x41) \<and> \<not> fst (take_detach_count_request 0x41 0x41)"
proof -
  have c: "fold control_step [Crossing 0, Publish PEAK_HOOK_ATTACHED] 0 = 0x51"
    by code_simp
  have t: "take_detach_count_request 0x51 0x51 = (True, 0x41)" and b: "bit (0x51 :: uint64) 4"
    by code_simp+
  show ?thesis
    using control_word_invariant [OF c [symmetric], of "0x51" "0x41" "0x41"] c t b by blast
qed

end
