(* ===== verification/Hook_Controller.thy ===== *)
theory Hook_Controller
  imports Complex_Main Hook_Control Gum_Prologue
begin

text \<open>
  The hook lifecycle controller of \<^verbatim>\<open>src/general_listener.c\<close>: requests to detach and to reattach a
  profiling hook, the physical detach and reattach with its bracket of prepare, thread pause, Gum
  transaction, finish and resume, the retry policy, the batch path and shutdown.

  A hook is a record of the entries the parallel arrays of the file hold for it. Every operation that
  works on one hook is a function on the hook and the list of external events so far; the controller
  lifts it to the hook's index. Code outside the file answers through an argument of type \<open>answers\<close>:
  the detach controller (prepare, finish, held threads, physical patch), Gum (fast detach, flush, attach),
  the thread pauses and the clock. The process exit after a failed finish is the result \<open>None\<close>. Doubles
  are rationals; \<open>fl\<close> is the rounding of the floating-point operations. The arrays are allocated, as they
  are from the initialisation of the listener on.
\<close>

datatype PeakDetachStatus =
    PEAK_DETACH_STATUS_SAFE | PEAK_DETACH_STATUS_COMPATIBILITY_ALLOWED | PEAK_DETACH_STATUS_DISABLED
  | PEAK_DETACH_STATUS_UNSUPPORTED | PEAK_DETACH_STATUS_MISSING_GUM_API | PEAK_DETACH_STATUS_PERMISSION_DENIED
  | PEAK_DETACH_STATUS_TIMEOUT | PEAK_DETACH_STATUS_CLASSIFY_FAILED | PEAK_DETACH_STATUS_ERROR
  | PEAK_DETACH_STATUS_FILESYSTEM_STAT_BUSY

datatype PeakDetachOperation =
    PEAK_DETACH_OPERATION_ATTACH | PEAK_DETACH_OPERATION_DETACH | PEAK_DETACH_OPERATION_REATTACH
  | PEAK_DETACH_OPERATION_SHUTDOWN | PEAK_DETACH_OPERATION_REPLACE | PEAK_DETACH_OPERATION_REVERT

datatype PeakHookRequestSource =
    REQUEST_SOURCE_NONE | REQUEST_SOURCE_API | REQUEST_SOURCE_DETACH_COUNT
  | REQUEST_SOURCE_PER_TARGET_HEARTBEAT | REQUEST_SOURCE_GLOBAL_HEARTBEAT

record request_context =
  source :: PeakHookRequestSource
  calls :: nat
  ratio :: rat
  global_overhead :: rat
  total_time :: rat
  rate :: rat

definition no_request :: request_context where
  "no_request = \<lparr>source = REQUEST_SOURCE_NONE, calls = 0, ratio = 0, global_overhead = 0, total_time = 0, rate = 0\<rparr>"

text \<open>\<open>listener_control\<close> is the control word of \<^verbatim>\<open>array_listener[i]\<close>, \<open>None\<close> for a null pointer; a null hook
  address is \<open>0\<close>.\<close>

record hook =
  hook_address :: nat
  listener_control :: "uint64 option"
  hook_state :: PeakHookState
  status_cell :: PeakHookState
  need_detach :: bool
  peak_detached :: bool
  listener_detached :: bool
  listener_reattached :: bool
  listener_revisited :: bool
  gum_detached :: bool
  gum_detach_flushed :: bool
  last_detach_time :: rat
  next_retry_time :: rat
  pending_observed_time :: rat
  retry_count :: uint32
  last_retry_status :: PeakDetachStatus
  pending_request :: request_context
  detach_profile_seconds :: rat
  reattach_request_calls :: nat
  reattach_request_calls_valid :: bool

datatype event =
    Mutation_begin | Mutation_end
  | Prepare PeakDetachOperation bool | Finish PeakDetachOperation
  | Prepare_batch nat | Finish_batch
  | Pause nat | Unpause nat int
  | Gum_begin | Gum_detach | Gum_attach | Gum_end
  | Wake

type_synonym hook_run = "hook \<times> event list"

record controller_config =
  fl :: "rat \<Rightarrow> rat"
  max_retry_count :: uint32
  max_pending_age_s :: rat
  reattach_cooldown_s :: rat
  max_num_threads :: nat

subsection \<open>State of one hook\<close>

definition hook_is_published :: "hook \<Rightarrow> bool" where
  "hook_is_published h \<longleftrightarrow> hook_address h \<noteq> 0 \<and> listener_control h \<noteq> None"

definition publish_legacy_flags :: "hook \<Rightarrow> hook" where
  "publish_legacy_flags h =
     (case hook_state h of
        PEAK_HOOK_DETACH_REQUESTED \<Rightarrow> h\<lparr>need_detach := True, peak_detached := False\<rparr>
      | PEAK_HOOK_DETACHING \<Rightarrow> h\<lparr>need_detach := True, peak_detached := False\<rparr>
      | PEAK_HOOK_DETACHED \<Rightarrow> h\<lparr>need_detach := False, peak_detached := True\<rparr>
      | PEAK_HOOK_REATTACH_REQUESTED \<Rightarrow> h\<lparr>need_detach := False, peak_detached := True\<rparr>
      | PEAK_HOOK_REATTACHING \<Rightarrow> h\<lparr>need_detach := False, peak_detached := True\<rparr>
      | PEAK_HOOK_SHUTDOWN \<Rightarrow> h\<lparr>need_detach := False, peak_detached := True\<rparr>
      | PEAK_HOOK_UNRESOLVED \<Rightarrow> h\<lparr>need_detach := False, peak_detached := False\<rparr>
      | PEAK_HOOK_ATTACHED \<Rightarrow> h\<lparr>need_detach := False, peak_detached := False\<rparr>)"

text \<open>The control word changes as one exchange; the loop around it is \<open>publish_callback_hook_state\<close>.\<close>

definition set_state :: "PeakHookState \<Rightarrow> hook_run \<Rightarrow> hook_run" where
  "set_state state r =
     (let h1 = (fst r)\<lparr>hook_state := state\<rparr>;
          published = (case listener_control h1 of
                         None \<Rightarrow> (False, None)
                       | Some control \<Rightarrow> (case publish_desired control state of (carried, desired) \<Rightarrow> (carried, Some desired)));
          h2 = publish_legacy_flags (h1\<lparr>listener_control := snd published\<rparr>)
      in (h2\<lparr>status_cell := state\<rparr>, snd r @ (if fst published then [Wake] else [])))"

definition mark_attached :: "hook_run \<Rightarrow> hook_run" where
  "mark_attached r = set_state PEAK_HOOK_ATTACHED r"

primrec status_is_retryable :: "PeakDetachStatus \<Rightarrow> bool" where
  "status_is_retryable PEAK_DETACH_STATUS_FILESYSTEM_STAT_BUSY = True"
| "status_is_retryable PEAK_DETACH_STATUS_TIMEOUT = True"
| "status_is_retryable PEAK_DETACH_STATUS_CLASSIFY_FAILED = True"
| "status_is_retryable PEAK_DETACH_STATUS_ERROR = True"
| "status_is_retryable PEAK_DETACH_STATUS_SAFE = False"
| "status_is_retryable PEAK_DETACH_STATUS_COMPATIBILITY_ALLOWED = False"
| "status_is_retryable PEAK_DETACH_STATUS_DISABLED = False"
| "status_is_retryable PEAK_DETACH_STATUS_UNSUPPORTED = False"
| "status_is_retryable PEAK_DETACH_STATUS_MISSING_GUM_API = False"
| "status_is_retryable PEAK_DETACH_STATUS_PERMISSION_DENIED = False"

primrec hook_request_source_string :: "PeakHookRequestSource \<Rightarrow> string" where
  "hook_request_source_string REQUEST_SOURCE_API = ''api''"
| "hook_request_source_string REQUEST_SOURCE_DETACH_COUNT = ''detach-count''"
| "hook_request_source_string REQUEST_SOURCE_PER_TARGET_HEARTBEAT = ''per-target-heartbeat''"
| "hook_request_source_string REQUEST_SOURCE_GLOBAL_HEARTBEAT = ''global-heartbeat''"
| "hook_request_source_string REQUEST_SOURCE_NONE = ''none''"

definition clear_pending_request_context :: "hook \<Rightarrow> hook" where
  "clear_pending_request_context h = h\<lparr>pending_request := no_request\<rparr>"

definition set_pending_request_context :: "request_context \<Rightarrow> hook \<Rightarrow> hook" where
  "set_pending_request_context req h = h\<lparr>pending_request := req\<rparr>"

definition reset_retry :: "hook \<Rightarrow> hook" where
  "reset_retry h =
     clear_pending_request_context
       (h\<lparr>next_retry_time := 0, retry_count := 0, last_retry_status := PEAK_DETACH_STATUS_SAFE,
          pending_observed_time := 0\<rparr>)"

definition mark_pending_started :: "rat \<Rightarrow> hook \<Rightarrow> hook" where
  "mark_pending_started now h = (if pending_observed_time h > 0 then h else h\<lparr>pending_observed_time := now\<rparr>)"

definition pending_age :: "controller_config \<Rightarrow> rat \<Rightarrow> hook \<Rightarrow> rat" where
  "pending_age cfg now h = (if pending_observed_time h \<le> 0 then 0 else fl cfg (now - pending_observed_time h))"

definition note_detach_success :: "rat \<Rightarrow> hook \<Rightarrow> hook" where
  "note_detach_success now h = h\<lparr>last_detach_time := now\<rparr>"

definition note_reattach_success :: "hook \<Rightarrow> hook" where
  "note_reattach_success h =
     (let h1 = (if reattach_request_calls_valid h \<and> calls (pending_request h) > reattach_request_calls h
                then h\<lparr>listener_revisited := True\<rparr> else h)
      in h1\<lparr>reattach_request_calls := calls (pending_request h1), reattach_request_calls_valid := True\<rparr>)"

definition reattach_cooldown_ready :: "controller_config \<Rightarrow> rat \<Rightarrow> hook \<Rightarrow> bool" where
  "reattach_cooldown_ready cfg now h =
     (if reattach_cooldown_s cfg \<le> 0 \<or> last_detach_time h \<le> 0 then True
      else fl cfg (now - last_detach_time h) \<ge> reattach_cooldown_s cfg)"

text \<open>The delay before the next attempt: exponential, with the literals rounded to doubles.\<close>

definition retry_delay :: "controller_config \<Rightarrow> uint32 \<Rightarrow> rat" where
  "retry_delay cfg count =
     (let shift = (if count < 6 then unat count else 6);
          delay = fl cfg (fl cfg (1 / 1000) * 2 ^ shift)
      in if delay > fl cfg (50 / 1000) then fl cfg (50 / 1000) else delay)"

definition note_retry :: "controller_config \<Rightarrow> rat \<Rightarrow> PeakDetachStatus \<Rightarrow> hook \<Rightarrow> hook" where
  "note_retry cfg now status h =
     (if \<not> status_is_retryable status then h
      else h\<lparr>retry_count := (if retry_count h < - 1 then retry_count h + 1 else retry_count h),
             next_retry_time := fl cfg (now + retry_delay cfg (retry_count h)),
             last_retry_status := status\<rparr>)"

definition retry_budget_exceeded :: "controller_config \<Rightarrow> rat \<Rightarrow> hook \<Rightarrow> bool" where
  "retry_budget_exceeded cfg now h =
     (if max_retry_count cfg > 0 \<and> retry_count h \<ge> max_retry_count cfg then True
      else max_pending_age_s cfg > 0 \<and> pending_age cfg now h \<ge> max_pending_age_s cfg)"

definition retry_ready :: "rat \<Rightarrow> hook \<Rightarrow> bool" where
  "retry_ready now h \<longleftrightarrow> next_retry_time h \<le> 0 \<or> next_retry_time h \<le> now"

subsection \<open>Requests\<close>

definition request_detach_with_context ::
  "bool \<Rightarrow> rat \<Rightarrow> request_context \<Rightarrow> hook_run \<Rightarrow> bool \<times> hook_run" where
  "request_detach_with_context finalize_requested now req r =
     (if finalize_requested then (False, r)
      else if \<not> hook_is_published (fst r) then (False, r)
      else case hook_state (fst r) of
        PEAK_HOOK_ATTACHED \<Rightarrow>
          (True, set_state PEAK_HOOK_DETACH_REQUESTED
                   (set_pending_request_context req (mark_pending_started now (reset_retry (fst r))), snd r))
      | PEAK_HOOK_DETACH_REQUESTED \<Rightarrow> (True, r)
      | PEAK_HOOK_DETACHING \<Rightarrow> (True, r)
      | _ \<Rightarrow> (False, r))"

definition request_reattach_with_context ::
  "bool \<Rightarrow> rat \<Rightarrow> request_context \<Rightarrow> hook_run \<Rightarrow> bool \<times> hook_run" where
  "request_reattach_with_context finalize_requested now req r =
     (if finalize_requested then (False, r)
      else if \<not> hook_is_published (fst r) then (False, r)
      else case hook_state (fst r) of
        PEAK_HOOK_DETACHED \<Rightarrow>
          if gum_detached (fst r) \<and> \<not> gum_detach_flushed (fst r) then (False, r)
          else (True, set_state PEAK_HOOK_REATTACH_REQUESTED
                        (set_pending_request_context req (mark_pending_started now (reset_retry (fst r))), snd r))
      | PEAK_HOOK_REATTACH_REQUESTED \<Rightarrow> (True, r)
      | PEAK_HOOK_REATTACHING \<Rightarrow> (True, r)
      | _ \<Rightarrow> (False, r))"

definition request_detach :: "bool \<Rightarrow> rat \<Rightarrow> hook_run \<Rightarrow> bool \<times> hook_run" where
  "request_detach finalize_requested now r =
     (case request_detach_with_context finalize_requested now (no_request\<lparr>source := REQUEST_SOURCE_API\<rparr>) r of
        (accepted, (h, ev)) \<Rightarrow> (accepted, (h, if accepted then ev @ [Wake] else ev)))"

text \<open>\<open>sample\<close> is the number of calls the sample cache gives, \<open>None\<close> when neither the refresh nor the cached
  sample succeeds; it is only consulted for a detached hook.\<close>

definition request_reattach :: "bool \<Rightarrow> rat \<Rightarrow> nat option \<Rightarrow> hook_run \<Rightarrow> bool \<times> hook_run" where
  "request_reattach finalize_requested now sample r =
     (if hook_state (fst r) = PEAK_HOOK_DETACHED \<and> sample = None then (False, r)
      else
        let n = (if hook_state (fst r) = PEAK_HOOK_DETACHED then the sample else 0) in
        case request_reattach_with_context finalize_requested now (no_request\<lparr>source := REQUEST_SOURCE_API, calls := n\<rparr>) r of
          (accepted, (h, ev)) \<Rightarrow> (accepted, (h, if accepted then ev @ [Wake] else ev)))"

subsection \<open>Answers of the environment\<close>

record threads =
  controller_tid :: nat
  snapshot_threads :: "(nat \<times> nat) list"
  snapshot_complete :: bool

text \<open>\<open>pause_answer s\<close> is the status and the session id of the pause of snapshot entry \<open>s\<close>; \<open>flush_answer k\<close> the
  answer of the \<open>k\<close>-th flush; \<open>profile\<close> the profile time stored at a detach.\<close>

record answers =
  prepared :: bool
  prepare_status :: PeakDetachStatus
  threads_held :: bool
  physical_patch :: bool
  pause_answer :: "nat \<Rightarrow> int \<times> int"
  fast_detach_ready :: bool
  flush_answer :: "nat \<Rightarrow> bool"
  attach_ok :: bool
  finished :: bool
  profile :: rat
  time_retry :: rat
  time_budget :: rat
  time_success :: rat

definition on_hook :: "(hook \<Rightarrow> hook) \<Rightarrow> hook_run \<Rightarrow> hook_run" where
  "on_hook f r = (f (fst r), snd r)"

definition emit :: "event list \<Rightarrow> hook_run \<Rightarrow> hook_run" where
  "emit es r = (fst r, snd r @ es)"

subsection \<open>Pausing threads\<close>

definition snapshot_is_safe :: "controller_config \<Rightarrow> threads \<Rightarrow> bool" where
  "snapshot_is_safe cfg th =
     (if \<not> snapshot_complete th then False
      else list_all (\<lambda>(tid, mapped). mapped < max_num_threads cfg) (snapshot_threads th))"

text \<open>The loop over the snapshot: whether all were paused, and per entry its status and session id, which
  are \<open>- 1\<close> for an entry that is skipped.\<close>

fun pause_loop ::
  "controller_config \<Rightarrow> threads \<Rightarrow> (nat \<Rightarrow> int \<times> int) \<Rightarrow> nat \<Rightarrow> (nat \<times> nat) list \<Rightarrow> bool \<times> (int \<times> int) list \<times> event list" where
  "pause_loop cfg th pa s [] = (True, [], [])"
| "pause_loop cfg th pa s ((tid, mapped) # rest) =
     (case pause_loop cfg th pa (s + 1) rest of
        (ok, sessions, ev) \<Rightarrow>
          if mapped < max_num_threads cfg \<and> tid \<noteq> controller_tid th
          then (fst (pa s) = 0 \<and> ok, pa s # sessions, Pause tid # ev)
          else (ok, (- 1, - 1) # sessions, ev))"

definition pause_called_threads ::
  "controller_config \<Rightarrow> threads \<Rightarrow> answers \<Rightarrow> hook_run \<Rightarrow> bool \<times> (int \<times> int) list \<times> hook_run" where
  "pause_called_threads cfg th ans r =
     (case pause_loop cfg th (pause_answer ans) 0 (snapshot_threads th) of
        (ok, sessions, ev) \<Rightarrow> (ok, sessions, emit ev r))"

definition resume_event :: "controller_config \<Rightarrow> threads \<Rightarrow> (nat \<times> nat) \<times> int \<times> int \<Rightarrow> event list" where
  "resume_event cfg th e =
     (case e of ((tid, mapped), status, session) \<Rightarrow>
        if mapped < max_num_threads cfg \<and> tid \<noteq> controller_tid th \<and> (status = 0 \<or> status = 1) \<and> session \<ge> 0
        then [Unpause tid session] else [])"

definition resume_called_threads :: "controller_config \<Rightarrow> threads \<Rightarrow> (int \<times> int) list \<Rightarrow> hook_run \<Rightarrow> hook_run" where
  "resume_called_threads cfg th sessions r =
     emit (concat (map (resume_event cfg th) (zip (snapshot_threads th) sessions))) r"

subsection \<open>Prepare and finish\<close>

definition prepare_hook_mutation :: "PeakDetachOperation \<Rightarrow> answers \<Rightarrow> hook_run \<Rightarrow> bool \<times> hook_run" where
  "prepare_hook_mutation operation ans r =
     (prepared ans, emit ([Mutation_begin, Prepare operation (prepared ans)] @ (if prepared ans then [] else [Mutation_end])) r)"

definition finish_hook_mutation :: "PeakDetachOperation \<Rightarrow> answers \<Rightarrow> hook_run \<Rightarrow> bool \<times> hook_run" where
  "finish_hook_mutation operation ans r = (finished ans, emit [Finish operation, Mutation_end] r)"

text \<open>The request stays pending when the result is true.\<close>

definition handle_prepare_failure ::
  "controller_config \<Rightarrow> rat \<Rightarrow> rat \<Rightarrow> PeakHookState \<Rightarrow> PeakDetachStatus \<Rightarrow> hook_run \<Rightarrow> bool \<times> hook_run" where
  "handle_prepare_failure cfg now1 now2 stable_state status r =
     (if status_is_retryable status then
        let r1 = on_hook (note_retry cfg now1 status) r in
        if \<not> retry_budget_exceeded cfg now2 (fst r1) then (True, r1)
        else (False, set_state stable_state (on_hook reset_retry r1))
      else (False, set_state stable_state (on_hook reset_retry r)))"

definition flush_teardown :: "(nat \<Rightarrow> bool) \<Rightarrow> bool" where
  "flush_teardown flush \<longleftrightarrow> list_ex flush [0..<100] \<or> flush 100"

definition gum_detach_flush :: "answers \<Rightarrow> hook_run \<Rightarrow> hook_run" where
  "gum_detach_flush ans r =
     on_hook (\<lambda>h. h\<lparr>gum_detached := True, gum_detach_flushed := flush_teardown (flush_answer ans)\<rparr>)
       (emit [Gum_begin, Gum_detach, Gum_end] r)"

subsection \<open>Detach and reattach\<close>

definition detach_complete :: "answers \<Rightarrow> hook_run \<Rightarrow> hook_run" where
  "detach_complete ans r =
     on_hook reset_retry
       (set_state PEAK_HOOK_DETACHED
         (on_hook (\<lambda>h. (note_detach_success (time_success ans) (h\<lparr>listener_detached := True\<rparr>))
                        \<lparr>detach_profile_seconds := profile ans\<rparr>) r))"

definition detach_if_requested ::
  "controller_config \<Rightarrow> threads \<Rightarrow> answers \<Rightarrow> hook_run \<Rightarrow> (bool \<times> hook_run) option" where
  "detach_if_requested cfg th ans r =
     (if \<not> hook_is_published (fst r) \<or> hook_state (fst r) \<noteq> PEAK_HOOK_DETACH_REQUESTED then Some (False, r)
      else case prepare_hook_mutation PEAK_DETACH_OPERATION_DETACH ans r of
        (False, r1) \<Rightarrow>
          Some (False, snd (handle_prepare_failure cfg (time_retry ans) (time_budget ans) PEAK_HOOK_ATTACHED
                              (prepare_status ans) r1))
      | (True, r1) \<Rightarrow>
          if \<not> threads_held ans \<and> \<not> snapshot_is_safe cfg th then
            (case finish_hook_mutation PEAK_DETACH_OPERATION_DETACH ans r1 of
               (False, r2) \<Rightarrow> None
             | (True, r2) \<Rightarrow> Some (False, set_state PEAK_HOOK_ATTACHED (on_hook reset_retry r2)))
          else
            let r2 = set_state PEAK_HOOK_DETACHING r1;
                (all_paused, sessions, r3) =
                  (if threads_held ans then (True, [], r2) else pause_called_threads cfg th ans r2)
            in if \<not> all_paused then
                 (case finish_hook_mutation PEAK_DETACH_OPERATION_DETACH ans r3 of
                    (False, r4) \<Rightarrow> None
                  | (True, r4) \<Rightarrow>
                      Some (False, set_state PEAK_HOOK_ATTACHED
                                     (on_hook reset_retry (resume_called_threads cfg th sessions r4))))
               else if \<not> physical_patch ans \<and> \<not> fast_detach_ready ans then None
               else
                 let r4 = (if physical_patch ans then r3 else gum_detach_flush ans r3) in
                 (case finish_hook_mutation PEAK_DETACH_OPERATION_DETACH ans r4 of
                    (False, r5) \<Rightarrow> None
                  | (True, r5) \<Rightarrow>
                      Some (True, detach_complete ans
                                    (if threads_held ans then r5 else resume_called_threads cfg th sessions r5))))"

definition reattach_complete :: "hook_run \<Rightarrow> hook_run" where
  "reattach_complete r =
     on_hook (\<lambda>h. reset_retry (note_reattach_success h))
       (set_state PEAK_HOOK_ATTACHED
         (on_hook (\<lambda>h. h\<lparr>gum_detached := False, gum_detach_flushed := True, listener_reattached := True\<rparr>) r))"

definition reattach_if_requested ::
  "controller_config \<Rightarrow> threads \<Rightarrow> answers \<Rightarrow> hook_run \<Rightarrow> (bool \<times> hook_run) option" where
  "reattach_if_requested cfg th ans r =
     (if \<not> hook_is_published (fst r) \<or> hook_state (fst r) \<noteq> PEAK_HOOK_REATTACH_REQUESTED then Some (False, r)
      else case prepare_hook_mutation PEAK_DETACH_OPERATION_REATTACH ans r of
        (False, r1) \<Rightarrow>
          Some (False, snd (handle_prepare_failure cfg (time_retry ans) (time_budget ans) PEAK_HOOK_DETACHED
                              (prepare_status ans) r1))
      | (True, r1) \<Rightarrow>
          if \<not> threads_held ans \<and> \<not> snapshot_is_safe cfg th then
            (case finish_hook_mutation PEAK_DETACH_OPERATION_REATTACH ans r1 of
               (False, r2) \<Rightarrow> None
             | (True, r2) \<Rightarrow> Some (False, set_state PEAK_HOOK_DETACHED (on_hook reset_retry r2)))
          else
            let r2 = set_state PEAK_HOOK_REATTACHING r1;
                (all_paused, sessions, r3) =
                  (if threads_held ans then (True, [], r2) else pause_called_threads cfg th ans r2)
            in if \<not> all_paused then
                 (case finish_hook_mutation PEAK_DETACH_OPERATION_REATTACH ans r3 of
                    (False, r4) \<Rightarrow> None
                  | (True, r4) \<Rightarrow>
                      Some (False, set_state PEAK_HOOK_DETACHED
                                     (on_hook reset_retry (resume_called_threads cfg th sessions r4))))
               else
                 let r4 = (if physical_patch ans then r3 else emit [Gum_begin, Gum_attach, Gum_end] r3) in
                 (case finish_hook_mutation PEAK_DETACH_OPERATION_REATTACH ans r4 of
                    (False, r5) \<Rightarrow> None
                  | (True, r5) \<Rightarrow>
                      let r6 = (if threads_held ans then r5 else resume_called_threads cfg th sessions r5) in
                      if \<not> physical_patch ans \<and> \<not> attach_ok ans
                      then Some (False, set_state PEAK_HOOK_DETACHED (on_hook reset_retry r6))
                      else Some (True, reattach_complete r6)))"

subsection \<open>Shutdown\<close>

datatype PeakGeneralShutdownFailureBucket =
    SHUTDOWN_FAILURE_NONE | SHUTDOWN_FAILURE_PREPARE | SHUTDOWN_FAILURE_SNAPSHOT_UNSAFE | SHUTDOWN_FAILURE_PAUSE_FAILED

text \<open>The result is the failure that was noted (bucket and status), or \<open>None\<close> on success; the hook's Gum
  detach is not flushed here.\<close>

type_synonym shutdown_result = "(PeakGeneralShutdownFailureBucket \<times> PeakDetachStatus) option"

definition gum_detach_unflushed :: "hook_run \<Rightarrow> hook_run" where
  "gum_detach_unflushed r =
     on_hook (\<lambda>h. h\<lparr>gum_detached := True, gum_detach_flushed := False\<rparr>) (emit [Gum_begin, Gum_detach, Gum_end] r)"

definition shutdown_finish :: "hook_run \<Rightarrow> (shutdown_result \<times> hook_run) option" where
  "shutdown_finish r = Some (None, on_hook reset_retry (set_state PEAK_HOOK_SHUTDOWN r))"

definition shutdown_detached :: "controller_config \<Rightarrow> threads \<Rightarrow> answers \<Rightarrow> hook_run \<Rightarrow> (shutdown_result \<times> hook_run) option" where
  "shutdown_detached cfg th ans r =
     (case prepare_hook_mutation PEAK_DETACH_OPERATION_SHUTDOWN ans r of
        (False, r1) \<Rightarrow> Some (Some (SHUTDOWN_FAILURE_PREPARE, prepare_status ans), r1)
      | (True, r1) \<Rightarrow>
          if \<not> threads_held ans \<and> \<not> snapshot_is_safe cfg th then
            (case finish_hook_mutation PEAK_DETACH_OPERATION_SHUTDOWN ans r1 of
               (False, r2) \<Rightarrow> None
             | (True, r2) \<Rightarrow> Some (Some (SHUTDOWN_FAILURE_SNAPSHOT_UNSAFE, PEAK_DETACH_STATUS_CLASSIFY_FAILED), r2))
          else if \<not> fast_detach_ready ans then None
          else (case finish_hook_mutation PEAK_DETACH_OPERATION_SHUTDOWN ans (gum_detach_unflushed r1) of
                  (False, r2) \<Rightarrow> None
                | (True, r2) \<Rightarrow> shutdown_finish r2))"

definition shutdown_attached :: "controller_config \<Rightarrow> threads \<Rightarrow> answers \<Rightarrow> hook_run \<Rightarrow> (shutdown_result \<times> hook_run) option" where
  "shutdown_attached cfg th ans r =
     (case prepare_hook_mutation PEAK_DETACH_OPERATION_SHUTDOWN ans r of
        (False, r1) \<Rightarrow> Some (Some (SHUTDOWN_FAILURE_PREPARE, prepare_status ans), r1)
      | (True, r1) \<Rightarrow>
          if \<not> threads_held ans \<and> \<not> snapshot_is_safe cfg th then
            (case finish_hook_mutation PEAK_DETACH_OPERATION_SHUTDOWN ans r1 of
               (False, r2) \<Rightarrow> None
             | (True, r2) \<Rightarrow> Some (Some (SHUTDOWN_FAILURE_SNAPSHOT_UNSAFE, PEAK_DETACH_STATUS_CLASSIFY_FAILED), r2))
          else
            let r2 = set_state PEAK_HOOK_DETACHING r1;
                (all_paused, sessions, r3) =
                  (if threads_held ans then (True, [], r2) else pause_called_threads cfg th ans r2)
            in if \<not> all_paused then
                 (case finish_hook_mutation PEAK_DETACH_OPERATION_SHUTDOWN ans r3 of
                    (False, r4) \<Rightarrow> None
                  | (True, r4) \<Rightarrow>
                      Some (Some (SHUTDOWN_FAILURE_PAUSE_FAILED, PEAK_DETACH_STATUS_ERROR),
                            resume_called_threads cfg th sessions r4))
               else if \<not> gum_detached (fst r3) \<and> \<not> fast_detach_ready ans then None
               else
                 let r4 = (if gum_detached (fst r3) then r3 else gum_detach_unflushed r3) in
                 (case finish_hook_mutation PEAK_DETACH_OPERATION_SHUTDOWN ans r4 of
                    (False, r5) \<Rightarrow> None
                  | (True, r5) \<Rightarrow>
                      shutdown_finish (if threads_held ans then r5 else resume_called_threads cfg th sessions r5)))"

definition shutdown_hook ::
  "controller_config \<Rightarrow> threads \<Rightarrow> answers \<Rightarrow> hook_run \<Rightarrow> (shutdown_result \<times> hook_run) option" where
  "shutdown_hook cfg th ans r =
     (if \<not> hook_is_published (fst r) then Some (None, set_state PEAK_HOOK_SHUTDOWN r)
      else if (hook_state (fst r) = PEAK_HOOK_DETACHED \<or> hook_state (fst r) = PEAK_HOOK_REATTACH_REQUESTED) \<and>
              \<not> gum_detached (fst r)
        then shutdown_detached cfg th ans r
      else if hook_state (fst r) \<noteq> PEAK_HOOK_DETACHED \<and> hook_state (fst r) \<noteq> PEAK_HOOK_REATTACH_REQUESTED \<and>
              hook_state (fst r) \<noteq> PEAK_HOOK_SHUTDOWN
        then shutdown_attached cfg th ans r
      else shutdown_finish r)"

subsection \<open>The controller\<close>

record controller =
  hooks :: "hook list"
  events :: "event list"
  batch_cursor :: nat
  next_batch_id :: uint32
  mpi_finalize_requested :: bool

definition note_mpi_finalize_requested :: "controller \<Rightarrow> controller" where
  "note_mpi_finalize_requested c = c\<lparr>mpi_finalize_requested := True\<rparr>"

definition put_hook :: "nat \<Rightarrow> hook_run \<Rightarrow> controller \<Rightarrow> controller" where
  "put_hook i r c = c\<lparr>hooks := (hooks c)[i := fst r], events := snd r\<rparr>"

definition get_hook :: "nat \<Rightarrow> controller \<Rightarrow> hook_run" where
  "get_hook i c = (hooks c ! i, events c)"

definition is_pending :: "hook \<Rightarrow> bool" where
  "is_pending h \<longleftrightarrow> hook_state h = PEAK_HOOK_DETACH_REQUESTED \<or> hook_state h = PEAK_HOOK_REATTACH_REQUESTED"

definition has_pending :: "controller \<Rightarrow> bool" where
  "has_pending c \<longleftrightarrow> list_ex (\<lambda>i. is_pending (hooks c ! i)) [0..<length (hooks c)]"

definition allocate_batch_id :: "controller \<Rightarrow> uint32 \<times> controller" where
  "allocate_batch_id c =
     (let b0 = next_batch_id c; n0 = b0 + 1;
          b = (if b0 = 0 then n0 else b0);
          n = (if b0 = 0 then n0 + 1 else n0)
      in (b, c\<lparr>next_batch_id := (if n = 0 then 1 else n)\<rparr>))"

text \<open>What the loop of the batch collection requires of a hook.\<close>

definition eligible :: "rat \<Rightarrow> hook \<Rightarrow> bool" where
  "eligible now h \<longleftrightarrow>
     is_pending h \<and> retry_ready now h \<and> hook_is_published h \<and>
     (hook_state h = PEAK_HOOK_DETACH_REQUESTED \<or> \<not> (gum_detached h \<and> \<not> gum_detach_flushed h))"

record PeakGeneralBatchCandidate =
  cand_hook_id :: nat
  cand_operation :: PeakDetachOperation
  cand_stable_state :: PeakHookState

definition candidate_of :: "nat \<Rightarrow> hook \<Rightarrow> PeakGeneralBatchCandidate" where
  "candidate_of i h =
     (if hook_state h = PEAK_HOOK_DETACH_REQUESTED
      then \<lparr>cand_hook_id = i, cand_operation = PEAK_DETACH_OPERATION_DETACH, cand_stable_state = PEAK_HOOK_ATTACHED\<rparr>
      else \<lparr>cand_hook_id = i, cand_operation = PEAK_DETACH_OPERATION_REATTACH, cand_stable_state = PEAK_HOOK_DETACHED\<rparr>)"

text \<open>The round-robin loop over the offsets from the cursor.\<close>

fun collect_loop ::
  "rat \<Rightarrow> nat \<Rightarrow> nat \<Rightarrow> nat list \<Rightarrow> PeakGeneralBatchCandidate list \<Rightarrow> hook list \<Rightarrow>
   PeakGeneralBatchCandidate list \<times> hook list" where
  "collect_loop now start max_candidates [] acc hs = (acc, hs)"
| "collect_loop now start max_candidates (offset # offsets) acc hs =
     (if \<not> length acc < max_candidates then (acc, hs)
      else
        let i = (start + offset) mod length hs in
        if \<not> eligible now (hs ! i) then collect_loop now start max_candidates offsets acc hs
        else collect_loop now start max_candidates offsets (acc @ [candidate_of i (hs ! i)])
               (hs[i := mark_pending_started now (hs ! i)]))"

definition collect_batch :: "rat \<Rightarrow> nat \<Rightarrow> controller \<Rightarrow> PeakGeneralBatchCandidate list \<times> controller" where
  "collect_batch now max_candidates c =
     (let total = length (hooks c);
          start = (if total > 0 then batch_cursor c mod total else 0);
          (cands, hs) = collect_loop now start max_candidates [0..<total] [] (hooks c)
      in (cands, c\<lparr>hooks := hs,
                   batch_cursor := (if cands \<noteq> [] then (cand_hook_id (last cands) + 1) mod total else batch_cursor c)\<rparr>))"

subsection \<open>The batch path\<close>

text \<open>The three passes over the candidates: the mutation of the prepared ones, their completion after the
  common finish, and the failure handling of the others.\<close>

definition batch_mutate :: "PeakGeneralBatchCandidate \<times> answers \<Rightarrow> hook_run \<Rightarrow> hook_run option" where
  "batch_mutate ca r =
     (case ca of (cand, ans) \<Rightarrow>
        if \<not> prepared ans then Some r
        else if cand_operation cand = PEAK_DETACH_OPERATION_DETACH then
          let r1 = set_state PEAK_HOOK_DETACHING r in
          if physical_patch ans then Some r1
          else if \<not> fast_detach_ready ans then None
          else Some (gum_detach_flush ans r1)
        else
          let r1 = set_state PEAK_HOOK_REATTACHING r in
          Some (if physical_patch ans then r1 else emit [Gum_begin, Gum_attach, Gum_end] r1))"

definition batch_complete :: "PeakGeneralBatchCandidate \<times> answers \<Rightarrow> hook_run \<Rightarrow> hook_run option" where
  "batch_complete ca r =
     (case ca of (cand, ans) \<Rightarrow>
        if \<not> prepared ans then Some r
        else if cand_operation cand = PEAK_DETACH_OPERATION_DETACH then Some (detach_complete ans r)
        else if \<not> physical_patch ans \<and> \<not> attach_ok ans
          then Some (set_state PEAK_HOOK_DETACHED (on_hook reset_retry r))
        else Some (reattach_complete r))"

definition batch_fail :: "controller_config \<Rightarrow> PeakGeneralBatchCandidate \<times> answers \<Rightarrow> hook_run \<Rightarrow> hook_run option" where
  "batch_fail cfg ca r =
     (case ca of (cand, ans) \<Rightarrow>
        if prepared ans then Some r
        else Some (snd (handle_prepare_failure cfg (time_retry ans) (time_budget ans) (cand_stable_state cand)
                          (prepare_status ans) r)))"

fun batch_pass ::
  "(PeakGeneralBatchCandidate \<times> answers \<Rightarrow> hook_run \<Rightarrow> hook_run option) \<Rightarrow>
   (PeakGeneralBatchCandidate \<times> answers) list \<Rightarrow> controller \<Rightarrow> controller option" where
  "batch_pass f [] c = Some c"
| "batch_pass f (ca # cas) c =
     (let i = cand_hook_id (fst ca) in
      case f ca (get_hook i c) of
        None \<Rightarrow> None
      | Some r \<Rightarrow> batch_pass f cas (put_hook i r c))"

definition emit_events :: "event list \<Rightarrow> controller \<Rightarrow> controller" where
  "emit_events es c = c\<lparr>events := events c @ es\<rparr>"

definition PEAK_GENERAL_CONTROLLER_MAX_BATCH_CANDIDATES :: nat where
  "PEAK_GENERAL_CONTROLLER_MAX_BATCH_CANDIDATES = 64"

text \<open>\<open>ans k\<close> are the answers for candidate \<open>k\<close>; \<open>prepared_count\<close> is what the detach controller reports.\<close>

definition process_pending_batch ::
  "controller_config \<Rightarrow> rat \<Rightarrow> (nat \<Rightarrow> answers) \<Rightarrow> nat \<Rightarrow> bool \<Rightarrow> controller \<Rightarrow> (bool \<times> controller) option" where
  "process_pending_batch cfg now ans prepared_count finish_ok c =
     (let (cands, c1) = collect_batch now PEAK_GENERAL_CONTROLLER_MAX_BATCH_CANDIDATES c in
      if cands = [] then Some (False, c1)
      else
        let c2 = emit_events [Mutation_begin, Prepare_batch prepared_count] (snd (allocate_batch_id c1));
            cas = zip cands (map ans [0..<length cands])
        in case batch_pass batch_mutate cas c2 of
             None \<Rightarrow> None
           | Some c3 \<Rightarrow>
               (case (if prepared_count > 0
                      then if \<not> finish_ok then None
                           else batch_pass batch_complete cas (emit_events [Finish_batch, Mutation_end] c3)
                      else Some (emit_events [Mutation_end] c3)) of
                  None \<Rightarrow> None
                | Some c4 \<Rightarrow>
                    (case batch_pass (batch_fail cfg) cas c4 of
                       None \<Rightarrow> None
                     | Some c5 \<Rightarrow> Some (prepared_count > 0, c5))))"

subsection \<open>One round of the controller\<close>

text \<open>The detach-count requests that callbacks left in the control words.\<close>

definition publish_detach_count_request :: "rat \<Rightarrow> nat \<Rightarrow> rat \<Rightarrow> bool \<Rightarrow> hook_run \<Rightarrow> hook_run" where
  "publish_detach_count_request now total_calls elapsed finalize_requested r =
     (case listener_control (fst r) of
        None \<Rightarrow> r
      | Some control \<Rightarrow>
          (case take_detach_count_request control control of
             (False, control') \<Rightarrow> r
           | (True, control') \<Rightarrow>
               snd (request_detach_with_context finalize_requested now
                      (no_request\<lparr>source := REQUEST_SOURCE_DETACH_COUNT, calls := total_calls, total_time := elapsed\<rparr>)
                      (on_hook (\<lambda>h. h\<lparr>listener_control := Some control'\<rparr>) r))))"

definition publish_detach_count_requests :: "rat \<Rightarrow> (nat \<Rightarrow> nat) \<Rightarrow> rat \<Rightarrow> controller \<Rightarrow> controller" where
  "publish_detach_count_requests now total_calls elapsed c =
     fold (\<lambda>i c. put_hook i (publish_detach_count_request now (total_calls i) elapsed (mpi_finalize_requested c) (get_hook i c)) c)
       [0..<length (hooks c)] c"

fun process_loop ::
  "controller_config \<Rightarrow> rat \<Rightarrow> (nat \<Rightarrow> threads) \<Rightarrow> (nat \<Rightarrow> answers) \<Rightarrow> nat list \<Rightarrow> bool \<Rightarrow> controller \<Rightarrow>
   (bool \<times> controller) option" where
  "process_loop cfg now th ans [] did_work c = Some (did_work, c)"
| "process_loop cfg now th ans (i # is) did_work c =
     (if \<not> is_pending (hooks c ! i) \<or> \<not> retry_ready now (hooks c ! i)
      then process_loop cfg now th ans is did_work c
      else
        (case (if hook_state (hooks c ! i) = PEAK_HOOK_DETACH_REQUESTED
               then detach_if_requested cfg (th i) (ans i) (get_hook i c)
               else reattach_if_requested cfg (th i) (ans i) (get_hook i c)) of
           None \<Rightarrow> None
         | Some (worked, r) \<Rightarrow> process_loop cfg now th ans is (did_work \<or> worked) (put_hook i r c)))"

record round_environment =
  now_time :: rat
  elapsed_time :: rat
  total_calls :: "nat \<Rightarrow> nat"
  strict_batch :: bool
  round_threads :: "nat \<Rightarrow> threads"
  round_answers :: "nat \<Rightarrow> answers"
  prepared_count :: nat
  batch_finished :: bool

definition process_pending :: "controller_config \<Rightarrow> round_environment \<Rightarrow> controller \<Rightarrow> (bool \<times> controller) option" where
  "process_pending cfg env c =
     (if mpi_finalize_requested c then Some (False, c)
      else
        let c1 = publish_detach_count_requests (now_time env) (total_calls env) (elapsed_time env) c in
        if strict_batch env
        then process_pending_batch cfg (now_time env) (round_answers env) (prepared_count env) (batch_finished env) c1
        else process_loop cfg (now_time env) (round_threads env) (round_answers env) [0..<length (hooks c1)] False c1)"

subsection \<open>The invariant of a hook\<close>

text \<open>Every copy of the state agrees with it: the public status cell, the legacy flags and the control word
  the callbacks read.\<close>

definition mirrored :: "hook \<Rightarrow> bool" where
  "mirrored h \<longleftrightarrow>
     status_cell h = hook_state h \<and>
     need_detach h = (hook_state h \<in> {PEAK_HOOK_DETACH_REQUESTED, PEAK_HOOK_DETACHING}) \<and>
     peak_detached h = (hook_state h \<in> {PEAK_HOOK_DETACHED, PEAK_HOOK_REATTACH_REQUESTED, PEAK_HOOK_REATTACHING, PEAK_HOOK_SHUTDOWN}) \<and>
     (\<forall>control. listener_control h = Some control \<longrightarrow>
        callback_hook_state control = state_code (hook_state h) \<and> control_ok control)"

text \<open>Between operations no reattach is under way, a hook whose listener Gum has detached is not in an
  attached state, and a reattach is only requested when that detach was flushed.\<close>

definition gum_ok :: "hook \<Rightarrow> bool" where
  "gum_ok h \<longleftrightarrow>
     hook_state h \<noteq> PEAK_HOOK_REATTACHING \<and>
     (hook_state h \<in> {PEAK_HOOK_UNRESOLVED, PEAK_HOOK_ATTACHED, PEAK_HOOK_DETACH_REQUESTED, PEAK_HOOK_DETACHING} \<longrightarrow>
        \<not> gum_detached h) \<and>
     (hook_state h = PEAK_HOOK_REATTACH_REQUESTED \<longrightarrow> gum_detached h \<longrightarrow> gum_detach_flushed h)"

definition hook_ok :: "hook \<Rightarrow> bool" where
  "hook_ok h \<longleftrightarrow> mirrored h \<and> gum_ok h"

lemma publish_desired_control_ok: "control_ok (snd (publish_desired control state))"
proof -
  obtain carried desired where p: "publish_desired control state = (carried, desired)"
    by fastforce
  note spec = publish_desired_spec [OF p]
  show ?thesis
    unfolding p snd_conv control_ok_def spec(1,2) using spec(3,5) by auto
qed

lemma publish_desired_state: "callback_hook_state (snd (publish_desired control state)) = state_code state"
  using publish_desired_spec(1) by (cases "publish_desired control state") simp

lemma legacy_flags_simps [simp]:
  "hook_state (publish_legacy_flags h) = hook_state h"
  "listener_control (publish_legacy_flags h) = listener_control h"
  "hook_address (publish_legacy_flags h) = hook_address h"
  "gum_detached (publish_legacy_flags h) = gum_detached h"
  "gum_detach_flushed (publish_legacy_flags h) = gum_detach_flushed h"
  "retry_count (publish_legacy_flags h) = retry_count h"
  "pending_request (publish_legacy_flags h) = pending_request h"
  "listener_detached (publish_legacy_flags h) = listener_detached h"
  "listener_reattached (publish_legacy_flags h) = listener_reattached h"
  by (cases "hook_state h"; simp add: publish_legacy_flags_def)+

lemma legacy_flags_values [simp]:
  "need_detach (publish_legacy_flags h) = (hook_state h \<in> {PEAK_HOOK_DETACH_REQUESTED, PEAK_HOOK_DETACHING})"
  "peak_detached (publish_legacy_flags h) =
     (hook_state h \<in> {PEAK_HOOK_DETACHED, PEAK_HOOK_REATTACH_REQUESTED, PEAK_HOOK_REATTACHING, PEAK_HOOK_SHUTDOWN})"
  by (cases "hook_state h"; simp add: publish_legacy_flags_def)+

lemma set_state_simps [simp]:
  "hook_state (fst (set_state state r)) = state"
  "hook_address (fst (set_state state r)) = hook_address (fst r)"
  "listener_control (fst (set_state state r)) = map_option (\<lambda>control. snd (publish_desired control state)) (listener_control (fst r))"
  "gum_detached (fst (set_state state r)) = gum_detached (fst r)"
  "gum_detach_flushed (fst (set_state state r)) = gum_detach_flushed (fst r)"
  "retry_count (fst (set_state state r)) = retry_count (fst r)"
  "pending_request (fst (set_state state r)) = pending_request (fst r)"
  "listener_detached (fst (set_state state r)) = listener_detached (fst r)"
  "listener_reattached (fst (set_state state r)) = listener_reattached (fst r)"
  by (auto simp: set_state_def Let_def split: option.splits prod.splits)

lemma set_state_published [simp]: "hook_is_published (fst (set_state state r)) = hook_is_published (fst r)"
  by (simp add: hook_is_published_def)

text \<open>The only writer of the state restores all copies.\<close>

lemma set_state_mirrored [simp]: "mirrored (fst (set_state state r))"
proof -
  have "status_cell (fst (set_state state r)) = state"
    "need_detach (fst (set_state state r)) = (state \<in> {PEAK_HOOK_DETACH_REQUESTED, PEAK_HOOK_DETACHING})"
    "peak_detached (fst (set_state state r)) =
       (state \<in> {PEAK_HOOK_DETACHED, PEAK_HOOK_REATTACH_REQUESTED, PEAK_HOOK_REATTACHING, PEAK_HOOK_SHUTDOWN})"
    by (auto simp: set_state_def Let_def split: option.splits)
  then show ?thesis
    using publish_desired_control_ok publish_desired_state by (auto simp: mirrored_def)
qed

lemma set_state_events:
  "\<exists>es. snd (set_state state r) = snd r @ es \<and> set es \<subseteq> {Wake}"
  by (auto simp: set_state_def Let_def)

lemmas retry_defs = reset_retry_def clear_pending_request_context_def set_pending_request_context_def
  mark_pending_started_def note_retry_def note_detach_success_def note_reattach_success_def Let_def

lemma retry_state_simps [simp]:
  "hook_state (reset_retry h) = hook_state h" "hook_state (note_retry cfg now st h) = hook_state h"
  "hook_state (mark_pending_started now h) = hook_state h" "hook_state (set_pending_request_context req h) = hook_state h"
  "hook_state (note_reattach_success h) = hook_state h" "hook_state (note_detach_success now h) = hook_state h"
  "gum_detached (reset_retry h) = gum_detached h" "gum_detached (note_retry cfg now st h) = gum_detached h"
  "gum_detached (mark_pending_started now h) = gum_detached h"
  "gum_detached (set_pending_request_context req h) = gum_detached h"
  "gum_detached (note_reattach_success h) = gum_detached h" "gum_detached (note_detach_success now h) = gum_detached h"
  "gum_detach_flushed (reset_retry h) = gum_detach_flushed h" "gum_detach_flushed (note_retry cfg now st h) = gum_detach_flushed h"
  "gum_detach_flushed (mark_pending_started now h) = gum_detach_flushed h"
  "gum_detach_flushed (set_pending_request_context req h) = gum_detach_flushed h"
  "gum_detach_flushed (note_reattach_success h) = gum_detach_flushed h"
  "gum_detach_flushed (note_detach_success now h) = gum_detach_flushed h"
  by (simp_all add: retry_defs)

lemma retry_mirrored [simp]:
  "mirrored (reset_retry h) = mirrored h" "mirrored (note_retry cfg now st h) = mirrored h"
  "mirrored (mark_pending_started now h) = mirrored h" "mirrored (set_pending_request_context req h) = mirrored h"
  "mirrored (note_reattach_success h) = mirrored h" "mirrored (note_detach_success now h) = mirrored h"
  by (simp_all add: retry_defs mirrored_def)

lemma on_hook_simps [simp]: "fst (on_hook f r) = f (fst r)" "snd (on_hook f r) = snd r"
  by (simp_all add: on_hook_def)

lemma emit_simps [simp]: "fst (emit es r) = fst r" "snd (emit es r) = snd r @ es"
  by (simp_all add: emit_def)

lemma hook_okI: "mirrored h \<Longrightarrow> gum_ok h \<Longrightarrow> hook_ok h"
  by (simp add: hook_ok_def)

lemma request_detach_with_context_ok:
  assumes "request_detach_with_context fin now req r = (accepted, r1)" and "hook_ok (fst r)"
  shows "hook_ok (fst r1)"
  using assms by (auto simp: request_detach_with_context_def hook_ok_def gum_ok_def split: if_splits PeakHookState.splits)

lemma request_reattach_with_context_ok:
  assumes "request_reattach_with_context fin now req r = (accepted, r1)" and "hook_ok (fst r)"
  shows "hook_ok (fst r1)"
  using assms by (auto simp: request_reattach_with_context_def hook_ok_def gum_ok_def split: if_splits PeakHookState.splits)

lemma handle_prepare_failure_spec:
  assumes "handle_prepare_failure cfg now1 now2 resting status r = (pending, r1)"
  shows "hook_state (fst r1) = (if pending then hook_state (fst r) else resting)"
    and "mirrored (fst r) \<Longrightarrow> mirrored (fst r1)"
    and "gum_detached (fst r1) = gum_detached (fst r)" and "gum_detach_flushed (fst r1) = gum_detach_flushed (fst r)"
  using assms by (auto simp: handle_prepare_failure_def Let_def split: if_splits)

lemma handle_prepare_failure_ok:
  assumes "hook_ok (fst r)" and "(hook_state (fst r), resting) \<in>
    {(PEAK_HOOK_DETACH_REQUESTED, PEAK_HOOK_ATTACHED), (PEAK_HOOK_REATTACH_REQUESTED, PEAK_HOOK_DETACHED)}"
  shows "hook_ok (fst (snd (handle_prepare_failure cfg now1 now2 resting status r)))"
proof -
  obtain pending r1 where h: "handle_prepare_failure cfg now1 now2 resting status r = (pending, r1)"
    by (cases "handle_prepare_failure cfg now1 now2 resting status r")
  show ?thesis
    using handle_prepare_failure_spec [OF h] assms h by (auto simp: hook_ok_def gum_ok_def)
qed

subsection \<open>The mutation protocol\<close>

text \<open>The order in which the controller may use Gum and the threads: code is changed and threads are paused
  only inside a module mutation whose preparation succeeded and is not yet finished; threads are resumed
  outside.\<close>

datatype phase = Idle | Gate_held | Prepared | In_transaction

fun protocol_step :: "phase \<Rightarrow> event \<Rightarrow> phase option" where
  "protocol_step Idle Mutation_begin = Some Gate_held"
| "protocol_step Gate_held (Prepare operation ok) = Some (if ok then Prepared else Gate_held)"
| "protocol_step Gate_held (Prepare_batch n) = Some (if n > 0 then Prepared else Gate_held)"
| "protocol_step Prepared (Pause tid) = Some Prepared"
| "protocol_step Prepared Gum_begin = Some In_transaction"
| "protocol_step In_transaction Gum_detach = Some In_transaction"
| "protocol_step In_transaction Gum_attach = Some In_transaction"
| "protocol_step In_transaction Gum_end = Some Prepared"
| "protocol_step Prepared (Finish operation) = Some Gate_held"
| "protocol_step Prepared Finish_batch = Some Gate_held"
| "protocol_step Gate_held Mutation_end = Some Idle"
| "protocol_step Idle (Unpause tid session) = Some Idle"
| "protocol_step p Wake = Some p"
| "protocol_step p e = None"

fun protocol :: "phase \<Rightarrow> event list \<Rightarrow> phase option" where
  "protocol p [] = Some p"
| "protocol p (e # es) = (case protocol_step p e of None \<Rightarrow> None | Some q \<Rightarrow> protocol q es)"

lemma protocol_append: "protocol p (es @ fs) = (case protocol p es of None \<Rightarrow> None | Some q \<Rightarrow> protocol q fs)"
  by (induction es arbitrary: p) (auto split: option.splits)

lemma protocol_all:
  assumes "\<And>e. e \<in> set es \<Longrightarrow> protocol_step p e = Some p"
  shows "protocol p es = Some p"
  using assms by (induction es) auto

text \<open>The phase the events so far have led to, and how the building blocks change it.\<close>

definition phase_of :: "hook_run \<Rightarrow> phase option" where
  "phase_of r = protocol Idle (snd r)"

lemma phase_of_emit [simp]: "phase_of (emit es r) = (case phase_of r of None \<Rightarrow> None | Some p \<Rightarrow> protocol p es)"
  by (simp add: phase_of_def emit_def protocol_append)

lemma phase_of_on_hook [simp]: "phase_of (on_hook f r) = phase_of r"
  by (simp add: phase_of_def)

lemma protocol_Wake [simp]: "protocol_step p Wake = Some p"
  by (cases p) simp_all

lemma phase_of_set_state [simp]: "phase_of (set_state state r) = phase_of r"
proof -
  obtain es where es: "snd (set_state state r) = snd r @ es" "set es \<subseteq> {Wake}"
    using set_state_events by blast
  have "protocol p es = Some p" for p
    using es(2) by (intro protocol_all) auto
  then show ?thesis
    using es(1) by (simp add: phase_of_def protocol_append split: option.splits)
qed

lemma pause_loop_events:
  "pause_loop cfg th pa s ts = (ok, sessions, ev) \<Longrightarrow> protocol Prepared ev = Some Prepared \<and> length sessions = length ts"
  by (induction cfg th pa s ts arbitrary: ok sessions ev rule: pause_loop.induct) (auto split: prod.splits if_splits)

lemma pause_called_simps [simp]:
  "fst (snd (snd (pause_called_threads cfg th ans r))) = fst r"
  "phase_of r = Some Prepared \<Longrightarrow> phase_of (snd (snd (pause_called_threads cfg th ans r))) = Some Prepared"
  using pause_loop_events [of cfg th "pause_answer ans" 0 "snapshot_threads th"]
  by (auto simp: pause_called_threads_def split: prod.splits)

lemma resume_protocol: "protocol Idle (concat (map (resume_event cfg th) es)) = Some Idle"
  by (induction es) (auto simp: resume_event_def protocol_append split: prod.splits)

lemma resume_simps [simp]:
  "fst (resume_called_threads cfg th sessions r) = fst r"
  "phase_of r = Some Idle \<Longrightarrow> phase_of (resume_called_threads cfg th sessions r) = Some Idle"
  by (simp_all add: resume_called_threads_def resume_protocol)

lemma handle_prepare_failure_phase [simp]:
  "phase_of (snd (handle_prepare_failure cfg now1 now2 resting status r)) = phase_of r"
  by (simp add: handle_prepare_failure_def Let_def)

lemma handle_prepare_failure_state:
  "hook_state (fst (snd (handle_prepare_failure cfg now1 now2 resting status r))) \<in> {hook_state (fst r), resting}"
  by (simp add: handle_prepare_failure_def Let_def)

lemma prepare_simps [simp]:
  "fst (prepare_hook_mutation operation ans r) = prepared ans"
  "fst (snd (prepare_hook_mutation operation ans r)) = fst r"
  "phase_of r = Some Idle \<Longrightarrow>
     phase_of (snd (prepare_hook_mutation operation ans r)) = Some (if prepared ans then Prepared else Idle)"
  by (simp_all add: prepare_hook_mutation_def)

lemma finish_simps [simp]:
  "fst (finish_hook_mutation operation ans r) = finished ans"
  "fst (snd (finish_hook_mutation operation ans r)) = fst r"
  "phase_of r = Some Prepared \<Longrightarrow> phase_of (snd (finish_hook_mutation operation ans r)) = Some Idle"
  by (simp_all add: finish_hook_mutation_def)

lemma gum_detach_simps [simp]:
  "hook_state (fst (gum_detach_flush ans r)) = hook_state (fst r)"
  "phase_of r = Some Prepared \<Longrightarrow> phase_of (gum_detach_flush ans r) = Some Prepared"
  "hook_state (fst (gum_detach_unflushed r)) = hook_state (fst r)"
  "phase_of r = Some Prepared \<Longrightarrow> phase_of (gum_detach_unflushed r) = Some Prepared"
  by (simp_all add: gum_detach_flush_def gum_detach_unflushed_def)

lemma detach_complete_simps [simp]:
  "hook_state (fst (detach_complete ans r)) = PEAK_HOOK_DETACHED"
  "mirrored (fst (detach_complete ans r))" "listener_detached (fst (detach_complete ans r))"
  "phase_of (detach_complete ans r) = phase_of r"
  by (simp_all add: detach_complete_def) (simp_all add: retry_defs)

lemma reattach_complete_simps [simp]:
  "hook_state (fst (reattach_complete r)) = PEAK_HOOK_ATTACHED"
  "mirrored (fst (reattach_complete r))" "listener_reattached (fst (reattach_complete r))"
  "\<not> gum_detached (fst (reattach_complete r))"
  "phase_of (reattach_complete r) = phase_of r"
  by (simp_all add: reattach_complete_def) (simp_all add: retry_defs)

text \<open>The outcome of a detach: success leaves the hook detached, and otherwise the request is still pending
  or given up with the hook attached and untouched by Gum. In every case the invariant and the protocol
  are kept.\<close>

lemma detach_if_requested_spec:
  assumes "detach_if_requested cfg th ans r = Some (worked, r1)" and "hook_ok (fst r)"
  shows "hook_ok (fst r1)" and "phase_of r = Some Idle \<Longrightarrow> phase_of r1 = Some Idle"
    and "worked \<Longrightarrow> hook_state (fst r) = PEAK_HOOK_DETACH_REQUESTED \<and> hook_state (fst r1) = PEAK_HOOK_DETACHED \<and>
      listener_detached (fst r1)"
    and "\<not> worked \<Longrightarrow> hook_state (fst r1) = hook_state (fst r) \<or>
      hook_state (fst r) = PEAK_HOOK_DETACH_REQUESTED \<and> hook_state (fst r1) = PEAK_HOOK_ATTACHED"
proof -
  show "phase_of r = Some Idle \<Longrightarrow> phase_of r1 = Some Idle"
    using assms(1) by (auto simp: detach_if_requested_def case_prod_unfold Let_def split: if_splits bool.splits)
  show "hook_ok (fst r1)"
    using assms handle_prepare_failure_ok [of "snd (prepare_hook_mutation PEAK_DETACH_OPERATION_DETACH ans r)" PEAK_HOOK_ATTACHED]
    by (auto simp: detach_if_requested_def case_prod_unfold Let_def hook_ok_def gum_ok_def split: if_splits bool.splits)
  show "worked \<Longrightarrow> hook_state (fst r) = PEAK_HOOK_DETACH_REQUESTED \<and> hook_state (fst r1) = PEAK_HOOK_DETACHED \<and>
      listener_detached (fst r1)"
    using assms(1) by (auto simp: detach_if_requested_def case_prod_unfold Let_def split: if_splits bool.splits)
  show "\<not> worked \<Longrightarrow> hook_state (fst r1) = hook_state (fst r) \<or>
      hook_state (fst r) = PEAK_HOOK_DETACH_REQUESTED \<and> hook_state (fst r1) = PEAK_HOOK_ATTACHED"
    using assms(1) handle_prepare_failure_state [of cfg "time_retry ans" "time_budget ans" PEAK_HOOK_ATTACHED
        "prepare_status ans" "snd (prepare_hook_mutation PEAK_DETACH_OPERATION_DETACH ans r)"]
    by (auto simp: detach_if_requested_def case_prod_unfold Let_def split: if_splits bool.splits)
qed

end
