(* ===== verification/Hook_Lifecycle.thy ===== *)
theory Hook_Lifecycle
  imports Hook_Controller
begin

text \<open>
  The correctness of the hook lifecycle controller modelled in \<open>Hook_Controller\<close>: the outcome of every
  operation, the invariant over whole runs of requests, controller rounds and shutdown, the protocol with
  Gum and the threads, the retry policy and the fairness of the batch selection.
\<close>

subsection \<open>Reattach and shutdown\<close>

lemma reattach_if_requested_spec:
  assumes "reattach_if_requested cfg th ans r = Some (worked, r1)" and "hook_ok (fst r)"
  shows "hook_ok (fst r1)" and "phase_of r = Some Idle \<Longrightarrow> phase_of r1 = Some Idle"
    and "worked \<Longrightarrow> hook_state (fst r) = PEAK_HOOK_REATTACH_REQUESTED \<and> hook_state (fst r1) = PEAK_HOOK_ATTACHED \<and>
      listener_reattached (fst r1) \<and> \<not> gum_detached (fst r1)"
    and "\<not> worked \<Longrightarrow> hook_state (fst r1) = hook_state (fst r) \<or>
      hook_state (fst r) = PEAK_HOOK_REATTACH_REQUESTED \<and> hook_state (fst r1) = PEAK_HOOK_DETACHED"
proof -
  show "phase_of r = Some Idle \<Longrightarrow> phase_of r1 = Some Idle"
    using assms(1) by (auto simp: reattach_if_requested_def case_prod_unfold Let_def split: if_splits bool.splits)
  show "hook_ok (fst r1)"
    using assms handle_prepare_failure_ok [of "snd (prepare_hook_mutation PEAK_DETACH_OPERATION_REATTACH ans r)" PEAK_HOOK_DETACHED]
    by (auto simp: reattach_if_requested_def case_prod_unfold Let_def hook_ok_def gum_ok_def split: if_splits bool.splits)
  show "worked \<Longrightarrow> hook_state (fst r) = PEAK_HOOK_REATTACH_REQUESTED \<and> hook_state (fst r1) = PEAK_HOOK_ATTACHED \<and>
      listener_reattached (fst r1) \<and> \<not> gum_detached (fst r1)"
    using assms(1) by (auto simp: reattach_if_requested_def case_prod_unfold Let_def split: if_splits bool.splits)
  show "\<not> worked \<Longrightarrow> hook_state (fst r1) = hook_state (fst r) \<or>
      hook_state (fst r) = PEAK_HOOK_REATTACH_REQUESTED \<and> hook_state (fst r1) = PEAK_HOOK_DETACHED"
    using assms(1) handle_prepare_failure_state [of cfg "time_retry ans" "time_budget ans" PEAK_HOOK_DETACHED
        "prepare_status ans" "snd (prepare_hook_mutation PEAK_DETACH_OPERATION_REATTACH ans r)"]
    by (auto simp: reattach_if_requested_def case_prod_unfold Let_def split: if_splits bool.splits)
qed

lemma shutdown_hook_spec:
  assumes "shutdown_hook cfg th ans r = Some (failure, r1)" and "hook_ok (fst r)"
  shows "hook_ok (fst r1)" and "phase_of r = Some Idle \<Longrightarrow> phase_of r1 = Some Idle"
    and "failure = None \<Longrightarrow> hook_state (fst r1) = PEAK_HOOK_SHUTDOWN"
    and "failure = None \<Longrightarrow> hook_is_published (fst r) \<Longrightarrow> hook_state (fst r) \<noteq> PEAK_HOOK_SHUTDOWN \<Longrightarrow> gum_detached (fst r1)"
    and "failure \<noteq> None \<Longrightarrow> hook_state (fst r1) \<in> {hook_state (fst r), PEAK_HOOK_DETACHING} \<and>
      gum_detached (fst r1) = gum_detached (fst r)"
proof -
  note defs = shutdown_hook_def shutdown_detached_def shutdown_attached_def shutdown_finish_def case_prod_unfold Let_def
  show "phase_of r = Some Idle \<Longrightarrow> phase_of r1 = Some Idle"
    using assms(1) by (auto simp: defs split: if_splits bool.splits)
  show "failure = None \<Longrightarrow> hook_state (fst r1) = PEAK_HOOK_SHUTDOWN"
    using assms(1) by (auto simp: defs split: if_splits bool.splits)
  show "hook_ok (fst r1)"
    using assms by (cases "hook_state (fst r)"; auto simp: defs hook_ok_def gum_ok_def split: if_splits bool.splits)
  show "failure = None \<Longrightarrow> hook_is_published (fst r) \<Longrightarrow> hook_state (fst r) \<noteq> PEAK_HOOK_SHUTDOWN \<Longrightarrow> gum_detached (fst r1)"
    using assms by (cases "hook_state (fst r)"; auto simp: defs hook_ok_def gum_ok_def gum_detach_unflushed_def split: if_splits bool.splits)
  show "failure \<noteq> None \<Longrightarrow> hook_state (fst r1) \<in> {hook_state (fst r), PEAK_HOOK_DETACHING} \<and>
      gum_detached (fst r1) = gum_detached (fst r)"
    using assms(1) by (auto simp: defs split: if_splits bool.splits)
qed

subsection \<open>The invariant of the controller\<close>

definition controller_ok :: "controller \<Rightarrow> bool" where
  "controller_ok c \<longleftrightarrow> (\<forall>i<length (hooks c). hook_ok (hooks c ! i)) \<and> protocol Idle (events c) = Some Idle"

lemma get_hook_simps [simp]: "fst (get_hook i c) = hooks c ! i" "phase_of (get_hook i c) = protocol Idle (events c)"
  by (simp_all add: get_hook_def phase_of_def)

lemma put_hook_simps [simp]:
  "length (hooks (put_hook i r c)) = length (hooks c)"
  "protocol Idle (events (put_hook i r c)) = phase_of r"
  "mpi_finalize_requested (put_hook i r c) = mpi_finalize_requested c"
  by (simp_all add: put_hook_def phase_of_def)

lemma put_hook_nth:
  "i < length (hooks c) \<Longrightarrow> hooks (put_hook i r c) ! j = (if j = i then fst r else hooks c ! j)"
  by (simp add: put_hook_def nth_list_update)

lemma put_hook_ok:
  assumes "controller_ok c" and "hook_ok (fst r)" and "phase_of r = Some Idle" and "i < length (hooks c)"
  shows "controller_ok (put_hook i r c)"
  using assms by (auto simp: controller_ok_def put_hook_nth)

lemma process_loop_ok:
  assumes "process_loop cfg now th ans is did_work c = Some (worked, c1)" and "controller_ok c"
    and "\<forall>i \<in> set is. i < length (hooks c)"
  shows "controller_ok c1 \<and> length (hooks c1) = length (hooks c)"
  using assms
proof (induction cfg now th ans "is" did_work c rule: process_loop.induct)
  case (2 cfg now th ans i "is" did_work c)
  have i: "i < length (hooks c)" "hook_ok (fst (get_hook i c))" "phase_of (get_hook i c) = Some Idle"
    using 2(4,5) by (auto simp: controller_ok_def)
  show ?case
  proof (cases "\<not> is_pending (hooks c ! i) \<or> \<not> retry_ready now (hooks c ! i)")
    case True
    then show ?thesis
      using 2(1) [OF True] 2(3-5) by auto
  next
    case False
    let ?x = "if hook_state (hooks c ! i) = PEAK_HOOK_DETACH_REQUESTED
      then detach_if_requested cfg (th i) (ans i) (get_hook i c)
      else reattach_if_requested cfg (th i) (ans i) (get_hook i c)"
    obtain w r where x: "?x = Some (w, r)"
      using 2(3) False by (auto split: option.splits)
    have "hook_ok (fst r)" "phase_of r = Some Idle"
      using x i detach_if_requested_spec(1,2) [of cfg "th i" "ans i" "get_hook i c" w r]
        reattach_if_requested_spec(1,2) [of cfg "th i" "ans i" "get_hook i c" w r]
      by (auto split: if_splits)
    then have "controller_ok (put_hook i r c)"
      using put_hook_ok 2(4) i(1) by blast
    then show ?thesis
      using 2(2) [OF False x refl] 2(3,5) False x by auto
  qed
qed simp

lemma publish_detach_count_request_ok:
  assumes "hook_ok (fst r)"
  shows "hook_ok (fst (publish_detach_count_request now n elapsed fin r))"
proof (cases "listener_control (fst r)")
  case None
  then show ?thesis
    using assms by (simp add: publish_detach_count_request_def)
next
  case (Some control)
  obtain ok control1 where t: "take_detach_count_request control control = (ok, control1)"
    by (cases "take_detach_count_request control control")
  let ?r1 = "on_hook (\<lambda>h. h\<lparr>listener_control := Some control1\<rparr>) r"
  have "callback_hook_state control1 = callback_hook_state control"
    using callback_steps(3) [OF t] clear_flag(1) [of 4 control] by (simp del: power_numeral split: if_splits)
  moreover have "control_ok control1"
    using control_step_ok [of control "Take control"] assms Some t by (auto simp: hook_ok_def mirrored_def)
  ultimately have ok1: "hook_ok (fst ?r1)"
    using assms Some by (auto simp: hook_ok_def mirrored_def gum_ok_def)
  show ?thesis
  proof (cases ok)
    case True
    then show ?thesis
      using Some t request_detach_with_context_ok [OF _ ok1]
      by (simp add: publish_detach_count_request_def) (metis prod.collapse)
  next
    case False
    then show ?thesis
      using Some t assms by (simp add: publish_detach_count_request_def)
  qed
qed

lemma request_phase [simp]:
  "phase_of (snd (request_detach_with_context fin now req r)) = phase_of r"
  "phase_of (snd (request_reattach_with_context fin now req r)) = phase_of r"
  by (auto simp: request_detach_with_context_def request_reattach_with_context_def phase_of_def [of "(_, snd r)"]
      phase_of_def [of r] split: PeakHookState.split)

lemma publish_detach_count_request_phase [simp]:
  "phase_of (publish_detach_count_request now n elapsed fin r) = phase_of r"
  by (simp add: publish_detach_count_request_def split: option.split prod.split bool.split)

lemma publish_detach_count_requests_ok:
  assumes "controller_ok c"
  shows "controller_ok (publish_detach_count_requests now n elapsed c) \<and>
    length (hooks (publish_detach_count_requests now n elapsed c)) = length (hooks c)"
proof -
  let ?f = "\<lambda>i c. put_hook i (publish_detach_count_request now (n i) elapsed (mpi_finalize_requested c) (get_hook i c)) c"
  have "controller_ok (fold ?f is c) \<and> length (hooks (fold ?f is c)) = length (hooks c)"
    if "controller_ok c" "\<forall>i \<in> set is. i < length (hooks c)" for "is" c
    using that
  proof (induction "is" arbitrary: c)
    case (Cons i "is")
    then have "controller_ok (?f i c)"
      by (intro put_hook_ok publish_detach_count_request_ok) (auto simp: controller_ok_def)
    then show ?case
      using Cons.IH [of "?f i c"] Cons.prems(2) by simp
  qed simp
  then show ?thesis
    using assms by (simp add: publish_detach_count_requests_def)
qed

subsection \<open>Batches\<close>

lemma mark_pending_started_simps [simp]:
  "eligible now (mark_pending_started now' h) = eligible now h"
  "candidate_of i (mark_pending_started now' h) = candidate_of i h"
  "gum_ok (mark_pending_started now' h) = gum_ok h" "hook_ok (mark_pending_started now' h) = hook_ok h"
  by (simp_all add: eligible_def candidate_of_def is_pending_def retry_ready_def hook_is_published_def gum_ok_def
      hook_ok_def) (simp_all add: mark_pending_started_def mirrored_def)

lemma marked_nth:
  assumes "i < length hs"
  shows "eligible now (hs[i := mark_pending_started now' (hs ! i)] ! j) = eligible now (hs ! j)"
    and "candidate_of k (hs[i := mark_pending_started now' (hs ! i)] ! j) = candidate_of k (hs ! j)"
    and "hook_ok (hs[i := mark_pending_started now' (hs ! i)] ! j) = hook_ok (hs ! j)"
    and "hook_state (hs[i := mark_pending_started now' (hs ! i)] ! j) = hook_state (hs ! j)"
  using assms by (cases "i = j"; simp)+

text \<open>The loop selects the first eligible hooks in the order of the offsets.\<close>

lemma collect_loop_spec:
  assumes "collect_loop now start m offsets acc hs = (cands, hs1)" and "hs \<noteq> []"
  shows "cands = acc @ map (\<lambda>i. candidate_of i (hs ! i))
      (take (m - length acc) (filter (\<lambda>i. eligible now (hs ! i)) (map (\<lambda>off. (start + off) mod length hs) offsets))) \<and>
    length hs1 = length hs \<and> (\<forall>j. hook_ok (hs1 ! j) = hook_ok (hs ! j) \<and> hook_state (hs1 ! j) = hook_state (hs ! j))"
  using assms
proof (induction offsets arbitrary: acc hs)
  case (Cons offset offsets)
  let ?i = "(start + offset) mod length hs"
  have i: "?i < length hs"
    using Cons.prems(2) by simp
  note marked = marked_nth [OF i]
  let ?hs = "hs[?i := mark_pending_started now (hs ! ?i)]"
  consider (full) "\<not> length acc < m" | (skip) "length acc < m" "\<not> eligible now (hs ! ?i)"
    | (select) "length acc < m" "eligible now (hs ! ?i)"
    by blast
  then show ?case
  proof cases
    case full
    then show ?thesis
      using Cons.prems by simp
  next
    case skip
    then have "collect_loop now start m offsets acc hs = (cands, hs1)"
      using Cons.prems(1) by (simp add: Let_def)
    from Cons.IH [OF this Cons.prems(2)] show ?thesis
      using skip by simp
  next
    case select
    then have "collect_loop now start m offsets (acc @ [candidate_of ?i (hs ! ?i)]) ?hs = (cands, hs1)"
      using Cons.prems(1) by (simp add: Let_def)
    moreover have "?hs \<noteq> []"
      using Cons.prems(2) by simp
    ultimately have IH: "cands = (acc @ [candidate_of ?i (hs ! ?i)]) @ map (\<lambda>i. candidate_of i (?hs ! i))
        (take (m - length (acc @ [candidate_of ?i (hs ! ?i)])) (filter (\<lambda>i. eligible now (?hs ! i))
          (map (\<lambda>off. (start + off) mod length ?hs) offsets)))"
      "length hs1 = length ?hs" "\<forall>j. hook_ok (hs1 ! j) = hook_ok (?hs ! j) \<and> hook_state (hs1 ! j) = hook_state (?hs ! j)"
      using Cons.IH by blast+
    have "m - length acc = Suc (m - Suc (length acc))"
      using select(1) by simp
    then show ?thesis
      using IH select(2) unfolding marked by simp
  qed
qed simp

definition selected :: "rat \<Rightarrow> nat \<Rightarrow> controller \<Rightarrow> nat list" where
  "selected now m c =
     take m (filter (\<lambda>i. eligible now (hooks c ! i))
       (map (\<lambda>off. (batch_cursor c mod length (hooks c) + off) mod length (hooks c)) [0..<length (hooks c)]))"

lemma candidate_id [simp]: "cand_hook_id (candidate_of i h) = i"
  by (simp add: candidate_of_def)

lemma collect_batch_spec:
  assumes "collect_batch now m c = (cands, c1)"
  shows "cands = map (\<lambda>i. candidate_of i (hooks c ! i)) (selected now m c)"
    and "length (hooks c1) = length (hooks c)" and "events c1 = events c"
    and "mpi_finalize_requested c1 = mpi_finalize_requested c"
    and "hook_ok (hooks c1 ! j) = hook_ok (hooks c ! j)" and "hook_state (hooks c1 ! j) = hook_state (hooks c ! j)"
    and "selected now m c \<noteq> [] \<Longrightarrow> batch_cursor c1 = (last (selected now m c) + 1) mod length (hooks c)"
proof -
  let ?start = "if length (hooks c) > 0 then batch_cursor c mod length (hooks c) else 0"
  obtain hs where l: "collect_loop now ?start m [0..<length (hooks c)] [] (hooks c) = (cands, hs)"
    using assms by (auto simp: collect_batch_def Let_def split: prod.splits)
  then have c1: "c1 = c\<lparr>hooks := hs, batch_cursor := (if cands \<noteq> [] then (cand_hook_id (last cands) + 1) mod length (hooks c)
      else batch_cursor c)\<rparr>"
    using assms by (auto simp: collect_batch_def Let_def)
  have spec: "cands = map (\<lambda>i. candidate_of i (hooks c ! i)) (selected now m c) \<and> length hs = length (hooks c) \<and>
      (\<forall>j. hook_ok (hs ! j) = hook_ok (hooks c ! j) \<and> hook_state (hs ! j) = hook_state (hooks c ! j))"
  proof (cases "hooks c = []")
    case True
    then show ?thesis
      using l by (simp add: selected_def)
  next
    case False
    then show ?thesis
      using collect_loop_spec [OF l False] by (simp add: selected_def)
  qed
  then show "cands = map (\<lambda>i. candidate_of i (hooks c ! i)) (selected now m c)"
    "length (hooks c1) = length (hooks c)" "events c1 = events c" "mpi_finalize_requested c1 = mpi_finalize_requested c"
    "hook_ok (hooks c1 ! j) = hook_ok (hooks c ! j)" "hook_state (hooks c1 ! j) = hook_state (hooks c ! j)"
    using c1 by simp_all
  show "selected now m c \<noteq> [] \<Longrightarrow> batch_cursor c1 = (last (selected now m c) + 1) mod length (hooks c)"
    using c1 spec by (simp add: last_map)
qed

lemma offsets_distinct: "distinct (map (\<lambda>off. (start + off) mod n) [0..<n])"
proof -
  have le: "a = b" if "a \<le> b" "b < n" "(start + b) mod n = (start + a) mod n" for a b
  proof -
    have "n dvd (start + b) - (start + a)"
      using that mod_eq_dvd_iff_nat [of "start + a" "start + b" n] by simp
    then show ?thesis
      using that nat_dvd_not_less [of "b - a" n] by (cases "a = b") simp_all
  qed
  have "a = b" if "a < n" "b < n" "(start + a) mod n = (start + b) mod n" for a b
    using le [of a b] le [of b a] that by (metis nat_le_linear)
  then have "inj_on (\<lambda>off. (start + off) mod n) (set [0..<n])"
    by (intro inj_onI) (metis atLeastLessThan_iff set_upt)
  then show ?thesis
    by (simp only: distinct_map distinct_upt simp_thms)
qed

lemma selected_spec:
  "distinct (selected now m c)" "i \<in> set (selected now m c) \<Longrightarrow> i < length (hooks c) \<and> eligible now (hooks c ! i)"
  "length (selected now m c) \<le> m"
proof -
  show "distinct (selected now m c)"
    unfolding selected_def by (intro distinct_take distinct_filter offsets_distinct)
  show "i \<in> set (selected now m c) \<Longrightarrow> i < length (hooks c) \<and> eligible now (hooks c ! i)"
    unfolding selected_def by (auto dest!: in_set_takeD intro!: mod_less_divisor)
  show "length (selected now m c) \<le> m"
    by (simp add: selected_def)
qed

text \<open>A pass over candidates with different hooks turns a property \<open>P\<close> of the hooks into \<open>Q\<close>.\<close>

lemma batch_pass_hooks:
  assumes "batch_pass f cas c = Some c1" and "distinct (map (\<lambda>ca. cand_hook_id (fst ca)) cas)"
    and "\<forall>ca \<in> set cas. cand_hook_id (fst ca) < length (hooks c)"
    and "\<And>i. i < length (hooks c) \<Longrightarrow>
      (if i \<in> (\<lambda>ca. cand_hook_id (fst ca)) ` set cas then P i (hooks c ! i) else Q i (hooks c ! i))"
    and "\<And>ca r r1. ca \<in> set cas \<Longrightarrow> P (cand_hook_id (fst ca)) (fst r) \<Longrightarrow> f ca r = Some r1 \<Longrightarrow>
      Q (cand_hook_id (fst ca)) (fst r1)"
  shows "length (hooks c1) = length (hooks c) \<and> (\<forall>i<length (hooks c). Q i (hooks c1 ! i))"
  using assms
proof (induction f cas c rule: batch_pass.induct)
  case (2 f ca cas c)
  let ?i = "cand_hook_id (fst ca)"
  obtain r where r: "f ca (get_hook ?i c) = Some r"
    using 2(2) by (auto simp: Let_def split: option.splits)
  have i: "?i < length (hooks c)"
    using 2(4) by simp
  have "P ?i (fst (get_hook ?i c))"
    using 2(5) [OF i] by simp
  then have q: "Q ?i (fst r)"
    using 2(6) [OF _ _ r] by simp
  have pass: "batch_pass f cas (put_hook ?i r c) = Some c1"
    using 2(2) r by (simp add: Let_def)
  have "length (hooks c1) = length (hooks (put_hook ?i r c)) \<and> (\<forall>i<length (hooks (put_hook ?i r c)). Q i (hooks c1 ! i))"
  proof (rule 2(1) [OF refl r pass])
    show "distinct (map (\<lambda>ca. cand_hook_id (fst ca)) cas)"
      using 2(3) by simp
    show "\<forall>ca \<in> set cas. cand_hook_id (fst ca) < length (hooks (put_hook ?i r c))"
      using 2(4) by simp
    show "if j \<in> (\<lambda>ca. cand_hook_id (fst ca)) ` set cas then P j (hooks (put_hook ?i r c) ! j)
        else Q j (hooks (put_hook ?i r c) ! j)" if "j < length (hooks (put_hook ?i r c))" for j
      using 2(3) 2(5) [of j] that q put_hook_nth [OF i, of r j] by (cases "j = ?i") auto
    show "Q (cand_hook_id (fst ca')) (fst r1)"
      if "ca' \<in> set cas" "P (cand_hook_id (fst ca')) (fst r)" "f ca' r = Some r1" for ca' r r1
      using 2(6) that by simp
  qed
  then show ?case
    by simp
qed simp

lemma batch_pass_phase:
  assumes "batch_pass f cas c = Some c1" and "protocol Idle (events c) = Some p"
    and "\<And>ca r r1. ca \<in> set cas \<Longrightarrow> f ca r = Some r1 \<Longrightarrow> phase_of r = Some p \<Longrightarrow> phase_of r1 = Some p"
  shows "protocol Idle (events c1) = Some p"
  using assms
proof (induction f cas c rule: batch_pass.induct)
  case (2 f ca cas c)
  let ?i = "cand_hook_id (fst ca)"
  obtain r where r: "f ca (get_hook ?i c) = Some r"
    using 2(2) by (auto simp: Let_def split: option.splits)
  then have "phase_of r = Some p"
    using 2(3) 2(4) [of ca "get_hook ?i c" r] by simp
  moreover have "batch_pass f cas (put_hook ?i r c) = Some c1"
    using 2(2) r by (simp add: Let_def)
  ultimately show ?case
  proof (intro 2(1) [OF refl r])
    show "phase_of r1 = Some p" if "ca' \<in> set cas" "f ca' r0 = Some r1" "phase_of r0 = Some p" for ca' r0 r1
      using 2(4) [OF _ that(2,3)] that(1) by simp
  qed simp_all
qed simp

lemma batch_step_phases:
  assumes "phase_of r = Some p"
  shows "batch_mutate ca r = Some r1 \<Longrightarrow> prepared (snd ca) \<Longrightarrow> p = Prepared \<Longrightarrow> phase_of r1 = Some p"
    and "batch_mutate ca r = Some r1 \<Longrightarrow> \<not> prepared (snd ca) \<Longrightarrow> phase_of r1 = Some p"
    and "batch_complete ca r = Some r1 \<Longrightarrow> phase_of r1 = Some p"
    and "batch_fail cfg ca r = Some r1 \<Longrightarrow> phase_of r1 = Some p"
  using assms by (auto simp: batch_mutate_def batch_complete_def batch_fail_def case_prod_unfold Let_def split: if_splits)

lemma gum_detach_flush_mirrored [simp]: "mirrored (fst (gum_detach_flush ans r)) = mirrored (fst r)"
  by (simp add: gum_detach_flush_def mirrored_def)

lemma batch_mutate_mirrored: "batch_mutate ca r = Some r1 \<Longrightarrow> prepared (snd ca) \<Longrightarrow> mirrored (fst r1)"
  by (auto simp: batch_mutate_def case_prod_unfold Let_def split: if_splits)

lemma batch_complete_ok: "batch_complete ca r = Some r1 \<Longrightarrow> prepared (snd ca) \<Longrightarrow> hook_ok (fst r1)"
  by (auto simp: batch_complete_def case_prod_unfold hook_ok_def gum_ok_def split: if_splits)

lemma batch_fail_ok:
  assumes "batch_fail cfg (candidate_of i h, ans) r = Some r1" and "hook_ok (fst r)" and "hook_state (fst r) = hook_state h"
    and "is_pending h"
  shows "hook_ok (fst r1)"
proof (cases "prepared ans")
  case False
  then have "r1 = snd (handle_prepare_failure cfg (time_retry ans) (time_budget ans) (cand_stable_state (candidate_of i h))
      (prepare_status ans) r)"
    using assms(1) by (simp add: batch_fail_def)
  moreover have "(hook_state (fst r), cand_stable_state (candidate_of i h)) \<in>
      {(PEAK_HOOK_DETACH_REQUESTED, PEAK_HOOK_ATTACHED), (PEAK_HOOK_REATTACH_REQUESTED, PEAK_HOOK_DETACHED)}"
    using assms(3,4) by (auto simp: candidate_of_def is_pending_def)
  ultimately show ?thesis
    using assms(2) handle_prepare_failure_ok by metis
qed (use assms in \<open>simp add: batch_fail_def\<close>)

text \<open>The contract of the detach controller for a batch: it reports a positive number when it prepared one.\<close>

definition honest_count :: "(nat \<Rightarrow> answers) \<Rightarrow> nat \<Rightarrow> bool" where
  "honest_count ans n \<longleftrightarrow>
     (n = 0 \<longrightarrow> list_all (\<lambda>k. \<not> prepared (ans k)) [0..<PEAK_GENERAL_CONTROLLER_MAX_BATCH_CANDIDATES])"

text \<open>The candidates of a batch of controller \<open>c\<close>, the prepared ones among them, and what holds of hook \<open>i\<close>
  before the passes, after the mutation and after the completion.\<close>

abbreviation ca_id :: "PeakGeneralBatchCandidate \<times> answers \<Rightarrow> nat" where
  "ca_id x \<equiv> cand_hook_id (fst x)"

definition batch_of :: "controller \<Rightarrow> (PeakGeneralBatchCandidate \<times> answers) list \<Rightarrow> bool" where
  "batch_of c cas \<longleftrightarrow> distinct (map ca_id cas) \<and>
     (\<forall>x \<in> set cas. ca_id x < length (hooks c) \<and> is_pending (hooks c ! ca_id x) \<and>
        fst x = candidate_of (ca_id x) (hooks c ! ca_id x))"

definition prep :: "(PeakGeneralBatchCandidate \<times> answers) list \<Rightarrow> nat \<Rightarrow> bool" where
  "prep cas i \<longleftrightarrow> (\<exists>x \<in> set cas. ca_id x = i \<and> prepared (snd x))"

definition untouched :: "controller \<Rightarrow> nat \<Rightarrow> hook \<Rightarrow> bool" where
  "untouched c i h \<longleftrightarrow> hook_ok h \<and> hook_state h = hook_state (hooks c ! i)"

definition mutated :: "controller \<Rightarrow> (PeakGeneralBatchCandidate \<times> answers) list \<Rightarrow> nat \<Rightarrow> hook \<Rightarrow> bool" where
  "mutated c cas i h \<longleftrightarrow> (if prep cas i then mirrored h else untouched c i h)"

definition completed :: "controller \<Rightarrow> (PeakGeneralBatchCandidate \<times> answers) list \<Rightarrow> nat \<Rightarrow> hook \<Rightarrow> bool" where
  "completed c cas i h \<longleftrightarrow> (if prep cas i then hook_ok h else untouched c i h)"

lemma prep_iff: "batch_of c cas \<Longrightarrow> x \<in> set cas \<Longrightarrow> prep cas (ca_id x) \<longleftrightarrow> prepared (snd x)"
  unfolding prep_def batch_of_def distinct_map inj_on_def by blast

lemma batch_of_selected:
  assumes "cands = map (\<lambda>i. candidate_of i (hooks c ! i)) (selected now m c)"
  shows "batch_of c (zip cands (map ans [0..<length cands]))"
proof -
  let ?cas = "zip cands (map ans [0..<length cands])"
  have fsts: "map fst ?cas = cands"
    by simp
  have "map ca_id ?cas = map cand_hook_id (map fst ?cas)"
    by (simp only: map_map comp_def)
  also have "\<dots> = selected now m c"
    unfolding fsts assms by (simp add: comp_def)
  finally have "distinct (map ca_id ?cas)"
    using selected_spec(1) by simp
  moreover have "ca_id x < length (hooks c) \<and> is_pending (hooks c ! ca_id x) \<and>
      fst x = candidate_of (ca_id x) (hooks c ! ca_id x)" if "x \<in> set ?cas" for x
  proof -
    have "fst x \<in> set cands"
      using that fsts by (metis image_eqI list.set_map)
    then obtain i where "i \<in> set (selected now m c)" "fst x = candidate_of i (hooks c ! i)"
      using assms by auto
    then show ?thesis
      using selected_spec(2) [of i now m c] by (auto simp: eligible_def)
  qed
  ultimately show ?thesis
    by (simp add: batch_of_def)
qed

lemma mutate_pass:
  assumes "batch_pass batch_mutate cas c2 = Some c3" and "batch_of c cas" and "length (hooks c2) = length (hooks c)"
    and "\<And>i. i < length (hooks c) \<Longrightarrow> untouched c i (hooks c2 ! i)"
  shows "length (hooks c3) = length (hooks c) \<and> (\<forall>i<length (hooks c). mutated c cas i (hooks c3 ! i))"
proof -
  have "length (hooks c3) = length (hooks c2) \<and> (\<forall>i<length (hooks c2). mutated c cas i (hooks c3 ! i))"
  proof (rule batch_pass_hooks [OF assms(1), where P = "untouched c"])
    show "distinct (map ca_id cas)" "\<forall>x \<in> set cas. ca_id x < length (hooks c2)"
      using assms(2,3) by (simp_all add: batch_of_def)
    show "if i \<in> ca_id ` set cas then untouched c i (hooks c2 ! i) else mutated c cas i (hooks c2 ! i)"
      if "i < length (hooks c2)" for i
      using assms(3,4) that by (auto simp: mutated_def untouched_def hook_ok_def)
    show "mutated c cas (ca_id x) (fst r1)"
      if "x \<in> set cas" "untouched c (ca_id x) (fst r)" "batch_mutate x r = Some r1" for x r r1
      using that prep_iff [OF assms(2) that(1)] batch_mutate_mirrored [OF that(3)]
      by (auto simp: mutated_def batch_mutate_def case_prod_unfold split: if_splits)
  qed
  then show ?thesis
    using assms(3) by simp
qed

lemma complete_pass:
  assumes "batch_pass batch_complete cas c2 = Some c3" and "batch_of c cas" and "length (hooks c2) = length (hooks c)"
    and "\<forall>i<length (hooks c). mutated c cas i (hooks c2 ! i)"
  shows "length (hooks c3) = length (hooks c) \<and> (\<forall>i<length (hooks c). completed c cas i (hooks c3 ! i))"
proof -
  have "length (hooks c3) = length (hooks c2) \<and> (\<forall>i<length (hooks c2). completed c cas i (hooks c3 ! i))"
  proof (rule batch_pass_hooks [OF assms(1), where P = "mutated c cas"])
    show "distinct (map ca_id cas)" "\<forall>x \<in> set cas. ca_id x < length (hooks c2)"
      using assms(2,3) by (simp_all add: batch_of_def)
    show "if i \<in> ca_id ` set cas then mutated c cas i (hooks c2 ! i) else completed c cas i (hooks c2 ! i)"
      if "i < length (hooks c2)" for i
      using assms(3,4) that by (auto simp: mutated_def completed_def prep_def)
    show "completed c cas (ca_id x) (fst r1)"
      if "x \<in> set cas" "mutated c cas (ca_id x) (fst r)" "batch_complete x r = Some r1" for x r r1
      using that prep_iff [OF assms(2) that(1)] batch_complete_ok [OF that(3)]
      by (auto simp: mutated_def completed_def batch_complete_def case_prod_unfold split: if_splits)
  qed
  then show ?thesis
    using assms(3) by simp
qed

lemma fail_pass:
  assumes "batch_pass (batch_fail cfg) cas c2 = Some c3" and "batch_of c cas" and "length (hooks c2) = length (hooks c)"
    and "\<forall>i<length (hooks c). completed c cas i (hooks c2 ! i)"
  shows "length (hooks c3) = length (hooks c) \<and> (\<forall>i<length (hooks c). hook_ok (hooks c3 ! i))"
proof -
  have "length (hooks c3) = length (hooks c2) \<and> (\<forall>i<length (hooks c2). hook_ok (hooks c3 ! i))"
  proof (rule batch_pass_hooks [OF assms(1), where P = "completed c cas" and Q = "\<lambda>i. hook_ok"])
    show "distinct (map ca_id cas)" "\<forall>x \<in> set cas. ca_id x < length (hooks c2)"
      using assms(2,3) by (simp_all add: batch_of_def)
    show "if i \<in> ca_id ` set cas then completed c cas i (hooks c2 ! i) else hook_ok (hooks c2 ! i)"
      if "i < length (hooks c2)" for i
      using assms(3,4) that by (auto simp: completed_def untouched_def split: if_splits)
    show "hook_ok (fst r1)" if "x \<in> set cas" "completed c cas (ca_id x) (fst r)" "batch_fail cfg x r = Some r1" for x r r1
    proof (cases "prepared (snd x)")
      case True
      then show ?thesis
        using that prep_iff [OF assms(2) that(1)] by (simp add: batch_fail_def completed_def case_prod_unfold)
    next
      case False
      then have q: "hook_ok (fst r)" "hook_state (fst r) = hook_state (hooks c ! ca_id x)"
        using that(2) prep_iff [OF assms(2) that(1)] by (simp_all add: completed_def untouched_def)
      have "x = (candidate_of (ca_id x) (hooks c ! ca_id x), snd x)" "is_pending (hooks c ! ca_id x)"
        using assms(2) that(1) by (auto simp: batch_of_def prod_eq_iff)
      then show ?thesis
        using batch_fail_ok [OF _ q] that(3) by metis
    qed
  qed
  then show ?thesis
    using assms(3) by simp
qed

lemma process_pending_batch_ok:
  assumes "process_pending_batch cfg now ans n fin c = Some (worked, c1)" and "controller_ok c" and "honest_count ans n"
  shows "controller_ok c1 \<and> length (hooks c1) = length (hooks c)"
proof -
  obtain cands ca where col: "collect_batch now PEAK_GENERAL_CONTROLLER_MAX_BATCH_CANDIDATES c = (cands, ca)"
    by (cases "collect_batch now PEAK_GENERAL_CONTROLLER_MAX_BATCH_CANDIDATES c")
  note cs = collect_batch_spec [OF col]
  show ?thesis
  proof (cases "cands = []")
    case True
    then show ?thesis
      using assms(1,2) col cs(2,3,5) by (simp add: process_pending_batch_def controller_ok_def)
  next
    case False
    define cas where "cas = zip cands (map ans [0..<length cands])"
    define c2 where "c2 = emit_events [Mutation_begin, Prepare_batch n] (snd (allocate_batch_id ca))"
    have c2: "hooks c2 = hooks ca" "protocol Idle (events c2) = Some (if n > 0 then Prepared else Gate_held)"
      using assms(2) cs(3) by (simp_all add: controller_ok_def c2_def emit_events_def allocate_batch_id_def Let_def protocol_append)
    obtain c3 c4 where pass: "batch_pass batch_mutate cas c2 = Some c3"
      "(if n > 0 then if \<not> fin then None else batch_pass batch_complete cas (emit_events [Finish_batch, Mutation_end] c3)
        else Some (emit_events [Mutation_end] c3)) = Some c4"
      "batch_pass (batch_fail cfg) cas c4 = Some c1"
      using assms(1) col False
      by (auto simp: process_pending_batch_def cas_def [symmetric] c2_def [symmetric] split: option.splits)
    have batch: "batch_of c cas"
      unfolding cas_def by (rule batch_of_selected [OF cs(1)])
    have "untouched c i (hooks c2 ! i)" if "i < length (hooks c)" for i
      using that assms(2) cs(5,6) c2(1) by (simp add: untouched_def controller_ok_def)
    then have h3: "length (hooks c3) = length (hooks c) \<and> (\<forall>i<length (hooks c). mutated c cas i (hooks c3 ! i))"
      using mutate_pass [OF pass(1) batch] c2(1) cs(2) by simp
    have honest: "\<not> prepared (snd x)" if "n = 0" "x \<in> set cas" for x
    proof -
      have "(fst x, snd x) \<in> set cas"
        using that(2) by simp
      then have "snd x \<in> set (map ans [0..<length cands])"
        unfolding cas_def by (rule set_zip_rightD)
      moreover have "length cands \<le> PEAK_GENERAL_CONTROLLER_MAX_BATCH_CANDIDATES"
        using cs(1) selected_spec(3) by simp
      ultimately show ?thesis
        using assms(3) that(1) by (auto simp: honest_count_def list_all_iff)
    qed
    have p3: "protocol Idle (events c3) = Some (if n > 0 then Prepared else Gate_held)"
    proof (rule batch_pass_phase [OF pass(1) c2(2)])
      show "phase_of r1 = Some (if n > 0 then Prepared else Gate_held)"
        if "x \<in> set cas" "batch_mutate x r = Some r1" "phase_of r = Some (if n > 0 then Prepared else Gate_held)" for x r r1
        using batch_step_phases(1,2) [OF that(3,2)] honest [OF _ that(1)]
        by (cases "prepared (snd x)"; cases "n = 0") simp_all
    qed
    have "length (hooks c4) = length (hooks c) \<and> (\<forall>i<length (hooks c). completed c cas i (hooks c4 ! i)) \<and>
        protocol Idle (events c4) = Some Idle"
    proof (cases "n > 0")
      case True
      then have complete: "batch_pass batch_complete cas (emit_events [Finish_batch, Mutation_end] c3) = Some c4"
        using pass(2) by (simp split: if_splits)
      moreover have "protocol Idle (events c4) = Some Idle"
        by (rule batch_pass_phase [OF complete _ batch_step_phases(3)])
          (use p3 True in \<open>simp_all add: emit_events_def protocol_append\<close>)
      ultimately show ?thesis
        using complete_pass [OF complete batch] h3 by (simp add: emit_events_def)
    next
      case False
      then show ?thesis
        using pass(2) honest h3 p3 by (auto simp: emit_events_def protocol_append mutated_def completed_def prep_def)
    qed
    moreover from this have "protocol Idle (events c1) = Some Idle"
      by (intro batch_pass_phase [OF pass(3) _ batch_step_phases(4)]) simp_all
    ultimately show ?thesis
      using fail_pass [OF pass(3) batch] by (simp add: controller_ok_def)
  qed
qed

lemma process_pending_ok:
  assumes "process_pending cfg env c = Some (worked, c1)" and "controller_ok c"
    and "honest_count (round_answers env) (prepared_count env)"
  shows "controller_ok c1 \<and> length (hooks c1) = length (hooks c)"
proof (cases "mpi_finalize_requested c")
  case True
  then show ?thesis
    using assms by (simp add: process_pending_def)
next
  case False
  let ?c1 = "publish_detach_count_requests (now_time env) (total_calls env) (elapsed_time env) c"
  have ok: "controller_ok ?c1" "length (hooks ?c1) = length (hooks c)"
    using publish_detach_count_requests_ok [OF assms(2)] by blast+
  show ?thesis
  proof (cases "strict_batch env")
    case True
    then show ?thesis
      using assms(1,3) False process_pending_batch_ok [OF _ ok(1)] ok(2) by (simp add: process_pending_def Let_def)
  next
    case False
    then show ?thesis
      using assms(1) \<open>\<not> mpi_finalize_requested c\<close> process_loop_ok [OF _ ok(1)] ok(2) by (simp add: process_pending_def Let_def)
  qed
qed

subsection \<open>Runs of the controller\<close>

text \<open>The hook an attach publishes: the address, a fresh listener and the attached state, as at the end of a
  successful dynamic attach, which selects an unresolved hook.\<close>

definition publish_attached_hook :: "nat \<Rightarrow> hook_run \<Rightarrow> hook_run" where
  "publish_attached_hook address r =
     mark_attached
       (on_hook (\<lambda>h. reset_retry (h\<lparr>hook_address := address, listener_control := Some 0, gum_detached := False,
                                   gum_detach_flushed := True\<rparr>)) r)"

text \<open>The callbacks reach the hook only through the control word of its listener.\<close>

definition callback_access :: "control_op \<Rightarrow> hook \<Rightarrow> hook" where
  "callback_access op h =
     (case op of Publish state \<Rightarrow> h | _ \<Rightarrow> h\<lparr>listener_control := map_option (control_step op) (listener_control h)\<rparr>)"

datatype controller_op =
    Op_attach nat nat
  | Op_callback nat control_op
  | Op_request_detach nat rat
  | Op_request_reattach nat rat "nat option"
  | Op_finalize
  | Op_round controller_config round_environment
  | Op_shutdown nat controller_config threads answers

text \<open>One operation under the controller lock; an exit of the process leaves the state as it is. A round in
  which the detach controller breaks its contract for batches is not considered.\<close>

fun controller_step :: "controller_op \<Rightarrow> controller \<Rightarrow> controller" where
  "controller_step (Op_attach i address) c =
     (if i < length (hooks c) \<and> hook_state (hooks c ! i) = PEAK_HOOK_UNRESOLVED
      then put_hook i (publish_attached_hook address (get_hook i c)) c else c)"
| "controller_step (Op_callback i op) c =
     (if i < length (hooks c) then put_hook i (on_hook (callback_access op) (get_hook i c)) c else c)"
| "controller_step (Op_request_detach i now) c =
     (if i < length (hooks c) then put_hook i (snd (request_detach (mpi_finalize_requested c) now (get_hook i c))) c else c)"
| "controller_step (Op_request_reattach i now sample) c =
     (if i < length (hooks c)
      then put_hook i (snd (request_reattach (mpi_finalize_requested c) now sample (get_hook i c))) c else c)"
| "controller_step Op_finalize c = note_mpi_finalize_requested c"
| "controller_step (Op_round cfg env) c =
     (if \<not> honest_count (round_answers env) (prepared_count env) then c
      else case process_pending cfg env c of None \<Rightarrow> c | Some (worked, c1) \<Rightarrow> c1)"
| "controller_step (Op_shutdown i cfg th ans) c =
     (if i < length (hooks c)
      then case shutdown_hook cfg th ans (get_hook i c) of None \<Rightarrow> c | Some (failure, r) \<Rightarrow> put_hook i r c
      else c)"

lemma callback_word_ok:
  assumes "is_publish op = 0" and "hook_ok h"
  shows "hook_ok (h\<lparr>listener_control := map_option (control_step op) (listener_control h)\<rparr>)"
proof (cases "listener_control h")
  case None
  then show ?thesis
    using assms(2) by (simp add: hook_ok_def mirrored_def gum_ok_def)
next
  case (Some control)
  then have "callback_hook_state control = state_code (hook_state h)" "control_ok control"
    using assms(2) by (simp_all add: hook_ok_def mirrored_def)
  then show ?thesis
    using assms(2) Some control_step_state [OF assms(1), of control] control_step_ok [of control op]
    by (simp add: hook_ok_def mirrored_def gum_ok_def)
qed

lemma callback_access_ok: "hook_ok h \<Longrightarrow> hook_ok (callback_access op h)"
  using callback_word_ok [of op h] by (cases op) (simp_all add: callback_access_def del: control_step.simps)

lemma publish_attached_hook_ok: "hook_ok (fst (publish_attached_hook address r))"
  "phase_of (publish_attached_hook address r) = phase_of r"
  by (simp_all add: publish_attached_hook_def mark_attached_def hook_ok_def gum_ok_def)

lemma request_ok:
  assumes "hook_ok (fst r)"
  shows "hook_ok (fst (snd (request_detach fin now r)))" "hook_ok (fst (snd (request_reattach fin now sample r)))"
proof -
  let ?req = "no_request\<lparr>source := REQUEST_SOURCE_API\<rparr>"
  show "hook_ok (fst (snd (request_detach fin now r)))"
    using request_detach_with_context_ok [OF _ assms, of fin now ?req]
    by (cases "request_detach_with_context fin now ?req r") (auto simp: request_detach_def)
  let ?n = "if hook_state (fst r) = PEAK_HOOK_DETACHED then the sample else 0"
  show "hook_ok (fst (snd (request_reattach fin now sample r)))"
    using request_reattach_with_context_ok [OF _ assms, of fin now "?req\<lparr>calls := ?n\<rparr>"] assms
    by (cases "request_reattach_with_context fin now (?req\<lparr>calls := ?n\<rparr>) r") (auto simp: request_reattach_def Let_def)
qed

lemma phase_of_wake [simp]: "phase_of (h, ev @ [Wake]) = phase_of (h, ev)"
  by (simp add: phase_of_def protocol_append split: option.split)

lemma request_phases [simp]:
  "phase_of (snd (request_detach fin now r)) = phase_of r"
  "phase_of (snd (request_reattach fin now sample r)) = phase_of r"
proof -
  let ?req = "no_request\<lparr>source := REQUEST_SOURCE_API\<rparr>"
  obtain acc h ev where e: "request_detach_with_context fin now ?req r = (acc, h, ev)"
    by (metis prod.collapse)
  then have "phase_of (h, ev) = phase_of r"
    using request_phase(1) by (metis snd_conv)
  then show "phase_of (snd (request_detach fin now r)) = phase_of r"
    by (simp add: request_detach_def e)
  let ?n = "if hook_state (fst r) = PEAK_HOOK_DETACHED then the sample else 0"
  obtain acc h ev where e: "request_reattach_with_context fin now (?req\<lparr>calls := ?n\<rparr>) r = (acc, h, ev)"
    by (metis prod.collapse)
  then have "phase_of (h, ev) = phase_of r"
    using request_phase(2) by (metis snd_conv)
  then show "phase_of (snd (request_reattach fin now sample r)) = phase_of r"
    using e by (simp add: request_reattach_def Let_def)
qed

lemma controller_step_ok:
  assumes "controller_ok c"
  shows "controller_ok (controller_step op c)"
proof -
  have ok: "hook_ok (fst (get_hook i c))" "phase_of (get_hook i c) = Some Idle" if "i < length (hooks c)" for i
    using assms that by (auto simp: controller_ok_def)
  show ?thesis
  proof (cases op)
    case (Op_attach i address)
    then show ?thesis
      using assms ok(2) [of i] by (auto intro!: put_hook_ok simp: publish_attached_hook_ok)
  next
    case (Op_callback i cop)
    then show ?thesis
      using assms ok [of i] by (auto intro!: put_hook_ok callback_access_ok)
  next
    case (Op_request_detach i now)
    then show ?thesis
      using assms ok [of i] by (auto intro!: put_hook_ok request_ok)
  next
    case (Op_request_reattach i now sample)
    then show ?thesis
      using assms ok [of i] by (auto intro!: put_hook_ok request_ok)
  next
    case Op_finalize
    then show ?thesis
      using assms by (simp add: note_mpi_finalize_requested_def controller_ok_def)
  next
    case (Op_round cfg env)
    then show ?thesis
      using assms process_pending_ok [OF _ assms] by (auto split: option.split)
  next
    case (Op_shutdown i cfg th ans)
    then show ?thesis
      using assms ok [of i] shutdown_hook_spec(1,2) [of cfg th ans "get_hook i c"]
      by (auto intro!: put_hook_ok split: option.split)
  qed
qed

interpretation lifecycle: step_system controller_step controller_ok
  by unfold_locales (rule controller_step_ok)

subsection \<open>Paused threads\<close>

lemma pause_loop_sessions:
  assumes "pause_loop cfg th pa s ts = (ok, sessions, ev)" and "k < length ts" and "ts ! k = (tid, mapped)"
    and "mapped < max_num_threads cfg" and "tid \<noteq> controller_tid th"
  shows "sessions ! k = pa (s + k)"
  using assms
proof (induction cfg th pa s ts arbitrary: ok sessions ev k rule: pause_loop.induct)
  case (2 cfg th pa s t m rest)
  obtain ok1 sessions1 ev1 where rec: "pause_loop cfg th pa (s + 1) rest = (ok1, sessions1, ev1)"
    by (cases "pause_loop cfg th pa (s + 1) rest")
  then show ?case
    using 2(1) [OF rec] 2(2-) by (cases k) (auto split: if_splits)
qed simp

lemma resume_called_events:
  assumes "pause_loop cfg th pa 0 (snapshot_threads th) = (ok, sessions, ev)" and "s < length (snapshot_threads th)"
    and "snapshot_threads th ! s = (tid, mapped)" and "mapped < max_num_threads cfg" and "tid \<noteq> controller_tid th"
    and "pa s = (status, session)" and "status = 0 \<or> status = 1" and "session \<ge> 0"
  shows "Unpause tid session \<in> set (snd (resume_called_threads cfg th sessions r))"
proof -
  have l: "length sessions = length (snapshot_threads th)" "sessions ! s = (status, session)"
    using pause_loop_events [OF assms(1)] pause_loop_sessions [OF assms(1-5)] assms(6) by simp_all
  then have "((tid, mapped), status, session) \<in> set (zip (snapshot_threads th) sessions)"
    using assms(2,3) by (metis in_set_zip fst_conv snd_conv)
  moreover have "Unpause tid session \<in> set (resume_event cfg th ((tid, mapped), status, session))"
    using assms(4-8) by (simp add: resume_event_def)
  ultimately show ?thesis
    unfolding resume_called_threads_def emit_simps by (auto intro!: bexI)
qed

lemma set_state_events_iff [simp]:
  "Pause tid \<in> set (snd (set_state state r)) \<longleftrightarrow> Pause tid \<in> set (snd r)"
  "Unpause tid session \<in> set (snd (set_state state r)) \<longleftrightarrow> Unpause tid session \<in> set (snd r)"
  using set_state_events [of state r] by auto

lemma other_events_iff [simp]:
  "Pause tid \<in> set (snd (snd (prepare_hook_mutation operation ans r))) \<longleftrightarrow> Pause tid \<in> set (snd r)"
  "Pause tid \<in> set (snd (snd (finish_hook_mutation operation ans r))) \<longleftrightarrow> Pause tid \<in> set (snd r)"
  "Pause tid \<in> set (snd (snd (handle_prepare_failure cfg now1 now2 resting status r))) \<longleftrightarrow> Pause tid \<in> set (snd r)"
  "Unpause tid session \<in> set (snd (detach_complete ans r)) \<longleftrightarrow> Unpause tid session \<in> set (snd r)"
  "Pause tid \<in> set (snd (detach_complete ans r)) \<longleftrightarrow> Pause tid \<in> set (snd r)"
  "Unpause tid session \<in> set (snd (reattach_complete r)) \<longleftrightarrow> Unpause tid session \<in> set (snd r)"
  "Pause tid \<in> set (snd (reattach_complete r)) \<longleftrightarrow> Pause tid \<in> set (snd r)"
  "Pause tid \<in> set (snd (gum_detach_flush ans r)) \<longleftrightarrow> Pause tid \<in> set (snd r)"
  by (auto simp: prepare_hook_mutation_def finish_hook_mutation_def handle_prepare_failure_def Let_def
      detach_complete_def reattach_complete_def gum_detach_flush_def)

text \<open>A thread that was paused successfully for a detach or a reattach is resumed before the operation
  returns, on every path that returns.\<close>

definition resumed :: "controller_config \<Rightarrow> threads \<Rightarrow> answers \<Rightarrow> hook_run \<Rightarrow> hook_run \<Rightarrow> bool" where
  "resumed cfg th ans r r1 \<longleftrightarrow>
     (\<forall>s tid mapped status session. s < length (snapshot_threads th) \<longrightarrow> snapshot_threads th ! s = (tid, mapped) \<longrightarrow>
        mapped < max_num_threads cfg \<longrightarrow> tid \<noteq> controller_tid th \<longrightarrow> pause_answer ans s = (status, session) \<longrightarrow>
        status = 0 \<or> status = 1 \<longrightarrow> session \<ge> 0 \<longrightarrow> Pause tid \<notin> set (snd r) \<longrightarrow> Pause tid \<in> set (snd r1) \<longrightarrow>
        Unpause tid session \<in> set (snd r1))"

lemma resumed_by_resume:
  assumes "pause_called_threads cfg th ans r2 = (ok, sessions, r3)"
  shows "s < length (snapshot_threads th) \<Longrightarrow> snapshot_threads th ! s = (tid, mapped) \<Longrightarrow>
    mapped < max_num_threads cfg \<Longrightarrow> tid \<noteq> controller_tid th \<Longrightarrow> pause_answer ans s = (status, session) \<Longrightarrow>
    status = 0 \<or> status = 1 \<Longrightarrow> session \<ge> 0 \<Longrightarrow> Unpause tid session \<in> set (snd (resume_called_threads cfg th sessions r4))"
  using assms resume_called_events [of cfg th "pause_answer ans" ok sessions]
  by (auto simp: pause_called_threads_def split: prod.splits)

lemma detach_if_requested_resumed:
  assumes "detach_if_requested cfg th ans r = Some (worked, r1)"
  shows "resumed cfg th ans r r1"
proof -
  obtain ok sessions r3 where p: "pause_called_threads cfg th ans
      (set_state PEAK_HOOK_DETACHING (snd (prepare_hook_mutation PEAK_DETACH_OPERATION_DETACH ans r))) = (ok, sessions, r3)"
    by (cases "pause_called_threads cfg th ans
      (set_state PEAK_HOOK_DETACHING (snd (prepare_hook_mutation PEAK_DETACH_OPERATION_DETACH ans r)))")
  note res = resumed_by_resume [OF p]
  show ?thesis
    unfolding resumed_def using assms p
    by (auto simp: detach_if_requested_def case_prod_unfold Let_def split: if_splits bool.splits intro: res)
qed

lemma reattach_if_requested_resumed:
  assumes "reattach_if_requested cfg th ans r = Some (worked, r1)"
  shows "resumed cfg th ans r r1"
proof -
  obtain ok sessions r3 where p: "pause_called_threads cfg th ans
      (set_state PEAK_HOOK_REATTACHING (snd (prepare_hook_mutation PEAK_DETACH_OPERATION_REATTACH ans r))) = (ok, sessions, r3)"
    by (cases "pause_called_threads cfg th ans
      (set_state PEAK_HOOK_REATTACHING (snd (prepare_hook_mutation PEAK_DETACH_OPERATION_REATTACH ans r)))")
  note res = resumed_by_resume [OF p]
  show ?thesis
    unfolding resumed_def using assms p
    by (auto simp: reattach_if_requested_def case_prod_unfold Let_def split: if_splits bool.splits intro: res)
qed

subsection \<open>Retries and fairness\<close>

text \<open>Consecutive failures of the preparation, until the request is given up.\<close>

fun retry_run ::
  "controller_config \<Rightarrow> PeakHookState \<Rightarrow> (rat \<times> rat \<times> PeakDetachStatus) list \<Rightarrow> hook_run \<Rightarrow> bool \<times> hook_run" where
  "retry_run cfg resting [] r = (True, r)"
| "retry_run cfg resting ((now1, now2, status) # failures) r =
     (case handle_prepare_failure cfg now1 now2 resting status r of
        (True, r1) \<Rightarrow> retry_run cfg resting failures r1
      | (False, r1) \<Rightarrow> (False, r1))"

lemma still_pending_retry_count:
  assumes "handle_prepare_failure cfg now1 now2 resting status r = (True, r1)" and "0 < max_retry_count cfg"
  shows "unat (retry_count (fst r1)) = unat (retry_count (fst r)) + 1 \<and>
    unat (retry_count (fst r1)) < unat (max_retry_count cfg)"
proof -
  let ?h = "note_retry cfg now1 status (fst r)"
  have r1: "status_is_retryable status" "fst r1 = ?h" "\<not> retry_budget_exceeded cfg now2 ?h"
    using assms(1) by (auto simp: handle_prepare_failure_def Let_def split: if_splits)
  have less: "retry_count ?h < max_retry_count cfg"
    using r1(3) assms(2) unfolding retry_budget_exceeded_def by (metis linorder_not_le)
  have cnt: "retry_count ?h = (if retry_count (fst r) < - 1 then retry_count (fst r) + 1 else retry_count (fst r))"
    using r1(1) by (simp add: note_retry_def)
  have "retry_count (fst r) < - 1"
    using less cnt word_order.extremum_strict by (metis linorder_neqE word_order.not_eq_extremum)
  moreover from this have "unat (retry_count (fst r)) < 2 ^ 32 - 1"
    by (simp add: word_less_nat_alt unsigned_minus_1_eq_mask mask_eq_exp_minus_1)
  then have "unat (retry_count (fst r) + 1) = unat (retry_count (fst r)) + 1"
    by (simp add: unat_word_ariths)
  ultimately have "unat (retry_count ?h) = unat (retry_count (fst r)) + 1"
    using cnt by simp
  then show ?thesis
    using less r1(2) by (simp add: word_less_nat_alt)
qed

lemma retry_run_pending:
  assumes "retry_run cfg resting failures r = (True, r1)" and "0 < max_retry_count cfg" and "failures \<noteq> []"
  shows "unat (retry_count (fst r)) + length failures < unat (max_retry_count cfg)"
  using assms
proof (induction cfg resting failures r rule: retry_run.induct)
  case (2 cfg resting now1 now2 status failures r)
  then obtain r0 where f: "handle_prepare_failure cfg now1 now2 resting status r = (True, r0)"
    by (cases "handle_prepare_failure cfg now1 now2 resting status r") (auto split: bool.splits)
  note c = still_pending_retry_count [OF f 2(3)]
  show ?case
  proof (cases "failures = []")
    case True
    then show ?thesis
      using c by simp
  next
    case False
    then show ?thesis
      using 2(1) [OF f [symmetric]] 2(2-4) f c by simp
  qed
qed simp

lemma retry_run_given_up: "retry_run cfg resting failures r = (False, r1) \<Longrightarrow> hook_state (fst r1) = resting"
proof (induction cfg resting failures r rule: retry_run.induct)
  case (2 cfg resting now1 now2 status failures r)
  then show ?case
    using handle_prepare_failure_spec(1) [of cfg now1 now2 resting status r]
    by (cases "handle_prepare_failure cfg now1 now2 resting status r") (auto split: bool.splits)
qed simp

lemma strict_sorted_ge: "sorted_wrt (<) (xs :: nat list) \<Longrightarrow> k < length xs \<Longrightarrow> k \<le> xs ! k"
proof (induction k)
  case (Suc k)
  then have "k \<le> xs ! k" "xs ! k < xs ! Suc k"
    using sorted_wrt_nth_less [of "(<)" xs k "Suc k"] by simp_all
  then show ?case
    by simp
qed simp

text \<open>The distance of a hook from the cursor, in the direction of the selection.\<close>

definition cursor_distance :: "controller \<Rightarrow> nat \<Rightarrow> nat" where
  "cursor_distance c i = (i + length (hooks c) - batch_cursor c mod length (hooks c)) mod length (hooks c)"

lemma wrap_distance:
  assumes "s < n" and "off < n"
  shows "((s + off) mod n + n - s) mod n = (off :: nat)"
proof (cases "s + off < n")
  case True
  then have "(s + off) mod n + n - s = off + n"
    by simp
  then show ?thesis
    using assms(2) by (simp only: mod_add_self2 mod_less)
next
  case False
  have "(s + off) mod n = s + off - n"
    using False assms by (simp add: le_mod_geq)
  then have "(s + off) mod n + n - s = off"
    using False by simp
  then show ?thesis
    using assms(2) by (simp only: mod_less)
qed

lemma wrap_back:
  assumes "s < n" and "i < n"
  shows "(s + (i + n - s) mod n) mod n = (i :: nat)"
proof (cases "s \<le> i")
  case True
  then have "(i + n - s) mod n = i - s"
    using assms by (simp add: le_mod_geq)
  then show ?thesis
    using True assms by simp
next
  case False
  then have "(i + n - s) mod n = i + n - s"
    using assms by simp
  then have "s + (i + n - s) mod n = i + n"
    using assms by simp
  then show ?thesis
    using assms by (simp only: mod_add_self2 mod_less)
qed

lemma selected_offsets:
  "selected now m c =
     map (\<lambda>off. (batch_cursor c mod length (hooks c) + off) mod length (hooks c))
       (take m (filter (\<lambda>off. eligible now (hooks c ! ((batch_cursor c mod length (hooks c) + off) mod length (hooks c))))
         [0..<length (hooks c)]))"
  by (simp add: selected_def filter_map comp_def take_map)

lemma skipped_hook_comes_closer:
  assumes "collect_batch now m c = (cands, c1)" and "0 < m" and "i < length (hooks c)" and "eligible now (hooks c ! i)"
    and "i \<notin> set (map cand_hook_id cands)"
  shows "length cands = m \<and> cursor_distance c1 i + m \<le> cursor_distance c i"
proof -
  let ?n = "length (hooks c)" and ?s = "batch_cursor c mod length (hooks c)"
  let ?idx = "\<lambda>off. (?s + off) mod ?n"
  define os where "os = filter (\<lambda>off. eligible now (hooks c ! ?idx off)) [0..<?n]"
  note cs = collect_batch_spec [OF assms(1)]
  have sel: "selected now m c = map ?idx (take m os)"
    by (simp add: selected_offsets os_def)
  have n: "?s < ?n"
    using assms(3) by (intro mod_less_divisor) linarith
  define o1 where "o1 = cursor_distance c i"
  have o1: "o1 < ?n" "?idx o1 = i"
    unfolding o1_def cursor_distance_def using wrap_back [OF n assms(3)] assms(3) by (auto intro: mod_less_divisor)
  then have "o1 \<in> set os"
    using assms(4) by (simp add: os_def)
  then obtain k where k: "k < length os" "os ! k = o1"
    by (metis in_set_conv_nth)
  have "map cand_hook_id cands = map ?idx (take m os)"
    using cs(1) sel by (simp add: comp_def)
  then have "i \<notin> ?idx ` set (take m os)"
    using assms(5) by (metis list.set_map)
  then have "o1 \<notin> set (take m os)"
    using o1(2) by blast
  then have "m \<le> k"
    using k nth_mem [of k "take m os"] by (cases "k < m") simp_all
  have sorted: "sorted_wrt (<) os"
    unfolding os_def by (intro sorted_wrt_filter) simp
  have len: "length (take m os) = m"
    using \<open>m \<le> k\<close> k(1) by simp
  then have ne: "take m os \<noteq> []"
    using assms(2) by auto
  have last: "last (selected now m c) = ?idx (os ! (m - 1))"
    unfolding sel last_map [OF ne] last_conv_nth [OF ne] len using assms(2) by simp
  have o2: "os ! (m - 1) < o1" "m - 1 \<le> os ! (m - 1)"
    using sorted_wrt_nth_less [OF sorted, of "m - 1" k] strict_sorted_ge [OF sorted, of "m - 1"] k \<open>m \<le> k\<close> assms(2) by auto
  have "selected now m c \<noteq> []"
    using sel len assms(2) by auto
  then have cur: "batch_cursor c1 = (?idx (os ! (m - 1)) + 1) mod ?n"
    using cs(7) last by simp
  define s1 where "s1 = (?s + os ! (m - 1) + 1) mod ?n"
  have s1: "batch_cursor c1 mod ?n = s1"
    unfolding cur s1_def mod_mod_trivial by (rule mod_add_left_eq)
  have s1n: "s1 < ?n"
    unfolding s1_def by (rule mod_less_divisor) (use assms(3) in linarith)
  have "i = (s1 + (o1 - (os ! (m - 1) + 1))) mod ?n"
    unfolding s1_def mod_add_left_eq using o1(2) o2(1) by simp
  then have "cursor_distance c1 i = o1 - (os ! (m - 1) + 1)"
    unfolding cursor_distance_def cs(2) s1 using wrap_distance [OF s1n, of "o1 - (os ! (m - 1) + 1)"] o1(1) by simp
  moreover have "length cands = m"
    using cs(1) sel len by simp
  ultimately show ?thesis
    using o2 assms(2) by (simp add: o1_def [symmetric])
qed

subsection \<open>Properties of the lifecycle\<close>

definition fresh_hook :: hook where
  "fresh_hook =
     \<lparr>hook_address = 0, listener_control = None, hook_state = PEAK_HOOK_UNRESOLVED, status_cell = PEAK_HOOK_UNRESOLVED,
      need_detach = False, peak_detached = False, listener_detached = False, listener_reattached = False,
      listener_revisited = False, gum_detached = False, gum_detach_flushed = True, last_detach_time = 0,
      next_retry_time = 0, pending_observed_time = 0, retry_count = 0, last_retry_status = PEAK_DETACH_STATUS_SAFE,
      pending_request = no_request, detach_profile_seconds = 0, reattach_request_calls = 0,
      reattach_request_calls_valid = False\<rparr>"

definition initial_controller :: "nat \<Rightarrow> controller" where
  "initial_controller n =
     \<lparr>hooks = replicate n fresh_hook, events = [], batch_cursor = 0, next_batch_id = 1, mpi_finalize_requested = False\<rparr>"

lemma initial_controller_ok: "controller_ok (initial_controller n)"
  by (simp add: controller_ok_def initial_controller_def fresh_hook_def hook_ok_def mirrored_def gum_ok_def)

text \<open>(C1) The invariant of the hook lifecycle, after any sequence of attaches, callback accesses, requests,
  controller rounds (single-hook or batch, with any answers of Gum and of the detach controller) and
  shutdowns: every copy of a hook's state agrees with it, namely the public status cell, the legacy
  detach flags and the control word that callbacks read; a hook whose listener Gum has removed is never
  in an attached state; and a reattach is only ever pending when the earlier removal was flushed.\<close>

theorem lifecycle_invariant:
  assumes "c = fold controller_step ops (initial_controller n)" and "i < length (hooks c)" and "h = hooks c ! i"
  shows "status_cell h = hook_state h \<and>
    (need_detach h \<longleftrightarrow> hook_state h \<in> {PEAK_HOOK_DETACH_REQUESTED, PEAK_HOOK_DETACHING}) \<and>
    (peak_detached h \<longleftrightarrow>
      hook_state h \<in> {PEAK_HOOK_DETACHED, PEAK_HOOK_REATTACH_REQUESTED, PEAK_HOOK_REATTACHING, PEAK_HOOK_SHUTDOWN}) \<and>
    (\<forall>control. listener_control h = Some control \<longrightarrow> callback_hook_state control = state_code (hook_state h)) \<and>
    (gum_detached h \<longrightarrow> hook_state h \<notin> {PEAK_HOOK_UNRESOLVED, PEAK_HOOK_ATTACHED, PEAK_HOOK_DETACH_REQUESTED}) \<and>
    (hook_state h = PEAK_HOOK_REATTACH_REQUESTED \<and> gum_detached h \<longrightarrow> gum_detach_flushed h)"
proof -
  have "hook_ok h"
    using lifecycle.run_inv [OF initial_controller_ok, of ops n] assms by (simp add: controller_ok_def)
  then show ?thesis
    by (auto simp: hook_ok_def mirrored_def gum_ok_def)
qed


text \<open>(C29) A requested detach ends in one of three ways: it succeeds and the hook is detached, the request
  stays pending for a retry, or it is given up and the hook is attached as before; only success changes
  Gum's view of the listener.\<close>

theorem detach_outcome:
  assumes "detach_if_requested cfg th ans r = Some (worked, r1)" and "hook_ok (fst r)"
    and "hook_state (fst r) = PEAK_HOOK_DETACH_REQUESTED"
  shows "(worked \<longrightarrow> hook_state (fst r1) = PEAK_HOOK_DETACHED \<and> listener_detached (fst r1)) \<and>
    (\<not> worked \<longrightarrow> hook_state (fst r1) \<in> {PEAK_HOOK_DETACH_REQUESTED, PEAK_HOOK_ATTACHED} \<and> \<not> gum_detached (fst r1))"
  using detach_if_requested_spec [OF assms(1,2)] assms(3) by (auto simp: hook_ok_def gum_ok_def)

text \<open>(C30) A requested reattach succeeds and leaves the hook attached in Gum and in the controller, stays
  pending, or is given up with the hook detached. A hook whose Gum detach was not flushed is refused at
  the request already.\<close>

theorem reattach_outcome:
  assumes "reattach_if_requested cfg th ans r = Some (worked, r1)" and "hook_ok (fst r)"
    and "hook_state (fst r) = PEAK_HOOK_REATTACH_REQUESTED"
  shows "(worked \<longrightarrow> hook_state (fst r1) = PEAK_HOOK_ATTACHED \<and> listener_reattached (fst r1) \<and> \<not> gum_detached (fst r1)) \<and>
    (\<not> worked \<longrightarrow> hook_state (fst r1) \<in> {PEAK_HOOK_REATTACH_REQUESTED, PEAK_HOOK_DETACHED}) \<and>
    (hook_state (fst r2) = PEAK_HOOK_DETACHED \<and> gum_detached (fst r2) \<and> \<not> gum_detach_flushed (fst r2) \<longrightarrow>
      request_reattach fin now sample r2 = (False, r2))"
proof -
  have "request_reattach fin now sample r2 = (False, r2)"
    if "hook_state (fst r2) = PEAK_HOOK_DETACHED \<and> gum_detached (fst r2) \<and> \<not> gum_detach_flushed (fst r2)"
    using that by (cases r2) (simp add: request_reattach_def request_reattach_with_context_def Let_def)
  then show ?thesis
    using reattach_if_requested_spec [OF assms(1,2)] assms(3) by auto
qed


text \<open>(C31) Shutdown: success means that the hook is shut down and that Gum no longer has its listener (for a
  hook that was not shut down before); a failure leaves the hook in its state or on its way out, with
  Gum untouched, so that it can be tried again.\<close>

theorem shutdown_outcome:
  assumes "shutdown_hook cfg th ans r = Some (failure, r1)" and "hook_ok (fst r)"
  shows "(failure = None \<longrightarrow> hook_state (fst r1) = PEAK_HOOK_SHUTDOWN \<and>
      (hook_is_published (fst r) \<and> hook_state (fst r) \<noteq> PEAK_HOOK_SHUTDOWN \<longrightarrow> gum_detached (fst r1))) \<and>
    (failure \<noteq> None \<longrightarrow> hook_state (fst r1) \<in> {hook_state (fst r), PEAK_HOOK_DETACHING} \<and>
      gum_detached (fst r1) = gum_detached (fst r))"
  using shutdown_hook_spec(3-5) [OF assms] by blast

text \<open>After the finalisation of MPI was noted nothing is detached or reattached any more: requests are
  refused and a controller round does nothing.\<close>

theorem no_mutation_after_finalize:
  assumes "mpi_finalize_requested c"
  shows "process_pending cfg env c = Some (False, c) \<and>
    controller_step (Op_request_detach i now) c = c \<and> controller_step (Op_request_reattach i now sample) c = c \<and>
    mpi_finalize_requested (controller_step Op_finalize c1)"
proof -
  have "put_hook i (get_hook i c) c = c"
    by (simp add: put_hook_def get_hook_def)
  moreover have "request_detach True now r = (False, r)" "request_reattach True now sample r = (False, r)" for r
    by (auto simp: request_detach_def request_reattach_def request_detach_with_context_def
        request_reattach_with_context_def Let_def split: prod.split)
  ultimately show ?thesis
    using assms by (simp add: process_pending_def note_mpi_finalize_requested_def)
qed

text \<open>A request is not retried forever: with a retry limit of \<open>max_retry_count\<close>, as many consecutive
  failures of the preparation (whatever their reason and the times they happen at) end the request, and
  the hook returns to the state it had before the request. Between retries at most the maximal delay is
  waited.\<close>

theorem retries_are_bounded:
  assumes "0 < max_retry_count cfg" and "retry_count (fst r) = 0" and "unat (max_retry_count cfg) \<le> length failures"
  shows "\<exists>r1. retry_run cfg resting failures r = (False, r1) \<and> hook_state (fst r1) = resting \<and>
    retry_delay cfg count \<le> fl cfg (50 / 1000)"
proof -
  obtain pending r1 where run: "retry_run cfg resting failures r = (pending, r1)"
    by (cases "retry_run cfg resting failures r")
  have "unat (max_retry_count cfg) \<noteq> 0"
    using assms(1) by (simp add: word_less_nat_alt)
  then have "failures \<noteq> []"
    using assms(3) by auto
  then have "\<not> pending"
    using retry_run_pending [of cfg resting failures r r1] run assms by auto
  then show ?thesis
    using run retry_run_given_up [of cfg resting failures r r1] by (simp add: retry_delay_def Let_def)
qed

text \<open>(C33) The batch selection is fair: it takes at most the maximal number of hooks, each eligible and none
  twice, and an eligible hook that is not taken has the full batch in front of it and is closer to the
  cursor by that many positions at the next selection, so it is taken after finitely many rounds.\<close>

theorem batch_selection_is_fair:
  assumes "collect_batch now m c = (cands, c1)" and "0 < m" and "i < length (hooks c)" and "eligible now (hooks c ! i)"
  shows "length cands \<le> m \<and> distinct (map cand_hook_id cands) \<and>
    (\<forall>j \<in> set (map cand_hook_id cands). j < length (hooks c) \<and> eligible now (hooks c ! j)) \<and>
    (i \<in> set (map cand_hook_id cands) \<or> length cands = m \<and> cursor_distance c1 i + m \<le> cursor_distance c i)"
proof -
  have "map cand_hook_id cands = selected now m c" "length cands = length (selected now m c)"
    using collect_batch_spec(1) [OF assms(1)] by (simp_all add: comp_def)
  then show ?thesis
    using selected_spec(1,3) [of now m c] selected_spec(2) [of _ now m c] skipped_hook_comes_closer [OF assms] by auto
qed

subsection \<open>Witnesses\<close>

text \<open>A configuration with exact arithmetic, two threads, answers that let everything succeed, and a
  published hook.\<close>

definition sample_config :: controller_config where
  "sample_config = \<lparr>fl = (\<lambda>x. x), max_retry_count = 2, max_pending_age_s = 30, reattach_cooldown_s = 60, max_num_threads = 4\<rparr>"

definition sample_threads :: threads where
  "sample_threads = \<lparr>controller_tid = 7, snapshot_threads = [(7, 0), (9, 1)], snapshot_complete = True\<rparr>"

definition sample_answers :: answers where
  "sample_answers =
     \<lparr>prepared = True, prepare_status = PEAK_DETACH_STATUS_SAFE, threads_held = False, physical_patch = False,
      pause_answer = (\<lambda>s. (0, 5)), fast_detach_ready = True, flush_answer = (\<lambda>k. True), attach_ok = True,
      finished = True, profile = 1, time_retry = 1, time_budget = 1, time_success = 1\<rparr>"

definition sample_hook :: "PeakHookState \<Rightarrow> hook" where
  "sample_hook state = fst (set_state state (fresh_hook\<lparr>hook_address := 4096, listener_control := Some 0\<rparr>, []))"

lemma sample_hook_ok: "state \<noteq> PEAK_HOOK_REATTACHING \<Longrightarrow> hook_ok (sample_hook state)"
  unfolding sample_hook_def hook_ok_def gum_ok_def by (simp add: fresh_hook_def)

lemma sample_detach:
  "case detach_if_requested sample_config sample_threads sample_answers (sample_hook PEAK_HOOK_DETACH_REQUESTED, []) of
     None \<Rightarrow> False | Some (worked, r1) \<Rightarrow> worked \<and> Pause 9 \<in> set (snd r1)"
  by code_simp

lemma sample_reattach:
  "case reattach_if_requested sample_config sample_threads sample_answers (sample_hook PEAK_HOOK_REATTACH_REQUESTED, []) of
     None \<Rightarrow> False | Some (worked, r1) \<Rightarrow> worked"
  by code_simp

lemma sample_shutdown:
  "case shutdown_hook sample_config sample_threads sample_answers (sample_hook PEAK_HOOK_ATTACHED, []) of
     None \<Rightarrow> False | Some (failure, r1) \<Rightarrow> failure = None"
  by code_simp

theorem lifecycle_invariant_witness:
  "status_cell (hooks (fold controller_step [Op_attach 0 4096, Op_request_detach 0 1] (initial_controller 1)) ! 0) =
     PEAK_HOOK_DETACH_REQUESTED"
proof -
  let ?c = "fold controller_step [Op_attach 0 4096, Op_request_detach 0 1] (initial_controller 1)"
  have "0 < length (hooks ?c)" "hook_state (hooks ?c ! 0) = PEAK_HOOK_DETACH_REQUESTED"
    by code_simp+
  then show ?thesis
    using lifecycle_invariant [of ?c "[Op_attach 0 4096, Op_request_detach 0 1]" 1 0 "hooks ?c ! 0"] by simp
qed

theorem detach_outcome_witness:
  "\<exists>r1. detach_if_requested sample_config sample_threads sample_answers (sample_hook PEAK_HOOK_DETACH_REQUESTED, []) =
     Some (True, r1) \<and> hook_state (fst r1) = PEAK_HOOK_DETACHED"
proof -
  obtain r1 where r1: "detach_if_requested sample_config sample_threads sample_answers
      (sample_hook PEAK_HOOK_DETACH_REQUESTED, []) = Some (True, r1)"
    using sample_detach by (auto split: option.splits)
  then show ?thesis
    using detach_outcome [OF r1] sample_hook_ok [of PEAK_HOOK_DETACH_REQUESTED] by (auto simp: sample_hook_def)
qed

theorem reattach_outcome_witness:
  "\<exists>r1. reattach_if_requested sample_config sample_threads sample_answers (sample_hook PEAK_HOOK_REATTACH_REQUESTED, []) =
     Some (True, r1) \<and> hook_state (fst r1) = PEAK_HOOK_ATTACHED"
proof -
  obtain r1 where r1: "reattach_if_requested sample_config sample_threads sample_answers
      (sample_hook PEAK_HOOK_REATTACH_REQUESTED, []) = Some (True, r1)"
    using sample_reattach by (auto split: option.splits)
  then show ?thesis
    using reattach_outcome [OF r1] sample_hook_ok [of PEAK_HOOK_REATTACH_REQUESTED] by (auto simp: sample_hook_def)
qed


theorem shutdown_outcome_witness:
  "\<exists>r1. shutdown_hook sample_config sample_threads sample_answers (sample_hook PEAK_HOOK_ATTACHED, []) =
     Some (None, r1) \<and> hook_state (fst r1) = PEAK_HOOK_SHUTDOWN"
proof -
  obtain r1 where r1: "shutdown_hook sample_config sample_threads sample_answers
      (sample_hook PEAK_HOOK_ATTACHED, []) = Some (None, r1)"
    using sample_shutdown by (auto split: option.splits)
  then show ?thesis
    using shutdown_outcome [OF r1] sample_hook_ok [of PEAK_HOOK_ATTACHED] by simp
qed

theorem no_mutation_after_finalize_witness:
  "controller_step (Op_request_detach 0 1) (controller_step Op_finalize (initial_controller 1)) =
     controller_step Op_finalize (initial_controller 1)"
  using no_mutation_after_finalize [of "controller_step Op_finalize (initial_controller 1)" _ _ 0 1]
  by (simp add: note_mpi_finalize_requested_def)

theorem retries_are_bounded_witness:
  "\<exists>r1. retry_run sample_config PEAK_HOOK_ATTACHED
     [(1, 1, PEAK_DETACH_STATUS_TIMEOUT), (2, 2, PEAK_DETACH_STATUS_TIMEOUT)] (sample_hook PEAK_HOOK_DETACH_REQUESTED, []) =
     (False, r1) \<and> hook_state (fst r1) = PEAK_HOOK_ATTACHED"
proof -
  have "retry_count (sample_hook PEAK_HOOK_DETACH_REQUESTED) = 0"
    by (simp add: sample_hook_def fresh_hook_def)
  then show ?thesis
    using retries_are_bounded [of sample_config "(sample_hook PEAK_HOOK_DETACH_REQUESTED, [])"
      "[(1, 1, PEAK_DETACH_STATUS_TIMEOUT), (2, 2, PEAK_DETACH_STATUS_TIMEOUT)]" PEAK_HOOK_ATTACHED 0]
    by (auto simp: sample_config_def)
qed

theorem batch_selection_is_fair_witness:
  "let c = (initial_controller 0)\<lparr>hooks := replicate 3 (sample_hook PEAK_HOOK_DETACH_REQUESTED)\<rparr> in
   2 \<in> set (map cand_hook_id (fst (collect_batch 1 2 c))) \<or> cursor_distance (snd (collect_batch 1 2 c)) 2 = 0"
proof -
  let ?c = "(initial_controller 0)\<lparr>hooks := replicate 3 (sample_hook PEAK_HOOK_DETACH_REQUESTED)\<rparr>"
  have "2 < length (hooks ?c)" "eligible 1 (hooks ?c ! 2)" "cursor_distance ?c 2 = 2"
    by code_simp+
  then show ?thesis
    using batch_selection_is_fair [of 1 2 ?c "fst (collect_batch 1 2 ?c)" "snd (collect_batch 1 2 ?c)" 2]
    by (auto simp: Let_def)
qed

end
