(* ===== verification/C_Double.thy ===== *)
theory C_Double
  imports Complex_Main Peak_Prelude
begin

text \<open>
  The values of the C type \<^verbatim>\<open>double\<close> as the code compares them: a rational, one of the infinities or not a
  number. Every comparison with the latter is false, as in C. The two zeros are one value, because the
  comparisons do not tell them apart.
\<close>

datatype double = NaN | NInf | Fin rat | PInf

definition DBL_MAX :: rat where
  "DBL_MAX = 2 ^ 1024 - 2 ^ 971"

fun dlt :: "double \<Rightarrow> double \<Rightarrow> bool" where
  "dlt NaN y = False"
| "dlt x NaN = False"
| "dlt (Fin a) (Fin b) = (a < b)"
| "dlt NInf y = (y \<noteq> NInf)"
| "dlt x NInf = False"
| "dlt PInf y = False"
| "dlt x PInf = True"

definition deq :: "double \<Rightarrow> double \<Rightarrow> bool" where
  "deq x y \<longleftrightarrow> x \<noteq> NaN \<and> x = y"

definition dle :: "double \<Rightarrow> double \<Rightarrow> bool" where
  "dle x y \<longleftrightarrow> dlt x y \<or> deq x y"

definition positive_finite :: "double \<Rightarrow> bool" where
  "positive_finite v \<longleftrightarrow> dlt (Fin 0) v \<and> deq v v \<and> dle v (Fin DBL_MAX)"

definition nonnegative_finite :: "double \<Rightarrow> bool" where
  "nonnegative_finite v \<longleftrightarrow> dle (Fin 0) v \<and> deq v v \<and> dle v (Fin DBL_MAX)"

lemma positive_finite_iff [simp]: "positive_finite v \<longleftrightarrow> (\<exists>q. v = Fin q \<and> 0 < q \<and> q \<le> DBL_MAX)"
  by (cases v) (auto simp: positive_finite_def dle_def deq_def)

lemma nonnegative_finite_iff [simp]: "nonnegative_finite v \<longleftrightarrow> (\<exists>q. v = Fin q \<and> 0 \<le> q \<and> q \<le> DBL_MAX)"
  by (cases v) (auto simp: nonnegative_finite_def dle_def deq_def)

text \<open>On numbers the comparisons form a linear order.\<close>

lemma dlt_irrefl [simp]: "\<not> dlt x x"
  by (cases x) auto

lemma dlt_trans [trans]: "dlt x y \<Longrightarrow> dlt y z \<Longrightarrow> dlt x z"
  by (cases x; cases y; cases z) auto

lemma dlt_total: "x \<noteq> NaN \<Longrightarrow> y \<noteq> NaN \<Longrightarrow> dlt x y \<or> deq x y \<or> dlt y x"
  by (cases x; cases y) (auto simp: deq_def)

lemma DBL_MAX_pos [simp]: "0 < DBL_MAX"
  by (simp add: DBL_MAX_def)

end
