(* ===== verification/Report_Model.thy ===== *)
theory Report_Model
  imports C_Double
begin

text \<open>
  The transport-neutral report data, \<^verbatim>\<open>src/general_listener/report_model.c\<close>, and the per-rank maxima of
  \<^verbatim>\<open>src/general_listener/report_maxima.c\<close>. A null pointer argument is \<open>None\<close> or left out where every caller
  passes an object; arrays indexed by a metric are functions of the metric.
\<close>

datatype PeakReportMetric =
    METRIC_COMBINED | METRIC_PROFILE | METRIC_CONTROL | METRIC_MANAGEMENT
  | METRIC_PROFILE_CONTROL_RISK | METRIC_CONTROL_RISK

definition report_metrics :: "PeakReportMetric list" where
  "report_metrics = [METRIC_COMBINED, METRIC_PROFILE, METRIC_CONTROL, METRIC_MANAGEMENT,
     METRIC_PROFILE_CONTROL_RISK, METRIC_CONTROL_RISK]"

record PeakReportRankTuple =
  accounting_valid :: bool
  local_ranks :: uint32
  stop_window_count :: uint64
  failed_stop_window_count :: uint64
  elapsed_seconds :: double
  profile_seconds :: double
  control_seconds :: double
  management_seconds :: double
  control_risk_seconds :: double
  profile_control_risk_seconds :: double
  profile_ratio :: double
  control_ratio :: double
  profile_control_risk_ratio :: double
  control_risk_ratio :: double
  management_ratio :: double
  overall_ratio :: double

definition zero_tuple :: PeakReportRankTuple where
  "zero_tuple = \<lparr>accounting_valid = False, local_ranks = 0, stop_window_count = 0, failed_stop_window_count = 0,
     elapsed_seconds = Fin 0, profile_seconds = Fin 0, control_seconds = Fin 0, management_seconds = Fin 0,
     control_risk_seconds = Fin 0, profile_control_risk_seconds = Fin 0, profile_ratio = Fin 0,
     control_ratio = Fin 0, profile_control_risk_ratio = Fin 0, control_risk_ratio = Fin 0,
     management_ratio = Fin 0, overall_ratio = Fin 0\<rparr>"

subsection \<open>The report model\<close>

definition calls_per_active_thread :: "uint64 \<Rightarrow> uint64 \<Rightarrow> uint64" where
  "calls_per_active_thread calls active_threads =
     (if calls = 0 \<or> active_threads = 0 then 0
      else calls div active_threads + (if calls mod active_threads \<noteq> 0 then 1 else 0))"

definition sanitize_time :: "double \<Rightarrow> double \<Rightarrow> double" where
  "sanitize_time total_s exclusive =
     (let e = (if dlt exclusive (Fin 0) then Fin 0 else exclusive)
      in if dle (Fin 0) total_s \<and> dlt total_s e then total_s else e)"

definition sanitize_times :: "nat \<Rightarrow> double list \<Rightarrow> double list \<Rightarrow> double list" where
  "sanitize_times hook_count total_time exclusive_time =
     map (\<lambda>i. if i < hook_count then sanitize_time (total_time ! i) (exclusive_time ! i) else exclusive_time ! i)
       [0..<length exclusive_time]"

definition rank_tuple_is_valid :: "PeakReportRankTuple \<Rightarrow> bool" where
  "rank_tuple_is_valid t \<longleftrightarrow>
     local_ranks t > 0 \<and> failed_stop_window_count t \<noteq> - 1 \<and> positive_finite (elapsed_seconds t) \<and>
     nonnegative_finite (profile_seconds t) \<and> nonnegative_finite (control_seconds t) \<and>
     nonnegative_finite (management_seconds t) \<and> nonnegative_finite (control_risk_seconds t) \<and>
     nonnegative_finite (profile_control_risk_seconds t) \<and> nonnegative_finite (profile_ratio t) \<and>
     nonnegative_finite (control_ratio t) \<and> nonnegative_finite (profile_control_risk_ratio t) \<and>
     nonnegative_finite (control_risk_ratio t) \<and> nonnegative_finite (management_ratio t) \<and>
     nonnegative_finite (overall_ratio t)"

subsection \<open>Maxima\<close>

record PeakReportMaxima =
  tuples :: "PeakReportMetric \<Rightarrow> PeakReportRankTuple"
  owner_ranks :: "PeakReportMetric \<Rightarrow> int"
  present :: "PeakReportMetric \<Rightarrow> bool"

primrec tuple_metric :: "PeakReportMetric \<Rightarrow> PeakReportRankTuple \<Rightarrow> double" where
  "tuple_metric METRIC_COMBINED t = overall_ratio t"
| "tuple_metric METRIC_PROFILE t = profile_ratio t"
| "tuple_metric METRIC_CONTROL t = control_ratio t"
| "tuple_metric METRIC_MANAGEMENT t = management_ratio t"
| "tuple_metric METRIC_PROFILE_CONTROL_RISK t = profile_control_risk_ratio t"
| "tuple_metric METRIC_CONTROL_RISK t = control_risk_ratio t"

definition maxima_reset :: PeakReportMaxima where
  "maxima_reset = \<lparr>tuples = (\<lambda>_. zero_tuple), owner_ranks = (\<lambda>_. - 1), present = (\<lambda>_. False)\<rparr>"

definition maxima_replaces :: "PeakReportRankTuple \<Rightarrow> int \<Rightarrow> PeakReportMaxima \<Rightarrow> PeakReportMetric \<Rightarrow> bool" where
  "maxima_replaces candidate rank m metric \<longleftrightarrow>
     \<not> present m metric \<or> dlt (tuple_metric metric (tuples m metric)) (tuple_metric metric candidate) \<or>
     deq (tuple_metric metric candidate) (tuple_metric metric (tuples m metric)) \<and> rank < owner_ranks m metric"

definition maxima_assign_metric ::
  "PeakReportRankTuple \<Rightarrow> int \<Rightarrow> PeakReportMetric \<Rightarrow> PeakReportMaxima \<Rightarrow> PeakReportMaxima" where
  "maxima_assign_metric candidate rank metric m =
     m\<lparr>tuples := (tuples m)(metric := candidate), owner_ranks := (owner_ranks m)(metric := rank),
       present := (present m)(metric := True)\<rparr>"

definition maxima_consider :: "PeakReportRankTuple \<Rightarrow> int \<Rightarrow> PeakReportMaxima \<Rightarrow> bool \<times> PeakReportMaxima" where
  "maxima_consider candidate rank m =
     (if rank < 0 then (False, m)
      else (True, fold (\<lambda>metric m. if maxima_replaces candidate rank m metric
                                     then maxima_assign_metric candidate rank metric m else m) report_metrics m))"

definition maxima_initialize :: "PeakReportRankTuple \<Rightarrow> int \<Rightarrow> bool \<times> PeakReportMaxima" where
  "maxima_initialize candidate rank = maxima_consider candidate rank maxima_reset"

definition maxima_complete :: "PeakReportMaxima \<Rightarrow> bool" where
  "maxima_complete m \<longleftrightarrow> list_all (present m) report_metrics"

definition maxima_load ::
  "(PeakReportMetric \<Rightarrow> PeakReportRankTuple) \<Rightarrow> (PeakReportMetric \<Rightarrow> int) \<Rightarrow> PeakReportMaxima \<Rightarrow>
   bool \<times> PeakReportMaxima" where
  "maxima_load ts owners m =
     (if list_ex (\<lambda>metric. owners metric < 0) report_metrics then (False, m)
      else (True, fold (\<lambda>metric. maxima_assign_metric (ts metric) (owners metric) metric) report_metrics maxima_reset))"

definition maxima_assign ::
  "PeakReportMaxima \<Rightarrow> ((PeakReportMetric \<Rightarrow> PeakReportRankTuple) \<times> (PeakReportMetric \<Rightarrow> int)) option" where
  "maxima_assign m = (if \<not> maxima_complete m then None else Some (tuples m, owner_ranks m))"

text \<open>The final overhead data of one process has every field of its rank tuple.\<close>

record PeakReportOverhead = PeakReportRankTuple +
  report_valid :: bool
  per_rank_max :: bool
  elapsed_min_seconds :: double
  elapsed_max_seconds :: double
  per_rank_maxima :: PeakReportMaxima

definition overhead_rank_tuple :: "PeakReportOverhead option \<Rightarrow> PeakReportRankTuple" where
  "overhead_rank_tuple report =
     (case report of
        None \<Rightarrow> zero_tuple
      | Some r \<Rightarrow>
          \<lparr>accounting_valid = accounting_valid r, local_ranks = local_ranks r, stop_window_count = stop_window_count r,
           failed_stop_window_count = failed_stop_window_count r, elapsed_seconds = elapsed_seconds r,
           profile_seconds = profile_seconds r, control_seconds = control_seconds r,
           management_seconds = management_seconds r, control_risk_seconds = control_risk_seconds r,
           profile_control_risk_seconds = profile_control_risk_seconds r, profile_ratio = profile_ratio r,
           control_ratio = control_ratio r, profile_control_risk_ratio = profile_control_risk_ratio r,
           control_risk_ratio = control_risk_ratio r, management_ratio = management_ratio r,
           overall_ratio = overall_ratio r\<rparr>)"

subsection \<open>Lemmas on the maxima\<close>

lemma report_metrics_all [simp]: "metric \<in> set report_metrics" "distinct report_metrics"
  by (cases metric) (simp_all add: report_metrics_def)

lemma assign_metric_sel [simp]:
  "tuples (maxima_assign_metric c r k m) = (tuples m)(k := c)"
  "owner_ranks (maxima_assign_metric c r k m) = (owner_ranks m)(k := r)"
  "present (maxima_assign_metric c r k m) = (present m)(k := True)"
  by (simp_all add: maxima_assign_metric_def)

lemma replaces_other [simp]:
  "k \<noteq> j \<Longrightarrow> maxima_replaces c r (maxima_assign_metric d s k m) j \<longleftrightarrow> maxima_replaces c r m j"
  by (simp add: maxima_replaces_def)

lemma consider_pass:
  assumes "distinct ms"
  shows "tuples (fold (\<lambda>k m. if maxima_replaces c r m k then maxima_assign_metric c r k m else m) ms m) j =
      (if j \<in> set ms \<and> maxima_replaces c r m j then c else tuples m j) \<and>
    owner_ranks (fold (\<lambda>k m. if maxima_replaces c r m k then maxima_assign_metric c r k m else m) ms m) j =
      (if j \<in> set ms \<and> maxima_replaces c r m j then r else owner_ranks m j) \<and>
    present (fold (\<lambda>k m. if maxima_replaces c r m k then maxima_assign_metric c r k m else m) ms m) j =
      (j \<in> set ms \<and> maxima_replaces c r m j \<or> present m j)"
  using assms by (induction ms arbitrary: m) auto

lemma consider_metric:
  assumes "0 \<le> r"
  shows "fst (maxima_consider c r m)"
    and "tuples (snd (maxima_consider c r m)) j = (if maxima_replaces c r m j then c else tuples m j)"
    and "owner_ranks (snd (maxima_consider c r m)) j = (if maxima_replaces c r m j then r else owner_ranks m j)"
    and "present (snd (maxima_consider c r m)) j"
  using assms consider_pass [of report_metrics c r m j]
  by (auto simp: maxima_consider_def maxima_replaces_def)

lemma valid_metric_number: "rank_tuple_is_valid t \<Longrightarrow> tuple_metric k t \<noteq> NaN"
  by (cases k) (auto simp: rank_tuple_is_valid_def)

text \<open>\<open>beats\<close>: the owner is at least as good as another rank, with the lower rank on a tie.\<close>

definition beats :: "PeakReportMetric \<Rightarrow> PeakReportRankTuple \<times> int \<Rightarrow> PeakReportRankTuple \<times> int \<Rightarrow> bool" where
  "beats k p q \<longleftrightarrow> dlt (tuple_metric k (fst q)) (tuple_metric k (fst p)) \<or>
     tuple_metric k (fst p) = tuple_metric k (fst q) \<and> snd p \<le> snd q"

lemma beats_trans: "beats k p q \<Longrightarrow> beats k q s \<Longrightarrow> beats k p s"
  unfolding beats_def by (auto dest: dlt_trans)

definition consider_all :: "(PeakReportRankTuple \<times> int) list \<Rightarrow> PeakReportMaxima \<Rightarrow> PeakReportMaxima" where
  "consider_all = fold (\<lambda>p m. snd (maxima_consider (fst p) (snd p) m))"

definition owns :: "PeakReportMaxima \<Rightarrow> PeakReportMetric \<Rightarrow> (PeakReportRankTuple \<times> int) set \<Rightarrow> bool" where
  "owns m k S \<longleftrightarrow> present m k \<and> (tuples m k, owner_ranks m k) \<in> S \<and>
     (\<forall>q \<in> S. beats k (tuples m k, owner_ranks m k) q)"

lemma consider_owns:
  assumes "0 \<le> snd p" "rank_tuple_is_valid (fst p)" "\<forall>q \<in> S. rank_tuple_is_valid (fst q)"
    and "S = {} \<and> \<not> present m k \<or> owns m k S"
  shows "owns (snd (maxima_consider (fst p) (snd p) m)) k (insert p S)"
proof (cases "maxima_replaces (fst p) (snd p) m k")
  case True
  have "beats k p q" if "q \<in> S" for q
    using that True assms(4) beats_trans [of k p "(tuples m k, owner_ranks m k)" q]
    by (auto simp: owns_def maxima_replaces_def beats_def deq_def)
  then show ?thesis
    using True assms(1) by (auto simp: owns_def consider_metric) (simp_all add: beats_def)
next
  case False
  then have o: "owns m k S" and pr: "present m k"
    using assms(4) by (auto simp: maxima_replaces_def)
  then have "tuple_metric k (tuples m k) \<noteq> NaN" "tuple_metric k (fst p) \<noteq> NaN"
    using assms(2,3) valid_metric_number by (force simp: owns_def)+
  then have "beats k (tuples m k, owner_ranks m k) p"
    using False dlt_total by (auto simp: maxima_replaces_def beats_def deq_def)
  then show ?thesis
    using False o assms(1) by (auto simp: owns_def consider_metric)
qed

lemma consider_all_owns:
  assumes "\<forall>p \<in> set cs. 0 \<le> snd p \<and> rank_tuple_is_valid (fst p)" "\<forall>q \<in> S. rank_tuple_is_valid (fst q)"
    and "S = {} \<and> \<not> present m k \<or> owns m k S" and "set cs \<union> S \<noteq> {}"
  shows "owns (consider_all cs m) k (set cs \<union> S)"
  using assms
proof (induction cs arbitrary: m S)
  case Nil
  then show ?case
    by (auto simp: consider_all_def)
next
  case (Cons p cs)
  have "owns (snd (maxima_consider (fst p) (snd p) m)) k (insert p S)"
    using Cons.prems by (intro consider_owns) auto
  then have "owns (consider_all cs (snd (maxima_consider (fst p) (snd p) m))) k (set cs \<union> insert p S)"
    using Cons.prems by (intro Cons.IH) auto
  then show ?case
    by (simp add: consider_all_def)
qed

text \<open>(C23) The per-rank maxima are what MPI's MAXLOC gives: after considering valid tuples of ranks in any
  order, every metric has an owner, the complete tuple kept for it is the tuple of the owner, no rank has
  a greater value, and among equal values the lowest rank owns it; copying the maxima out and loading
  them again gives the same maxima.\<close>

theorem maxima_are_maxloc:
  assumes "cs \<noteq> []" and "\<forall>p \<in> set cs. 0 \<le> snd p \<and> rank_tuple_is_valid (fst p)"
    and "m = consider_all cs maxima_reset"
  shows "maxima_complete m \<and> (tuples m k, owner_ranks m k) \<in> set cs \<and>
    (\<forall>p \<in> set cs. beats k (tuples m k, owner_ranks m k) p) \<and>
    (\<exists>ts os. maxima_assign m = Some (ts, os) \<and> maxima_load ts os m' = (True, m))"
proof -
  have o: "owns m k (set cs)" for k
    using consider_all_owns [of cs "{}" maxima_reset k] assms by (simp add: maxima_reset_def)
  have c: "maxima_complete m"
    using o by (simp add: maxima_complete_def list_all_iff owns_def)
  have "owner_ranks m k \<ge> 0" for k
    using o [of k] assms(2) by (force simp: owns_def)
  moreover have "fold (\<lambda>k. maxima_assign_metric (ts k) (os k) k) ms n =
      \<lparr>tuples = (\<lambda>k. if k \<in> set ms then ts k else tuples n k), owner_ranks = (\<lambda>k. if k \<in> set ms then os k else owner_ranks n k),
       present = (\<lambda>k. k \<in> set ms \<or> present n k)\<rparr>" if "distinct ms" for ms ts os and n :: PeakReportMaxima
    using that by (induction ms arbitrary: n) (auto simp: fun_eq_iff maxima_assign_metric_def intro!: PeakReportMaxima.equality)
  moreover have "present m = (\<lambda>_. True)"
    using o by (auto simp: owns_def)
  ultimately have "maxima_load (tuples m) (owner_ranks m) m' = (True, m)"
    by (auto simp: maxima_load_def list_ex_iff not_less intro!: PeakReportMaxima.equality)
  then show ?thesis
    using o c by (auto simp: owns_def maxima_assign_def)
qed

definition sample_tuple :: "rat \<Rightarrow> PeakReportRankTuple" where
  "sample_tuple q = zero_tuple\<lparr>local_ranks := 1, elapsed_seconds := Fin 1, overall_ratio := Fin q\<rparr>"

lemma sample_tuple_valid: "0 \<le> q \<Longrightarrow> q \<le> DBL_MAX \<Longrightarrow> rank_tuple_is_valid (sample_tuple q)"
  by (simp add: sample_tuple_def zero_tuple_def rank_tuple_is_valid_def less_imp_le) (simp add: DBL_MAX_def)

theorem maxima_are_maxloc_witness:
  "owner_ranks (consider_all [(sample_tuple 1, 4), (sample_tuple 2, 7), (sample_tuple 2, 3)] maxima_reset) METRIC_COMBINED = 3"
proof -
  let ?m = "consider_all [(sample_tuple 1, 4), (sample_tuple 2, 7), (sample_tuple 2, 3)] maxima_reset"
  have "rank_tuple_is_valid (sample_tuple 1)" "rank_tuple_is_valid (sample_tuple 2)"
    by (rule sample_tuple_valid; simp add: DBL_MAX_def)+
  then have "(tuples ?m METRIC_COMBINED, owner_ranks ?m METRIC_COMBINED) \<in>
      set [(sample_tuple 1, 4), (sample_tuple 2, 7), (sample_tuple 2, 3)] \<and>
    (\<forall>p \<in> set [(sample_tuple 1, 4), (sample_tuple 2, 7), (sample_tuple 2, 3)].
       beats METRIC_COMBINED (tuples ?m METRIC_COMBINED, owner_ranks ?m METRIC_COMBINED) p)"
    using maxima_are_maxloc [of "[(sample_tuple 1, 4), (sample_tuple 2, 7), (sample_tuple 2, 3)]" ?m METRIC_COMBINED] by simp
  then show ?thesis
    by (auto simp: beats_def sample_tuple_def)
qed

subsection \<open>Derived columns\<close>

lemma sanitize_time_range:
  "\<not> dlt (sanitize_time t e) (Fin 0)" "\<not> (dle (Fin 0) t \<and> dlt t (sanitize_time t e))"
  "\<not> dlt e (Fin 0) \<Longrightarrow> \<not> (dle (Fin 0) t \<and> dlt t e) \<Longrightarrow> sanitize_time t e = e"
  by (cases t; cases e; auto simp: sanitize_time_def dle_def deq_def Let_def)+

lemma ceiling_div: "0 < d \<Longrightarrow> n div d + (if n mod d \<noteq> 0 then 1 else 0) = (n + (d - 1)) div d" for n d :: nat
proof -
  assume d: "0 < d"
  have "(n + (d - 1)) div d = n div d + (n mod d + (d - 1)) div d"
    by (metis div_mult_mod_eq add.assoc div_mult_self3 d less_numeral_extra(3))
  moreover have "(n mod d + (d - 1)) div d = (if n mod d \<noteq> 0 then 1 else 0)"
  proof (cases "n mod d = 0")
    case False
    then have e: "n mod d + (d - 1) = d + (n mod d - 1)"
      using d by simp
    have "(n mod d - 1) div d = 0"
      using d by (intro div_less less_imp_diff_less mod_less_divisor)
    then show ?thesis
      unfolding e using False d by (subst div_add_self1) auto
  qed (use d in simp)
  ultimately show ?thesis
    by simp
qed

lemma calls_per_active_thread_ceiling:
  "unat (calls_per_active_thread calls threads) =
     (if threads = 0 then 0 else (unat calls + (unat threads - 1)) div unat threads)"
proof (cases "calls = 0 \<or> threads = 0")
  case True
  then show ?thesis
    by (auto simp: calls_per_active_thread_def unat_eq_0 unat_gt_0)
next
  case False
  then have d: "0 < unat threads" and n: "0 < unat calls"
    by (simp_all add: unat_gt_0)
  have "unat (calls div threads) < 2 ^ 64 - 1" if "unat calls mod unat threads \<noteq> 0"
  proof -
    have "2 \<le> unat threads"
      using that d by (metis One_nat_def less_2_cases_iff linorder_not_le mod_by_1 not_less_zero)
    then have "unat calls div unat threads \<le> unat calls div 2"
      by (simp add: div_le_mono2)
    also have "\<dots> < 2 ^ 64 - 1"
      using unsigned_less [of calls, where ?'a = nat] by (simp add: less_mult_imp_div_less)
    finally show ?thesis
      by (simp add: unat_div_distrib)
  qed
  moreover have "unat calls div unat threads < 18446744073709551616"
    using unsigned_less [of calls, where ?'a = nat] by (intro le_less_trans [OF div_le_dividend]) simp
  ultimately have "unat (calls_per_active_thread calls threads) =
      unat calls div unat threads + (if unat calls mod unat threads \<noteq> 0 then 1 else 0)"
    using False by (auto simp: calls_per_active_thread_def unat_div_distrib unat_mod_distrib unat_word_ariths(1) word_unat_eq_iff)
  then show ?thesis
    using False ceiling_div [OF d] by simp
qed

end
