(* ===== verification/Mpi_Teardown.thy ===== *)
theory Mpi_Teardown
  imports Runtime_Config
begin

text \<open>
  The guard around the collectives of MPI teardown, \<^verbatim>\<open>src/mpi_teardown_guard.c\<close>. A collective that cannot be
  completed in time can neither be cancelled nor may its buffers be freed, so the request is kept in a
  quarantine list and all later collectives are refused.

  MPI and the allocator answer through \<open>mpi_answers\<close>: whether the request is allocated and started, the
  polls of \<^verbatim>\<open>MPI_Test\<close> (success, completion, and whether the clock is past the deadline afterwards) and the
  reduced values. Requests are numbered in the order of their allocation; \<open>in_flight\<close> and \<open>freed\<close> are ghost
  state that records which requests MPI may still write to and which were freed.
\<close>

definition PEAK_MPI_TEARDOWN_MAX_VALUES :: nat where
  "PEAK_MPI_TEARDOWN_MAX_VALUES = 3"

definition PEAK_MPI_FINALIZE_REQUEST_TIMEOUT_MS_DEFAULT :: nat where
  "PEAK_MPI_FINALIZE_REQUEST_TIMEOUT_MS_DEFAULT = 10000"

record PeakMpiTeardownRequest =
  request_id :: nat
  local_values :: "int list"
  all_values :: "int list"

record teardown =
  failed_closed :: bool
  quarantine :: "PeakMpiTeardownRequest list"
  quarantine_count :: nat
  next_request :: nat
  in_flight :: "nat list"
  freed :: "nat list"
  started :: "int list list"
  teardown_warnings :: env_warnings

record poll =
  test_ok :: bool
  test_done :: bool
  past_deadline :: bool

record mpi_answers =
  calloc_ok :: bool
  iallreduce_ok :: bool
  polls :: "poll list"
  reduced :: "int list"

definition mark_failed_closed :: "teardown \<Rightarrow> teardown" where
  "mark_failed_closed st = st\<lparr>failed_closed := True\<rparr>"

definition request_create :: "bool \<Rightarrow> int list \<Rightarrow> teardown \<Rightarrow> PeakMpiTeardownRequest option \<times> teardown" where
  "request_create ok vals st =
     (if \<not> ok \<or> length vals = 0 \<or> length vals > PEAK_MPI_TEARDOWN_MAX_VALUES then (None, mark_failed_closed st)
      else (Some \<lparr>request_id = next_request st, local_values = vals, all_values = replicate (length vals) 0\<rparr>,
            st\<lparr>next_request := next_request st + 1\<rparr>))"

text \<open>The list head is replaced by a compare-and-exchange loop; here the exchange is one step.\<close>

definition request_quarantine :: "PeakMpiTeardownRequest \<Rightarrow> teardown \<Rightarrow> teardown" where
  "request_quarantine pending st =
     st\<lparr>quarantine := pending # quarantine st, quarantine_count := quarantine_count st + 1\<rparr>"

definition request_abandon :: "PeakMpiTeardownRequest \<Rightarrow> teardown \<Rightarrow> teardown" where
  "request_abandon pending st = request_quarantine pending (mark_failed_closed st)"

definition finalize_timeout_ms :: "environment \<Rightarrow> env_warnings \<Rightarrow> uint32 \<times> env_warnings" where
  "finalize_timeout_ms getenv w =
     (case parse_env_unsigned getenv
        \<lparr>schema_name = ''PEAK_MPI_FINALIZE_REQUEST_TIMEOUT_MS'', schema_unit = ''milliseconds'',
         schema_fallback = PEAK_MPI_FINALIZE_REQUEST_TIMEOUT_MS_DEFAULT, schema_minimum = 1,
         schema_maximum = UINT_MAX, zero_allowed = False,
         warning_emitted = Some ''PEAK_MPI_FINALIZE_REQUEST_TIMEOUT_MS'', decimal_digits_only = False\<rparr> w of
        (n, w1) \<Rightarrow> (of_nat n, w1))"

definition launcher_rank_is_root :: "environment \<Rightarrow> bool" where
  "launcher_rank_is_root getenv = (case mpi_env_rank_size getenv of Some (rank, _) \<Rightarrow> rank = 0 | None \<Rightarrow> False)"

text \<open>The second component says whether the raise is logged.\<close>

definition report_release_timeout_ms :: "environment \<Rightarrow> uint32 \<Rightarrow> env_warnings \<Rightarrow> uint32 \<times> bool \<times> env_warnings" where
  "report_release_timeout_ms getenv minimum_timeout_ms w =
     (case report_timeout_budget getenv w of
        (budget, w1) \<Rightarrow>
          let timeout_ms = (if mpi_report_release_timeout_ms budget < minimum_timeout_ms then minimum_timeout_ms
                            else mpi_report_release_timeout_ms budget)
          in (timeout_ms, timeout_ms \<noteq> mpi_report_release_timeout_ms budget \<and> launcher_rank_is_root getenv, w1))"

subsection \<open>The guarded reduction\<close>

datatype poll_result = Completed | Test_failed | Timed_out

fun poll_loop :: "poll list \<Rightarrow> poll_result option" where
  "poll_loop [] = None"
| "poll_loop (p # ps) =
     (if \<not> test_ok p then Some Test_failed
      else if test_done p then Some Completed
      else if past_deadline p then Some Timed_out
      else poll_loop ps)"

text \<open>The reduced values (zeros on failure), or \<open>None\<close> while the polls go on. The caller's array starts as zeros.\<close>

definition all_ranks_min :: "mpi_answers \<Rightarrow> int list \<Rightarrow> teardown \<Rightarrow> (bool \<times> int list \<times> teardown) option" where
  "all_ranks_min ans vals st =
     (if failed_closed st then Some (False, replicate (length vals) 0, st)
      else case request_create (calloc_ok ans) vals st of
        (None, st1) \<Rightarrow> Some (False, replicate (length vals) 0, st1)
      | (Some pending, st1) \<Rightarrow>
          let st2 = st1\<lparr>started := started st1 @ [vals], in_flight := request_id pending # in_flight st1\<rparr> in
          if \<not> iallreduce_ok ans then Some (False, replicate (length vals) 0, request_abandon pending st2)
          else case poll_loop (polls ans) of
            None \<Rightarrow> None
          | Some Completed \<Rightarrow>
              Some (True, take (length vals) (reduced ans),
                    st2\<lparr>in_flight := removeAll (request_id pending) (in_flight st2), freed := request_id pending # freed st2\<rparr>)
          | Some Test_failed \<Rightarrow> Some (False, replicate (length vals) 0, request_abandon pending st2)
          | Some Timed_out \<Rightarrow> Some (False, replicate (length vals) 0, request_abandon pending st2))"

definition all_ranks_requested_finalize ::
  "environment \<Rightarrow> mpi_answers \<Rightarrow> int \<Rightarrow> teardown \<Rightarrow> (bool \<times> teardown) option" where
  "all_ranks_requested_finalize getenv ans local_requested st =
     (let (timeout_ms, w) = finalize_timeout_ms getenv (teardown_warnings st) in
      case all_ranks_min ans [local_requested] (st\<lparr>teardown_warnings := w\<rparr>) of
        None \<Rightarrow> None
      | Some (ok, vals, st1) \<Rightarrow> Some (ok \<and> vals ! 0 \<noteq> 0, st1))"

text \<open>The results: whether the protocol completed, then the flags handed out.\<close>

definition complete_report_release ::
  "environment \<Rightarrow> mpi_answers \<Rightarrow> int \<Rightarrow> int \<Rightarrow> teardown \<Rightarrow> (bool \<times> bool \<times> bool \<times> teardown) option" where
  "complete_report_release getenv ans local_complete local_allowed st =
     (let (timeout_ms, logged, w) = report_release_timeout_ms getenv 0 (teardown_warnings st) in
      case all_ranks_min ans [local_complete, local_allowed] (st\<lparr>teardown_warnings := w\<rparr>) of
        None \<Rightarrow> None
      | Some (ok, vals, st1) \<Rightarrow> Some (ok, ok \<and> vals ! 0 \<noteq> 0, ok \<and> vals ! 1 \<noteq> 0, st1))"

definition complete_post_publication_release ::
  "environment \<Rightarrow> mpi_answers \<Rightarrow> int \<Rightarrow> int \<Rightarrow> int \<Rightarrow> uint32 \<Rightarrow> teardown \<Rightarrow>
   (bool \<times> bool \<times> bool \<times> bool \<times> teardown) option" where
  "complete_post_publication_release getenv ans local_requested local_complete local_allowed minimum_timeout_ms st =
     (let (timeout_ms, logged, w) = report_release_timeout_ms getenv minimum_timeout_ms (teardown_warnings st) in
      case all_ranks_min ans [local_requested, local_complete, local_allowed] (st\<lparr>teardown_warnings := w\<rparr>) of
        None \<Rightarrow> None
      | Some (ok, vals, st1) \<Rightarrow>
          Some (ok, ok \<and> vals ! 0 \<noteq> 0, ok \<and> vals ! 1 \<noteq> 0, ok \<and> vals ! 2 \<noteq> 0, st1))"

subsection \<open>Runs of the guard\<close>

datatype teardown_op =
    Op_mark_failed
  | Op_requested_finalize environment mpi_answers int
  | Op_report_release environment mpi_answers int int
  | Op_post_publication_release environment mpi_answers int int int uint32

text \<open>One call: whether the protocol completed, and the state; \<open>None\<close> if the call does not return.\<close>

primrec teardown_call :: "teardown_op \<Rightarrow> teardown \<Rightarrow> (bool \<times> teardown) option" where
  "teardown_call Op_mark_failed st = Some (False, mark_failed_closed st)"
| "teardown_call (Op_requested_finalize getenv ans v) st = all_ranks_requested_finalize getenv ans v st"
| "teardown_call (Op_report_release getenv ans c a) st =
     map_option (\<lambda>(ok, _, _, st1). (ok, st1)) (complete_report_release getenv ans c a st)"
| "teardown_call (Op_post_publication_release getenv ans r c a m) st =
     map_option (\<lambda>(ok, _, _, _, st1). (ok, st1)) (complete_post_publication_release getenv ans r c a m st)"

fun teardown_run :: "teardown_op list \<Rightarrow> teardown \<Rightarrow> (bool list \<times> teardown) option" where
  "teardown_run [] st = Some ([], st)"
| "teardown_run (op # ops) st =
     (case teardown_call op st of
        None \<Rightarrow> None
      | Some (ok, st1) \<Rightarrow> map_option (\<lambda>(oks, st2). (ok # oks, st2)) (teardown_run ops st1))"

definition initial_teardown :: "env_warnings \<Rightarrow> teardown" where
  "initial_teardown w =
     \<lparr>failed_closed = False, quarantine = [], quarantine_count = 0, next_request = 0, in_flight = [], freed = [],
      started = [], teardown_warnings = w\<rparr>"

definition teardown_ok :: "teardown \<Rightarrow> bool" where
  "teardown_ok st \<longleftrightarrow>
     quarantine_count st = length (quarantine st) \<and> in_flight st = map request_id (quarantine st) \<and>
     set (in_flight st) \<inter> set (freed st) = {} \<and> (\<forall>i \<in> set (in_flight st) \<union> set (freed st). i < next_request st) \<and>
     (quarantine st \<noteq> [] \<longrightarrow> failed_closed st) \<and> length (quarantine st) \<le> 1"

lemma all_ranks_min_ok:
  assumes "teardown_ok st" and "all_ranks_min ans vals st = Some (ok, res, st1)"
  shows "teardown_ok st1"
proof (cases "failed_closed st")
  case False
  then have "quarantine st = []" "in_flight st = []"
    using assms(1) by (auto simp: teardown_ok_def)
  then show ?thesis
    using assms False
    by (auto simp: all_ranks_min_def request_create_def request_abandon_def request_quarantine_def mark_failed_closed_def
        teardown_ok_def Let_def less_Suc_eq split: if_splits option.splits poll_result.splits)
qed (use assms in \<open>simp add: all_ranks_min_def\<close>)

lemma all_ranks_min_closed:
  assumes "failed_closed st"
  shows "all_ranks_min ans vals st = Some (False, replicate (length vals) 0, st)"
  using assms by (simp add: all_ranks_min_def)

lemma all_ranks_min_failure:
  assumes "all_ranks_min ans vals st = Some (False, res, st1)"
  shows "failed_closed st1"
  using assms
  by (auto simp: all_ranks_min_def request_create_def request_abandon_def request_quarantine_def mark_failed_closed_def Let_def
      split: if_splits option.splits poll_result.splits)

lemma teardown_ok_warnings [simp]: "teardown_ok (st\<lparr>teardown_warnings := w\<rparr>) = teardown_ok st"
  by (simp add: teardown_ok_def)

lemma all_ranks_min_ok_warned:
  "teardown_ok st \<Longrightarrow> all_ranks_min ans vals (st\<lparr>teardown_warnings := w\<rparr>) = Some (ok, res, st1) \<Longrightarrow> teardown_ok st1"
  using all_ranks_min_ok [of "st\<lparr>teardown_warnings := w\<rparr>"] by simp

lemmas teardown_calls_def =
  all_ranks_requested_finalize_def complete_report_release_def complete_post_publication_release_def

lemma teardown_call_ok:
  assumes "teardown_ok st" and "teardown_call op st = Some (ok, st1)"
  shows "teardown_ok st1"
proof (cases op)
  case Op_mark_failed
  then show ?thesis
    using assms by (auto simp: teardown_ok_def mark_failed_closed_def)
qed (use assms in \<open>auto simp: teardown_calls_def Let_def split: prod.splits option.splits dest: all_ranks_min_ok_warned\<close>)

lemma teardown_run_ok: "teardown_ok st \<Longrightarrow> teardown_run ops st = Some (oks, st1) \<Longrightarrow> teardown_ok st1"
  by (induction ops st arbitrary: oks rule: teardown_run.induct)
    (auto split: option.splits dest: teardown_call_ok)

lemma teardown_call_closed:
  assumes "failed_closed st"
  shows "\<exists>w. teardown_call op st = Some (False, st\<lparr>teardown_warnings := w\<rparr>)"
proof (cases op)
  case Op_mark_failed
  then show ?thesis
    using assms by (intro exI [of _ "teardown_warnings st"]) (simp add: mark_failed_closed_def)
qed (use assms in \<open>auto simp: teardown_calls_def Let_def all_ranks_min_closed split: prod.splits\<close>)

lemma teardown_run_closed:
  "failed_closed st \<Longrightarrow> \<exists>w. teardown_run ops st = Some (replicate (length ops) False, st\<lparr>teardown_warnings := w\<rparr>)"
proof (induction ops arbitrary: st)
  case Nil
  then show ?case
    by (intro exI [of _ "teardown_warnings st"]) simp
next
  case (Cons op ops)
  obtain w where w: "teardown_call op st = Some (False, st\<lparr>teardown_warnings := w\<rparr>)"
    using teardown_call_closed [OF Cons.prems] by blast
  obtain w' where "teardown_run ops (st\<lparr>teardown_warnings := w\<rparr>) =
      Some (replicate (length ops) False, st\<lparr>teardown_warnings := w'\<rparr>)"
    using Cons.IH [of "st\<lparr>teardown_warnings := w\<rparr>"] Cons.prems by auto
  then show ?case
    using w by auto
qed

text \<open>(C19) MPI teardown fails closed and keeps its buffers: over any sequence of guarded collectives a request
  MPI may still write to is never freed and sits in the quarantine, of which there is at most one; once a
  collective has failed or timed out, every later call returns failure at once, starts no collective and
  changes neither the quarantine nor the requests.\<close>

theorem teardown_fails_closed:
  assumes "teardown_run ops1 (initial_teardown w) = Some (oks1, st1)"
  shows "in_flight st1 = map request_id (quarantine st1) \<and> length (in_flight st1) \<le> 1 \<and>
    set (in_flight st1) \<inter> set (freed st1) = {} \<and> quarantine_count st1 = length (quarantine st1) \<and>
    (quarantine st1 \<noteq> [] \<longrightarrow> failed_closed st1) \<and>
    (failed_closed st1 \<longrightarrow>
      (\<exists>w'. teardown_run ops2 st1 = Some (replicate (length ops2) False, st1\<lparr>teardown_warnings := w'\<rparr>)))"
proof -
  have "teardown_ok (initial_teardown w)"
    by (simp add: teardown_ok_def initial_teardown_def)
  then have "teardown_ok st1"
    using assms by (rule teardown_run_ok)
  then show ?thesis
    using teardown_run_closed [of st1 ops2] unfolding teardown_ok_def by (metis length_map)
qed

text \<open>\<open>world_min\<close> is what \<^verbatim>\<open>MPI_MIN\<close> over the vectors of all ranks gives.\<close>

definition world_min :: "nat \<Rightarrow> int list list \<Rightarrow> int list" where
  "world_min n world = map (\<lambda>i. Min ((\<lambda>v. v ! i) ` set world)) [0..<n]"

lemma world_min_nonzero:
  assumes "i < n" "v \<in> set world" "\<forall>u \<in> set world. 0 \<le> u ! i"
  shows "world_min n world ! i \<noteq> 0 \<longleftrightarrow> (\<forall>u \<in> set world. u ! i \<noteq> 0)"
proof -
  have "Min ((\<lambda>v. v ! i) ` set world) \<in> (\<lambda>v. v ! i) ` set world"
    using assms(2) by (intro Min_in) auto
  moreover have "Min ((\<lambda>v. v ! i) ` set world) \<le> u ! i" if "u \<in> set world" for u
    using that by (intro Min_le) auto
  ultimately show ?thesis
    using assms(1,3) by (force simp: world_min_def)
qed

text \<open>(C24) The release after the publication of the reports is unanimous: given the reduction MPI documents, a
  completed protocol hands out each of its three flags exactly when every rank set it, and an incomplete
  one hands out none of them and closes the guard. The call returns as soon as a poll fails, completes or
  finds the deadline passed.\<close>

theorem post_publication_release_is_unanimous:
  assumes "iallreduce_ok ans \<longrightarrow> reduced ans = world_min 3 world" and "[req, cmp, allow] \<in> set world"
    and "\<forall>v \<in> set world. \<forall>i<3. 0 \<le> v ! i" and "\<exists>p \<in> set (polls ans). \<not> test_ok p \<or> test_done p \<or> past_deadline p"
  shows "\<exists>ok r c a st1. complete_post_publication_release getenv ans req cmp allow m st = Some (ok, r, c, a, st1) \<and>
    (r \<longleftrightarrow> ok \<and> (\<forall>v \<in> set world. v ! 0 \<noteq> 0)) \<and> (c \<longleftrightarrow> ok \<and> (\<forall>v \<in> set world. v ! 1 \<noteq> 0)) \<and>
    (a \<longleftrightarrow> ok \<and> (\<forall>v \<in> set world. v ! 2 \<noteq> 0)) \<and> (\<not> ok \<longrightarrow> failed_closed st1)"
proof -
  have "poll_loop ps \<noteq> None" if "\<exists>p \<in> set ps. \<not> test_ok p \<or> test_done p \<or> past_deadline p" for ps
    using that by (induction ps) auto
  then have "poll_loop (polls ans) \<noteq> None"
    using assms(4) by blast
  then have "all_ranks_min ans [req, cmp, allow] s \<noteq> None" for s
    by (auto simp: all_ranks_min_def Let_def split: option.splits prod.splits poll_result.splits)
  then obtain w ok res st1 where w: "snd (snd (report_release_timeout_ms getenv m (teardown_warnings st))) = w"
    and m: "all_ranks_min ans [req, cmp, allow] (st\<lparr>teardown_warnings := w\<rparr>) = Some (ok, res, st1)"
    by fastforce
  have res: "res = world_min 3 world" if ok
    using m that assms(1)
    by (auto simp: all_ranks_min_def Let_def world_min_def split: if_splits option.splits prod.splits poll_result.splits)
  have fc: "failed_closed st1" if "\<not> ok"
    using m that all_ranks_min_failure by simp
  have "world_min 3 world ! i \<noteq> 0 \<longleftrightarrow> (\<forall>u \<in> set world. u ! i \<noteq> 0)" if "i < 3" for i
    using that assms(2,3) by (intro world_min_nonzero) auto
  from this [of 0] this [of 1] this [of 2]
  have wm: "world_min 3 world ! 0 \<noteq> 0 \<longleftrightarrow> (\<forall>u \<in> set world. u ! 0 \<noteq> 0)"
    "world_min 3 world ! Suc 0 \<noteq> 0 \<longleftrightarrow> (\<forall>u \<in> set world. u ! Suc 0 \<noteq> 0)"
    "world_min 3 world ! 2 \<noteq> 0 \<longleftrightarrow> (\<forall>u \<in> set world. u ! 2 \<noteq> 0)"
    by simp_all
  have call: "complete_post_publication_release getenv ans req cmp allow m st =
      Some (ok, ok \<and> res ! 0 \<noteq> 0, ok \<and> res ! 1 \<noteq> 0, ok \<and> res ! 2 \<noteq> 0, st1)"
    using w m by (auto simp: complete_post_publication_release_def Let_def split: prod.splits)
  show ?thesis
  proof (cases ok)
    case True
    then have "res = world_min 3 world"
      by (rule res)
    then show ?thesis
      unfolding call using True wm by - (rule exI [of _ True], simp)
  next
    case False
    then show ?thesis
      unfolding call using fc by auto
  qed
qed

definition sample_polls :: "poll list" where
  "sample_polls = [\<lparr>test_ok = True, test_done = False, past_deadline = False\<rparr>,
     \<lparr>test_ok = True, test_done = True, past_deadline = False\<rparr>]"

theorem teardown_fails_closed_witness:
  "\<exists>st1 w'. teardown_run [Op_report_release (\<lambda>_. None)
       \<lparr>calloc_ok = True, iallreduce_ok = False, polls = sample_polls, reduced = []\<rparr> 1 1]
     (initial_teardown \<lparr>emitted = [], messages = []\<rparr>) = Some ([False], st1) \<and> length (quarantine st1) = 1 \<and> failed_closed st1 \<and>
     teardown_run [Op_requested_finalize (\<lambda>_. None)
       \<lparr>calloc_ok = True, iallreduce_ok = True, polls = sample_polls, reduced = [1]\<rparr> 1] st1 =
     Some ([False], st1\<lparr>teardown_warnings := w'\<rparr>)"
proof -
  let ?op = "Op_report_release (\<lambda>_. None) \<lparr>calloc_ok = True, iallreduce_ok = False, polls = sample_polls, reduced = []\<rparr> 1 1"
  let ?st = "initial_teardown \<lparr>emitted = [], messages = []\<rparr>"
  obtain a b w where "report_release_timeout_ms (\<lambda>_. None) 0 \<lparr>emitted = [], messages = []\<rparr> = (a, b, w)"
    using prod_cases3 by blast
  then obtain st1 where r: "teardown_run [?op] ?st = Some ([False], st1)" and q: "length (quarantine st1) = 1" "failed_closed st1"
    by (auto simp: complete_report_release_def all_ranks_min_def request_create_def request_abandon_def request_quarantine_def
        mark_failed_closed_def initial_teardown_def PEAK_MPI_TEARDOWN_MAX_VALUES_def split: prod.splits)
  show ?thesis
    using teardown_fails_closed [OF r, of "[Op_requested_finalize (\<lambda>_. None)
       \<lparr>calloc_ok = True, iallreduce_ok = True, polls = sample_polls, reduced = [1]\<rparr> 1]"] r q by auto
qed

theorem post_publication_release_is_unanimous_witness:
  "\<exists>ok c st1. complete_post_publication_release (\<lambda>_. None)
     \<lparr>calloc_ok = True, iallreduce_ok = True, polls = sample_polls, reduced = [1, 0, 1]\<rparr> 1 1 1 0
     (initial_teardown \<lparr>emitted = [], messages = []\<rparr>) = Some (ok, ok, c, ok, st1) \<and> \<not> c"
proof -
  have p: "\<exists>p \<in> set sample_polls. \<not> test_ok p \<or> test_done p \<or> past_deadline p"
    by (simp add: sample_polls_def)
  have i: "\<forall>v \<in> set [[1, 1, 1], [1, 0, 1 :: int]]. \<forall>i<3. 0 \<le> v ! i"
    by (simp add: nth_Cons' less_Suc_eq numeral_3_eq_3)
  show ?thesis
    using post_publication_release_is_unanimous [of "\<lparr>calloc_ok = True, iallreduce_ok = True, polls = sample_polls, reduced = [1, 0, 1]\<rparr>"
        "[[1, 1, 1], [1, 0, 1]]" 1 1 1 "\<lambda>_. None" 0 "initial_teardown \<lparr>emitted = [], messages = []\<rparr>"] p i
    by (simp add: world_min_def upt_rec numeral_3_eq_3) auto
qed

end
