(* ===== verification/C_Strings.thy ===== *)
theory C_Strings
  imports Runtime_Config
begin

text \<open>
  Strings of the C library: tokens of \<^verbatim>\<open>strtok_r\<close>, the text up to the terminating NUL, the text of integers
  and substrings. A C string is the list of its characters in front of the NUL.
\<close>

text \<open>\<open>tokens d t\<close> are the tokens of \<^verbatim>\<open>strtok_r\<close> with the single delimiter \<open>d\<close>.\<close>

fun split_on :: "char \<Rightarrow> string \<Rightarrow> string list" where
  "split_on d [] = [[]]"
| "split_on d (c # cs) =
     (if c = d then [] # split_on d cs
      else case split_on d cs of [] \<Rightarrow> [[c]] | f # fs \<Rightarrow> (c # f) # fs)"

definition tokens :: "char \<Rightarrow> string \<Rightarrow> string list" where
  "tokens d t = filter (\<lambda>f. f \<noteq> []) (split_on d t)"

definition c_string :: "string \<Rightarrow> string" where
  "c_string = takeWhile (\<lambda>c. c \<noteq> NUL)"

definition NEWLINE :: char where
  "NEWLINE = CHR 0x0A"

text \<open>The text of \<^verbatim>\<open>%d\<close>.\<close>

definition int_text :: "int \<Rightarrow> string" where
  "int_text n = (if n < 0 then CHR ''-'' # decimal (nat (- n)) else decimal (nat n))"

definition strrchr_tail :: "char \<Rightarrow> string \<Rightarrow> string option" where
  "strrchr_tail d t = (if d \<in> set t then Some (rev (takeWhile (\<lambda>c. c \<noteq> d) (rev t))) else None)"

text \<open>\<^verbatim>\<open>strstr(t, pat) != NULL\<close>.\<close>

definition starts_with_at :: "string \<Rightarrow> string \<Rightarrow> bool" where
  "starts_with_at t pat \<longleftrightarrow> take (length pat) t = pat"

fun has_substring :: "string \<Rightarrow> string \<Rightarrow> bool" where
  "has_substring [] pat = (pat = [])"
| "has_substring (c # cs) pat = (starts_with_at (c # cs) pat \<or> has_substring cs pat)"

lemma has_substring_iff: "has_substring t pat \<longleftrightarrow> (\<exists>a b. t = a @ pat @ b)"
proof (induction t)
  case (Cons c cs)
  show ?case
  proof
    assume "has_substring (c # cs) pat"
    then consider "take (length pat) (c # cs) = pat" | "\<exists>a b. cs = a @ pat @ b"
      using Cons by (auto simp: starts_with_at_def)
    then show "\<exists>a b. c # cs = a @ pat @ b"
    proof cases
      case 1
      then have "c # cs = [] @ pat @ drop (length pat) (c # cs)"
        using append_take_drop_id [of "length pat" "c # cs"] by simp
      then show ?thesis
        by blast
    next
      case 2
      then show ?thesis
        by (metis append_Cons)
    qed
  next
    assume "\<exists>a b. c # cs = a @ pat @ b"
    then obtain a b where "c # cs = a @ pat @ b"
      by blast
    then have "starts_with_at (c # cs) pat \<or> (\<exists>a b. cs = a @ pat @ b)"
      by (cases a) (auto simp: starts_with_at_def)
    then show "has_substring (c # cs) pat"
      using Cons by simp
  qed
qed simp

subsection \<open>Tokens\<close>

lemma split_on_line: "d \<notin> set l \<Longrightarrow> split_on d (l @ d # rest) = l # split_on d rest"
  by (induction l) auto

lemma tokens_line: "d \<notin> set l \<Longrightarrow> l \<noteq> [] \<Longrightarrow> tokens d (l @ d # rest) = l # tokens d rest"
  by (simp add: tokens_def split_on_line)

lemma tokens_last: "d \<notin> set l \<Longrightarrow> l \<noteq> [] \<Longrightarrow> tokens d l = [l]"
proof -
  have "d \<notin> set l \<Longrightarrow> split_on d l = [l]" for l
    by (induction l) auto
  then show "d \<notin> set l \<Longrightarrow> l \<noteq> [] \<Longrightarrow> ?thesis"
    by (simp add: tokens_def)
qed

lemma tokens_skip: "tokens d t = tokens d (dropWhile (\<lambda>c. c = d) t)"
  by (induction t) (auto simp: tokens_def)

text \<open>Reading tokens one by one, as the C loops do.\<close>

lemma tokens_step:
  "tokens d t =
     (let rest = dropWhile (\<lambda>c. c = d) t in
      if rest = [] then [] else takeWhile (\<lambda>c. c \<noteq> d) rest # tokens d (drop 1 (dropWhile (\<lambda>c. c \<noteq> d) rest)))"
proof -
  define rest l r where "rest = dropWhile (\<lambda>c. c = d) t" and "l = takeWhile (\<lambda>c. c \<noteq> d) rest"
    and "r = dropWhile (\<lambda>c. c \<noteq> d) rest"
  have split: "rest = l @ r"
    by (simp add: l_def r_def)
  have skip: "tokens d t = tokens d rest"
    unfolding rest_def by (rule tokens_skip)
  have "tokens d rest = (if rest = [] then [] else l # tokens d (drop 1 r))"
  proof (cases "rest = []")
    case False
    then have l: "d \<notin> set l" "l \<noteq> []"
      using hd_dropWhile [of "\<lambda>c. c = d" t] unfolding rest_def [symmetric] l_def
      by (auto dest: set_takeWhileD simp: takeWhile_eq_Nil_iff)
    show ?thesis
    proof (cases r)
      case Nil
      then show ?thesis
        using tokens_last [OF l] split False by (simp add: tokens_def)
    next
      case (Cons e r')
      then have "e = d"
        using hd_dropWhile [of "\<lambda>c. c \<noteq> d" rest] unfolding r_def [symmetric] by simp
      then show ?thesis
        using tokens_line [OF l, of r'] split Cons False by simp
    qed
  qed (simp add: tokens_def)
  then show ?thesis
    using skip by (simp add: Let_def rest_def l_def r_def)
qed

lemma c_string_clean: "NUL \<notin> set t \<Longrightarrow> c_string t = t"
  by (auto simp: c_string_def takeWhile_eq_all_conv)

lemma digits_clean: "list_all c_isdigit ds \<Longrightarrow> NEWLINE \<notin> set ds \<and> NUL \<notin> set ds"
proof -
  have "\<not> c_isdigit NEWLINE" "\<not> c_isdigit NUL"
    by (simp_all add: c_isdigit_def NEWLINE_def NUL_def)
  then show "list_all c_isdigit ds \<Longrightarrow> ?thesis"
    by (auto simp: list_all_iff)
qed

lemma blank_clean [simp]: "NEWLINE \<noteq> CHR '' ''" "NUL \<noteq> CHR '' ''" "NUL \<noteq> NEWLINE"
  by (simp_all add: NEWLINE_def NUL_def)

subsection \<open>Numbers followed by a blank\<close>

lemma digits_then_blank:
  assumes "list_all c_isdigit ds"
  shows "takeWhile c_isdigit (ds @ '' '' @ r) = ds" "dropWhile c_isdigit (ds @ '' '' @ r) = '' '' @ r"
  using assms by (induction ds) (auto simp: c_isdigit_def)

lemma digits_start:
  assumes "list_all c_isdigit ds" "ds \<noteq> []"
  shows "dropWhile c_isspace (ds @ r) = ds @ r" "strip_sign (ds @ r) = (False, ds @ r)"
  using assms c_isdigit_not_space [of "hd ds"] by (cases ds; auto simp: strip_sign_def)+

lemma strtol_decimal:
  assumes "int n \<le> int INT_MAX"
  shows "strtol (decimal n @ '' '' @ r) = (int n, '' '' @ r, False)"
proof -
  have "int n \<le> 2 ^ 63 - 1" "\<not> int n < - (2 ^ 63)"
    using assms by (simp_all add: INT_MAX_def)
  then show ?thesis
    using digits_start [of "decimal n" "'' '' @ r"] digits_then_blank [of "decimal n" r] decimal_digits [of n]
    by (simp add: strtol_def)
qed

end
