(* ===== verification/Parent_Registry.thy ===== *)
theory Parent_Registry
  imports Runtime_Config C_Strings
begin

text \<open>
  The registry of profiled processes, \<^verbatim>\<open>src/utils/parent_registry.c\<close>: a file in a private runtime directory
  that lists the process ids and start times of the processes that run under the profiler, by which a
  process finds out whether its parent is one of them. The file is replaced through a temporary file and
  a backup link.

  The runtime directory is a map from names to inodes, and the inodes carry their attributes and link
  counts. The answer of the \<open>k\<close>-th system call is \<open>ans k\<close>: \<open>0\<close> is a failure with an error other than
  \<^verbatim>\<open>ENOENT\<close> and \<^verbatim>\<open>EEXIST\<close>; for reads and writes the answer is the number of bytes transferred at most. The
  ghost component \<open>history\<close> lists the directory after every change, which are the states a crash of the
  process can leave behind. \<open>create_mode\<close> is the mode \<^verbatim>\<open>0600\<close> under the process's umask. The faults that
  tests inject are not modelled.
\<close>

datatype errno = ENOENT | ESRCH | EEXIST | EPERM | EINVAL | EFBIG | EOTHER

record inode =
  contents :: string
  i_regular :: bool
  i_directory :: bool
  i_uid :: nat
  i_mode :: nat
  i_nlink :: nat

record rdir =
  names :: "string \<Rightarrow> nat option"
  inodes :: "nat \<Rightarrow> inode"
  next_ino :: nat

record os =
  euid :: nat
  create_mode :: nat
  dir :: rdir
  calls :: nat
  history :: "rdir list"

type_synonym answers = "nat \<Rightarrow> nat"

definition next_answer :: "answers \<Rightarrow> os \<Rightarrow> nat \<times> os" where
  "next_answer ans s = (ans (calls s), s\<lparr>calls := calls s + 1\<rparr>)"

definition change_dir :: "(rdir \<Rightarrow> rdir) \<Rightarrow> os \<Rightarrow> os" where
  "change_dir f s = s\<lparr>dir := f (dir s), history := history s @ [f (dir s)]\<rparr>"

definition set_inode :: "nat \<Rightarrow> (inode \<Rightarrow> inode) \<Rightarrow> rdir \<Rightarrow> rdir" where
  "set_inode i f d = d\<lparr>inodes := (inodes d)(i := f (inodes d i))\<rparr>"

definition drop_link :: "nat \<Rightarrow> rdir \<Rightarrow> rdir" where
  "drop_link i = set_inode i (\<lambda>n. n\<lparr>i_nlink := i_nlink n - 1\<rparr>)"

subsection \<open>System calls\<close>

definition dir_unlink :: "string \<Rightarrow> nat \<Rightarrow> rdir \<Rightarrow> rdir" where
  "dir_unlink name i d = drop_link i (d\<lparr>names := (names d)(name := None)\<rparr>)"

definition unlinkat :: "answers \<Rightarrow> bool \<Rightarrow> string \<Rightarrow> os \<Rightarrow> errno option \<times> os" where
  "unlinkat ans removedir name s =
     (let (a, s1) = next_answer ans s in
      if a = 0 then (Some EOTHER, s1)
      else case names (dir s1) name of
        None \<Rightarrow> (Some ENOENT, s1)
      | Some i \<Rightarrow>
          if i_directory (inodes (dir s1) i) \<noteq> removedir then (Some EOTHER, s1)
          else (None, change_dir (dir_unlink name i) s1))"

definition dir_link :: "string \<Rightarrow> nat \<Rightarrow> rdir \<Rightarrow> rdir" where
  "dir_link name i d = set_inode i (\<lambda>n. n\<lparr>i_nlink := i_nlink n + 1\<rparr>) (d\<lparr>names := (names d)(name \<mapsto> i)\<rparr>)"

definition linkat :: "answers \<Rightarrow> string \<Rightarrow> string \<Rightarrow> os \<Rightarrow> errno option \<times> os" where
  "linkat ans old new s =
     (let (a, s1) = next_answer ans s in
      if a = 0 then (Some EOTHER, s1)
      else case (names (dir s1) old, names (dir s1) new) of
        (None, _) \<Rightarrow> (Some ENOENT, s1)
      | (Some i, Some j) \<Rightarrow> (Some EEXIST, s1)
      | (Some i, None) \<Rightarrow>
          if i_directory (inodes (dir s1) i) then (Some EOTHER, s1) else (None, change_dir (dir_link new i) s1))"

definition dir_rename :: "string \<Rightarrow> string \<Rightarrow> nat \<Rightarrow> rdir \<Rightarrow> rdir" where
  "dir_rename old new i d =
     (let d1 = (case names d new of None \<Rightarrow> d | Some j \<Rightarrow> drop_link j d)
      in d1\<lparr>names := (names d1)(new \<mapsto> i, old := None)\<rparr>)"

definition renameat :: "answers \<Rightarrow> string \<Rightarrow> string \<Rightarrow> os \<Rightarrow> errno option \<times> os" where
  "renameat ans old new s =
     (let (a, s1) = next_answer ans s in
      if a = 0 then (Some EOTHER, s1)
      else case names (dir s1) old of
        None \<Rightarrow> (Some ENOENT, s1)
      | Some i \<Rightarrow>
          if names (dir s1) new = Some i then (None, s1)
          else if (case names (dir s1) new of
                     None \<Rightarrow> False
                   | Some j \<Rightarrow> i_directory (inodes (dir s1) j) \<noteq> i_directory (inodes (dir s1) i))
            then (Some EOTHER, s1)
          else (None, change_dir (dir_rename old new i) s1))"

text \<open>A plain call that changes nothing in the model: \<^verbatim>\<open>fsync\<close>, \<^verbatim>\<open>close\<close>, \<^verbatim>\<open>fstat\<close>, \<^verbatim>\<open>flock\<close>.\<close>

definition plain_call :: "answers \<Rightarrow> os \<Rightarrow> bool \<times> os" where
  "plain_call ans s = (let (a, s1) = next_answer ans s in (a \<noteq> 0, s1))"

definition PRIVATE_MODE :: nat where
  "PRIVATE_MODE = 6 * 64"

definition dir_create :: "nat \<Rightarrow> nat \<Rightarrow> string \<Rightarrow> rdir \<Rightarrow> rdir" where
  "dir_create uid mode name d =
     d\<lparr>names := (names d)(name \<mapsto> next_ino d), next_ino := next_ino d + 1,
       inodes := (inodes d)(next_ino d := \<lparr>contents = [], i_regular = True, i_directory = False, i_uid = uid,
                                           i_mode = mode, i_nlink = 1\<rparr>)\<rparr>"

text \<open>\<^verbatim>\<open>openat\<close> with \<^verbatim>\<open>O_CREAT | O_EXCL\<close>: the inode of the new file or the error.\<close>

definition create_excl :: "answers \<Rightarrow> string \<Rightarrow> os \<Rightarrow> (errno + nat) \<times> os" where
  "create_excl ans name s =
     (let (a, s1) = next_answer ans s in
      if a = 0 then (Inl EOTHER, s1)
      else if names (dir s1) name \<noteq> None then (Inl EEXIST, s1)
      else (Inr (next_ino (dir s1)), change_dir (dir_create (euid s1) (create_mode s1) name) s1))"

definition fchmod_private :: "answers \<Rightarrow> nat \<Rightarrow> os \<Rightarrow> bool \<times> os" where
  "fchmod_private ans i s =
     (let (a, s1) = next_answer ans s in
      if a = 0 then (False, s1)
      else (True, change_dir (set_inode i (\<lambda>n. n\<lparr>i_mode := PRIVATE_MODE\<rparr>)) s1))"

subsection \<open>Opening the private files\<close>

text \<open>The owner, mode and link count a private file must have.\<close>

definition secure_inode :: "nat \<Rightarrow> inode \<Rightarrow> bool" where
  "secure_inode uid n \<longleftrightarrow> i_regular n \<and> i_uid n = uid \<and> i_mode n mod 512 = PRIVATE_MODE"

definition secure_open_existing :: "answers \<Rightarrow> string \<Rightarrow> os \<Rightarrow> (errno + nat) \<times> os" where
  "secure_open_existing ans name s =
     (let (a, s1) = next_answer ans s in
      if a = 0 then (Inl EOTHER, s1)
      else case names (dir s1) name of None \<Rightarrow> (Inl ENOENT, s1) | Some i \<Rightarrow> (Inr i, s1))"

definition secure_check :: "answers \<Rightarrow> nat \<Rightarrow> os \<Rightarrow> (errno + nat) \<times> os" where
  "secure_check ans i s =
     (case plain_call ans s of
        (False, s1) \<Rightarrow> (Inl EOTHER, s1)
      | (True, s1) \<Rightarrow>
          if \<not> secure_inode (euid s1) (inodes (dir s1) i) \<or> i_nlink (inodes (dir s1) i) \<noteq> 1 then (Inl EPERM, s1)
          else (Inr i, s1))"

definition secure_open_regular_at :: "answers \<Rightarrow> string \<Rightarrow> bool \<Rightarrow> os \<Rightarrow> (errno + nat) \<times> os" where
  "secure_open_regular_at ans name create s =
     (let (created, s1) = (if create then create_excl ans name s else (Inl EEXIST, s)) in
      case created of
        Inr i \<Rightarrow>
          (case fchmod_private ans i s1 of
             (False, s2) \<Rightarrow> (Inl EOTHER, s2)
           | (True, s2) \<Rightarrow> secure_check ans i s2)
      | Inl e \<Rightarrow>
          if e \<noteq> EEXIST then (Inl e, s1)
          else (case secure_open_existing ans name s1 of
                  (Inl e', s2) \<Rightarrow> (Inl e', s2)
                | (Inr i, s2) \<Rightarrow> secure_check ans i s2))"

subsection \<open>The start time of a process\<close>

record PeakParentEntry =
  entry_pid :: int
  entry_starttime :: nat

text \<open>The 22nd field of \<^verbatim>\<open>/proc/<pid>/stat\<close>, counted behind the last closing parenthesis of the command name.\<close>

definition parse_starttime :: "string \<Rightarrow> nat option" where
  "parse_starttime stat_line =
     (let line = c_string stat_line in
      if CHR '')'' \<notin> set line then None
      else
        let fields = rev (takeWhile (\<lambda>c. c \<noteq> CHR '')'') (rev line)); toks = tokens (CHR '' '') fields in
        if length toks < 20 then None
        else case strtoull (toks ! 19) of
          (v, rest, erange) \<Rightarrow>
            if erange \<or> rest = toks ! 19 \<or> (rest \<noteq> [] \<and> hd rest \<noteq> NEWLINE) then None else Some v)"

text \<open>\<open>proc pid\<close> is what opening and reading the stat file gives.\<close>

definition read_process_starttime :: "(int \<Rightarrow> errno + string) \<Rightarrow> int \<Rightarrow> errno + nat" where
  "read_process_starttime proc pid =
     (case proc pid of
        Inl e \<Rightarrow> Inl e
      | Inr line \<Rightarrow>
          if line = [] \<or> length line \<ge> 4095 then Inl EINVAL
          else case parse_starttime line of None \<Rightarrow> Inl EINVAL | Some v \<Rightarrow> Inr v)"

subsection \<open>The entries of the registry\<close>

definition parse_registry_entry :: "string \<Rightarrow> PeakParentEntry option" where
  "parse_registry_entry line =
     (case strtol line of
        (pid, rest1, _) \<Rightarrow>
          if rest1 = line then None
          else case strtoull rest1 of
            (st, rest2, _) \<Rightarrow>
              if rest2 = rest1 \<or> dropWhile c_isspace rest2 \<noteq> [] \<or> pid \<le> 0 \<or> pid > int INT_MAX then None
              else Some \<lparr>entry_pid = pid, entry_starttime = st\<rparr>)"

text \<open>\<open>alloc n\<close> tells whether \<^verbatim>\<open>realloc\<close> to \<open>n\<close> entries of 16 bytes succeeds.\<close>

definition append_entry ::
  "(nat \<Rightarrow> bool) \<Rightarrow> PeakParentEntry \<Rightarrow> PeakParentEntry list \<times> nat \<Rightarrow> (PeakParentEntry list \<times> nat) option" where
  "append_entry alloc e acc =
     (case acc of (entries, capacity) \<Rightarrow>
        if e \<in> set entries then Some (entries, capacity)
        else if length entries = capacity then
          let new_capacity = (if capacity = 0 then 16 else capacity * 2) in
          if new_capacity > SIZE_MAX div 16 \<or> \<not> alloc new_capacity then None
          else Some (entries @ [e], new_capacity)
        else Some (entries @ [e], capacity))"

fun collect_lines ::
  "(nat \<Rightarrow> bool) \<Rightarrow> (int \<Rightarrow> errno + string) \<Rightarrow> PeakParentEntry \<Rightarrow> PeakParentEntry \<Rightarrow> string list \<Rightarrow>
   PeakParentEntry list \<times> nat \<Rightarrow> bool \<Rightarrow> ((PeakParentEntry list \<times> nat) \<times> bool) option" where
  "collect_lines alloc proc me parent [] acc found = Some (acc, found)"
| "collect_lines alloc proc me parent (line # lines) acc found =
     (case parse_registry_entry line of
        None \<Rightarrow> collect_lines alloc proc me parent lines acc found
      | Some entry \<Rightarrow>
          (case read_process_starttime proc (entry_pid entry) of
             Inl e \<Rightarrow>
               if e = ENOENT \<or> e = ESRCH then collect_lines alloc proc me parent lines acc found else None
           | Inr current \<Rightarrow>
               if current \<noteq> entry_starttime entry then collect_lines alloc proc me parent lines acc found
               else
                 let found = (found \<or> entry = parent) in
                 if entry = me then collect_lines alloc proc me parent lines acc found
                 else case append_entry alloc entry acc of
                   None \<Rightarrow> None
                 | Some acc \<Rightarrow> collect_lines alloc proc me parent lines acc found))"

definition collect_live_entries ::
  "(nat \<Rightarrow> bool) \<Rightarrow> (int \<Rightarrow> errno + string) \<Rightarrow> string \<Rightarrow> PeakParentEntry \<Rightarrow> PeakParentEntry \<Rightarrow>
   (PeakParentEntry list \<times> bool) option" where
  "collect_live_entries alloc proc snapshot me parent =
     (case collect_lines alloc proc me parent (tokens NEWLINE (c_string snapshot)) ([], 0) False of
        None \<Rightarrow> None
      | Some (acc, found) \<Rightarrow>
          (case append_entry alloc me acc of None \<Rightarrow> None | Some (entries, _) \<Rightarrow> Some (entries, found)))"

subsection \<open>Reading the snapshot\<close>

definition DATA_NAME :: string where
  "DATA_NAME = ''parent-registry.data''"

definition BACKUP_NAME :: string where
  "BACKUP_NAME = ''.parent-registry.backup''"

definition LOCK_NAME :: string where
  "LOCK_NAME = ''parent-registry.lock''"

definition PEAK_PARENT_MAX_SNAPSHOT :: nat where
  "PEAK_PARENT_MAX_SNAPSHOT = 1024 * 1024"

text \<open>The read loop over the rest of the file: the bytes read, or \<open>None\<close> after an error.\<close>

function read_loop :: "answers \<Rightarrow> string \<Rightarrow> string \<Rightarrow> os \<Rightarrow> (string \<times> string) option \<times> os" where
  "read_loop ans used rest s =
     (if length used \<ge> PEAK_PARENT_MAX_SNAPSHOT then (Some (used, rest), s)
      else let (a, s1) = next_answer ans s in
        if a = 0 then (None, s1)
        else if rest = [] then (Some (used, rest), s1)
        else let n = min a (PEAK_PARENT_MAX_SNAPSHOT - length used)
             in read_loop ans (used @ take n rest) (drop n rest) s1)"
  by pat_completeness auto

termination
  by (relation "measure (\<lambda>(ans, used, rest, s). length rest)") (auto simp: next_answer_def)

declare read_loop.simps [simp del]

text \<open>The contents, with whether the file existed; \<open>malloc_ok\<close> is the answer of the allocator.\<close>

definition read_snapshot :: "answers \<Rightarrow> bool \<Rightarrow> os \<Rightarrow> (string \<times> bool) option \<times> os" where
  "read_snapshot ans malloc_ok s =
     (case secure_open_regular_at ans DATA_NAME False s of
        (Inl e, s1) \<Rightarrow> (if e = ENOENT then Some ([], False) else None, s1)
      | (Inr i, s1) \<Rightarrow>
          if \<not> malloc_ok then (None, s1)
          else (case read_loop ans [] (contents (inodes (dir s1) i)) s1 of
                  (None, s2) \<Rightarrow> (None, s2)
                | (Some (used, rest), s2) \<Rightarrow>
                    let (extra, s3) = plain_call ans s2; (closed, s4) = plain_call ans s3 in
                    (if \<not> extra \<or> rest \<noteq> [] \<or> \<not> closed then None else Some (used, True), s4)))"

subsection \<open>Recovery after a crash\<close>

definition fsync_dir :: "answers \<Rightarrow> os \<Rightarrow> bool \<times> os" where
  "fsync_dir = plain_call"

definition remove_unexpected_backup :: "answers \<Rightarrow> inode \<Rightarrow> os \<Rightarrow> bool \<times> os" where
  "remove_unexpected_backup ans backup_st s =
     (case unlinkat ans (i_directory backup_st) BACKUP_NAME s of
        (Some e, s1) \<Rightarrow> (False, s1)
      | (None, s1) \<Rightarrow> fsync_dir ans s1)"

text \<open>\<^verbatim>\<open>fstatat\<close>: the inode number, or the error.\<close>

definition fstatat :: "answers \<Rightarrow> string \<Rightarrow> os \<Rightarrow> (errno + nat) \<times> os" where
  "fstatat ans name s =
     (let (a, s1) = next_answer ans s in
      if a = 0 then (Inl EOTHER, s1)
      else case names (dir s1) name of None \<Rightarrow> (Inl ENOENT, s1) | Some i \<Rightarrow> (Inr i, s1))"

definition legitimate_pre_rename :: "nat \<Rightarrow> rdir \<Rightarrow> nat \<Rightarrow> nat \<Rightarrow> bool" where
  "legitimate_pre_rename uid d b i \<longleftrightarrow>
     secure_inode uid (inodes d b) \<and> secure_inode uid (inodes d i) \<and> b = i \<and>
     i_nlink (inodes d b) = 2 \<and> i_nlink (inodes d i) = 2"

definition legitimate_post_rename :: "nat \<Rightarrow> rdir \<Rightarrow> nat \<Rightarrow> nat \<Rightarrow> bool" where
  "legitimate_post_rename uid d b i \<longleftrightarrow>
     secure_inode uid (inodes d b) \<and> secure_inode uid (inodes d i) \<and> b \<noteq> i \<and>
     i_nlink (inodes d b) = 1 \<and> i_nlink (inodes d i) = 1"

definition recover_snapshot_backup :: "answers \<Rightarrow> os \<Rightarrow> bool \<times> os" where
  "recover_snapshot_backup ans s =
     (case fstatat ans BACKUP_NAME s of
        (Inl e, s1) \<Rightarrow> (e = ENOENT, s1)
      | (Inr b, s1) \<Rightarrow>
          (case fstatat ans DATA_NAME s1 of
             (Inl e, s2) \<Rightarrow>
               if e \<noteq> ENOENT then (False, s2) else remove_unexpected_backup ans (inodes (dir s2) b) s2
           | (Inr i, s2) \<Rightarrow>
               if legitimate_pre_rename (euid s2) (dir s2) b i \<or> legitimate_post_rename (euid s2) (dir s2) b i
               then (case unlinkat ans False BACKUP_NAME s2 of
                       (Some e, s3) \<Rightarrow> (False, s3)
                     | (None, s3) \<Rightarrow> fsync_dir ans s3)
               else remove_unexpected_backup ans (inodes (dir s2) b) s2))"

subsection \<open>Installing a snapshot\<close>

function write_all :: "answers \<Rightarrow> nat \<Rightarrow> string \<Rightarrow> os \<Rightarrow> bool \<times> os" where
  "write_all ans i data s =
     (if data = [] then (True, s)
      else let (a, s1) = next_answer ans s in
        if a = 0 then (False, s1)
        else write_all ans i (drop a data)
               (change_dir (set_inode i (\<lambda>n. n\<lparr>contents := contents n @ take a data\<rparr>)) s1))"
  by pat_completeness auto

termination
  by (relation "measure (\<lambda>(ans, i, data, s). length data)") (auto simp: next_answer_def)

declare write_all.simps [simp del]

definition entry_text :: "PeakParentEntry \<Rightarrow> string" where
  "entry_text e = int_text (entry_pid e) @ '' '' @ decimal (entry_starttime e) @ [NEWLINE]"

fun write_entries :: "answers \<Rightarrow> nat \<Rightarrow> PeakParentEntry list \<Rightarrow> os \<Rightarrow> bool \<times> os" where
  "write_entries ans i [] s = (True, s)"
| "write_entries ans i (e # es) s =
     (if length (entry_text e) \<ge> 96 then (False, s)
      else case write_all ans i (entry_text e) s of
        (False, s1) \<Rightarrow> (False, s1)
      | (True, s1) \<Rightarrow> write_entries ans i es s1)"

definition temp_name :: "int \<Rightarrow> int \<Rightarrow> nat \<Rightarrow> string" where
  "temp_name pid tid attempt =
     ''.parent-registry.tmp.'' @ int_text pid @ ''.'' @ int_text tid @ ''.'' @ decimal attempt"

text \<open>The attempts to create a temporary file, over the attempt numbers left.\<close>

fun open_temp :: "answers \<Rightarrow> int \<Rightarrow> int \<Rightarrow> nat list \<Rightarrow> os \<Rightarrow> (string \<times> nat) option \<times> os" where
  "open_temp ans pid tid [] s = (None, s)"
| "open_temp ans pid tid (k # ks) s =
     (if length (temp_name pid tid k) \<ge> 128 then (None, s)
      else case create_excl ans (temp_name pid tid k) s of
        (Inr i, s1) \<Rightarrow> (Some (temp_name pid tid k, i), s1)
      | (Inl e, s1) \<Rightarrow> if e = EEXIST then open_temp ans pid tid ks s1 else (None, s1))"

text \<open>The exit \<^verbatim>\<open>fail_temp\<close>: the file is closed if it is open, and removed. Both results are ignored.\<close>

definition fail_temp :: "answers \<Rightarrow> bool \<Rightarrow> string \<Rightarrow> os \<Rightarrow> os" where
  "fail_temp ans is_open temp s =
     snd (unlinkat ans False temp (if is_open then snd (plain_call ans s) else s))"

text \<open>The temporary file with everything written, synchronised and closed; \<open>None\<close> is a failure.\<close>

definition write_temp ::
  "answers \<Rightarrow> int \<Rightarrow> int \<Rightarrow> PeakParentEntry list \<Rightarrow> os \<Rightarrow> string option \<times> os" where
  "write_temp ans pid tid entries s =
     (case open_temp ans pid tid [0..<128] s of
        (None, s1) \<Rightarrow> (None, s1)
      | (Some (temp, i), s1) \<Rightarrow>
          (case fchmod_private ans i s1 of
             (False, s2) \<Rightarrow> (None, fail_temp ans True temp s2)
           | (True, s2) \<Rightarrow>
               (case write_entries ans i entries s2 of
                  (False, s3) \<Rightarrow> (None, fail_temp ans True temp s3)
                | (True, s3) \<Rightarrow>
                    (case plain_call ans s3 of
                       (False, s4) \<Rightarrow> (None, fail_temp ans True temp s4)
                     | (True, s4) \<Rightarrow>
                         (case plain_call ans s4 of
                            (False, s5) \<Rightarrow> (None, fail_temp ans False temp s5)
                          | (True, s5) \<Rightarrow> (Some temp, s5))))))"

definition rollback_snapshot :: "answers \<Rightarrow> bool \<Rightarrow> os \<Rightarrow> bool \<times> os" where
  "rollback_snapshot ans had_snapshot s =
     (if had_snapshot then
        (case renameat ans BACKUP_NAME DATA_NAME s of
           (Some e, s1) \<Rightarrow> (False, s1)
         | (None, s1) \<Rightarrow> fsync_dir ans s1)
      else
        (case unlinkat ans False DATA_NAME s of
           (Some e, s1) \<Rightarrow> if e \<noteq> ENOENT then (False, s1) else fsync_dir ans s1
         | (None, s1) \<Rightarrow> fsync_dir ans s1))"

text \<open>The replacement of the data file by the temporary one.\<close>

definition publish_temp :: "answers \<Rightarrow> bool \<Rightarrow> string \<Rightarrow> os \<Rightarrow> bool \<times> os" where
  "publish_temp ans had_snapshot temp s =
     (let s1 = snd (unlinkat ans False BACKUP_NAME s);
          (linked, s2) = (if had_snapshot then linkat ans DATA_NAME BACKUP_NAME s1 else (None, s1))
      in case linked of
           Some e \<Rightarrow> (False, fail_temp ans False temp s2)
         | None \<Rightarrow>
             (case renameat ans temp DATA_NAME s2 of
                (Some e, s3) \<Rightarrow>
                  (False, fail_temp ans False temp (if had_snapshot then snd (unlinkat ans False BACKUP_NAME s3) else s3))
              | (None, s3) \<Rightarrow>
                  (case fsync_dir ans s3 of
                     (False, s4) \<Rightarrow> (False, snd (rollback_snapshot ans had_snapshot s4))
                   | (True, s4) \<Rightarrow>
                       (True, if had_snapshot then snd (unlinkat ans False BACKUP_NAME s4) else s4))))"

definition install_snapshot ::
  "answers \<Rightarrow> int \<Rightarrow> int \<Rightarrow> PeakParentEntry list \<Rightarrow> bool \<Rightarrow> os \<Rightarrow> bool \<times> os" where
  "install_snapshot ans pid tid entries had_snapshot s =
     (case write_temp ans pid tid entries s of
        (None, s1) \<Rightarrow> (False, s1)
      | (Some temp, s1) \<Rightarrow> publish_temp ans had_snapshot temp s1)"

subsection \<open>The runtime directory\<close>

record dir_stat =
  ds_directory :: bool
  ds_uid :: nat
  ds_mode :: nat

definition PRIVATE_DIR_MODE :: nat where
  "PRIVATE_DIR_MODE = 7 * 64"

text \<open>\<open>None\<close> is a failed \<^verbatim>\<open>fstat\<close>.\<close>

definition validate_directory_fd :: "dir_stat option \<Rightarrow> nat \<Rightarrow> nat \<Rightarrow> bool" where
  "validate_directory_fd st uid mode =
     (case st of None \<Rightarrow> False | Some d \<Rightarrow> ds_directory d \<and> ds_uid d = uid \<and> ds_mode d mod 512 = mode)"

text \<open>What the calls on a subdirectory give: the error of \<^verbatim>\<open>mkdirat\<close>, whether it can be opened and its mode changed,
  and its attributes.\<close>

record subdirectory =
  mkdir_error :: "errno option"
  open_ok :: bool
  fchmod_ok :: bool
  sub_stat :: "dir_stat option"

definition open_private_subdirectory :: "subdirectory \<Rightarrow> nat \<Rightarrow> bool" where
  "open_private_subdirectory d uid =
     (let created = (mkdir_error d = None) in
      if \<not> created \<and> mkdir_error d \<noteq> Some EEXIST then False
      else if \<not> open_ok d then False
      else if created \<and> \<not> fchmod_ok d then False
      else validate_directory_fd (sub_stat d) uid PRIVATE_DIR_MODE)"

datatype runtime_directory = Xdg_peak | Tmp_peak

text \<open>\<open>xdg_stat\<close> are the attributes of the directory named by \<^verbatim>\<open>XDG_RUNTIME_DIR\<close>, \<open>None\<close> if it cannot be opened;
  \<open>tmp_opens\<close> tells whether the temporary directory can be opened.\<close>

definition open_parent_runtime_directory ::
  "environment \<Rightarrow> nat \<Rightarrow> dir_stat option option \<Rightarrow> subdirectory \<Rightarrow> bool \<Rightarrow> subdirectory \<Rightarrow> runtime_directory option" where
  "open_parent_runtime_directory getenv uid xdg_stat xdg_sub tmp_opens tmp_sub =
     (if (case getenv ''XDG_RUNTIME_DIR'' of Some (c # _) \<Rightarrow> c = CHR ''/'' | _ \<Rightarrow> False) \<and>
         (case xdg_stat of None \<Rightarrow> False | Some st \<Rightarrow> validate_directory_fd st uid PRIVATE_DIR_MODE) \<and>
         open_private_subdirectory xdg_sub uid
      then Some Xdg_peak
      else if \<not> tmp_opens then None
      else if length (''peak-'' @ decimal uid) \<ge> 64 then None
      else if open_private_subdirectory tmp_sub uid then Some Tmp_peak else None)"

subsection \<open>The check\<close>

record process =
  my_pid :: int
  my_tid :: int
  parent_pid :: int

record memory =
  snapshot_malloc :: bool
  empty_strdup :: bool
  entries_realloc :: "nat \<Rightarrow> bool"

text \<open>The result is \<open>- 1\<close> on failure, otherwise whether the parent is registered.\<close>

definition check_locked ::
  "answers \<Rightarrow> memory \<Rightarrow> (int \<Rightarrow> errno + string) \<Rightarrow> process \<Rightarrow> os \<Rightarrow> int \<times> os" where
  "check_locked ans mem proc me s =
     (case recover_snapshot_backup ans s of
        (False, s1) \<Rightarrow> (- 1, s1)
      | (True, s1) \<Rightarrow>
          (case read_snapshot ans (snapshot_malloc mem) s1 of
             (None, s2) \<Rightarrow> (- 1, s2)
           | (Some (snapshot, had_snapshot), s2) \<Rightarrow>
               if \<not> had_snapshot \<and> \<not> empty_strdup mem then (- 1, s2)
               else case (read_process_starttime proc (my_pid me), read_process_starttime proc (parent_pid me)) of
                 (Inr my_starttime, Inr parent_starttime) \<Rightarrow>
                   (case collect_live_entries (entries_realloc mem) proc snapshot
                           \<lparr>entry_pid = my_pid me, entry_starttime = my_starttime\<rparr>
                           \<lparr>entry_pid = parent_pid me, entry_starttime = parent_starttime\<rparr> of
                      None \<Rightarrow> (- 1, s2)
                    | Some (entries, found_parent) \<Rightarrow>
                        (case install_snapshot ans (my_pid me) (my_tid me) entries had_snapshot s2 of
                           (True, s3) \<Rightarrow> (if found_parent then 1 else 0, s3)
                         | (False, s3) \<Rightarrow> (- 1, s3)))
               | _ \<Rightarrow> (- 1, s2)))"

definition check_parent_process ::
  "answers \<Rightarrow> memory \<Rightarrow> (int \<Rightarrow> errno + string) \<Rightarrow> process \<Rightarrow> runtime_directory option \<Rightarrow> os \<Rightarrow> int \<times> os" where
  "check_parent_process ans mem proc me directory s =
     (if directory = None then (- 1, s)
      else case secure_open_regular_at ans LOCK_NAME True s of
        (Inl e, s1) \<Rightarrow> (- 1, s1)
      | (Inr lock, s1) \<Rightarrow>
          (case plain_call ans s1 of
             (False, s2) \<Rightarrow> (- 1, s2)
           | (True, s2) \<Rightarrow>
               (case check_locked ans mem proc me s2 of
                  (res, s3) \<Rightarrow> (res, snd (plain_call ans s3)))))"

end
