(* ===== verification/Parent_Recovery.thy ===== *)
theory Parent_Recovery
  imports Parent_Registry
begin

text \<open>
  Crash consistency and functional correctness of the parent registry: whatever system call fails and
  wherever the process dies, the data file holds the old or the new snapshot, and recovery makes it
  readable again; the entries kept are the live ones.
\<close>

subsection \<open>Effects of the system calls\<close>

text \<open>\<open>unchanged\<close>: only the count of calls differs; \<open>changed f\<close>: the directory was changed by \<open>f\<close>.\<close>

definition unchanged :: "os \<Rightarrow> os \<Rightarrow> bool" where
  "unchanged s s' \<longleftrightarrow> dir s' = dir s \<and> history s' = history s \<and> euid s' = euid s \<and> create_mode s' = create_mode s"

definition changed :: "(rdir \<Rightarrow> rdir) \<Rightarrow> os \<Rightarrow> os \<Rightarrow> bool" where
  "changed f s s' \<longleftrightarrow> dir s' = f (dir s) \<and> history s' = history s @ [f (dir s)] \<and> euid s' = euid s \<and>
     create_mode s' = create_mode s"

lemma plain_call_effect: "plain_call ans s = (r, s') \<Longrightarrow> unchanged s s'"
  by (auto simp: plain_call_def next_answer_def unchanged_def Let_def)

lemma unlinkat_effect:
  assumes "unlinkat ans r n s = (e, s')"
  shows "(e \<noteq> None \<and> unchanged s s') \<or> (\<exists>i. e = None \<and> names (dir s) n = Some i \<and> changed (dir_unlink n i) s s')"
  using assms
  by (auto simp: unlinkat_def next_answer_def unchanged_def changed_def change_dir_def Let_def split: option.splits if_splits)

lemma linkat_effect:
  assumes "linkat ans a b s = (e, s')"
  shows "(e \<noteq> None \<and> unchanged s s') \<or>
    (\<exists>i. e = None \<and> names (dir s) a = Some i \<and> names (dir s) b = None \<and> changed (dir_link b i) s s')"
  using assms
  by (auto simp: linkat_def next_answer_def unchanged_def changed_def change_dir_def Let_def split: option.splits if_splits)

lemma renameat_effect:
  assumes "renameat ans a b s = (e, s')" and "names (dir s) b \<noteq> names (dir s) a"
  shows "(e \<noteq> None \<and> unchanged s s') \<or>
    (\<exists>i. e = None \<and> names (dir s) a = Some i \<and> changed (dir_rename a b i) s s')"
  using assms
  by (auto simp: renameat_def next_answer_def unchanged_def changed_def change_dir_def Let_def split: option.splits if_splits)

lemma create_excl_effect:
  assumes "create_excl ans n s = (r, s')"
  shows "(\<exists>e. r = Inl e \<and> unchanged s s') \<or>
    (r = Inr (next_ino (dir s)) \<and> names (dir s) n = None \<and> changed (dir_create (euid s) (create_mode s) n) s s')"
  using assms
  by (auto simp: create_excl_def next_answer_def unchanged_def changed_def change_dir_def Let_def split: if_splits)

lemma fchmod_effect:
  assumes "fchmod_private ans i s = (r, s')"
  shows "(\<not> r \<and> unchanged s s') \<or> (r \<and> changed (set_inode i (\<lambda>n. n\<lparr>i_mode := PRIVATE_MODE\<rparr>)) s s')"
  using assms
  by (auto simp: fchmod_private_def next_answer_def unchanged_def changed_def change_dir_def Let_def split: if_splits)

subsection \<open>Consistent directories\<close>

definition private_inode :: "nat \<Rightarrow> nat \<Rightarrow> string \<Rightarrow> inode \<Rightarrow> bool" where
  "private_inode uid links c n \<longleftrightarrow> secure_inode uid n \<and> \<not> i_directory n \<and> i_nlink n = links \<and> contents n = c"

definition holds :: "nat \<Rightarrow> string option \<Rightarrow> rdir \<Rightarrow> bool" where
  "holds uid v d \<longleftrightarrow>
     names d BACKUP_NAME = None \<and>
     (case v of
        None \<Rightarrow> names d DATA_NAME = None
      | Some c \<Rightarrow> \<exists>i. names d DATA_NAME = Some i \<and> i < next_ino d \<and> private_inode uid 1 c (inodes d i))"

definition linked :: "nat \<Rightarrow> string \<Rightarrow> rdir \<Rightarrow> bool" where
  "linked uid old d \<longleftrightarrow>
     (\<exists>i. names d DATA_NAME = Some i \<and> names d BACKUP_NAME = Some i \<and> i < next_ino d \<and> private_inode uid 2 old (inodes d i))"

definition renamed :: "nat \<Rightarrow> string \<Rightarrow> string \<Rightarrow> rdir \<Rightarrow> bool" where
  "renamed uid old new d \<longleftrightarrow>
     (\<exists>b i. names d DATA_NAME = Some i \<and> names d BACKUP_NAME = Some b \<and> b \<noteq> i \<and> b < next_ino d \<and> i < next_ino d \<and>
       private_inode uid 1 old (inodes d b) \<and> private_inode uid 1 new (inodes d i))"

definition consistent :: "nat \<Rightarrow> string option \<Rightarrow> string \<Rightarrow> rdir \<Rightarrow> bool" where
  "consistent uid old new d \<longleftrightarrow>
     holds uid old d \<or> holds uid (Some new) d \<or> (\<exists>c. old = Some c \<and> (linked uid c d \<or> renamed uid c new d))"

lemma names_distinct [simp]: "DATA_NAME \<noteq> BACKUP_NAME" "BACKUP_NAME \<noteq> DATA_NAME"
  by (simp_all add: DATA_NAME_def BACKUP_NAME_def)

lemma temp_name_fresh [simp]:
  "temp_name p t k \<noteq> DATA_NAME" "temp_name p t k \<noteq> BACKUP_NAME" "DATA_NAME \<noteq> temp_name p t k" "BACKUP_NAME \<noteq> temp_name p t k"
  by (simp_all add: temp_name_def DATA_NAME_def BACKUP_NAME_def)

text \<open>\<open>staged\<close>: the temporary file has its own inode with the given contents beside the old snapshot.\<close>

definition own_file :: "nat \<Rightarrow> bool \<Rightarrow> string \<Rightarrow> nat \<Rightarrow> string \<Rightarrow> rdir \<Rightarrow> bool" where
  "own_file uid sec temp t c d \<longleftrightarrow>
     temp \<noteq> DATA_NAME \<and> temp \<noteq> BACKUP_NAME \<and> names d temp = Some t \<and> names d DATA_NAME \<noteq> Some t \<and>
     names d BACKUP_NAME \<noteq> Some t \<and> t < next_ino d \<and>
     i_regular (inodes d t) \<and> i_uid (inodes d t) = uid \<and> \<not> i_directory (inodes d t) \<and> i_nlink (inodes d t) = 1 \<and>
     contents (inodes d t) = c \<and> (sec \<longrightarrow> i_mode (inodes d t) mod 512 = PRIVATE_MODE)"

lemma own_file_create:
  assumes "holds uid v d" "names d temp = None" "temp \<noteq> DATA_NAME" "temp \<noteq> BACKUP_NAME"
  shows "own_file uid False temp (next_ino d) [] (dir_create uid m temp d) \<and> holds uid v (dir_create uid m temp d)"
proof -
  have "inodes (dir_create uid m temp d) i = inodes d i" if "i < next_ino d" for i
    using that by (simp add: dir_create_def)
  moreover have "names (dir_create uid m temp d) n = names d n" if "n \<noteq> temp" for n
    using that by (simp add: dir_create_def)
  moreover have "next_ino d < next_ino (dir_create uid m temp d)"
    by (simp add: dir_create_def)
  ultimately have "holds uid v (dir_create uid m temp d)"
    using assms by (fastforce simp: holds_def split: option.splits)
  then show ?thesis
    using assms by (auto simp: own_file_def holds_def dir_create_def split: option.splits)
qed

lemma own_file_set:
  assumes "own_file uid sec temp t c d" "holds uid v d"
  shows "holds uid v (set_inode t f d)"
  using assms by (auto simp: own_file_def holds_def set_inode_def split: option.splits)

lemma own_file_chmod:
  "own_file uid sec temp t c d \<Longrightarrow> own_file uid True temp t c (set_inode t (\<lambda>n. n\<lparr>i_mode := PRIVATE_MODE\<rparr>) d)"
  by (auto simp: own_file_def set_inode_def PRIVATE_MODE_def)

lemma own_file_append:
  "own_file uid sec temp t c d \<Longrightarrow> own_file uid sec temp t (c @ x) (set_inode t (\<lambda>n. n\<lparr>contents := contents n @ x\<rparr>) d)"
  by (auto simp: own_file_def set_inode_def)

lemma own_file_unlink:
  assumes "own_file uid sec temp t c d"
  shows "names (dir_unlink temp t d) DATA_NAME = names d DATA_NAME"
    "names (dir_unlink temp t d) BACKUP_NAME = names d BACKUP_NAME"
    "next_ino (dir_unlink temp t d) = next_ino d"
    "i \<noteq> t \<Longrightarrow> inodes (dir_unlink temp t d) i = inodes d i"
  using assms by (auto simp: own_file_def dir_unlink_def drop_link_def set_inode_def)

lemma holds_unlink_temp:
  assumes "own_file uid sec temp t c d" "holds uid v d"
  shows "holds uid v (dir_unlink temp t d)"
proof -
  have "i \<noteq> t" if "names d DATA_NAME = Some i" for i
    using that assms(1) by (auto simp: own_file_def)
  then show ?thesis
    using assms(2) own_file_unlink [OF assms(1)] by (auto simp: holds_def split: option.splits)
qed

subsection \<open>Writing the temporary file\<close>

definition past_ok :: "nat \<Rightarrow> string option \<Rightarrow> string \<Rightarrow> os \<Rightarrow> bool" where
  "past_ok uid old new s \<longleftrightarrow> euid s = uid \<and> (\<forall>d \<in> set (history s). consistent uid old new d)"

definition aborted :: "nat \<Rightarrow> string option \<Rightarrow> string \<Rightarrow> os \<Rightarrow> bool" where
  "aborted uid old new s \<longleftrightarrow> past_ok uid old new s \<and> holds uid old (dir s)"

definition staged :: "nat \<Rightarrow> string option \<Rightarrow> string \<Rightarrow> bool \<Rightarrow> string \<Rightarrow> nat \<Rightarrow> string \<Rightarrow> os \<Rightarrow> bool" where
  "staged uid old new sec temp t c s \<longleftrightarrow> aborted uid old new s \<and> own_file uid sec temp t c (dir s)"

lemma past_ok_unchanged: "unchanged s s' \<Longrightarrow> past_ok uid old new s \<Longrightarrow> past_ok uid old new s'"
  by (simp add: unchanged_def past_ok_def)

lemma past_ok_changed:
  "changed f s s' \<Longrightarrow> past_ok uid old new s \<Longrightarrow> consistent uid old new (f (dir s)) \<Longrightarrow> past_ok uid old new s'"
  by (auto simp: changed_def past_ok_def)

lemma aborted_unchanged: "unchanged s s' \<Longrightarrow> aborted uid old new s \<Longrightarrow> aborted uid old new s'"
  by (simp add: unchanged_def aborted_def past_ok_def)

lemma aborted_changed:
  "changed f s s' \<Longrightarrow> aborted uid old new s \<Longrightarrow> holds uid old (f (dir s)) \<Longrightarrow> aborted uid old new s'"
  by (auto simp: aborted_def consistent_def intro: past_ok_changed) (simp add: changed_def)

lemma staged_unchanged: "unchanged s s' \<Longrightarrow> staged uid old new sec temp t c s \<Longrightarrow> staged uid old new sec temp t c s'"
  by (auto simp: staged_def intro: aborted_unchanged) (simp add: unchanged_def)

lemma staged_changed:
  "changed f s s' \<Longrightarrow> staged uid old new sec temp t c s \<Longrightarrow> holds uid old (f (dir s)) \<Longrightarrow>
   own_file uid sec' temp t c' (f (dir s)) \<Longrightarrow> staged uid old new sec' temp t c' s'"
  by (auto simp: staged_def intro: aborted_changed) (simp add: changed_def)

lemma open_temp_staged:
  assumes "open_temp ans pid tid ks s = (r, s')" "aborted uid old new s"
  shows "case r of None \<Rightarrow> aborted uid old new s' | Some (temp, t) \<Rightarrow> staged uid old new False temp t [] s'"
  using assms
proof (induction ks arbitrary: s)
  case (Cons k ks)
  show ?case
  proof (cases "length (temp_name pid tid k) \<ge> 128")
    case False
    obtain r1 s1 where c: "create_excl ans (temp_name pid tid k) s = (r1, s1)"
      by fastforce
    from create_excl_effect [OF c] show ?thesis
    proof
      assume "\<exists>e. r1 = Inl e \<and> unchanged s s1"
      then show ?thesis
        using Cons False c aborted_unchanged by (fastforce split: if_splits)
    next
      assume r: "r1 = Inr (next_ino (dir s)) \<and> names (dir s) (temp_name pid tid k) = None \<and>
        changed (dir_create (euid s) (create_mode s) (temp_name pid tid k)) s s1"
      then have ch: "changed (dir_create (euid s) (create_mode s) (temp_name pid tid k)) s s1"
        by simp
      have u: "euid s = uid" "holds uid old (dir s)"
        using Cons.prems(2) by (auto simp: aborted_def past_ok_def)
      have d1: "dir s1 = dir_create uid (create_mode s) (temp_name pid tid k) (dir s)"
        using ch u by (simp add: changed_def)
      have o: "own_file uid False (temp_name pid tid k) (next_ino (dir s)) [] (dir s1) \<and> holds uid old (dir s1)"
        unfolding d1 using u(2) r by (intro own_file_create) auto
      then have "aborted uid old new s1"
        using aborted_changed [OF ch Cons.prems(2)] d1 u by simp
      then show ?thesis
        using Cons.prems(1) False c r o by (auto simp: staged_def)
    qed
  qed (use Cons in auto)
qed simp

lemma write_all_staged:
  assumes "write_all ans t data s = (ok, s')" "staged uid old new sec temp t c s"
  shows "if ok then staged uid old new sec temp t (c @ data) s' else \<exists>c'. staged uid old new sec temp t c' s'"
  using assms
proof (induction ans t data s arbitrary: c rule: write_all.induct)
  case (1 ans t data s)
  note step = write_all.simps [of ans t data s]
  show ?case
  proof (cases "data = [] \<or> fst (next_answer ans s) = 0")
    case True
    then show ?thesis
      using 1(2,3) by (auto simp: step next_answer_def staged_def aborted_def past_ok_def split: if_splits)
  next
    case False
    let ?a = "fst (next_answer ans s)"
    let ?f = "set_inode t (\<lambda>n. n\<lparr>contents := contents n @ take ?a data\<rparr>)"
    let ?s1 = "change_dir ?f (snd (next_answer ans s))"
    have "changed ?f s ?s1"
      by (simp add: changed_def change_dir_def next_answer_def)
    then have "staged uid old new sec temp t (c @ take ?a data) ?s1"
      using "1.prems"(2) by (rule staged_changed)
        (use "1.prems"(2) in \<open>auto simp: staged_def aborted_def intro: own_file_set own_file_append\<close>)
    moreover have "write_all ans t (drop ?a data) ?s1 = (ok, s')"
      using "1.prems"(1) False by (simp add: step next_answer_def split: if_splits)
    ultimately have "if ok then staged uid old new sec temp t ((c @ take ?a data) @ drop ?a data) s'
        else \<exists>c'. staged uid old new sec temp t c' s'"
      using "1.IH" [of "next_answer ans s" ?a "snd (next_answer ans s)" "c @ take ?a data"] False by (simp add: Let_def)
    then show ?thesis
      by (cases ok) simp_all
  qed
qed

lemma write_entries_staged:
  assumes "write_entries ans t es s = (ok, s')" "staged uid old new sec temp t c s"
  shows "if ok then staged uid old new sec temp t (c @ concat (map entry_text es)) s' else \<exists>c'. staged uid old new sec temp t c' s'"
  using assms
proof (induction es arbitrary: s c)
  case (Cons e es)
  obtain ok1 s1 where w: "write_all ans t (entry_text e) s = (ok1, s1)"
    by fastforce
  from write_all_staged [OF this Cons.prems(2)] show ?case
    using Cons.prems w Cons.IH [of s1 "c @ entry_text e"] by (auto split: if_splits bool.splits)
qed auto

lemma unlink_keeps:
  assumes "unlinkat ans False n s = (e, s')" "past_ok uid old new s" "P (dir s)"
    and "\<And>i. names (dir s) n = Some i \<Longrightarrow> P (dir_unlink n i (dir s))"
    and "\<And>d. P d \<Longrightarrow> consistent uid old new d"
  shows "past_ok uid old new s' \<and> P (dir s')"
  using unlinkat_effect [OF assms(1)]
proof
  assume "e \<noteq> None \<and> unchanged s s'"
  then show ?thesis
    using assms(2,3) past_ok_unchanged by (auto simp: unchanged_def)
next
  assume "\<exists>i. e = None \<and> names (dir s) n = Some i \<and> changed (dir_unlink n i) s s'"
  then obtain i where i: "names (dir s) n = Some i" and ch: "changed (dir_unlink n i) s s'"
    by blast
  then show ?thesis
    using assms(2,4,5) past_ok_changed [OF ch] by (auto simp: changed_def)
qed

lemma fail_temp_keeps:
  assumes "past_ok uid old new s" "P (dir s)" "own_file uid sec temp t c (dir s)"
    and "\<And>d. P d \<Longrightarrow> own_file uid sec temp t c d \<Longrightarrow> P (dir_unlink temp t d)"
    and "\<And>d. P d \<Longrightarrow> consistent uid old new d"
  shows "past_ok uid old new (fail_temp ans is_open temp s) \<and> P (dir (fail_temp ans is_open temp s))"
proof -
  define s1 where "s1 = (if is_open then snd (plain_call ans s) else s)"
  have "unchanged s s1"
    using plain_call_effect [of ans s] by (cases "plain_call ans s") (auto simp: s1_def unchanged_def)
  then have s1: "past_ok uid old new s1" "dir s1 = dir s"
    using assms(1) past_ok_unchanged by (auto simp: unchanged_def)
  obtain e s2 where u: "unlinkat ans False temp s1 = (e, s2)"
    by fastforce
  have "P (dir_unlink temp i (dir s1))" if "names (dir s1) temp = Some i" for i
    using that s1(2) assms(2-4) by (auto simp: own_file_def)
  then have "past_ok uid old new s2 \<and> P (dir s2)"
    using s1 assms(2,5) by (intro unlink_keeps [OF u]) auto
  then show ?thesis
    using u by (simp add: fail_temp_def s1_def)
qed

lemma holds_consistent: "holds uid old d \<Longrightarrow> consistent uid old new d"
  by (simp add: consistent_def)

lemma fail_temp_aborted:
  assumes "staged uid old new sec temp t c s"
  shows "aborted uid old new (fail_temp ans is_open temp s)"
  using fail_temp_keeps [of uid old new s "holds uid old" sec temp t c ans is_open] assms holds_unlink_temp holds_consistent
  by (auto simp: staged_def aborted_def)

lemma write_temp_staged:
  assumes "write_temp ans pid tid entries s = (r, s')" "aborted uid old new s"
  shows "case r of None \<Rightarrow> aborted uid old new s'
    | Some temp \<Rightarrow> \<exists>t. staged uid old new True temp t (concat (map entry_text entries)) s'"
proof -
  obtain r1 s1 where o: "open_temp ans pid tid [0..<128] s = (r1, s1)"
    by fastforce
  show ?thesis
  proof (cases r1)
    case None
    then show ?thesis
      using assms(1) o open_temp_staged [OF o assms(2)] by (simp add: write_temp_def)
  next
    case (Some p)
    obtain temp t where p: "p = (temp, t)"
      by fastforce
    have st1: "staged uid old new False temp t [] s1"
      using open_temp_staged [OF o assms(2)] Some p by simp
    obtain ok2 s2 where c: "fchmod_private ans t s1 = (ok2, s2)"
      by fastforce
    have st2: "staged uid old new ok2 temp t [] s2"
      using fchmod_effect [OF c]
    proof
      assume ch: "ok2 \<and> changed (set_inode t (\<lambda>n. n\<lparr>i_mode := PRIVATE_MODE\<rparr>)) s1 s2"
      have o1: "own_file uid False temp t [] (dir s1)" "holds uid old (dir s1)"
        using st1 by (simp_all add: staged_def aborted_def)
      show ?thesis
        using staged_changed [OF conjunct2 [OF ch] st1 own_file_set [OF o1] own_file_chmod [OF o1(1)]] ch by simp
    qed (use st1 staged_unchanged in auto)
    obtain ok3 s3 where w: "write_entries ans t entries s2 = (ok3, s3)"
      by fastforce
    note st3 = write_entries_staged [OF w st2]
    obtain ok4 s4 where f: "plain_call ans s3 = (ok4, s4)"
      by fastforce
    obtain ok5 s5 where g: "plain_call ans s4 = (ok5, s5)"
      by fastforce
    have u: "unchanged s3 s4" "unchanged s4 s5"
      using plain_call_effect f g by blast+
    show ?thesis
    proof (cases "ok2 \<and> ok3")
      case False
      then show ?thesis
        using assms(1) o Some p c w st2 st3 fail_temp_aborted
        by (auto simp: write_temp_def split: bool.splits if_splits)
    next
      case True
      then have "staged uid old new True temp t (concat (map entry_text entries)) s3"
        using st3 by simp
      then have "staged uid old new True temp t (concat (map entry_text entries)) s4"
        "staged uid old new True temp t (concat (map entry_text entries)) s5"
        using u staged_unchanged by blast+
      then show ?thesis
        using assms(1) o Some p c w f g True fail_temp_aborted
        by (auto simp: write_temp_def split: bool.splits)
    qed
  qed
qed

subsection \<open>Publishing the temporary file\<close>

lemma holds_link:
  assumes "holds uid (Some c) d" "own_file uid sec temp t x d" "names d DATA_NAME = Some i"
  shows "linked uid c (dir_link BACKUP_NAME i d) \<and> own_file uid sec temp t x (dir_link BACKUP_NAME i d)"
  using assms
  by (auto simp: holds_def linked_def own_file_def dir_link_def set_inode_def private_inode_def secure_inode_def)

lemma linked_unlink_backup:
  assumes "linked uid c d" "own_file uid sec temp t x d" "names d BACKUP_NAME = Some i"
  shows "holds uid (Some c) (dir_unlink BACKUP_NAME i d) \<and> own_file uid sec temp t x (dir_unlink BACKUP_NAME i d)"
  using assms
  by (auto simp: holds_def linked_def own_file_def dir_unlink_def drop_link_def set_inode_def private_inode_def secure_inode_def)

lemma linked_rename:
  assumes "linked uid c d" "own_file uid True temp t x d"
  shows "renamed uid c x (dir_rename temp DATA_NAME t d)"
  using assms
  by (auto simp: renamed_def linked_def own_file_def dir_rename_def drop_link_def set_inode_def private_inode_def secure_inode_def Let_def)

lemma holds_rename_none:
  assumes "holds uid None d" "own_file uid True temp t x d"
  shows "holds uid (Some x) (dir_rename temp DATA_NAME t d)"
  using assms
  by (auto simp: holds_def own_file_def dir_rename_def private_inode_def secure_inode_def Let_def)

lemma renamed_rollback:
  assumes "renamed uid c x d" "names d BACKUP_NAME = Some b"
  shows "holds uid (Some c) (dir_rename BACKUP_NAME DATA_NAME b d)"
  using assms
  by (auto simp: renamed_def holds_def dir_rename_def drop_link_def set_inode_def private_inode_def secure_inode_def Let_def)

lemma renamed_unlink_backup:
  assumes "renamed uid c x d" "names d BACKUP_NAME = Some b"
  shows "holds uid (Some x) (dir_unlink BACKUP_NAME b d)"
  using assms
  by (auto simp: renamed_def holds_def dir_unlink_def drop_link_def set_inode_def private_inode_def secure_inode_def)

lemma holds_unlink_data:
  assumes "holds uid (Some x) d" "names d DATA_NAME = Some i"
  shows "holds uid None (dir_unlink DATA_NAME i d)"
  using assms by (auto simp: holds_def dir_unlink_def drop_link_def set_inode_def)

lemma linked_unlink_temp:
  assumes "linked uid c d" "own_file uid sec temp t x d"
  shows "linked uid c (dir_unlink temp t d)"
proof -
  have "i \<noteq> t" if "names d DATA_NAME = Some i" for i
    using that assms(2) by (auto simp: own_file_def)
  then show ?thesis
    using assms(1) own_file_unlink [OF assms(2)] by (auto simp: linked_def)
qed

definition published :: "nat \<Rightarrow> string option \<Rightarrow> string \<Rightarrow> rdir \<Rightarrow> bool" where
  "published uid old new d \<longleftrightarrow> holds uid (Some new) d \<or> (\<exists>c. old = Some c \<and> renamed uid c new d)"

definition installed :: "nat \<Rightarrow> string option \<Rightarrow> string \<Rightarrow> bool \<times> os \<Rightarrow> bool" where
  "installed uid old new r \<longleftrightarrow>
     past_ok uid old new (snd r) \<and> consistent uid old new (dir (snd r)) \<and>
     (fst r \<longrightarrow> published uid old new (dir (snd r)))"

lemma published_consistent: "published uid old new d \<Longrightarrow> consistent uid old new d"
  by (auto simp: published_def consistent_def)

lemma fsync_effect: "fsync_dir ans s = (ok, s') \<Longrightarrow> unchanged s s'"
  by (simp add: fsync_dir_def plain_call_effect)

lemma rollback_consistent:
  assumes "past_ok uid old new s" "published uid old new (dir s)"
    and "old \<noteq> None \<Longrightarrow> \<exists>c. old = Some c \<and> renamed uid c new (dir s)"
  shows "past_ok uid old new (snd (rollback_snapshot ans (old \<noteq> None) s)) \<and>
    consistent uid old new (dir (snd (rollback_snapshot ans (old \<noteq> None) s)))"
proof (cases old)
  case None
  obtain e s1 where u: "unlinkat ans False DATA_NAME s = (e, s1)"
    by fastforce
  have "holds uid (Some new) (dir s)"
    using assms(2) None by (simp add: published_def)
  then have "past_ok uid old new s1 \<and> (holds uid (Some new) (dir s1) \<or> holds uid None (dir s1))"
    using holds_unlink_data None
    by (intro unlink_keeps [OF u assms(1), of "\<lambda>d. holds uid (Some new) d \<or> holds uid None d"])
      (auto simp: consistent_def)
  moreover obtain ok s2 where f: "fsync_dir ans s1 = (ok, s2)"
    by fastforce
  ultimately show ?thesis
    using fsync_effect [OF f] None u past_ok_unchanged
    by (auto simp: rollback_snapshot_def consistent_def unchanged_def split: option.splits)
next
  case (Some c)
  then have r: "renamed uid c new (dir s)"
    using assms(3) by auto
  obtain e s1 where u: "renameat ans BACKUP_NAME DATA_NAME s = (e, s1)"
    by fastforce
  have "names (dir s) DATA_NAME \<noteq> names (dir s) BACKUP_NAME"
    using r by (auto simp: renamed_def)
  from renameat_effect [OF u this]
  have "past_ok uid old new s1 \<and> (renamed uid c new (dir s1) \<or> holds uid (Some c) (dir s1))"
  proof
    assume "e \<noteq> None \<and> unchanged s s1"
    then show ?thesis
      using assms(1) r past_ok_unchanged by (auto simp: unchanged_def)
  next
    assume "\<exists>i. e = None \<and> names (dir s) BACKUP_NAME = Some i \<and> changed (dir_rename BACKUP_NAME DATA_NAME i) s s1"
    then obtain i where "holds uid (Some c) (dir_rename BACKUP_NAME DATA_NAME i (dir s))"
      and ch: "changed (dir_rename BACKUP_NAME DATA_NAME i) s s1"
      using renamed_rollback [OF r] by blast
    then show ?thesis
      using past_ok_changed [OF ch assms(1)] Some by (auto simp: changed_def consistent_def)
  qed
  moreover obtain ok s2 where f: "fsync_dir ans s1 = (ok, s2)"
    by fastforce
  ultimately show ?thesis
    using fsync_effect [OF f] Some u past_ok_unchanged
    by (auto simp: rollback_snapshot_def consistent_def unchanged_def split: option.splits)
qed

text \<open>What follows a successful rename: the directory is synchronised, or the rename undone.\<close>

lemma after_rename_installed:
  assumes "past_ok uid old new s" "published uid old new (dir s)"
    and "old \<noteq> None \<Longrightarrow> \<exists>c. old = Some c \<and> renamed uid c new (dir s)"
    and "fsync_dir ans s = (ok, s1)"
  shows "installed uid old new
    (if ok then (True, if old \<noteq> None then snd (unlinkat ans False BACKUP_NAME s1) else s1)
     else (False, snd (rollback_snapshot ans (old \<noteq> None) s1)))"
proof -
  have s1: "past_ok uid old new s1" "dir s1 = dir s"
    using fsync_effect [OF assms(4)] assms(1) past_ok_unchanged by (auto simp: unchanged_def)
  show ?thesis
  proof (cases "ok \<and> old \<noteq> None")
    case True
    obtain e s2 where u: "unlinkat ans False BACKUP_NAME s1 = (e, s2)"
      by fastforce
    have "published uid old new (dir_unlink BACKUP_NAME i (dir s1))" if "names (dir s1) BACKUP_NAME = Some i" for i
      using that True assms(3) s1(2) renamed_unlink_backup by (fastforce simp: published_def)
    then have "past_ok uid old new s2 \<and> published uid old new (dir s2)"
      using s1 assms(2) published_consistent by (intro unlink_keeps [OF u]) auto
    then show ?thesis
      using True u published_consistent by (auto simp: installed_def)
  next
    case False
    have "past_ok uid old new (snd (rollback_snapshot ans (old \<noteq> None) s1)) \<and>
        consistent uid old new (dir (snd (rollback_snapshot ans (old \<noteq> None) s1)))"
      using s1 assms(2,3) by (intro rollback_consistent) auto
    then show ?thesis
      using False s1 assms(2) published_consistent by (auto simp: installed_def)
  qed
qed

lemma installed_failure:
  "past_ok uid old new s \<Longrightarrow> consistent uid old new (dir s) \<Longrightarrow> installed uid old new (False, s)"
  by (simp add: installed_def)

text \<open>The rename itself, from the directory with the temporary file and, for an old snapshot, its backup link.\<close>

lemma rename_installed:
  assumes "past_ok uid old new s" "own_file uid True temp t new (dir s)"
    and "case old of None \<Rightarrow> holds uid None (dir s) | Some c \<Rightarrow> linked uid c (dir s)"
    and "renameat ans temp DATA_NAME s = (e, s1)"
  shows "installed uid old new
    (case e of
       Some _ \<Rightarrow> (False, fail_temp ans False temp (if old \<noteq> None then snd (unlinkat ans False BACKUP_NAME s1) else s1))
     | None \<Rightarrow> (case fsync_dir ans s1 of
                  (False, s2) \<Rightarrow> (False, snd (rollback_snapshot ans (old \<noteq> None) s2))
                | (True, s2) \<Rightarrow> (True, if old \<noteq> None then snd (unlinkat ans False BACKUP_NAME s2) else s2)))"
proof -
  have "names (dir s) DATA_NAME \<noteq> names (dir s) temp"
    using assms(2) by (auto simp: own_file_def)
  from renameat_effect [OF assms(4) this] show ?thesis
  proof
    assume e: "e \<noteq> None \<and> unchanged s s1"
    then have s1: "past_ok uid old new s1" "dir s1 = dir s"
      using assms(1) past_ok_unchanged by (auto simp: unchanged_def)
    let ?P = "\<lambda>d. own_file uid True temp t new d \<and> (holds uid old d \<or> (\<exists>c. old = Some c \<and> linked uid c d))"
    define s2 where "s2 = (if old \<noteq> None then snd (unlinkat ans False BACKUP_NAME s1) else s1)"
    have "past_ok uid old new s2 \<and> ?P (dir s2)"
    proof (cases old)
      case None
      then show ?thesis
        using assms(2,3) s1 by (simp add: s2_def)
    next
      case (Some c)
      obtain e' s3 where u: "unlinkat ans False BACKUP_NAME s1 = (e', s3)"
        by fastforce
      have "past_ok uid old new s3 \<and> ?P (dir s3)"
      proof (rule unlink_keeps [OF u s1(1)])
        show "?P (dir_unlink BACKUP_NAME i (dir s1))" if "names (dir s1) BACKUP_NAME = Some i" for i
          using that assms(2,3) s1(2) Some linked_unlink_backup [of uid c "dir s" True temp t new i] by simp
      qed (use assms(2,3) s1 Some in \<open>auto simp: consistent_def\<close>)
      then show ?thesis
        using u Some by (simp add: s2_def)
    qed
    then have "past_ok uid old new (fail_temp ans False temp s2) \<and>
        (holds uid old (dir (fail_temp ans False temp s2)) \<or> (\<exists>c. old = Some c \<and> linked uid c (dir (fail_temp ans False temp s2))))"
      using holds_unlink_temp linked_unlink_temp
      by (intro fail_temp_keeps [of uid old new s2 "\<lambda>d. holds uid old d \<or> (\<exists>c. old = Some c \<and> linked uid c d)" True temp t new])
        (auto simp: consistent_def)
    then have "installed uid old new (False, fail_temp ans False temp s2)"
      by (intro installed_failure) (auto simp: consistent_def)
    then show ?thesis
      using e by (auto simp: s2_def)
  next
    assume "\<exists>i. e = None \<and> names (dir s) temp = Some i \<and> changed (dir_rename temp DATA_NAME i) s s1"
    then have e: "e = None" and ch: "changed (dir_rename temp DATA_NAME t) s s1"
      using assms(2) by (auto simp: own_file_def)
    have pub: "published uid old new (dir s1)" "old \<noteq> None \<Longrightarrow> \<exists>c. old = Some c \<and> renamed uid c new (dir s1)"
      using ch assms(2,3) linked_rename holds_rename_none
      by (auto simp: changed_def published_def split: option.splits)
    moreover have "past_ok uid old new s1"
      using past_ok_changed [OF ch assms(1)] published_consistent [OF pub(1)] ch by (simp add: changed_def)
    moreover obtain ok s2 where f: "fsync_dir ans s1 = (ok, s2)"
      by fastforce
    ultimately show ?thesis
      using after_rename_installed [of uid old new s1 ans ok s2] e by (cases ok) auto
  qed
qed

lemma publish_temp_installed:
  assumes "staged uid old new True temp t new s"
  shows "installed uid old new (publish_temp ans (old \<noteq> None) temp s)"
proof -
  have s: "past_ok uid old new s" "holds uid old (dir s)" "own_file uid True temp t new (dir s)"
    using assms by (auto simp: staged_def aborted_def)
  obtain e s1 where u: "unlinkat ans False BACKUP_NAME s = (e, s1)"
    by fastforce
  have "names (dir s) BACKUP_NAME = None"
    using s(2) by (simp add: holds_def split: option.splits)
  then have un: "unchanged s s1"
    using unlinkat_effect [OF u] by simp
  then have st1: "staged uid old new True temp t new s1"
    using assms staged_unchanged by blast
  show ?thesis
  proof (cases old)
    case None
    obtain e' s2 where "renameat ans temp DATA_NAME s1 = (e', s2)"
      by fastforce
    then show ?thesis
      using rename_installed [of uid old new s1 temp t ans e' s2] st1 None u
      by (auto simp: publish_temp_def staged_def aborted_def Let_def split: option.splits prod.splits bool.splits)
  next
    case (Some c)
    obtain l s2 where l: "linkat ans DATA_NAME BACKUP_NAME s1 = (l, s2)"
      by fastforce
    from linkat_effect [OF l] show ?thesis
    proof
      assume "l \<noteq> None \<and> unchanged s1 s2"
      then have "aborted uid old new (fail_temp ans False temp s2)" "l \<noteq> None"
        using st1 staged_unchanged fail_temp_aborted by blast+
      then show ?thesis
        using u l Some by (auto simp: publish_temp_def aborted_def Let_def consistent_def intro!: installed_failure)
    next
      assume "\<exists>i. l = None \<and> names (dir s1) DATA_NAME = Some i \<and> names (dir s1) BACKUP_NAME = None \<and>
        changed (dir_link BACKUP_NAME i) s1 s2"
      then obtain i where i: "l = None" "names (dir s1) DATA_NAME = Some i" and ch: "changed (dir_link BACKUP_NAME i) s1 s2"
        by blast
      have d2: "linked uid c (dir s2) \<and> own_file uid True temp t new (dir s2)"
        using holds_link [of uid c "dir s1" True temp t new i] st1 Some i ch
        by (simp add: staged_def aborted_def changed_def)
      then have "past_ok uid old new s2"
        using past_ok_changed [OF ch] st1 Some ch by (auto simp: staged_def aborted_def changed_def consistent_def)
      moreover obtain e' s3 where "renameat ans temp DATA_NAME s2 = (e', s3)"
        by fastforce
      ultimately show ?thesis
        using rename_installed [of uid old new s2 temp t ans e' s3] d2 Some u l i
        by (auto simp: publish_temp_def Let_def split: option.splits prod.splits bool.splits)
    qed
  qed
qed

lemma install_installed:
  assumes "holds uid old (dir s)" "euid s = uid" "history s = []" "new = concat (map entry_text entries)"
  shows "installed uid old new (install_snapshot ans pid tid entries (old \<noteq> None) s)"
proof -
  have a: "aborted uid old new s"
    using assms by (simp add: aborted_def past_ok_def)
  obtain r s1 where w: "write_temp ans pid tid entries s = (r, s1)"
    by fastforce
  show ?thesis
  proof (cases r)
    case None
    then show ?thesis
      using write_temp_staged [OF w a] w
      by (auto simp: install_snapshot_def aborted_def intro!: installed_failure holds_consistent)
  next
    case (Some temp)
    then show ?thesis
      using write_temp_staged [OF w a] w publish_temp_installed assms(4) by (auto simp: install_snapshot_def)
  qed
qed

subsection \<open>Recovery and reading\<close>

lemma secure_private: "private_inode uid n c i \<Longrightarrow> secure_inode uid i \<and> i_nlink i = n \<and> \<not> i_directory i"
  by (simp add: private_inode_def)

lemma fsync_succeeds: "\<forall>k. ans k \<noteq> 0 \<Longrightarrow> fsync_dir ans s = (True, s\<lparr>calls := calls s + 1\<rparr>)"
  by (simp add: fsync_dir_def plain_call_def next_answer_def)

lemma unlink_backup_succeeds:
  assumes "\<forall>k. ans k \<noteq> 0" "names (dir s) BACKUP_NAME = Some b" "\<not> i_directory (inodes (dir s) b)"
  shows "\<exists>s'. unlinkat ans False BACKUP_NAME s = (None, s') \<and> dir s' = dir_unlink BACKUP_NAME b (dir s) \<and> euid s' = euid s"
  using assms by (auto simp: unlinkat_def next_answer_def change_dir_def)

lemma recover_consistent:
  assumes "\<forall>k. ans k \<noteq> 0" "consistent uid old new (dir s)" "euid s = uid"
  shows "\<exists>s'. recover_snapshot_backup ans s = (True, s') \<and> euid s' = uid \<and>
    (holds uid old (dir s') \<or> holds uid (Some new) (dir s')) \<and> (published uid old new (dir s) \<longrightarrow> holds uid (Some new) (dir s'))"
proof (cases "names (dir s) BACKUP_NAME")
  case None
  then have "holds uid old (dir s) \<or> holds uid (Some new) (dir s)"
    "published uid old new (dir s) \<longrightarrow> holds uid (Some new) (dir s)"
    using assms(2) by (auto simp: consistent_def linked_def renamed_def published_def)
  then show ?thesis
    using None assms(1,3) by (simp add: recover_snapshot_backup_def fstatat_def next_answer_def)
next
  case (Some b)
  then obtain c where c: "old = Some c" "linked uid c (dir s) \<or> renamed uid c new (dir s)"
    using assms(2) by (auto simp: consistent_def holds_def)
  then obtain i where i: "names (dir s) DATA_NAME = Some i" "\<not> i_directory (inodes (dir s) b)"
    "legitimate_pre_rename uid (dir s) b i \<or> legitimate_post_rename uid (dir s) b i"
    using Some secure_private
    by (fastforce simp: linked_def renamed_def legitimate_pre_rename_def legitimate_post_rename_def)
  let ?s2 = "s\<lparr>calls := Suc (Suc (calls s))\<rparr>"
  obtain s3 where s3: "unlinkat ans False BACKUP_NAME ?s2 = (None, s3)" "dir s3 = dir_unlink BACKUP_NAME b (dir s)" "euid s3 = uid"
    using unlink_backup_succeeds [of ans ?s2 b] assms(1,3) Some i(2) by auto
  have "linked uid c (dir s) \<Longrightarrow> holds uid (Some c) (dir s3)"
    using Some unfolding s3(2)
    by (auto simp: holds_def linked_def dir_unlink_def drop_link_def set_inode_def private_inode_def secure_inode_def)
  moreover have "renamed uid c new (dir s) \<Longrightarrow> holds uid (Some new) (dir s3)"
    using Some renamed_unlink_backup unfolding s3(2) by blast
  moreover have "\<not> holds uid (Some new) (dir s)"
    using Some by (simp add: holds_def)
  moreover have "recover_snapshot_backup ans s = (True, s3\<lparr>calls := calls s3 + 1\<rparr>)"
    using assms(1,3) Some i s3 by (simp add: recover_snapshot_backup_def fstatat_def next_answer_def fsync_succeeds)
  ultimately show ?thesis
    using c s3(3) by (auto simp: published_def)
qed

lemma read_loop_all:
  assumes "\<forall>k. ans k \<noteq> 0" "length used + length rest \<le> PEAK_PARENT_MAX_SNAPSHOT"
  shows "\<exists>s'. read_loop ans used rest s = (Some (used @ rest, []), s') \<and> dir s' = dir s"
  using assms
proof (induction ans used rest s rule: read_loop.induct)
  case (1 ans used rest s)
  let ?a = "fst (next_answer ans s)" and ?s1 = "snd (next_answer ans s)"
  have na: "next_answer ans s = (?a, ?s1)" "?a \<noteq> 0" "dir ?s1 = dir s"
    using "1.prems"(1) by (simp_all add: next_answer_def)
  show ?case
  proof (cases "length used \<ge> PEAK_PARENT_MAX_SNAPSHOT \<or> rest = []")
    case True
    then have "rest = []"
      using "1.prems"(2) by (cases rest) auto
    then show ?thesis
      using na by (subst read_loop.simps) (cases "next_answer ans s", simp)
  next
    case False
    let ?n = "min ?a (PEAK_PARENT_MAX_SNAPSHOT - length used)"
    have "\<exists>s'. read_loop ans (used @ take ?n rest) (drop ?n rest) ?s1 =
        (Some ((used @ take ?n rest) @ drop ?n rest, []), s') \<and> dir s' = dir ?s1"
      by (rule "1.IH" [OF _ refl na(1) [symmetric]]) (use False "1.prems" na in auto)
    moreover have "read_loop ans used rest s = read_loop ans (used @ take ?n rest) (drop ?n rest) ?s1"
      using False na by (subst read_loop.simps) (cases "next_answer ans s", simp add: Let_def)
    ultimately show ?thesis
      using na(3) by (metis append.assoc append_take_drop_id)
  qed
qed

definition snapshot_value :: "string option \<Rightarrow> string \<times> bool" where
  "snapshot_value v = (case v of None \<Rightarrow> ([], False) | Some c \<Rightarrow> (c, True))"

lemma read_snapshot_holds:
  assumes "\<forall>k. ans k \<noteq> 0" "holds uid v (dir s)" "euid s = uid" "\<forall>c. v = Some c \<longrightarrow> length c \<le> PEAK_PARENT_MAX_SNAPSHOT"
  shows "fst (read_snapshot ans True s) = Some (snapshot_value v)"
proof (cases v)
  case None
  then show ?thesis
    using assms(1,2)
    by (simp add: holds_def read_snapshot_def secure_open_regular_at_def secure_open_existing_def next_answer_def snapshot_value_def)
next
  case (Some c)
  then obtain i where i: "names (dir s) DATA_NAME = Some i" "private_inode uid 1 c (inodes (dir s) i)"
    using assms(2) by (auto simp: holds_def)
  let ?s1 = "s\<lparr>calls := Suc (Suc (calls s))\<rparr>"
  have "secure_open_regular_at ans DATA_NAME False s = (Inr i, ?s1)"
    using assms(1,3) i
    by (simp add: secure_open_regular_at_def secure_open_existing_def secure_check_def plain_call_def next_answer_def
        private_inode_def)
  moreover obtain s2 where "read_loop ans [] c ?s1 = (Some (c, []), s2)"
    using read_loop_all [of ans "[]" c ?s1] assms(1,4) Some by auto
  ultimately show ?thesis
    using assms(1) i Some
    by (simp add: read_snapshot_def plain_call_def next_answer_def private_inode_def snapshot_value_def)
qed

text \<open>(C10) Replacing the registry is atomic under failures and crashes: start from a readable registry (or
  none), let any system calls fail and the process stop after any change of the directory. The next
  process then recovers, and reads the complete old or the complete new list; after a reported success
  it reads the new one.\<close>

theorem registry_update_is_crash_safe:
  assumes "holds (euid s) old (dir s)" "history s = []"
    and "install_snapshot ans pid tid entries (old \<noteq> None) s = (ok, s')"
    and "d = dir s' \<or> d \<in> set (history s')" and "dir s2 = d" "euid s2 = euid s" and "\<forall>k. ans2 k \<noteq> 0"
    and "\<forall>c. old = Some c \<longrightarrow> length c \<le> PEAK_PARENT_MAX_SNAPSHOT"
    and "length (concat (map entry_text entries)) \<le> PEAK_PARENT_MAX_SNAPSHOT"
  shows "\<exists>s3 v. recover_snapshot_backup ans2 s2 = (True, s3) \<and>
    fst (read_snapshot ans2 True s3) = Some (snapshot_value v) \<and>
    (v = old \<or> v = Some (concat (map entry_text entries))) \<and>
    (ok \<and> d = dir s' \<longrightarrow> v = Some (concat (map entry_text entries)))"
proof -
  let ?new = "concat (map entry_text entries)"
  have i: "installed (euid s) old ?new (ok, s')"
    using install_installed [of "euid s" old s ?new entries ans pid tid] assms(1-3) by simp
  have c: "consistent (euid s) old ?new d" "ok \<and> d = dir s' \<longrightarrow> published (euid s) old ?new d"
    using i assms(4) by (auto simp: installed_def past_ok_def)
  obtain s3 where s3: "recover_snapshot_backup ans2 s2 = (True, s3)" "euid s3 = euid s"
    "holds (euid s) old (dir s3) \<or> holds (euid s) (Some ?new) (dir s3)"
    "published (euid s) old ?new d \<longrightarrow> holds (euid s) (Some ?new) (dir s3)"
    using recover_consistent [of ans2 "euid s" old ?new s2] assms(5-7) c(1) by auto
  then show ?thesis
    using c(2) read_snapshot_holds [OF assms(7), of "euid s" _ s3] assms(8,9) by (metis option.inject)
qed

definition one_file :: os where
  "one_file =
     \<lparr>euid = 7, create_mode = PRIVATE_MODE,
      dir = \<lparr>names = [DATA_NAME \<mapsto> 0],
             inodes = (\<lambda>_. \<lparr>contents = ''3 4'' @ [NEWLINE], i_regular = True, i_directory = False, i_uid = 7,
                              i_mode = PRIVATE_MODE, i_nlink = 1\<rparr>),
             next_ino = 1\<rparr>,
      calls = 0, history = []\<rparr>"

theorem registry_update_is_crash_safe_witness:
  "\<exists>s3 v. recover_snapshot_backup (\<lambda>_. 1)
       (one_file\<lparr>dir := dir (snd (install_snapshot (\<lambda>k. if k = 3 then 0 else 2) 1 2
          [\<lparr>entry_pid = 5, entry_starttime = 6\<rparr>] True one_file))\<rparr>) = (True, s3) \<and>
     fst (read_snapshot (\<lambda>_. 1) True s3) = Some (snapshot_value v) \<and>
     (v = Some (''3 4'' @ [NEWLINE]) \<or> v = Some (''5 6'' @ [NEWLINE]))"
proof -
  let ?e = "[\<lparr>entry_pid = 5, entry_starttime = 6\<rparr>]"
  let ?old = "Some (''3 4'' @ [NEWLINE])"
  obtain ok s' where i: "install_snapshot (\<lambda>k. if k = 3 then 0 else 2) 1 2 ?e True one_file = (ok, s')"
    by fastforce
  have t: "concat (map entry_text ?e) = ''5 6'' @ [NEWLINE]"
    by code_simp
  have h: "holds (euid one_file) ?old (dir one_file)" "history one_file = []"
    by (simp_all add: one_file_def holds_def private_inode_def secure_inode_def PRIVATE_MODE_def)
  show ?thesis
    using registry_update_is_crash_safe [of one_file ?old "\<lambda>k. if k = 3 then 0 else 2" 1 2 ?e ok s' "dir s'"
        "one_file\<lparr>dir := dir s'\<rparr>" "\<lambda>_. 1"] h i
    unfolding t by (auto simp: PEAK_PARENT_MAX_SNAPSHOT_def)
qed

end
