(* ===== verification/Parent_Live.thy ===== *)
theory Parent_Live
  imports Parent_Recovery
begin

text \<open>
  The entries of the parent registry: what \<^verbatim>\<open>collect_live_entries\<close> keeps of a snapshot, and that a snapshot
  written by one process is read back entry by entry by the next.
\<close>

subsection \<open>Tokens of the written text\<close>

definition entry_line :: "PeakParentEntry \<Rightarrow> string" where
  "entry_line e = int_text (entry_pid e) @ '' '' @ decimal (entry_starttime e)"

definition valid_entry :: "PeakParentEntry \<Rightarrow> bool" where
  "valid_entry e \<longleftrightarrow> 0 < entry_pid e \<and> entry_pid e \<le> int INT_MAX \<and> entry_starttime e \<le> ULLONG_MAX"

lemma entry_line_clean:
  "valid_entry e \<Longrightarrow> NEWLINE \<notin> set (entry_line e) \<and> NUL \<notin> set (entry_line e) \<and> entry_line e \<noteq> []"
  using digits_clean decimal_digits by (auto simp: entry_line_def int_text_def valid_entry_def)

lemma tokens_entries:
  "list_all valid_entry es \<Longrightarrow> tokens NEWLINE (concat (map entry_text es)) = map entry_line es"
proof (induction es)
  case Nil
  then show ?case
    by (simp add: tokens_def)
next
  case (Cons e es)
  then show ?case
    using tokens_line [of NEWLINE "entry_line e"] entry_line_clean [of e] by (simp add: entry_text_def entry_line_def)
qed

lemma entries_clean: "list_all valid_entry es \<Longrightarrow> NUL \<notin> set (concat (map entry_text es))"
proof (induction es)
  case (Cons e es)
  then show ?case
    using entry_line_clean [of e] by (auto simp: entry_text_def entry_line_def)
qed simp

lemma parse_entry_line: "valid_entry e \<Longrightarrow> parse_registry_entry (entry_line e) = Some e"
proof -
  assume v: "valid_entry e"
  have l: "entry_line e = decimal (nat (entry_pid e)) @ '' '' @ decimal (entry_starttime e)"
    using v by (simp add: entry_line_def int_text_def valid_entry_def)
  have "strtol (entry_line e) = (entry_pid e, '' '' @ decimal (entry_starttime e), False)"
    using strtol_decimal [of "nat (entry_pid e)"] v by (simp add: l valid_entry_def)
  moreover have "'' '' @ decimal (entry_starttime e) \<noteq> entry_line e"
    using decimal_digits [of "nat (entry_pid e)"] by (simp add: l)
  moreover have "unsigned_text ('' '' @ decimal (entry_starttime e)) (entry_starttime e)"
    unfolding unsigned_text_def using decimal_digits [of "entry_starttime e"]
    by (intro exI [of _ "'' ''"] exI [of _ "[]"] exI [of _ "decimal (entry_starttime e)"]) (simp add: c_isspace_def)
  then have "strtoull ('' '' @ decimal (entry_starttime e)) = (entry_starttime e, [], False)"
    using unsigned_text_parsed v by (simp add: valid_entry_def)
  ultimately show ?thesis
    using v by (simp add: parse_registry_entry_def valid_entry_def)
qed

subsection \<open>The live entries\<close>

definition live :: "(int \<Rightarrow> errno + string) \<Rightarrow> PeakParentEntry \<Rightarrow> bool" where
  "live proc e \<longleftrightarrow> read_process_starttime proc (entry_pid e) = Inr (entry_starttime e)"

definition listed :: "string list \<Rightarrow> PeakParentEntry set" where
  "listed lines = {e. \<exists>l \<in> set lines. parse_registry_entry l = Some e}"

lemma listed_simps:
  "listed [] = {}"
  "listed (l # ls) = (case parse_registry_entry l of None \<Rightarrow> listed ls | Some e \<Rightarrow> insert e (listed ls))"
  by (auto simp: listed_def split: option.splits)

lemma append_entry_set:
  assumes "append_entry alloc e (es, cap) = Some (es', cap')"
  shows "set es' = insert e (set es) \<and> (distinct es \<longrightarrow> distinct es') \<and> (e \<notin> set es \<longrightarrow> es' = es @ [e])"
  using assms by (auto simp: append_entry_def Let_def split: if_splits)

lemma collect_lines_set:
  assumes "collect_lines alloc proc me parent lines (es, cap) found = Some ((es', cap'), found')"
    and "distinct es" "me \<notin> set es"
  shows "set es' = set es \<union> {e \<in> listed lines. live proc e \<and> e \<noteq> me} \<and> distinct es' \<and> me \<notin> set es' \<and>
    (found' \<longleftrightarrow> found \<or> (parent \<in> listed lines \<and> live proc parent))"
  using assms
proof (induction lines arbitrary: es cap found)
  case Nil
  then show ?case
    by (simp add: listed_simps)
next
  case (Cons l ls)
  show ?case
  proof (cases "parse_registry_entry l")
    case None
    then show ?thesis
      using Cons by (simp add: listed_simps)
  next
    case (Some e)
    note p = Some
    show ?thesis
    proof (cases "live proc e")
      case False
      then have "collect_lines alloc proc me parent ls (es, cap) found = Some ((es', cap'), found')"
        using Cons.prems(1) p by (auto simp: live_def split: sum.splits if_splits)
      then show ?thesis
        using Cons.IH [of es cap found] Cons.prems(2,3) False p by (auto simp: listed_simps)
    next
      case True
      show ?thesis
      proof (cases "e = me")
        case self: True
        then have "collect_lines alloc proc me parent ls (es, cap) (found \<or> e = parent) = Some ((es', cap'), found')"
          using Cons.prems(1) p True by (simp add: live_def)
        then show ?thesis
          using Cons.IH [of es cap "found \<or> e = parent"] Cons.prems(2,3) True self p by (auto simp: listed_simps)
      next
        case other: False
        obtain es1 cap1 where a: "append_entry alloc e (es, cap) = Some (es1, cap1)"
          and c: "collect_lines alloc proc me parent ls (es1, cap1) (found \<or> e = parent) = Some ((es', cap'), found')"
          using Cons.prems(1) p True other by (auto simp: live_def Let_def split: option.splits)
        show ?thesis
          using Cons.IH [OF c] append_entry_set [OF a] Cons.prems(2,3) True other p by (auto simp: listed_simps)
      qed
    qed
  qed
qed

text \<open>(C11) The registry that a process writes lists the running processes: every entry of the previous list
  whose process still runs with the recorded start time, each once, nothing else, and the process itself
  as the last entry; and the parent is reported as profiled exactly when it is a live entry. A list
  written by a process is read back exactly.\<close>

theorem registry_lists_the_live_processes:
  assumes "list_all valid_entry es"
    and "collect_live_entries alloc proc (concat (map entry_text es)) me parent = Some (entries, found)"
  shows "set entries = insert me {e \<in> set es. live proc e} \<and> distinct entries \<and> last entries = me \<and>
    (found \<longleftrightarrow> parent \<in> set es \<and> live proc parent)"
proof -
  let ?lines = "tokens NEWLINE (c_string (concat (map entry_text es)))"
  have lines: "?lines = map entry_line es"
    using assms(1) entries_clean tokens_entries c_string_clean by simp
  have l: "listed ?lines = set es"
    using assms(1) parse_entry_line unfolding lines listed_def by (force simp: list_all_iff)
  obtain es1 cap1 cap2 where c: "collect_lines alloc proc me parent ?lines ([], 0) False = Some ((es1, cap1), found)"
    "append_entry alloc me (es1, cap1) = Some (entries, cap2)"
    using assms(2) by (auto simp: collect_live_entries_def split: option.splits)
  show ?thesis
    using collect_lines_set [OF c(1)] append_entry_set [OF c(2)] l by auto
qed

text \<open>A machine on which every process has the stat line with start time 5.\<close>

definition stat_of_five :: string where
  "stat_of_five = ''7 (a) S 1 1 1 1 1 1 1 1 1 1 1 1 1 1 1 1 1 1 5''"

theorem registry_lists_the_live_processes_witness:
  "\<exists>entries found. set entries = {\<lparr>entry_pid = 9, entry_starttime = 5\<rparr>, \<lparr>entry_pid = 7, entry_starttime = 5\<rparr>} \<and>
     last entries = \<lparr>entry_pid = 9, entry_starttime = 5\<rparr> \<and> found"
proof -
  let ?es = "[\<lparr>entry_pid = 7, entry_starttime = 5\<rparr>, \<lparr>entry_pid = 8, entry_starttime = 6\<rparr>]"
  let ?proc = "\<lambda>_ :: int. Inr stat_of_five :: errno + string"
  have "decimal 5 = ''5''"
    by code_simp
  then have "strtoull ''5'' = (5, [], False)"
    using unsigned_text_parsed(1) [OF decimal_unsigned_text, of 5] by (simp add: ULLONG_MAX_def)
  moreover have "tokens (CHR '' '') '' S 1 1 1 1 1 1 1 1 1 1 1 1 1 1 1 1 1 1 5'' = ''S'' # replicate 18 ''1'' @ [''5'']"
    by code_simp
  moreover have "c_string stat_of_five = stat_of_five" "CHR '')'' \<in> set stat_of_five"
    "rev (takeWhile (\<lambda>c. c \<noteq> CHR '')'') (rev stat_of_five)) = '' S 1 1 1 1 1 1 1 1 1 1 1 1 1 1 1 1 1 1 5''"
    by code_simp+
  ultimately have "parse_starttime stat_of_five = Some 5"
    by (simp add: parse_starttime_def nth_append)
  then have t: "read_process_starttime ?proc p = Inr 5" for p
    by (simp add: read_process_starttime_def) (simp add: stat_of_five_def)
  have v: "list_all valid_entry ?es"
    by (simp add: valid_entry_def INT_MAX_def ULLONG_MAX_def)
  let ?c = "collect_live_entries (\<lambda>_. True) ?proc (concat (map entry_text ?es)) \<lparr>entry_pid = 9, entry_starttime = 5\<rparr>
    \<lparr>entry_pid = 7, entry_starttime = 5\<rparr>"
  have "tokens NEWLINE (c_string (concat (map entry_text ?es))) = map entry_line ?es"
    using v entries_clean tokens_entries c_string_clean by presburger
  then have "?c \<noteq> None"
    using v parse_entry_line t unfolding collect_live_entries_def by (simp add: append_entry_def SIZE_MAX_def)
  then obtain entries found where "?c = Some (entries, found)"
    by auto
  from registry_lists_the_live_processes [OF v this] show ?thesis
    using t by (intro exI [of _ entries] exI [of _ found]) (auto simp: live_def)
qed

end
