(* ===== verification/Process_Filter.thy ===== *)
theory Process_Filter
  imports C_Strings
begin

text \<open>
  Which processes are profiled, \<^verbatim>\<open>src/utils/process_filter.c\<close>: the decision from the command line, with the
  list of launchers, schedulers and shell tools that are left alone, and the two decisions that are cached
  once per process. \<open>getenv\<close>, the bytes read from \<^verbatim>\<open>/proc/self/cmdline\<close> and the target of
  \<^verbatim>\<open>/proc/self/exe\<close> are arguments; \<open>None\<close> there is a failure to open or read. A cached \<^verbatim>\<open>-1\<close> is \<open>None\<close>.
\<close>

definition strcasecmp_zero :: "string \<Rightarrow> string \<Rightarrow> bool" where
  "strcasecmp_zero left right \<longleftrightarrow> map ascii_tolower left = map ascii_tolower right"

subsection \<open>Commands\<close>

text \<open>\<open>cmdline\<close> is what reading at most 1024 bytes of the command line gave.\<close>

definition get_argv0 :: "string option \<Rightarrow> string" where
  "get_argv0 cmdline =
     (case cmdline of
        None \<Rightarrow> ''null''
      | Some bytes \<Rightarrow> if bytes = [] then ''null'' else c_string (butlast bytes))"

definition check_list :: "string list" where
  "check_list =
     [''peak_detach_helper'', ''ibrun'', ''mpirun'', ''mpiexec'', ''mpiexec.hydra'', ''mpirun_rsh'',
      ''prterun'', ''prted'', ''orterun'', ''orted'', ''prun'', ''srun'', ''jsrun'', ''aprun'',
      ''hydra_bstrap_proxy'', ''hydra_pmi_proxy'', ''pmi_proxy'', ''pmi2_proxy'', ''pmix_server'',
      ''pmix_proxy'', ''tau_exec'', ''mpiexec_mpt'', ''oshrun'', ''shmemrun'', ''mpd'', ''mpdboot'',
      ''mpdallexit'', ''mpdtrace'', ''salloc'', ''sbatch'', ''squeue'', ''scancel'', ''sinfo'', ''scontrol'',
      ''sreport'', ''sacct'', ''bsub'', ''bjobs'', ''bkill'', ''qsub'', ''qstat'', ''qdel'', ''qhold'',
      ''qalter'', ''lscpu'', ''hostname'', ''numactl'', ''sh'', ''bash'', ''lmod'', ''ml'', ''modulecmd'',
      ''env'', ''timeout'', ''time'', ''awk'', ''sed'', ''grep'', ''ls'', ''cat'', ''rm'', ''cp'', ''mv'',
      ''ln'', ''chmod'', ''chown'', ''find'', ''pwd'', ''echo'', ''whoami'', ''date'', ''mkdir'', ''mktemp'',
      ''rmdir'', ''df'', ''du'', ''top'', ''ps'', ''kill'', ''uname'', ''ifconfig'', ''ping'', ''curl'',
      ''wget'', ''scp'', ''rsync'', ''zip'', ''unzip'', ''tar'', ''gzip'', ''gunzip'', ''sort'', ''uniq'',
      ''head'', ''tail'', ''tee'', ''cut'', ''tr'', ''wc'', ''diff'', ''patch'', ''make'', ''node'', ''npm'',
      ''git'', ''ssh'', ''sftp'', ''bc'', ''which'', ''seq'', ''stty'', ''tty'', ''tput'', ''clear'',
      ''basename'', ''dirname'', ''readlink'', ''realpath'', ''xargs'', ''expr'', ''test'', ''['', ''true'',
      ''false'']"

definition get_base_name :: "string \<Rightarrow> string" where
  "get_base_name path = (case strrchr_tail (CHR ''/'') path of Some base \<Rightarrow> base | None \<Rightarrow> path)"

definition env_truthy :: "string option \<Rightarrow> bool" where
  "env_truthy v =
     (case v of
        None \<Rightarrow> False
      | Some t \<Rightarrow>
          strcasecmp_zero t ''1'' \<or> strcasecmp_zero t ''true'' \<or> strcasecmp_zero t ''yes'' \<or> strcasecmp_zero t ''on'')"

definition env_nonempty :: "environment \<Rightarrow> string \<Rightarrow> bool" where
  "env_nonempty getenv name = (case getenv name of None \<Rightarrow> False | Some t \<Rightarrow> t \<noteq> [])"

definition command_is_jit_runtime :: "string option \<Rightarrow> bool" where
  "command_is_jit_runtime command =
     (case command of
        None \<Rightarrow> False
      | Some c \<Rightarrow> get_base_name c = ''node'' \<or> get_base_name c = ''nodejs'')"

definition starts_with :: "string \<Rightarrow> string \<Rightarrow> bool" where
  "starts_with t pre \<longleftrightarrow> take (length pre) t = pre"

definition is_versioned_command :: "string \<Rightarrow> string \<Rightarrow> bool" where
  "is_versioned_command command pre \<longleftrightarrow>
     starts_with command pre \<and>
     (case drop (length pre) command of [] \<Rightarrow> True | c # _ \<Rightarrow> c_isdigit c)"

definition check_interpreter_command :: "string option \<Rightarrow> bool" where
  "check_interpreter_command command =
     (case command of
        None \<Rightarrow> False
      | Some c \<Rightarrow>
          let base_name = get_base_name c in
          is_versioned_command base_name ''lua'' \<or> base_name = ''luajit'' \<or> is_versioned_command base_name ''python'' \<or>
          is_versioned_command base_name ''perl'' \<or> is_versioned_command base_name ''tclsh'')"

definition arg_looks_like_module_helper :: "string \<Rightarrow> bool" where
  "arg_looks_like_module_helper arg \<longleftrightarrow>
     has_substring arg ''lmod'' \<or> has_substring arg ''Lmod'' \<or> has_substring arg ''modulecmd'' \<or> has_substring arg ''/Modules/''"

definition check_command :: "string option \<Rightarrow> bool" where
  "check_command command =
     (case command of
        None \<Rightarrow> False
      | Some c \<Rightarrow> list_ex (\<lambda>entry. get_base_name c = entry) check_list)"

text \<open>\<open>argv\<close> is \<open>None\<close> for a null pointer, else the arguments in front of the first null entry.\<close>

definition check_module_helper_command :: "int \<Rightarrow> string list option \<Rightarrow> bool" where
  "check_module_helper_command argc argv =
     (case argv of
        None \<Rightarrow> False
      | Some [] \<Rightarrow> False
      | Some (command # args) \<Rightarrow>
          if argc \<le> 0 \<or> \<not> check_interpreter_command (Some command) then False
          else list_ex arg_looks_like_module_helper (take (nat argc) (command # args)))"

definition should_profile_command :: "environment \<Rightarrow> int \<Rightarrow> string list option \<Rightarrow> bool" where
  "should_profile_command getenv argc argv =
     (case argv of
        None \<Rightarrow> False
      | Some [] \<Rightarrow> False
      | Some (command # args) \<Rightarrow>
          if argc \<le> 0 then False
          else if check_interpreter_command (Some command) then env_truthy (getenv ''PEAK_PROFILE_INTERPRETERS'')
          else if \<not> check_command (Some command) then True
          else env_truthy (getenv ''PEAK_JIT_ENABLE'') \<and> command_is_jit_runtime (Some command))"

subsection \<open>The command line of the process\<close>

text \<open>The loop that splits the bytes at NUL characters; \<open>argc\<close> arguments were found so far.\<close>

function split_args :: "nat \<Rightarrow> string \<Rightarrow> string list" where
  "split_args argc buffer =
     (if argc \<ge> 127 then []
      else
        let rest = dropWhile (\<lambda>c. c = NUL) buffer in
        if rest = [] then []
        else takeWhile (\<lambda>c. c \<noteq> NUL) rest # split_args (argc + 1) (drop 1 (dropWhile (\<lambda>c. c \<noteq> NUL) rest)))"
  by pat_completeness auto

termination
  by (relation "measure (\<lambda>(argc, buffer). 127 - argc)") auto

declare split_args.simps [simp del]

definition process_profile_from_proc_cmdline :: "environment \<Rightarrow> string option \<Rightarrow> bool option" where
  "process_profile_from_proc_cmdline getenv cmdline =
     (case cmdline of
        None \<Rightarrow> None
      | Some bytes \<Rightarrow>
          if bytes = [] then None
          else
            let argv = split_args 0 (take 4095 bytes) in
            if argv = [] then None else Some (should_profile_command getenv (int (length argv)) (Some argv)))"

definition process_profile_from_proc_exe :: "environment \<Rightarrow> string option \<Rightarrow> bool option" where
  "process_profile_from_proc_exe getenv exe =
     (case exe of
        None \<Rightarrow> None
      | Some path \<Rightarrow> if path = [] then None else Some (should_profile_command getenv 1 (Some [c_string (take 4095 path)])))"

subsection \<open>The cached decisions\<close>

record process_filter =
  profile_enabled_cache :: "bool option"
  requests_work_cache :: "bool option"

text \<open>The compare-and-exchange of a decision into its cache: the decision that holds, and the cache.\<close>

definition publish_decision :: "bool \<Rightarrow> bool option \<Rightarrow> bool \<times> bool option" where
  "publish_decision decision cache =
     (case cache of None \<Rightarrow> (decision, Some decision) | Some other \<Rightarrow> (other, cache))"

definition set_process_requests_work :: "int \<Rightarrow> process_filter \<Rightarrow> process_filter" where
  "set_process_requests_work enabled st = st\<lparr>requests_work_cache := Some (enabled \<noteq> 0)\<rparr>"

text \<open>\<open>others\<close> is what other threads do to the cache between the load and the compare-and-exchange.\<close>

definition process_requests_work ::
  "environment \<Rightarrow> (bool option \<Rightarrow> bool option) \<Rightarrow> bool option \<Rightarrow> bool \<times> bool option" where
  "process_requests_work getenv others cache =
     (case cache of
        Some v \<Rightarrow> (v, cache)
      | None \<Rightarrow>
          let requested =
            env_nonempty getenv ''PEAK_TARGET'' \<or> env_nonempty getenv ''PEAK_TARGET_FILE'' \<or>
            env_nonempty getenv ''PEAK_TARGET_GROUP'' \<or> env_nonempty getenv ''PEAK_GPU_TARGET'' \<or>
            env_nonempty getenv ''PEAK_GPU_TARGET_FILE'' \<or> env_truthy (getenv ''PEAK_GPU_MONITOR_ALL'') \<or>
            env_truthy (getenv ''PEAK_MEMORY_PROFILE'') \<or> env_truthy (getenv ''PEAK_JIT_ENABLE'')
          in publish_decision requested (others cache))"

definition set_process_profile_enabled :: "int \<Rightarrow> process_filter \<Rightarrow> process_filter" where
  "set_process_profile_enabled enabled st = st\<lparr>profile_enabled_cache := Some (enabled \<noteq> 0)\<rparr>"

definition process_profile_enabled ::
  "environment \<Rightarrow> string option \<Rightarrow> string option \<Rightarrow> (bool option \<Rightarrow> bool option) \<Rightarrow> bool option \<Rightarrow> bool \<times> bool option" where
  "process_profile_enabled getenv cmdline exe others cache =
     (case cache of
        Some v \<Rightarrow> (v, cache)
      | None \<Rightarrow>
          let enabled =
            (case process_profile_from_proc_cmdline getenv cmdline of
               Some v \<Rightarrow> v
             | None \<Rightarrow> (case process_profile_from_proc_exe getenv exe of Some v \<Rightarrow> v | None \<Rightarrow> True))
          in publish_decision enabled (others cache))"

subsection \<open>One decision for the whole process\<close>

text \<open>
  The contract of a cached decision: a decision that is there is returned and kept, one that another
  thread published meanwhile is adopted, and a call leaves the decision it returns behind. Its clients
  are the threads of the process, which must all act on the same decision.
\<close>

locale decision_cache =
  fixes query :: "(bool option \<Rightarrow> bool option) \<Rightarrow> bool option \<Rightarrow> bool \<times> bool option"
  assumes query_leaves: "snd (query others cache) = Some (fst (query others cache))"
    and query_keeps: "query others (Some v) = (v, Some v)"
    and query_adopts: "others None = Some v \<Longrightarrow> query others None = (v, Some v)"
begin

fun query_all :: "(bool option \<Rightarrow> bool option) list \<Rightarrow> bool option \<Rightarrow> bool list \<times> bool option" where
  "query_all [] cache = ([], cache)"
| "query_all (others # rest) cache =
     (let (v, c1) = query others cache; (vs, c2) = query_all rest c1 in (v # vs, c2))"

lemma query_all_decided: "query_all qs (Some v) = (replicate (length qs) v, Some v)"
  by (induction qs) (simp_all add: query_keeps)

lemma query_all_agree: "\<exists>v. fst (query_all qs cache) = replicate (length qs) v"
proof (cases qs)
  case (Cons others rest)
  obtain v where "query others cache = (v, Some v)"
    using query_leaves [of others cache] by (metis prod.collapse)
  then show ?thesis
    by (simp add: Cons query_all_decided)
qed simp

end

lemma publish_decision_leaves: "snd (publish_decision d c) = Some (fst (publish_decision d c))"
  by (cases c) (simp_all add: publish_decision_def)

interpretation requests_work: decision_cache "process_requests_work getenv" for getenv
  by unfold_locales
    (auto simp: process_requests_work_def publish_decision_leaves publish_decision_def Let_def split: option.splits)

interpretation profile_enabled: decision_cache "process_profile_enabled getenv cmdline exe" for getenv cmdline exe
  by unfold_locales
    (auto simp: process_profile_enabled_def publish_decision_leaves publish_decision_def Let_def split: option.splits)

subsection \<open>The decision from the command line\<close>

lemma split_args_tokens: "split_args n buffer = take (127 - n) (tokens NUL buffer)"
proof (induction n buffer rule: split_args.induct)
  case (1 n buffer)
  let ?rest = "dropWhile (\<lambda>c. c = NUL) buffer"
  show ?case
  proof (cases "n \<ge> 127 \<or> ?rest = []")
    case True
    then show ?thesis
      using tokens_step [of NUL buffer] by (auto simp: split_args.simps [of n buffer])
  next
    case False
    let ?next = "drop 1 (dropWhile (\<lambda>c. c \<noteq> NUL) ?rest)"
    obtain k where k: "127 - n = Suc k" "127 - (n + 1) = k"
      using False by (cases "127 - n") auto
    have "split_args n buffer = takeWhile (\<lambda>c. c \<noteq> NUL) ?rest # take k (tokens NUL ?next)"
      using 1 False k by (simp add: split_args.simps [of n buffer] Let_def)
    moreover have "tokens NUL buffer = takeWhile (\<lambda>c. c \<noteq> NUL) ?rest # tokens NUL ?next"
      using False tokens_step [of NUL buffer] by (simp add: Let_def)
    ultimately show ?thesis
      by (simp add: k)
  qed
qed

text \<open>The last component of a path, and the commands that are interpreters.\<close>

lemma get_base_name_component:
  assumes "CHR ''/'' \<notin> set base"
  shows "get_base_name base = base" "get_base_name (directory @ CHR ''/'' # base) = base"
proof -
  have r: "takeWhile (\<lambda>c. c \<noteq> CHR ''/'') (rev base @ CHR ''/'' # rev directory) = rev base"
    using assms by (subst takeWhile_append2) auto
  show "get_base_name base = base" "get_base_name (directory @ CHR ''/'' # base) = base"
    using assms r by (simp_all add: get_base_name_def strrchr_tail_def)
qed

definition interpreter_name :: "string \<Rightarrow> bool" where
  "interpreter_name base \<longleftrightarrow>
     base = ''luajit'' \<or>
     (\<exists>pre \<in> {''lua'', ''python'', ''perl'', ''tclsh''}. \<exists>suffix. base = pre @ suffix \<and> (suffix = [] \<or> c_isdigit (hd suffix)))"

lemma is_versioned_command_iff:
  "is_versioned_command base pre \<longleftrightarrow> (\<exists>suffix. base = pre @ suffix \<and> (suffix = [] \<or> c_isdigit (hd suffix)))"
proof
  assume "is_versioned_command base pre"
  then show "\<exists>suffix. base = pre @ suffix \<and> (suffix = [] \<or> c_isdigit (hd suffix))"
    using append_take_drop_id [of "length pre" base]
    by (intro exI [of _ "drop (length pre) base"])
      (simp add: is_versioned_command_def starts_with_def split: list.splits)
qed (auto simp: is_versioned_command_def starts_with_def split: list.splits)

lemma interpreter_command_iff: "check_interpreter_command (Some c) \<longleftrightarrow> interpreter_name (get_base_name c)"
  by (auto simp: check_interpreter_command_def interpreter_name_def is_versioned_command_iff Let_def)

text \<open>(C25) Which process is profiled: the first nonempty argument of its command line decides by the name behind
  its last slash. Names on the list of launchers and tools are left alone (but \<^verbatim>\<open>node\<close> is profiled when JIT
  profiling is asked for), interpreters are profiled only when asked for, and everything else is
  profiled. All threads of the process get the same answer, whatever they publish meanwhile.\<close>

theorem profile_decision:
  assumes "tokens NUL (take 4095 cmdline) = command # args" and "base = get_base_name command"
  shows "(fst (process_profile_enabled getenv (Some cmdline) exe id None) \<longleftrightarrow>
      (if interpreter_name base then env_truthy (getenv ''PEAK_PROFILE_INTERPRETERS'')
       else base \<notin> set check_list \<or> (base = ''node'' \<and> env_truthy (getenv ''PEAK_JIT_ENABLE'')))) \<and>
    (\<exists>v. fst (profile_enabled.query_all getenv (Some cmdline) exe calls cache) = replicate (length calls) v)"
proof (rule conjI)
  have a: "split_args 0 (take 4095 cmdline) = command # take 126 args" "cmdline \<noteq> []"
    using assms(1) by (auto simp: split_args_tokens tokens_def)
  have c: "check_command (Some command) \<longleftrightarrow> base \<in> set check_list"
    by (auto simp: check_command_def list_ex_iff assms(2))
  have n: "''nodejs'' \<notin> set check_list"
    by (simp add: check_list_def)
  show "fst (process_profile_enabled getenv (Some cmdline) exe id None) \<longleftrightarrow>
      (if interpreter_name base then env_truthy (getenv ''PEAK_PROFILE_INTERPRETERS'')
       else base \<notin> set check_list \<or> (base = ''node'' \<and> env_truthy (getenv ''PEAK_JIT_ENABLE'')))"
    using a c n
    by (auto simp: process_profile_enabled_def process_profile_from_proc_cmdline_def publish_decision_def
        should_profile_command_def command_is_jit_runtime_def interpreter_command_iff assms(2) Let_def)
  show "\<exists>v. fst (profile_enabled.query_all getenv (Some cmdline) exe calls cache) = replicate (length calls) v"
    by (rule profile_enabled.query_all_agree)
qed

theorem profile_decision_witness:
  "\<not> fst (process_profile_enabled (\<lambda>_. None) (Some (''/usr/bin/srun'' @ [NUL] @ ''app'' @ [NUL])) None id None)"
proof -
  have t: "tokens NUL (take 4095 (''/usr/bin/srun'' @ [NUL] @ ''app'' @ [NUL])) = ''/usr/bin/srun'' # [''app'']"
    by code_simp
  have "get_base_name ''/usr/bin/srun'' = ''srun''"
    by code_simp
  moreover have "\<not> interpreter_name ''srun''"
    by (auto simp: interpreter_name_def append_eq_Cons_conv)
  moreover have "''srun'' \<in> set check_list"
    by (simp add: check_list_def)
  ultimately show ?thesis
    using profile_decision [OF t refl, of "\<lambda>_. None" None] by simp
qed

end
