(* ===== verification/Stat_Guard.thy ===== *)
theory Stat_Guard
  imports Peak_Prelude
begin

text \<open>
  The guard of filesystem queries, \<^verbatim>\<open>src/filesystem_stat_guard.c\<close>: the wrappers of \<^verbatim>\<open>statfs\<close> and its relatives
  are admitted readers, and the controller that is about to stop all threads is the writer, which closes
  the gate and waits for the readers to drain.

  Every thread is a stack of calls: at the bottom at most one call of the controller, on top of it the
  queries, a query above another being the one of a signal handler that interrupted it. One step is one
  atomic access. A loop of loads and weak exchanges whose exchange succeeds only on the value it decided
  on is a single step at its successful exchange; where something else is read in between, the loads are
  steps of their own. \<open>Fail\<close> is a weak exchange that fails, \<open>Expire\<close> a clock that fails or shows that the
  drain budget is used up. The 64-bit words are records of their bit fields; \<open>pack_regions\<close> and the lemmas
  on it tie the fields of the shared word to its bits. The lookup of the wrapped functions, \<^verbatim>\<open>errno\<close> and the
  cancellation state are not modelled.
\<close>

subsection \<open>The words\<close>

record region_word =
  generation :: nat
  stop :: bool
  count :: nat

record token =
  tok_generation :: nat
  previous :: nat
  used :: bool
  admitted :: bool

record control =
  head :: nat
  writing :: bool
  poison :: bool
  saturated :: bool
  depth :: nat
  epoch :: nat

definition COUNT_MASK :: nat where
  "COUNT_MASK = 2 ^ 31 - 1"

definition DEPTH_MAX :: nat where
  "DEPTH_MAX = 2 ^ 25 - 1"

definition TOKEN_CAPACITY :: nat where
  "TOKEN_CAPACITY = 4"

definition empty_token :: token where
  "empty_token = \<lparr>tok_generation = 0, previous = 0, used = False, admitted = False\<rparr>"

definition empty_control :: control where
  "empty_control = \<lparr>head = 0, writing = False, poison = False, saturated = False, depth = 0, epoch = 0\<rparr>"

text \<open>The words of a thread. The ghost component \<open>permanent\<close> counts the readers that the thread entered
  for good in the current generation.\<close>

record words =
  toks :: "nat \<Rightarrow> token"
  control :: control
  permanent :: nat

definition set_token :: "nat \<Rightarrow> (token \<Rightarrow> token) \<Rightarrow> words \<Rightarrow> words" where
  "set_token i f w = w\<lparr>toks := (toks w)(i := f (toks w i))\<rparr>"

definition update_control :: "(control \<Rightarrow> control) \<Rightarrow> words \<Rightarrow> words" where
  "update_control f w = w\<lparr>control := f (control w)\<rparr>"

subsection \<open>Queries\<close>

datatype choice = Go | Fail | Expire

text \<open>The places of a query, from the reservation of its token to its return. \<open>Call True\<close> is the query
  inside the C library with a reader of its thread counted, \<open>Call False\<close> one that bypassed the gate.\<close>

datatype query_pc =
    Reserve nat | Enter_check | Enter_load | Enter_head region_word | Enter_token region_word nat
  | Enter_cas region_word bool | Poison_publish nat | Poison_state | Poison_check control
  | Meta_state nat | Meta_store nat nat | Head_publish | Meta_reload | Meta_check token
  | Undo_head nat | Undo_admit | Call bool
  | Leave_load | Leave_head nat | Leave_admit | Leave_generation | Leave_count nat | Free

record query =
  index :: nat
  pc :: query_pc

definition new_query :: query where
  "new_query = \<lparr>index = 0, pc = Reserve 0\<rparr>"

type_synonym query_result = "query option \<times> region_word \<times> words"

definition goto :: "query \<Rightarrow> query_pc \<Rightarrow> region_word \<Rightarrow> words \<Rightarrow> query_result" where
  "goto q p r w = (Some (q\<lparr>pc := p\<rparr>), r, w)"

definition reserve_token :: "query \<Rightarrow> nat \<Rightarrow> region_word \<Rightarrow> words \<Rightarrow> query_result" where
  "reserve_token q i r w =
     (if i \<ge> TOKEN_CAPACITY then goto q Enter_check r w
      else if used (toks w (i + 1)) then goto q (Reserve (i + 1)) r w
      else (Some \<lparr>index = i + 1, pc = Enter_check\<rparr>, r, set_token (i + 1) (\<lambda>_. empty_token\<lparr>used := True\<rparr>) w))"

definition nested :: "region_word \<Rightarrow> nat \<Rightarrow> words \<Rightarrow> bool" where
  "nested old h w \<longleftrightarrow> h \<noteq> 0 \<and> admitted (toks w h) \<and> tok_generation (toks w h) = generation old"

definition enter_region :: "choice \<Rightarrow> query \<Rightarrow> region_word \<Rightarrow> words \<Rightarrow> query_result" where
  "enter_region c q r w =
     (case pc q of
        Enter_check \<Rightarrow>
          if depth (control w) \<noteq> 0 \<and> (\<not> saturated (control w) \<or> writing (control w)) then goto q (Call False) r w
          else goto q Enter_load r w
      | Enter_load \<Rightarrow> goto q (Enter_head r) r w
      | Enter_head old \<Rightarrow>
          if index q = 0 \<and> poison (control w) \<and> epoch (control w) = generation old then goto q (Call True) r w
          else goto q (Enter_token old (head (control w))) r w
      | Enter_token old h \<Rightarrow>
          if index q = 0 \<and> nested old h w then goto q (Call True) r w
          else if (stop old \<and> \<not> nested old h w) \<or> count old = COUNT_MASK then goto q Enter_load r w
          else goto q (Enter_cas old (nested old h w)) r w
      | Enter_cas old n \<Rightarrow>
          if c = Fail \<or> r \<noteq> old then goto q Enter_load r w
          else if index q = 0 then
            goto q (Poison_publish (generation old)) (r\<lparr>count := count r + 1\<rparr>) (w\<lparr>permanent := permanent w + 1\<rparr>)
          else goto q (Meta_state (generation old)) (r\<lparr>count := count r + 1\<rparr>) w
      | Poison_publish g \<Rightarrow> goto q Poison_state r (update_control (\<lambda>x. x\<lparr>epoch := g, poison := True\<rparr>) w)
      | Poison_state \<Rightarrow> goto q (Poison_check (control w)) r w
      | Poison_check st \<Rightarrow>
          if poison st \<and> epoch st = generation r then goto q (Call True) r w else goto q Enter_load r w
      | Meta_state g \<Rightarrow> goto q (Meta_store g (head (control w))) r w
      | Meta_store g p \<Rightarrow>
          goto q Head_publish r
            (set_token (index q) (\<lambda>_. \<lparr>tok_generation = g, previous = p, used = True, admitted = True\<rparr>) w)
      | Head_publish \<Rightarrow> goto q Meta_reload r (update_control (\<lambda>x. x\<lparr>head := index q\<rparr>) w)
      | Meta_reload \<Rightarrow> goto q (Meta_check (toks w (index q))) r w
      | Meta_check m \<Rightarrow>
          if tok_generation m \<noteq> generation r then goto q (Undo_head (previous m)) r w else goto q (Call True) r w
      | Undo_head p \<Rightarrow> goto q Undo_admit r (update_control (\<lambda>x. x\<lparr>head := p\<rparr>) w)
      | Undo_admit \<Rightarrow> goto q Enter_load r (set_token (index q) (\<lambda>t. t\<lparr>admitted := False\<rparr>) w)
      | _ \<Rightarrow> (Some q, r, w))"

text \<open>The step behind the call belongs to the wrapper: \<^verbatim>\<open>cleanup_region\<close> returns at once without a token.\<close>

definition leave_region :: "query \<Rightarrow> region_word \<Rightarrow> words \<Rightarrow> query_result" where
  "leave_region q r w =
     (case pc q of
        Leave_load \<Rightarrow>
          if \<not> admitted (toks w (index q)) then goto q Free r w
          else goto q (Leave_head (previous (toks w (index q)))) r w
      | Leave_head p \<Rightarrow> goto q Leave_admit r (update_control (\<lambda>x. x\<lparr>head := p\<rparr>) w)
      | Leave_admit \<Rightarrow> goto q Leave_generation r (set_token (index q) (\<lambda>t. t\<lparr>admitted := False\<rparr>) w)
      | Leave_generation \<Rightarrow> goto q (Leave_count (tok_generation (toks w (index q)))) r w
      | Leave_count g \<Rightarrow>
          if generation r = g \<and> count r \<noteq> 0 then goto q Free (r\<lparr>count := count r - 1\<rparr>) w else goto q Free r w
      | Free \<Rightarrow> (None, r, set_token (index q) (\<lambda>_. empty_token) w)
      | _ \<Rightarrow> (Some q, r, w))"

definition query_step :: "choice \<Rightarrow> query \<Rightarrow> region_word \<Rightarrow> words \<Rightarrow> query_result" where
  "query_step c q r w =
     (case pc q of
        Reserve i \<Rightarrow> reserve_token q i r w
      | Call b \<Rightarrow> if index q = 0 then (None, r, w) else goto q Leave_load r w
      | Leave_load \<Rightarrow> leave_region q r w
      | Leave_head p \<Rightarrow> leave_region q r w
      | Leave_admit \<Rightarrow> leave_region q r w
      | Leave_generation \<Rightarrow> leave_region q r w
      | Leave_count g \<Rightarrow> leave_region q r w
      | Free \<Rightarrow> leave_region q r w
      | _ \<Rightarrow> enter_region c q r w)"

subsection \<open>The writer\<close>

text \<open>The places of \<^verbatim>\<open>try_stop\<close> and \<^verbatim>\<open>resume\<close>; \<open>Deferred b g\<close> is the label \<^verbatim>\<open>deferred\<close> with \<^verbatim>\<open>gate_closed\<close> \<open>b\<close>.\<close>

datatype writer_pc =
    Stop_load | Stop_control region_word | Stop_token nat control | Stop_close nat
  | Own_load nat | Own_regions nat control | Own_cas nat control
  | Drain nat | Drain_resume nat | Drain_open nat nat
  | Deferred bool nat | Defer_load nat | Defer_regions nat control | Defer_cas nat control | Defer_count
  | Resume_control | Resume_open nat

datatype writer_result = Goto writer_pc | Return bool

definition open_gate :: "nat \<Rightarrow> region_word \<Rightarrow> region_word" where
  "open_gate g r = (if generation r = g \<and> stop r then r\<lparr>stop := False\<rparr> else r)"

text \<open>\<open>ready\<close> tells whether the wrapped functions are resolved and the fork handler is registered.\<close>

definition writer_step ::
  "bool \<Rightarrow> choice \<Rightarrow> writer_pc \<Rightarrow> region_word \<Rightarrow> words \<Rightarrow> nat \<Rightarrow> writer_result \<times> region_word \<times> words \<times> nat" where
  "writer_step ready c p r w deferred =
     (case p of
        Stop_load \<Rightarrow> (Goto (Stop_control r), r, w, deferred)
      | Stop_control current \<Rightarrow> (Goto (Stop_token (generation current) (control w)), r, w, deferred)
      | Stop_token g st \<Rightarrow>
          if \<not> ready \<or> writing st \<or> poison st \<or> saturated st \<or>
            (head st \<noteq> 0 \<and> admitted (toks w (head st)) \<and> tok_generation (toks w (head st)) = g) \<or> c = Expire
          then (Goto (Deferred False g), r, w, deferred)
          else (Goto (Stop_close g), r, w, deferred)
      | Stop_close g \<Rightarrow>
          if stop r \<or> generation r \<noteq> g then (Goto (Deferred False g), r, w, deferred)
          else if c = Fail then (Goto (Stop_close g), r, w, deferred)
          else if c = Expire then (Goto (Deferred False g), r, w, deferred)
          else (Goto (Own_load g), r\<lparr>stop := True\<rparr>, w, deferred)
      | Own_load g \<Rightarrow>
          if poison (control w) then (Goto (Deferred True g), r, w, deferred)
          else (Goto (Own_regions g (control w)), r, w, deferred)
      | Own_regions g st \<Rightarrow>
          if generation r \<noteq> g then (Goto (Deferred True g), r, w, deferred) else (Goto (Own_cas g st), r, w, deferred)
      | Own_cas g st \<Rightarrow>
          if c = Go \<and> control w = st
          then (Goto (Drain g), r, update_control (\<lambda>_. st\<lparr>epoch := g, writing := True\<rparr>) w, deferred)
          else if c = Expire then (Goto (Deferred True g), r, w, deferred)
          else (Goto (Own_load g), r, w, deferred)
      | Drain g \<Rightarrow>
          if generation r \<noteq> g then (Goto (Deferred True g), r, w, deferred)
          else if count r = 0 then (Return True, r, w, deferred)
          else if c = Expire then (Goto (Drain_resume g), r, w, deferred)
          else (Goto (Drain g), r, w, deferred)
      | Drain_resume g \<Rightarrow>
          (Goto (if writing (control w) then Drain_open g (epoch (control w)) else Deferred False g), r,
           update_control (\<lambda>x. x\<lparr>writing := False\<rparr>) w, deferred)
      | Drain_open g e \<Rightarrow> (Goto (Deferred False g), open_gate e r, w, deferred)
      | Deferred closed g \<Rightarrow> (Goto (Defer_load g), if closed then open_gate g r else r, w, deferred)
      | Defer_load g \<Rightarrow> (Goto (Defer_regions g (control w)), r, w, deferred)
      | Defer_regions g st \<Rightarrow>
          (Goto (if writing st \<and> epoch st = g \<and> generation r \<noteq> g then Defer_cas g st else Defer_count), r, w, deferred)
      | Defer_cas g st \<Rightarrow>
          if c \<noteq> Fail \<and> control w = st then (Goto Defer_count, r, update_control (\<lambda>_. st\<lparr>writing := False\<rparr>) w, deferred)
          else (Goto (Defer_load g), r, w, deferred)
      | Defer_count \<Rightarrow> (Return False, r, w, deferred + 1)
      | Resume_control \<Rightarrow>
          (if writing (control w) then Goto (Resume_open (epoch (control w))) else Return False, r,
           update_control (\<lambda>x. x\<lparr>writing := False\<rparr>) w, deferred)
      | Resume_open g \<Rightarrow> (Return False, open_gate g r, w, deferred))"

subsection \<open>Controller scopes and fork\<close>

definition controller_enter :: "words \<Rightarrow> words" where
  "controller_enter =
     update_control (\<lambda>x. if depth x = DEPTH_MAX then x\<lparr>saturated := True\<rparr>
                         else if \<not> saturated x then x\<lparr>depth := depth x + 1\<rparr> else x)"

definition controller_leave :: "words \<Rightarrow> words" where
  "controller_leave = update_control (\<lambda>x. if depth x \<noteq> 0 \<and> \<not> saturated x then x\<lparr>depth := depth x - 1\<rparr> else x)"

definition controller_after_fork_child :: "words \<Rightarrow> words" where
  "controller_after_fork_child = update_control (\<lambda>x. x\<lparr>depth := 0, saturated := False\<rparr>)"

text \<open>The walk along the admitted records; \<open>None\<close> is a walk that does not end within the given steps.\<close>

fun retag :: "nat \<Rightarrow> nat \<Rightarrow> nat \<Rightarrow> (nat \<Rightarrow> token) \<Rightarrow> (nat \<times> (nat \<Rightarrow> token)) option" where
  "retag fuel g i ts =
     (if i = 0 then Some (0, ts)
      else case fuel of
        0 \<Rightarrow> None
      | Suc n \<Rightarrow>
          let ts' = (if admitted (ts i) then ts(i := (ts i)\<lparr>tok_generation := g\<rparr>) else ts) in
          case retag n g (previous (ts i)) ts' of
            None \<Rightarrow> None
          | Some (k, ts'') \<Rightarrow> Some (if admitted (ts i) then k + 1 else k, ts''))"

declare retag.simps [simp del]

definition after_fork_child :: "region_word \<Rightarrow> words \<Rightarrow> (region_word \<times> words) option" where
  "after_fork_child r w =
     (let g = (generation r + 1) mod 2 ^ 32;
          x = control w;
          live = (if poison x then 1 else 0) in
      case retag TOKEN_CAPACITY g (head x) (toks w) of
        None \<Rightarrow> None
      | Some (k, ts) \<Rightarrow>
          Some (\<lparr>generation = g, stop = False, count = live + k\<rparr>,
                w\<lparr>toks := ts, control := x\<lparr>writing := False, depth := 0, saturated := False, epoch := g\<rparr>,
                  permanent := live\<rparr>))"

subsection \<open>The guard with its threads\<close>

record thread =
  words :: words
  queries :: "query list"
  writer :: "writer_pc option"

record guard =
  regions :: region_word
  threads :: "thread list"
  deferred_stops :: nat

definition new_thread :: thread where
  "new_thread =
     \<lparr>words = \<lparr>toks = \<lambda>_. empty_token, control = empty_control, permanent = 0\<rparr>, queries = [], writer = None\<rparr>"

definition initial_guard :: guard where
  "initial_guard =
     \<lparr>regions = \<lparr>generation = 0, stop = False, count = 0\<rparr>, threads = [new_thread], deferred_stops = 0\<rparr>"

text \<open>
  What can happen: threads start and end, a thread (or a handler on it) starts a query, the top call of a
  thread makes a step, the controller calls, a handler leaves the top queries by a non-local jump, and a
  thread forks, of which the model follows the child.
\<close>

datatype event =
    Spawn | Exit nat | Query nat | Query_step nat choice | Try_stop nat | Resume nat | Writer_step nat bool choice
  | Controller_enter nat | Controller_leave nat | Longjmp nat nat | Fork nat

definition idle :: "thread \<Rightarrow> bool" where
  "idle th \<longleftrightarrow> queries th = [] \<and> writer th = None"

definition thread_step :: "event \<Rightarrow> region_word \<Rightarrow> nat \<Rightarrow> thread \<Rightarrow> region_word \<times> nat \<times> thread" where
  "thread_step e r d th =
     (case e of
        Query t \<Rightarrow> (r, d, th\<lparr>queries := new_query # queries th\<rparr>)
      | Query_step t c \<Rightarrow>
          (case queries th of
             [] \<Rightarrow> (r, d, th)
           | q # qs \<Rightarrow>
               (case query_step c q r (words th) of
                  (q', r', w') \<Rightarrow>
                    (r', d, th\<lparr>words := w', queries := (case q' of None \<Rightarrow> qs | Some q'' \<Rightarrow> q'' # qs)\<rparr>)))
      | Try_stop t \<Rightarrow> (r, d, if idle th then th\<lparr>writer := Some Stop_load\<rparr> else th)
      | Resume t \<Rightarrow> (r, d, if idle th then th\<lparr>writer := Some Resume_control\<rparr> else th)
      | Writer_step t ready c \<Rightarrow>
          (case writer th of
             None \<Rightarrow> (r, d, th)
           | Some p \<Rightarrow>
               if queries th \<noteq> [] then (r, d, th)
               else (case writer_step ready c p r (words th) d of
                       (res, r', w', d') \<Rightarrow>
                         (r', d', th\<lparr>words := w', writer := (case res of Goto p' \<Rightarrow> Some p' | Return _ \<Rightarrow> None)\<rparr>)))
      | Controller_enter t \<Rightarrow> (r, d, if idle th then th\<lparr>words := controller_enter (words th)\<rparr> else th)
      | Controller_leave t \<Rightarrow> (r, d, if idle th then th\<lparr>words := controller_leave (words th)\<rparr> else th)
      | Longjmp t n \<Rightarrow> (r, d, th\<lparr>queries := drop n (queries th)\<rparr>)
      | _ \<Rightarrow> (r, d, th))"

text \<open>A thread ends outside every call of the guard and not between \<^verbatim>\<open>try_stop\<close> and \<^verbatim>\<open>resume\<close>.\<close>

fun event_thread :: "event \<Rightarrow> nat option" where
  "event_thread Spawn = None"
| "event_thread (Exit t) = Some t"
| "event_thread (Query t) = Some t"
| "event_thread (Query_step t c) = Some t"
| "event_thread (Try_stop t) = Some t"
| "event_thread (Resume t) = Some t"
| "event_thread (Writer_step t ready c) = Some t"
| "event_thread (Controller_enter t) = Some t"
| "event_thread (Controller_leave t) = Some t"
| "event_thread (Longjmp t n) = Some t"
| "event_thread (Fork t) = Some t"

definition guard_step :: "event \<Rightarrow> guard \<Rightarrow> guard" where
  "guard_step e s =
     (case event_thread e of
        None \<Rightarrow> s\<lparr>threads := threads s @ [new_thread]\<rparr>
      | Some t \<Rightarrow>
          if t \<ge> length (threads s) then s
          else
            let th = threads s ! t in
            (case e of
               Exit _ \<Rightarrow> if idle th \<and> \<not> writing (control (words th)) then s\<lparr>threads := (threads s)[t := new_thread]\<rparr> else s
             | Fork _ \<Rightarrow>
                 (case after_fork_child (regions s) (controller_after_fork_child (words th)) of
                    None \<Rightarrow> s
                  | Some (r, w) \<Rightarrow> s\<lparr>regions := r, threads := [th\<lparr>words := w\<rparr>]\<rparr>)
             | _ \<Rightarrow>
                 (case thread_step e (regions s) (deferred_stops s) th of
                    (r, d, th') \<Rightarrow> \<lparr>regions = r, threads = (threads s)[t := th'], deferred_stops = d\<rparr>)))"

subsection \<open>The shared word\<close>

definition pack_regions :: "region_word \<Rightarrow> uint64" where
  "pack_regions r = word_of_nat (generation r * 2 ^ 32 + (if stop r then 2 ^ 31 else 0) + count r)"

lemma pack_regions_value:
  assumes "generation r < 2 ^ 32" "count r \<le> COUNT_MASK"
  shows "unat (pack_regions r) = generation r * 2 ^ 32 + (if stop r then 2 ^ 31 else 0) + count r"
proof -
  have "generation r * 2 ^ 32 \<le> (2 ^ 32 - 1) * 2 ^ 32"
    using assms(1) by (intro mult_right_mono) auto
  then have "generation r * 2 ^ 32 + (if stop r then 2 ^ 31 else 0) + count r < 2 ^ LENGTH(64)"
    using assms(2) by (simp add: COUNT_MASK_def)
  then show ?thesis
    unfolding pack_regions_def unat_of_nat by (rule mod_less)
qed

text \<open>The fields are the bits that the masks of the source select, and adding one adds a reader.\<close>

lemma pack_regions_fields:
  assumes "generation r < 2 ^ 32" "count r \<le> COUNT_MASK"
  shows "unat (drop_bit 32 (pack_regions r)) = generation r"
    and "bit (pack_regions r) 31 = stop r"
    and "unat (take_bit 31 (pack_regions r)) = count r"
    and "pack_regions (r\<lparr>count := count r + 1\<rparr>) = pack_regions r + 1"
proof -
  note v = pack_regions_value [OF assms]
  have c: "count r < 2 ^ 31"
    using assms(2) by (simp add: COUNT_MASK_def)
  show "unat (drop_bit 32 (pack_regions r)) = generation r"
    using c by (subst unat_drop_bit_eq) (simp only: drop_bit_eq_div v, auto)
  define k where "k = 2 * generation r + (if stop r then 1 else 0)"
  have u: "unat (pack_regions r) = count r + k * 2 ^ 31"
    by (simp add: v k_def)
  have "unat (pack_regions r) div 2 ^ 31 = k"
    unfolding u using c by simp
  then have "odd (unat (pack_regions r) div 2 ^ 31) \<longleftrightarrow> stop r"
    by (simp add: k_def)
  then show "bit (pack_regions r) 31 = stop r"
    using bit_iff_odd [of "unat (pack_regions r)" 31] by (simp add: bit_unsigned_iff)
  have "unat (pack_regions r) mod 2 ^ 31 = count r"
    unfolding u using c by (simp only: mod_mult_self1 mod_less)
  then show "unat (take_bit 31 (pack_regions r)) = count r"
    by (subst unsigned_take_bit_eq) (simp only: take_bit_eq_mod)
  show "pack_regions (r\<lparr>count := count r + 1\<rparr>) = pack_regions r + 1"
    by (simp add: pack_regions_def)
qed

end
