(* ===== verification/Stat_Guard_Safety.thy ===== *)
theory Stat_Guard_Safety
  imports Stat_Guard
begin

text \<open>
  Why the guard of filesystem queries excludes queries from a stop window. Every admitted record of the
  current generation, every admission under way and every permanent reader of a thread is paid for in
  the reader count of the shared word (\<open>weight\<close>), and the head index of a thread leads along the records
  of its queries (\<open>path\<close>, \<open>cover\<close>), also after handlers have left queries by a jump. The gate is closed
  exactly while one thread owns it.
\<close>

subsection \<open>Records of a thread\<close>

definition counted :: "nat \<Rightarrow> token \<Rightarrow> bool" where
  "counted g tk \<longleftrightarrow> admitted tk \<and> tok_generation tk = g"

text \<open>The record of the query can be reached from the head index of its thread.\<close>

definition listed :: "(nat \<Rightarrow> token) \<Rightarrow> query \<Rightarrow> bool" where
  "listed ts q \<longleftrightarrow>
     (case pc q of
        Meta_reload \<Rightarrow> True | Meta_check _ \<Rightarrow> True | Undo_head _ \<Rightarrow> True
      | Call b \<Rightarrow> b \<and> index q \<noteq> 0
      | Leave_load \<Rightarrow> admitted (ts (index q)) | Leave_head _ \<Rightarrow> True
      | _ \<Rightarrow> False)"

fun path :: "nat \<Rightarrow> (nat \<Rightarrow> token) \<Rightarrow> nat \<Rightarrow> nat list \<Rightarrow> bool" where
  "path g ts h [] \<longleftrightarrow> h = 0"
| "path g ts h (i # l) \<longleftrightarrow> h = i \<and> i \<noteq> 0 \<and> counted g (ts i) \<and> path g ts (previous (ts i)) l"

lemma path_unique: "path g ts h l \<Longrightarrow> path g ts h l' \<Longrightarrow> l = l'"
proof (induction l arbitrary: h l')
  case Nil
  then show ?case
    by (cases l') auto
next
  case (Cons i l)
  then show ?case
    by (cases l') auto
qed

lemma path_suffix: "path g ts h l \<Longrightarrow> j \<in> set l \<Longrightarrow> \<exists>a b. l = a @ j # b \<and> path g ts j (j # b)"
proof (induction l arbitrary: h)
  case (Cons i l)
  show ?case
  proof (cases "j = i")
    case True
    then show ?thesis
      using Cons.prems(1) by (intro exI [of _ "[]"] exI [of _ l]) auto
  next
    case False
    then have "path g ts (previous (ts i)) l" "j \<in> set l"
      using Cons.prems by simp_all
    then obtain a b where "l = a @ j # b" "path g ts j (j # b)"
      using Cons.IH by blast
    then show ?thesis
      by (intro exI [of _ "i # a"] exI [of _ b]) simp
  qed
qed simp

lemma path_distinct: "path g ts h l \<Longrightarrow> distinct l"
proof (induction l arbitrary: h)
  case (Cons i l)
  have "i \<notin> set l"
  proof
    assume "i \<in> set l"
    moreover have "path g ts (previous (ts i)) l"
      using Cons.prems by simp
    ultimately obtain a b where "l = a @ i # b" "path g ts i (i # b)"
      using path_suffix by blast
    moreover have "path g ts i (i # l)"
      using Cons.prems by simp
    ultimately show False
      using path_unique by fastforce
  qed
  then show ?case
    using Cons by auto
qed simp

lemma path_update: "i \<notin> set l \<Longrightarrow> path g (ts(i := x)) h l \<longleftrightarrow> path g ts h l"
  by (induction l arbitrary: h) auto

lemma path_counted: "path g ts h l \<Longrightarrow> j \<in> set l \<Longrightarrow> counted g (ts j) \<and> j \<noteq> 0"
  by (induction l arbitrary: h) auto

text \<open>What a query relies on of the path from the head index.\<close>

definition needs :: "(nat \<Rightarrow> token) \<Rightarrow> bool \<Rightarrow> nat list \<Rightarrow> query \<Rightarrow> bool" where
  "needs ts perm l q \<longleftrightarrow>
     (case pc q of
        Enter_token _ h \<Rightarrow> h = 0 \<or> h \<in> set l
      | Enter_cas _ n \<Rightarrow> n \<longrightarrow> l \<noteq> []
      | Call b \<Rightarrow> b \<and> index q = 0 \<longrightarrow> perm \<or> l \<noteq> []
      | _ \<Rightarrow> True) \<and>
     (if listed ts q then index q \<in> set l else index q \<notin> set l)"

definition cover :: "nat \<Rightarrow> (nat \<Rightarrow> token) \<Rightarrow> bool \<Rightarrow> nat \<Rightarrow> nat set \<Rightarrow> query list \<Rightarrow> bool" where
  "cover g ts perm h A qs \<longleftrightarrow> (\<exists>l. path g ts h l \<and> (\<forall>q \<in> set qs. needs ts perm l q) \<and> A \<inter> set l = {})"

text \<open>The head index that a query will put back, and the condition on it for the queries below.\<close>

definition stored :: "(nat \<Rightarrow> token) \<Rightarrow> query \<Rightarrow> nat option" where
  "stored ts q =
     (case pc q of
        Meta_store _ p \<Rightarrow> Some p
      | Head_publish \<Rightarrow> Some (previous (ts (index q)))
      | _ \<Rightarrow> if listed ts q then Some (previous (ts (index q))) else None)"

fun stack_ok :: "nat \<Rightarrow> (nat \<Rightarrow> token) \<Rightarrow> bool \<Rightarrow> nat set \<Rightarrow> query list \<Rightarrow> bool" where
  "stack_ok g ts perm A [] \<longleftrightarrow> True"
| "stack_ok g ts perm A (q # qs) \<longleftrightarrow>
     (\<forall>p. stored ts q = Some p \<longrightarrow> cover g ts perm p (insert (index q) A) qs) \<and>
     stack_ok g ts perm (insert (index q) A) qs"

lemma listed_update: "i \<noteq> index q \<Longrightarrow> listed (ts(i := x)) q \<longleftrightarrow> listed ts q"
  by (simp add: listed_def split: query_pc.splits)

lemma needs_update: "i \<noteq> index q \<Longrightarrow> needs (ts(i := x)) perm l q \<longleftrightarrow> needs ts perm l q"
  by (simp add: needs_def listed_update)

lemma stored_update: "i \<noteq> index q \<Longrightarrow> stored (ts(i := x)) q = stored ts q"
  by (simp add: stored_def listed_update split: query_pc.splits)

lemma needs_perm: "needs ts perm l q \<Longrightarrow> perm \<le> perm' \<Longrightarrow> needs ts perm' l q"
  by (auto simp: needs_def split: query_pc.splits)

lemma cover_perm: "cover g ts perm h A qs \<Longrightarrow> perm \<le> perm' \<Longrightarrow> cover g ts perm' h A qs"
  unfolding cover_def using needs_perm by blast

lemma stack_perm: "stack_ok g ts perm A qs \<Longrightarrow> perm \<le> perm' \<Longrightarrow> stack_ok g ts perm' A qs"
  by (induction qs arbitrary: A) (auto intro: cover_perm)

lemma cover_subset: "cover g ts perm h A qs \<Longrightarrow> B \<subseteq> A \<Longrightarrow> set qs' \<subseteq> set qs \<Longrightarrow> cover g ts perm h B qs'"
  unfolding cover_def by blast

lemma stack_subset: "stack_ok g ts perm A qs \<Longrightarrow> B \<subseteq> A \<Longrightarrow> stack_ok g ts perm B qs"
proof (induction qs arbitrary: A B)
  case (Cons q qs)
  have "insert (index q) B \<subseteq> insert (index q) A"
    using Cons.prems(2) by blast
  then show ?case
    using Cons cover_subset [of g ts perm _ "insert (index q) A" qs "insert (index q) B" qs] by fastforce
qed simp

lemma stack_drop: "stack_ok g ts perm A qs \<Longrightarrow> stack_ok g ts perm A (drop n qs)"
proof (induction qs arbitrary: A n)
  case (Cons q qs)
  then show ?case
    by (cases n) (auto intro: stack_subset)
qed simp

lemma cover_update:
  assumes "cover g ts perm h A qs" "i \<in> A" "i \<notin> index ` set qs"
  shows "cover g (ts(i := x)) perm h A qs"
proof -
  obtain l where l: "path g ts h l" "\<forall>q \<in> set qs. needs ts perm l q" "A \<inter> set l = {}"
    using assms(1) unfolding cover_def by blast
  have "i \<notin> set l" "\<forall>q \<in> set qs. needs (ts(i := x)) perm l q"
    using l assms(2,3) needs_update by fastforce+
  then show ?thesis
    unfolding cover_def using l path_update by blast
qed

lemma stack_update:
  assumes "stack_ok g ts perm A qs" "i \<in> A" "i \<notin> index ` set qs"
  shows "stack_ok g (ts(i := x)) perm A qs"
  using assms
proof (induction qs arbitrary: A)
  case (Cons q qs)
  then show ?case
    using stored_update [of i q ts x] cover_update [of g ts perm _ "insert (index q) A" qs i x]
    by (simp del: fun_upd_apply)
qed simp

text \<open>An index whose record is not admitted is on no path.\<close>

lemma cover_fresh: "cover g ts perm h A qs \<Longrightarrow> \<not> admitted (ts i) \<Longrightarrow> cover g ts perm h (insert i A) qs"
  unfolding cover_def using path_counted by (fastforce simp: counted_def)

lemma stack_fresh: "stack_ok g ts perm A qs \<Longrightarrow> \<not> admitted (ts i) \<Longrightarrow> stack_ok g ts perm (insert i A) qs"
proof (induction qs arbitrary: A)
  case (Cons q qs)
  then show ?case
    using cover_fresh [of g ts perm _ "insert (index q) A" qs i] by (simp add: insert_commute)
qed simp

lemma cover_fresh_update:
  assumes "cover g ts perm h A qs" "\<not> admitted (ts i)" "i \<notin> index ` set qs"
  shows "cover g (ts(i := x)) perm h (insert i A) qs"
proof (rule cover_update)
  show "cover g ts perm h (insert i A) qs"
    using assms(1,2) by (rule cover_fresh)
qed (use assms(3) in auto)

lemma stack_fresh_update:
  assumes "stack_ok g ts perm A qs" "\<not> admitted (ts i)" "i \<notin> index ` set qs"
  shows "stack_ok g (ts(i := x)) perm (insert i A) qs"
proof (rule stack_update)
  show "stack_ok g ts perm (insert i A) qs"
    using assms(1,2) by (rule stack_fresh)
qed (use assms(3) in auto)

subsection \<open>The queries of a thread\<close>

definition query_ok :: "nat \<Rightarrow> words \<Rightarrow> query \<Rightarrow> bool" where
  "query_ok g w q \<longleftrightarrow>
     (index q \<noteq> 0 \<longrightarrow> used (toks w (index q))) \<and>
     (case pc q of
        Reserve i \<Rightarrow> index q = 0
      | Enter_cas old n \<Rightarrow> count old \<noteq> COUNT_MASK \<and> (stop old \<longrightarrow> n)
      | Poison_publish g' \<Rightarrow> index q = 0 \<and> g' = g \<and> 0 < permanent w
      | Poison_state \<Rightarrow> index q = 0
      | Poison_check st \<Rightarrow> index q = 0 \<and> epoch st \<le> g \<and> (poison st \<longrightarrow> poison (control w))
      | Meta_state g' \<Rightarrow> index q \<noteq> 0 \<and> g' = g
      | Meta_store g' p \<Rightarrow> index q \<noteq> 0 \<and> g' = g
      | Head_publish \<Rightarrow> index q \<noteq> 0 \<and> counted g (toks w (index q))
      | Meta_reload \<Rightarrow> index q \<noteq> 0
      | Meta_check m \<Rightarrow> index q \<noteq> 0 \<and> previous m = previous (toks w (index q))
      | Undo_head p \<Rightarrow> index q \<noteq> 0 \<and> p = previous (toks w (index q))
      | Undo_admit \<Rightarrow> index q \<noteq> 0
      | Leave_load \<Rightarrow> index q \<noteq> 0
      | Leave_head p \<Rightarrow> index q \<noteq> 0 \<and> p = previous (toks w (index q))
      | Leave_admit \<Rightarrow> index q \<noteq> 0 \<and> admitted (toks w (index q))
      | Leave_generation \<Rightarrow> index q \<noteq> 0
      | Leave_count g' \<Rightarrow> index q \<noteq> 0 \<and> g' \<le> g
      | Free \<Rightarrow> index q \<noteq> 0
      | _ \<Rightarrow> True) \<and>
     (index q \<noteq> 0 \<and>
        (case pc q of
           Head_publish \<Rightarrow> False | Meta_reload \<Rightarrow> False | Meta_check _ \<Rightarrow> False | Undo_head _ \<Rightarrow> False
         | Undo_admit \<Rightarrow> False | Call b \<Rightarrow> \<not> b | Leave_load \<Rightarrow> False | Leave_head _ \<Rightarrow> False | Leave_admit \<Rightarrow> False
         | _ \<Rightarrow> True) \<longrightarrow> \<not> admitted (toks w (index q)))"

definition tokens_ok :: "nat \<Rightarrow> words \<Rightarrow> bool" where
  "tokens_ok g w \<longleftrightarrow>
     (\<forall>i. (used (toks w i) \<longrightarrow> 0 < i \<and> i \<le> TOKEN_CAPACITY) \<and> (admitted (toks w i) \<longrightarrow> used (toks w i)) \<and>
          tok_generation (toks w i) \<le> g) \<and>
     (poison (control w) \<longrightarrow> epoch (control w) = g \<and> 0 < permanent w) \<and> epoch (control w) \<le> g"

definition queries_ok :: "nat \<Rightarrow> words \<Rightarrow> query list \<Rightarrow> bool" where
  "queries_ok g w qs \<longleftrightarrow>
     tokens_ok g w \<and> distinct (filter (\<lambda>i. i \<noteq> 0) (map index qs)) \<and> (\<forall>q \<in> set qs. query_ok g w q) \<and>
     cover g (toks w) (poison (control w)) (head (control w)) {} qs \<and> stack_ok g (toks w) (poison (control w)) {} qs"

text \<open>The readers that a thread has in the count of the shared word.\<close>

definition transit :: "nat \<Rightarrow> (nat \<Rightarrow> token) \<Rightarrow> query \<Rightarrow> bool" where
  "transit g ts q \<longleftrightarrow>
     (case pc q of
        Meta_state g' \<Rightarrow> g' = g
      | Meta_store g' _ \<Rightarrow> g' = g
      | Leave_generation \<Rightarrow> tok_generation (ts (index q)) = g
      | Leave_count g' \<Rightarrow> g' = g
      | _ \<Rightarrow> False)"

definition weight :: "nat \<Rightarrow> words \<Rightarrow> query list \<Rightarrow> nat" where
  "weight g w qs =
     permanent w + card {i. 0 < i \<and> i \<le> TOKEN_CAPACITY \<and> counted g (toks w i)} + length (filter (transit g (toks w)) qs)"

lemma weight_admitted:
  assumes "queries_ok g w qs" "counted g (toks w i)"
  shows "0 < weight g w qs"
proof -
  have "i \<in> {i. 0 < i \<and> i \<le> TOKEN_CAPACITY \<and> counted g (toks w i)}"
    using assms by (auto simp: queries_ok_def tokens_ok_def counted_def)
  then have "0 < card {i. 0 < i \<and> i \<le> TOKEN_CAPACITY \<and> counted g (toks w i)}"
    by (auto simp: card_gt_0_iff)
  then show ?thesis
    by (simp add: weight_def)
qed

text \<open>A query inside the C library that went through the gate has a reader counted.\<close>

lemma call_counted:
  assumes "queries_ok g w qs" "q \<in> set qs" "pc q = Call True"
  shows "0 < weight g w qs"
proof -
  obtain l where l: "path g (toks w) (head (control w)) l" "\<forall>q \<in> set qs. needs (toks w) (poison (control w)) l q"
    using assms(1) by (auto simp: queries_ok_def cover_def)
  then have "needs (toks w) (poison (control w)) l q"
    using assms(2) by blast
  then consider "poison (control w)" | j where "j \<in> set l"
    using assms(3) by (cases l) (auto simp: needs_def listed_def)
  then show ?thesis
  proof cases
    case 2
    then show ?thesis
      using path_counted [OF l(1)] weight_admitted assms(1) by blast
  qed (use assms(1) in \<open>auto simp: queries_ok_def tokens_ok_def weight_def\<close>)
qed

subsection \<open>Steps of a query\<close>

lemma query_ok_other:
  "query_ok g w q \<Longrightarrow> toks w' (index q) = toks w (index q) \<Longrightarrow> permanent w \<le> permanent w' \<Longrightarrow>
   (poison (control w) \<longrightarrow> poison (control w')) \<Longrightarrow> query_ok g w' q"
  by (auto simp: query_ok_def split: query_pc.splits)

lemma index_fresh: "distinct (filter (\<lambda>i. i \<noteq> 0) (map index (q # qs))) \<Longrightarrow> index q \<noteq> 0 \<Longrightarrow> index q \<notin> index ` set qs"
  by auto

text \<open>The top query makes a step that changes at most its own record.\<close>

lemma queries_ok_top:
  assumes "queries_ok g w (q # qs)" "tokens_ok g w'" "query_ok g w' q'" "index q' = index q"
    and "toks w' = toks w \<or> (index q \<noteq> 0 \<and> toks w' = (toks w)(index q := x))" "permanent w \<le> permanent w'"
    and "poison (control w) \<longrightarrow> poison (control w')"
    and "cover g (toks w') (poison (control w')) (head (control w')) {} (q' # qs)"
    and "\<And>p. stored (toks w') q' = Some p \<Longrightarrow> cover g (toks w') (poison (control w')) p {index q} qs"
  shows "queries_ok g w' (q' # qs)"
proof -
  note ok = assms(1) [unfolded queries_ok_def]
  have other: "toks w' (index k) = toks w (index k)" if "k \<in> set qs" for k
    using that assms(5) index_fresh [of q qs] ok by (metis fun_upd_other image_eqI)
  have "query_ok g w' k" if "k \<in> set qs" for k
    using query_ok_other [OF _ other [OF that] assms(6,7)] that ok by simp
  moreover have "stack_ok g (toks w') (poison (control w)) {index q} qs"
    using assms(5) stack_update [of g "toks w" "poison (control w)" "{index q}" qs "index q" x] index_fresh [of q qs] ok by auto
  then have "stack_ok g (toks w') (poison (control w')) {index q} qs"
    using assms(7) stack_perm by (metis le_boolI)
  ultimately show ?thesis
    using assms(2-4,8,9) ok by (simp add: queries_ok_def)
qed

lemma queries_ok_move:
  assumes "queries_ok g w (q # qs)" "query_ok g w (q\<lparr>pc := p\<rparr>)"
    and "\<And>l. path g (toks w) (head (control w)) l \<Longrightarrow> needs (toks w) (poison (control w)) l q \<Longrightarrow>
      needs (toks w) (poison (control w)) l (q\<lparr>pc := p\<rparr>)"
    and "\<And>x. stored (toks w) (q\<lparr>pc := p\<rparr>) = Some x \<Longrightarrow>
      stored (toks w) q = Some x \<or> (x = head (control w) \<and> \<not> listed (toks w) q)"
  shows "queries_ok g w (q\<lparr>pc := p\<rparr> # qs)"
proof (rule queries_ok_top [OF assms(1) _ assms(2)])
  note ok = assms(1) [unfolded queries_ok_def]
  obtain l where l: "path g (toks w) (head (control w)) l" "\<forall>k \<in> set (q # qs). needs (toks w) (poison (control w)) l k"
    using ok by (auto simp: cover_def)
  then show "cover g (toks w) (poison (control w)) (head (control w)) {} (q\<lparr>pc := p\<rparr> # qs)"
    using assms(3) by (auto simp: cover_def)
  have "cover g (toks w) (poison (control w)) (head (control w)) {index q} qs" if "\<not> listed (toks w) q"
    using that l by (auto simp: cover_def needs_def)
  then show "cover g (toks w) (poison (control w)) x {index q} qs" if "stored (toks w) (q\<lparr>pc := p\<rparr>) = Some x" for x
    using assms(4) [OF that] ok by auto
qed (use assms(1) in \<open>auto simp: queries_ok_def\<close>)

lemma queries_ok_drop: "queries_ok g w qs \<Longrightarrow> queries_ok g w (drop n qs)"
proof -
  assume ok: "queries_ok g w qs"
  have "filter (\<lambda>i. i \<noteq> 0) (map index qs) =
      filter (\<lambda>i. i \<noteq> 0) (map index (take n qs)) @ filter (\<lambda>i. i \<noteq> 0) (map index (drop n qs))"
    by (metis append_take_drop_id filter_append map_append)
  then have "distinct (filter (\<lambda>i. i \<noteq> 0) (map index (drop n qs)))"
    using ok by (simp add: queries_ok_def)
  then show ?thesis
    using ok cover_subset [of g "toks w" _ _ "{}" qs "{}" "drop n qs"] stack_drop set_drop_subset [of n qs]
    unfolding queries_ok_def by blast
qed

lemma queries_ok_tl: "queries_ok g w (q # qs) \<Longrightarrow> queries_ok g w qs"
  using queries_ok_drop [of g w "q # qs" 1] by simp

lemma queries_ok_new:
  assumes "queries_ok g w qs"
  shows "queries_ok g w (new_query # qs)"
proof -
  obtain l where l: "path g (toks w) (head (control w)) l" "\<forall>k \<in> set qs. needs (toks w) (poison (control w)) l k"
    using assms by (auto simp: queries_ok_def cover_def)
  have z: "0 \<notin> set l"
    using path_counted [OF l(1)] by blast
  then have "cover g (toks w) (poison (control w)) (head (control w)) {} (new_query # qs)"
    using l by (auto simp: cover_def needs_def listed_def new_query_def)
  moreover have "\<not> admitted (toks w 0)"
    using assms by (auto simp: queries_ok_def tokens_ok_def)
  ultimately show ?thesis
    using assms stack_fresh by (simp add: queries_ok_def query_ok_def stored_def listed_def new_query_def)
qed

lemma queries_ok_reserve:
  assumes "queries_ok g w (q # qs)" "index q = 0" "i < TOKEN_CAPACITY" "\<not> used (toks w (i + 1))"
  shows "queries_ok g (set_token (i + 1) (\<lambda>_. empty_token\<lparr>used := True\<rparr>) w) (\<lparr>index = i + 1, pc = Enter_check\<rparr> # qs)"
proof -
  let ?q = "\<lparr>index = i + 1, pc = Enter_check\<rparr>" and ?x = "empty_token\<lparr>used := True\<rparr>"
  let ?ts = "(toks w)(i + 1 := ?x)"
  note ok = queries_ok_tl [OF assms(1), unfolded queries_ok_def]
  have adm: "\<not> admitted (toks w (i + 1))"
    using ok assms(4) by (auto simp: tokens_ok_def)
  have notin: "i + 1 \<notin> index ` set qs"
    using ok assms(4) by (auto simp: query_ok_def)
  have c: "cover g ?ts (poison (control w)) (head (control w)) {i + 1} qs"
    using cover_fresh_update adm ok notin by blast
  have other: "query_ok g (w\<lparr>toks := ?ts\<rparr>) k" if "k \<in> set qs" for k
    using that ok notin query_ok_other [of g w k "w\<lparr>toks := ?ts\<rparr>"] by (auto simp: image_iff)
  have "stack_ok g ?ts (poison (control w)) {i + 1} qs"
    using stack_fresh_update adm ok notin by blast
  moreover have "cover g ?ts (poison (control w)) (head (control w)) {} (?q # qs)"
    using c by (auto simp: cover_def needs_def listed_def)
  moreover have "tokens_ok g (w\<lparr>toks := ?ts\<rparr>)"
    using ok assms(3) by (auto simp: tokens_ok_def empty_token_def)
  moreover have "query_ok g (w\<lparr>toks := ?ts\<rparr>) ?q"
    by (simp add: query_ok_def empty_token_def)
  ultimately show ?thesis
    using ok notin other by (auto simp: queries_ok_def set_token_def stored_def listed_def)
qed

lemma queries_ok_free:
  assumes "queries_ok g w (q # qs)" "pc q = Free"
  shows "queries_ok g (set_token (index q) (\<lambda>_. empty_token) w) qs"
proof -
  note ok = assms(1) [unfolded queries_ok_def]
  let ?ts = "(toks w)(index q := empty_token)"
  have q: "index q \<noteq> 0" "\<not> admitted (toks w (index q))"
    using ok assms(2) by (auto simp: query_ok_def)
  then have notin: "index q \<notin> index ` set qs"
    using index_fresh ok by blast
  have "cover g (toks w) (poison (control w)) (head (control w)) {} qs"
    using ok cover_subset by (metis order.refl set_subset_Cons)
  then have "cover g ?ts (poison (control w)) (head (control w)) {} qs"
    using cover_fresh_update [where ts = "toks w" and A = "{}" and x = empty_token] q(2) notin
      cover_subset by (metis empty_subsetI order.refl)
  moreover have "stack_ok g (toks w) (poison (control w)) {index q} qs"
    using ok by simp
  then have "stack_ok g ?ts (poison (control w)) {} qs"
    using stack_update [OF _ _ notin, of g _ _ "{index q}" empty_token] stack_subset by blast
  moreover have "query_ok g (w\<lparr>toks := ?ts\<rparr>) k" if "k \<in> set qs" for k
    using that ok notin query_ok_other [of g w k "w\<lparr>toks := ?ts\<rparr>"] by (auto simp: image_iff)
  moreover have "tokens_ok g (w\<lparr>toks := ?ts\<rparr>)"
    using ok by (auto simp: tokens_ok_def empty_token_def)
  moreover have "distinct (filter (\<lambda>i. i \<noteq> 0) (map index qs))"
    using queries_ok_tl [OF assms(1)] by (simp add: queries_ok_def)
  ultimately show ?thesis
    by (auto simp: queries_ok_def set_token_def)
qed

text \<open>Publishing the record: it is stored, and then becomes the head.\<close>

lemma queries_ok_store:
  assumes "queries_ok g w (q # qs)" "pc q = Meta_store g' p"
  shows "queries_ok g (set_token (index q) (\<lambda>_. \<lparr>tok_generation = g', previous = p, used = True, admitted = True\<rparr>) w)
    (q\<lparr>pc := Head_publish\<rparr> # qs)"
proof -
  note ok = assms(1) [unfolded queries_ok_def]
  let ?x = "\<lparr>tok_generation = g', previous = p, used = True, admitted = True\<rparr>"
  let ?ts = "(toks w)(index q := ?x)"
  have q: "index q \<noteq> 0" "g' = g" "\<not> admitted (toks w (index q))" "used (toks w (index q))"
    using ok assms(2) by (auto simp: query_ok_def)
  then have notin: "index q \<notin> index ` set qs"
    using index_fresh ok by blast
  have "cover g (toks w) (poison (control w)) (head (control w)) {} qs"
    using ok cover_subset by (metis order.refl set_subset_Cons)
  then have "cover g ?ts (poison (control w)) (head (control w)) {index q} qs"
    using cover_fresh_update [where ts = "toks w" and A = "{}" and x = ?x] q(3) notin by blast
  then have main: "cover g ?ts (poison (control w)) (head (control w)) {} (q\<lparr>pc := Head_publish\<rparr> # qs)"
    by (auto simp: cover_def needs_def listed_def)
  have st: "cover g ?ts (poison (control w)) p {index q} qs"
    using ok assms(2) cover_update [OF _ _ notin, of g "toks w" "poison (control w)" p "{index q}" ?x] by (simp add: stored_def)
  have "tokens_ok g (w\<lparr>toks := ?ts\<rparr>)" "query_ok g (w\<lparr>toks := ?ts\<rparr>) (q\<lparr>pc := Head_publish\<rparr>)"
    using q ok by (auto simp: tokens_ok_def query_ok_def counted_def)
  from queries_ok_top [OF assms(1) this, of ?x] show ?thesis
    using q(1) main st by (simp add: set_token_def stored_def)
qed

lemma queries_ok_publish:
  assumes "queries_ok g w (q # qs)" "pc q = Head_publish"
  shows "queries_ok g (update_control (\<lambda>x. x\<lparr>head := index q\<rparr>) w) (q\<lparr>pc := Meta_reload\<rparr> # qs)"
proof -
  note ok = assms(1) [unfolded queries_ok_def]
  have q: "index q \<noteq> 0" "counted g (toks w (index q))"
    using ok assms(2) by (auto simp: query_ok_def)
  then have notin: "index q \<notin> index ` set qs"
    using index_fresh ok by blast
  have st: "cover g (toks w) (poison (control w)) (previous (toks w (index q))) {index q} qs"
    using ok assms(2) by (simp add: stored_def)
  then obtain l where l: "path g (toks w) (previous (toks w (index q))) l"
    "\<forall>k \<in> set qs. needs (toks w) (poison (control w)) l k" "index q \<notin> set l"
    by (auto simp: cover_def)
  have "needs (toks w) (poison (control w)) (index q # l) k" if "k \<in> set qs" for k
  proof -
    have "needs (toks w) (poison (control w)) l k" "index k \<noteq> index q"
      using l(2) that notin by (blast, metis image_eqI)
    then show ?thesis
      unfolding needs_def by (cases "pc k"; auto split: if_splits)
  qed
  moreover have "needs (toks w) (poison (control w)) (index q # l) (q\<lparr>pc := Meta_reload\<rparr>)"
    by (simp add: needs_def listed_def)
  ultimately have main: "cover g (toks w) (poison (control w)) (index q) {} (q\<lparr>pc := Meta_reload\<rparr> # qs)"
    using l(1) q unfolding cover_def by (intro exI [of _ "index q # l"]) simp
  let ?w = "update_control (\<lambda>x. x\<lparr>head := index q\<rparr>) w"
  have "tokens_ok g ?w" "query_ok g ?w (q\<lparr>pc := Meta_reload\<rparr>)"
    using q ok by (simp_all add: tokens_ok_def query_ok_def update_control_def)
  from queries_ok_top [OF assms(1) this] show ?thesis
    using main st by (simp add: update_control_def stored_def listed_def)
qed

text \<open>Taking the record off the list.\<close>

lemma listed_admitted:
  assumes "queries_ok g w (q # qs)" "listed (toks w) q"
  shows "admitted (toks w (index q))"
proof -
  obtain l where l: "path g (toks w) (head (control w)) l" "needs (toks w) (poison (control w)) l q"
    using assms(1) by (auto simp: queries_ok_def cover_def)
  then have "index q \<in> set l"
    using assms(2) by (simp add: needs_def)
  then show ?thesis
    using path_counted [OF l(1)] by (simp add: counted_def)
qed

lemma queries_ok_unlist:
  assumes "queries_ok g w (q # qs)" "listed (toks w) q" "p = previous (toks w (index q))"
    and "pc q = Undo_head p \<and> p' = Undo_admit \<or> pc q = Leave_head p \<and> p' = Leave_admit"
  shows "queries_ok g (update_control (\<lambda>x. x\<lparr>head := p\<rparr>) w) (q\<lparr>pc := p'\<rparr> # qs)"
proof -
  note ok = assms(1) [unfolded queries_ok_def]
  have st: "cover g (toks w) (poison (control w)) p {index q} qs"
    using ok assms(2-4) by (auto simp: stored_def)
  then have main: "cover g (toks w) (poison (control w)) p {} (q\<lparr>pc := p'\<rparr> # qs)"
    using assms(4) by (auto simp: cover_def needs_def listed_def)
  let ?w = "update_control (\<lambda>x. x\<lparr>head := p\<rparr>) w"
  have "tokens_ok g ?w" "query_ok g w q"
    using ok by (simp_all add: tokens_ok_def update_control_def)
  moreover have "query_ok g ?w (q\<lparr>pc := p'\<rparr>)"
    using \<open>query_ok g w q\<close> assms(4) listed_admitted [OF assms(1,2)] by (elim disjE) (simp_all add: query_ok_def update_control_def)
  moreover have "stored (toks w) (q\<lparr>pc := p'\<rparr>) = None"
    using assms(4) by (elim disjE) (simp_all add: stored_def listed_def)
  ultimately show ?thesis
    using queries_ok_top [OF assms(1), of ?w "q\<lparr>pc := p'\<rparr>"] main by (simp add: update_control_def)
qed

lemma queries_ok_clear:
  assumes "queries_ok g w (q # qs)" "pc q = Undo_admit \<and> p' = Enter_load \<or> pc q = Leave_admit \<and> p' = Leave_generation"
  shows "queries_ok g (set_token (index q) (\<lambda>t. t\<lparr>admitted := False\<rparr>) w) (q\<lparr>pc := p'\<rparr> # qs)"
proof -
  note ok = assms(1) [unfolded queries_ok_def]
  let ?x = "(toks w (index q))\<lparr>admitted := False\<rparr>"
  have q: "index q \<noteq> 0"
    using ok assms(2) by (auto simp: query_ok_def)
  then have notin: "index q \<notin> index ` set qs"
    using index_fresh ok by blast
  have "cover g (toks w) (poison (control w)) (head (control w)) {index q} qs"
    using ok assms(2) by (auto simp: cover_def needs_def listed_def)
  then have "cover g ((toks w)(index q := ?x)) (poison (control w)) (head (control w)) {index q} qs"
    using cover_update [OF _ _ notin] by blast
  then have main: "cover g ((toks w)(index q := ?x)) (poison (control w)) (head (control w)) {} (q\<lparr>pc := p'\<rparr> # qs)"
    using assms(2) by (auto simp: cover_def needs_def listed_def)
  let ?w = "set_token (index q) (\<lambda>t. t\<lparr>admitted := False\<rparr>) w"
  have "tokens_ok g w" "query_ok g w q"
    using ok by simp_all
  then have "tokens_ok g ?w"
    by (simp add: tokens_ok_def set_token_def)
  moreover have "query_ok g ?w (q\<lparr>pc := p'\<rparr>)"
    using \<open>query_ok g w q\<close> assms(2) by (elim disjE) (simp_all add: query_ok_def set_token_def)
  moreover have "stored (toks ?w) (q\<lparr>pc := p'\<rparr>) = None"
    using assms(2) by (elim disjE) (simp_all add: stored_def listed_def)
  ultimately show ?thesis
    using queries_ok_top [OF assms(1), of ?w "q\<lparr>pc := p'\<rparr>" ?x] main q by (simp add: set_token_def)
qed

text \<open>The steps that move a query on without changing a word.\<close>

lemma queries_ok_goto:
  assumes "queries_ok g w (q # qs)" "query_ok g w (q\<lparr>pc := p\<rparr>)"
    and "listed (toks w) (q\<lparr>pc := p\<rparr>) = listed (toks w) q"
    and "stored (toks w) (q\<lparr>pc := p\<rparr>) = stored (toks w) q \<or> stored (toks w) (q\<lparr>pc := p\<rparr>) = None"
    and "\<And>l. path g (toks w) (head (control w)) l \<Longrightarrow> needs (toks w) (poison (control w)) l q \<Longrightarrow>
      (case p of
        Enter_token _ h \<Rightarrow> h = 0 \<or> h \<in> set l
      | Enter_cas _ n \<Rightarrow> n \<longrightarrow> l \<noteq> []
      | Call b \<Rightarrow> b \<and> index q = 0 \<longrightarrow> poison (control w) \<or> l \<noteq> []
      | _ \<Rightarrow> True)"
  shows "queries_ok g w (q\<lparr>pc := p\<rparr> # qs)"
proof (rule queries_ok_move [OF assms(1,2)])
  show "needs (toks w) (poison (control w)) l (q\<lparr>pc := p\<rparr>)"
    if "path g (toks w) (head (control w)) l" "needs (toks w) (poison (control w)) l q" for l
    using assms(5) [OF that] that(2) assms(3) unfolding needs_def by (cases p; simp)
qed (use assms(4) in auto)

lemma path_head: "path g ts h l \<Longrightarrow> h = 0 \<or> h \<in> set l"
  by (cases l) auto

lemma queries_ok_facts:
  assumes "queries_ok g w (q # qs)"
  shows "query_ok g w q" "tokens_ok g w"
  using assms by (simp_all add: queries_ok_def)

lemma queries_ok_poison:
  assumes "queries_ok g w (q # qs)" "pc q = Poison_publish e"
  shows "queries_ok g (update_control (\<lambda>x. x\<lparr>epoch := e, poison := True\<rparr>) w) (q\<lparr>pc := Poison_state\<rparr> # qs)"
proof -
  let ?w = "update_control (\<lambda>x. x\<lparr>epoch := e, poison := True\<rparr>) w"
  note f = queries_ok_facts [OF assms(1)]
  have "tokens_ok g ?w" "query_ok g ?w (q\<lparr>pc := Poison_state\<rparr>)"
    using f assms(2) by (simp_all add: tokens_ok_def query_ok_def update_control_def)
  moreover have "queries_ok g w (q\<lparr>pc := Poison_state\<rparr> # qs)"
    using assms f by (intro queries_ok_goto) (simp_all add: query_ok_def listed_def stored_def)
  moreover have "cover g (toks w) (poison (control w)) h A k \<Longrightarrow> cover g (toks w) True h A k" for h A k
    using cover_perm by (metis le_boolI)
  ultimately show ?thesis
    using queries_ok_top [of g w "q\<lparr>pc := Poison_state\<rparr>" qs ?w "q\<lparr>pc := Poison_state\<rparr>"]
    by (simp add: queries_ok_def update_control_def stored_def listed_def)
qed

lemma queries_ok_permanent:
  assumes "queries_ok g w (q # qs)" "pc q = Enter_cas old n" "index q = 0"
  shows "queries_ok g (w\<lparr>permanent := permanent w + 1\<rparr>) (q\<lparr>pc := Poison_publish g\<rparr> # qs)"
proof -
  let ?w = "w\<lparr>permanent := permanent w + 1\<rparr>"
  note f = queries_ok_facts [OF assms(1)]
  have "tokens_ok g ?w" "query_ok g ?w (q\<lparr>pc := Poison_publish g\<rparr>)"
    using f assms(2,3) by (simp_all add: tokens_ok_def query_ok_def)
  moreover have "cover g (toks w) (poison (control w)) (head (control w)) {} (q\<lparr>pc := Poison_publish g\<rparr> # qs)"
    using assms by (auto simp: queries_ok_def cover_def needs_def listed_def)
  ultimately show ?thesis
    using queries_ok_top [OF assms(1), of ?w "q\<lparr>pc := Poison_publish g\<rparr>"] by (simp add: stored_def listed_def)
qed

lemmas goto_defs = goto_def query_ok_def listed_def stored_def

lemma enter_step_ok:
  assumes "queries_ok g w (q # qs)" "generation r = g" "enter_region c q r w = (q', r', w')"
    and "\<forall>i. pc q \<noteq> Reserve i" "\<forall>b. pc q \<noteq> Call b"
  shows "queries_ok g w' (case q' of None \<Rightarrow> qs | Some k \<Rightarrow> k # qs)"
proof -
  note f = queries_ok_facts [OF assms(1)]
  show ?thesis
  proof (cases "pc q")
    case Enter_check
    then show ?thesis
      using assms(1,3) f
      by (auto simp: enter_region_def goto_defs split: if_splits intro!: queries_ok_goto)
  next
    case Enter_load
    then show ?thesis
      using assms(1,3) f by (auto simp: enter_region_def goto_defs intro!: queries_ok_goto)
  next
    case (Enter_head old)
    have "query_ok g w (q\<lparr>pc := Enter_token old (head (control w))\<rparr>)"
      "index q = 0 \<Longrightarrow> query_ok g w (q\<lparr>pc := Call True\<rparr>)"
      using f(1) Enter_head by (simp_all add: query_ok_def)
    then show ?thesis
      using assms(1,3) Enter_head path_head
      by (auto simp: enter_region_def goto_def listed_def stored_def split: if_splits intro!: queries_ok_goto)
  next
    case (Enter_token old h)
    have q: "query_ok g w (q\<lparr>pc := Enter_load\<rparr>)"
      "count old \<noteq> COUNT_MASK \<and> (stop old \<longrightarrow> n) \<Longrightarrow> query_ok g w (q\<lparr>pc := Enter_cas old n\<rparr>)"
      "index q = 0 \<Longrightarrow> query_ok g w (q\<lparr>pc := Call True\<rparr>)" for n
      using f Enter_token by (auto simp: query_ok_def)
    have n: "needs (toks w) (poison (control w)) l q \<Longrightarrow> nested old h w \<Longrightarrow> l \<noteq> []" for l
      using Enter_token by (auto simp: needs_def nested_def)
    show ?thesis
      using assms(1,3) Enter_token q n
      by (auto simp: enter_region_def goto_def listed_def stored_def split: if_splits intro!: queries_ok_goto)
  next
    case (Enter_cas old n)
    have q: "query_ok g w (q\<lparr>pc := Enter_load\<rparr>)" "index q \<noteq> 0 \<Longrightarrow> query_ok g w (q\<lparr>pc := Meta_state g\<rparr>)"
      using f Enter_cas by (simp_all add: query_ok_def)
    show ?thesis
      using assms(1-3) Enter_cas q queries_ok_permanent [OF assms(1) Enter_cas]
      by (auto simp: enter_region_def goto_def listed_def stored_def split: if_splits intro!: queries_ok_goto)
  next
    case (Poison_publish e)
    then show ?thesis
      using assms(3) queries_ok_poison [OF assms(1)] by (auto simp: enter_region_def goto_def)
  next
    case Poison_state
    then have "query_ok g w (q\<lparr>pc := Poison_check (control w)\<rparr>)"
      using f by (auto simp: query_ok_def tokens_ok_def)
    then show ?thesis
      using assms(1,3) Poison_state by (auto simp: enter_region_def goto_def listed_def stored_def intro!: queries_ok_goto)
  next
    case (Poison_check st)
    have "query_ok g w (q\<lparr>pc := Enter_load\<rparr>)" "query_ok g w (q\<lparr>pc := Call True\<rparr>)" "index q = 0"
      "poison st \<Longrightarrow> poison (control w)"
      using f Poison_check by (simp_all add: query_ok_def)
    then show ?thesis
      using assms(1-3) Poison_check
      by (auto simp: enter_region_def goto_def listed_def stored_def split: if_splits intro!: queries_ok_goto)
  next
    case (Meta_state e)
    have "query_ok g w (q\<lparr>pc := Meta_store e (head (control w))\<rparr>)"
      using f Meta_state by (simp add: query_ok_def)
    then show ?thesis
      using assms(1,3) Meta_state
      by (auto simp: enter_region_def goto_def needs_def listed_def stored_def intro!: queries_ok_move)
  next
    case (Meta_store e p)
    then show ?thesis
      using assms(3) queries_ok_store [OF assms(1)] by (auto simp: enter_region_def goto_def)
  next
    case Head_publish
    then show ?thesis
      using assms(3) queries_ok_publish [OF assms(1)] by (auto simp: enter_region_def goto_def)
  next
    case Meta_reload
    have "query_ok g w (q\<lparr>pc := Meta_check (toks w (index q))\<rparr>)"
      using f Meta_reload by (simp add: query_ok_def)
    then show ?thesis
      using assms(1,3) Meta_reload by (auto simp: enter_region_def goto_def listed_def stored_def intro!: queries_ok_goto)
  next
    case (Meta_check m)
    have "query_ok g w (q\<lparr>pc := Undo_head (previous m)\<rparr>)" "query_ok g w (q\<lparr>pc := Call True\<rparr>)" "index q \<noteq> 0"
      using f Meta_check by (simp_all add: query_ok_def)
    then show ?thesis
      using assms(1,3) Meta_check
      by (auto simp: enter_region_def goto_def listed_def stored_def split: if_splits intro!: queries_ok_goto)
  next
    case (Undo_head p)
    then have "listed (toks w) q" "p = previous (toks w (index q))"
      using f by (simp_all add: query_ok_def listed_def)
    then show ?thesis
      using assms(3) Undo_head queries_ok_unlist [OF assms(1)] by (auto simp: enter_region_def goto_def)
  next
    case Undo_admit
    then show ?thesis
      using assms(3) queries_ok_clear [OF assms(1)] by (auto simp: enter_region_def goto_def)
  qed (use assms in \<open>auto simp: enter_region_def\<close>)
qed

lemma leave_step_ok:
  assumes "queries_ok g w (q # qs)" "leave_region q r w = (q', r', w')"
  shows "queries_ok g w' (case q' of None \<Rightarrow> qs | Some k \<Rightarrow> k # qs)"
proof -
  note f = queries_ok_facts [OF assms(1)]
  show ?thesis
  proof (cases "pc q")
    case Leave_load
    have "\<not> admitted (toks w (index q)) \<Longrightarrow> query_ok g w (q\<lparr>pc := Free\<rparr>)"
      "query_ok g w (q\<lparr>pc := Leave_head (previous (toks w (index q)))\<rparr>)"
      using f Leave_load by (simp_all add: query_ok_def)
    then show ?thesis
      using assms Leave_load
      by (auto simp: leave_region_def goto_def listed_def stored_def split: if_splits intro!: queries_ok_goto)
  next
    case (Leave_head p)
    then have "listed (toks w) q" "p = previous (toks w (index q))"
      using f by (simp_all add: query_ok_def listed_def)
    then show ?thesis
      using assms(2) Leave_head queries_ok_unlist [OF assms(1)] by (auto simp: leave_region_def goto_def)
  next
    case Leave_admit
    then show ?thesis
      using assms(2) queries_ok_clear [OF assms(1)] by (auto simp: leave_region_def goto_def)
  next
    case Leave_generation
    have "query_ok g w (q\<lparr>pc := Leave_count (tok_generation (toks w (index q)))\<rparr>)"
      using f Leave_generation by (simp add: query_ok_def tokens_ok_def)
    then show ?thesis
      using assms Leave_generation
      by (auto simp: leave_region_def goto_def listed_def stored_def intro!: queries_ok_goto)
  next
    case (Leave_count e)
    have "query_ok g w (q\<lparr>pc := Free\<rparr>)"
      using f Leave_count by (simp add: query_ok_def)
    then show ?thesis
      using assms Leave_count
      by (auto simp: leave_region_def goto_def listed_def stored_def split: if_splits intro!: queries_ok_goto)
  next
    case Free
    then show ?thesis
      using assms(2) queries_ok_free [OF assms(1)] by (auto simp: leave_region_def)
  qed (use assms in \<open>auto simp: leave_region_def\<close>)
qed

lemma reserve_step_ok:
  assumes "queries_ok g w (q # qs)" "pc q = Reserve i" "reserve_token q i r w = (q', r', w')"
  shows "queries_ok g w' (case q' of None \<Rightarrow> qs | Some k \<Rightarrow> k # qs)"
proof -
  have q: "index q = 0" "query_ok g w (q\<lparr>pc := Enter_check\<rparr>)" "query_ok g w (q\<lparr>pc := Reserve (i + 1)\<rparr>)"
    using queries_ok_facts [OF assms(1)] assms(2) by (simp_all add: query_ok_def)
  then show ?thesis
    using assms queries_ok_reserve [OF assms(1) q(1), of i]
    by (auto simp: reserve_token_def goto_def listed_def stored_def split: if_splits intro!: queries_ok_goto)
qed

lemma query_step_ok:
  assumes "queries_ok g w (q # qs)" "generation r = g" "query_step c q r w = (q', r', w')"
  shows "queries_ok g w' (case q' of None \<Rightarrow> qs | Some k \<Rightarrow> k # qs)"
proof (cases "pc q")
  case (Reserve i)
  then show ?thesis
    using assms reserve_step_ok by (simp add: query_step_def)
next
  case (Call b)
  have "query_ok g w (q\<lparr>pc := Leave_load\<rparr>)" "b \<longleftrightarrow> admitted (toks w (index q))" if "index q \<noteq> 0"
    using queries_ok_facts [OF assms(1)] listed_admitted [OF assms(1)] that Call by (cases b; simp add: query_ok_def listed_def)+
  then show ?thesis
    using assms(1,3) Call queries_ok_tl [OF assms(1)]
    by (auto simp: query_step_def goto_def listed_def stored_def split: if_splits intro!: queries_ok_goto)
qed (use assms enter_step_ok [of g w q qs r c q' r' w'] leave_step_ok [of g w q qs r q' r' w'] in
    \<open>simp_all add: query_step_def\<close>)

subsection \<open>Steps and the reader count\<close>

abbreviation records :: "nat \<Rightarrow> (nat \<Rightarrow> token) \<Rightarrow> nat set" where
  "records g ts \<equiv> {i. 0 < i \<and> i \<le> TOKEN_CAPACITY \<and> counted g (ts i)}"

lemma finite_records [simp]: "finite (records g ts)"
  by simp

lemma records_update:
  "records g (ts(k := x)) =
     (if 0 < k \<and> k \<le> TOKEN_CAPACITY \<and> counted g x then insert k (records g ts) else records g ts - {k})"
  by auto

lemma transit_other: "i \<notin> index ` set qs \<Longrightarrow> filter (transit g (ts(i := x))) qs = filter (transit g ts) qs"
  by (rule filter_cong) (auto simp: transit_def split: query_pc.splits)

lemma weight_update:
  assumes "queries_ok g w (q # qs)" "index q \<noteq> 0" "toks w' = (toks w)(index q := x)" "permanent w' = permanent w"
  shows "weight g w' (q' # qs) + of_bool (counted g (toks w (index q))) + of_bool (transit g (toks w) q) =
    weight g w (q # qs) + of_bool (counted g x) + of_bool (transit g (toks w') q')"
proof -
  have u: "used (toks w (index q))" "index q \<notin> index ` set qs"
    using assms(1,2) index_fresh by (auto simp: queries_ok_def query_ok_def)
  then have k: "0 < index q" "index q \<le> TOKEN_CAPACITY"
    using assms(1) by (auto simp: queries_ok_def tokens_ok_def)
  have "card (records g (toks w')) + of_bool (counted g (toks w (index q))) =
      card (records g (toks w)) + of_bool (counted g x)"
  proof (cases "counted g (toks w (index q))")
    case True
    then have i: "index q \<in> records g (toks w)"
      using k by simp
    then have "0 < card (records g (toks w))"
      using card_gt_0_iff finite_records by blast
    then show ?thesis
      using True k i unfolding assms(3) records_update by (simp add: insert_absorb)
  next
    case False
    then have "index q \<notin> records g (toks w)"
      by simp
    then show ?thesis
      using False k unfolding assms(3) records_update by simp
  qed
  then show ?thesis
    using u(2) transit_other [of "index q" qs g "toks w" x] by (simp add: weight_def assms(3,4))
qed

lemma weight_goto: "weight g w (q' # qs) + of_bool (transit g (toks w) q) = weight g w (q # qs) + of_bool (transit g (toks w) q')"
  by (simp add: weight_def)

text \<open>Every step pays for the readers it adds, and readers are added to a closed gate only by a thread that
  has one already.\<close>

definition paid :: "nat \<Rightarrow> region_word \<Rightarrow> words \<Rightarrow> query list \<Rightarrow> region_word \<Rightarrow> words \<Rightarrow> query list \<Rightarrow> bool" where
  "paid g r w qs r' w' qs' \<longleftrightarrow>
     generation r' = generation r \<and> stop r' = stop r \<and> weight g w' qs' + count r \<le> weight g w qs + count r' \<and>
     (count r < count r' \<longrightarrow> count r < COUNT_MASK \<and> count r' = count r + 1 \<and> (stop r \<longrightarrow> 0 < weight g w qs))"

lemma paid_goto:
  assumes "transit g (toks w) (q\<lparr>pc := p\<rparr>) \<longrightarrow> transit g (toks w) q"
  shows "paid g r w (q # qs) r w (q\<lparr>pc := p\<rparr> # qs)"
  using weight_goto [of g w "q\<lparr>pc := p\<rparr>" qs q] assms by (auto simp: paid_def of_bool_def split: if_splits)

lemma paid_refl [simp]: "paid g r w qs r w qs"
  by (simp add: paid_def)

lemma paid_control: "paid g r w qs r' w' qs' \<Longrightarrow> paid g r w qs r' (update_control f w') qs'"
  by (simp add: paid_def weight_def update_control_def)

lemma enter_needs:
  assumes "queries_ok g w (q # qs)" "pc q = Enter_cas old True"
  shows "0 < weight g w (q # qs)"
proof -
  obtain l where l: "path g (toks w) (head (control w)) l" "needs (toks w) (poison (control w)) l q"
    using assms(1) by (auto simp: queries_ok_def cover_def)
  then obtain j where "j \<in> set l"
    using assms(2) by (cases l) (auto simp: needs_def)
  then show ?thesis
    using path_counted [OF l(1)] weight_admitted assms(1) by blast
qed

lemma enter_step_paid:
  assumes "queries_ok g w (q # qs)" "generation r = g" "count r \<le> COUNT_MASK" "enter_region c q r w = (Some q', r', w')"
    and "\<forall>i. pc q \<noteq> Reserve i" "\<forall>b. pc q \<noteq> Call b" "\<forall>g'. pc q \<noteq> Leave_count g'" "pc q \<noteq> Leave_generation"
  shows "paid g r w (q # qs) r' w' (q' # qs)"
proof -
  note f = queries_ok_facts(1) [OF assms(1)]
  show ?thesis
  proof (cases "pc q")
    case (Enter_cas old n)
    have n: "count old \<noteq> COUNT_MASK" "stop old \<longrightarrow> n"
      using f Enter_cas by (simp_all add: query_ok_def)
    have "stop old \<longrightarrow> 0 < weight g w (q # qs)"
      using n(2) enter_needs [OF assms(1)] Enter_cas by auto
    then show ?thesis
      using n(1) assms(2-4) Enter_cas paid_goto [of g w Enter_load q r qs]
      by (auto simp: enter_region_def goto_def paid_def weight_def transit_def split: if_splits)
  next
    case (Meta_store e p)
    let ?x = "\<lparr>tok_generation = e, previous = p, used = True, admitted = True\<rparr>"
    have q: "index q \<noteq> 0" "e = g" "\<not> admitted (toks w (index q))"
      using f Meta_store by (simp_all add: query_ok_def)
    then show ?thesis
      using assms(4) Meta_store weight_update [OF assms(1) q(1), of w' ?x q']
      by (auto simp: enter_region_def goto_def paid_def counted_def transit_def set_token_def)
  next
    case Undo_admit
    have q: "index q \<noteq> 0"
      using f Undo_admit by (simp add: query_ok_def)
    then show ?thesis
      using assms(4) Undo_admit weight_update [OF assms(1) q, of w' "(toks w (index q))\<lparr>admitted := False\<rparr>" q']
      by (auto simp: enter_region_def goto_def paid_def counted_def transit_def set_token_def)
  qed (use assms paid_control [OF paid_goto] in
      \<open>auto simp: enter_region_def goto_def transit_def split: if_splits intro!: paid_goto\<close>)
qed

lemma leave_step_paid:
  assumes "queries_ok g w (q # qs)" "generation r = g" "weight g w (q # qs) \<le> count r"
    and "leave_region q r w = (q', r', w')"
  shows "paid g r w (q # qs) r' w' (case q' of None \<Rightarrow> qs | Some k \<Rightarrow> k # qs)"
proof -
  note f = queries_ok_facts(1) [OF assms(1)]
  show ?thesis
  proof (cases "pc q")
    case Leave_admit
    have q: "index q \<noteq> 0" "admitted (toks w (index q))"
      using f Leave_admit by (simp_all add: query_ok_def)
    then show ?thesis
      using assms(4) Leave_admit
        weight_update [OF assms(1) q(1), of w' "(toks w (index q))\<lparr>admitted := False\<rparr>" "q\<lparr>pc := Leave_generation\<rparr>"]
      by (auto simp: leave_region_def goto_def paid_def counted_def transit_def set_token_def)
  next
    case (Leave_count e)
    have "weight g w (q\<lparr>pc := Free\<rparr> # qs) + of_bool (e = g) = weight g w (q # qs)"
      using weight_goto [of g w "q\<lparr>pc := Free\<rparr>" qs q] Leave_count by (simp add: transit_def)
    then show ?thesis
      using assms(2-4) Leave_count
      by (auto simp: leave_region_def goto_def paid_def of_bool_def split: if_splits)
  next
    case Free
    have q: "index q \<noteq> 0" "\<not> admitted (toks w (index q))"
      using f Free by (simp_all add: query_ok_def)
    then have "weight g w' (q # qs) \<le> weight g w (q # qs)"
      using assms(4) Free weight_update [OF assms(1) q(1), of w' empty_token q]
      by (auto simp: leave_region_def counted_def transit_def set_token_def empty_token_def)
    moreover have "weight g w' qs \<le> weight g w' (q # qs)"
      by (simp add: weight_def)
    ultimately show ?thesis
      using assms(4) Free by (auto simp: leave_region_def paid_def)
  qed (use assms paid_control [OF paid_goto] in
      \<open>auto simp: leave_region_def goto_def transit_def split: if_splits intro!: paid_goto\<close>)
qed

lemma reserve_step_paid:
  assumes "queries_ok g w (q # qs)" "pc q = Reserve i" "reserve_token q i r w = (q', r', w')"
  shows "paid g r w (q # qs) r' w' (case q' of None \<Rightarrow> qs | Some k \<Rightarrow> k # qs)"
proof (cases "i < TOKEN_CAPACITY \<and> \<not> used (toks w (i + 1))")
  case True
  then have a: "\<not> admitted (toks w (i + 1))" "i + 1 \<notin> index ` set qs"
    using assms(1) by (auto simp: queries_ok_def tokens_ok_def query_ok_def)
  have "records g ((toks w)(i + 1 := empty_token\<lparr>used := True\<rparr>)) = records g (toks w)"
    using a(1) by (auto simp: counted_def empty_token_def)
  then have "weight g w' (\<lparr>index = i + 1, pc = Enter_check\<rparr> # qs) \<le> weight g w (q # qs)"
    using True a(2) assms(3) transit_other [of "i + 1" qs g "toks w"]
    by (auto simp: weight_def reserve_token_def set_token_def transit_def simp del: fun_upd_apply)
  then show ?thesis
    using True assms(3) by (auto simp: reserve_token_def paid_def)
next
  case False
  then show ?thesis
    using assms by (auto simp: reserve_token_def goto_def transit_def split: if_splits intro!: paid_goto)
qed

lemma query_step_paid:
  assumes "queries_ok g w (q # qs)" "generation r = g" "count r \<le> COUNT_MASK" "weight g w (q # qs) \<le> count r"
    and "query_step c q r w = (q', r', w')"
  shows "paid g r w (q # qs) r' w' (case q' of None \<Rightarrow> qs | Some k \<Rightarrow> k # qs)"
proof -
  have some: "\<exists>k. q' = Some k" if "enter_region c q r w = (q', r', w')"
    using that by (auto simp: enter_region_def goto_def split: query_pc.splits if_splits)
  show ?thesis
  proof (cases "pc q")
    case (Reserve i)
    then show ?thesis
      using assms reserve_step_paid by (simp add: query_step_def)
  next
    case (Call b)
    have "weight g w qs \<le> weight g w (q # qs)"
      by (simp add: weight_def)
    then have "paid g r w (q # qs) r w qs"
      by (simp add: paid_def)
    then show ?thesis
      using assms(5) Call by (auto simp: query_step_def goto_def transit_def split: if_splits intro!: paid_goto)
  qed (use assms some enter_step_paid [of g w q qs r c _ r' w'] leave_step_paid [of g w q qs r q' r' w'] in
      \<open>auto simp: query_step_def\<close>)
qed

text \<open>What a query never touches: the fields of the writer and of the controller scopes.\<close>

lemma query_step_control:
  assumes "query_step c q r w = (q', r', w')"
  shows "writing (control w') = writing (control w)" "depth (control w') = depth (control w)"
    "saturated (control w') = saturated (control w)"
    "epoch (control w') = epoch (control w) \<or> (\<exists>e. pc q = Poison_publish e \<and> epoch (control w') = e)"
  using assms
  by (auto simp: query_step_def enter_region_def leave_region_def reserve_token_def goto_def update_control_def
      set_token_def split: query_pc.splits if_splits)

end
