(* ===== verification/Stat_Guard_Gate.thy ===== *)
theory Stat_Guard_Gate
  imports Stat_Guard_Safety
begin

text \<open>
  The gate of the filesystem-query guard over all threads: who owns a closed gate, what a fork leaves in
  the child, and the invariant of every reachable state.
\<close>

subsection \<open>The writer\<close>

text \<open>The places of a writer call behind the closing and in front of the opening of the gate of generation \<open>g\<close>.\<close>

definition gate_pc :: "nat \<Rightarrow> writer_pc \<Rightarrow> bool" where
  "gate_pc g p \<longleftrightarrow>
     (case p of
        Own_load g' \<Rightarrow> g' = g | Own_regions g' _ \<Rightarrow> g' = g | Own_cas g' _ \<Rightarrow> g' = g
      | Drain g' \<Rightarrow> g' = g | Drain_resume g' \<Rightarrow> g' = g | Drain_open _ e \<Rightarrow> e = g
      | Deferred b g' \<Rightarrow> b \<and> g' = g | Resume_open e \<Rightarrow> e = g
      | _ \<Rightarrow> False)"

definition owner :: "nat \<Rightarrow> words \<Rightarrow> writer_pc option \<Rightarrow> bool" where
  "owner g w p \<longleftrightarrow> writing (control w) \<or> (case p of None \<Rightarrow> False | Some p' \<Rightarrow> gate_pc g p')"

text \<open>\<^verbatim>\<open>try_stop\<close> has returned success and \<^verbatim>\<open>resume\<close> has not given the ownership up.\<close>

definition holding :: "words \<Rightarrow> writer_pc option \<Rightarrow> bool" where
  "holding w p \<longleftrightarrow> writing (control w) \<and> (case p of Some (Drain _) \<Rightarrow> False | Some (Drain_resume _) \<Rightarrow> False | _ \<Rightarrow> True)"

definition writer_ok :: "nat \<Rightarrow> words \<Rightarrow> writer_pc option \<Rightarrow> bool" where
  "writer_ok g w p \<longleftrightarrow>
     (writing (control w) \<longrightarrow> epoch (control w) = g) \<and>
     (case p of
        Some (Stop_control r) \<Rightarrow> generation r \<le> g
      | Some (Stop_token g' st) \<Rightarrow> g' \<le> g \<and> (writing (control w) \<longrightarrow> writing st)
      | Some (Stop_close g') \<Rightarrow> g' \<le> g \<and> \<not> writing (control w)
      | Some (Own_load g') \<Rightarrow> g' \<le> g \<and> \<not> writing (control w)
      | Some (Own_regions g' st) \<Rightarrow> g' \<le> g \<and> epoch st \<le> g \<and> \<not> writing (control w)
      | Some (Own_cas g' st) \<Rightarrow>
          g' \<le> g \<and> epoch st \<le> g' \<and> (g' \<noteq> g \<longrightarrow> epoch (control w) = g) \<and> \<not> writing (control w)
      | Some (Drain g') \<Rightarrow> g' \<le> g \<and> (writing (control w) \<longleftrightarrow> g' = g)
      | Some (Drain_resume g') \<Rightarrow> g' \<le> g \<and> (writing (control w) \<longleftrightarrow> g' = g)
      | Some (Drain_open g' e) \<Rightarrow> g' \<le> g \<and> e \<le> g \<and> \<not> writing (control w)
      | Some (Deferred b g') \<Rightarrow> g' \<le> g \<and> (b \<longrightarrow> \<not> writing (control w))
      | Some (Defer_load g') \<Rightarrow> g' \<le> g
      | Some (Defer_regions g' st) \<Rightarrow> g' \<le> g
      | Some (Defer_cas g' st) \<Rightarrow> writing st \<and> epoch st = g' \<and> g' < g
      | Some (Resume_open e) \<Rightarrow> e \<le> g \<and> \<not> writing (control w)
      | _ \<Rightarrow> True)"

definition after :: "writer_result \<Rightarrow> writer_pc option" where
  "after res = (case res of Goto p \<Rightarrow> Some p | Return _ \<Rightarrow> None)"

lemma writer_step_words:
  assumes "writer_step ready c p r w d = (res, r', w', d')"
  shows "toks w' = toks w \<and> permanent w' = permanent w \<and> head (control w') = head (control w) \<and>
    poison (control w') = poison (control w) \<and> generation r' = generation r \<and> count r' = count r"
  using assms
  by (cases p) (auto simp: writer_step_def update_control_def open_gate_def split: if_splits)

lemmas step_defs = writer_step_def after_def update_control_def open_gate_def

lemma writer_step_ok:
  assumes "writer_ok g w (Some p)" "generation r = g" "epoch (control w) \<le> g"
    and "writer_step ready c p r w d = (res, r', w', d')"
  shows "writer_ok g w' (after res) \<and> (epoch (control w') = epoch (control w) \<or> epoch (control w') = g)"
  using assms by (cases p) (auto simp: writer_ok_def step_defs split: if_splits)

text \<open>A step of the writer closes the gate and becomes its owner, or opens it and gives it up, or changes
  neither.\<close>

definition gate_step :: "bool \<Rightarrow> bool \<Rightarrow> bool \<Rightarrow> bool \<Rightarrow> bool" where
  "gate_step closed mine closed' mine' \<longleftrightarrow>
     (closed' = closed \<and> mine' = mine) \<or> (\<not> closed \<and> closed' \<and> mine') \<or> (mine \<and> \<not> mine' \<and> \<not> closed')"

lemma writer_step_gate:
  assumes "writer_ok g w (Some p)" "generation r = g" "owner g w (Some p) \<longrightarrow> stop r"
    and "writer_step ready c p r w d = (res, r', w', d')"
  shows "gate_step (stop r) (owner g w (Some p)) (stop r') (owner g w' (after res))"
  using assms
  by (cases p) (auto simp: writer_ok_def owner_def gate_pc_def gate_step_def step_defs split: if_splits)

lemma writer_step_holding:
  assumes "writer_ok g w (Some p)" "generation r = g" "writer_step ready c p r w d = (res, r', w', d')"
    and "holding w' (after res)"
  shows "holding w (Some p) \<or> count r = 0"
  using assms by (cases p) (auto simp: writer_ok_def holding_def step_defs split: if_splits)

subsection \<open>The child of a fork\<close>

definition tagged :: "nat \<Rightarrow> nat list \<Rightarrow> (nat \<Rightarrow> token) \<Rightarrow> nat \<Rightarrow> token" where
  "tagged g l ts i = (if i \<in> set l then (ts i)\<lparr>tok_generation := g\<rparr> else ts i)"

lemma tagged_fields [simp]:
  "previous (tagged g l ts i) = previous (ts i)" "used (tagged g l ts i) = used (ts i)"
  "admitted (tagged g l ts i) = admitted (ts i)"
  by (simp_all add: tagged_def)

lemma retag_path: "path g ts h l \<Longrightarrow> length l \<le> n \<Longrightarrow> retag n g' h ts = Some (length l, tagged g' l ts)"
proof (induction l arbitrary: h ts n)
  case Nil
  then show ?case
    by (simp add: retag.simps tagged_def [abs_def])
next
  case (Cons i l)
  obtain m where n: "n = Suc m"
    using Cons.prems(2) by (cases n) auto
  let ?ts = "ts(i := (ts i)\<lparr>tok_generation := g'\<rparr>)"
  have p: "path g ts (previous (ts i)) l" "h = i" "i \<noteq> 0" "admitted (ts i)" "i \<notin> set l"
    using Cons.prems(1) path_distinct [OF Cons.prems(1)] by (auto simp: counted_def)
  have "retag m g' (previous (ts i)) ?ts = Some (length l, tagged g' l ?ts)"
    using Cons.IH [of ?ts "previous (ts i)" m] p path_update [of i l g ts] Cons.prems(2) n
    by (simp del: fun_upd_apply)
  moreover have "tagged g' l ?ts = tagged g' (i # l) ts"
    using p(5) by (auto simp: tagged_def)
  ultimately show ?case
    using p unfolding n by (simp add: retag.simps [of "Suc m"] del: fun_upd_apply)
qed

lemma path_tagged: "path g ts h l \<Longrightarrow> set l \<subseteq> set l' \<Longrightarrow> path g' (tagged g' l' ts) h l"
proof (induction l arbitrary: h)
  case (Cons i l)
  then show ?case
    by (auto simp: counted_def) (simp add: tagged_def)
qed simp

text \<open>An admission under way: the reader is counted and its record not yet the head of the list.\<close>

definition admitting :: "query \<Rightarrow> bool" where
  "admitting q \<longleftrightarrow>
     (case pc q of
        Poison_publish _ \<Rightarrow> True | Meta_state _ \<Rightarrow> True | Meta_store _ _ \<Rightarrow> True | Head_publish \<Rightarrow> True | _ \<Rightarrow> False)"

lemma listed_tagged [simp]: "listed (tagged g l ts) q = listed ts q"
  by (cases "pc q") (simp_all add: listed_def)

lemma needs_tagged [simp]: "needs (tagged g l ts) perm k q = needs ts perm k q"
  by (simp add: needs_def)

lemma stored_tagged [simp]: "stored (tagged g l ts) q = stored ts q"
  by (cases "pc q") (simp_all add: stored_def)

text \<open>A path to a record of the list stays within the list.\<close>

lemma cover_tagged:
  assumes "path g ts h l" "j \<in> set l" "cover g ts perm (previous (ts j)) A qs"
  shows "cover g' (tagged g' l ts) perm (previous (ts j)) A qs"
proof -
  obtain k where k: "path g ts (previous (ts j)) k" "\<forall>q \<in> set qs. needs ts perm k q" "A \<inter> set k = {}"
    using assms(3) by (auto simp: cover_def)
  obtain a b where b: "l = a @ j # b" "path g ts j (j # b)"
    using path_suffix [OF assms(1,2)] by blast
  then have "k = b"
    using path_unique [OF k(1)] by simp
  then have "set k \<subseteq> set l"
    using b(1) by auto
  then have "path g' (tagged g' l ts) (previous (ts j)) k"
    by (rule path_tagged [OF k(1)])
  then show ?thesis
    using k by (auto simp: cover_def)
qed

lemma stack_tagged:
  assumes "path g ts h l" "\<forall>q \<in> set qs. needs ts perm l q \<and> \<not> admitting q" "stack_ok g ts perm A qs"
  shows "stack_ok g' (tagged g' l ts) perm A qs"
  using assms(2,3)
proof (induction qs arbitrary: A)
  case (Cons q qs)
  have "cover g' (tagged g' l ts) perm p (insert (index q) A) qs" if "stored ts q = Some p" for p
  proof -
    have "listed ts q" "p = previous (ts (index q))"
      using that Cons.prems(1) by (auto simp: stored_def admitting_def split: query_pc.splits if_splits)
    then show ?thesis
      using cover_tagged [OF assms(1)] Cons.prems that by (auto simp: needs_def)
  qed
  then show ?case
    using Cons by simp
qed simp

lemma query_ok_tagged:
  assumes "query_ok g w q" "\<not> admitting q" "g < g'" "toks w' = tagged g' l (toks w)"
    and "poison (control w') = poison (control w)"
  shows "query_ok g' w' q"
  using assms by (cases "pc q") (auto simp: query_ok_def admitting_def)

lemma path_length: "path g ts h l \<Longrightarrow> \<forall>i. counted g (ts i) \<longrightarrow> 0 < i \<and> i \<le> n \<Longrightarrow> length l \<le> n"
proof -
  assume p: "path g ts h l" "\<forall>i. counted g (ts i) \<longrightarrow> 0 < i \<and> i \<le> n"
  then have "set l \<subseteq> {1..n}"
    using path_counted [OF p(1)] by fastforce
  then have "card (set l) \<le> n"
    using card_mono [of "{1..n}" "set l"] by simp
  then show ?thesis
    using path_distinct [OF p(1)] by (simp add: distinct_card)
qed

lemma after_fork_ok:
  assumes "queries_ok g w qs" "\<forall>q \<in> set qs. \<not> admitting q" "generation r = g" "g + 1 < 2 ^ 32"
  shows "\<exists>r' w'. after_fork_child r w = Some (r', w') \<and> queries_ok (g + 1) w' qs \<and> generation r' = g + 1 \<and>
    \<not> stop r' \<and> count r' = weight (g + 1) w' qs \<and> count r' \<le> COUNT_MASK \<and>
    \<not> writing (control w') \<and> epoch (control w') = g + 1"
proof -
  have t: "tokens_ok g w"
    using assms(1) by (simp add: queries_ok_def)
  obtain l where l: "path g (toks w) (head (control w)) l" "\<forall>q \<in> set qs. needs (toks w) (poison (control w)) l q"
    using assms(1) by (auto simp: queries_ok_def cover_def)
  have len: "length l \<le> TOKEN_CAPACITY"
    using path_length [OF l(1)] t by (auto simp: tokens_ok_def counted_def)
  let ?g = "g + 1"
  let ?ts = "tagged ?g l (toks w)" and ?live = "if poison (control w) then 1 else 0 :: nat"
  let ?x = "(control w)\<lparr>writing := False, depth := 0, saturated := False, epoch := ?g\<rparr>"
  let ?w = "w\<lparr>toks := ?ts, control := ?x, permanent := ?live\<rparr>"
  let ?r = "\<lparr>generation = ?g, stop = False, count = ?live + length l\<rparr>"
  have run: "after_fork_child r w = Some (?r, ?w)"
    using retag_path [OF l(1) len, of ?g] assms(3,4) by (simp add: after_fork_child_def Let_def)
  have old: "tok_generation (toks w i) \<le> g" for i
    using t by (simp add: tokens_ok_def)
  have "tok_generation (?ts i) \<le> ?g" for i
    using old [of i] by (simp add: tagged_def)
  then have "tokens_ok ?g ?w"
    using t by (simp add: tokens_ok_def)
  moreover have "query_ok ?g ?w q" if "q \<in> set qs" for q
    using query_ok_tagged [of g w q ?g ?w l] that assms(1,2) by (simp add: queries_ok_def)
  moreover have "cover ?g ?ts (poison (control w)) (head (control w)) {} qs"
    using l path_tagged [OF l(1) order.refl, of ?g] by (auto simp: cover_def)
  moreover have "stack_ok ?g ?ts (poison (control w)) {} qs"
    using stack_tagged [OF l(1)] l(2) assms(1,2) by (auto simp: queries_ok_def)
  ultimately have ok: "queries_ok ?g ?w qs"
    using assms(1) by (simp add: queries_ok_def)
  have "i \<in> records ?g ?ts \<longleftrightarrow> i \<in> set l" for i
  proof (cases "i \<in> set l")
    case True
    then have "admitted (toks w i)"
      using path_counted [OF l(1)] by (simp add: counted_def)
    then show ?thesis
      using True t by (simp add: tokens_ok_def counted_def tagged_def)
  next
    case False
    then show ?thesis
      using old [of i] by (simp add: counted_def tagged_def)
  qed
  then have "records ?g ?ts = set l"
    by blast
  moreover have "card (set l) = length l"
    using path_distinct [OF l(1)] by (rule distinct_card)
  moreover have "\<not> transit ?g ?ts q" if "q \<in> set qs" for q
  proof -
    have q: "query_ok g w q" "needs (toks w) (poison (control w)) l q"
      using that assms(1) l(2) by (simp_all add: queries_ok_def)
    then have "pc q = Leave_generation \<Longrightarrow> index q \<notin> set l"
      by (simp add: needs_def listed_def)
    then show ?thesis
      using q(1) old [of "index q"] by (cases "pc q") (auto simp: transit_def query_ok_def tagged_def)
  qed
  then have "filter (transit ?g ?ts) qs = []"
    by (simp add: filter_empty_conv)
  ultimately have "weight ?g ?w qs = ?live + length l"
    by (simp add: weight_def)
  then show ?thesis
    using run ok len by (simp add: COUNT_MASK_def TOKEN_CAPACITY_def)
qed

end
