(* ===== verification/Stat_Guard_Exclusion.thy ===== *)
theory Stat_Guard_Exclusion
  imports Stat_Guard_Gate
begin

text \<open>
  The invariant of the guard over every run of events, and the exclusion it gives: between a successful
  \<^verbatim>\<open>try_stop\<close> and \<^verbatim>\<open>resume\<close> no query that went through the gate is inside the C library.
\<close>

subsection \<open>One thread\<close>

definition thread_ok :: "nat \<Rightarrow> thread \<Rightarrow> bool" where
  "thread_ok g th \<longleftrightarrow> queries_ok g (words th) (queries th) \<and> writer_ok g (words th) (writer th)"

abbreviation owns :: "nat \<Rightarrow> thread \<Rightarrow> bool" where
  "owns g th \<equiv> owner g (words th) (writer th)"

abbreviation holds :: "thread \<Rightarrow> bool" where
  "holds th \<equiv> holding (words th) (writer th)"

abbreviation readers :: "nat \<Rightarrow> thread \<Rightarrow> nat" where
  "readers g th \<equiv> weight g (words th) (queries th)"

text \<open>What a step of a thread does to the shared word, as far as the other threads are concerned.\<close>

definition local_step :: "nat \<Rightarrow> region_word \<Rightarrow> thread \<Rightarrow> region_word \<Rightarrow> thread \<Rightarrow> bool" where
  "local_step g r th r' th' \<longleftrightarrow>
     thread_ok g th' \<and> generation r' = g \<and> readers g th' + count r \<le> readers g th + count r' \<and>
     (count r < count r' \<longrightarrow> count r < COUNT_MASK \<and> count r' = count r + 1 \<and> (stop r \<longrightarrow> 0 < readers g th)) \<and>
     gate_step (stop r) (owns g th) (stop r') (owns g th') \<and>
     (holds th' \<longrightarrow> holds th \<or> count r' = 0)"

lemma local_step_same:
  assumes "thread_ok g th'" "generation r = g" "readers g th' \<le> readers g th" "owns g th' = owns g th" "holds th' \<longrightarrow> holds th"
  shows "local_step g r th r th'"
  using assms by (simp add: local_step_def gate_step_def)

lemma writer_ok_query:
  assumes "writer_ok g w p" "writing (control w') = writing (control w)"
    and "epoch (control w') = epoch (control w) \<or> epoch (control w') = g"
  shows "writer_ok g w' p"
proof (cases p)
  case (Some p')
  then show ?thesis
    using assms by (cases p') (auto simp: writer_ok_def)
qed (use assms in \<open>auto simp: writer_ok_def\<close>)

lemma query_step_local:
  assumes "thread_ok g th" "generation r = g" "count r \<le> COUNT_MASK" "readers g th \<le> count r" "queries th = q # qs"
    and "query_step c q r (words th) = (q', r', w')"
  shows "local_step g r th r' (th\<lparr>words := w', queries := (case q' of None \<Rightarrow> qs | Some k \<Rightarrow> k # qs)\<rparr>)"
proof -
  have ok: "queries_ok g (words th) (q # qs)" "writer_ok g (words th) (writer th)"
    using assms(1,5) by (simp_all add: thread_ok_def)
  note paid = query_step_paid [OF ok(1) assms(2,3) _ assms(6)] and ctl = query_step_control [OF assms(6)]
  have "epoch (control w') = epoch (control (words th)) \<or> epoch (control w') = g"
    using ctl(4) queries_ok_facts(1) [OF ok(1)] by (auto simp: query_ok_def)
  then have "writer_ok g w' (writer th)"
    using writer_ok_query ok(2) ctl(1) by blast
  then show ?thesis
    using query_step_ok [OF ok(1) assms(2,6)] paid assms(2,4,5) ctl(1)
    by (auto simp: local_step_def thread_ok_def paid_def owner_def holding_def gate_step_def)
qed

lemma writer_step_local:
  assumes "thread_ok g th" "generation r = g" "owns g th \<longrightarrow> stop r" "queries th = []" "writer th = Some p"
    and "writer_step ready c p r (words th) d = (res, r', w', d')"
  shows "local_step g r th r' (th\<lparr>words := w', writer := after res\<rparr>)"
proof -
  have ok: "queries_ok g (words th) []" "writer_ok g (words th) (Some p)"
    using assms(1,4,5) by (simp_all add: thread_ok_def)
  have e: "epoch (control (words th)) \<le> g"
    using ok(1) by (simp add: queries_ok_def tokens_ok_def)
  note same = writer_step_words [OF assms(6)]
  note step = writer_step_ok [OF ok(2) assms(2) e assms(6)]
  have "queries_ok g w' []"
    using ok(1) same step by (auto simp: queries_ok_def tokens_ok_def)
  moreover have "weight g w' [] = weight g (words th) []"
    using same by (simp add: weight_def)
  moreover have "gate_step (stop r) (owns g th) (stop r') (owner g w' (after res))"
    using writer_step_gate [OF ok(2) assms(2) _ assms(6)] assms(3,5) by simp
  moreover have "holding w' (after res) \<longrightarrow> holds th \<or> count r = 0"
    using writer_step_holding [OF ok(2) assms(2,6)] assms(5) by auto
  ultimately show ?thesis
    using same step assms(2,4) by (simp add: local_step_def thread_ok_def)
qed

text \<open>Scopes of the controller change fields that nothing else depends on.\<close>

lemma queries_ok_control:
  assumes "queries_ok g w qs" "head (f (control w)) = head (control w)" "poison (f (control w)) = poison (control w)"
    and "epoch (f (control w)) = epoch (control w)"
  shows "queries_ok g (update_control f w) qs"
proof -
  have "query_ok g (update_control f w) q" if "query_ok g w q" for q
    using that assms(3) by (auto simp: update_control_def intro: query_ok_other)
  then show ?thesis
    using assms by (auto simp: queries_ok_def tokens_ok_def update_control_def)
qed

lemma controller_local:
  assumes "thread_ok g th" "generation r = g" "idle th" "w' = controller_enter (words th) \<or> w' = controller_leave (words th)"
  shows "local_step g r th r (th\<lparr>words := w'\<rparr>)"
proof -
  have "\<exists>f. w' = update_control f (words th) \<and>
      (\<forall>x. head (f x) = head x \<and> poison (f x) = poison x \<and> epoch (f x) = epoch x \<and> writing (f x) = writing x)"
    using assms(4)
  proof
    assume "w' = controller_enter (words th)"
    then show ?thesis
      unfolding controller_enter_def by (intro exI conjI, assumption) simp
  next
    assume "w' = controller_leave (words th)"
    then show ?thesis
      unfolding controller_leave_def by (intro exI conjI, assumption) simp
  qed
  then obtain f where f: "w' = update_control f (words th)"
    "\<forall>x. head (f x) = head x \<and> poison (f x) = poison x \<and> epoch (f x) = epoch x \<and> writing (f x) = writing x"
    by blast
  have "queries_ok g w' (queries th)"
    unfolding f(1) using assms(1) f(2) by (intro queries_ok_control) (auto simp: thread_ok_def)
  moreover have "writer_ok g w' (writer th)"
    using assms(1,3) f by (simp add: thread_ok_def idle_def writer_ok_def update_control_def)
  ultimately show ?thesis
    using assms(2) f
    by (intro local_step_same) (auto simp: thread_ok_def update_control_def weight_def owner_def holding_def)
qed

lemma weight_drop: "weight g w (drop n qs) \<le> weight g w qs"
proof -
  have "length (filter P (drop n qs)) \<le> length (filter P qs)" for P :: "query \<Rightarrow> bool"
    by (metis append_take_drop_id filter_append le_add2 length_append)
  then show ?thesis
    by (simp add: weight_def)
qed

lemma thread_step_local:
  assumes "thread_ok g th" "generation r = g" "count r \<le> COUNT_MASK" "readers g th \<le> count r" "owns g th \<longrightarrow> stop r"
    and "thread_step e r d th = (r', d', th')"
  shows "local_step g r th r' th'"
proof -
  have refl: "local_step g r th r th"
    using assms(1,2) by (simp add: local_step_same)
  show ?thesis
  proof (cases e)
    case (Query t)
    have "thread_ok g (th\<lparr>queries := new_query # queries th\<rparr>)"
      using assms(1) queries_ok_new by (simp add: thread_ok_def)
    moreover have "\<not> transit g (toks (words th)) new_query"
      by (simp add: transit_def new_query_def)
    ultimately show ?thesis
      using assms(2,6) Query by (auto simp: thread_step_def weight_def intro!: local_step_same)
  next
    case (Query_step t c)
    show ?thesis
    proof (cases "queries th")
      case (Cons q qs)
      obtain q' r1 w' where "query_step c q r (words th) = (q', r1, w')"
        by (metis prod_cases3)
      then show ?thesis
        using query_step_local [OF assms(1-4) Cons] assms(6) Query_step Cons by (auto simp: thread_step_def)
    qed (use assms(6) Query_step refl in \<open>auto simp: thread_step_def\<close>)
  next
    case (Writer_step t ready c)
    show ?thesis
    proof (cases "queries th = [] \<and> writer th \<noteq> None")
      case True
      then obtain p where p: "writer th = Some p"
        by auto
      obtain res r1 w' d1 where "writer_step ready c p r (words th) d = (res, r1, w', d1)"
        by (metis prod_cases4)
      then show ?thesis
        using writer_step_local [OF assms(1,2,5) _ p] assms(6) Writer_step True p
        by (auto simp: thread_step_def after_def)
    qed (use assms(6) Writer_step refl in \<open>auto simp: thread_step_def split: option.splits\<close>)
  next
    case (Longjmp t n)
    have "thread_ok g (th\<lparr>queries := drop n (queries th)\<rparr>)"
      using assms(1) queries_ok_drop by (simp add: thread_ok_def)
    then show ?thesis
      using assms(2,6) Longjmp weight_drop by (auto simp: thread_step_def intro!: local_step_same)
  next
    case (Controller_enter t)
    then show ?thesis
      using assms(6) controller_local [OF assms(1,2)] refl by (auto simp: thread_step_def split: if_splits)
  next
    case (Controller_leave t)
    then show ?thesis
      using assms(6) controller_local [OF assms(1,2)] refl by (auto simp: thread_step_def split: if_splits)
  qed (use assms refl in \<open>auto simp: thread_step_def thread_ok_def writer_ok_def owner_def gate_pc_def holding_def idle_def
      split: if_splits intro!: local_step_same\<close>)
qed

subsection \<open>All threads\<close>

definition guard_ok :: "guard \<Rightarrow> bool" where
  "guard_ok s \<longleftrightarrow>
     (let r = regions s; g = generation r; ths = threads s in
      (\<forall>th \<in> set ths. thread_ok g th) \<and> count r \<le> COUNT_MASK \<and> sum_list (map (readers g) ths) \<le> count r \<and>
      (\<forall>i < length ths. \<forall>j < length ths. owns g (ths ! i) \<and> owns g (ths ! j) \<longrightarrow> i = j) \<and>
      (stop r \<longleftrightarrow> (\<exists>i < length ths. owns g (ths ! i))) \<and>
      (\<forall>th \<in> set ths. holds th \<longrightarrow> count r = 0))"

lemma readers_le: "t < length ths \<Longrightarrow> readers g (ths ! t) \<le> sum_list (map (readers g) ths)"
  using elem_le_sum_list [of t "map (readers g) ths"] by simp

lemma holds_owns: "holds th \<Longrightarrow> owns g th"
  by (simp add: holding_def owner_def)

lemma guard_ok_update:
  assumes "guard_ok s" "t < length (threads s)" "local_step (generation (regions s)) (regions s) (threads s ! t) r' th'"
  shows "guard_ok \<lparr>regions = r', threads = (threads s)[t := th'], deferred_stops = d\<rparr>"
proof -
  define r g ths where "r = regions s" and "g = generation r" and "ths = threads s"
  note defs = r_def g_def ths_def
  have ok: "\<forall>th \<in> set ths. thread_ok g th" "count r \<le> COUNT_MASK" "sum_list (map (readers g) ths) \<le> count r"
    "\<forall>i < length ths. \<forall>j < length ths. owns g (ths ! i) \<and> owns g (ths ! j) \<longrightarrow> i = j"
    "stop r \<longleftrightarrow> (\<exists>i < length ths. owns g (ths ! i))" "\<forall>th \<in> set ths. holds th \<longrightarrow> count r = 0"
    using assms(1) by (simp_all add: guard_ok_def Let_def defs)
  have st: "thread_ok g th'" "generation r' = g" "readers g th' + count r \<le> readers g (ths ! t) + count r'"
    "count r < count r' \<Longrightarrow> count r < COUNT_MASK \<and> count r' = count r + 1 \<and> (stop r \<longrightarrow> 0 < readers g (ths ! t))"
    "gate_step (stop r) (owns g (ths ! t)) (stop r') (owns g th')" "holds th' \<Longrightarrow> holds (ths ! t) \<or> count r' = 0"
    using assms(3) by (auto simp: local_step_def defs)
  have t: "t < length ths" "ths ! t \<in> set ths"
    using assms(2) by (simp_all add: defs)
  have "sum_list (map (readers g) (ths[t := th'])) + readers g (ths ! t) = sum_list (map (readers g) ths) + readers g th'"
    using t(1) readers_le [OF t(1), of g] sum_list_update [of t "map (readers g) ths" "readers g th'"]
    by (simp add: map_update)
  then have sum: "sum_list (map (readers g) (ths[t := th'])) \<le> count r'"
    using ok(3) st(3) by linarith
  have zero: "count r' = 0" if "th \<in> set ths" "holds th" for th
  proof (rule ccontr)
    assume "count r' \<noteq> 0"
    have z: "count r = 0"
      using that ok(6) by blast
    have "stop r"
      using that holds_owns ok(5) in_set_conv_nth by metis
    then have "0 < readers g (ths ! t)"
      using st(4) \<open>count r' \<noteq> 0\<close> z by simp
    then show False
      using readers_le [OF t(1), of g] ok(3) z by simp
  qed
  have "holds th \<longrightarrow> count r' = 0" if "th \<in> set (ths[t := th'])" for th
    using set_update_subset_insert [of ths t th'] that zero st(6) t(2) by blast
  moreover have "\<forall>th \<in> set (ths[t := th']). thread_ok g th"
    using set_update_subset_insert [of ths t th'] ok(1) st(1) by blast
  moreover have "count r' \<le> COUNT_MASK"
    using ok(2) st(4) by (cases "count r < count r'") auto
  moreover have "\<forall>i < length ths. \<forall>j < length ths. owns g (ths[t := th'] ! i) \<and> owns g (ths[t := th'] ! j) \<longrightarrow> i = j"
    using ok(4,5) st(5) t(1) by (auto simp: nth_list_update gate_step_def)
  moreover have "stop r' \<longleftrightarrow> (\<exists>i < length ths. owns g (ths[t := th'] ! i))"
    using ok(4,5) st(5) t(1) unfolding gate_step_def by (metis nth_list_update)
  ultimately show ?thesis
    using sum st(2) by (auto simp: guard_ok_def Let_def ths_def [symmetric])
qed

lemma new_thread_ok: "thread_ok g new_thread \<and> readers g new_thread = 0 \<and> \<not> owns g new_thread \<and> \<not> holds new_thread"
proof -
  have "cover g (\<lambda>_. empty_token) False 0 {} []"
    unfolding cover_def by (rule exI [of _ "[]"]) simp
  then show ?thesis
    by (simp add: thread_ok_def queries_ok_def tokens_ok_def writer_ok_def new_thread_def empty_token_def
        empty_control_def weight_def counted_def owner_def holding_def)
qed

lemma guard_ok_initial: "guard_ok initial_guard"
  using new_thread_ok [of 0] by (simp add: guard_ok_def initial_guard_def Let_def COUNT_MASK_def)

lemma guard_ok_spawn:
  assumes "guard_ok s"
  shows "guard_ok (s\<lparr>threads := threads s @ [new_thread]\<rparr>)"
  using assms new_thread_ok [of "generation (regions s)"]
  by (auto simp: guard_ok_def Let_def nth_append less_Suc_eq split: if_splits)

lemma guard_ok_exit:
  assumes "guard_ok s" "t < length (threads s)" "idle (threads s ! t)" "\<not> writing (control (words (threads s ! t)))"
  shows "guard_ok (s\<lparr>threads := (threads s)[t := new_thread]\<rparr>)"
proof -
  have "local_step (generation (regions s)) (regions s) (threads s ! t) (regions s) new_thread"
    using new_thread_ok [of "generation (regions s)"] assms(3,4)
    by (intro local_step_same) (auto simp: owner_def idle_def)
  then have "guard_ok \<lparr>regions = regions s, threads = (threads s)[t := new_thread], deferred_stops = deferred_stops s\<rparr>"
    by (rule guard_ok_update [OF assms(1,2)])
  then show ?thesis
    by (simp add: guard_ok_def)
qed

lemma guard_ok_fork:
  assumes "guard_ok s" "t < length (threads s)" "\<forall>q \<in> set (queries (threads s ! t)). \<not> admitting q"
    and "generation (regions s) + 1 < 2 ^ 32"
  shows "\<exists>r w. after_fork_child (regions s) (controller_after_fork_child (words (threads s ! t))) = Some (r, w) \<and>
    guard_ok (s\<lparr>regions := r, threads := [(threads s ! t)\<lparr>words := w\<rparr>]\<rparr>)"
proof -
  let ?g = "generation (regions s)" and ?th = "threads s ! t"
  have ok: "thread_ok ?g ?th"
    using assms(1,2) by (simp add: guard_ok_def Let_def)
  have "queries_ok ?g (controller_after_fork_child (words ?th)) (queries ?th)"
    using ok unfolding controller_after_fork_child_def by (intro queries_ok_control) (auto simp: thread_ok_def)
  then obtain r w where f: "after_fork_child (regions s) (controller_after_fork_child (words ?th)) = Some (r, w)"
    "queries_ok (?g + 1) w (queries ?th)" "generation r = ?g + 1" "\<not> stop r" "count r = weight (?g + 1) w (queries ?th)"
    "count r \<le> COUNT_MASK" "\<not> writing (control w)" "epoch (control w) = ?g + 1"
    using after_fork_ok [OF _ assms(3) refl assms(4)] by blast
  have "writer_ok (?g + 1) w (writer ?th) \<and> \<not> owner (?g + 1) w (writer ?th)"
  proof (cases "writer ?th")
    case (Some p)
    then show ?thesis
      using ok f(7,8) by (cases p) (auto simp: thread_ok_def writer_ok_def owner_def gate_pc_def)
  qed (use f(7) in \<open>simp add: writer_ok_def owner_def\<close>)
  then show ?thesis
    using f by (auto simp: guard_ok_def Let_def thread_ok_def holding_def)
qed

subsection \<open>Reachable states\<close>

text \<open>A fork inside the few instructions of an admission is left out, as is the fork after \<open>2 ^ 32 - 1\<close> forks.\<close>

definition fork_allowed :: "event \<Rightarrow> guard \<Rightarrow> bool" where
  "fork_allowed e s \<longleftrightarrow>
     (case e of
        Fork t \<Rightarrow> t < length (threads s) \<longrightarrow>
          generation (regions s) + 1 < 2 ^ 32 \<and> list_all (\<lambda>q. \<not> admitting q) (queries (threads s ! t))
      | _ \<Rightarrow> True)"

inductive reachable :: "guard \<Rightarrow> bool" where
  initial: "reachable initial_guard"
| step: "reachable s \<Longrightarrow> fork_allowed e s \<Longrightarrow> reachable (guard_step e s)"

lemma thread_event_ok:
  assumes "guard_ok s" "t < length (threads s)" "thread_step e (regions s) (deferred_stops s) (threads s ! t) = (r', d', th')"
  shows "guard_ok \<lparr>regions = r', threads = (threads s)[t := th'], deferred_stops = d'\<rparr>"
proof (rule guard_ok_update [OF assms(1,2)])
  have "readers (generation (regions s)) (threads s ! t) \<le> count (regions s)"
    using assms(1) readers_le [OF assms(2), of "generation (regions s)"] by (simp add: guard_ok_def Let_def)
  then show "local_step (generation (regions s)) (regions s) (threads s ! t) r' th'"
    using assms by (intro thread_step_local [OF _ _ _ _ _ assms(3)]) (auto simp: guard_ok_def Let_def)
qed

lemma guard_step_ok:
  assumes "guard_ok s" "fork_allowed e s"
  shows "guard_ok (guard_step e s)"
proof (cases "event_thread e")
  case None
  then show ?thesis
    using assms(1) guard_ok_spawn by (simp add: guard_step_def)
next
  case (Some t)
  show ?thesis
  proof (cases "t < length (threads s)")
    case True
    obtain r' d' th' where st: "thread_step e (regions s) (deferred_stops s) (threads s ! t) = (r', d', th')"
      by (metis prod_cases3)
    note plain = thread_event_ok [OF assms(1) True st]
    show ?thesis
    proof (cases e)
      case (Exit u)
      then show ?thesis
        using assms(1) Some True guard_ok_exit by (auto simp: guard_step_def Let_def)
    next
      case (Fork u)
      then show ?thesis
        using assms Some True guard_ok_fork [OF assms(1) True]
        by (auto simp: guard_step_def Let_def fork_allowed_def list_all_iff)
    qed (use Some True st plain in \<open>auto simp: guard_step_def Let_def\<close>)
  qed (use assms(1) Some in \<open>auto simp: guard_step_def\<close>)
qed

lemma reachable_ok: "reachable s \<Longrightarrow> guard_ok s"
  by (induction rule: reachable.induct) (simp_all add: guard_ok_initial guard_step_ok)


text \<open>A run that ends in a stop window while a query waits in front of the gate.\<close>

definition run :: "event list \<Rightarrow> guard" where
  "run es = fold guard_step es initial_guard"

lemma reachable_run:
  assumes "list_all (\<lambda>e. \<forall>t. e \<noteq> Fork t) es"
  shows "reachable (run es)"
proof -
  have "reachable s \<Longrightarrow> reachable (fold guard_step es s)" for s
    using assms
  proof (induction es arbitrary: s)
    case (Cons e es)
    have "fork_allowed e s"
      using Cons.prems(2) by (cases e) (auto simp: fork_allowed_def)
    then show ?case
      using Cons reachable.step by simp
  qed simp
  then show ?thesis
    using reachable.initial by (simp add: run_def)
qed

definition stop_run :: "event list" where
  "stop_run =
     [Spawn, Query 0, Query_step 0 Go, Query_step 0 Go, Query_step 0 Go, Try_stop 1] @ replicate 8 (Writer_step 1 True Go)"


subsection \<open>The gate is not left closed\<close>

text \<open>How many steps a writer call whose clock shows the deadline passed still needs.\<close>

definition rank :: "nat \<Rightarrow> writer_pc \<Rightarrow> nat" where
  "rank g p =
     (case p of
        Stop_load \<Rightarrow> 9 | Stop_control _ \<Rightarrow> 8 | Stop_token _ _ \<Rightarrow> 7 | Stop_close _ \<Rightarrow> 7
      | Own_load _ \<Rightarrow> 9 | Own_regions _ _ \<Rightarrow> 8 | Own_cas _ _ \<Rightarrow> 7
      | Drain _ \<Rightarrow> 9 | Drain_resume _ \<Rightarrow> 8 | Drain_open _ _ \<Rightarrow> 7 | Deferred _ _ \<Rightarrow> 6
      | Defer_load _ \<Rightarrow> 5
      | Defer_regions g' st \<Rightarrow> if writing st \<and> epoch st = g' \<and> g' \<noteq> g then 7 else 4
      | Defer_cas _ _ \<Rightarrow> 6 | Defer_count \<Rightarrow> 3 | Resume_control \<Rightarrow> 2 | Resume_open _ \<Rightarrow> 1)"

lemma writer_step_rank:
  assumes "writer_ok g w (Some p)" "generation r = g" "writer_step ready Expire p r w d = (Goto p', r', w', d')"
  shows "rank g p' < rank g p"
  using assms by (cases p) (auto simp: writer_step_def rank_def writer_ok_def split: if_splits)

text \<open>\<open>n\<close> steps of the writer call of thread \<open>t\<close> with the deadline passed.\<close>

definition expire :: "nat \<Rightarrow> bool \<Rightarrow> nat \<Rightarrow> guard \<Rightarrow> guard" where
  "expire t ready n s = (guard_step (Writer_step t ready Expire) ^^ n) s"

lemma reachable_expire: "reachable s \<Longrightarrow> reachable (expire t ready n s)"
proof (induction n)
  case (Suc n)
  have "reachable (guard_step (Writer_step t ready Expire) (expire t ready n s))"
    using Suc by (intro reachable.step) (auto simp: fork_allowed_def)
  then show ?case
    by (simp add: expire_def)
qed (simp add: expire_def)

lemma expire_returns:
  assumes "guard_ok s" "t < length (threads s)" "queries (threads s ! t) = []" "writer (threads s ! t) = Some p"
    and "rank (generation (regions s)) p \<le> n"
  shows "\<exists>m \<le> n. writer (threads (expire t ready m s) ! t) = None"
  using assms
proof (induction n arbitrary: s p)
  case 0
  then show ?case
    by (cases p) (auto simp: rank_def split: if_splits)
next
  case (Suc n)
  let ?e = "Writer_step t ready Expire" and ?th = "threads s ! t"
  obtain res r' w' d' where ws: "writer_step ready Expire p (regions s) (words ?th) (deferred_stops s) = (res, r', w', d')"
    by (metis prod_cases4)
  let ?th' = "?th\<lparr>words := w', writer := after res\<rparr>"
  have st: "guard_step ?e s = \<lparr>regions = r', threads = (threads s)[t := ?th'], deferred_stops = d'\<rparr>"
    using Suc.prems(2-4) ws by (simp add: guard_step_def thread_step_def Let_def after_def)
  have ok: "guard_ok (guard_step ?e s)"
    using Suc.prems(1) by (rule guard_step_ok) (simp add: fork_allowed_def)
  have "thread_ok (generation (regions s)) ?th"
    using Suc.prems(1,2) by (simp add: guard_ok_def Let_def)
  then have wok: "writer_ok (generation (regions s)) (words ?th) (Some p)"
    using Suc.prems(4) by (simp add: thread_ok_def)
  show ?case
  proof (cases res)
    case (Return b)
    then have "writer (threads (expire t ready 1 s) ! t) = None"
      using st Suc.prems(2) by (simp add: expire_def after_def)
    then show ?thesis
      using Suc.prems(5) by (intro exI [of _ 1]) simp
  next
    case (Goto p')
    have "generation r' = generation (regions s)"
      using writer_step_words [OF ws] by simp
    moreover have "rank (generation (regions s)) p' < rank (generation (regions s)) p"
      using writer_step_rank [OF wok refl] ws Goto by simp
    ultimately have "\<exists>m \<le> n. writer (threads (expire t ready m (guard_step ?e s)) ! t) = None"
      using Suc.prems(2,3,5) Goto st ok by (intro Suc.IH [of _ p']) (auto simp: after_def)
    then obtain m where "m \<le> n" "writer (threads (expire t ready (Suc m) s) ! t) = None"
      by (auto simp: expire_def funpow_Suc_right simp del: funpow.simps)
    then show ?thesis
      by (intro exI [of _ "Suc m"]) simp
  qed
qed



end
