(* ===== verification/Stat_Guard_Fork.thy ===== *)
theory Stat_Guard_Fork
  imports Stat_Guard_Exclusion "HOL-Library.Code_Target_Nat"
begin

text \<open>
  Why the exclusion of filesystem queries asks that no fork falls into an admission. A handler that forks
  between the count of a permanent reader and its publication, followed by a non-local exit out of that
  query, leaves a poison mark of the old generation behind; a query below it that read the old
  generation takes the mark for an admission, and the child can stop its threads while that query is
  inside the C library.
\<close>

definition leak_token :: "nat \<Rightarrow> event list" where
  "leak_token n = Query 0 # replicate n (Query_step 0 Go) @ [Longjmp 0 1]"

definition fork_inside_admission :: "event list" where
  "fork_inside_admission =
     leak_token 1 @ leak_token 2 @ leak_token 3 @ leak_token 4 @
     Query 0 # replicate 7 (Query_step 0 Go) @
     Query 0 # replicate 10 (Query_step 0 Go) @
     [Fork 0, Query_step 0 Go, Longjmp 0 1, Query_step 0 Go, Spawn, Try_stop 1] @ replicate 8 (Writer_step 1 True Go)"

theorem fork_inside_admission_is_not_excluded:
  "let s = run fork_inside_admission in
     holds (threads s ! 1) \<and> map pc (queries (threads s ! 0)) = [Call True]"
  by code_simp

end
