(* ===== verification/Listener_Callbacks.thy ===== *)
theory Listener_Callbacks
  imports Complex_Main Hook_Control
begin

text \<open>
  The callbacks of a hooked function, \<^verbatim>\<open>src/general_listener.c\<close>: the invocation stack of a thread, the generic
  callbacks and the direct ones, and the counters and times they keep per listener and thread slot.

  The model follows one thread; the listeners are shared, and the thread writes only its own slot of their
  arrays. The stack is the list of entries with the top first, so that \<^verbatim>\<open>level\<close> is its length. Pointers are
  numbers with \<open>0\<close> as the null pointer. Times are exact rationals: \<^verbatim>\<open>double\<close> and \<^verbatim>\<open>float\<close> accumulations are
  modelled without rounding, the 64-bit nanosecond clock with its wrap-around. What Gum answers about
  frames, and what other threads do to a control word between its load and the exchange, are in
  \<open>gum_env\<close>.
\<close>

record gum_env =
  unwind_frame_is_live :: "nat \<Rightarrow> nat \<Rightarrow> bool"
  stack_entry_matches :: "nat \<Rightarrow> nat \<Rightarrow> nat \<Rightarrow> bool"
  thread_excluded :: bool
  callbacks_suspended :: bool
  peak_detach_count :: uint64
  others :: "uint64 \<Rightarrow> uint64"
  current_thread_slot :: "nat option"
  peak_max_num_threads :: nat

record invocation_entry =
  listener :: nat
  function_context :: nat
  caller_return_address :: nat
  stack_address :: nat
  gum_stack_depth :: nat
  start_ns :: uint64
  child_time :: rat
  fast_dispatch :: bool

record thread_state =
  stack :: "invocation_entry list"
  capacity :: nat
  self_mapped_id :: nat
  self_mapped_valid :: bool
  initialized :: bool
  in_callback :: bool
  dropped_thread_noted :: bool
  fast_ignore_level :: nat

definition INLINE_ENTRIES :: nat where
  "INLINE_ENTRIES = 16"

record invocation_data =
  start_time :: rat
  stack_level :: nat
  data_initialized :: bool

record checkpoint_shadow =
  sequence :: uint64
  invalid :: bool
  completed_calls :: uint64
  shadow_total_time :: rat
  shadow_exclusive_time :: rat
  shadow_max_time :: rat
  shadow_min_time :: rat

record general_listener =
  callback_hook_control :: uint64
  fast_lifetime_closing :: bool
  fast_active :: "nat \<Rightarrow> uint32"
  fast_stats_capacity :: nat
  num_calls :: "nat \<Rightarrow> uint64"
  total_time :: "nat \<Rightarrow> rat"
  exclusive_time :: "nat \<Rightarrow> rat"
  max_time :: "nat \<Rightarrow> rat"
  min_time :: "nat \<Rightarrow> rat"
  shadow_array :: "(nat \<Rightarrow> checkpoint_shadow) option"
  retired_num_calls :: uint64
  retired_thread_count :: uint64
  retired_total_time :: rat
  retired_exclusive_time :: rat
  retired_max_total_time :: rat
  retired_min_total_time :: rat
  retired_max_time :: rat
  retired_min_time :: rat

text \<open>\<open>released\<close> lists the calls of \<^verbatim>\<open>gum_interceptor_peak_release_fast_invocation\<close>, \<open>controller_wakes\<close> counts the
  wake-ups of the controller.\<close>

record callback_world =
  listeners :: "nat \<Rightarrow> general_listener"
  thread :: thread_state
  dropped_calls :: uint64
  dropped_threads :: uint64
  controller_wakes :: nat
  released :: "(nat \<times> nat) list"

definition on_listener :: "nat \<Rightarrow> (general_listener \<Rightarrow> general_listener) \<Rightarrow> callback_world \<Rightarrow> callback_world" where
  "on_listener l f w = w\<lparr>listeners := (listeners w)(l := f (listeners w l))\<rparr>"

definition on_thread :: "(thread_state \<Rightarrow> thread_state) \<Rightarrow> callback_world \<Rightarrow> callback_world" where
  "on_thread f w = w\<lparr>thread := f (thread w)\<rparr>"

abbreviation level :: "callback_world \<Rightarrow> nat" where
  "level w \<equiv> length (stack (thread w))"

subsection \<open>Frames that a listener has to wait for\<close>

definition G_MAXUINT :: uint32 where
  "G_MAXUINT = - 1"

definition fast_active_add :: "nat \<Rightarrow> general_listener \<Rightarrow> general_listener option" where
  "fast_active_add i l =
     (if fast_active l i = G_MAXUINT then None
      else Some (l\<lparr>fast_active := (fast_active l)(i := fast_active l i + 1)\<rparr>))"

definition fast_active_remove :: "nat \<Rightarrow> general_listener \<Rightarrow> general_listener" where
  "fast_active_remove i l =
     (if fast_active l i > 0 then l\<lparr>fast_active := (fast_active l)(i := fast_active l i - 1)\<rparr> else l)"

text \<open>A closing listener is waited for until Gum has taken over the frames; the frame is then released to Gum.\<close>

definition fast_abandon_remove :: "nat \<Rightarrow> general_listener \<Rightarrow> bool \<times> general_listener" where
  "fast_abandon_remove i l = (fast_lifetime_closing l, fast_active_remove i l)"

definition abandon_entry :: "invocation_entry \<Rightarrow> callback_world \<Rightarrow> callback_world" where
  "abandon_entry entry w =
     (if \<not> fast_dispatch entry then w
      else case fast_abandon_remove (self_mapped_id (thread w)) (listeners w (listener entry)) of
        (release_required, l) \<Rightarrow>
          let w1 = w\<lparr>listeners := (listeners w)(listener entry := l)\<rparr> in
          if release_required then w1\<lparr>released := released w1 @ [(function_context entry, listener entry)]\<rparr> else w1)"

text \<open>\<^verbatim>\<open>thread_data.level--\<close> followed by the abandonment of the entry.\<close>

definition abandon_top :: "callback_world \<Rightarrow> callback_world" where
  "abandon_top w =
     (case stack (thread w) of
        [] \<Rightarrow> w
      | entry # rest \<Rightarrow> abandon_entry entry (on_thread (\<lambda>t. t\<lparr>stack := rest\<rparr>) w))"

lemma thread_abandon_entry [simp]: "thread (abandon_entry e w) = thread w"
  by (simp add: abandon_entry_def fast_abandon_remove_def Let_def)

lemma stack_abandon_top [simp]: "stack (thread (abandon_top w)) = tl (stack (thread w))"
  by (simp add: abandon_top_def on_thread_def split: list.splits)

text \<open>The loops that abandon entries from the top while a condition on the top entry holds.\<close>

function abandon_while :: "(invocation_entry \<Rightarrow> bool) \<Rightarrow> callback_world \<Rightarrow> callback_world" where
  "abandon_while P w =
     (case stack (thread w) of
        [] \<Rightarrow> w
      | entry # rest \<Rightarrow> if P entry then abandon_while P (abandon_top w) else w)"
  by pat_completeness auto

termination
  by (relation "measure (\<lambda>(P, w). level w)") auto

declare abandon_while.simps [simp del]

definition abandon_levels :: "nat \<Rightarrow> callback_world \<Rightarrow> callback_world" where
  "abandon_levels n w = (abandon_top ^^ n) w"

definition thread_state_release_frames :: "callback_world \<Rightarrow> callback_world" where
  "thread_state_release_frames w =
     on_thread (\<lambda>t. t\<lparr>stack := [], capacity := INLINE_ENTRIES, in_callback := False\<rparr>) (abandon_levels (level w) w)"

definition thread_state_destroy :: "callback_world \<Rightarrow> callback_world" where
  "thread_state_destroy w =
     on_thread (\<lambda>t. t\<lparr>self_mapped_valid := False, initialized := False, dropped_thread_noted := False\<rparr>)
       (thread_state_release_frames w)"

definition release_current_thread_state :: "callback_world \<Rightarrow> callback_world" where
  "release_current_thread_state w = (if initialized (thread w) then thread_state_destroy w else w)"

definition release_current_thread_frames_preserve_slot :: "callback_world \<Rightarrow> callback_world" where
  "release_current_thread_frames_preserve_slot w = (if initialized (thread w) then thread_state_release_frames w else w)"

definition thread_state_initialize :: "gum_env \<Rightarrow> callback_world \<Rightarrow> callback_world" where
  "thread_state_initialize env w =
     (if initialized (thread w) then w
      else
        let (mapped_tid, mapped_found) =
          (case current_thread_slot env of
             None \<Rightarrow> (2 ^ 64 - 1, False)
           | Some i \<Rightarrow> if i \<ge> peak_max_num_threads env then (2 ^ 64 - 1, False) else (i, True))
        in on_thread
          (\<lambda>t. t\<lparr>stack := [], capacity := INLINE_ENTRIES, self_mapped_id := mapped_tid, self_mapped_valid := mapped_found,
                  initialized := True, dropped_thread_noted := False\<rparr>) w)"

definition note_dropped_current_thread :: "callback_world \<Rightarrow> callback_world" where
  "note_dropped_current_thread w =
     (let w1 = w\<lparr>dropped_calls := dropped_calls w + 1\<rparr> in
      if dropped_thread_noted (thread w1) then w1
      else on_thread (\<lambda>t. t\<lparr>dropped_thread_noted := True\<rparr>) (w1\<lparr>dropped_threads := dropped_threads w1 + 1\<rparr>))"

definition grow_invocation_stack :: "thread_state \<Rightarrow> thread_state" where
  "grow_invocation_stack t = (if length (stack t) = capacity t then t\<lparr>capacity := capacity t * 2\<rparr> else t)"

text \<open>The new entry with its fields as the caller fills them in.\<close>

definition push_invocation :: "invocation_entry \<Rightarrow> callback_world \<Rightarrow> callback_world" where
  "push_invocation entry w =
     on_thread (\<lambda>t. let t1 = grow_invocation_stack t in t1\<lparr>stack := entry # stack t1\<rparr>) w"

subsection \<open>Counting calls\<close>

definition num_calls_increment :: "nat \<Rightarrow> general_listener \<Rightarrow> uint64 \<times> general_listener" where
  "num_calls_increment i l = (num_calls l i + 1, l\<lparr>num_calls := (num_calls l)(i := num_calls l i + 1)\<rparr>)"

text \<open>The control word afterwards, and whether the controller has to be woken.\<close>

definition try_publish_detach_count_request :: "gum_env \<Rightarrow> uint64 \<Rightarrow> uint64 \<Rightarrow> bool \<times> uint64" where
  "try_publish_detach_count_request env current_num_calls cell =
     (if current_num_calls \<noteq> peak_detach_count env then (False, cell)
      else
        let control = cell; cell1 = others env cell in
        if callback_hook_state control = state_code PEAK_HOOK_ATTACHED
        then try_publish_detach_count_request_snapshot cell1 control
        else if callback_hook_state control \<noteq> state_code PEAK_HOOK_UNRESOLVED then (False, cell1)
        else case try_publish_initial_detach_count_crossing_snapshot cell1 control of
          (True, cell2, _) \<Rightarrow> (False, cell2)
        | (False, cell2, control2) \<Rightarrow>
            if \<not> first_attached_generation_is_adjacent control control2 then (False, cell2)
            else try_publish_detach_count_request_snapshot (others env cell2) control2)"

definition count_call :: "gum_env \<Rightarrow> nat \<Rightarrow> callback_world \<Rightarrow> callback_world" where
  "count_call env l w =
     (case num_calls_increment (self_mapped_id (thread w)) (listeners w l) of
        (n, lis) \<Rightarrow>
          (case try_publish_detach_count_request env n (callback_hook_control lis) of
             (wake, cell) \<Rightarrow>
               w\<lparr>listeners := (listeners w)(l := lis\<lparr>callback_hook_control := cell\<rparr>),
                 controller_wakes := controller_wakes w + (if wake then 1 else 0)\<rparr>))"

subsection \<open>Accounting a completed call\<close>

definition exclusive_duration :: "rat \<Rightarrow> rat \<Rightarrow> rat" where
  "exclusive_duration total_duration child_duration =
     (if child_duration \<ge> total_duration then 0 else total_duration - child_duration)"

text \<open>\<open>met\<close> is what the exchange meets: the sequence after what others did to it.\<close>

definition shadow_account :: "rat \<Rightarrow> rat \<Rightarrow> uint64 \<Rightarrow> checkpoint_shadow \<Rightarrow> checkpoint_shadow" where
  "shadow_account duration exclusive observed sh =
     (let n = completed_calls sh + 1 in
      sh\<lparr>completed_calls := n, shadow_total_time := shadow_total_time sh + duration,
         shadow_exclusive_time := shadow_exclusive_time sh + exclusive,
         shadow_max_time := (if n = 1 \<or> duration > shadow_max_time sh then duration else shadow_max_time sh),
         shadow_min_time := (if n = 1 \<or> duration < shadow_min_time sh then duration else shadow_min_time sh),
         sequence := observed + 2\<rparr>)"

fun shadow_attempts :: "(uint64 \<Rightarrow> uint64) \<Rightarrow> nat \<Rightarrow> uint64 \<Rightarrow> rat \<Rightarrow> rat \<Rightarrow> checkpoint_shadow \<Rightarrow> checkpoint_shadow" where
  "shadow_attempts met 0 observed duration exclusive sh = sh\<lparr>invalid := True\<rparr>"
| "shadow_attempts met (Suc n) observed duration exclusive sh =
     (if invalid sh then sh
      else if bit observed 0 then sh\<lparr>invalid := True\<rparr>
      else
        let now = met (sequence sh) in
        if now = observed then shadow_account duration exclusive observed sh
        else if bit now 0 then sh\<lparr>sequence := now, invalid := True\<rparr>
        else shadow_attempts met n now duration exclusive (sh\<lparr>sequence := now\<rparr>))"

definition checkpoint_shadow_update ::
  "(uint64 \<Rightarrow> uint64) \<Rightarrow> rat \<Rightarrow> rat \<Rightarrow> checkpoint_shadow \<Rightarrow> checkpoint_shadow" where
  "checkpoint_shadow_update met duration exclusive sh =
     (if invalid sh then sh else shadow_attempts met 2 (sequence sh) duration exclusive sh)"

definition account_call :: "nat \<Rightarrow> rat \<Rightarrow> rat \<Rightarrow> general_listener \<Rightarrow> general_listener" where
  "account_call i duration exclusive l =
     l\<lparr>max_time := (max_time l)(i := if duration > max_time l i then duration else max_time l i),
       min_time := (min_time l)(i := if duration < min_time l i \<or> num_calls l i = 1 then duration else min_time l i),
       total_time := (total_time l)(i := total_time l i + duration),
       exclusive_time := (exclusive_time l)(i := exclusive_time l i + exclusive),
       shadow_array := (case shadow_array l of
                          None \<Rightarrow> None
                        | Some sh \<Rightarrow> Some (sh(i := checkpoint_shadow_update id duration exclusive (sh i))))\<rparr>"

definition add_child_time :: "rat \<Rightarrow> thread_state \<Rightarrow> thread_state" where
  "add_child_time duration t =
     (case stack t of
        [] \<Rightarrow> t
      | entry # rest \<Rightarrow> t\<lparr>stack := entry\<lparr>child_time := child_time entry + duration\<rparr> # rest\<rparr>)"

subsection \<open>The generic callbacks\<close>

text \<open>The result is the data of the invocation afterwards and the duration of its children.\<close>

definition pop_invocation :: "invocation_data \<Rightarrow> callback_world \<Rightarrow> rat option \<times> invocation_data \<times> callback_world" where
  "pop_invocation priv w =
     (let priv' = priv\<lparr>data_initialized := False, stack_level := 0\<rparr> in
      if \<not> data_initialized priv \<or> level w = 0 \<or> stack_level priv = 0 \<or> level w < stack_level priv
      then (None, priv', w)
      else
        let w1 = abandon_levels (level w - stack_level priv) w in
        (Some (child_time (hd (stack (thread w1)))), priv', abandon_top w1))"

definition abandon_current_invocation :: "invocation_data \<Rightarrow> callback_world \<Rightarrow> invocation_data \<times> callback_world" where
  "abandon_current_invocation priv w =
     (if \<not> data_initialized priv then (priv, w) else case pop_invocation priv w of (_, priv', w') \<Rightarrow> (priv', w'))"

definition set_in_callback :: "bool \<Rightarrow> callback_world \<Rightarrow> callback_world" where
  "set_in_callback b = on_thread (\<lambda>t. t\<lparr>in_callback := b\<rparr>)"

definition on_enter ::
  "gum_env \<Rightarrow> nat option \<Rightarrow> nat \<Rightarrow> nat \<Rightarrow> nat \<Rightarrow> rat \<Rightarrow> invocation_data \<Rightarrow> callback_world \<Rightarrow> invocation_data \<times> callback_world" where
  "on_enter env lis function sp gum_depth now priv w =
     (case lis of
        None \<Rightarrow> (priv, w)
      | Some l \<Rightarrow>
          let priv1 = priv\<lparr>data_initialized := False, stack_level := 0\<rparr> in
          if in_callback (thread w) \<or> thread_excluded env then (priv1, w)
          else if callbacks_suspended env then (priv1, set_in_callback False w)
          else
            let w1 = thread_state_initialize env (set_in_callback True w) in
            if \<not> self_mapped_valid (thread w1)
            then (priv1, set_in_callback False (note_dropped_current_thread w1))
            else
              let entry = \<lparr>listener = l, function_context = function, caller_return_address = 0, stack_address = sp,
                           gum_stack_depth = gum_depth, start_ns = 0, child_time = 0, fast_dispatch = False\<rparr>;
                  w2 = push_invocation entry w1;
                  w3 = count_call env l w2
              in (\<lparr>start_time = now, stack_level = level w2, data_initialized = True\<rparr>, set_in_callback False w3))"

definition on_leave ::
  "gum_env \<Rightarrow> nat option \<Rightarrow> rat \<Rightarrow> invocation_data \<Rightarrow> callback_world \<Rightarrow> invocation_data \<times> callback_world" where
  "on_leave env lis now priv w =
     (if \<not> data_initialized priv \<or> in_callback (thread w) then (priv, w)
      else
        let w1 = set_in_callback True w in
        case lis of
          None \<Rightarrow>
            (priv\<lparr>data_initialized := False, stack_level := 0\<rparr>,
             set_in_callback False (if initialized (thread w1) then abandon_top w1 else w1))
        | Some l \<Rightarrow>
            if callbacks_suspended env then
              (case abandon_current_invocation priv w1 of (priv', w2) \<Rightarrow> (priv', set_in_callback False w2))
            else
              let duration = now - start_time priv in
              (case pop_invocation priv w1 of
                 (None, priv', w2) \<Rightarrow> (priv', set_in_callback False w2)
               | (Some child_duration, priv', w2) \<Rightarrow>
                   (priv',
                    set_in_callback False
                      (on_thread (add_child_time duration)
                        (on_listener l
                          (account_call (self_mapped_id (thread w2)) duration (exclusive_duration duration child_duration)) w2)))))"

subsection \<open>The direct callbacks\<close>

definition fast_reap_unwound :: "gum_env \<Rightarrow> nat \<Rightarrow> callback_world \<Rightarrow> callback_world" where
  "fast_reap_unwound env sp =
     abandon_while (\<lambda>e.
       if fast_dispatch e then
         \<not> (stack_address e = 0 \<or> stack_address e > sp \<or>
            (stack_address e = sp \<and> unwind_frame_is_live env (function_context e) (stack_address e)))
       else \<not> stack_entry_matches env (gum_stack_depth e) (function_context e) (stack_address e))"

definition reap_known_unwound :: "gum_env \<Rightarrow> callback_world \<Rightarrow> callback_world" where
  "reap_known_unwound env =
     abandon_while (\<lambda>e.
       if fast_dispatch e then
         \<not> (stack_address e = 0 \<or> unwind_frame_is_live env (function_context e) (stack_address e))
       else \<not> stack_entry_matches env (gum_stack_depth e) (function_context e) (stack_address e))"

datatype fast_enter_result = ENTER_SKIP | ENTER_FALLBACK | ENTER_INVOKE

definition fast_on_enter ::
  "gum_env \<Rightarrow> nat \<Rightarrow> nat \<Rightarrow> nat \<Rightarrow> nat \<Rightarrow> nat \<Rightarrow> uint64 \<Rightarrow> callback_world \<Rightarrow> fast_enter_result \<times> callback_world" where
  "fast_on_enter env l function sp ret gum_depth now_ns w =
     (if in_callback (thread w) \<or> thread_excluded env \<or> fast_ignore_level (thread w) \<noteq> 0 \<or> callbacks_suspended env
      then (ENTER_SKIP, w)
      else if \<not> initialized (thread w) then (ENTER_FALLBACK, w)
      else if \<not> self_mapped_valid (thread w) then (ENTER_SKIP, note_dropped_current_thread w)
      else
        let w1 = set_in_callback True w in
        case fast_active_add (self_mapped_id (thread w1)) (listeners w1 l) of
          None \<Rightarrow> (ENTER_FALLBACK, set_in_callback False w1)
        | Some lis \<Rightarrow>
            let w2 = fast_reap_unwound env sp (w1\<lparr>listeners := (listeners w1)(l := lis)\<rparr>);
                entry = \<lparr>listener = l, function_context = function, caller_return_address = ret, stack_address = sp,
                         gum_stack_depth = gum_depth, start_ns = now_ns, child_time = 0, fast_dispatch = True\<rparr>
            in (ENTER_INVOKE, set_in_callback False (count_call env l (push_invocation entry w2))))"

text \<open>The first translation of a return address that an entry of the stack knows.\<close>

definition fast_translate_return_address :: "(nat \<Rightarrow> nat \<Rightarrow> nat \<Rightarrow> nat) \<Rightarrow> nat \<Rightarrow> callback_world \<Rightarrow> nat" where
  "fast_translate_return_address translate code_address w =
     (case List.find (\<lambda>e. fast_dispatch e \<and> translate (function_context e) (caller_return_address e) code_address \<noteq> 0)
             (stack (thread w)) of
        None \<Rightarrow> 0
      | Some e \<Rightarrow> translate (function_context e) (caller_return_address e) code_address)"

definition duration_seconds :: "uint64 \<Rightarrow> uint64 \<Rightarrow> rat" where
  "duration_seconds start_word end_word = of_nat (unat (end_word - start_word)) / 10 ^ 9"

definition other_frame :: "nat \<Rightarrow> nat \<Rightarrow> nat \<Rightarrow> invocation_entry \<Rightarrow> bool" where
  "other_frame l function sp e \<longleftrightarrow> listener e \<noteq> l \<or> function_context e \<noteq> function \<or> stack_address e \<noteq> sp"

text \<open>The result is whether the frame has to be released, with the stack depth and the return address.\<close>

definition fast_on_leave ::
  "gum_env \<Rightarrow> nat \<Rightarrow> nat \<Rightarrow> nat \<Rightarrow> uint64 \<Rightarrow> callback_world \<Rightarrow> (bool \<times> nat \<times> nat) \<times> callback_world" where
  "fast_on_leave env l function sp now_ns w =
     (if in_callback (thread w) \<or> \<not> initialized (thread w) then ((False, 0, 0), w)
      else
        let w1 = abandon_while (other_frame l function sp) (set_in_callback True w)
        in case stack (thread w1) of
          [] \<Rightarrow> ((False, 0, 0), set_in_callback False w1)
        | entry # rest \<Rightarrow>
            let w2 = on_thread (\<lambda>t. t\<lparr>stack := rest\<rparr>) w1;
                i = self_mapped_id (thread w2);
                duration = duration_seconds (start_ns entry) now_ns;
                w3 = (if callbacks_suspended env then w2
                      else on_thread (add_child_time duration)
                             (on_listener l (account_call i duration (exclusive_duration duration (child_time entry))) w2));
                w4 = on_listener l (fast_active_remove i) w3
            in ((fast_lifetime_closing (listeners w4 l), gum_stack_depth entry, caller_return_address entry),
                set_in_callback False w4))"

definition fast_is_direct_leave :: "nat \<Rightarrow> nat \<Rightarrow> nat \<Rightarrow> callback_world \<Rightarrow> bool" where
  "fast_is_direct_leave l function sp w \<longleftrightarrow>
     initialized (thread w) \<and>
     list_ex (\<lambda>e. listener e = l \<and> fast_dispatch e \<and> function_context e = function \<and> stack_address e = sp) (stack (thread w))"

definition fast_active_count :: "general_listener \<Rightarrow> uint32" where
  "fast_active_count l =
     (let total = (\<Sum>i\<leftarrow>[0..<fast_stats_capacity l]. unat (fast_active l i)) in
      if total \<le> unat G_MAXUINT then word_of_nat total else G_MAXUINT)"

definition fast_active_reset :: "general_listener \<Rightarrow> general_listener" where
  "fast_active_reset l =
     l\<lparr>fast_active := (\<lambda>i. if i < fast_stats_capacity l then 0 else fast_active l i), fast_lifetime_closing := False\<rparr>"

definition fast_ignore_current_thread :: "callback_world \<Rightarrow> callback_world" where
  "fast_ignore_current_thread = on_thread (\<lambda>t. t\<lparr>fast_ignore_level := fast_ignore_level t + 1\<rparr>)"

definition fast_unignore_current_thread :: "callback_world \<Rightarrow> callback_world" where
  "fast_unignore_current_thread =
     on_thread (\<lambda>t. if fast_ignore_level t > 0 then t\<lparr>fast_ignore_level := fast_ignore_level t - 1\<rparr> else t)"

subsection \<open>Retiring the slot of a thread\<close>

definition retire_shadow :: "checkpoint_shadow \<Rightarrow> bool \<times> checkpoint_shadow" where
  "retire_shadow sh =
     (if \<not> bit (sequence sh) 0
      then (True, sh\<lparr>completed_calls := 0, shadow_total_time := 0, shadow_exclusive_time := 0, shadow_max_time := 0,
                     shadow_min_time := 0, invalid := False, sequence := sequence sh + 2\<rparr>)
      else (False, sh))"

definition retire_counts :: "nat \<Rightarrow> general_listener \<Rightarrow> general_listener" where
  "retire_counts i l =
     (if num_calls l i = 0 then l
      else
        let n = (if retired_thread_count l \<noteq> - 1 then retired_thread_count l + 1 else retired_thread_count l) in
        l\<lparr>retired_num_calls := retired_num_calls l + num_calls l i, retired_thread_count := n,
          retired_total_time := retired_total_time l + total_time l i,
          retired_exclusive_time := retired_exclusive_time l + exclusive_time l i,
          retired_max_total_time := (if total_time l i > retired_max_total_time l then total_time l i else retired_max_total_time l),
          retired_min_total_time :=
            (if total_time l i < retired_min_total_time l \<or> n = 1 then total_time l i else retired_min_total_time l),
          retired_max_time := (if max_time l i > retired_max_time l then max_time l i else retired_max_time l),
          retired_min_time := (if min_time l i < retired_min_time l \<or> n = 1 then min_time l i else retired_min_time l)\<rparr>)"

definition retire_listener_slot :: "nat \<Rightarrow> general_listener \<Rightarrow> bool \<times> general_listener" where
  "retire_listener_slot i l =
     (if i \<ge> fast_stats_capacity l then (True, l)
      else
        let l1 = retire_counts i l;
            l2 = l1\<lparr>num_calls := (num_calls l1)(i := 0), total_time := (total_time l1)(i := 0),
                     exclusive_time := (exclusive_time l1)(i := 0), max_time := (max_time l1)(i := 0),
                     min_time := (min_time l1)(i := 0)\<rparr>
        in case shadow_array l2 of
             None \<Rightarrow> (True, l2)
           | Some sh \<Rightarrow> (case retire_shadow (sh i) of (safe, s) \<Rightarrow> (safe, l2\<lparr>shadow_array := Some (sh(i := s))\<rparr>)))"

text \<open>Over the listeners of the hooks that have one.\<close>

fun retire_current_thread_slot :: "nat \<Rightarrow> nat list \<Rightarrow> callback_world \<Rightarrow> bool \<times> callback_world" where
  "retire_current_thread_slot i [] w = (True, w)"
| "retire_current_thread_slot i (l # ls) w =
     (case retire_listener_slot i (listeners w l) of
        (safe, lis) \<Rightarrow>
          (case retire_current_thread_slot i ls (w\<lparr>listeners := (listeners w)(l := lis)\<rparr>) of
             (rest, w') \<Rightarrow> (safe \<and> rest, w')))"

definition total_calls :: "general_listener \<Rightarrow> uint64" where
  "total_calls l = retired_num_calls l + (\<Sum>i\<leftarrow>[0..<fast_stats_capacity l]. num_calls l i)"

end
