(* ===== verification/Listener_Profile.thy ===== *)
theory Listener_Profile
  imports Listener_Callbacks
begin

text \<open>
  What the callbacks of \<^verbatim>\<open>src/general_listener.c\<close> make of a tree of calls: every call, whether it is dispatched
  directly or through Gum's generic listener, is counted once, its duration goes to the total and the maximum,
  and the durations of the calls directly below it are taken off its exclusive time. A tree is run by the
  callbacks of the model; its specification is the list of the calls in the order in which they return.
\<close>

record call_site =
  site_listener :: nat
  site_function :: nat
  site_stack :: nat
  site_return :: nat
  site_depth :: nat
  site_direct :: bool
  began_ns :: nat
  ended_ns :: nat

datatype call = Call call_site "call list"

primrec site :: "call \<Rightarrow> call_site" where
  "site (Call s cs) = s"

definition seconds :: "nat \<Rightarrow> rat" where
  "seconds ns = of_nat ns / 10 ^ 9"

definition site_duration :: "call_site \<Rightarrow> rat" where
  "site_duration s = seconds (ended_ns s) - seconds (began_ns s)"

definition blank_data :: invocation_data where
  "blank_data = \<lparr>start_time = 0, stack_level = 0, data_initialized = False\<rparr>"

subsection \<open>Running a tree\<close>

text \<open>Gum asks the direct callback first and takes the generic listener when that falls back; on the way out it
  takes the direct leave when the stack has the frame.\<close>

definition enter_generic :: "gum_env \<Rightarrow> call_site \<Rightarrow> callback_world \<Rightarrow> invocation_data \<times> callback_world" where
  "enter_generic env s w =
     on_enter env (Some (site_listener s)) (site_function s) (site_stack s) (site_depth s) (seconds (began_ns s)) blank_data w"

definition leave_generic :: "gum_env \<Rightarrow> call_site \<Rightarrow> invocation_data \<Rightarrow> callback_world \<Rightarrow> callback_world" where
  "leave_generic env s priv w = snd (on_leave env (Some (site_listener s)) (seconds (ended_ns s)) priv w)"

definition enter_direct :: "gum_env \<Rightarrow> call_site \<Rightarrow> callback_world \<Rightarrow> fast_enter_result \<times> callback_world" where
  "enter_direct env s w =
     fast_on_enter env (site_listener s) (site_function s) (site_stack s) (site_return s) (site_depth s)
       (word_of_nat (began_ns s)) w"

definition leave_direct :: "gum_env \<Rightarrow> call_site \<Rightarrow> callback_world \<Rightarrow> callback_world" where
  "leave_direct env s w =
     (if fast_is_direct_leave (site_listener s) (site_function s) (site_stack s) w
      then snd (fast_on_leave env (site_listener s) (site_function s) (site_stack s) (word_of_nat (ended_ns s)) w)
      else w)"

fun run_call :: "gum_env \<Rightarrow> call \<Rightarrow> callback_world \<Rightarrow> callback_world"
  and run_calls :: "gum_env \<Rightarrow> call list \<Rightarrow> callback_world \<Rightarrow> callback_world" where
  "run_call env (Call s cs) w =
     (let (r, w1) = (if site_direct s then enter_direct env s w else (ENTER_FALLBACK, w)) in
      case r of
        ENTER_INVOKE \<Rightarrow> leave_direct env s (run_calls env cs w1)
      | ENTER_SKIP \<Rightarrow> run_calls env cs w1
      | ENTER_FALLBACK \<Rightarrow>
          (case enter_generic env s w1 of (priv, w2) \<Rightarrow> leave_generic env s priv (run_calls env cs w2)))"
| "run_calls env [] w = w"
| "run_calls env (c # cs) w = run_calls env cs (run_call env c w)"

subsection \<open>The specification\<close>

definition children_time :: "call list \<Rightarrow> rat" where
  "children_time cs = sum_list (map (site_duration \<circ> site) cs)"

text \<open>The completed calls: listener, duration, and duration without the calls directly below.\<close>

fun completions :: "call \<Rightarrow> (nat \<times> rat \<times> rat) list"
  and completions_of :: "call list \<Rightarrow> (nat \<times> rat \<times> rat) list" where
  "completions (Call s cs) =
     completions_of cs @ [(site_listener s, site_duration s, exclusive_duration (site_duration s) (children_time cs))]"
| "completions_of [] = []"
| "completions_of (c # cs) = completions c @ completions_of cs"

definition of_listener :: "nat \<Rightarrow> (nat \<times> rat \<times> rat) list \<Rightarrow> (rat \<times> rat) list" where
  "of_listener l cs = map snd (filter (\<lambda>c. fst c = l) cs)"

definition accounted :: "nat \<Rightarrow> (rat \<times> rat) list \<Rightarrow> general_listener \<Rightarrow> general_listener \<Rightarrow> bool" where
  "accounted i cs l l' \<longleftrightarrow>
     num_calls l' i = num_calls l i + of_nat (length cs) \<and>
     total_time l' i = total_time l i + sum_list (map fst cs) \<and>
     exclusive_time l' i = exclusive_time l i + sum_list (map snd cs) \<and>
     max_time l' i = foldl max (max_time l i) (map fst cs) \<and>
     fast_active l' i = fast_active l i \<and>
     (\<forall>j. j \<noteq> i \<longrightarrow> num_calls l' j = num_calls l j \<and> total_time l' j = total_time l j \<and>
       exclusive_time l' j = exclusive_time l j \<and> max_time l' j = max_time l j \<and> fast_active l' j = fast_active l j)"

text \<open>Stack addresses fall with the depth, the clock does not run backwards nor over a whole 64-bit turn within
  one call, and Gum finds the frames that are live.\<close>

fun regular :: "gum_env \<Rightarrow> nat \<Rightarrow> call \<Rightarrow> bool" where
  "regular env bound (Call s cs) \<longleftrightarrow>
     site_stack s < bound \<and> began_ns s \<le> ended_ns s \<and> ended_ns s - began_ns s < 2 ^ 64 \<and>
     stack_entry_matches env (site_depth s) (site_function s) (site_stack s) \<and>
     list_all (regular env (site_stack s)) cs"

definition observing :: "gum_env \<Rightarrow> nat \<Rightarrow> callback_world \<Rightarrow> bool" where
  "observing env i w \<longleftrightarrow>
     \<not> thread_excluded env \<and> \<not> callbacks_suspended env \<and> initialized (thread w) \<and> self_mapped_valid (thread w) \<and>
     self_mapped_id (thread w) = i \<and> \<not> in_callback (thread w) \<and> fast_ignore_level (thread w) = 0"

definition live_entry :: "gum_env \<Rightarrow> nat \<Rightarrow> invocation_entry \<Rightarrow> bool" where
  "live_entry env bound e \<longleftrightarrow>
     (if fast_dispatch e then bound \<le> stack_address e
      else stack_entry_matches env (gum_stack_depth e) (function_context e) (stack_address e))"

definition live_stack :: "gum_env \<Rightarrow> nat \<Rightarrow> invocation_entry list \<Rightarrow> bool" where
  "live_stack env bound es \<longleftrightarrow> (case es of [] \<Rightarrow> True | e # rest \<Rightarrow> live_entry env bound e)"

definition add_time :: "rat \<Rightarrow> invocation_entry list \<Rightarrow> invocation_entry list" where
  "add_time d es = (case es of [] \<Rightarrow> [] | e # rest \<Rightarrow> e\<lparr>child_time := child_time e + d\<rparr> # rest)"

lemma add_time_Nil [simp]: "add_time d [] = []"
  by (simp add: add_time_def)

lemma add_time_Cons [simp]: "add_time d (e # rest) = e\<lparr>child_time := child_time e + d\<rparr> # rest"
  by (simp add: add_time_def)

lemma add_time_add: "add_time a (add_time b es) = add_time (b + a) es"
  by (cases es) (simp_all add: add.assoc)

lemma add_time_0 [simp]: "add_time 0 es = es"
  by (cases es) simp_all

lemma live_stack_add_time [simp]: "live_stack env b (add_time d es) = live_stack env b es"
  by (cases es) (simp_all add: live_stack_def live_entry_def)

lemma live_stack_antimono: "live_stack env b es \<Longrightarrow> b' \<le> b \<Longrightarrow> live_stack env b' es"
  by (cases es) (auto simp: live_stack_def live_entry_def)

subsection \<open>Accounting composes\<close>

lemma accounted_Nil [simp]: "accounted i [] l l"
  by (simp add: accounted_def)

lemma accounted_append:
  assumes "accounted i as l1 l2" and "accounted i bs l2 l3"
  shows "accounted i (as @ bs) l1 l3"
  using assms by (simp add: accounted_def)

lemma of_listener_append [simp]: "of_listener l (as @ bs) = of_listener l as @ of_listener l bs"
  by (simp add: of_listener_def)

lemma of_listener_Nil [simp]: "of_listener l [] = []"
  by (simp add: of_listener_def)

lemma of_listener_single [simp]: "of_listener l [(k, d, x)] = (if k = l then [(d, x)] else [])"
  by (simp add: of_listener_def)

lemma children_time_simps [simp]:
  "children_time [] = 0"
  "children_time (c # cs) = site_duration (site c) + children_time cs"
  by (simp_all add: children_time_def)

text \<open>The call itself, from its entry to its return: counted at the entry, accounted at the return.\<close>

definition counted :: "nat \<Rightarrow> general_listener \<Rightarrow> general_listener \<Rightarrow> bool" where
  "counted i l l' \<longleftrightarrow>
     num_calls l' = (num_calls l)(i := num_calls l i + 1) \<and> total_time l' = total_time l \<and>
     exclusive_time l' = exclusive_time l \<and> max_time l' = max_time l"

lemma accounted_call:
  assumes "counted i l l1" and "accounted i cs l1 l2"
    and "fast_active l3 i = fast_active l i" and "\<And>j. j \<noteq> i \<Longrightarrow> fast_active l3 j = fast_active l1 j"
    and "\<And>j. j \<noteq> i \<Longrightarrow> fast_active l1 j = fast_active l j"
    and "num_calls l3 = num_calls (account_call i d x l2)" and "total_time l3 = total_time (account_call i d x l2)"
    and "exclusive_time l3 = exclusive_time (account_call i d x l2)" and "max_time l3 = max_time (account_call i d x l2)"
  shows "accounted i (cs @ [(d, x)]) l l3"
  using assms by (auto simp: accounted_def counted_def account_call_def algebra_simps max_def)

subsection \<open>One call\<close>

lemma thread_count_call [simp]: "thread (count_call env l w) = thread w"
  by (simp add: count_call_def num_calls_increment_def split: prod.splits)

lemma listeners_count_call_other [simp]: "k \<noteq> l \<Longrightarrow> listeners (count_call env l w) k = listeners w k"
  by (simp add: count_call_def num_calls_increment_def split: prod.splits)

lemma counted_count_call:
  "counted (self_mapped_id (thread w)) (listeners w l) (listeners (count_call env l w) l)"
  by (simp add: count_call_def num_calls_increment_def counted_def split: prod.splits)

lemma fast_active_count_call [simp]: "fast_active (listeners (count_call env l w) l) = fast_active (listeners w l)"
  by (simp add: count_call_def num_calls_increment_def split: prod.splits)

lemma thread_set_in_callback [simp]: "thread (set_in_callback b w) = (thread w)\<lparr>in_callback := b\<rparr>"
  by (simp add: set_in_callback_def on_thread_def)

lemma listeners_set_in_callback [simp]: "listeners (set_in_callback b w) = listeners w"
  by (simp add: set_in_callback_def on_thread_def)

lemma thread_push_invocation:
  "thread (push_invocation e w) = (grow_invocation_stack (thread w))\<lparr>stack := e # stack (thread w)\<rparr>"
  by (simp add: push_invocation_def on_thread_def Let_def grow_invocation_stack_def)

lemma listeners_push_invocation [simp]: "listeners (push_invocation e w) = listeners w"
  by (simp add: push_invocation_def on_thread_def)

lemma grow_invocation_stack_fields [simp]:
  "stack (grow_invocation_stack t) = stack t" "self_mapped_id (grow_invocation_stack t) = self_mapped_id t"
  "self_mapped_valid (grow_invocation_stack t) = self_mapped_valid t" "initialized (grow_invocation_stack t) = initialized t"
  "in_callback (grow_invocation_stack t) = in_callback t" "fast_ignore_level (grow_invocation_stack t) = fast_ignore_level t"
  by (simp_all add: grow_invocation_stack_def)

definition generic_entry :: "call_site \<Rightarrow> invocation_entry" where
  "generic_entry s =
     \<lparr>listener = site_listener s, function_context = site_function s, caller_return_address = 0,
      stack_address = site_stack s, gum_stack_depth = site_depth s, start_ns = 0, child_time = 0, fast_dispatch = False\<rparr>"

definition direct_entry :: "call_site \<Rightarrow> invocation_entry" where
  "direct_entry s =
     \<lparr>listener = site_listener s, function_context = site_function s, caller_return_address = site_return s,
      stack_address = site_stack s, gum_stack_depth = site_depth s, start_ns = word_of_nat (began_ns s), child_time = 0,
      fast_dispatch = True\<rparr>"

lemma enter_generic_effect:
  assumes "observing env i w"
  obtains priv w' where
    "enter_generic env s w = (priv, w')" "priv = \<lparr>start_time = seconds (began_ns s), stack_level = Suc (level w), data_initialized = True\<rparr>"
    "observing env i w'" "stack (thread w') = generic_entry s # stack (thread w)"
    "counted i (listeners w (site_listener s)) (listeners w' (site_listener s))"
    "fast_active (listeners w' (site_listener s)) = fast_active (listeners w (site_listener s))"
    "\<And>k. k \<noteq> site_listener s \<Longrightarrow> listeners w' k = listeners w k"
proof -
  let ?w1 = "push_invocation (generic_entry s) (set_in_callback True w)"
  let ?w' = "set_in_callback False (count_call env (site_listener s) ?w1)"
  have "enter_generic env s w =
      (\<lparr>start_time = seconds (began_ns s), stack_level = Suc (level w), data_initialized = True\<rparr>, ?w')"
    using assms
    by (simp add: enter_generic_def on_enter_def observing_def thread_state_initialize_def Let_def generic_entry_def
        thread_push_invocation)
  moreover have "observing env i ?w'" "stack (thread ?w') = generic_entry s # stack (thread w)"
    using assms by (simp_all add: observing_def thread_push_invocation)
  moreover have "counted i (listeners w (site_listener s)) (listeners ?w' (site_listener s))"
    using counted_count_call [of ?w1 "site_listener s" env] assms by (simp add: observing_def thread_push_invocation)
  ultimately show thesis
    by (rule that [OF _ refl]) simp_all
qed

lemma fast_reap_unwound_live:
  assumes "live_stack env b (stack (thread w))" and "sp < b"
  shows "fast_reap_unwound env sp w = w"
  using assms
  by (cases "stack (thread w)") (auto simp: fast_reap_unwound_def abandon_while.simps live_stack_def live_entry_def)

lemma enter_direct_effect:
  assumes "observing env i w" and "live_stack env b (stack (thread w))" and "site_stack s < b"
  obtains (invoke) w' where
    "enter_direct env s w = (ENTER_INVOKE, w')"
    "observing env i w'" "stack (thread w') = direct_entry s # stack (thread w)"
    "counted i (listeners w (site_listener s)) (listeners w' (site_listener s))"
    "fast_active (listeners w (site_listener s)) i \<noteq> G_MAXUINT"
    "fast_active (listeners w' (site_listener s)) =
       (fast_active (listeners w (site_listener s)))(i := fast_active (listeners w (site_listener s)) i + 1)"
    "\<And>k. k \<noteq> site_listener s \<Longrightarrow> listeners w' k = listeners w k"
  | (fallback) "enter_direct env s w = (ENTER_FALLBACK, w)"
proof (cases "fast_active (listeners w (site_listener s)) i = G_MAXUINT")
  case True
  have "set_in_callback False (set_in_callback True w) = w"
    using assms(1) by (cases w) (auto simp: set_in_callback_def on_thread_def observing_def)
  then have "enter_direct env s w = (ENTER_FALLBACK, w)"
    using assms(1) True by (simp add: enter_direct_def fast_on_enter_def observing_def fast_active_add_def Let_def)
  then show thesis
    by (rule fallback)
next
  case False
  let ?l = "listeners w (site_listener s)"
  let ?lis = "?l\<lparr>fast_active := (fast_active ?l)(i := fast_active ?l i + 1)\<rparr>"
  let ?w0 = "(set_in_callback True w)\<lparr>listeners := (listeners w)(site_listener s := ?lis)\<rparr>"
  let ?w1 = "push_invocation (direct_entry s) ?w0"
  let ?w' = "set_in_callback False (count_call env (site_listener s) ?w1)"
  have reap: "fast_reap_unwound env (site_stack s) ?w0 = ?w0"
    using assms(2,3) by (intro fast_reap_unwound_live) simp_all
  have 1: "enter_direct env s w = (ENTER_INVOKE, ?w')"
    using assms(1) False reap
    by (simp add: enter_direct_def fast_on_enter_def observing_def Let_def direct_entry_def fast_active_add_def)
  have 2: "observing env i ?w'" "stack (thread ?w') = direct_entry s # stack (thread w)"
    using assms(1) by (simp_all add: observing_def thread_push_invocation)
  have "counted i ?lis (listeners ?w' (site_listener s))"
    using counted_count_call [of ?w1 "site_listener s" env] assms(1) by (simp add: observing_def thread_push_invocation)
  then have 3: "counted i ?l (listeners ?w' (site_listener s))"
    by (simp add: counted_def)
  show thesis
    by (rule invoke [OF 1 2 3 False]) simp_all
qed

lemma thread_add_child_time: "add_child_time d t = t\<lparr>stack := add_time d (stack t)\<rparr>"
  by (cases "stack t") (simp_all add: add_child_time_def)

lemma leave_generic_effect:
  assumes w: "observing env i w" and stack: "stack (thread w) = e # rest" and generic: "\<not> fast_dispatch e"
    and priv: "priv = \<lparr>start_time = seconds (began_ns s), stack_level = Suc (length rest), data_initialized = True\<rparr>"
  defines "w' \<equiv> leave_generic env s priv w"
  defines "x \<equiv> exclusive_duration (site_duration s) (child_time e)"
  shows "observing env i w'" and "stack (thread w') = add_time (site_duration s) rest"
    and "listeners w' (site_listener s) = account_call i (site_duration s) x (listeners w (site_listener s))"
    and "k \<noteq> site_listener s \<Longrightarrow> listeners w' k = listeners w k"
proof -
  let ?w1 = "set_in_callback True w"
  let ?w2 = "on_thread (\<lambda>t. t\<lparr>stack := rest\<rparr>) ?w1"
  have "abandon_top ?w1 = ?w2"
    using stack generic by (simp add: abandon_top_def abandon_entry_def)
  then have "pop_invocation priv ?w1 = (Some (child_time e), priv\<lparr>data_initialized := False, stack_level := 0\<rparr>, ?w2)"
    using stack by (simp add: pop_invocation_def Let_def abandon_levels_def priv)
  then have "w' = set_in_callback False
      (on_thread (add_child_time (site_duration s))
        (on_listener (site_listener s) (account_call i (site_duration s) x) ?w2))"
    using w by (simp add: w'_def x_def leave_generic_def on_leave_def observing_def priv Let_def site_duration_def on_thread_def)
  then show "observing env i w'" "stack (thread w') = add_time (site_duration s) rest"
    "listeners w' (site_listener s) = account_call i (site_duration s) x (listeners w (site_listener s))"
    "k \<noteq> site_listener s \<Longrightarrow> listeners w' k = listeners w k"
    using w by (simp_all add: observing_def on_thread_def on_listener_def thread_add_child_time)
qed

lemma duration_seconds_eq:
  assumes "a \<le> b" and "b - a < 2 ^ 64"
  shows "duration_seconds (word_of_nat a) (word_of_nat b) = seconds b - seconds a"
proof -
  have "unat (word_of_nat b - word_of_nat a :: uint64) = b - a"
    using assms by (simp flip: of_nat_diff add: unat_of_nat)
  then show ?thesis
    using assms(1) by (simp add: duration_seconds_def seconds_def of_nat_diff diff_divide_distrib)
qed

lemma leave_direct_effect:
  assumes w: "observing env i w" and stack: "stack (thread w) = e # rest"
    and e: "e = (direct_entry s)\<lparr>child_time := c\<rparr>"
    and clock: "began_ns s \<le> ended_ns s" "ended_ns s - began_ns s < 2 ^ 64"
  defines "w' \<equiv> leave_direct env s w"
  defines "x \<equiv> exclusive_duration (site_duration s) c"
  shows "observing env i w'" and "stack (thread w') = add_time (site_duration s) rest"
    and "listeners w' (site_listener s) =
           fast_active_remove i (account_call i (site_duration s) x (listeners w (site_listener s)))"
    and "k \<noteq> site_listener s \<Longrightarrow> listeners w' k = listeners w k"
proof -
  let ?w1 = "set_in_callback True w"
  let ?w2 = "on_thread (\<lambda>t. t\<lparr>stack := rest\<rparr>) ?w1"
  have stop: "abandon_while (other_frame (site_listener s) (site_function s) (site_stack s)) ?w1 = ?w1"
    using stack e by (simp add: abandon_while.simps direct_entry_def other_frame_def)
  have "fast_is_direct_leave (site_listener s) (site_function s) (site_stack s) w"
    using w stack e by (simp add: fast_is_direct_leave_def observing_def direct_entry_def)
  then have "w' = set_in_callback False (on_listener (site_listener s) (fast_active_remove i)
      (on_thread (add_child_time (site_duration s))
        (on_listener (site_listener s) (account_call i (site_duration s) x) ?w2)))"
    using w stack e
    by (simp add: w'_def x_def leave_direct_def fast_on_leave_def observing_def Let_def stop on_thread_def on_listener_def
        direct_entry_def duration_seconds_eq [OF clock] site_duration_def)
  then show "observing env i w'" "stack (thread w') = add_time (site_duration s) rest"
    "listeners w' (site_listener s) =
       fast_active_remove i (account_call i (site_duration s) x (listeners w (site_listener s)))"
    "k \<noteq> site_listener s \<Longrightarrow> listeners w' k = listeners w k"
    using w by (simp_all add: observing_def on_thread_def on_listener_def thread_add_child_time)
qed

subsection \<open>Trees\<close>

text \<open>What a run leaves behind.\<close>

definition profiled :: "gum_env \<Rightarrow> nat \<Rightarrow> (nat \<times> rat \<times> rat) list \<Rightarrow> rat \<Rightarrow> callback_world \<Rightarrow> callback_world \<Rightarrow> bool" where
  "profiled env i cs d w w' \<longleftrightarrow>
     observing env i w' \<and> stack (thread w') = add_time d (stack (thread w)) \<and>
     (\<forall>l. accounted i (of_listener l cs) (listeners w l) (listeners w' l))"

lemma profiled_refl: "observing env i w \<Longrightarrow> profiled env i [] 0 w w"
  by (simp add: profiled_def)

lemma profiled_trans:
  "profiled env i as d w1 w2 \<Longrightarrow> profiled env i bs d' w2 w3 \<Longrightarrow> profiled env i (as @ bs) (d + d') w1 w3"
  by (auto simp: profiled_def add_time_add intro: accounted_append)

lemma profiled_generic_call:
  assumes w: "observing env i w" and enter: "enter_generic env s w = (priv, w1)"
    and inner: "\<And>w1. observing env i w1 \<Longrightarrow> stack (thread w1) = generic_entry s # stack (thread w) \<Longrightarrow>
      profiled env i cs c w1 (f w1)"
  shows "profiled env i (cs @ [(site_listener s, site_duration s, exclusive_duration (site_duration s) c)]) (site_duration s)
    w (leave_generic env s priv (f w1))"
proof -
  let ?x = "exclusive_duration (site_duration s) c" and ?l = "site_listener s"
  from enter_generic_effect [OF w, of s] enter
  have priv: "priv = \<lparr>start_time = seconds (began_ns s), stack_level = Suc (level w), data_initialized = True\<rparr>"
    and w1: "observing env i w1" "stack (thread w1) = generic_entry s # stack (thread w)"
    and counted: "counted i (listeners w ?l) (listeners w1 ?l)"
    and active: "fast_active (listeners w1 ?l) = fast_active (listeners w ?l)"
    and others: "\<And>k. k \<noteq> ?l \<Longrightarrow> listeners w1 k = listeners w k"
    by (metis prod.inject)+
  have f: "observing env i (f w1)" "stack (thread (f w1)) = (generic_entry s)\<lparr>child_time := c\<rparr> # stack (thread w)"
    and acc: "\<And>l. accounted i (of_listener l cs) (listeners w1 l) (listeners (f w1) l)"
    using inner [OF w1] w1(2) by (simp_all add: profiled_def generic_entry_def)
  have "\<not> fast_dispatch ((generic_entry s)\<lparr>child_time := c\<rparr>)"
    by (simp add: generic_entry_def)
  note leave = leave_generic_effect [OF f this priv]
  have "accounted i (of_listener k (cs @ [(?l, site_duration s, ?x)])) (listeners w k)
      (listeners (leave_generic env s priv (f w1)) k)" for k
  proof (cases "k = ?l")
    case True
    have fast: "fast_active (listeners (f w1) ?l) j = fast_active (listeners w1 ?l) j" for j
      using acc [of ?l] by (cases "j = i") (simp_all add: accounted_def)
    show ?thesis
      unfolding True leave(3)
      using accounted_call [OF counted acc [of ?l], of "account_call i (site_duration s) ?x (listeners (f w1) ?l)" "site_duration s" ?x]
      by (simp add: fast active account_call_def)
  next
    case False
    then show ?thesis
      using acc [of k] others [OF False] leave(4) [OF False] by simp
  qed
  then show ?thesis
    using leave(1,2) by (simp add: profiled_def)
qed

lemma profiled_direct_call:
  assumes w: "observing env i w" and live: "live_stack env b (stack (thread w))" "site_stack s < b"
    and clock: "began_ns s \<le> ended_ns s" "ended_ns s - began_ns s < 2 ^ 64"
    and enter: "enter_direct env s w = (ENTER_INVOKE, w1)"
    and inner: "\<And>w1. observing env i w1 \<Longrightarrow> stack (thread w1) = direct_entry s # stack (thread w) \<Longrightarrow>
      profiled env i cs c w1 (f w1)"
  shows "profiled env i (cs @ [(site_listener s, site_duration s, exclusive_duration (site_duration s) c)]) (site_duration s)
    w (leave_direct env s (f w1))"
proof -
  let ?x = "exclusive_duration (site_duration s) c" and ?l = "site_listener s"
  have w1: "observing env i w1" "stack (thread w1) = direct_entry s # stack (thread w)"
    and counted: "counted i (listeners w ?l) (listeners w1 ?l)"
    and room: "fast_active (listeners w ?l) i \<noteq> G_MAXUINT"
    and active: "fast_active (listeners w1 ?l) = (fast_active (listeners w ?l))(i := fast_active (listeners w ?l) i + 1)"
    and others: "\<And>k. k \<noteq> ?l \<Longrightarrow> listeners w1 k = listeners w k"
    using enter_direct_effect [OF w live] enter by (metis fast_enter_result.distinct(5) prod.inject)+
  have f: "observing env i (f w1)" "stack (thread (f w1)) = (direct_entry s)\<lparr>child_time := c\<rparr> # stack (thread w)"
    and acc: "\<And>l. accounted i (of_listener l cs) (listeners w1 l) (listeners (f w1) l)"
    using inner [OF w1] w1(2) by (simp_all add: profiled_def direct_entry_def)
  note leave = leave_direct_effect [OF f refl clock]
  have "accounted i (of_listener k (cs @ [(?l, site_duration s, ?x)])) (listeners w k)
      (listeners (leave_direct env s (f w1)) k)" for k
  proof (cases "k = ?l")
    case True
    have fast: "fast_active (listeners (f w1) ?l) j = fast_active (listeners w1 ?l) j" for j
      using acc [of ?l] by (cases "j = i") (simp_all add: accounted_def)
    have "fast_active (listeners w ?l) i + 1 > 0"
      using room by (metis G_MAXUINT_def add.commute add_eq_0_iff word_gt_0)
    then show ?thesis
      unfolding True leave(3)
      using accounted_call [OF counted acc [of ?l],
        of "fast_active_remove i (account_call i (site_duration s) ?x (listeners (f w1) ?l))" "site_duration s" ?x]
      by (simp add: fast active account_call_def fast_active_remove_def)
  next
    case False
    then show ?thesis
      using acc [of k] others [OF False] leave(4) [OF False] by simp
  qed
  then show ?thesis
    using leave(1,2) by (simp add: profiled_def)
qed

lemma profiled_run_calls:
  assumes "\<And>c w. c \<in> set cs \<Longrightarrow> observing env i w \<Longrightarrow> live_stack env b (stack (thread w)) \<Longrightarrow>
      profiled env i (completions c) (site_duration (site c)) w (run_call env c w)"
    and "observing env i w" and "live_stack env b (stack (thread w))"
  shows "profiled env i (completions_of cs) (children_time cs) w (run_calls env cs w)"
  using assms
proof (induction cs arbitrary: w)
  case Nil
  then show ?case by (simp add: profiled_refl)
next
  case (Cons c cs)
  have first: "profiled env i (completions c) (site_duration (site c)) w (run_call env c w)"
    using Cons.prems by simp
  then have "observing env i (run_call env c w)" "live_stack env b (stack (thread (run_call env c w)))"
    using Cons.prems(3) by (simp_all add: profiled_def)
  with Cons.prems(1)
  have "profiled env i (completions_of cs) (children_time cs) (run_call env c w) (run_calls env cs (run_call env c w))"
    by (intro Cons.IH) simp_all
  then show ?case
    using profiled_trans [OF first] by simp
qed

lemma profiled_run_call:
  assumes "observing env i w" and "live_stack env b (stack (thread w))" and "regular env b c"
  shows "profiled env i (completions c) (site_duration (site c)) w (run_call env c w)"
  using assms
proof (induction c arbitrary: w b)
  case (Call s cs)
  then have reg: "site_stack s < b" "began_ns s \<le> ended_ns s" "ended_ns s - began_ns s < 2 ^ 64"
      "stack_entry_matches env (site_depth s) (site_function s) (site_stack s)" "list_all (regular env (site_stack s)) cs"
    by simp_all
  have inner: "profiled env i (completions_of cs) (children_time cs) w1 (run_calls env cs w1)"
    if "observing env i w1" "live_stack env (site_stack s) (stack (thread w1))" for w1
    using that Call.IH reg(5) by (intro profiled_run_calls) (auto simp: list_all_iff)
  have generic: "profiled env i (completions (Call s cs)) (site_duration s) w
      (leave_generic env s priv (run_calls env cs w1))" if "enter_generic env s w = (priv, w1)" for priv w1
    unfolding completions.simps using Call.prems(1) that
    by (rule profiled_generic_call) (use reg(4) in \<open>simp add: inner live_stack_def live_entry_def generic_entry_def\<close>)
  have direct: "profiled env i (completions (Call s cs)) (site_duration s) w (leave_direct env s (run_calls env cs w1))"
    if "enter_direct env s w = (ENTER_INVOKE, w1)" for w1
    unfolding completions.simps using Call.prems(1,2) reg(1-3) that
    by (rule profiled_direct_call) (simp add: inner live_stack_def live_entry_def direct_entry_def)
  obtain priv w1 where enter: "enter_generic env s w = (priv, w1)"
    by (cases "enter_generic env s w")
  show ?case
  proof (rule enter_direct_effect [OF Call.prems(1,2) reg(1)])
    fix w2 assume "enter_direct env s w = (ENTER_INVOKE, w2)"
    then show ?thesis
      using direct [of w2] generic [OF enter] enter by (cases "site_direct s") simp_all
  next
    assume "enter_direct env s w = (ENTER_FALLBACK, w)"
    then show ?thesis
      using generic [OF enter] enter by (cases "site_direct s") simp_all
  qed
qed


subsection \<open>Concrete runs\<close>

definition idle_listener :: general_listener where
  "idle_listener =
     \<lparr>callback_hook_control = 0, fast_lifetime_closing = False, fast_active = (\<lambda>i. 0), fast_stats_capacity = 4,
      num_calls = (\<lambda>i. 0), total_time = (\<lambda>i. 0), exclusive_time = (\<lambda>i. 0), max_time = (\<lambda>i. 0), min_time = (\<lambda>i. 0),
      shadow_array = Some (\<lambda>i. \<lparr>sequence = 0, invalid = False, completed_calls = 0, shadow_total_time = 0,
        shadow_exclusive_time = 0, shadow_max_time = 0, shadow_min_time = 0\<rparr>),
      retired_num_calls = 0, retired_thread_count = 0, retired_total_time = 0, retired_exclusive_time = 0,
      retired_max_total_time = 0, retired_min_total_time = 0, retired_max_time = 0, retired_min_time = 0\<rparr>"

definition idle_world :: callback_world where
  "idle_world =
     \<lparr>listeners = (\<lambda>l. idle_listener),
      thread = \<lparr>stack = [], capacity = INLINE_ENTRIES, self_mapped_id = 1, self_mapped_valid = True, initialized = True,
        in_callback = False, dropped_thread_noted = False, fast_ignore_level = 0\<rparr>,
      dropped_calls = 0, dropped_threads = 0, controller_wakes = 0, released = []\<rparr>"

definition quiet_gum :: gum_env where
  "quiet_gum =
     \<lparr>unwind_frame_is_live = (\<lambda>f sp. True), stack_entry_matches = (\<lambda>d f sp. True), thread_excluded = False,
      callbacks_suspended = False, peak_detach_count = 1000, others = (\<lambda>c. c), current_thread_slot = Some 1,
      peak_max_num_threads = 4\<rparr>"

definition call_at :: "nat \<Rightarrow> nat \<Rightarrow> bool \<Rightarrow> nat \<Rightarrow> nat \<Rightarrow> call_site" where
  "call_at l sp direct a b =
     \<lparr>site_listener = l, site_function = 100 + l, site_stack = sp, site_return = 7, site_depth = 0, site_direct = direct,
      began_ns = a, ended_ns = b\<rparr>"

text \<open>A generic call of hook 1 that calls hook 2 directly, which calls hook 1 again.\<close>

definition sample_tree :: call where
  "sample_tree = Call (call_at 1 900 False 0 100) [Call (call_at 2 800 True 10 60) [Call (call_at 1 700 False 20 30) []]]"


text \<open>The minimum is set by the call that returns while the counter is 1, and lowered below what it was. When the
  first call of a hook calls the hook again, both return with the counter at 2, and the minimum stays at its
  initial 0, for ever; the copy kept for checkpoints counts completed calls and has the minimum.\<close>

definition recursive_tree :: call where
  "recursive_tree = Call (call_at 1 900 False 0 100) [Call (call_at 1 800 False 20 50) []]"

lemma recursion_hides_the_minimum:
  "min_time (listeners (run_call quiet_gum recursive_tree idle_world) 1) 1 = 0"
  by code_simp

lemma recursion_keeps_the_shadow_minimum:
  "map_option (\<lambda>sh. shadow_min_time (sh 1)) (shadow_array (listeners (run_call quiet_gum recursive_tree idle_world) 1)) =
     Some (3 / 10 ^ 8)"
  by code_simp

end
