(* ===== verification/Listener_Frames.thy ===== *)
theory Listener_Frames
  imports Listener_Profile
begin

text \<open>
  The count of direct frames that \<^verbatim>\<open>src/general_listener.c\<close> keeps per listener and thread, on which the removal of a
  hook waits: whatever callbacks a thread runs, in whatever order, with frames left by normal returns, by
  non-local unwinding or by the exit of the thread, the count is the number of direct entries on its stack.
  Then the retirement of a slot, which moves its numbers to the listener's accumulators.
\<close>

subsection \<open>The steps of a thread\<close>

text \<open>\<open>D\<close> are the pointers that Gum passes as contexts of direct calls; generic calls pass the hooked address. A
  thread that is not initialised yet is given a slot in which no thread has frames.\<close>

definition slot_is_clear :: "gum_env \<Rightarrow> callback_world \<Rightarrow> bool" where
  "slot_is_clear env w \<longleftrightarrow>
     initialized (thread w) \<or>
     (case current_thread_slot env of None \<Rightarrow> True | Some i \<Rightarrow> \<forall>l. fast_active (listeners w l) i = 0)"

inductive callback_step :: "nat set \<Rightarrow> callback_world \<Rightarrow> callback_world \<Rightarrow> bool" for D where
  enter: "f \<notin> D \<Longrightarrow> slot_is_clear env w \<Longrightarrow> callback_step D w (snd (on_enter env lis f sp depth now priv w))"
| leave: "callback_step D w (snd (on_leave env lis now priv w))"
| direct_enter: "f \<in> D \<Longrightarrow> callback_step D w (snd (fast_on_enter env l f sp ret depth now_ns w))"
| direct_leave: "f \<in> D \<Longrightarrow> callback_step D w (snd (fast_on_leave env l f sp now_ns w))"
| reap: "callback_step D w (reap_known_unwound env w)"
| exit: "callback_step D w (release_current_thread_state w)"
| destructor: "callback_step D w (release_current_thread_frames_preserve_slot w)"
| ignore: "callback_step D w (fast_ignore_current_thread w)"
| unignore: "callback_step D w (fast_unignore_current_thread w)"

subsection \<open>The invariant\<close>

definition direct_of :: "nat \<Rightarrow> invocation_entry list \<Rightarrow> nat" where
  "direct_of l es = length (filter (\<lambda>e. fast_dispatch e \<and> listener e = l) es)"

lemma direct_of_simps [simp]:
  "direct_of l [] = 0"
  "direct_of l (e # es) = (if fast_dispatch e \<and> listener e = l then 1 else 0) + direct_of l es"
  by (simp_all add: direct_of_def)

text \<open>\<open>x\<close> is a listener whose frame is counted but not on the stack: it is being entered, or left.\<close>

definition frames_counted :: "nat set \<Rightarrow> nat option \<Rightarrow> callback_world \<Rightarrow> bool" where
  "frames_counted D x w \<longleftrightarrow>
     level w \<le> capacity (thread w) \<and> (initialized (thread w) \<longrightarrow> 0 < capacity (thread w)) \<and>
     (\<forall>e \<in> set (stack (thread w)). fast_dispatch e \<longleftrightarrow> function_context e \<in> D) \<and>
     (if initialized (thread w) \<and> self_mapped_valid (thread w)
      then \<forall>l. unat (fast_active (listeners w l) (self_mapped_id (thread w))) =
                 direct_of l (stack (thread w)) + (if x = Some l then 1 else 0)
      else stack (thread w) = [])"

lemma frames_counted_cong:
  assumes "frames_counted D x w"
    and "\<And>l. fast_active (listeners w' l) = fast_active (listeners w l)"
    and "map fast_dispatch (stack (thread w')) = map fast_dispatch (stack (thread w))"
    and "map listener (stack (thread w')) = map listener (stack (thread w))"
    and "map function_context (stack (thread w')) = map function_context (stack (thread w))"
    and "capacity (thread w') = capacity (thread w)" and "initialized (thread w') = initialized (thread w)"
    and "self_mapped_valid (thread w') = self_mapped_valid (thread w)" and "self_mapped_id (thread w') = self_mapped_id (thread w)"
  shows "frames_counted D x w'"
proof -
  have direct: "direct_of l es = length (filter (\<lambda>(d, k). d \<and> k = l) (zip (map fast_dispatch es) (map listener es)))" for l es
    by (induction es) simp_all
  have "direct_of l (stack (thread w')) = direct_of l (stack (thread w))" for l
    unfolding direct assms(3,4) ..
  moreover have contexts: "(\<forall>e \<in> set es. fast_dispatch e \<longleftrightarrow> function_context e \<in> D) \<longleftrightarrow>
      list_all2 (\<lambda>d f. d \<longleftrightarrow> f \<in> D) (map fast_dispatch es) (map function_context es)" for es
    by (induction es) simp_all
  have "(\<forall>e \<in> set (stack (thread w')). fast_dispatch e \<longleftrightarrow> function_context e \<in> D) \<longleftrightarrow>
      (\<forall>e \<in> set (stack (thread w)). fast_dispatch e \<longleftrightarrow> function_context e \<in> D)"
    unfolding contexts assms(3,5) ..
  moreover have "level w' = level w" "(stack (thread w') = []) = (stack (thread w) = [])"
    using assms(3) map_eq_imp_length_eq by fastforce+
  ultimately show ?thesis
    using assms by (simp add: frames_counted_def)
qed

lemma unat_dec: "0 < unat (x :: uint32) \<Longrightarrow> unat (x - 1) = unat x - 1"
  by (metis less_nat_zero_code unat_0 unat_minus_one)

lemma frames_counted_abandon_top:
  assumes "frames_counted D x w"
  shows "frames_counted D x (abandon_top w)"
proof (cases "stack (thread w)")
  case Nil
  then show ?thesis using assms by (simp add: abandon_top_def)
next
  case (Cons e rest)
  let ?i = "self_mapped_id (thread w)"
  have mapped: "initialized (thread w)" "self_mapped_valid (thread w)"
    and count: "\<And>l. unat (fast_active (listeners w l) ?i) = direct_of l (e # rest) + (if x = Some l then 1 else 0)"
    and shape: "Suc (length rest) \<le> capacity (thread w)" "\<forall>e \<in> set (e # rest). fast_dispatch e \<longleftrightarrow> function_context e \<in> D"
    using assms Cons by (auto simp: frames_counted_def split: if_splits)
  have dec: "unat (fast_active (listeners w (listener e)) ?i - 1) = direct_of (listener e) rest + (if x = Some (listener e) then 1 else 0)"
      "0 < fast_active (listeners w (listener e)) ?i" if "fast_dispatch e"
    using count [of "listener e"] that by (auto simp: unat_dec word_greater_zero_iff intro!: unat_dec)
  have "unat (fast_active (listeners (abandon_top w) l) ?i) = direct_of l rest + (if x = Some l then 1 else 0)" for l
    using count [of l] dec Cons
    by (cases "fast_dispatch e")
      (simp_all add: abandon_top_def abandon_entry_def fast_abandon_remove_def fast_active_remove_def on_thread_def Let_def)
  moreover have "thread (abandon_top w) = (thread w)\<lparr>stack := rest\<rparr>"
    using Cons by (simp add: abandon_top_def on_thread_def)
  ultimately show ?thesis
    using shape mapped by (simp add: frames_counted_def)
qed

lemma frames_counted_abandon_while: "frames_counted D x w \<Longrightarrow> frames_counted D x (abandon_while P w)"
proof (induction P w rule: abandon_while.induct)
  case (1 P w)
  then show ?case
    by (subst abandon_while.simps) (auto split: list.splits intro!: frames_counted_abandon_top)
qed

lemma fields_abandon_top [simp]:
  "initialized (thread (abandon_top w)) = initialized (thread w)"
  "self_mapped_valid (thread (abandon_top w)) = self_mapped_valid (thread w)"
  "self_mapped_id (thread (abandon_top w)) = self_mapped_id (thread w)"
  by (simp_all add: abandon_top_def on_thread_def split: list.splits)

lemma fields_abandon_while [simp]:
  "initialized (thread (abandon_while P w)) = initialized (thread w)"
  "self_mapped_valid (thread (abandon_while P w)) = self_mapped_valid (thread w)"
  "self_mapped_id (thread (abandon_while P w)) = self_mapped_id (thread w)"
proof (induction P w rule: abandon_while.induct)
  case (1 P w)
  {
    case 1
    show ?case using "1.IH"(1) by (subst abandon_while.simps) (auto split: list.splits)
  next
    case 2
    show ?case using "1.IH"(2) by (subst abandon_while.simps) (auto split: list.splits)
  next
    case 3
    show ?case using "1.IH"(3) by (subst abandon_while.simps) (auto split: list.splits)
  }
qed

lemma abandon_while_stops: "stack (thread (abandon_while P w)) = e # rest \<Longrightarrow> \<not> P e"
proof (induction P w rule: abandon_while.induct)
  case (1 P w)
  then show ?case
    by (subst (asm) (2) abandon_while.simps) (auto split: list.splits if_splits)
qed

lemma frames_counted_abandon_levels: "frames_counted D x w \<Longrightarrow> frames_counted D x (abandon_levels n w)"
  by (induction n) (simp_all add: abandon_levels_def frames_counted_abandon_top)

lemma fields_abandon_levels:
  "initialized (thread (abandon_levels n w)) = initialized (thread w)"
  "self_mapped_valid (thread (abandon_levels n w)) = self_mapped_valid (thread w)"
  "self_mapped_id (thread (abandon_levels n w)) = self_mapped_id (thread w)"
  by (induction n) (simp_all add: abandon_levels_def)

lemma stack_abandon_levels: "stack (thread (abandon_levels n w)) = drop n (stack (thread w))"
  by (induction n) (simp_all add: abandon_levels_def drop_Suc tl_drop flip: drop_tl)

subsection \<open>Every step keeps the invariant\<close>

lemma frames_counted_set_in_callback [simp]: "frames_counted D x (set_in_callback b w) = frames_counted D x w"
  by (simp add: frames_counted_def)

lemma frames_counted_count_call: "frames_counted D x w \<Longrightarrow> frames_counted D x (count_call env l w)"
  by (rule frames_counted_cong, assumption) (metis fast_active_count_call listeners_count_call_other, simp_all)

lemma frames_counted_note_dropped:
  "frames_counted D x w \<Longrightarrow> frames_counted D x (note_dropped_current_thread w)"
  by (simp add: frames_counted_def note_dropped_current_thread_def on_thread_def Let_def)

lemma frames_counted_accounted:
  "frames_counted D x w \<Longrightarrow>
    frames_counted D x (on_thread (add_child_time d) (on_listener l (account_call i d e) w))"
  by (rule frames_counted_cong, assumption)
    (cases "stack (thread w)";
     simp add: on_thread_def on_listener_def account_call_def thread_add_child_time)+

lemma frames_counted_initialize:
  assumes "frames_counted D None w" and "slot_is_clear env w"
  shows "frames_counted D None (thread_state_initialize env w)"
  using assms
  by (auto simp: frames_counted_def thread_state_initialize_def slot_is_clear_def on_thread_def INLINE_ENTRIES_def
      split: option.splits prod.splits if_splits)

lemma frames_counted_push:
  assumes "frames_counted D x w" and "initialized (thread w)" and "self_mapped_valid (thread w)"
    and "fast_dispatch e \<longleftrightarrow> function_context e \<in> D" and "x = (if fast_dispatch e then Some (listener e) else None)"
  shows "frames_counted D None (push_invocation e w)"
  using assms
  by (auto simp: frames_counted_def thread_push_invocation grow_invocation_stack_def split: if_splits)

lemma frames_counted_pop:
  assumes "frames_counted D None w" and "stack (thread w) = e # rest" and "fast_dispatch e"
  shows "frames_counted D (Some (listener e)) (on_thread (\<lambda>t. t\<lparr>stack := rest\<rparr>) w)"
  using assms by (auto simp: frames_counted_def on_thread_def split: if_splits)

lemma frames_counted_remove:
  assumes "frames_counted D (Some l) w" and "initialized (thread w)" and "self_mapped_valid (thread w)"
  shows "frames_counted D None (on_listener l (fast_active_remove (self_mapped_id (thread w))) w)"
proof -
  have "unat (fast_active (listeners w l) (self_mapped_id (thread w))) = direct_of l (stack (thread w)) + 1"
    using assms by (simp add: frames_counted_def)
  then have "unat (fast_active (listeners w l) (self_mapped_id (thread w)) - 1) = direct_of l (stack (thread w))"
      "0 < fast_active (listeners w l) (self_mapped_id (thread w))"
    by (auto simp: unat_dec word_greater_zero_iff)
  then show ?thesis
    using assms by (simp add: frames_counted_def on_listener_def fast_active_remove_def)
qed

lemma frames_counted_add:
  assumes "frames_counted D None w" and "fast_active_add (self_mapped_id (thread w)) (listeners w l) = Some lis"
    and "initialized (thread w)" and "self_mapped_valid (thread w)"
  shows "frames_counted D (Some l) (w\<lparr>listeners := (listeners w)(l := lis)\<rparr>)"
proof -
  have "fast_active (listeners w l) (self_mapped_id (thread w)) + 1 \<noteq> 0"
    and lis: "lis = (listeners w l)\<lparr>fast_active := (fast_active (listeners w l))
      (self_mapped_id (thread w) := fast_active (listeners w l) (self_mapped_id (thread w)) + 1)\<rparr>"
    using assms(2) by (auto simp: fast_active_add_def G_MAXUINT_def add.commute eq_neg_iff_add_eq_0 split: if_splits)
  then have "unat (fast_active (listeners w l) (self_mapped_id (thread w)) + 1) =
      Suc (unat (fast_active (listeners w l) (self_mapped_id (thread w))))"
    by (simp add: unatSuc add.commute)
  then show ?thesis
    using assms by (simp add: frames_counted_def lis)
qed

lemma frames_counted_pop_invocation:
  "frames_counted D x w \<Longrightarrow> pop_invocation priv w = (c, priv', w') \<Longrightarrow> frames_counted D x w'"
  by (auto simp: pop_invocation_def Let_def frames_counted_abandon_top frames_counted_abandon_levels split: if_splits)

lemma frames_counted_on_enter:
  assumes "frames_counted D None w" and "f \<notin> D" and "slot_is_clear env w"
  shows "frames_counted D None (snd (on_enter env lis f sp depth now priv w))"
proof -
  let ?w1 = "thread_state_initialize env (set_in_callback True w)"
  have "frames_counted D None ?w1"
    using assms(1,3) by (intro frames_counted_initialize) (simp_all add: slot_is_clear_def split: option.splits)
  moreover have "initialized (thread ?w1)"
    by (simp add: thread_state_initialize_def on_thread_def Let_def split: option.splits prod.splits)
  ultimately show ?thesis
    using assms(1,2)
    by (auto simp: on_enter_def Let_def frames_counted_note_dropped split: option.splits
        intro!: frames_counted_count_call frames_counted_push)
qed

lemma frames_counted_on_leave:
  assumes "frames_counted D None w"
  shows "frames_counted D None (snd (on_leave env lis now priv w))"
proof (cases "\<not> data_initialized priv \<or> in_callback (thread w)")
  case True
  then show ?thesis using assms by (simp add: on_leave_def)
next
  case False
  let ?w1 = "set_in_callback True w"
  have w1: "frames_counted D None ?w1"
    using assms by simp
  obtain c priv' w2 where pop: "pop_invocation priv ?w1 = (c, priv', w2)"
    by (cases "pop_invocation priv ?w1")
  have w2: "frames_counted D None w2"
    by (rule frames_counted_pop_invocation [OF w1 pop])
  show ?thesis
    using False pop w2 frames_counted_abandon_top [OF w1] assms
    by (auto simp: on_leave_def Let_def abandon_current_invocation_def frames_counted_accounted
        split: option.splits)
qed

lemma frames_counted_fast_on_enter:
  assumes "frames_counted D None w" and "f \<in> D"
  shows "frames_counted D None (snd (fast_on_enter env l f sp ret depth now_ns w))"
proof (cases "fast_active_add (self_mapped_id (thread w)) (listeners w l)")
  case None
  then show ?thesis
    using assms by (simp add: fast_on_enter_def Let_def frames_counted_note_dropped)
next
  case (Some lis)
  let ?w1 = "(set_in_callback True w)\<lparr>listeners := (listeners w)(l := lis)\<rparr>"
  let ?w2 = "fast_reap_unwound env sp ?w1"
  have w2: "frames_counted D (Some l) ?w2" if "initialized (thread w)" "self_mapped_valid (thread w)"
    unfolding fast_reap_unwound_def
    using frames_counted_add [of D "set_in_callback True w" l lis] that assms(1) Some
    by (intro frames_counted_abandon_while) simp
  have "initialized (thread ?w2) = initialized (thread w)" "self_mapped_valid (thread ?w2) = self_mapped_valid (thread w)"
    by (simp_all add: fast_reap_unwound_def)
  then show ?thesis
    using assms Some w2
    by (auto simp: fast_on_enter_def Let_def frames_counted_note_dropped intro!: frames_counted_count_call frames_counted_push)
qed

lemma frames_counted_fast_on_leave:
  assumes "frames_counted D None w" and "f \<in> D"
  shows "frames_counted D None (snd (fast_on_leave env l f sp now_ns w))"
proof (cases "in_callback (thread w) \<or> \<not> initialized (thread w)")
  case True
  then show ?thesis using assms by (simp add: fast_on_leave_def)
next
  case False
  let ?w1 = "abandon_while (other_frame l f sp) (set_in_callback True w)"
  have w1: "frames_counted D None ?w1"
    using assms(1) by (intro frames_counted_abandon_while) simp
  show ?thesis
  proof (cases "stack (thread ?w1)")
    case Nil
    then show ?thesis using False w1 by (simp add: fast_on_leave_def Let_def)
  next
    case (Cons e rest)
    let ?w2 = "on_thread (\<lambda>t. t\<lparr>stack := rest\<rparr>) ?w1" and ?i = "self_mapped_id (thread w)"
    let ?d = "duration_seconds (start_ns e) now_ns"
    have "\<not> other_frame l f sp e"
      by (rule abandon_while_stops [OF Cons])
    then have e: "listener e = l" "fast_dispatch e"
      using w1 Cons assms(2) by (auto simp: other_frame_def frames_counted_def)
    have w2: "frames_counted D (Some l) ?w2"
      using frames_counted_pop [OF w1 Cons e(2)] e(1) by simp
    let ?w3 = "if callbacks_suspended env then ?w2
      else on_thread (add_child_time ?d) (on_listener l (account_call ?i ?d (exclusive_duration ?d (child_time e))) ?w2)"
    have "frames_counted D (Some l) ?w3"
      using w2 by (auto intro: frames_counted_accounted)
    moreover have "self_mapped_valid (thread w)"
      using w1 Cons by (auto simp: frames_counted_def split: if_splits)
    moreover have "self_mapped_id (thread ?w3) = ?i" "initialized (thread ?w3) = initialized (thread w)"
        "self_mapped_valid (thread ?w3) = self_mapped_valid (thread w)"
      by (simp_all add: on_thread_def on_listener_def thread_add_child_time)
    ultimately have "frames_counted D None (on_listener l (fast_active_remove ?i) ?w3)"
      using frames_counted_remove [of D l ?w3] False by simp
    moreover have "self_mapped_id (thread ?w2) = ?i"
      by (simp add: on_thread_def)
    ultimately show ?thesis
      using False by (simp add: fast_on_leave_def Let_def Cons split: if_splits)
  qed
qed

lemma frames_counted_release_frames:
  assumes "frames_counted D None w"
  shows "frames_counted D None (thread_state_release_frames w)"
    and "initialized (thread w) \<Longrightarrow> self_mapped_valid (thread w) \<Longrightarrow>
      fast_active (listeners (thread_state_release_frames w) l) (self_mapped_id (thread w)) = 0"
proof -
  let ?w1 = "abandon_levels (level w) w"
  have fields: "initialized (thread ?w1) = initialized (thread w)" "self_mapped_valid (thread ?w1) = self_mapped_valid (thread w)"
      "self_mapped_id (thread ?w1) = self_mapped_id (thread w)" for n
    by (simp_all add: fields_abandon_levels)
  have w1: "frames_counted D None ?w1" "stack (thread ?w1) = []"
    using assms by (simp_all add: frames_counted_abandon_levels stack_abandon_levels)
  then show "frames_counted D None (thread_state_release_frames w)"
    by (auto simp: thread_state_release_frames_def frames_counted_def on_thread_def INLINE_ENTRIES_def split: if_splits)
  show "fast_active (listeners (thread_state_release_frames w) l) (self_mapped_id (thread w)) = 0"
    if "initialized (thread w)" "self_mapped_valid (thread w)"
    using w1 that fields by (simp add: thread_state_release_frames_def frames_counted_def on_thread_def unat_eq_zero)
qed

lemma frames_counted_ignore:
  "frames_counted D x w \<Longrightarrow> frames_counted D x (fast_ignore_current_thread w)"
  "frames_counted D x w \<Longrightarrow> frames_counted D x (fast_unignore_current_thread w)"
  by (erule frames_counted_cong; simp add: fast_ignore_current_thread_def fast_unignore_current_thread_def on_thread_def)+

lemma frames_counted_step:
  assumes "callback_step D w w'" and "frames_counted D None w"
  shows "frames_counted D None w'"
  using assms
proof (cases rule: callback_step.cases)
  case reap
  then show ?thesis
    using assms(2) by (simp add: reap_known_unwound_def frames_counted_abandon_while)
next
  case exit
  then show ?thesis
    using frames_counted_release_frames(1) [OF assms(2)] assms(2)
    by (auto simp: release_current_thread_state_def thread_state_destroy_def frames_counted_def on_thread_def
        thread_state_release_frames_def)
next
  case destructor
  then show ?thesis
    using frames_counted_release_frames(1) [OF assms(2)] assms(2)
    by (simp add: release_current_thread_frames_preserve_slot_def)
qed (use assms(2) in \<open>simp_all add: frames_counted_on_enter frames_counted_on_leave frames_counted_fast_on_enter
    frames_counted_fast_on_leave frames_counted_ignore\<close>)

lemma frames_counted_reachable: "(callback_step D)\<^sup>*\<^sup>* w w' \<Longrightarrow> frames_counted D None w \<Longrightarrow> frames_counted D None w'"
  by (induction rule: rtranclp_induct) (auto intro: frames_counted_step)

text \<open>(C6) The count of direct frames is exact: from a thread that has no frames yet, after any sequence of generic and
  direct callbacks, unwinding, thread-local destructors and thread exits, the counter of a listener in the slot of
  the thread is the number of direct entries of the listener on the stack of the thread, and the stack fits its
  array.\<close>

theorem direct_frames_counted:
  assumes "(callback_step D)\<^sup>*\<^sup>* w w'" and "stack (thread w) = []" and "\<not> initialized (thread w)"
  shows "level w' \<le> capacity (thread w') \<and>
    (if initialized (thread w') \<and> self_mapped_valid (thread w')
     then \<forall>l. unat (fast_active (listeners w' l) (self_mapped_id (thread w'))) = direct_of l (stack (thread w'))
     else stack (thread w') = [])"
proof -
  have "frames_counted D None w"
    using assms(2,3) by (simp add: frames_counted_def)
  from frames_counted_reachable [OF assms(1) this] show ?thesis
    by (simp add: frames_counted_def)
qed

text \<open>A thread that exits, whatever frames it left, leaves no counter of its slot behind: the slot can be given to
  another thread, and the removal of no hook waits for it.\<close>

theorem thread_exit_clears_frames:
  assumes "(callback_step D)\<^sup>*\<^sup>* w w'" and "stack (thread w) = []" and "\<not> initialized (thread w)"
    and "initialized (thread w')" and "self_mapped_valid (thread w')"
  shows "fast_active (listeners (release_current_thread_state w') l) (self_mapped_id (thread w')) = 0"
proof -
  have "frames_counted D None w"
    using assms(2,3) by (simp add: frames_counted_def)
  from frames_counted_release_frames(2) [OF frames_counted_reachable [OF assms(1) this] assms(4,5)] show ?thesis
    using assms(4) by (simp add: release_current_thread_state_def thread_state_destroy_def on_thread_def)
qed

text \<open>A thread that enters a direct frame inside a generic one, unwinds past both, and enters again.\<close>

definition sample_run :: "callback_world list" where
  "sample_run =
     (let w0 = on_thread (\<lambda>t. t\<lparr>initialized := False, self_mapped_valid := False\<rparr>) idle_world;
          w1 = snd (on_enter quiet_gum (Some 1) 101 900 0 0 blank_data w0);
          w2 = snd (fast_on_enter quiet_gum 2 52 800 7 0 5 w1);
          w3 = snd (fast_on_enter quiet_gum 2 52 850 7 0 6 w2)
      in [w0, w1, w2, w3])"

lemma sample_run_steps: "(callback_step {52})\<^sup>*\<^sup>* (sample_run ! 0) (sample_run ! 3)"
proof -
  have "callback_step {52} (sample_run ! 0) (sample_run ! 1)"
    by (simp add: sample_run_def Let_def)
      (rule callback_step.enter, simp_all add: slot_is_clear_def quiet_gum_def on_thread_def idle_world_def idle_listener_def)
  moreover have "callback_step {52} (sample_run ! 1) (sample_run ! 2)" "callback_step {52} (sample_run ! 2) (sample_run ! 3)"
    by (simp_all add: sample_run_def Let_def callback_step.direct_enter)
  ultimately show ?thesis
    by (meson rtranclp.rtrancl_refl rtranclp.rtrancl_into_rtrancl)
qed

lemma sample_run_start: "stack (thread (sample_run ! 0)) = []" "\<not> initialized (thread (sample_run ! 0))"
  by code_simp+

lemma sample_run_end:
  "initialized (thread (sample_run ! 3))" "self_mapped_valid (thread (sample_run ! 3))" "self_mapped_id (thread (sample_run ! 3)) = 1"
  by code_simp+

theorem direct_frames_counted_witness:
  "unat (fast_active (listeners (sample_run ! 3) 2) 1) = direct_of 2 (stack (thread (sample_run ! 3)))"
  using direct_frames_counted [OF sample_run_steps sample_run_start] by (simp add: sample_run_end)

theorem thread_exit_clears_frames_witness:
  "fast_active (listeners (release_current_thread_state (sample_run ! 3)) 2) 1 = 0"
  using thread_exit_clears_frames [OF sample_run_steps sample_run_start sample_run_end(1,2), of 2]
  by (simp add: sample_run_end)

subsection \<open>Retirement\<close>

definition sum_over :: "(nat \<Rightarrow> 'a :: comm_monoid_add) \<Rightarrow> general_listener \<Rightarrow> 'a" where
  "sum_over f l = (\<Sum>i\<leftarrow>[0..<fast_stats_capacity l]. f i)"

lemma sum_over_upd:
  assumes "i < fast_stats_capacity l" and "fast_stats_capacity l' = fast_stats_capacity l"
  shows "sum_over (f(i := v)) l' + f i = sum_over f l + (v :: 'a :: ab_group_add)"
proof -
  have eq: "sum_over g l'' = (\<Sum>j<fast_stats_capacity l''. g j)" for g :: "nat \<Rightarrow> 'a" and l''
    by (simp add: sum_over_def interv_sum_list_conv_sum_set_nat atLeast0LessThan)
  have "sum_over (f(i := v)) l' = v + (\<Sum>j\<in>{..<fast_stats_capacity l} - {i}. f j)"
    using assms by (simp add: eq sum.remove [of _ i])
  moreover have "sum_over f l = f i + (\<Sum>j\<in>{..<fast_stats_capacity l} - {i}. f j)"
    using assms by (simp add: eq sum.remove [of _ i])
  ultimately show ?thesis
    by (simp add: algebra_simps)
qed

definition overall_max :: "general_listener \<Rightarrow> rat" where
  "overall_max l = Max (insert (retired_max_time l) (max_time l ` {..<fast_stats_capacity l}))"

lemma retire_listener_slot_fields:
  assumes "i < fast_stats_capacity l"
  defines "l' \<equiv> snd (retire_listener_slot i l)"
  shows "num_calls l' = (num_calls l)(i := 0)" "total_time l' = (total_time l)(i := 0)"
    "exclusive_time l' = (exclusive_time l)(i := 0)" "max_time l' = (max_time l)(i := 0)" "min_time l' = (min_time l)(i := 0)"
    "retired_num_calls l' = retired_num_calls l + num_calls l i"
    "retired_total_time l' = retired_total_time l + (if num_calls l i = 0 then 0 else total_time l i)"
    "retired_exclusive_time l' = retired_exclusive_time l + (if num_calls l i = 0 then 0 else exclusive_time l i)"
    "retired_max_time l' = (if num_calls l i = 0 then retired_max_time l else max (retired_max_time l) (max_time l i))"
    "fast_stats_capacity l' = fast_stats_capacity l"
  using assms(1)
  by (auto simp: l'_def retire_listener_slot_def retire_counts_def Let_def max_def split: option.splits prod.splits)

lemma Max_insert_moved:
  assumes "finite A" and "i \<in> A" and "0 \<le> r" and "0 \<le> f i"
  shows "Max (insert (max r (f i)) ((f(i := 0)) ` A)) = Max (insert r (f ` A :: rat set))"
proof (rule Max_eq_if)
  show "\<forall>a\<in>insert (max r (f i)) ((f(i := 0)) ` A). \<exists>b\<in>insert r (f ` A). a \<le> b"
    using assms by (auto simp: max_def)
  show "\<forall>b\<in>insert r (f ` A). \<exists>a\<in>insert (max r (f i)) ((f(i := 0)) ` A). b \<le> a"
    using assms by (auto simp: max_def)
qed (use assms in auto)


definition used_listener :: general_listener where
  "used_listener =
     idle_listener\<lparr>num_calls := (\<lambda>i. if i = 1 then 3 else 0), total_time := (\<lambda>i. if i = 1 then 9 else 0),
       exclusive_time := (\<lambda>i. if i = 1 then 6 else 0), max_time := (\<lambda>i. if i = 1 then 5 else 0), retired_max_time := 4\<rparr>"


end
