(* ===== verification/Listener_Closing.thy ===== *)
theory Listener_Closing
  imports Listener_Callbacks
begin

text \<open>
  The closing of a listener, \<^verbatim>\<open>fast_active_close\<close> of \<^verbatim>\<open>src/general_listener.c\<close>, against threads that abandon frames at
  the same time, \<^verbatim>\<open>fast_abandon_remove\<close>. The closer counts the direct frames that are left; Gum seeds the
  lifetime of the hook with that count and takes one off for every frame released from then on. The count is
  right only when every frame is on one side: taken off before the count, or released after it.

  Each atomic access of the two functions is a step; the steps of the threads and of the closer interleave.
  Between the start of the close and the seeding, the mutation guard keeps the normal callbacks away.
\<close>

datatype abandon_pc =
    Outside
  | Check_closing
  | Join
  | Recheck
  | Take_off
  | Depart
  | Back_off
  | Await_release

datatype close_pc =
    Open
  | Drain
  | Count nat nat
  | Counted nat
  | Seeded nat

record close_state =
  closing :: bool
  abandoners :: nat
  release_required :: bool
  frames :: "nat \<Rightarrow> nat"
  pcs :: "nat \<Rightarrow> abandon_pc"
  closer :: close_pc
  released_frames :: nat

definition goto :: "nat \<Rightarrow> abandon_pc \<Rightarrow> close_state \<Rightarrow> close_state" where
  "goto i p s = s\<lparr>pcs := (pcs s)(i := p)\<rparr>"

definition remove_frame :: "nat \<Rightarrow> close_state \<Rightarrow> close_state" where
  "remove_frame i s = s\<lparr>frames := (frames s)(i := frames s i - 1)\<rparr>"

text \<open>One step of \<^verbatim>\<open>fast_abandon_remove\<close> of thread \<open>i\<close>; a thread with a frame may call it. \<open>None\<close> is the spinning wait.\<close>

definition abandon_next :: "nat \<Rightarrow> close_state \<Rightarrow> close_state option" where
  "abandon_next i s =
     (case pcs s i of
        Outside \<Rightarrow> if frames s i > 0 then Some (goto i Check_closing s) else None
      | Check_closing \<Rightarrow> Some (goto i (if closing s then Await_release else Join) s)
      | Await_release \<Rightarrow>
          if release_required s
          then Some (goto i Outside (remove_frame i (s\<lparr>released_frames := released_frames s + 1\<rparr>)))
          else None
      | Join \<Rightarrow> Some (goto i Recheck (s\<lparr>abandoners := abandoners s + 1\<rparr>))
      | Recheck \<Rightarrow> Some (goto i (if closing s then Back_off else Take_off) s)
      | Take_off \<Rightarrow> Some (goto i Depart (remove_frame i s))
      | Depart \<Rightarrow> Some (goto i Outside (s\<lparr>abandoners := abandoners s - 1\<rparr>))
      | Back_off \<Rightarrow> Some (goto i Check_closing (s\<lparr>abandoners := abandoners s - 1\<rparr>)))"

text \<open>One step of \<^verbatim>\<open>fast_active_close\<close> over \<open>n\<close> slots; the last one is Gum's, which publishes \<^verbatim>\<open>release_required\<close>.\<close>

definition close_next :: "nat \<Rightarrow> close_state \<Rightarrow> close_state option" where
  "close_next n s =
     (case closer s of
        Open \<Rightarrow> Some (s\<lparr>closing := True, closer := Drain\<rparr>)
      | Drain \<Rightarrow> if abandoners s \<noteq> 0 then None else Some (s\<lparr>closer := Count 0 0\<rparr>)
      | Count k t \<Rightarrow>
          if k < n then Some (s\<lparr>closer := Count (k + 1) (t + frames s k)\<rparr>) else Some (s\<lparr>closer := Counted t\<rparr>)
      | Counted t \<Rightarrow> Some (s\<lparr>release_required := True, closer := Seeded t\<rparr>)
      | Seeded t \<Rightarrow> None)"

text \<open>The normal callbacks of a thread: before the close, and leaves after the seeding.\<close>

definition callback_next :: "bool \<Rightarrow> nat \<Rightarrow> close_state \<Rightarrow> close_state option" where
  "callback_next entering i s =
     (if pcs s i \<noteq> Outside then None
      else case closer s of
        Open \<Rightarrow>
          if entering then Some (s\<lparr>frames := (frames s)(i := frames s i + 1)\<rparr>)
          else if frames s i > 0 then Some (remove_frame i s)
          else None
      | Seeded t \<Rightarrow>
          if \<not> entering \<and> frames s i > 0
          then Some (remove_frame i (s\<lparr>released_frames := released_frames s + 1\<rparr>))
          else None
      | _ \<Rightarrow> None)"

inductive closing_step :: "nat \<Rightarrow> close_state \<Rightarrow> close_state \<Rightarrow> bool" for n where
  abandon: "i < n \<Longrightarrow> abandon_next i s = Some s' \<Longrightarrow> closing_step n s s'"
| close: "close_next n s = Some s' \<Longrightarrow> closing_step n s s'"
| callback: "i < n \<Longrightarrow> callback_next entering i s = Some s' \<Longrightarrow> closing_step n s s'"

definition open_state :: "(nat \<Rightarrow> nat) \<Rightarrow> close_state" where
  "open_state fs =
     \<lparr>closing = False, abandoners = 0, release_required = False, frames = fs, pcs = (\<lambda>i. Outside), closer = Open,
      released_frames = 0\<rparr>"

subsection \<open>The invariant\<close>

definition joined :: "abandon_pc \<Rightarrow> bool" where
  "joined p \<longleftrightarrow> p \<in> {Recheck, Take_off, Depart, Back_off}"

definition committed :: "abandon_pc \<Rightarrow> bool" where
  "committed p \<longleftrightarrow> p \<in> {Take_off, Depart}"

definition owns_frame :: "abandon_pc \<Rightarrow> bool" where
  "owns_frame p \<longleftrightarrow> p \<notin> {Outside, Depart}"

definition weight :: "abandon_pc \<Rightarrow> nat" where
  "weight p = (if joined p then 1 else 0)"

definition joined_threads :: "nat \<Rightarrow> (nat \<Rightarrow> abandon_pc) \<Rightarrow> nat" where
  "joined_threads n ps = (\<Sum>i<n. weight (ps i))"

definition past_drain :: "close_pc \<Rightarrow> bool" where
  "past_drain c \<longleftrightarrow> (case c of Open \<Rightarrow> False | Drain \<Rightarrow> False | _ \<Rightarrow> True)"

definition total_frames :: "nat \<Rightarrow> close_state \<Rightarrow> nat" where
  "total_frames n s = (\<Sum>i<n. frames s i)"

definition count_right :: "nat \<Rightarrow> close_state \<Rightarrow> bool" where
  "count_right n s =
     (case closer s of
        Open \<Rightarrow> released_frames s = 0
      | Drain \<Rightarrow> released_frames s = 0
      | Count k t \<Rightarrow> k \<le> n \<and> t = (\<Sum>i<k. frames s i) \<and> released_frames s = 0
      | Counted t \<Rightarrow> t = total_frames n s \<and> released_frames s = 0
      | Seeded t \<Rightarrow> t = total_frames n s + released_frames s)"

definition closing_inv :: "nat \<Rightarrow> close_state \<Rightarrow> bool" where
  "closing_inv n s \<longleftrightarrow>
     abandoners s = joined_threads n (pcs s) \<and> (closing s \<longleftrightarrow> closer s \<noteq> Open) \<and>
     (release_required s \<longleftrightarrow> (\<exists>t. closer s = Seeded t)) \<and>
     (\<forall>i<n. owns_frame (pcs s i) \<longrightarrow> frames s i > 0) \<and>
     (past_drain (closer s) \<longrightarrow> (\<forall>i<n. \<not> committed (pcs s i))) \<and> count_right n s"

lemma sum_upd:
  fixes f :: "nat \<Rightarrow> nat"
  assumes "i < n"
  shows "(\<Sum>j<n. (f(i := v)) j) + f i = (\<Sum>j<n. f j) + v"
proof -
  have "(\<Sum>j<n. (f(i := v)) j) = v + (\<Sum>j\<in>{..<n} - {i}. f j)" "(\<Sum>j<n. f j) = f i + (\<Sum>j\<in>{..<n} - {i}. f j)"
    using assms by (simp_all add: sum.remove [of _ i])
  then show ?thesis by simp
qed

lemma joined_threads_upd:
  assumes "i < n"
  shows "joined_threads n (ps(i := p)) + weight (ps i) = joined_threads n ps + weight p"
proof -
  have "weight ((ps(i := p)) j) = ((\<lambda>j. weight (ps j))(i := weight p)) j" for j
    by simp
  then show ?thesis
    using sum_upd [OF assms, of "\<lambda>j. weight (ps j)" "weight p"] by (simp only: joined_threads_def)
qed

lemma total_frames_remove:
  "i < n \<Longrightarrow> frames s i > 0 \<Longrightarrow> total_frames n (remove_frame i s) + 1 = total_frames n s"
  using sum_upd [of i n "frames s" "frames s i - 1"] by (simp add: total_frames_def remove_frame_def)

lemma goto_fields [simp]:
  "closing (goto i p s) = closing s" "abandoners (goto i p s) = abandoners s" "release_required (goto i p s) = release_required s"
  "frames (goto i p s) = frames s" "closer (goto i p s) = closer s" "released_frames (goto i p s) = released_frames s"
  "pcs (goto i p s) = (pcs s)(i := p)"
  by (simp_all add: goto_def)

lemma remove_frame_fields [simp]:
  "closing (remove_frame i s) = closing s" "abandoners (remove_frame i s) = abandoners s"
  "release_required (remove_frame i s) = release_required s" "closer (remove_frame i s) = closer s"
  "released_frames (remove_frame i s) = released_frames s" "pcs (remove_frame i s) = pcs s"
  "frames (remove_frame i s) = (frames s)(i := frames s i - 1)"
  by (simp_all add: remove_frame_def)

lemma abandon_next_pcs: "abandon_next i s = Some s' \<Longrightarrow> pcs s' = (pcs s)(i := pcs s' i)"
  by (auto simp: abandon_next_def split: abandon_pc.splits if_splits)

lemma abandon_next_closer:
  assumes "abandon_next i s = Some s'"
  shows "closing s' = closing s" "closer s' = closer s" "release_required s' = release_required s"
  using assms by (auto simp: abandon_next_def split: abandon_pc.splits if_splits)

lemmas pc_kinds = joined_def committed_def owns_frame_def

lemma closing_inv_abandon:
  assumes inv: "closing_inv n s" and i: "i < n" and step: "abandon_next i s = Some s'"
  shows "closing_inv n s'"
proof -
  have owned: "owns_frame (pcs s i) \<Longrightarrow> frames s i > 0"
    using inv i by (simp add: closing_inv_def)
  have ab: "abandoners s = joined_threads n (pcs s)"
    using inv by (simp add: closing_inv_def)
  have "weight (pcs s i) \<le> abandoners s"
    unfolding ab joined_threads_def using i by (intro member_le_sum) simp_all
  then have "abandoners s' + weight (pcs s i) = abandoners s + weight (pcs s' i)"
    using step by (cases "pcs s i") (auto simp: abandon_next_def weight_def pc_kinds split: if_splits)
  moreover note pcs' = abandon_next_pcs [OF step]
  ultimately have joined: "abandoners s' = joined_threads n (pcs s')"
    using joined_threads_upd [OF i, of "pcs s" "pcs s' i"] by (simp add: ab flip: pcs')
  have released: "count_right n s'"
  proof (cases "pcs s i")
    case Take_off
    then have "\<not> past_drain (closer s)"
      using inv i by (auto simp: closing_inv_def pc_kinds)
    then show ?thesis
      using inv Take_off step by (auto simp: abandon_next_def closing_inv_def count_right_def past_drain_def split: close_pc.splits)
  next
    case Await_release
    then obtain t where "closer s = Seeded t" "s' = goto i Outside (remove_frame i (s\<lparr>released_frames := released_frames s + 1\<rparr>))"
      using step inv by (auto simp: abandon_next_def closing_inv_def split: if_splits)
    then show ?thesis
      using inv total_frames_remove [OF i, of s] owned Await_release
      by (simp add: closing_inv_def count_right_def pc_kinds total_frames_def)
  qed (use inv step in \<open>auto simp: abandon_next_def closing_inv_def count_right_def total_frames_def split: if_splits close_pc.splits\<close>)
  note abandon_next_closer [OF step]
  moreover have "\<forall>j<n. owns_frame (pcs s' j) \<longrightarrow> frames s' j > 0"
    using step inv owned
    by (cases "pcs s i"; auto simp: abandon_next_def closing_inv_def pc_kinds split: if_splits)
  moreover have "\<forall>j<n. \<not> committed (pcs s' j)" if "past_drain (closer s)"
    using step inv that i
    by (cases "pcs s i"; auto simp: abandon_next_def closing_inv_def pc_kinds past_drain_def split: if_splits)
  ultimately show ?thesis
    using inv joined released by (simp add: closing_inv_def)
qed

lemma closing_inv_callback:
  assumes inv: "closing_inv n s" and i: "i < n" and step: "callback_next entering i s = Some s'"
  shows "closing_inv n s'"
proof -
  have outside: "pcs s i = Outside" "pcs s' = pcs s" "closer s' = closer s" "abandoners s' = abandoners s"
      "closing s' = closing s" "release_required s' = release_required s"
    using step by (auto simp: callback_next_def split: if_splits close_pc.splits)
  have "\<forall>j<n. owns_frame (pcs s j) \<longrightarrow> frames s' j > 0"
    using step inv outside(1) by (auto simp: callback_next_def closing_inv_def pc_kinds split: if_splits close_pc.splits)
  moreover have "count_right n s'"
    using step inv total_frames_remove [OF i, of s]
    by (auto simp: callback_next_def closing_inv_def count_right_def total_frames_def split: if_splits close_pc.splits)
  ultimately show ?thesis
    using inv by (simp add: closing_inv_def outside)
qed

lemma closing_inv_close:
  assumes inv: "closing_inv n s" and step: "close_next n s = Some s'"
  shows "closing_inv n s'"
proof (cases "closer s")
  case Drain
  then have "joined_threads n (pcs s) = 0" and s': "s' = s\<lparr>closer := Count 0 0\<rparr>"
    using inv step by (auto simp: close_next_def closing_inv_def split: if_splits)
  then have "\<forall>i<n. \<not> joined (pcs s i)"
    by (auto simp: joined_threads_def weight_def split: if_splits)
  then have "\<forall>i<n. \<not> committed (pcs s i)"
    by (auto simp: pc_kinds)
  then show ?thesis
    using inv Drain by (simp add: closing_inv_def s' count_right_def)
qed (use inv step in \<open>auto simp: close_next_def closing_inv_def count_right_def past_drain_def total_frames_def
    split: if_splits\<close>)

lemma closing_inv_reachable:
  assumes "(closing_step n)\<^sup>*\<^sup>* (open_state fs) s"
  shows "closing_inv n s"
  using assms
proof (induction rule: rtranclp_induct)
  case base
  show ?case
    by (simp add: closing_inv_def open_state_def joined_threads_def weight_def pc_kinds past_drain_def count_right_def)
next
  case (step s s')
  from step(2,3) show ?case
    by cases (auto intro: closing_inv_abandon closing_inv_callback closing_inv_close)
qed

text \<open>(C5) However threads that abandon frames interleave with the close, every frame is on one side of it: once the hook
  is seeded with the count, the count is the number of frames still there plus those released since. The last
  frame released takes the lifetime to zero, and none before it.\<close>

theorem close_counts_each_frame_once:
  assumes "(closing_step n)\<^sup>*\<^sup>* (open_state fs) s" and "closer s = Seeded t"
  shows "t = total_frames n s + released_frames s"
  using closing_inv_reachable [OF assms(1)] assms(2) by (simp add: closing_inv_def count_right_def)

text \<open>Thread 0 commits before the close, thread 1 meets the close between its two checks and waits.\<close>

definition sample_closing :: "close_state option" where
  "sample_closing =
     fold (\<lambda>f s. Option.bind s f)
       ([abandon_next 0, abandon_next 0, abandon_next 0, abandon_next 0, abandon_next 1, abandon_next 1, abandon_next 1,
         close_next 2, abandon_next 0, abandon_next 0, abandon_next 1, abandon_next 1, abandon_next 1] @
        replicate 5 (close_next 2) @ [abandon_next 1])
       (Some (open_state (\<lambda>i. if i < 2 then 2 else 0)))"

lemma run_is_reachable:
  assumes "\<forall>f \<in> set fs. \<forall>s s'. f s = Some s' \<longrightarrow> closing_step n s s'"
    and "fold (\<lambda>f s. Option.bind s f) fs (Some s0) = Some s"
  shows "(closing_step n)\<^sup>*\<^sup>* s0 s"
  using assms
proof (induction fs arbitrary: s0)
  case (Cons f fs)
  have none: "fold (\<lambda>f s. Option.bind s f) gs None = (None :: close_state option)" for gs
    by (induction gs) simp_all
  then obtain s1 where "f s0 = Some s1" "fold (\<lambda>f s. Option.bind s f) fs (Some s1) = Some s"
    using Cons.prems(2) by (cases "f s0") simp_all
  then show ?case
    using Cons.IH [of s1] Cons.prems(1) by (auto intro: converse_rtranclp_into_rtranclp)
qed simp

theorem close_counts_each_frame_once_witness:
  "\<exists>s. sample_closing = Some s \<and> closer s = Seeded 3 \<and> total_frames 2 s = 2 \<and> released_frames s = 1"
proof -
  obtain s where s: "sample_closing = Some s" "closer s = Seeded 3" "released_frames s = 1"
    by (simp add: sample_closing_def abandon_next_def close_next_def open_state_def numeral_eq_Suc)
  have two: "abandon_next 0 s = Some s' \<Longrightarrow> closing_step 2 s s'" "abandon_next 1 s = Some s' \<Longrightarrow> closing_step 2 s s'" for s s'
    by (rule closing_step.abandon [where i = 0] closing_step.abandon [where i = 1]; simp)+
  have "(closing_step 2)\<^sup>*\<^sup>* (open_state (\<lambda>i. if i < 2 then 2 else 0)) s"
    by (rule run_is_reachable [OF _ s(1) [unfolded sample_closing_def]]) (auto intro: two [simplified] closing_step.close)
  from close_counts_each_frame_once [OF this s(2)] have "total_frames 2 s = 2"
    using s(3) by simp
  then show ?thesis
    using s by blast
qed

subsection \<open>The close ends\<close>

fun drain_rank :: "abandon_pc \<Rightarrow> nat" where
  "drain_rank Recheck = 2"
| "drain_rank Take_off = 2"
| "drain_rank Depart = 1"
| "drain_rank Back_off = 1"
| "drain_rank p = 0"

lemma drain_step:
  assumes inv: "closing_inv n s" and drain: "closer s = Drain" and "abandoners s \<noteq> 0"
  shows "\<exists>s'. closing_step n s s' \<and> closer s' = Drain \<and>
    (\<Sum>i<n. drain_rank (pcs s' i)) < (\<Sum>i<n. drain_rank (pcs s i))"
proof -
  have "(\<Sum>i<n. weight (pcs s i)) \<noteq> 0"
    using inv assms(3) by (simp add: closing_inv_def joined_threads_def)
  then have "\<exists>i<n. joined (pcs s i)"
    by (auto simp: weight_def split: if_splits)
  then obtain i where i: "i < n" "joined (pcs s i)"
    by blast
  from i(2) obtain s' where nxt: "abandon_next i s = Some s'"
    by (cases "pcs s i") (simp_all add: abandon_next_def pc_kinds)
  have step: "closer s' = Drain" "pcs s' = (pcs s)(i := pcs s' i)"
    using abandon_next_closer(2) [OF nxt] drain abandon_next_pcs [OF nxt] by simp_all
  have "closing s"
    using inv drain by (simp add: closing_inv_def)
  then have less: "drain_rank (pcs s' i) < drain_rank (pcs s i)"
    using nxt i(2) by (cases "pcs s i") (auto simp: abandon_next_def pc_kinds)
  have "(\<Sum>j<n. drain_rank (pcs s' j)) < (\<Sum>j<n. drain_rank (pcs s j))"
    using i less by (subst step(2), intro sum_strict_mono_ex1) (auto intro!: bexI [of _ i])
  then show ?thesis
    using closing_step.abandon [OF i(1) nxt] step(1) by blast
qed

lemma inv_steps: "(closing_step n)\<^sup>*\<^sup>* s s' \<Longrightarrow> closing_inv n s \<Longrightarrow> closing_inv n s'"
  by (induction rule: rtranclp_induct)
    (auto elim!: closing_step.cases intro: closing_inv_abandon closing_inv_callback closing_inv_close)

lemma drain_ends:
  assumes "closing_inv n s" and "closer s = Drain"
  shows "\<exists>s'. (closing_step n)\<^sup>*\<^sup>* s s' \<and> closer s' = Count 0 0"
  using assms
proof (induction "\<Sum>i<n. drain_rank (pcs s i)" arbitrary: s rule: less_induct)
  case less
  show ?case
  proof (cases "abandoners s = 0")
    case True
    then have "closing_step n s (s\<lparr>closer := Count 0 0\<rparr>)"
      using less.prems by (intro closing_step.close) (simp add: close_next_def)
    then show ?thesis
      by (intro exI [of _ "s\<lparr>closer := Count 0 0\<rparr>"]) auto
  next
    case False
    from drain_step [OF less.prems False] obtain s' where
      s': "closing_step n s s'" "closer s' = Drain" "(\<Sum>i<n. drain_rank (pcs s' i)) < (\<Sum>i<n. drain_rank (pcs s i))"
      by blast
    then show ?thesis
      using less.hyps [OF s'(3) _ s'(2)] inv_steps [of n s s'] less.prems(1)
      by (meson converse_rtranclp_into_rtranclp r_into_rtranclp)
  qed
qed

lemma count_ends:
  assumes "closer s = Count k t" and "k \<le> n"
  shows "\<exists>s' t'. (closing_step n)\<^sup>*\<^sup>* s s' \<and> closer s' = Seeded t'"
  using assms
proof (induction "n - k" arbitrary: s k t)
  case 0
  let ?s1 = "s\<lparr>closer := Counted t\<rparr>"
  let ?s2 = "?s1\<lparr>release_required := True, closer := Seeded t\<rparr>"
  have "closing_step n s ?s1" "closing_step n ?s1 ?s2"
    using 0 by (auto intro!: closing_step.close simp: close_next_def)
  then show ?case
    by (intro exI [of _ ?s2] exI [of _ t]) (auto intro: converse_rtranclp_into_rtranclp)
next
  case (Suc m)
  let ?s1 = "s\<lparr>closer := Count (k + 1) (t + frames s k)\<rparr>"
  have "closing_step n s ?s1"
    using Suc by (intro closing_step.close) (simp add: close_next_def)
  moreover have "\<exists>s' t'. (closing_step n)\<^sup>*\<^sup>* ?s1 s' \<and> closer s' = Seeded t'"
    using Suc(2,4) by (intro Suc(1) [of "k + 1"]) auto
  ultimately show ?case
    by (meson converse_rtranclp_into_rtranclp)
qed

lemma close_ends:
  assumes "closing_inv n s" and "closing s"
  shows "\<exists>s' t. (closing_step n)\<^sup>*\<^sup>* s s' \<and> closer s' = Seeded t"
proof (cases "closer s")
  case Drain
  then show ?thesis
    using drain_ends [OF assms(1)] count_ends [of _ 0 0 n] by (meson le0 rtranclp_trans)
next
  case (Counted t)
  then have "closing_step n s (s\<lparr>release_required := True, closer := Seeded t\<rparr>)"
    by (intro closing_step.close) (simp add: close_next_def)
  then show ?thesis
    by (intro exI [of _ "s\<lparr>release_required := True, closer := Seeded t\<rparr>"] exI [of _ t]) auto
next
  case (Count k t)
  then show ?thesis
    using count_ends [of s k t n] assms(1) by (simp add: closing_inv_def count_right_def)
qed (use assms in \<open>auto simp: closing_inv_def\<close>)

text \<open>After the seeding a thread that is on its way to abandon a frame gets to release it.\<close>

fun release_rank :: "abandon_pc \<Rightarrow> nat" where
  "release_rank Join = 4"
| "release_rank Recheck = 3"
| "release_rank Back_off = 2"
| "release_rank Check_closing = 1"
| "release_rank p = 0"

lemma reaches_release:
  assumes "closing_inv n s" and "closer s = Seeded t" and "i < n" and "owns_frame (pcs s i)"
  shows "\<exists>s'. (closing_step n)\<^sup>*\<^sup>* s s' \<and> closer s' = Seeded t \<and> frames s' = frames s \<and> pcs s' i = Await_release"
  using assms
proof (induction "release_rank (pcs s i)" arbitrary: s rule: less_induct)
  case less
  have not_committed: "\<not> committed (pcs s i)" and closing: "closing s"
    using less.prems by (auto simp: closing_inv_def past_drain_def)
  show ?case
  proof (cases "pcs s i = Await_release")
    case False
    then obtain s' where s': "abandon_next i s = Some s'"
      using less.prems(4) not_committed by (cases "pcs s i") (simp_all add: abandon_next_def pc_kinds)
    have same: "closer s' = Seeded t" "frames s' = frames s"
      using abandon_next_closer(2) [OF s'] less.prems(2,4) s' False not_committed
      by (auto simp: abandon_next_def pc_kinds split: abandon_pc.splits if_splits)
    have rank: "release_rank (pcs s' i) < release_rank (pcs s i)" and owns: "owns_frame (pcs s' i)"
      using less.prems(4) s' False not_committed closing
      by (auto simp: abandon_next_def pc_kinds split: abandon_pc.splits)
    have step: "closing_step n s s'"
      by (rule closing_step.abandon [OF less.prems(3) s'])
    show ?thesis
      using less.hyps [OF rank _ same(1) less.prems(3) owns] closing_inv_abandon [OF less.prems(1,3) s'] same(2)
        converse_rtranclp_into_rtranclp [of "closing_step n", OF step] by metis
  qed (use less.prems in blast)
qed

lemma release_one:
  assumes inv: "closing_inv n s" and seeded: "closer s = Seeded t" and i: "i < n" "frames s i > 0"
  shows "\<exists>s'. (closing_step n)\<^sup>*\<^sup>* s s' \<and> closer s' = Seeded t \<and> total_frames n s' < total_frames n s"
proof (cases "owns_frame (pcs s i)")
  case True
  from reaches_release [OF inv seeded i(1) True] obtain s1 where
    s1: "(closing_step n)\<^sup>*\<^sup>* s s1" "closer s1 = Seeded t" "frames s1 = frames s" "pcs s1 i = Await_release"
    by blast
  let ?s2 = "goto i Outside (remove_frame i (s1\<lparr>released_frames := released_frames s1 + 1\<rparr>))"
  have "release_required s1"
    using inv_steps [OF s1(1) inv] s1(2) by (simp add: closing_inv_def)
  then have "closing_step n s1 ?s2"
    using s1(4) i(1) by (intro closing_step.abandon [of i]) (simp_all add: abandon_next_def)
  moreover have "total_frames n ?s2 < total_frames n s"
    using total_frames_remove [OF i] s1(3) by (simp add: total_frames_def)
  ultimately show ?thesis
    using s1(1,2) by (intro exI [of _ ?s2]) auto
next
  case False
  then have "pcs s i = Outside"
    using inv seeded i(1) by (cases "pcs s i") (auto simp: closing_inv_def past_drain_def pc_kinds)
  then have "closing_step n s (remove_frame i (s\<lparr>released_frames := released_frames s + 1\<rparr>))"
    using seeded i by (intro closing_step.callback [of i n False]) (simp_all add: callback_next_def)
  moreover have "total_frames n (remove_frame i (s\<lparr>released_frames := released_frames s + 1\<rparr>)) < total_frames n s"
    using total_frames_remove [OF i] by (simp add: total_frames_def)
  ultimately show ?thesis
    using seeded by (intro exI [of _ "remove_frame i (s\<lparr>released_frames := released_frames s + 1\<rparr>)"]) auto
qed

lemma release_all:
  assumes "closing_inv n s" and "closer s = Seeded t"
  shows "\<exists>s'. (closing_step n)\<^sup>*\<^sup>* s s' \<and> closer s' = Seeded t \<and> total_frames n s' = 0"
  using assms
proof (induction "total_frames n s" arbitrary: s rule: less_induct)
  case less
  show ?case
  proof (cases "total_frames n s = 0")
    case False
    then obtain i where "i < n" "frames s i > 0"
      by (auto simp: total_frames_def)
    from release_one [OF less.prems this] obtain s' where
      s': "(closing_step n)\<^sup>*\<^sup>* s s'" "closer s' = Seeded t" "total_frames n s' < total_frames n s"
      by blast
    from less.hyps [OF s'(3) inv_steps [OF s'(1) less.prems(1)] s'(2)] s'(1) show ?thesis
      by (meson rtranclp_trans)
  qed (use less.prems in blast)
qed

text \<open>(C35) A close that has begun is never stuck, and neither are the threads that wait for it: from every state that can
  arise there is a way on to the seeding, and from there to the release of exactly the counted frames.\<close>

theorem close_completes:
  assumes "(closing_step n)\<^sup>*\<^sup>* (open_state fs) s" and "closing s"
  shows "\<exists>s' t. (closing_step n)\<^sup>*\<^sup>* s s' \<and> closer s' = Seeded t \<and> total_frames n s' = 0 \<and> released_frames s' = t"
proof -
  have inv: "closing_inv n s"
    by (rule closing_inv_reachable [OF assms(1)])
  from close_ends [OF inv assms(2)] obtain s1 t where s1: "(closing_step n)\<^sup>*\<^sup>* s s1" "closer s1 = Seeded t"
    by blast
  from release_all [OF inv_steps [OF s1(1) inv] s1(2)] obtain s2 where
    s2: "(closing_step n)\<^sup>*\<^sup>* s1 s2" "closer s2 = Seeded t" "total_frames n s2 = 0"
    by blast
  have "(closing_step n)\<^sup>*\<^sup>* s s2"
    using s1(1) s2(1) by simp
  moreover have "released_frames s2 = t"
    using inv_steps [OF calculation inv] s2(2,3) by (simp add: closing_inv_def count_right_def)
  ultimately show ?thesis
    using s2 by blast
qed

theorem close_completes_witness:
  "\<exists>s' t. (closing_step 2)\<^sup>*\<^sup>* (the (close_next 2 (open_state (\<lambda>i. 1)))) s' \<and> closer s' = Seeded t \<and>
     total_frames 2 s' = 0 \<and> released_frames s' = t"
proof -
  let ?s = "the (close_next 2 (open_state (\<lambda>i. 1)))"
  have "close_next 2 (open_state (\<lambda>i. 1)) = Some ?s" "closing ?s"
    by (simp_all add: close_next_def open_state_def)
  then show ?thesis
    by (intro close_completes [of 2 "\<lambda>i. 1"] r_into_rtranclp closing_step.close)
qed

end
