(* ===== verification/Exec_Memory.thy ===== *)
theory Exec_Memory
  imports C_Strings
begin

text \<open>
  The check of the arguments of \<^verbatim>\<open>exec\<close> before PEAK touches them, \<^verbatim>\<open>src/exec_memory.c\<close>: bytes of the caller are read
  through the kernel, with \<^verbatim>\<open>process_vm_readv\<close> and, when that is refused, by looking the range up in
  \<^verbatim>\<open>/proc/self/maps\<close> and reading \<^verbatim>\<open>/proc/self/mem\<close>.

  Addresses and lengths are numbers with the comparisons against \<open>UINTPTR_MAX\<close> as in the source, bytes are
  \<open>8 word\<close>. What the kernel answers is \<open>exec_kernel\<close>; the reads of \<^verbatim>\<open>/proc/self/maps\<close> are a list, and behind its end
  the file is at its end. A result comes with the \<^verbatim>\<open>errno\<close> it sets.
\<close>

datatype preflight = PREFLIGHT_VALID | PREFLIGHT_INVALID | PREFLIGHT_UNKNOWN

datatype exec_errno = EFAULT | ENAMETOOLONG | E2BIG

datatype maps_read = Chunk string | Interrupted | Failed

datatype mem_read = Bytes "8 word list" | Io_error | Other_error

record exec_kernel =
  process_vm_readv :: "nat \<Rightarrow> nat \<Rightarrow> 8 word list option"
  maps_opens :: bool
  maps_reads :: "maps_read list"
  mem_opens :: bool
  mem_pread :: "nat \<Rightarrow> nat \<Rightarrow> mem_read"

definition UINTPTR_MAX :: nat where
  "UINTPTR_MAX = 2 ^ 64 - 1"

definition LINE_SIZE :: nat where
  "LINE_SIZE = 1024"

definition BUFFER_SIZE :: nat where
  "BUFFER_SIZE = 256"

definition PAGE_SIZE :: nat where
  "PAGE_SIZE = 4096"

definition PATH_MAX :: nat where
  "PATH_MAX = 4096"

definition MAX_ENV_ENTRIES :: nat where
  "MAX_ENV_ENTRIES = 32768"

definition USER_STRING_MAX :: nat where
  "USER_STRING_MAX = 1024 * 1024"

subsection \<open>The lines of the map\<close>

definition hex_value :: "char \<Rightarrow> nat option" where
  "hex_value ch =
     (let c = of_char ch :: nat in
      if 48 \<le> c \<and> c \<le> 57 then Some (c - 48)
      else if 97 \<le> c \<and> c \<le> 102 then Some (c - 97 + 10)
      else if 65 \<le> c \<and> c \<le> 70 then Some (c - 65 + 10)
      else None)"

fun hex_loop :: "nat \<Rightarrow> nat \<Rightarrow> string \<Rightarrow> (nat \<times> nat \<times> string) option" where
  "hex_loop v digits [] = Some (v, digits, [])"
| "hex_loop v digits (ch # cursor) =
     (case hex_value ch of
        None \<Rightarrow> Some (v, digits, ch # cursor)
      | Some digit \<Rightarrow>
          if v > (UINTPTR_MAX - digit) div 16 then None else hex_loop (v * 16 + digit) (digits + 1) cursor)"

definition parse_maps_hex :: "string \<Rightarrow> (nat \<times> string) option" where
  "parse_maps_hex cursor =
     (case hex_loop 0 0 cursor of
        None \<Rightarrow> None
      | Some (v, digits, rest) \<Rightarrow> if digits = 0 then None else Some (v, rest))"

text \<open>Start, end and whether the mapping is readable.\<close>

definition parse_maps_line :: "string \<Rightarrow> (nat \<times> nat \<times> bool) option" where
  "parse_maps_line line =
     (case parse_maps_hex line of
        None \<Rightarrow> None
      | Some (start, cursor) \<Rightarrow>
          (case cursor of
             [] \<Rightarrow> None
           | c1 # cursor1 \<Rightarrow>
               if c1 \<noteq> CHR ''-'' then None
               else case parse_maps_hex cursor1 of
                 None \<Rightarrow> None
               | Some (stop, cursor2) \<Rightarrow>
                   (case cursor2 of
                      [] \<Rightarrow> None
                    | c2 # cursor3 \<Rightarrow>
                        if c2 \<noteq> CHR '' '' then None
                        else case cursor3 of
                          [] \<Rightarrow> None
                        | c3 # _ \<Rightarrow> if stop \<le> start then None else Some (start, stop, c3 = CHR ''r''))))"

record maps_scan =
  covered :: nat
  line_buffer :: string
  skipping_long_line :: bool

text \<open>A complete line: the scan goes on, or has its result.\<close>

definition scan_line :: "nat \<Rightarrow> maps_scan \<Rightarrow> preflight + maps_scan" where
  "scan_line stop s =
     (case parse_maps_line (line_buffer s) of
        Some (map_start, map_end, readable) \<Rightarrow>
          if map_end > covered s then
            if map_start > covered s \<or> \<not> readable then Inl PREFLIGHT_INVALID
            else
              let c = (if map_end < stop then map_end else stop) in
              if c \<ge> stop then Inl PREFLIGHT_VALID else Inr (s\<lparr>covered := c, line_buffer := []\<rparr>)
          else Inr (s\<lparr>line_buffer := []\<rparr>)
      | None \<Rightarrow> Inr (s\<lparr>line_buffer := []\<rparr>))"

definition scan_char :: "nat \<Rightarrow> char \<Rightarrow> maps_scan \<Rightarrow> preflight + maps_scan" where
  "scan_char stop ch s =
     (if skipping_long_line s then
        Inr (if ch = NEWLINE then s\<lparr>skipping_long_line := False, line_buffer := []\<rparr> else s)
      else if ch \<noteq> NEWLINE \<and> length (line_buffer s) + 1 < LINE_SIZE then
        Inr (s\<lparr>line_buffer := line_buffer s @ [ch]\<rparr>)
      else if ch \<noteq> NEWLINE then Inr (s\<lparr>skipping_long_line := True, line_buffer := []\<rparr>)
      else scan_line stop s)"

fun scan_chars :: "nat \<Rightarrow> string \<Rightarrow> maps_scan \<Rightarrow> preflight + maps_scan" where
  "scan_chars stop [] s = Inr s"
| "scan_chars stop (ch # chs) s =
     (case scan_char stop ch s of Inl r \<Rightarrow> Inl r | Inr s' \<Rightarrow> scan_chars stop chs s')"

fun scan_reads :: "nat \<Rightarrow> maps_read list \<Rightarrow> maps_scan \<Rightarrow> preflight" where
  "scan_reads stop [] s = PREFLIGHT_INVALID"
| "scan_reads stop (Interrupted # rs) s = scan_reads stop rs s"
| "scan_reads stop (Failed # rs) s = PREFLIGHT_INVALID"
| "scan_reads stop (Chunk t # rs) s =
     (if t = [] then PREFLIGHT_INVALID
      else case scan_chars stop t s of Inl r \<Rightarrow> r | Inr s' \<Rightarrow> scan_reads stop rs s')"

definition maps_range_readable :: "exec_kernel \<Rightarrow> nat \<Rightarrow> nat \<Rightarrow> preflight" where
  "maps_range_readable k remote len =
     (if len = 0 then PREFLIGHT_VALID
      else if remote = 0 \<or> remote > UINTPTR_MAX - len then PREFLIGHT_INVALID
      else if \<not> maps_opens k then PREFLIGHT_UNKNOWN
      else scan_reads (remote + len) (maps_reads k) \<lparr>covered = remote, line_buffer = [], skipping_long_line = False\<rparr>)"

subsection \<open>Reading the caller's memory\<close>

text \<open>The bytes are the content of the local buffer, where the result is valid.\<close>

definition user_read_bytes :: "exec_kernel \<Rightarrow> nat \<Rightarrow> nat \<Rightarrow> preflight \<times> exec_errno option \<times> 8 word list" where
  "user_read_bytes k remote len =
     (if len = 0 then (PREFLIGHT_VALID, None, [])
      else if remote = 0 then (PREFLIGHT_INVALID, Some EFAULT, [])
      else case process_vm_readv k remote len of
        Some bs \<Rightarrow>
          if length bs = len then (PREFLIGHT_VALID, None, bs) else (PREFLIGHT_INVALID, Some EFAULT, [])
      | None \<Rightarrow>
          (case maps_range_readable k remote len of
             PREFLIGHT_INVALID \<Rightarrow> (PREFLIGHT_INVALID, Some EFAULT, [])
           | PREFLIGHT_UNKNOWN \<Rightarrow> (PREFLIGHT_UNKNOWN, None, [])
           | PREFLIGHT_VALID \<Rightarrow>
               if \<not> mem_opens k then (PREFLIGHT_UNKNOWN, None, [])
               else case mem_pread k remote len of
                 Bytes bs \<Rightarrow>
                   if length bs = len then (PREFLIGHT_VALID, None, bs) else (PREFLIGHT_INVALID, Some EFAULT, [])
               | Io_error \<Rightarrow> (PREFLIGHT_INVALID, Some EFAULT, [])
               | Other_error \<Rightarrow> (PREFLIGHT_UNKNOWN, None, [])))"

definition chunk_size :: "nat \<Rightarrow> nat \<Rightarrow> nat \<Rightarrow> nat" where
  "chunk_size address max_length offset =
     (let page_remaining = PAGE_SIZE - address mod PAGE_SIZE;
          c1 = (if BUFFER_SIZE > max_length - offset then max_length - offset else BUFFER_SIZE)
      in if c1 > page_remaining then page_remaining else c1)"

lemma chunk_size_pos: "offset < max_length \<Longrightarrow> 0 < chunk_size address max_length offset"
  by (simp add: chunk_size_def BUFFER_SIZE_def PAGE_SIZE_def Let_def)

lemma chunk_size_le: "chunk_size address max_length offset \<le> max_length - offset"
  by (simp add: chunk_size_def Let_def)

function cstr_loop :: "exec_kernel \<Rightarrow> nat \<Rightarrow> nat \<Rightarrow> nat \<Rightarrow> preflight \<times> exec_errno option" where
  "cstr_loop k base max_length offset =
     (if offset \<ge> max_length then (PREFLIGHT_INVALID, Some ENAMETOOLONG)
      else if base > UINTPTR_MAX - offset then (PREFLIGHT_INVALID, Some EFAULT)
      else
        let chunk = chunk_size (base + offset) max_length offset in
        case user_read_bytes k (base + offset) chunk of
          (PREFLIGHT_VALID, _, buffer) \<Rightarrow>
            if 0 \<in> set buffer then (PREFLIGHT_VALID, None) else cstr_loop k base max_length (offset + chunk)
        | (r, e, _) \<Rightarrow> (r, e))"
  by pat_completeness auto

termination
  by (relation "measure (\<lambda>(k, base, max_length, offset). max_length - offset)")
    (use chunk_size_pos chunk_size_le in \<open>auto simp: not_le intro!: diff_less_mono2\<close>)

declare cstr_loop.simps [simp del]

definition user_cstr_readable :: "exec_kernel \<Rightarrow> nat \<Rightarrow> nat \<Rightarrow> preflight \<times> exec_errno option" where
  "user_cstr_readable k v max_length =
     (if v = 0 then (PREFLIGHT_INVALID, Some EFAULT) else cstr_loop k v max_length 0)"

text \<open>A pointer in memory, least significant byte first.\<close>

definition pointer_of :: "8 word list \<Rightarrow> nat" where
  "pointer_of bs = foldr (\<lambda>b v. v * 256 + unat b) bs 0"

function array_loop :: "exec_kernel \<Rightarrow> nat \<Rightarrow> nat \<Rightarrow> nat \<Rightarrow> nat \<Rightarrow> preflight \<times> exec_errno option" where
  "array_loop k base max_entries max_string_length i =
     (if i \<ge> max_entries then (PREFLIGHT_INVALID, Some E2BIG)
      else if i > (UINTPTR_MAX - base) div 8 then (PREFLIGHT_INVALID, Some EFAULT)
      else case user_read_bytes k (base + i * 8) 8 of
        (PREFLIGHT_VALID, _, buffer) \<Rightarrow>
          if pointer_of buffer = 0 then (PREFLIGHT_VALID, None)
          else (case user_cstr_readable k (pointer_of buffer) max_string_length of
            (PREFLIGHT_VALID, _) \<Rightarrow> array_loop k base max_entries max_string_length (i + 1)
          | (r, e) \<Rightarrow> (r, e))
      | (r, e, _) \<Rightarrow> (r, e))"
  by pat_completeness auto

termination
  by (relation "measure (\<lambda>(k, base, max_entries, m, i). max_entries - i)") auto

declare array_loop.simps [simp del]

definition user_cstr_array_readable :: "exec_kernel \<Rightarrow> nat \<Rightarrow> nat \<Rightarrow> nat \<Rightarrow> preflight \<times> exec_errno option" where
  "user_cstr_array_readable k values max_entries max_string_length =
     (if values = 0 then (PREFLIGHT_VALID, None) else array_loop k values max_entries max_string_length 0)"

definition argv_envp_readable :: "exec_kernel \<Rightarrow> nat \<Rightarrow> nat \<Rightarrow> preflight \<times> exec_errno option" where
  "argv_envp_readable k argv envp =
     (case user_cstr_array_readable k argv MAX_ENV_ENTRIES USER_STRING_MAX of
        (PREFLIGHT_VALID, _) \<Rightarrow> user_cstr_array_readable k envp MAX_ENV_ENTRIES USER_STRING_MAX
      | (r, e) \<Rightarrow> (r, e))"

definition args_readable :: "exec_kernel \<Rightarrow> nat \<Rightarrow> nat \<Rightarrow> nat \<Rightarrow> preflight \<times> exec_errno option" where
  "args_readable k path argv envp =
     (case user_cstr_readable k path PATH_MAX of
        (PREFLIGHT_VALID, _) \<Rightarrow> argv_envp_readable k argv envp
      | (r, e) \<Rightarrow> (r, e))"

end
