(* ===== verification/Exec_Preflight.thy ===== *)
theory Exec_Preflight
  imports Exec_Memory
begin

text \<open>
  What \<^verbatim>\<open>src/exec_memory.c\<close> establishes: the scan of \<^verbatim>\<open>/proc/self/maps\<close> decides exactly whether a range is readable,
  however the kernel cuts the text into reads, and a valid result of the whole check means that the path and
  the two vectors are terminated, readable strings within the limits.
\<close>

subsection \<open>Lines as the kernel prints them\<close>

definition hex_char :: "nat \<Rightarrow> char" where
  "hex_char d = (if d < 10 then char_of (48 + d) else char_of (97 + (d - 10)))"

fun hex_digits :: "nat \<Rightarrow> string" where
  "hex_digits n = (if n < 16 then [hex_char n] else hex_digits (n div 16) @ [hex_char (n mod 16)])"

declare hex_digits.simps [simp del]

text \<open>\<^verbatim>\<open>%08lx\<close> pads with zeros.\<close>

record region =
  region_start :: nat
  region_end :: nat
  region_readable :: bool
  start_zeros :: nat
  end_zeros :: nat
  region_rest :: string

definition maps_line :: "region \<Rightarrow> string" where
  "maps_line r =
     replicate (start_zeros r) CHR ''0'' @ hex_digits (region_start r) @ CHR ''-'' #
     replicate (end_zeros r) CHR ''0'' @ hex_digits (region_end r) @ CHR '' '' #
     (if region_readable r then CHR ''r'' else CHR ''-'') # region_rest r"

definition maps_text :: "region list \<Rightarrow> string" where
  "maps_text rs = concat (map (\<lambda>r. maps_line r @ [NEWLINE]) rs)"

text \<open>Mappings do not overlap and are listed by address; a line fits the buffer.\<close>

fun ascending :: "nat \<Rightarrow> region list \<Rightarrow> bool" where
  "ascending low [] = True"
| "ascending low (r # rs) \<longleftrightarrow> low \<le> region_start r \<and> region_start r < region_end r \<and> ascending (region_end r) rs"

definition printable :: "region \<Rightarrow> bool" where
  "printable r \<longleftrightarrow> region_end r \<le> UINTPTR_MAX \<and> NEWLINE \<notin> set (region_rest r) \<and> length (maps_line r) < LINE_SIZE"

definition readable_at :: "region list \<Rightarrow> nat \<Rightarrow> bool" where
  "readable_at rs a \<longleftrightarrow> (\<exists>r \<in> set rs. region_readable r \<and> region_start r \<le> a \<and> a < region_end r)"

definition text_read :: "maps_read list \<Rightarrow> string" where
  "text_read rs = concat (map (\<lambda>r. case r of Chunk t \<Rightarrow> t | _ \<Rightarrow> []) rs)"

definition benign_reads :: "maps_read list \<Rightarrow> bool" where
  "benign_reads rs \<longleftrightarrow> Failed \<notin> set rs \<and> Chunk [] \<notin> set rs"

subsection \<open>Numbers\<close>

lemma hex_value_hex_char: "d < 16 \<Longrightarrow> hex_value (hex_char d) = Some d"
  by (auto simp: hex_value_def hex_char_def Let_def)

lemma hex_value_zero [simp]: "hex_value CHR ''0'' = Some 0"
  by (simp add: hex_value_def)

lemma hex_loop_stop: "hex_value c = None \<Longrightarrow> hex_loop v d (c # rest) = Some (v, d, c # rest)"
  by simp

lemma hex_loop_zeros: "hex_loop 0 d (replicate z CHR ''0'' @ rest) = hex_loop 0 (d + z) rest"
  by (induction z arbitrary: d) simp_all

lemma hex_loop_digits:
  assumes "v * 16 ^ length (hex_digits n) + n \<le> UINTPTR_MAX"
  shows "hex_loop v d (hex_digits n @ rest) = hex_loop (v * 16 ^ length (hex_digits n) + n) (d + length (hex_digits n)) rest"
  using assms
proof (induction n arbitrary: rest rule: hex_digits.induct)
  case (1 n)
  have step: "hex_loop u e (hex_char x # rest) = hex_loop (u * 16 + x) (e + 1) rest"
    if "x < 16" "u * 16 + x \<le> UINTPTR_MAX" for u e x rest
  proof -
    have "u \<le> (UINTPTR_MAX - x) div 16"
      using that(2) by (simp add: less_eq_div_iff_mult_less_eq)
    then show ?thesis
      using that(1) by (simp add: hex_value_hex_char)
  qed
  show ?case
  proof (cases "n < 16")
    case True
    then show ?thesis
      using step [of n v d rest] 1(2) by (simp add: hex_digits.simps [of n])
  next
    case False
    let ?L = "length (hex_digits (n div 16))"
    have digits: "hex_digits n = hex_digits (n div 16) @ [hex_char (n mod 16)]"
      using False by (subst hex_digits.simps) simp
    have total: "(v * 16 ^ ?L + n div 16) * 16 + n mod 16 = v * 16 ^ length (hex_digits n) + n"
      by (simp add: digits algebra_simps)
    have "v * 16 ^ ?L + n div 16 \<le> (v * 16 ^ ?L + n div 16) * 16 + n mod 16"
      by simp
    also have "\<dots> \<le> UINTPTR_MAX"
      unfolding total by (rule 1(2))
    finally show ?thesis
      using 1(1) [OF False, of "hex_char (n mod 16) # rest"] step [of "n mod 16" "v * 16 ^ ?L + n div 16"] 1(2)
      by (simp add: digits total) (simp add: algebra_simps)
  qed
qed

lemma hex_digits_nonempty [simp]: "hex_digits n \<noteq> []"
  by (subst hex_digits.simps) simp

lemma parse_maps_hex_print:
  assumes "n \<le> UINTPTR_MAX" and "hex_value c = None"
  shows "parse_maps_hex (replicate z CHR ''0'' @ hex_digits n @ c # rest) = Some (n, c # rest)"
  using hex_loop_digits [of 0 n z "c # rest"] assms
  by (simp add: parse_maps_hex_def hex_loop_zeros hex_loop_stop)

lemma parse_maps_line_print:
  assumes "printable r" and "region_start r < region_end r"
  shows "parse_maps_line (maps_line r) = Some (region_start r, region_end r, region_readable r)"
proof -
  have "hex_value CHR ''-'' = None" "hex_value CHR '' '' = None"
    by (simp_all add: hex_value_def)
  then show ?thesis
    using assms
    by (auto simp: parse_maps_line_def maps_line_def printable_def parse_maps_hex_print)
qed

subsection \<open>The scan\<close>

lemma scan_chars_append:
  "scan_chars stop (t @ u) s = (case scan_chars stop t s of Inl r \<Rightarrow> Inl r | Inr s' \<Rightarrow> scan_chars stop u s')"
  by (induction t arbitrary: s) (auto split: sum.splits)

text \<open>The cut of the text into reads does not matter.\<close>

lemma scan_reads_text:
  assumes "benign_reads rs"
  shows "scan_reads stop rs s = (case scan_chars stop (text_read rs) s of Inl r \<Rightarrow> r | Inr _ \<Rightarrow> PREFLIGHT_INVALID)"
  using assms
proof (induction rs arbitrary: s)
  case Nil
  then show ?case by (simp add: text_read_def)
next
  case (Cons r rs)
  then show ?case
    by (cases r) (auto simp: benign_reads_def text_read_def scan_chars_append split: sum.splits)
qed

definition at_line :: "nat \<Rightarrow> string \<Rightarrow> maps_scan" where
  "at_line c t = \<lparr>covered = c, line_buffer = t, skipping_long_line = False\<rparr>"

lemma scan_chars_collect:
  assumes "NEWLINE \<notin> set t" and "length u + length t < LINE_SIZE"
  shows "scan_chars stop (t @ rest) (at_line c u) = scan_chars stop rest (at_line c (u @ t))"
  using assms by (induction t arbitrary: u) (auto simp: scan_char_def at_line_def)

lemma newline_not_hex: "hex_value NEWLINE = None"
  by (simp add: hex_value_def NEWLINE_def)

lemma newline_not_digit: "NEWLINE \<notin> set (hex_digits n)"
proof (induction n rule: hex_digits.induct)
  case (1 n)
  have "NEWLINE \<noteq> hex_char x" if "x < 16" for x
    using hex_value_hex_char [OF that] newline_not_hex by auto
  then show ?case
    using 1 by (subst hex_digits.simps) auto
qed

lemma newline_not_in_line: "printable r \<Longrightarrow> NEWLINE \<notin> set (maps_line r)"
  using newline_not_digit [unfolded NEWLINE_def] by (auto simp: maps_line_def printable_def NEWLINE_def)

lemma scan_region:
  assumes "printable r" and "region_start r < region_end r"
  shows "scan_chars stop (maps_line r @ NEWLINE # rest) (at_line c []) =
    (if region_end r \<le> c then scan_chars stop rest (at_line c [])
     else if region_start r > c \<or> \<not> region_readable r then Inl PREFLIGHT_INVALID
     else if region_end r \<ge> stop then Inl PREFLIGHT_VALID
     else scan_chars stop rest (at_line (region_end r) []))"
proof -
  have "scan_chars stop (maps_line r @ NEWLINE # rest) (at_line c []) =
      scan_chars stop (NEWLINE # rest) (at_line c (maps_line r))"
    using scan_chars_collect [of "maps_line r" "[]" stop "NEWLINE # rest" c] newline_not_in_line [OF assms(1)] assms(1)
    by (simp add: printable_def)
  then show ?thesis
    by (auto simp: scan_char_def at_line_def scan_line_def parse_maps_line_print [OF assms] Let_def)
qed

lemma readable_at_above:
  assumes "ascending low rs" and "a < low"
  shows "\<not> readable_at rs a"
  using assms
proof (induction rs arbitrary: low)
  case (Cons r rs)
  then show ?case
    using Cons.IH [of "region_end r"] by (auto simp: readable_at_def)
qed (simp add: readable_at_def)

lemma readable_at_Cons:
  "readable_at (r # rs) a \<longleftrightarrow> region_readable r \<and> region_start r \<le> a \<and> a < region_end r \<or> readable_at rs a"
  by (auto simp: readable_at_def)

lemma scan_regions:
  assumes "ascending low rs" and "list_all printable rs" and "c < stop"
  shows "(case scan_chars stop (maps_text rs) (at_line c []) of Inl r \<Rightarrow> r | Inr _ \<Rightarrow> PREFLIGHT_INVALID) =
    (if \<forall>a. c \<le> a \<and> a < stop \<longrightarrow> readable_at rs a then PREFLIGHT_VALID else PREFLIGHT_INVALID)"
  using assms
proof (induction rs arbitrary: low c)
  case Nil
  then show ?case
    by (auto simp: maps_text_def readable_at_def)
next
  case (Cons r rs)
  have r: "printable r" "region_start r < region_end r" and rs: "ascending (region_end r) rs" "list_all printable rs"
    using Cons.prems by simp_all
  have none: "\<not> readable_at rs a" if "a < region_end r" for a
    by (rule readable_at_above [OF rs(1) that])
  have shape: "maps_text (r # rs) = maps_line r @ NEWLINE # maps_text rs"
    by (simp add: maps_text_def)
  consider "region_end r \<le> c" | "c < region_end r" "region_start r > c \<or> \<not> region_readable r"
    | "c < region_end r" "region_start r \<le> c" "region_readable r"
    by linarith
  then show ?case
  proof cases
    case 1
    then have "readable_at (r # rs) a \<longleftrightarrow> readable_at rs a" if "c \<le> a" for a
      using that by (auto simp: readable_at_Cons)
    then show ?thesis
      using 1 Cons.IH [OF rs Cons.prems(3)] by (auto simp: shape scan_region [OF r])
  next
    case 2
    then have "\<not> readable_at (r # rs) c"
      using none [of c] by (auto simp: readable_at_Cons)
    then show ?thesis
      using 2 Cons.prems(3) by (auto simp: shape scan_region [OF r])
  next
    case 3
    show ?thesis
    proof (cases "region_end r \<ge> stop")
      case True
      then have "\<forall>a. c \<le> a \<and> a < stop \<longrightarrow> readable_at (r # rs) a"
        using 3 by (auto simp: readable_at_Cons)
      then show ?thesis
        using 3 True by (simp add: shape scan_region [OF r])
    next
      case False
      have "(\<forall>a. c \<le> a \<and> a < stop \<longrightarrow> readable_at (r # rs) a) \<longleftrightarrow>
          (\<forall>a. region_end r \<le> a \<and> a < stop \<longrightarrow> readable_at rs a)"
      proof (intro iffI allI impI)
        fix a assume "\<forall>a. c \<le> a \<and> a < stop \<longrightarrow> readable_at (r # rs) a" "region_end r \<le> a \<and> a < stop"
        then show "readable_at rs a"
          using 3 by (auto simp: readable_at_Cons dest!: spec [of _ a])
      next
        fix a assume "\<forall>a. region_end r \<le> a \<and> a < stop \<longrightarrow> readable_at rs a" "c \<le> a \<and> a < stop"
        then show "readable_at (r # rs) a"
          using 3 by (cases "a < region_end r") (simp_all add: readable_at_Cons)
      qed
      then show ?thesis
        using 3 False Cons.IH [OF rs, of "region_end r"] by (simp add: shape scan_region [OF r])
    qed
  qed
qed

text \<open>(C28) The scan of the mappings decides readability: for the text the kernel prints of an ascending list of mappings,
  whose lines fit the buffer, cut into reads anyhow and interrupted anyhow, a nonempty range is reported valid
  exactly when every byte of it lies in a readable mapping, and invalid otherwise.\<close>

theorem maps_scan_decides:
  assumes "maps_opens k" and "benign_reads (maps_reads k)" and "text_read (maps_reads k) = maps_text rs"
    and "ascending 0 rs" and "list_all printable rs"
    and "0 < len" and "0 < remote" and "remote \<le> UINTPTR_MAX - len"
  shows "maps_range_readable k remote len =
    (if \<forall>a. remote \<le> a \<and> a < remote + len \<longrightarrow> readable_at rs a then PREFLIGHT_VALID else PREFLIGHT_INVALID)"
  using scan_regions [OF assms(4,5), of remote "remote + len"] scan_reads_text [OF assms(2)] assms
  by (simp add: maps_range_readable_def at_line_def)

definition sample_region :: "nat \<Rightarrow> nat \<Rightarrow> bool \<Rightarrow> region" where
  "sample_region a b readable =
     \<lparr>region_start = a, region_end = b, region_readable = readable, start_zeros = 5, end_zeros = 5, region_rest = ''w-p x''\<rparr>"

definition sample_maps :: "region list" where
  "sample_maps = [sample_region 4096 8192 True, sample_region 8192 12288 True, sample_region 12288 16384 False]"

definition cut_reads :: "nat \<Rightarrow> string \<Rightarrow> maps_read list" where
  "cut_reads n t = [Chunk (take n t), Interrupted, Chunk (drop n t)]"

definition sample_kernel :: exec_kernel where
  "sample_kernel =
     \<lparr>process_vm_readv = (\<lambda>a n. None), maps_opens = True, maps_reads = cut_reads 10 (maps_text sample_maps), mem_opens = False,
      mem_pread = (\<lambda>a n. Other_error)\<rparr>"

theorem maps_scan_decides_witness:
  "maps_range_readable sample_kernel 8000 400 = PREFLIGHT_VALID \<and>
   maps_range_readable sample_kernel 12000 400 = PREFLIGHT_INVALID"
proof -
  have reads: "benign_reads (maps_reads sample_kernel)" "text_read (maps_reads sample_kernel) = maps_text sample_maps"
    by (simp_all add: sample_kernel_def cut_reads_def benign_reads_def text_read_def)
      (simp add: maps_text_def sample_maps_def sample_region_def maps_line_def hex_digits.simps)
  have rs: "maps_opens sample_kernel" "ascending 0 sample_maps" "list_all printable sample_maps"
    by (simp_all add: sample_kernel_def sample_maps_def sample_region_def printable_def maps_line_def hex_digits.simps
        UINTPTR_MAX_def LINE_SIZE_def NEWLINE_def)
  have "\<forall>a. 8000 \<le> a \<and> a < 8000 + 400 \<longrightarrow> readable_at sample_maps a" "\<not> readable_at sample_maps 12288"
    by (auto simp: readable_at_def sample_maps_def sample_region_def)
  then show ?thesis
    using maps_scan_decides [OF rs(1) reads rs(2,3), of 400 8000] maps_scan_decides [OF rs(1) reads rs(2,3), of 400 12000]
    by (auto simp: UINTPTR_MAX_def dest!: spec [of _ 12288])
qed

text \<open>A line that does not fit the buffer, as a mapping of a file with a long path has, is passed over; memory in such
  a mapping is then reported as invalid although it is readable.\<close>

lemma scan_chars_skip:
  assumes "NEWLINE \<notin> set t"
  shows "scan_chars stop (t @ NEWLINE # rest) \<lparr>covered = c, line_buffer = u, skipping_long_line = True\<rparr> =
    scan_chars stop rest (at_line c [])"
  using assms by (induction t) (auto simp: scan_char_def at_line_def)

lemma long_line_is_skipped:
  assumes "NEWLINE \<notin> set t" and "length t \<ge> LINE_SIZE"
  shows "scan_chars stop (t @ NEWLINE # rest) (at_line c []) = scan_chars stop rest (at_line c [])"
proof -
  define a where "a = take (LINE_SIZE - 1) t"
  obtain x b where b: "drop (LINE_SIZE - 1) t = x # b"
    using assms(2) by (cases "drop (LINE_SIZE - 1) t") (simp_all add: LINE_SIZE_def)
  have t: "t = a @ x # b"
    unfolding a_def b [symmetric] by simp
  have clean: "NEWLINE \<notin> set a" "x \<noteq> NEWLINE" "NEWLINE \<notin> set b"
    using assms(1) by (auto simp: t)
  have len: "length a = LINE_SIZE - 1"
    using assms(2) by (simp add: a_def)
  have "scan_chars stop (t @ NEWLINE # rest) (at_line c []) = scan_chars stop (x # b @ NEWLINE # rest) (at_line c a)"
    using scan_chars_collect [of a "[]" stop "x # b @ NEWLINE # rest" c] clean len by (simp add: t LINE_SIZE_def)
  also have "\<dots> = scan_chars stop (b @ NEWLINE # rest) \<lparr>covered = c, line_buffer = [], skipping_long_line = True\<rparr>"
    using clean(2) len by (simp add: scan_char_def at_line_def LINE_SIZE_def)
  also have "\<dots> = scan_chars stop rest (at_line c [])"
    by (rule scan_chars_skip [OF clean(3)])
  finally show ?thesis .
qed

lemma long_line_hides_readable_memory:
  assumes "NEWLINE \<notin> set (maps_line r)" and "length (maps_line r) \<ge> LINE_SIZE"
    and "maps_opens k" and "maps_reads k = [Chunk (maps_text [r])]"
    and "region_readable r" and "0 < remote" and "0 < len" and "remote \<le> UINTPTR_MAX - len"
  shows "maps_range_readable k remote len = PREFLIGHT_INVALID"
  using long_line_is_skipped [OF assms(1,2), of "remote + len" "[]" remote] assms
  by (simp add: maps_range_readable_def maps_text_def at_line_def)

subsection \<open>The caller's memory\<close>

type_synonym user_memory = "nat \<Rightarrow> 8 word option"

text \<open>What the kernel reads is what the memory holds.\<close>

definition faithful :: "exec_kernel \<Rightarrow> user_memory \<Rightarrow> bool" where
  "faithful k mem \<longleftrightarrow>
     (\<forall>a n bs. process_vm_readv k a n = Some bs \<longrightarrow> length bs \<le> n \<and> (\<forall>j < length bs. mem (a + j) = Some (bs ! j))) \<and>
     (\<forall>a n bs. mem_pread k a n = Bytes bs \<longrightarrow> length bs \<le> n \<and> (\<forall>j < length bs. mem (a + j) = Some (bs ! j)))"

text \<open>A kernel that lets the process read what is readable.\<close>

definition obliging :: "exec_kernel \<Rightarrow> user_memory \<Rightarrow> bool" where
  "obliging k mem \<longleftrightarrow>
     (\<forall>a n. (\<forall>j<n. mem (a + j) \<noteq> None) \<longrightarrow> (\<exists>bs. process_vm_readv k a n = Some bs \<and> length bs = n))"

definition terminated :: "user_memory \<Rightarrow> nat \<Rightarrow> nat \<Rightarrow> bool" where
  "terminated mem base limit \<longleftrightarrow>
     base \<noteq> 0 \<and> (\<exists>n < limit. mem (base + n) = Some 0 \<and> (\<forall>j<n. \<exists>b. mem (base + j) = Some b \<and> b \<noteq> 0))"

definition pointer_at :: "user_memory \<Rightarrow> nat \<Rightarrow> nat option" where
  "pointer_at mem a =
     (if \<forall>j<8. mem (a + j) \<noteq> None then Some (pointer_of (map (\<lambda>j. the (mem (a + j))) [0..<8])) else None)"

definition terminated_vector :: "user_memory \<Rightarrow> nat \<Rightarrow> nat \<Rightarrow> nat \<Rightarrow> bool" where
  "terminated_vector mem base entries limit \<longleftrightarrow>
     base = 0 \<or>
     (\<exists>n < entries. pointer_at mem (base + n * 8) = Some 0 \<and>
       (\<forall>j<n. \<exists>p. pointer_at mem (base + j * 8) = Some p \<and> p \<noteq> 0 \<and> terminated mem p limit))"

lemma user_read_bytes_sound:
  assumes "faithful k mem" and "user_read_bytes k a n = (PREFLIGHT_VALID, e, bs)"
  shows "length bs = n" and "j < n \<Longrightarrow> mem (a + j) = Some (bs ! j)"
  using assms
  by (auto simp: user_read_bytes_def faithful_def split: if_splits option.splits preflight.splits mem_read.splits)

lemma user_read_bytes_complete:
  assumes "faithful k mem" and "obliging k mem" and "0 < n" and "a \<noteq> 0" and "\<forall>j<n. mem (a + j) \<noteq> None"
  shows "user_read_bytes k a n = (PREFLIGHT_VALID, None, map (\<lambda>j. the (mem (a + j))) [0..<n])"
proof -
  from assms(2,5) obtain bs where bs: "process_vm_readv k a n = Some bs" "length bs = n"
    unfolding obliging_def by blast
  then have "bs = map (\<lambda>j. the (mem (a + j))) [0..<n]"
    using assms(1) by (intro nth_equalityI) (auto simp: faithful_def)
  then show ?thesis
    using bs assms(3,4) by (simp add: user_read_bytes_def)
qed

text \<open>Memory is readable by pages.\<close>

definition paged :: "user_memory \<Rightarrow> bool" where
  "paged mem \<longleftrightarrow>
     (\<forall>a. mem a \<noteq> None \<longrightarrow> a \<le> UINTPTR_MAX) \<and>
     (\<forall>a b. a div PAGE_SIZE = b div PAGE_SIZE \<longrightarrow> mem a \<noteq> None \<longrightarrow> mem b \<noteq> None)"

lemma chunk_in_page:
  assumes "j < chunk_size address max_length offset"
  shows "(address + j) div PAGE_SIZE = address div PAGE_SIZE"
proof -
  have "address mod PAGE_SIZE + j < PAGE_SIZE"
    using assms by (auto simp: chunk_size_def Let_def PAGE_SIZE_def split: if_splits)
  moreover have "address + j = (address mod PAGE_SIZE + j) + address div PAGE_SIZE * PAGE_SIZE"
    using mod_div_mult_eq [of address PAGE_SIZE] by simp
  moreover have "PAGE_SIZE \<noteq> 0"
    by (simp add: PAGE_SIZE_def)
  ultimately show ?thesis
    by (metis add.right_neutral div_less div_mult_self1)
qed

definition plain_prefix :: "user_memory \<Rightarrow> nat \<Rightarrow> nat \<Rightarrow> bool" where
  "plain_prefix mem base n \<longleftrightarrow> (\<forall>j<n. \<exists>b. mem (base + j) = Some b \<and> b \<noteq> 0)"

lemma plain_prefix_extend:
  assumes "plain_prefix mem base off" and "\<forall>j<n. mem (base + off + j) = Some (bs ! j)" and "\<forall>j<n. bs ! j \<noteq> 0"
  shows "plain_prefix mem base (off + n)"
  unfolding plain_prefix_def
proof (intro allI impI)
  fix j assume "j < off + n"
  show "\<exists>b. mem (base + j) = Some b \<and> b \<noteq> 0"
  proof (cases "j < off")
    case False
    then have "j - off < n" "base + off + (j - off) = base + j"
      using \<open>j < off + n\<close> by simp_all
    then show ?thesis
      using assms(2,3) by (metis)
  qed (use assms(1) in \<open>simp add: plain_prefix_def\<close>)
qed

lemma cstr_loop_sound:
  assumes "faithful k mem" and "cstr_loop k base m off = (PREFLIGHT_VALID, e)" and "plain_prefix mem base off"
  shows "\<exists>n<m. mem (base + n) = Some 0 \<and> plain_prefix mem base n"
  using assms
proof (induction k base m off rule: cstr_loop.induct)
  case (1 k base m off)
  let ?c = "chunk_size (base + off) m off"
  from 1(3) have bound: "\<not> m \<le> off" "\<not> base > UINTPTR_MAX - off"
    by (subst (asm) cstr_loop.simps; simp split: if_splits)+
  obtain r e' bs where read: "user_read_bytes k (base + off) ?c = (r, e', bs)"
    by (cases "user_read_bytes k (base + off) ?c") auto
  from 1(3) bound read have r: "r = PREFLIGHT_VALID"
    by (subst (asm) cstr_loop.simps) (auto simp: Let_def split: preflight.splits if_splits)
  note sound = user_read_bytes_sound [OF 1(2) read [unfolded r]]
  show ?case
  proof (cases "0 \<in> set bs")
    case True
    then obtain i where "i < ?c" "bs ! i = 0"
      using sound(1) by (auto simp: in_set_conv_nth)
    then obtain i where i: "i < ?c" "bs ! i = 0" "\<forall>j<i. bs ! j \<noteq> 0"
      using exists_least_iff [of "\<lambda>i. i < ?c \<and> bs ! i = 0"] by (metis order.strict_trans)
    have "off + i < m"
      using i(1) chunk_size_le [of "base + off" m off] by simp
    moreover have "plain_prefix mem base (off + i)"
      using sound(2) i by (intro plain_prefix_extend [OF 1(4)]) (auto intro: order.strict_trans)
    moreover have "mem (base + (off + i)) = Some 0"
      using sound(2) [OF i(1)] i(2) by (simp add: add.assoc)
    ultimately show ?thesis
      by blast
  next
    case False
    then have "plain_prefix mem base (off + ?c)"
      using sound by (intro plain_prefix_extend [OF 1(4)]) (auto simp: in_set_conv_nth)
    moreover have "cstr_loop k base m (off + ?c) = (PREFLIGHT_VALID, e)"
      using 1(3) bound read r False by (subst (asm) cstr_loop.simps) (simp add: Let_def)
    ultimately show ?thesis
      using 1(1) [OF bound refl read [unfolded r, symmetric] refl refl False 1(2)] by simp
  qed
qed

lemma user_cstr_readable_sound:
  "faithful k mem \<Longrightarrow> user_cstr_readable k v m = (PREFLIGHT_VALID, e) \<Longrightarrow> terminated mem v m"
  using cstr_loop_sound [of k mem v m 0 e]
  by (auto simp: user_cstr_readable_def terminated_def plain_prefix_def split: if_splits)

lemma cstr_loop_complete:
  assumes "faithful k mem" and "obliging k mem" and "paged mem" and "base \<noteq> 0"
    and "off \<le> n" and "n < m" and "mem (base + n) = Some 0" and "plain_prefix mem base n"
  shows "cstr_loop k base m off = (PREFLIGHT_VALID, None)"
  using assms
proof (induction k base m off rule: cstr_loop.induct)
  case (1 k base m off)
  let ?c = "chunk_size (base + off) m off" and ?bs = "map (\<lambda>j. the (mem (base + off + j))) [0..<chunk_size (base + off) m off]"
  have here: "mem (base + off) \<noteq> None"
    using 1(6,8,9) by (cases "off = n") (auto simp: plain_prefix_def dest!: spec [of _ off])
  then have bound: "\<not> m \<le> off" "\<not> base > UINTPTR_MAX - off"
    using 1(4,6,7) by (auto simp: paged_def)
  have "\<forall>j<?c. mem (base + off + j) \<noteq> None"
    using chunk_in_page here 1(4) unfolding paged_def by metis
  then have read: "user_read_bytes k (base + off) ?c = (PREFLIGHT_VALID, None, ?bs)"
    using 1(2,3,5) bound chunk_size_pos by (intro user_read_bytes_complete) auto
  show ?case
  proof (cases "n < off + ?c")
    case True
    then have "?bs ! (n - off) = 0" "n - off < length ?bs"
      using 1(6,8) by auto
    then have "0 \<in> set ?bs"
      by (metis nth_mem)
    then show ?thesis
      using bound read by (subst cstr_loop.simps) (simp add: Let_def)
  next
    case False
    have clean: "0 \<notin> set ?bs"
    proof
      assume "0 \<in> set ?bs"
      then obtain j where "j < ?c" "the (mem (base + (off + j))) = 0"
        by (auto simp: add.assoc)
      then show False
        using False 1(9) by (auto simp: plain_prefix_def dest!: spec [of _ "off + j"])
    qed
    have "cstr_loop k base m (off + ?c) = (PREFLIGHT_VALID, None)"
      using False 1 by (intro 1(1) [OF bound refl read [symmetric] refl refl clean]) simp_all
    then show ?thesis
      using bound read clean by (subst cstr_loop.simps) (simp add: Let_def)
  qed
qed

lemma user_cstr_readable_complete:
  assumes "faithful k mem" and "obliging k mem" and "paged mem" and "terminated mem v m"
  shows "user_cstr_readable k v m = (PREFLIGHT_VALID, None)"
  using assms(4) cstr_loop_complete [OF assms(1-3), of v 0 _ m]
  by (auto simp: user_cstr_readable_def terminated_def plain_prefix_def)

definition vector_prefix :: "user_memory \<Rightarrow> nat \<Rightarrow> nat \<Rightarrow> nat \<Rightarrow> bool" where
  "vector_prefix mem base limit n \<longleftrightarrow>
     (\<forall>j<n. \<exists>p. pointer_at mem (base + j * 8) = Some p \<and> p \<noteq> 0 \<and> terminated mem p limit)"

lemma vector_prefix_Suc:
  "vector_prefix mem base limit (Suc n) \<longleftrightarrow> vector_prefix mem base limit n \<and>
    (\<exists>p. pointer_at mem (base + n * 8) = Some p \<and> p \<noteq> 0 \<and> terminated mem p limit)"
  by (auto simp: vector_prefix_def less_Suc_eq)

lemma read_pointer:
  assumes "faithful k mem" and "user_read_bytes k a 8 = (PREFLIGHT_VALID, e, bs)"
  shows "pointer_at mem a = Some (pointer_of bs)"
proof -
  note sound = user_read_bytes_sound [OF assms]
  have "bs = map (\<lambda>j. the (mem (a + j))) [0..<8]"
    using sound by (intro nth_equalityI) auto
  moreover have "\<forall>j<8. mem (a + j) \<noteq> None"
    using sound(2) by auto
  ultimately show ?thesis
    by (simp add: pointer_at_def)
qed

lemma array_loop_sound:
  assumes "faithful k mem" and "array_loop k base entries limit i = (PREFLIGHT_VALID, e)" and "vector_prefix mem base limit i"
  shows "\<exists>n<entries. pointer_at mem (base + n * 8) = Some 0 \<and> vector_prefix mem base limit n"
  using assms
proof (induction k base entries limit i rule: array_loop.induct)
  case (1 k base entries limit i)
  from 1(3) have bound: "\<not> entries \<le> i" "\<not> i > (UINTPTR_MAX - base) div 8"
    by (subst (asm) array_loop.simps; simp split: if_splits)+
  obtain r e' bs where read: "user_read_bytes k (base + i * 8) 8 = (r, e', bs)"
    by (cases "user_read_bytes k (base + i * 8) 8") auto
  from 1(3) bound read have r: "r = PREFLIGHT_VALID"
    by (subst (asm) array_loop.simps) (auto split: preflight.splits)
  have pointer: "pointer_at mem (base + i * 8) = Some (pointer_of bs)"
    using read_pointer [OF 1(2)] read r by simp
  show ?case
  proof (cases "pointer_of bs = 0")
    case True
    then show ?thesis
      using pointer 1(4) bound(1) by (metis leI)
  next
    case False
    obtain r2 e2 where str: "user_cstr_readable k (pointer_of bs) limit = (r2, e2)"
      by (cases "user_cstr_readable k (pointer_of bs) limit")
    have r2: "r2 = PREFLIGHT_VALID" and rest: "array_loop k base entries limit (i + 1) = (PREFLIGHT_VALID, e)"
      using 1(3) bound read r False str by (subst (asm) array_loop.simps; auto split: preflight.splits)+
    have "vector_prefix mem base limit (i + 1)"
      using 1(4) pointer False user_cstr_readable_sound [OF 1(2)] str r2 by (simp add: vector_prefix_Suc)
    then show ?thesis
      using 1(1) [OF bound read [unfolded r, symmetric] refl refl False str [unfolded r2, symmetric] refl 1(2) rest] by simp
  qed
qed

lemma array_loop_complete:
  assumes "faithful k mem" and "obliging k mem" and "paged mem" and "base \<noteq> 0"
    and "i \<le> n" and "n < entries" and "pointer_at mem (base + n * 8) = Some 0" and "vector_prefix mem base limit n"
  shows "array_loop k base entries limit i = (PREFLIGHT_VALID, None)"
  using assms
proof (induction k base entries limit i rule: array_loop.induct)
  case (1 k base entries limit i)
  obtain p where p: "pointer_at mem (base + i * 8) = Some p" "i < n \<Longrightarrow> p \<noteq> 0 \<and> terminated mem p limit" "i = n \<Longrightarrow> p = 0"
    using 1(6,8,9) by (cases "i = n") (auto simp: vector_prefix_def dest!: spec [of _ i])
  have mapped: "\<forall>j<8. mem (base + i * 8 + j) \<noteq> None" and value_p: "p = pointer_of (map (\<lambda>j. the (mem (base + i * 8 + j))) [0..<8])"
    using p(1) by (auto simp: pointer_at_def split: if_splits)
  have "mem (base + i * 8) \<noteq> None"
    using mapped by (auto dest!: spec [of _ 0])
  then have "base + i * 8 \<le> UINTPTR_MAX"
    using 1(4) by (simp add: paged_def)
  then have bound: "\<not> entries \<le> i" "\<not> i > (UINTPTR_MAX - base) div 8"
    using 1(6,7) by (simp_all add: not_less less_eq_div_iff_mult_less_eq)
  have read: "user_read_bytes k (base + i * 8) 8 = (PREFLIGHT_VALID, None, map (\<lambda>j. the (mem (base + i * 8 + j))) [0..<8])"
    using 1(2,3,5) mapped by (intro user_read_bytes_complete) simp_all
  show ?case
  proof (cases "i = n")
    case True
    then show ?thesis
      using bound read p(3) value_p by (subst array_loop.simps) simp
  next
    case False
    then have less: "i < n"
      using 1(6) by simp
    have str: "user_cstr_readable k p limit = (PREFLIGHT_VALID, None)"
      using user_cstr_readable_complete [OF 1(2-4)] p(2) [OF less] by simp
    have "array_loop k base entries limit (i + 1) = (PREFLIGHT_VALID, None)"
      by (rule 1(1) [OF bound read [symmetric] refl refl]) (use 1 less p(2) str in \<open>simp_all add: value_p\<close>)
    then show ?thesis
      using bound read str p(2) [OF less] value_p by (subst array_loop.simps) simp
  qed
qed

lemma user_cstr_array_readable_sound:
  "faithful k mem \<Longrightarrow> user_cstr_array_readable k v entries limit = (PREFLIGHT_VALID, e) \<Longrightarrow>
    terminated_vector mem v entries limit"
  using array_loop_sound [of k mem v entries limit 0 e]
  by (auto simp: user_cstr_array_readable_def terminated_vector_def vector_prefix_def split: if_splits)

lemma user_cstr_array_readable_complete:
  assumes "faithful k mem" and "obliging k mem" and "paged mem" and "terminated_vector mem v entries limit"
  shows "user_cstr_array_readable k v entries limit = (PREFLIGHT_VALID, None)"
  using assms(4) array_loop_complete [OF assms(1-3), of v 0 _ entries limit]
  by (auto simp: user_cstr_array_readable_def terminated_vector_def vector_prefix_def)

definition proper_arguments :: "user_memory \<Rightarrow> nat \<Rightarrow> nat \<Rightarrow> nat \<Rightarrow> bool" where
  "proper_arguments mem path argv envp \<longleftrightarrow>
     terminated mem path PATH_MAX \<and> terminated_vector mem argv MAX_ENV_ENTRIES USER_STRING_MAX \<and>
     terminated_vector mem envp MAX_ENV_ENTRIES USER_STRING_MAX"

text \<open>(C27) Arguments reported valid are proper: the path is a readable string that ends within the path limit, and each
  vector is absent or ends within its limit with every entry a readable string that ends within its limit. This
  holds for every kernel that reads what is there, through whichever of the three ways; and when the kernel lets
  the process read its memory, proper arguments are reported valid.\<close>

theorem preflight_decides_arguments:
  assumes "faithful k mem"
  shows "(fst (args_readable k path argv envp) = PREFLIGHT_VALID \<longrightarrow> proper_arguments mem path argv envp) \<and>
    (obliging k mem \<and> paged mem \<and> proper_arguments mem path argv envp \<longrightarrow>
      args_readable k path argv envp = (PREFLIGHT_VALID, None))"
proof (intro conjI impI)
  assume "fst (args_readable k path argv envp) = PREFLIGHT_VALID"
  then obtain e where "args_readable k path argv envp = (PREFLIGHT_VALID, e)"
    by (cases "args_readable k path argv envp") simp
  then show "proper_arguments mem path argv envp"
    using user_cstr_readable_sound [OF assms] user_cstr_array_readable_sound [OF assms]
    by (auto simp: args_readable_def argv_envp_readable_def proper_arguments_def split: prod.splits preflight.splits)
next
  assume "obliging k mem \<and> paged mem \<and> proper_arguments mem path argv envp"
  then show "args_readable k path argv envp = (PREFLIGHT_VALID, None)"
    using user_cstr_readable_complete [OF assms] user_cstr_array_readable_complete [OF assms]
    by (simp add: args_readable_def argv_envp_readable_def proper_arguments_def)
qed

definition sample_memory :: user_memory where
  "sample_memory a = (if 4096 \<le> a \<and> a < 8192 then Some (if a = 4096 then 97 else 0) else None)"

definition open_kernel :: exec_kernel where
  "open_kernel =
     \<lparr>process_vm_readv = (\<lambda>a n. if 4096 \<le> a \<and> a + n \<le> 8192 then Some (map (\<lambda>j. the (sample_memory (a + j))) [0..<n]) else if n = 0 then Some [] else None),
      maps_opens = False, maps_reads = [], mem_opens = False, mem_pread = (\<lambda>a n. Other_error)\<rparr>"

theorem preflight_decides_arguments_witness:
  "args_readable open_kernel 4096 4104 0 = (PREFLIGHT_VALID, None)"
proof -
  have page: "a div PAGE_SIZE = 1 \<longleftrightarrow> 4096 \<le> a \<and> a < 8192" for a
    using div_mult_mod_eq [of a 4096] mod_less_divisor [of 4096 a] by (auto simp: PAGE_SIZE_def intro!: div_nat_eqI)
  have k: "faithful open_kernel sample_memory"
    by (auto simp: faithful_def open_kernel_def sample_memory_def split: if_splits)
  have paged: "paged sample_memory"
    unfolding paged_def sample_memory_def page [symmetric] by (auto simp: page UINTPTR_MAX_def simp del: One_nat_def)
  have "obliging open_kernel sample_memory"
    unfolding obliging_def
  proof (intro allI impI)
    fix a n assume readable: "\<forall>j<n. sample_memory (a + j) \<noteq> None"
    then have "0 < n \<Longrightarrow> 4096 \<le> a \<and> a + n \<le> 8192"
      using readable [rule_format, of 0] readable [rule_format, of "n - 1"] by (auto simp: sample_memory_def split: if_splits)
    then show "\<exists>bs. process_vm_readv open_kernel a n = Some bs \<and> length bs = n"
      by (cases n) (simp_all add: open_kernel_def)
  qed
  moreover have "terminated sample_memory 4096 PATH_MAX"
    unfolding terminated_def by (intro conjI exI [of _ 1]) (simp_all add: sample_memory_def PATH_MAX_def)
  moreover have "pointer_at sample_memory 4104 = Some 0"
  proof -
    have "map (\<lambda>j. the (sample_memory (4104 + j))) [0..<8] = replicate 8 0"
      by (intro nth_equalityI) (simp_all add: sample_memory_def)
    moreover have "pointer_of (replicate n 0) = 0" for n
      by (induction n) (simp_all add: pointer_of_def)
    ultimately show ?thesis
      by (simp add: pointer_at_def sample_memory_def)
  qed
  then have "terminated_vector sample_memory 4104 MAX_ENV_ENTRIES USER_STRING_MAX"
    unfolding terminated_vector_def by (intro disjI2 exI [of _ 0]) (simp add: MAX_ENV_ENTRIES_def)
  moreover have "terminated_vector sample_memory 0 MAX_ENV_ENTRIES USER_STRING_MAX"
    by (simp add: terminated_vector_def)
  ultimately have "obliging open_kernel sample_memory \<and> paged sample_memory \<and> proper_arguments sample_memory 4096 4104 0"
    using paged unfolding proper_arguments_def by blast
  then show ?thesis
    using preflight_decides_arguments [OF k, of 4096 4104 0] by blast
qed

end
