(* ===== verification/Socket_Gather.thy ===== *)
theory Socket_Gather
  imports Report_Model
begin

text \<open>
  The root of the socket report transport, \<^verbatim>\<open>src/general_listener/socket_report_transport.c\<close>: it accepts the
  connections of the peer ranks, reads from each a header and one record per hook in whatever pieces the
  network delivers, merges the records into its own, sends a receipt and waits for its confirmation.

  The layout of the wire structures and the floating-point arithmetic are parameters (\<open>wire_env\<close>): how 272, 80
  and 40 bytes read as a header, a record and a frame, and addition and subtraction of \<^verbatim>\<open>double\<close>. Every round of
  \<^verbatim>\<open>poll\<close> comes with its answers, those of \<^verbatim>\<open>accept\<close>, \<^verbatim>\<open>recv\<close> and \<^verbatim>\<open>send\<close> and the checks of the clock among them; behind
  the end of a list of answers a call would block, and behind the last round the wait times out. Log lines and
  test hooks are left out.
\<close>

subsection \<open>Wire structures\<close>

definition SOCKET_REDUCE_MAGIC :: uint64 where
  "SOCKET_REDUCE_MAGIC = 0x5045414b52454431"

definition SOCKET_REDUCE_VERSION :: uint32 where
  "SOCKET_REDUCE_VERSION = 15"

definition GATHER_RECEIPT :: "8 word" where
  "GATHER_RECEIPT = 0x41"

definition GATHER_RECEIPT_CONFIRM :: "8 word" where
  "GATHER_RECEIPT_CONFIRM = 0x42"

definition GATHER_REGISTERED :: "8 word" where
  "GATHER_REGISTERED = 0x01"

definition HEADER_SIZE :: nat where
  "HEADER_SIZE = 272"

definition RECORD_SIZE :: nat where
  "RECORD_SIZE = 80"

definition FRAME_SIZE :: nat where
  "FRAME_SIZE = 40"

definition PAYLOAD_BUFFER :: nat where
  "PAYLOAD_BUFFER = 64 * 1024"

record capability_manifest =
  cap_requested :: uint32
  cap_compiled :: uint32
  cap_active :: uint32
  cap_partial :: uint32
  cap_retained :: uint32
  cap_failed :: uint32
  cap_cuda_compiled_apis :: uint32
  cap_cuda_found_apis :: uint32
  cap_cuda_installed_apis :: uint32
  cap_cuda_failed_apis :: uint32

record jit_diagnostics =
  jit_pending_queue_full :: uint64
  jit_non_executable_timeout :: uint64
  jit_attach_retry_timeout :: uint64
  jit_allocation_failure :: uint64
  jit_provider_generation :: uint64
  jit_pending_count :: uint64
  jit_pending_high_water :: uint64

record reduce_header =
  h_magic :: uint64
  h_version :: uint32
  h_rank :: uint32
  h_hook_count :: uint64
  h_session_token :: uint64
  h_elapsed_seconds :: double
  h_profile_seconds :: double
  h_control_seconds :: double
  h_management_seconds :: double
  h_control_risk_seconds :: double
  h_profile_control_risk_seconds :: double
  h_profile_ratio :: double
  h_control_ratio :: double
  h_profile_control_ratio :: double
  h_profile_control_risk_ratio :: double
  h_control_risk_ratio :: double
  h_management_ratio :: double
  h_stop_window_count :: uint64
  h_failed_stop_window_count :: uint64
  h_dropped_calls :: uint64
  h_dropped_threads :: uint64
  h_local_ranks :: uint32
  h_accounting_valid :: uint32
  h_degraded_mask :: uint32
  h_capabilities :: capability_manifest
  h_jit :: jit_diagnostics

record release_frame =
  f_magic :: uint64
  f_version :: uint32
  f_rank :: uint32
  f_hook_count :: uint64
  f_session_token :: uint64
  f_type :: "8 word"
  f_decision :: "8 word"

record reduce_record =
  identity_hash :: uint64
  r_num_calls :: uint64
  r_total_time :: double
  r_max_total_time :: double
  r_min_total_time :: double
  r_exclusive_time :: double
  r_max_time :: double
  r_min_time :: double
  r_thread_count :: uint64
  r_detached :: int
  r_reattached :: int
  r_revisited :: int

record wire_env =
  decode_header :: "8 word list \<Rightarrow> reduce_header"
  decode_record :: "8 word list \<Rightarrow> reduce_record"
  decode_frame :: "8 word list \<Rightarrow> release_frame"
  fadd :: "double \<Rightarrow> double \<Rightarrow> double"
  fsub :: "double \<Rightarrow> double \<Rightarrow> double"

definition FLT_MAX :: rat where
  "FLT_MAX = 2 ^ 128 - 2 ^ 104"

definition nonnegative_float :: "double \<Rightarrow> bool" where
  "nonnegative_float v \<longleftrightarrow> dle (Fin 0) v \<and> deq v v \<and> dle v (Fin FLT_MAX)"

subsection \<open>Merging\<close>

definition add_uint64_saturated :: "uint64 \<Rightarrow> uint64 \<Rightarrow> uint64" where
  "add_uint64_saturated lhs rhs =
     (let max_published = - 1 - 1 in if lhs \<ge> max_published \<or> rhs > max_published - lhs then max_published else lhs + rhs)"

definition bool_flag :: "int \<Rightarrow> bool" where
  "bool_flag v \<longleftrightarrow> v = 0 \<or> v = 1"

definition merge_record :: "wire_env \<Rightarrow> reduce_record \<Rightarrow> reduce_record \<Rightarrow> reduce_record option" where
  "merge_record env incoming aggregate =
     (if identity_hash incoming \<noteq> identity_hash aggregate \<or>
         \<not> bool_flag (r_detached incoming) \<or> \<not> bool_flag (r_reattached incoming) \<or> \<not> bool_flag (r_revisited incoming) \<or>
         \<not> nonnegative_finite (r_total_time incoming) \<or> \<not> nonnegative_finite (r_max_total_time incoming) \<or>
         \<not> nonnegative_finite (r_min_total_time incoming) \<or> \<not> nonnegative_finite (r_exclusive_time incoming) \<or>
         \<not> nonnegative_float (r_max_time incoming) \<or> \<not> nonnegative_float (r_min_time incoming) \<or>
         r_num_calls aggregate > - 1 - r_num_calls incoming \<or> r_thread_count aggregate > - 1 - r_thread_count incoming \<or>
         dlt (fsub env (Fin DBL_MAX) (r_total_time incoming)) (r_total_time aggregate) \<or>
         dlt (fsub env (Fin DBL_MAX) (r_exclusive_time incoming)) (r_exclusive_time aggregate)
      then None
      else Some (aggregate\<lparr>
        r_num_calls := r_num_calls aggregate + r_num_calls incoming,
        r_total_time := fadd env (r_total_time aggregate) (r_total_time incoming),
        r_max_total_time := (if dlt (r_max_total_time aggregate) (r_max_total_time incoming)
                             then r_max_total_time incoming else r_max_total_time aggregate),
        r_min_total_time := (if r_thread_count incoming > 0 \<and>
                                (r_thread_count aggregate = 0 \<or> dlt (r_min_total_time incoming) (r_min_total_time aggregate))
                             then r_min_total_time incoming else r_min_total_time aggregate),
        r_exclusive_time := fadd env (r_exclusive_time aggregate) (r_exclusive_time incoming),
        r_max_time := (if dlt (r_max_time aggregate) (r_max_time incoming) then r_max_time incoming else r_max_time aggregate),
        r_min_time := (if r_thread_count incoming > 0 \<and>
                          (r_thread_count aggregate = 0 \<or> dlt (r_min_time incoming) (r_min_time aggregate))
                       then r_min_time incoming else r_min_time aggregate),
        r_thread_count := r_thread_count aggregate + r_thread_count incoming,
        r_detached := of_bool (r_detached aggregate \<noteq> 0 \<or> r_detached incoming \<noteq> 0),
        r_reattached := of_bool (r_reattached aggregate \<noteq> 0 \<or> r_reattached incoming \<noteq> 0),
        r_revisited := of_bool (r_revisited aggregate \<noteq> 0 \<or> r_revisited incoming \<noteq> 0)\<rparr>))"

definition CAPABILITY_CUDA :: uint32 where
  "CAPABILITY_CUDA = 4"

definition capability_manifest_merge :: "capability_manifest \<Rightarrow> capability_manifest \<Rightarrow> capability_manifest" where
  "capability_manifest_merge aggregate incoming =
     (let active_difference = cap_active aggregate XOR cap_active incoming;
          compiled_difference = cap_compiled aggregate XOR cap_compiled incoming;
          cuda_found_difference = cap_cuda_found_apis aggregate XOR cap_cuda_found_apis incoming;
          cuda_installed_difference = cap_cuda_installed_apis aggregate XOR cap_cuda_installed_apis incoming;
          req = cap_requested aggregate OR cap_requested incoming;
          part1 = cap_partial aggregate OR (cap_partial incoming OR active_difference);
          part2 = part1 OR (req AND compiled_difference);
          part3 = (if cuda_found_difference \<noteq> 0 \<or> cuda_installed_difference \<noteq> 0 then part2 OR CAPABILITY_CUDA else part2)
      in \<lparr>cap_requested = req, cap_compiled = cap_compiled aggregate AND cap_compiled incoming,
          cap_active = cap_active aggregate AND cap_active incoming, cap_partial = part3,
          cap_retained = cap_retained aggregate OR cap_retained incoming,
          cap_failed = cap_failed aggregate OR cap_failed incoming,
          cap_cuda_compiled_apis = cap_cuda_compiled_apis aggregate AND cap_cuda_compiled_apis incoming,
          cap_cuda_found_apis = cap_cuda_found_apis aggregate AND cap_cuda_found_apis incoming,
          cap_cuda_installed_apis = cap_cuda_installed_apis aggregate AND cap_cuda_installed_apis incoming,
          cap_cuda_failed_apis = cap_cuda_failed_apis aggregate OR cap_cuda_failed_apis incoming\<rparr>)"

definition header_report_tuple :: "reduce_header \<Rightarrow> PeakReportRankTuple" where
  "header_report_tuple h =
     \<lparr>accounting_valid = (h_accounting_valid h \<noteq> 0), local_ranks = h_local_ranks h, stop_window_count = h_stop_window_count h,
      failed_stop_window_count = h_failed_stop_window_count h, elapsed_seconds = h_elapsed_seconds h,
      profile_seconds = h_profile_seconds h, control_seconds = h_control_seconds h, management_seconds = h_management_seconds h,
      control_risk_seconds = h_control_risk_seconds h, profile_control_risk_seconds = h_profile_control_risk_seconds h,
      profile_ratio = h_profile_ratio h, control_ratio = h_control_ratio h,
      profile_control_risk_ratio = h_profile_control_risk_ratio h, control_risk_ratio = h_control_risk_ratio h,
      management_ratio = h_management_ratio h, overall_ratio = h_profile_control_ratio h\<rparr>"

definition header_set_report_tuple :: "PeakReportRankTuple \<Rightarrow> reduce_header \<Rightarrow> reduce_header" where
  "header_set_report_tuple t h =
     h\<lparr>h_elapsed_seconds := elapsed_seconds t, h_profile_seconds := profile_seconds t, h_control_seconds := control_seconds t,
       h_management_seconds := management_seconds t, h_control_risk_seconds := control_risk_seconds t,
       h_profile_control_risk_seconds := profile_control_risk_seconds t, h_profile_ratio := profile_ratio t,
       h_control_ratio := control_ratio t, h_profile_control_ratio := overall_ratio t,
       h_profile_control_risk_ratio := profile_control_risk_ratio t, h_control_risk_ratio := control_risk_ratio t,
       h_management_ratio := management_ratio t, h_stop_window_count := stop_window_count t,
       h_failed_stop_window_count := failed_stop_window_count t, h_local_ranks := local_ranks t,
       h_accounting_valid := of_bool (accounting_valid t)\<rparr>"

subsection \<open>The aggregate\<close>

record gather_totals =
  maxima :: PeakReportMaxima
  a_profile_seconds :: double
  min_elapsed_seconds :: double
  max_elapsed_seconds :: double
  a_failed_stop_window_count :: uint64
  a_dropped_calls :: uint64
  a_dropped_threads :: uint64
  a_accounting_valid :: bool
  a_degraded_mask :: uint32
  a_capabilities :: capability_manifest
  a_jit :: jit_diagnostics

record gather_aggregate =
  aggregate_records :: "reduce_record list"
  hook_count :: nat
  record_bytes :: nat
  rank_size :: nat
  session_token :: uint64
  receipt_session_token :: uint64
  claimed_ranks :: "nat \<Rightarrow> bool"
  release_targets :: "nat \<Rightarrow> bool"
  totals :: gather_totals

definition merge_jit :: "jit_diagnostics \<Rightarrow> jit_diagnostics \<Rightarrow> jit_diagnostics" where
  "merge_jit h j =
     \<lparr>jit_pending_queue_full = add_uint64_saturated (jit_pending_queue_full j) (jit_pending_queue_full h),
      jit_non_executable_timeout = add_uint64_saturated (jit_non_executable_timeout j) (jit_non_executable_timeout h),
      jit_attach_retry_timeout = add_uint64_saturated (jit_attach_retry_timeout j) (jit_attach_retry_timeout h),
      jit_allocation_failure = add_uint64_saturated (jit_allocation_failure j) (jit_allocation_failure h),
      jit_provider_generation = (if jit_provider_generation h > jit_provider_generation j then jit_provider_generation h
                                 else jit_provider_generation j),
      jit_pending_count = add_uint64_saturated (jit_pending_count j) (jit_pending_count h),
      jit_pending_high_water = (if jit_pending_high_water h > jit_pending_high_water j then jit_pending_high_water h
                                else jit_pending_high_water j)\<rparr>"

text \<open>What a complete payload adds to the totals, apart from the maxima.\<close>

definition absorb :: "wire_env \<Rightarrow> PeakReportRankTuple \<Rightarrow> reduce_header \<Rightarrow> gather_totals \<Rightarrow> gather_totals" where
  "absorb env t h a =
     a\<lparr>min_elapsed_seconds := (if dlt (elapsed_seconds t) (min_elapsed_seconds a) then elapsed_seconds t
                               else min_elapsed_seconds a),
       max_elapsed_seconds := (if dlt (max_elapsed_seconds a) (elapsed_seconds t) then elapsed_seconds t
                               else max_elapsed_seconds a),
       a_profile_seconds := (if positive_finite (profile_seconds t) \<and>
                                dle (a_profile_seconds a) (fsub env (Fin DBL_MAX) (profile_seconds t))
                             then fadd env (a_profile_seconds a) (profile_seconds t) else a_profile_seconds a),
       a_failed_stop_window_count := add_uint64_saturated (a_failed_stop_window_count a) (failed_stop_window_count t),
       a_dropped_calls := add_uint64_saturated (a_dropped_calls a) (h_dropped_calls h),
       a_dropped_threads := add_uint64_saturated (a_dropped_threads a) (h_dropped_threads h),
       a_jit := merge_jit (h_jit h) (a_jit a),
       a_accounting_valid := a_accounting_valid a \<and> accounting_valid t,
       a_degraded_mask := a_degraded_mask a OR h_degraded_mask h,
       a_capabilities := capability_manifest_merge (a_capabilities a) (h_capabilities h)\<rparr>"

subsection \<open>One connection\<close>

datatype gather_phase = READING_HEADER | READING_PAYLOAD | SENDING_RECEIPT | READING_CONFIRM

text \<open>The partly filled structures are the bytes received so far; \<open>conn_open\<close> is a descriptor that is not negative.\<close>

record gather_connection =
  conn_open :: bool
  phase :: gather_phase
  header_buffer :: "8 word list"
  header :: reduce_header
  report_tuple :: PeakReportRankTuple
  payload_bytes :: nat
  record_index :: nat
  record_buffer :: "8 word list"
  receipt :: release_frame
  receipt_bytes :: nat
  confirmation_buffer :: "8 word list"

abbreviation conn_rank :: "gather_connection \<Rightarrow> nat" where
  "conn_rank c \<equiv> unat (h_rank (header c))"

definition gather_prepare_receipt ::
  "wire_env \<Rightarrow> gather_connection \<Rightarrow> gather_aggregate \<Rightarrow> bool \<times> gather_connection \<times> gather_aggregate" where
  "gather_prepare_receipt env c a =
     (if record_index c \<noteq> hook_count a \<or> record_buffer c \<noteq> [] then (False, c, a)
      else case maxima_consider (report_tuple c) (int (conn_rank c)) (maxima (totals a)) of
        (False, m) \<Rightarrow> (False, c, a\<lparr>totals := (totals a)\<lparr>maxima := m\<rparr>\<rparr>)
      | (True, m) \<Rightarrow>
          (True,
           c\<lparr>receipt := \<lparr>f_magic = SOCKET_REDUCE_MAGIC, f_version = SOCKET_REDUCE_VERSION, f_rank = h_rank (header c),
                         f_hook_count = h_hook_count (header c), f_session_token = receipt_session_token a,
                         f_type = GATHER_RECEIPT, f_decision = GATHER_REGISTERED\<rparr>,
             receipt_bytes := 0, phase := SENDING_RECEIPT\<rparr>,
           a\<lparr>totals := absorb env (report_tuple c) (header c) ((totals a)\<lparr>maxima := m\<rparr>)\<rparr>))"

definition gather_validate_header ::
  "wire_env \<Rightarrow> gather_connection \<Rightarrow> gather_aggregate \<Rightarrow> bool \<times> gather_connection \<times> gather_aggregate" where
  "gather_validate_header env c a =
     (let h = header c; r = unat (h_rank h) in
      if h_magic h \<noteq> SOCKET_REDUCE_MAGIC \<or> h_version h \<noteq> SOCKET_REDUCE_VERSION \<or> h_session_token h \<noteq> session_token a \<or>
         unat (h_hook_count h) \<noteq> hook_count a \<or> r = 0 \<or> r \<ge> rank_size a \<or> h_accounting_valid h > 1 \<or> claimed_ranks a r
      then (False, c, a)
      else
        let c1 = c\<lparr>report_tuple := header_report_tuple h\<rparr> in
        if \<not> rank_tuple_is_valid (report_tuple c1) then (False, c1, a)
        else
          let a2 = a\<lparr>claimed_ranks := (claimed_ranks a)(r := True)\<rparr>;
              c2 = c1\<lparr>phase := READING_PAYLOAD, payload_bytes := 0, record_index := 0, record_buffer := []\<rparr>
          in if record_bytes a2 = 0 then gather_prepare_receipt env c2 a2 else (True, c2, a2))"

text \<open>The bytes of a record are gathered up to its size, then it is merged. The buffer never holds a whole record
  when the loop looks at it, so that every pass takes a byte.\<close>

function consume_loop ::
  "wire_env \<Rightarrow> 8 word list \<Rightarrow> gather_connection \<Rightarrow> gather_aggregate \<Rightarrow> bool \<times> gather_connection \<times> gather_aggregate" where
  "consume_loop env data c a =
     (if data = [] then (True, c, a)
      else if record_index c \<ge> hook_count a \<or> length (record_buffer c) \<ge> RECORD_SIZE then (False, c, a)
      else
        let needed = RECORD_SIZE - length (record_buffer c);
            copy_size = (if needed < length data then needed else length data);
            c1 = c\<lparr>record_buffer := record_buffer c @ take copy_size data, payload_bytes := payload_bytes c + copy_size\<rparr>
        in if length (record_buffer c1) = RECORD_SIZE then
             (case merge_record env (decode_record env (record_buffer c1)) (aggregate_records a ! record_index c1) of
                None \<Rightarrow> (False, c1, a)
              | Some r \<Rightarrow>
                  consume_loop env (drop copy_size data) (c1\<lparr>record_index := record_index c1 + 1, record_buffer := []\<rparr>)
                    (a\<lparr>aggregate_records := (aggregate_records a)[record_index c1 := r]\<rparr>))
           else consume_loop env (drop copy_size data) c1 a)"
  by pat_completeness auto

termination
  by (relation "measure (\<lambda>(env, data, c, a). length data)") auto

declare consume_loop.simps [simp del]

definition gather_consume_payload ::
  "wire_env \<Rightarrow> 8 word list \<Rightarrow> gather_connection \<Rightarrow> gather_aggregate \<Rightarrow> bool \<times> gather_connection \<times> gather_aggregate" where
  "gather_consume_payload env data c a =
     (case consume_loop env data c a of
        (False, c1, a1) \<Rightarrow> (False, c1, a1)
      | (True, c1, a1) \<Rightarrow>
          if payload_bytes c1 = record_bytes a1 then gather_prepare_receipt env c1 a1
          else (payload_bytes c1 < record_bytes a1, c1, a1))"

datatype read_tick = Expired | Read_interrupted | Read_would_block | Read_failed | Received "8 word list"

definition read_request :: "gather_connection \<Rightarrow> gather_aggregate \<Rightarrow> nat" where
  "read_request c a =
     (case phase c of
        READING_HEADER \<Rightarrow> HEADER_SIZE - length (header_buffer c)
      | READING_PAYLOAD \<Rightarrow> min (record_bytes a - payload_bytes c) PAYLOAD_BUFFER
      | READING_CONFIRM \<Rightarrow> FRAME_SIZE - length (confirmation_buffer c)
      | SENDING_RECEIPT \<Rightarrow> 0)"

definition confirmation_valid :: "release_frame \<Rightarrow> gather_connection \<Rightarrow> bool" where
  "confirmation_valid f c \<longleftrightarrow>
     f_magic f = SOCKET_REDUCE_MAGIC \<and> f_version f = SOCKET_REDUCE_VERSION \<and> f_rank f = h_rank (header c) \<and>
     f_hook_count f = h_hook_count (header c) \<and> f_session_token f = f_session_token (receipt c) \<and>
     f_type f = GATHER_RECEIPT_CONFIRM \<and> f_decision f = GATHER_REGISTERED"

text \<open>What is done with the bytes of one \<^verbatim>\<open>recv\<close>: whether to go on, and whether the peer confirmed.\<close>

definition take_bytes ::
  "wire_env \<Rightarrow> 8 word list \<Rightarrow> gather_connection \<Rightarrow> gather_aggregate \<Rightarrow> bool \<times> bool \<times> gather_connection \<times> gather_aggregate" where
  "take_bytes env data c a =
     (case phase c of
        READING_HEADER \<Rightarrow>
          let c1 = c\<lparr>header_buffer := header_buffer c @ data\<rparr> in
          if length (header_buffer c1) = HEADER_SIZE
          then (case gather_validate_header env (c1\<lparr>header := decode_header env (header_buffer c1)\<rparr>) a of
                  (v, c2, a2) \<Rightarrow> (v, False, c2, a2))
          else (True, False, c1, a)
      | READING_PAYLOAD \<Rightarrow> (case gather_consume_payload env data c a of (v, c2, a2) \<Rightarrow> (v, False, c2, a2))
      | _ \<Rightarrow>
          let c1 = c\<lparr>confirmation_buffer := confirmation_buffer c @ data\<rparr> in
          if length (confirmation_buffer c1) = FRAME_SIZE
          then let v = confirmation_valid (decode_frame env (confirmation_buffer c1)) c1 in (v, v, c1, a)
          else (True, False, c1, a))"

fun gather_read_ready ::
  "wire_env \<Rightarrow> read_tick list \<Rightarrow> gather_connection \<Rightarrow> gather_aggregate \<Rightarrow> bool \<times> bool \<times> gather_connection \<times> gather_aggregate" where
  "gather_read_ready env [] c a = (phase c = SENDING_RECEIPT \<or> read_request c a \<noteq> 0, False, c, a)"
| "gather_read_ready env (t # ts) c a =
     (if phase c = SENDING_RECEIPT then (True, False, c, a)
      else if t = Expired then (False, False, c, a)
      else if read_request c a = 0 then (False, False, c, a)
      else case t of
        Read_interrupted \<Rightarrow> gather_read_ready env ts c a
      | Read_would_block \<Rightarrow> (True, False, c, a)
      | Received bs \<Rightarrow>
          let data = take (read_request c a) bs in
          if data = [] then (False, False, c, a)
          else (case take_bytes env data c a of
                  (False, _, c1, a1) \<Rightarrow> (False, False, c1, a1)
                | (True, True, c1, a1) \<Rightarrow> (True, True, c1, a1)
                | (True, False, c1, a1) \<Rightarrow> gather_read_ready env ts c1 a1)
      | _ \<Rightarrow> (False, False, c, a))"

datatype write_tick = Write_expired | Write_interrupted | Write_would_block | Write_failed | Sent nat

text \<open>The result is whether the connection is fine and whether the receipt is sent.\<close>

fun gather_write_ready :: "write_tick list \<Rightarrow> gather_connection \<Rightarrow> bool \<times> bool \<times> gather_connection" where
  "gather_write_ready [] c =
     (if phase c \<noteq> SENDING_RECEIPT then (False, False, c) else (True, receipt_bytes c \<ge> FRAME_SIZE, c))"
| "gather_write_ready (t # ts) c =
     (if phase c \<noteq> SENDING_RECEIPT then (False, False, c)
      else if receipt_bytes c \<ge> FRAME_SIZE then (True, True, c)
      else case t of
        Write_expired \<Rightarrow> (False, False, c)
      | Write_interrupted \<Rightarrow> gather_write_ready ts c
      | Write_would_block \<Rightarrow> (True, False, c)
      | Write_failed \<Rightarrow> (False, False, c)
      | Sent n \<Rightarrow>
          let written = min n (FRAME_SIZE - receipt_bytes c) in
          if written = 0 then (False, False, c)
          else gather_write_ready ts (c\<lparr>receipt_bytes := receipt_bytes c + written\<rparr>))"

subsection \<open>The gather loop\<close>

definition GATHER_ACTIVE_MAX :: nat where
  "GATHER_ACTIVE_MAX = 128"

definition FD_RESERVE :: nat where
  "FD_RESERVE = 32"

text \<open>The descriptor limit is \<open>None\<close> when it is unknown or infinite.\<close>

definition gather_active_limit :: "nat option \<Rightarrow> nat \<Rightarrow> nat" where
  "gather_active_limit descriptor_limit peer_count =
     (let limit0 = (if peer_count < GATHER_ACTIVE_MAX then peer_count else GATHER_ACTIVE_MAX);
          limit1 = (case descriptor_limit of
                      None \<Rightarrow> limit0
                    | Some cur \<Rightarrow>
                        let reserved = FD_RESERVE + 1 in
                        if cur \<le> reserved then 1 else if cur - reserved < limit0 then cur - reserved else limit0)
      in if limit1 > 0 then limit1 else 1)"

datatype poll_answer = Poll_interrupted | Poll_failed | Poll_timeout | Poll_ready

text \<open>An accepted descriptor comes with the answer of \<^verbatim>\<open>set_nonblocking\<close>.\<close>

datatype accept_answer = Accepted bool | Accept_interrupted | Accept_would_block | Accept_failed | Accept_expired

record gather_round =
  round_in_time :: bool
  round_poll :: poll_answer
  listener_broken :: bool
  listener_ready :: bool
  round_accepts :: "accept_answer list"
  conn_ready :: "nat \<Rightarrow> bool"
  conn_broken :: "nat \<Rightarrow> bool"
  conn_reads :: "nat \<Rightarrow> read_tick list"
  conn_writes :: "nat \<Rightarrow> write_tick list"

record gather_state =
  connections :: "gather_connection list"
  accepted :: nat
  active :: nat
  completed :: nat
  aggregate :: gather_aggregate
  gather_ok :: bool

definition zero_capabilities :: capability_manifest where
  "zero_capabilities = \<lparr>cap_requested = 0, cap_compiled = 0, cap_active = 0, cap_partial = 0, cap_retained = 0, cap_failed = 0,
     cap_cuda_compiled_apis = 0, cap_cuda_found_apis = 0, cap_cuda_installed_apis = 0, cap_cuda_failed_apis = 0\<rparr>"

definition zero_jit :: jit_diagnostics where
  "zero_jit = \<lparr>jit_pending_queue_full = 0, jit_non_executable_timeout = 0, jit_attach_retry_timeout = 0, jit_allocation_failure = 0,
     jit_provider_generation = 0, jit_pending_count = 0, jit_pending_high_water = 0\<rparr>"

definition zero_header :: reduce_header where
  "zero_header = \<lparr>h_magic = 0, h_version = 0, h_rank = 0, h_hook_count = 0, h_session_token = 0, h_elapsed_seconds = Fin 0,
     h_profile_seconds = Fin 0, h_control_seconds = Fin 0, h_management_seconds = Fin 0, h_control_risk_seconds = Fin 0,
     h_profile_control_risk_seconds = Fin 0, h_profile_ratio = Fin 0, h_control_ratio = Fin 0, h_profile_control_ratio = Fin 0,
     h_profile_control_risk_ratio = Fin 0, h_control_risk_ratio = Fin 0, h_management_ratio = Fin 0, h_stop_window_count = 0,
     h_failed_stop_window_count = 0, h_dropped_calls = 0, h_dropped_threads = 0, h_local_ranks = 0, h_accounting_valid = 0,
     h_degraded_mask = 0, h_capabilities = zero_capabilities, h_jit = zero_jit\<rparr>"

definition zero_frame :: release_frame where
  "zero_frame = \<lparr>f_magic = 0, f_version = 0, f_rank = 0, f_hook_count = 0, f_session_token = 0, f_type = 0, f_decision = 0\<rparr>"

definition zero_connection :: gather_connection where
  "zero_connection = \<lparr>conn_open = False, phase = READING_HEADER, header_buffer = [], header = zero_header,
     report_tuple = zero_tuple, payload_bytes = 0, record_index = 0, record_buffer = [], receipt = zero_frame, receipt_bytes = 0,
     confirmation_buffer = []\<rparr>"

definition gather_connection_close :: "gather_connection \<Rightarrow> gather_connection" where
  "gather_connection_close c = c\<lparr>conn_open := False\<rparr>"

fun accept_loop :: "nat \<Rightarrow> accept_answer list \<Rightarrow> gather_state \<Rightarrow> gather_state" where
  "accept_loop peer_count [] s = s"
| "accept_loop peer_count (t # ts) s =
     (if accepted s \<ge> peer_count \<or> active s \<ge> length (connections s) then s
      else case t of
        Accept_expired \<Rightarrow> s
      | Accept_interrupted \<Rightarrow> accept_loop peer_count ts s
      | Accept_would_block \<Rightarrow> s
      | Accept_failed \<Rightarrow> s\<lparr>gather_ok := False\<rparr>
      | Accepted nonblocking \<Rightarrow>
          (case List.find (\<lambda>i. \<not> conn_open (connections s ! i)) [0..<length (connections s)] of
             None \<Rightarrow> s\<lparr>gather_ok := False\<rparr>
           | Some slot \<Rightarrow>
               if \<not> nonblocking then s\<lparr>gather_ok := False\<rparr>
               else accept_loop peer_count ts
                 (s\<lparr>connections := (connections s)[slot := zero_connection\<lparr>conn_open := True\<rparr>],
                    accepted := accepted s + 1, active := active s + 1\<rparr>)))"

text \<open>The receipt is out: the rank may be released.\<close>

definition receipt_complete :: "nat \<Rightarrow> gather_connection \<Rightarrow> gather_state \<Rightarrow> gather_state" where
  "receipt_complete i c s =
     (let r = conn_rank c in
      if r = 0 \<or> r \<ge> rank_size (aggregate s) \<or> release_targets (aggregate s) r
      then s\<lparr>connections := (connections s)[i := c], gather_ok := False\<rparr>
      else s\<lparr>connections := (connections s)[i := c\<lparr>phase := READING_CONFIRM, confirmation_buffer := []\<rparr>],
             aggregate := (aggregate s)\<lparr>release_targets := (release_targets (aggregate s))(r := True)\<rparr>\<rparr>)"

definition serve_connection :: "wire_env \<Rightarrow> gather_round \<Rightarrow> nat \<Rightarrow> gather_state \<Rightarrow> gather_state" where
  "serve_connection env rnd i s =
     (let c = connections s ! i in
      if \<not> gather_ok s \<or> \<not> conn_open c \<or> \<not> (conn_ready rnd i \<or> conn_broken rnd i) then s
      else
        let s1 =
          (if \<not> conn_ready rnd i then s
           else if phase c = SENDING_RECEIPT then
             (case gather_write_ready (conn_writes rnd i) c of
                (v, finished, c1) \<Rightarrow>
                  if v \<and> finished then receipt_complete i c1 s
                  else s\<lparr>connections := (connections s)[i := c1], gather_ok := v\<rparr>)
           else
             (case gather_read_ready env (conn_reads rnd i) c (aggregate s) of
                (v, confirmed, c1, a1) \<Rightarrow>
                  if v \<and> confirmed
                  then s\<lparr>connections := (connections s)[i := gather_connection_close c1], aggregate := a1,
                         completed := completed s + 1, active := active s - 1\<rparr>
                  else s\<lparr>connections := (connections s)[i := c1], aggregate := a1, gather_ok := v\<rparr>))
        in if gather_ok s1 \<and> conn_open (connections s1 ! i) \<and> conn_broken rnd i then s1\<lparr>gather_ok := False\<rparr> else s1)"

definition serve_all :: "wire_env \<Rightarrow> gather_round \<Rightarrow> gather_state \<Rightarrow> gather_state" where
  "serve_all env rnd s = fold (serve_connection env rnd) [0..<length (connections s)] s"

text \<open>A descriptor that was negative when \<^verbatim>\<open>poll\<close> was called has no events: a connection accepted in this round is served
  in the next.\<close>

definition polled :: "gather_state \<Rightarrow> gather_round \<Rightarrow> gather_round" where
  "polled s rnd =
     rnd\<lparr>conn_ready := (\<lambda>i. conn_open (connections s ! i) \<and> conn_ready rnd i),
         conn_broken := (\<lambda>i. conn_open (connections s ! i) \<and> conn_broken rnd i)\<rparr>"

fun gather_loop :: "wire_env \<Rightarrow> nat \<Rightarrow> gather_round list \<Rightarrow> gather_state \<Rightarrow> gather_state" where
  "gather_loop env peer_count [] s = s"
| "gather_loop env peer_count (rnd # rs) s =
     (if completed s \<ge> peer_count \<or> \<not> round_in_time rnd then s
      else case round_poll rnd of
        Poll_interrupted \<Rightarrow> gather_loop env peer_count rs s
      | Poll_failed \<Rightarrow> s\<lparr>gather_ok := False\<rparr>
      | Poll_timeout \<Rightarrow> s
      | Poll_ready \<Rightarrow>
          let listening = accepted s < peer_count \<and> active s < length (connections s) in
          if listening \<and> listener_broken rnd then s\<lparr>gather_ok := False\<rparr>
          else
            let s1 = (if listening \<and> listener_ready rnd then accept_loop peer_count (round_accepts rnd) s else s) in
            if listening \<and> listener_ready rnd \<and> \<not> gather_ok s1 then s1
            else gather_loop env peer_count rs (serve_all env (polled s rnd) s1))"

text \<open>A failure on a connection ends the service of all of them, but not the rounds: like the source, the loop polls on
  until the deadline or until it accepts.\<close>

definition root_gather ::
  "wire_env \<Rightarrow> nat option \<Rightarrow> nat \<Rightarrow> gather_round list \<Rightarrow> gather_aggregate \<Rightarrow> bool \<times> nat \<times> gather_aggregate" where
  "root_gather env descriptor_limit ranks rounds a =
     (if ranks \<le> 1 then (False, 0, a)
      else
        let peer_count = ranks - 1;
            s0 = \<lparr>connections = replicate (gather_active_limit descriptor_limit peer_count) zero_connection, accepted = 0,
                  active = 0, completed = 0, aggregate = a, gather_ok = True\<rparr>;
            s = gather_loop env peer_count rounds s0
        in (gather_ok s \<and> completed s = peer_count, completed s, aggregate s))"

end
