(* ===== verification/Socket_Aggregate.thy ===== *)
theory Socket_Aggregate
  imports Socket_Gather
begin

text \<open>
  The correctness of the gather of \<^verbatim>\<open>src/general_listener/socket_report_transport.c\<close>: when it succeeds, every peer
  rank has delivered exactly one header and one record per hook, and the aggregate is the root's own report
  with each of them merged once, however the connections interleave and however their bytes arrive.
\<close>

subsection \<open>What has been merged\<close>

text \<open>The history of a gather: the records merged from each rank, the order of the ranks for each hook, the header of
  each rank, and the ranks whose payload is complete in the order of their completion.\<close>

record gather_log =
  merged :: "nat \<Rightarrow> reduce_record list"
  order_of :: "nat \<Rightarrow> nat list"
  heads :: "nat \<Rightarrow> reduce_header"
  prepared :: "nat list"

definition merge_all :: "wire_env \<Rightarrow> reduce_record \<Rightarrow> reduce_record list \<Rightarrow> reduce_record option" where
  "merge_all env r0 rs = fold (\<lambda>r acc. Option.bind acc (merge_record env r)) rs (Some r0)"

lemma merge_all_Nil [simp]: "merge_all env r0 [] = Some r0"
  by (simp add: merge_all_def)

lemma merge_all_snoc [simp]: "merge_all env r0 (rs @ [r]) = Option.bind (merge_all env r0 rs) (merge_record env r)"
  by (simp add: merge_all_def)

definition absorb_rank :: "wire_env \<Rightarrow> reduce_header \<Rightarrow> gather_totals \<Rightarrow> gather_totals" where
  "absorb_rank env h t =
     absorb env (header_report_tuple h) h
       (t\<lparr>maxima := snd (maxima_consider (header_report_tuple h) (int (unat (h_rank h))) (maxima t))\<rparr>)"

definition peers :: "gather_aggregate \<Rightarrow> nat set" where
  "peers a = {1..<rank_size a}"

definition header_accepted :: "gather_aggregate \<Rightarrow> nat \<Rightarrow> reduce_header \<Rightarrow> bool" where
  "header_accepted a r h \<longleftrightarrow>
     unat (h_rank h) = r \<and> h_magic h = SOCKET_REDUCE_MAGIC \<and> h_version h = SOCKET_REDUCE_VERSION \<and>
     h_session_token h = session_token a \<and> unat (h_hook_count h) = hook_count a \<and>
     rank_tuple_is_valid (header_report_tuple h)"

definition aggregate_ok :: "wire_env \<Rightarrow> gather_aggregate \<Rightarrow> gather_log \<Rightarrow> gather_aggregate \<Rightarrow> bool" where
  "aggregate_ok env a0 g a \<longleftrightarrow>
     hook_count a = hook_count a0 \<and> record_bytes a = hook_count a0 * RECORD_SIZE \<and> rank_size a = rank_size a0 \<and>
     session_token a = session_token a0 \<and> length (aggregate_records a) = hook_count a0 \<and>
     (\<forall>i < hook_count a0.
        merge_all env (aggregate_records a0 ! i) (map (\<lambda>r. merged g r ! i) (order_of g i)) = Some (aggregate_records a ! i) \<and>
        distinct (order_of g i) \<and> set (order_of g i) = {r. i < length (merged g r)}) \<and>
     (\<forall>r. length (merged g r) \<le> hook_count a0) \<and>
     (\<forall>r. merged g r \<noteq> [] \<longrightarrow> claimed_ranks a r \<and> r \<in> peers a0) \<and>
     distinct (prepared g) \<and>
     (\<forall>r \<in> set (prepared g). claimed_ranks a r \<and> r \<in> peers a0 \<and> length (merged g r) = hook_count a0 \<and>
        header_accepted a0 r (heads g r)) \<and>
     totals a = fold (\<lambda>r. absorb_rank env (heads g r)) (prepared g) (totals a0)"

text \<open>A connection whose header was accepted has its rank.\<close>

definition named :: "gather_connection \<Rightarrow> bool" where
  "named c \<longleftrightarrow> conn_open c \<and> phase c \<noteq> READING_HEADER"

definition connection_ok :: "gather_aggregate \<Rightarrow> gather_log \<Rightarrow> gather_aggregate \<Rightarrow> gather_connection \<Rightarrow> bool" where
  "connection_ok a0 g a c \<longleftrightarrow>
     (if phase c = READING_HEADER then length (header_buffer c) < HEADER_SIZE
      else
        claimed_ranks a (conn_rank c) \<and> conn_rank c \<in> peers a0 \<and> heads g (conn_rank c) = header c \<and>
        header_accepted a0 (conn_rank c) (header c) \<and> report_tuple c = header_report_tuple (header c) \<and>
        length (merged g (conn_rank c)) = record_index c \<and> length (record_buffer c) < RECORD_SIZE \<and>
        (if phase c = READING_PAYLOAD
         then payload_bytes c = record_index c * RECORD_SIZE + length (record_buffer c) \<and> conn_rank c \<notin> set (prepared g)
         else conn_rank c \<in> set (prepared g) \<and> record_index c = hook_count a0) \<and>
        (phase c = READING_CONFIRM \<longrightarrow> release_targets a (conn_rank c)))"

text \<open>Work on one rank leaves the others alone.\<close>

definition only_rank :: "nat \<Rightarrow> gather_log \<Rightarrow> gather_log \<Rightarrow> gather_aggregate \<Rightarrow> gather_aggregate \<Rightarrow> bool" where
  "only_rank r g g' a a' \<longleftrightarrow>
     (\<forall>q. q \<noteq> r \<longrightarrow> merged g' q = merged g q \<and> heads g' q = heads g q \<and> (q \<in> set (prepared g') \<longleftrightarrow> q \<in> set (prepared g)) \<and>
        claimed_ranks a' q = claimed_ranks a q) \<and>
     release_targets a' = release_targets a \<and> rank_size a' = rank_size a"

lemma only_rank_refl [simp]: "only_rank r g g a a"
  by (simp add: only_rank_def)

lemma only_rank_trans: "only_rank r g g1 a a1 \<Longrightarrow> only_rank r g1 g2 a1 a2 \<Longrightarrow> only_rank r g g2 a a2"
  by (simp add: only_rank_def)

lemma connection_ok_other:
  assumes "connection_ok a0 g a c" and "only_rank r g g' a a'" and "named c \<Longrightarrow> conn_rank c \<noteq> r" and "conn_open c"
  shows "connection_ok a0 g' a' c"
  using assms by (auto simp: connection_ok_def only_rank_def named_def)

subsection \<open>A complete payload\<close>

lemma prepare_step:
  assumes "aggregate_ok env a0 g a" and "connection_ok a0 g a c" and "phase c = READING_PAYLOAD"
    and "gather_prepare_receipt env c a = (True, c', a')"
  shows "\<exists>g'. aggregate_ok env a0 g' a' \<and> connection_ok a0 g' a' c' \<and> only_rank (conn_rank c) g g' a a' \<and>
    header c' = header c \<and> phase c' = SENDING_RECEIPT \<and> conn_open c' = conn_open c \<and> claimed_ranks a' = claimed_ranks a"
proof -
  let ?r = "conn_rank c" and ?g' = "g\<lparr>prepared := prepared g @ [conn_rank c]\<rparr>"
  have full: "record_index c = hook_count a" "record_buffer c = []"
    using assms(4) by (auto simp: gather_prepare_receipt_def split: if_splits)
  obtain m where wins: "maxima_consider (report_tuple c) (int ?r) (maxima (totals a)) = (True, m)"
    by (simp add: maxima_consider_def)
  have a': "a' = a\<lparr>totals := absorb env (report_tuple c) (header c) ((totals a)\<lparr>maxima := m\<rparr>)\<rparr>"
    and c': "header c' = header c" "phase c' = SENDING_RECEIPT" "conn_open c' = conn_open c" "report_tuple c' = report_tuple c"
      "record_index c' = record_index c" "record_buffer c' = record_buffer c"
    using assms(4) full wins by (auto simp: gather_prepare_receipt_def)
  have tuple: "report_tuple c = header_report_tuple (header c)" "heads g ?r = header c" "?r \<notin> set (prepared g)"
    using assms(2,3) by (auto simp: connection_ok_def)
  have "totals a' = absorb_rank env (heads g ?r) (totals a)"
    using wins by (simp add: a' absorb_rank_def tuple)
  then have "aggregate_ok env a0 ?g' a'"
    using assms(1-3) tuple full by (auto simp: aggregate_ok_def connection_ok_def a')
  moreover have "connection_ok a0 ?g' a' c'"
    using assms(1-3) full by (auto simp: connection_ok_def c' a' aggregate_ok_def)
  moreover have "only_rank ?r g ?g' a a'"
    by (simp add: only_rank_def a')
  ultimately show ?thesis
    using c' a' by auto
qed

subsection \<open>Records\<close>

lemma merge_step:
  assumes ok: "aggregate_ok env a0 g a" "connection_ok a0 g a c" "phase c = READING_PAYLOAD"
    and k: "record_index c < hook_count a"
    and merge: "merge_record env x (aggregate_records a ! record_index c) = Some y"
    and c': "c' = c\<lparr>record_index := record_index c + 1, record_buffer := [], payload_bytes := (record_index c + 1) * RECORD_SIZE\<rparr>"
    and a': "a' = a\<lparr>aggregate_records := (aggregate_records a)[record_index c := y]\<rparr>"
  shows "\<exists>g'. aggregate_ok env a0 g' a' \<and> connection_ok a0 g' a' c' \<and> only_rank (conn_rank c) g g' a a'"
proof -
  let ?r = "conn_rank c" and ?k = "record_index c"
  let ?g' = "g\<lparr>merged := (merged g)(?r := merged g ?r @ [x]), order_of := (order_of g)(?k := order_of g ?k @ [?r])\<rparr>"
  have len: "length (merged g ?r) = ?k" and H: "?k < hook_count a0" and recs: "length (aggregate_records a) = hook_count a0"
    using ok k by (auto simp: connection_ok_def aggregate_ok_def)
  have notin: "?r \<notin> set (order_of g ?k)"
    using ok(1) H len by (auto simp: aggregate_ok_def)
  have nth: "merged ?g' q ! i = merged g q ! i" if "i < length (merged g q)" for q i
    using that by (auto simp: nth_append)
  have hook: "merge_all env (aggregate_records a0 ! i) (map (\<lambda>q. merged ?g' q ! i) (order_of ?g' i)) = Some (aggregate_records a' ! i) \<and>
      distinct (order_of ?g' i) \<and> set (order_of ?g' i) = {q. i < length (merged ?g' q)}" if i: "i < hook_count a0" for i
  proof -
    have old: "merge_all env (aggregate_records a0 ! i) (map (\<lambda>q. merged g q ! i) (order_of g i)) = Some (aggregate_records a ! i)"
      "distinct (order_of g i)" "set (order_of g i) = {q. i < length (merged g q)}"
      using ok(1) i by (simp_all add: aggregate_ok_def)
    have same: "map (\<lambda>q. merged ?g' q ! i) (order_of g i) = map (\<lambda>q. merged g q ! i) (order_of g i)"
      using old(3) nth by (intro map_cong) auto
    show ?thesis
    proof (cases "i = ?k")
      case True
      have ord: "order_of ?g' i = order_of g i @ [?r]"
        by (simp add: True)
      have "map (\<lambda>q. merged ?g' q ! i) (order_of ?g' i) = map (\<lambda>q. merged g q ! i) (order_of g i) @ [x]"
        unfolding ord map_append same using len True by (simp add: nth_append)
      then have "merge_all env (aggregate_records a0 ! i) (map (\<lambda>q. merged ?g' q ! i) (order_of ?g' i)) = Some y"
        using old(1) merge True by (simp only: merge_all_snoc Option.bind.bind_lunit)
      moreover have "set (order_of ?g' i) = {q. i < length (merged ?g' q)}"
        unfolding ord using old(3) True len by auto
      moreover have "distinct (order_of ?g' i)"
        unfolding ord using old(2) notin True by simp
      ultimately show ?thesis
        using True recs H by (simp add: a')
    next
      case False
      then have "{q. i < length (merged ?g' q)} = {q. i < length (merged g q)}" "order_of ?g' i = order_of g i"
        using len by auto
      then show ?thesis
        using old False by (simp only: same) (simp add: a')
    qed
  qed
  have notprep: "?r \<notin> set (prepared g)"
    using ok(2,3) by (simp add: connection_ok_def)
  have bounds: "length (merged ?g' q) \<le> hook_count a0" "merged ?g' q \<noteq> [] \<longrightarrow> claimed_ranks a q \<and> q \<in> peers a0" for q
    using ok len H by (auto simp: aggregate_ok_def connection_ok_def)
  have finished: "length (merged ?g' q) = hook_count a0" if "q \<in> set (prepared g)" for q
    using ok(1) that notprep by (auto simp: aggregate_ok_def)
  have "aggregate_ok env a0 ?g' a'"
    unfolding aggregate_ok_def using hook bounds finished ok(1) by (simp add: aggregate_ok_def a' del: fun_upd_apply)
  moreover have "connection_ok a0 ?g' a' c'"
    using ok len by (auto simp: connection_ok_def c' a' RECORD_SIZE_def)
  moreover have "only_rank ?r g ?g' a a'"
    by (simp add: only_rank_def a')
  ultimately show ?thesis
    by blast
qed

lemma buffer_step:
  assumes "connection_ok a0 g a c" and "phase c = READING_PAYLOAD" and "length (record_buffer c @ bs) < RECORD_SIZE"
  shows "connection_ok a0 g a (c\<lparr>record_buffer := record_buffer c @ bs, payload_bytes := payload_bytes c + length bs\<rparr>)"
  using assms by (auto simp: connection_ok_def)

lemma consume_step:
  assumes "aggregate_ok env a0 g a" and "connection_ok a0 g a c" and "phase c = READING_PAYLOAD"
    and "consume_loop env data c a = (True, c', a')"
  shows "\<exists>g'. aggregate_ok env a0 g' a' \<and> connection_ok a0 g' a' c' \<and> only_rank (conn_rank c) g g' a a' \<and>
    header c' = header c \<and> phase c' = READING_PAYLOAD \<and> conn_open c' = conn_open c"
  using assms
proof (induction "length data" arbitrary: data c a g rule: less_induct)
  case less
  show ?case
  proof (cases "data = []")
    case True
    then show ?thesis
      using less.prems by (auto simp: consume_loop.simps [of env "[]"])
  next
    case False
    let ?n = "RECORD_SIZE - length (record_buffer c)"
    define m where "m = (if ?n < length data then ?n else length data)"
    let ?c1 = "c\<lparr>record_buffer := record_buffer c @ take m data, payload_bytes := payload_bytes c + m\<rparr>"
    have room: "record_index c < hook_count a" "length (record_buffer c) < RECORD_SIZE"
      using less.prems(4) False by (subst (asm) consume_loop.simps; auto split: if_splits)+
    have m: "length (take m data) = m" "0 < m" "length (drop m data) < length data" "m \<le> ?n"
      using room(2) False by (auto simp: m_def)
    show ?thesis
    proof (cases "length (record_buffer ?c1) = RECORD_SIZE")
      case whole: True
      let ?x = "decode_record env (record_buffer ?c1)"
      obtain y where y: "merge_record env ?x (aggregate_records a ! record_index c) = Some y"
        using less.prems(4) False room whole m_def
        by (subst (asm) consume_loop.simps) (auto simp: Let_def split: option.splits)
      let ?c2 = "?c1\<lparr>record_index := record_index ?c1 + 1, record_buffer := []\<rparr>"
      let ?a2 = "a\<lparr>aggregate_records := (aggregate_records a)[record_index ?c1 := y]\<rparr>"
      have rest: "consume_loop env (drop m data) ?c2 ?a2 = (True, c', a')"
        using less.prems(4) False room whole y m_def by (subst (asm) consume_loop.simps) (simp add: Let_def)
      have "payload_bytes c + m = (record_index c + 1) * RECORD_SIZE"
        using less.prems(2,3) whole m(1) by (simp add: connection_ok_def)
      then have c2: "?c2 = c\<lparr>record_index := record_index c + 1, record_buffer := [], payload_bytes := (record_index c + 1) * RECORD_SIZE\<rparr>"
        by simp
      from merge_step [OF less.prems(1-3) room(1) y c2 refl] obtain g1 where
        g1: "aggregate_ok env a0 g1 ?a2" "connection_ok a0 g1 ?a2 ?c2" "only_rank (conn_rank c) g g1 a ?a2"
        by auto
      from less.hyps [OF m(3) g1(1,2) _ rest] less.prems(3) g1(3) show ?thesis
        using only_rank_trans by fastforce
    next
      case part: False
      have rest: "consume_loop env (drop m data) ?c1 a = (True, c', a')"
        using less.prems(4) False room part m_def by (subst (asm) consume_loop.simps) (simp add: Let_def)
      have "connection_ok a0 g a ?c1"
        using buffer_step [OF less.prems(2,3), of "take m data"] part m by simp
      from less.hyps [OF m(3) less.prems(1) this _ rest] less.prems(3) show ?thesis
        by simp
    qed
  qed
qed

subsection \<open>Reading from one connection\<close>

text \<open>Work on a connection extends the history at its own rank only, and a rank it takes was free.\<close>

definition progress ::
  "wire_env \<Rightarrow> gather_aggregate \<Rightarrow> gather_log \<Rightarrow> gather_aggregate \<Rightarrow> gather_connection \<Rightarrow>
   gather_log \<Rightarrow> gather_aggregate \<Rightarrow> gather_connection \<Rightarrow> bool" where
  "progress env a0 g a c g' a' c' \<longleftrightarrow>
     aggregate_ok env a0 g' a' \<and> connection_ok a0 g' a' c' \<and> only_rank (conn_rank c') g g' a a' \<and> conn_open c' = conn_open c \<and>
     (if phase c = READING_HEADER
      then phase c' = READING_HEADER \<and> g' = g \<and> a' = a \<or> phase c' \<noteq> READING_HEADER \<and> \<not> claimed_ranks a (conn_rank c')
      else header c' = header c \<and> phase c' \<noteq> READING_HEADER)"

lemma progress_refl: "aggregate_ok env a0 g a \<Longrightarrow> connection_ok a0 g a c \<Longrightarrow> progress env a0 g a c g a c"
  by (simp add: progress_def)

lemma progress_trans:
  "progress env a0 g a c g1 a1 c1 \<Longrightarrow> progress env a0 g1 a1 c1 g2 a2 c2 \<Longrightarrow> progress env a0 g a c g2 a2 c2"
  by (auto simp: progress_def split: if_splits intro: only_rank_trans)

lemma validate_step:
  assumes ok: "aggregate_ok env a0 g a" and c: "phase c = READING_HEADER"
    and v: "gather_validate_header env c a = (True, c', a')"
  shows "\<exists>g'. progress env a0 g a c g' a' c'"
proof -
  let ?h = "header c" and ?r = "conn_rank c"
  let ?a2 = "a\<lparr>claimed_ranks := (claimed_ranks a)(?r := True)\<rparr>"
  let ?c2 = "c\<lparr>report_tuple := header_report_tuple ?h, phase := READING_PAYLOAD, payload_bytes := 0, record_index := 0, record_buffer := []\<rparr>"
  let ?g2 = "g\<lparr>heads := (heads g)(?r := ?h)\<rparr>"
  have checks: "header_accepted a ?r ?h" "?r \<in> peers a" "\<not> claimed_ranks a ?r"
    using v by (auto simp: gather_validate_header_def header_accepted_def peers_def Let_def split: if_splits)
  then have free: "merged g ?r = []" "?r \<notin> set (prepared g)" "header_accepted a0 ?r ?h" "?r \<in> peers a0"
    using ok by (auto simp: aggregate_ok_def header_accepted_def peers_def)
  have "fold (\<lambda>q. absorb_rank env (heads ?g2 q)) (prepared g) t = fold (\<lambda>q. absorb_rank env (heads g q)) (prepared g) t" for t
    using free(2) by (intro fold_cong) auto
  then have ok2: "aggregate_ok env a0 ?g2 ?a2"
    using ok free by (auto simp: aggregate_ok_def)
  have c2: "connection_ok a0 ?g2 ?a2 ?c2"
    using free by (simp add: connection_ok_def RECORD_SIZE_def)
  have only: "only_rank ?r g ?g2 a ?a2"
    by (simp add: only_rank_def)
  have result: "(if record_bytes a = 0 then gather_prepare_receipt env ?c2 ?a2 else (True, ?c2, ?a2)) = (True, c', a')"
    using v by (auto simp: gather_validate_header_def Let_def split: if_splits)
  show ?thesis
  proof (cases "record_bytes a = 0")
    case True
    with result have "gather_prepare_receipt env ?c2 ?a2 = (True, c', a')"
      by simp
    from prepare_step [OF ok2 c2 _ this] obtain g' where
      g': "aggregate_ok env a0 g' a'" "connection_ok a0 g' a' c'" "only_rank ?r ?g2 g' ?a2 a'" "header c' = ?h"
        "phase c' = SENDING_RECEIPT" "conn_open c' = conn_open c"
      by auto
    then show ?thesis
      using c checks(3) only_rank_trans [OF only] by (auto simp: progress_def)
  next
    case False
    then show ?thesis
      using result ok2 c2 only c checks(3) by (auto simp: progress_def)
  qed
qed

lemma payload_step:
  assumes ok: "aggregate_ok env a0 g a" "connection_ok a0 g a c" and c: "phase c = READING_PAYLOAD"
    and v: "gather_consume_payload env data c a = (True, c', a')"
  shows "\<exists>g'. progress env a0 g a c g' a' c'"
proof -
  obtain c1 a1 where loop: "consume_loop env data c a = (True, c1, a1)"
    and result: "(if payload_bytes c1 = record_bytes a1 then gather_prepare_receipt env c1 a1
      else (payload_bytes c1 < record_bytes a1, c1, a1)) = (True, c', a')"
    using v by (auto simp: gather_consume_payload_def split: prod.splits bool.splits)
  from consume_step [OF ok c loop] obtain g1 where
    g1: "aggregate_ok env a0 g1 a1" "connection_ok a0 g1 a1 c1" "only_rank (conn_rank c) g g1 a a1" "header c1 = header c"
      "phase c1 = READING_PAYLOAD" "conn_open c1 = conn_open c"
    by blast
  show ?thesis
  proof (cases "payload_bytes c1 = record_bytes a1")
    case True
    with result have "gather_prepare_receipt env c1 a1 = (True, c', a')"
      by simp
    from prepare_step [OF g1(1,2,5) this] obtain g' where
      "aggregate_ok env a0 g' a'" "connection_ok a0 g' a' c'" "only_rank (conn_rank c1) g1 g' a1 a'" "header c' = header c1"
        "phase c' = SENDING_RECEIPT" "conn_open c' = conn_open c1"
      by auto
    then show ?thesis
      using g1 c only_rank_trans [OF g1(3)] by (auto simp: progress_def)
  next
    case False
    then show ?thesis
      using result g1 c by (auto simp: progress_def)
  qed
qed

lemma take_bytes_step:
  assumes ok: "aggregate_ok env a0 g a" "connection_ok a0 g a c" and c: "phase c \<noteq> SENDING_RECEIPT"
    and short: "length data \<le> read_request c a"
    and v: "take_bytes env data c a = (True, confirmed, c', a')"
  shows "\<exists>g'. progress env a0 g a c g' a' c' \<and> (confirmed \<longrightarrow> phase c' = READING_CONFIRM)"
proof (cases "phase c")
  case READING_HEADER
  let ?c1 = "c\<lparr>header_buffer := header_buffer c @ data\<rparr>"
  show ?thesis
  proof (cases "length (header_buffer ?c1) = HEADER_SIZE")
    case True
    then have "gather_validate_header env (?c1\<lparr>header := decode_header env (header_buffer ?c1)\<rparr>) a = (True, c', a')"
        "confirmed = False"
      using v READING_HEADER by (auto simp: take_bytes_def Let_def split: prod.splits)
    then have "\<exists>g'. progress env a0 g a (?c1\<lparr>header := decode_header env (header_buffer ?c1)\<rparr>) g' a' c'"
      using READING_HEADER by (intro validate_step [OF ok(1)]) simp_all
    then show ?thesis
      using READING_HEADER \<open>confirmed = False\<close> by (simp add: progress_def)
  next
    case False
    then have "c' = ?c1" "a' = a" "confirmed = False"
      using v READING_HEADER by (auto simp: take_bytes_def Let_def)
    then show ?thesis
      using ok READING_HEADER False short by (auto simp: progress_def connection_ok_def read_request_def intro!: exI [of _ g])
  qed
next
  case READING_PAYLOAD
  then have "gather_consume_payload env data c a = (True, c', a')" "confirmed = False"
    using v by (auto simp: take_bytes_def split: prod.splits)
  then show ?thesis
    using payload_step [OF ok READING_PAYLOAD] by simp
next
  case READING_CONFIRM
  then have "c' = c\<lparr>confirmation_buffer := confirmation_buffer c @ data\<rparr>" "a' = a"
    using v by (auto simp: take_bytes_def Let_def split: if_splits)
  then show ?thesis
    using ok READING_CONFIRM by (intro exI [of _ g]) (simp add: progress_def connection_ok_def)
qed (use c in simp)

lemma read_step:
  assumes "aggregate_ok env a0 g a" and "connection_ok a0 g a c"
    and "gather_read_ready env ts c a = (True, confirmed, c', a')"
  shows "\<exists>g'. progress env a0 g a c g' a' c' \<and> (confirmed \<longrightarrow> phase c' = READING_CONFIRM)"
  using assms
proof (induction ts arbitrary: c a g)
  case Nil
  then show ?case
    using progress_refl [OF Nil.prems(1,2)] by auto
next
  case (Cons t ts)
  show ?case
  proof (cases "phase c = SENDING_RECEIPT \<or> t = Read_would_block")
    case True
    then show ?thesis
      using Cons.prems progress_refl [OF Cons.prems(1,2)] by (auto split: if_splits)
  next
    case False
    then consider "t = Read_interrupted" "gather_read_ready env ts c a = (True, confirmed, c', a')"
      | bs where "t = Received bs"
      using Cons.prems(3) by (cases t) (auto split: if_splits)
    then show ?thesis
    proof cases
      case 1
      then show ?thesis
        using Cons.IH [OF Cons.prems(1,2)] by blast
    next
      case (2 bs)
      let ?data = "take (read_request c a) bs"
      obtain b c1 a1 where bytes: "take_bytes env ?data c a = (True, b, c1, a1)"
        and result: "if b then confirmed \<and> c' = c1 \<and> a' = a1 else gather_read_ready env ts c1 a1 = (True, confirmed, c', a')"
        using Cons.prems(3) False 2
        by (cases "take_bytes env ?data c a") (auto simp: Let_def split: if_splits bool.splits prod.splits)
      have "\<exists>g1. progress env a0 g a c g1 a1 c1 \<and> (b \<longrightarrow> phase c1 = READING_CONFIRM)"
        using False bytes Cons.prems(1,2) by (intro take_bytes_step [of env a0 g a c ?data b]) auto
      then obtain g1 where g1: "progress env a0 g a c g1 a1 c1" "b \<longrightarrow> phase c1 = READING_CONFIRM"
        by blast
      show ?thesis
      proof (cases b)
        case True
        then show ?thesis using result g1 by auto
      next
        case False
        have "aggregate_ok env a0 g1 a1" "connection_ok a0 g1 a1 c1"
          using g1(1) by (simp_all add: progress_def)
        from Cons.IH [OF this] result False show ?thesis
          using progress_trans [OF g1(1)] by auto
      qed
    qed
  qed
qed

lemma write_ready_effect:
  assumes "gather_write_ready ts c = (v, finished, c')"
  shows "c'\<lparr>receipt_bytes := 0\<rparr> = c\<lparr>receipt_bytes := 0\<rparr>" and "v \<Longrightarrow> phase c = SENDING_RECEIPT"
proof -
  show "c'\<lparr>receipt_bytes := 0\<rparr> = c\<lparr>receipt_bytes := 0\<rparr>"
    using assms by (induction ts c rule: gather_write_ready.induct) (auto simp: Let_def split: if_splits write_tick.splits)
  show "phase c = SENDING_RECEIPT" if v
    using assms that by (cases ts) (auto split: if_splits)
qed

lemma connection_ok_receipt_bytes [simp]: "connection_ok a0 g a (c\<lparr>receipt_bytes := n\<rparr>) = connection_ok a0 g a c"
  by (simp add: connection_ok_def)

subsection \<open>All connections\<close>

text \<open>\<open>D\<close> are the ranks that confirmed.\<close>

definition gathering :: "wire_env \<Rightarrow> gather_aggregate \<Rightarrow> gather_log \<Rightarrow> nat set \<Rightarrow> gather_state \<Rightarrow> bool" where
  "gathering env a0 g D s \<longleftrightarrow>
     aggregate_ok env a0 g (aggregate s) \<and>
     (\<forall>i < length (connections s). conn_open (connections s ! i) \<longrightarrow> connection_ok a0 g (aggregate s) (connections s ! i)) \<and>
     (\<forall>i < length (connections s). \<forall>j < length (connections s). i \<noteq> j \<longrightarrow> named (connections s ! i) \<longrightarrow> named (connections s ! j) \<longrightarrow>
        conn_rank (connections s ! i) \<noteq> conn_rank (connections s ! j)) \<and>
     D \<subseteq> set (prepared g) \<and> card D = completed s \<and>
     (\<forall>i < length (connections s). named (connections s ! i) \<longrightarrow> conn_rank (connections s ! i) \<notin> D) \<and>
     (\<forall>r \<in> D. release_targets (aggregate s) r)"

lemma gathering_cong:
  "connections s = connections s' \<Longrightarrow> aggregate s = aggregate s' \<Longrightarrow> completed s = completed s' \<Longrightarrow>
    gathering env a0 g D s = gathering env a0 g D s'"
  by (simp add: gathering_def)

lemma gathering_progress:
  assumes g: "gathering env a0 g D s" and i: "i < length (connections s)" "conn_open (connections s ! i)"
    and p: "progress env a0 g (aggregate s) (connections s ! i) g' a' c'"
  shows "gathering env a0 g' D (s\<lparr>connections := (connections s)[i := c'], aggregate := a'\<rparr>)"
proof -
  let ?c = "connections s ! i" and ?a = "aggregate s"
  have c': "aggregate_ok env a0 g' a'" "connection_ok a0 g' a' c'" "only_rank (conn_rank c') g g' ?a a'" "conn_open c'"
    using p i(2) by (simp_all add: progress_def)
  have named_c: "named ?c \<Longrightarrow> conn_rank c' = conn_rank ?c \<and> named c'"
    using p i(2) by (auto simp: progress_def named_def split: if_splits)
  have fresh: "\<not> named ?c \<Longrightarrow> named c' \<Longrightarrow> \<not> claimed_ranks ?a (conn_rank c')"
    using p i(2) by (auto simp: progress_def named_def split: if_splits)
  have same: "\<not> named c' \<Longrightarrow> g' = g \<and> a' = ?a"
    using p i(2) by (auto simp: progress_def named_def split: if_splits)
  have other: "conn_rank (connections s ! j) \<noteq> conn_rank c'"
    if "j < length (connections s)" "j \<noteq> i" "named (connections s ! j)" "named c'" for j
  proof (cases "named ?c")
    case True
    then show ?thesis
      using g i that named_c unfolding gathering_def by metis
  next
    case False
    have "claimed_ranks ?a (conn_rank (connections s ! j))"
      using g that(1,3) by (auto simp: gathering_def named_def connection_ok_def)
    then show ?thesis
      using fresh False that(4) by metis
  qed
  have conns: "connection_ok a0 g' a' (connections s ! j)"
    if "j < length (connections s)" "j \<noteq> i" "conn_open (connections s ! j)" for j
  proof (cases "named c'")
    case True
    have "connection_ok a0 g ?a (connections s ! j)"
      using g that by (simp add: gathering_def)
    then show ?thesis
      using other that True by (intro connection_ok_other [OF _ c'(3)]) auto
  qed (use g that same in \<open>auto simp: gathering_def\<close>)
  have notD: "named c' \<Longrightarrow> conn_rank c' \<notin> D"
  proof (cases "named ?c")
    case True
    then show "conn_rank c' \<notin> D"
      using g i(1) named_c by (simp add: gathering_def)
  next
    case False
    assume "named c'"
    have "\<forall>r\<in>D. claimed_ranks ?a r"
      using g by (auto simp: gathering_def aggregate_ok_def)
    then show "conn_rank c' \<notin> D"
      using fresh False \<open>named c'\<close> by blast
  qed
  have "D \<subseteq> set (prepared g')"
    using g same notD c'(3) unfolding gathering_def only_rank_def by (cases "named c'") (metis subset_iff, simp)
  moreover have "release_targets a' = release_targets ?a"
    using c'(3) by (simp add: only_rank_def)
  moreover have "conn_rank ((connections s)[i := c'] ! j) \<noteq> conn_rank ((connections s)[i := c'] ! k)"
    if "j < length (connections s)" "k < length (connections s)" "j \<noteq> k" "named ((connections s)[i := c'] ! j)"
      "named ((connections s)[i := c'] ! k)" for j k
    using that other [of j] other [of k] g i(1)
    by (cases "j = i"; cases "k = i") (auto simp: gathering_def)
  ultimately show ?thesis
    using g c' conns notD i(1) unfolding gathering_def by (auto simp: nth_list_update)
qed

lemma progress_write:
  assumes "aggregate_ok env a0 g a" and "connection_ok a0 g a c" and "c'\<lparr>receipt_bytes := 0\<rparr> = c\<lparr>receipt_bytes := 0\<rparr>"
  shows "progress env a0 g a c g a c'"
proof -
  have "phase c' = phase c" "conn_open c' = conn_open c" "header c' = header c"
    using assms(3) by (metis gather_connection.select_convs gather_connection.update_convs(10) gather_connection.surjective)+
  moreover have "connection_ok a0 g a c'"
    using assms(2,3) connection_ok_receipt_bytes by metis
  ultimately show ?thesis
    using assms(1) by (simp add: progress_def)
qed

lemma gathering_receipt:
  assumes g: "gathering env a0 g D s" and i: "i < length (connections s)" "conn_open (connections s ! i)"
    and c: "phase (connections s ! i) = SENDING_RECEIPT" "connections s ! i = c"
  shows "gathering env a0 g D (s\<lparr>connections := (connections s)[i := c\<lparr>phase := READING_CONFIRM, confirmation_buffer := []\<rparr>],
    aggregate := (aggregate s)\<lparr>release_targets := (release_targets (aggregate s))(conn_rank c := True)\<rparr>\<rparr>)"
proof -
  let ?a = "(aggregate s)\<lparr>release_targets := (release_targets (aggregate s))(conn_rank c := True)\<rparr>"
  let ?c = "c\<lparr>phase := READING_CONFIRM, confirmation_buffer := []\<rparr>"
  have "connection_ok a0 g ?a ?c"
    using g i c by (auto simp: gathering_def connection_ok_def)
  moreover have "connection_ok a0 g ?a (connections s ! j)" if "j < length (connections s)" "conn_open (connections s ! j)" for j
    using g that by (auto simp: gathering_def connection_ok_def)
  moreover have "named ?c" "named c" "conn_rank ?c = conn_rank c"
    using i(2) c by (simp_all add: named_def)
  moreover have "aggregate_ok env a0 g ?a"
    using g by (simp add: gathering_def aggregate_ok_def)
  ultimately show ?thesis
    using g i c(2) unfolding gathering_def by (auto simp: nth_list_update)
qed

lemma gathering_confirm:
  assumes g: "gathering env a0 g D s" and i: "i < length (connections s)" "conn_open (connections s ! i)"
    and c: "phase (connections s ! i) = READING_CONFIRM" "connections s ! i = c"
  shows "gathering env a0 g (insert (conn_rank c) D)
    (s\<lparr>connections := (connections s)[i := gather_connection_close c], completed := completed s + 1, active := n\<rparr>)"
proof -
  have "named c" "\<not> named (gather_connection_close c)" "\<not> conn_open (gather_connection_close c)"
    using i(2) c by (simp_all add: named_def gather_connection_close_def)
  moreover have "conn_rank c \<notin> D" "conn_rank c \<in> set (prepared g)" "release_targets (aggregate s) (conn_rank c)" "finite D"
    using g i c \<open>named c\<close> by (auto simp: gathering_def connection_ok_def intro: finite_subset [OF _ finite_set])
  moreover have "conn_rank (connections s ! j) \<noteq> conn_rank c" if "j < length (connections s)" "j \<noteq> i" "named (connections s ! j)" for j
    using g i that c(2) \<open>named c\<close> by (auto simp: gathering_def)
  ultimately show ?thesis
    using g i unfolding gathering_def by (auto simp: nth_list_update)
qed

lemma serve_step:
  assumes g: "gathering env a0 g D s" and i: "i < length (connections s)" and ok: "gather_ok (serve_connection env rnd i s)"
  shows "\<exists>g' D'. gathering env a0 g' D' (serve_connection env rnd i s)"
proof -
  let ?c = "connections s ! i" and ?a = "aggregate s"
  show ?thesis
  proof (cases "\<not> gather_ok s \<or> \<not> conn_open ?c \<or> \<not> conn_ready rnd i")
    case True
    then have "serve_connection env rnd i s = s \<or> \<not> gather_ok (serve_connection env rnd i s)"
      by (auto simp: serve_connection_def Let_def)
    then show ?thesis
      using g ok by metis
  next
    case False
    then have open_c: "conn_open ?c" and cok: "connection_ok a0 g ?a ?c" and aok: "aggregate_ok env a0 g ?a"
      using g i by (auto simp: gathering_def)
    show ?thesis
    proof (cases "phase ?c = SENDING_RECEIPT")
      case True
      obtain v finished c1 where w: "gather_write_ready (conn_writes rnd i) ?c = (v, finished, c1)"
        by (cases "gather_write_ready (conn_writes rnd i) ?c") auto
      let ?s1 = "s\<lparr>connections := (connections s)[i := c1], aggregate := ?a\<rparr>"
      have g1: "gathering env a0 g D ?s1"
        by (rule gathering_progress [OF g i open_c progress_write [OF aok cok write_ready_effect(1) [OF w]]])
      have c1: "phase c1 = SENDING_RECEIPT" "conn_open c1"
        using write_ready_effect(1) [OF w] True open_c
        by (metis gather_connection.select_convs gather_connection.update_convs(10) gather_connection.surjective)+
      have "serve_connection env rnd i s = ?s1 \<or> serve_connection env rnd i s =
          s\<lparr>connections := (connections s)[i := c1\<lparr>phase := READING_CONFIRM, confirmation_buffer := []\<rparr>],
            aggregate := ?a\<lparr>release_targets := (release_targets ?a)(conn_rank c1 := True)\<rparr>\<rparr>"
        using ok False True w i by (auto simp: serve_connection_def receipt_complete_def Let_def split: if_splits)
      then have "gathering env a0 g D (serve_connection env rnd i s)"
        using g1 gathering_receipt [OF g1, of i c1] i c1 by auto
      then show ?thesis
        by blast
    next
      case reading: False
      obtain v confirmed c1 a1 where r: "gather_read_ready env (conn_reads rnd i) ?c ?a = (v, confirmed, c1, a1)"
        by (cases "gather_read_ready env (conn_reads rnd i) ?c ?a") auto
      have v: v
        using ok False reading r by (auto simp: serve_connection_def Let_def split: if_splits)
      from read_step [OF aok cok r [unfolded v [THEN eqTrueI]]] obtain g1 where
        p: "progress env a0 g ?a ?c g1 a1 c1" "confirmed \<longrightarrow> phase c1 = READING_CONFIRM"
        by auto
      let ?s1 = "s\<lparr>connections := (connections s)[i := c1], aggregate := a1\<rparr>"
      have g1: "gathering env a0 g1 D ?s1"
        by (rule gathering_progress [OF g i open_c p(1)])
      have open_c1: "conn_open c1"
        using p(1) open_c by (simp add: progress_def)
      have "serve_connection env rnd i s = ?s1 \<or> confirmed \<and> serve_connection env rnd i s =
          s\<lparr>connections := (connections s)[i := gather_connection_close c1], aggregate := a1, completed := completed s + 1,
            active := active s - 1\<rparr>"
        using ok False reading r v i by (auto simp: serve_connection_def Let_def gather_connection_close_def split: if_splits)
      then consider "serve_connection env rnd i s = ?s1"
        | (confirmed) "confirmed" "serve_connection env rnd i s =
            s\<lparr>connections := (connections s)[i := gather_connection_close c1], aggregate := a1, completed := completed s + 1,
              active := active s - 1\<rparr>"
        by blast
      then show ?thesis
      proof cases
        case confirmed
        have "gathering env a0 g1 (insert (conn_rank c1) D)
            (?s1\<lparr>connections := (connections ?s1)[i := gather_connection_close c1], completed := completed ?s1 + 1, active := active s - 1\<rparr>)"
          by (rule gathering_confirm [OF g1]) (use i open_c1 p(2) confirmed(1) in simp_all)
        then have "gathering env a0 g1 (insert (conn_rank c1) D) (serve_connection env rnd i s)"
          by (rule gathering_cong [THEN iffD1, rotated 3]) (simp_all add: confirmed(2))
        then show ?thesis by blast
      qed (use g1 in metis)
    qed
  qed
qed

subsection \<open>The whole gather\<close>

lemma serve_connection_length [simp]: "length (connections (serve_connection env rnd i s)) = length (connections s)"
  by (simp add: serve_connection_def receipt_complete_def Let_def split: prod.splits)

lemma serve_connection_failed: "\<not> gather_ok s \<Longrightarrow> serve_connection env rnd i s = s"
  by (simp add: serve_connection_def Let_def)

lemma serve_fold_step:
  assumes "\<forall>i \<in> set js. i < length (connections s)" and "gathering env a0 g D s"
    and "gather_ok (fold (serve_connection env rnd) js s)"
  shows "\<exists>g' D'. gathering env a0 g' D' (fold (serve_connection env rnd) js s)"
  using assms
proof (induction js arbitrary: s g D)
  case (Cons i js)
  let ?s1 = "serve_connection env rnd i s"
  have "gather_ok ?s1"
  proof (rule ccontr)
    assume failed: "\<not> gather_ok ?s1"
    have "fold (serve_connection env rnd) ks ?s1 = ?s1" for ks
      by (induction ks) (simp_all add: serve_connection_failed [OF failed])
    then show False
      using Cons.prems(3) failed by simp
  qed
  from serve_step [OF Cons.prems(2) _ this] Cons.prems(1) obtain g1 D1 where "gathering env a0 g1 D1 ?s1"
    by auto
  then show ?case
    using Cons.IH [of ?s1 g1 D1] Cons.prems by simp
qed auto

lemma serve_all_step:
  "gathering env a0 g D s \<Longrightarrow> gather_ok (serve_all env rnd s) \<Longrightarrow> \<exists>g' D'. gathering env a0 g' D' (serve_all env rnd s)"
  unfolding serve_all_def by (rule serve_fold_step) auto

lemma accept_step:
  assumes "gathering env a0 g D s" and "gather_ok (accept_loop n ts s)"
  shows "gathering env a0 g D (accept_loop n ts s)"
  using assms
proof (induction ts arbitrary: s)
  case (Cons t ts)
  show ?case
  proof (cases "accepted s \<ge> n \<or> active s \<ge> length (connections s)")
    case False
    show ?thesis
    proof (cases t)
      case (Accepted nonblocking)
      then obtain slot where slot: "List.find (\<lambda>i. \<not> conn_open (connections s ! i)) [0..<length (connections s)] = Some slot"
        and "nonblocking"
        using Cons.prems(2) False by (auto split: option.splits if_splits)
      let ?s1 = "s\<lparr>connections := (connections s)[slot := zero_connection\<lparr>conn_open := True\<rparr>], accepted := accepted s + 1,
        active := active s + 1\<rparr>"
      have "\<not> named (zero_connection\<lparr>conn_open := True\<rparr>)" "connection_ok a0 g (aggregate s) (zero_connection\<lparr>conn_open := True\<rparr>)"
        by (simp_all add: named_def zero_connection_def connection_ok_def HEADER_SIZE_def)
      moreover have "slot < length (connections s)"
        using slot by (simp add: find_upt_Some)
      ultimately have "gathering env a0 g D ?s1"
        using Cons.prems(1) unfolding gathering_def by (auto simp: nth_list_update)
      then show ?thesis
        using Cons False Accepted slot \<open>nonblocking\<close> by simp
    qed (use Cons False in auto)
  qed (use Cons in simp)
qed simp

lemma accept_loop_failed: "\<not> gather_ok s \<Longrightarrow> \<not> gather_ok (accept_loop n ts s)"
  by (induction n ts s rule: accept_loop.induct) (auto split: accept_answer.splits option.splits)

definition after_accepts :: "nat \<Rightarrow> gather_round \<Rightarrow> gather_state \<Rightarrow> gather_state" where
  "after_accepts n rnd s =
     (if (accepted s < n \<and> active s < length (connections s)) \<and> listener_ready rnd
      then accept_loop n (round_accepts rnd) s else s)"

lemma gather_loop_round:
  assumes "completed s < n" and "round_in_time rnd" and "round_poll rnd = Poll_ready"
  defines "listening \<equiv> accepted s < n \<and> active s < length (connections s)"
  shows "gather_loop env n (rnd # rs) s =
    (if listening \<and> listener_broken rnd then s\<lparr>gather_ok := False\<rparr>
     else if listening \<and> listener_ready rnd \<and> \<not> gather_ok (after_accepts n rnd s) then after_accepts n rnd s
     else gather_loop env n rs (serve_all env (polled s rnd) (after_accepts n rnd s)))"
  using assms(1-3) by (auto simp: after_accepts_def listening_def Let_def)

lemma serve_all_failed: "\<not> gather_ok s \<Longrightarrow> serve_all env rnd s = s"
proof -
  assume failed: "\<not> gather_ok s"
  have "fold (serve_connection env rnd) ks s = s" for ks
    by (induction ks) (simp_all add: serve_connection_failed [OF failed])
  then show ?thesis
    by (simp add: serve_all_def)
qed

text \<open>A failed gather does not stop: a round that does not accept changes nothing and the loop goes on.\<close>

lemma failed_gather_polls_on:
  assumes "\<not> gather_ok s" and "completed s < n" and "round_in_time rnd" and "round_poll rnd = Poll_ready"
    and "\<not> listener_broken rnd" and "\<not> listener_ready rnd"
  shows "gather_loop env n (rnd # rs) s = gather_loop env n rs s"
  using assms by (simp add: gather_loop_round after_accepts_def serve_all_failed del: gather_loop.simps)

lemma gather_loop_failed: "\<not> gather_ok s \<Longrightarrow> \<not> gather_ok (gather_loop env n rs s)"
proof (induction rs arbitrary: s)
  case (Cons rnd rs)
  show ?case
  proof (cases "completed s < n \<and> round_in_time rnd \<and> round_poll rnd = Poll_ready")
    case True
    have "\<not> gather_ok (after_accepts n rnd s)"
      using Cons.prems accept_loop_failed by (simp add: after_accepts_def)
    then show ?thesis
      using True Cons.IH by (simp add: gather_loop_round serve_all_failed del: gather_loop.simps)
  next
    case False
    then show ?thesis
      using Cons.prems Cons.IH [OF Cons.prems] by (cases "round_poll rnd") auto
  qed
qed simp

lemma gather_loop_step:
  assumes "gathering env a0 g D s" and "gather_ok (gather_loop env n rs s)"
  shows "\<exists>g' D'. gathering env a0 g' D' (gather_loop env n rs s)"
  using assms
proof (induction rs arbitrary: s g D)
  case (Cons rnd rs)
  show ?case
  proof (cases "completed s < n \<and> round_in_time rnd \<and> round_poll rnd = Poll_ready")
    case False
    then show ?thesis
      using Cons by (cases "round_poll rnd") (auto split: if_splits)
  next
    case True
    let ?s1 = "after_accepts n rnd s"
    have loop: "gather_loop env n (rnd # rs) s = gather_loop env n rs (serve_all env (polled s rnd) ?s1)"
      using Cons.prems(2) True by (auto simp: gather_loop_round simp del: gather_loop.simps split: if_splits)
    then have served: "gather_ok (serve_all env (polled s rnd) ?s1)"
      using Cons.prems(2) gather_loop_failed by metis
    then have "gather_ok ?s1"
      using serve_all_failed by metis
    then have "gathering env a0 g D ?s1"
      using Cons.prems(1) by (auto simp: after_accepts_def intro: accept_step split: if_splits)
    then obtain g1 D1 where "gathering env a0 g1 D1 (serve_all env (polled s rnd) ?s1)"
      using serve_all_step served by blast
    then show ?thesis
      using Cons.IH loop Cons.prems(2) by metis
  qed
qed auto

subsection \<open>What merging adds up\<close>

lemma merge_record_adds:
  assumes "merge_record env x a = Some a'"
  shows "unat (r_num_calls a') = unat (r_num_calls a) + unat (r_num_calls x)"
    and "unat (r_thread_count a') = unat (r_thread_count a) + unat (r_thread_count x)"
    and "identity_hash a' = identity_hash a" and "identity_hash x = identity_hash a"
    and "(r_detached a' \<noteq> 0) = (r_detached a \<noteq> 0 \<or> r_detached x \<noteq> 0)"
  using assms by (auto simp: merge_record_def unat_add_guarded split: if_splits)

lemma merge_all_adds:
  assumes "merge_all env a rs = Some a'"
  shows "unat (r_num_calls a') = unat (r_num_calls a) + sum_list (map (unat \<circ> r_num_calls) rs) \<and>
    unat (r_thread_count a') = unat (r_thread_count a) + sum_list (map (unat \<circ> r_thread_count) rs) \<and>
    identity_hash a' = identity_hash a \<and> (\<forall>r \<in> set rs. identity_hash r = identity_hash a) \<and>
    ((r_detached a' \<noteq> 0) = (r_detached a \<noteq> 0 \<or> (\<exists>r \<in> set rs. r_detached r \<noteq> 0)))"
  using assms
proof (induction rs arbitrary: a' rule: rev_induct)
  case (snoc r rs)
  from snoc.prems obtain a1 where a1: "merge_all env a rs = Some a1" "merge_record env r a1 = Some a'"
    by (cases "merge_all env a rs") simp_all
  then show ?case
    using snoc.IH [OF a1(1)] merge_record_adds [OF a1(2)] by (simp add: disj_commute) blast
qed simp

lemma sum_list_distinct_set: "distinct xs \<Longrightarrow> set xs = A \<Longrightarrow> sum_list (map f xs) = (\<Sum>x\<in>A. f x)" for f :: "'a \<Rightarrow> nat"
  by (metis sum_list_distinct_conv_sum_set)

definition initial_aggregate :: "gather_aggregate \<Rightarrow> bool" where
  "initial_aggregate a \<longleftrightarrow> length (aggregate_records a) = hook_count a \<and> record_bytes a = hook_count a * RECORD_SIZE"

lemma gathering_start:
  assumes "initial_aggregate a0"
  shows "gathering env a0 \<lparr>merged = (\<lambda>r. []), order_of = (\<lambda>i. []), heads = (\<lambda>r. zero_header), prepared = []\<rparr> {}
    \<lparr>connections = replicate n zero_connection, accepted = 0, active = 0, completed = 0, aggregate = a0, gather_ok = True\<rparr>"
  using assms by (simp add: gathering_def aggregate_ok_def initial_aggregate_def named_def zero_connection_def)

lemma root_gather_log:
  assumes "root_gather env limit (rank_size a0) rounds a0 = (True, n, a)" and "initial_aggregate a0"
  shows "\<exists>g. aggregate_ok env a0 g a \<and> set (prepared g) = peers a0 \<and> (\<forall>r \<in> peers a0. release_targets a r) \<and> n = rank_size a0 - 1"
proof -
  let ?s0 = "\<lparr>connections = replicate (gather_active_limit limit (rank_size a0 - 1)) zero_connection, accepted = 0,
    active = 0, completed = 0, aggregate = a0, gather_ok = True\<rparr>"
  let ?s = "gather_loop env (rank_size a0 - 1) rounds ?s0"
  have s: "gather_ok ?s" "completed ?s = rank_size a0 - 1" "aggregate ?s = a" "n = rank_size a0 - 1" "1 < rank_size a0"
    using assms(1) by (auto simp: root_gather_def Let_def split: if_splits)
  from gather_loop_step [OF gathering_start [OF assms(2)] s(1)] obtain g D where
    g: "aggregate_ok env a0 g a" "D \<subseteq> set (prepared g)" "card D = rank_size a0 - 1" "\<forall>r\<in>D. release_targets a r"
    using s by (auto simp: gathering_def)
  have prep: "set (prepared g) \<subseteq> peers a0"
    using g(1) by (auto simp: aggregate_ok_def)
  have "D = peers a0"
    using g(2,3) prep by (intro card_subset_eq) (auto simp: peers_def)
  then show ?thesis
    using g prep s(4) by auto
qed

text \<open>The aggregate of hook \<open>i\<close> is the root's with one record of every peer.\<close>

definition adds_up :: "gather_aggregate \<Rightarrow> gather_aggregate \<Rightarrow> (nat \<Rightarrow> reduce_record list) \<Rightarrow> nat \<Rightarrow> bool" where
  "adds_up a0 a records i \<longleftrightarrow>
     unat (r_num_calls (aggregate_records a ! i)) =
       unat (r_num_calls (aggregate_records a0 ! i)) + (\<Sum>r\<in>peers a0. unat (r_num_calls (records r ! i))) \<and>
     unat (r_thread_count (aggregate_records a ! i)) =
       unat (r_thread_count (aggregate_records a0 ! i)) + (\<Sum>r\<in>peers a0. unat (r_thread_count (records r ! i))) \<and>
     (\<forall>r \<in> peers a0. identity_hash (records r ! i) = identity_hash (aggregate_records a0 ! i)) \<and>
     (r_detached (aggregate_records a ! i) \<noteq> 0 \<longleftrightarrow>
        r_detached (aggregate_records a0 ! i) \<noteq> 0 \<or> (\<exists>r \<in> peers a0. r_detached (records r ! i) \<noteq> 0))"


text \<open>Two ranks and one hook, the payload in two pieces.\<close>

definition sample_header :: reduce_header where
  "sample_header = header_set_report_tuple (sample_tuple 1)
     (zero_header\<lparr>h_magic := SOCKET_REDUCE_MAGIC, h_version := SOCKET_REDUCE_VERSION, h_rank := 1, h_hook_count := 1,
        h_session_token := 9\<rparr>)"

definition sample_record :: "uint64 \<Rightarrow> reduce_record" where
  "sample_record n = \<lparr>identity_hash = 77, r_num_calls = n, r_total_time = Fin 2, r_max_total_time = Fin 2, r_min_total_time = Fin 1,
     r_exclusive_time = Fin 1, r_max_time = Fin 1, r_min_time = Fin 1, r_thread_count = 1, r_detached = 0, r_reattached = 0,
     r_revisited = 0\<rparr>"

fun exact_add :: "double \<Rightarrow> double \<Rightarrow> double" where
  "exact_add (Fin a) (Fin b) = Fin (a + b)"
| "exact_add x y = NaN"

fun exact_sub :: "double \<Rightarrow> double \<Rightarrow> double" where
  "exact_sub (Fin a) (Fin b) = Fin (a - b)"
| "exact_sub x y = NaN"

definition sample_env :: wire_env where
  "sample_env = \<lparr>decode_header = (\<lambda>bs. sample_header), decode_record = (\<lambda>bs. sample_record 5),
     decode_frame = (\<lambda>bs. \<lparr>f_magic = SOCKET_REDUCE_MAGIC, f_version = SOCKET_REDUCE_VERSION, f_rank = 1, f_hook_count = 1,
       f_session_token = 13, f_type = GATHER_RECEIPT_CONFIRM, f_decision = GATHER_REGISTERED\<rparr>),
     fadd = exact_add, fsub = exact_sub\<rparr>"

definition sample_totals :: gather_totals where
  "sample_totals = \<lparr>maxima = snd (maxima_initialize (sample_tuple 2) 0), a_profile_seconds = Fin 0, min_elapsed_seconds = Fin 1,
     max_elapsed_seconds = Fin 1, a_failed_stop_window_count = 0, a_dropped_calls = 0, a_dropped_threads = 0,
     a_accounting_valid = True, a_degraded_mask = 0, a_capabilities = zero_capabilities, a_jit = zero_jit\<rparr>"

definition sample_aggregate :: gather_aggregate where
  "sample_aggregate = \<lparr>aggregate_records = [sample_record 3], hook_count = 1, record_bytes = 80, rank_size = 2, session_token = 9,
     receipt_session_token = 13, claimed_ranks = (\<lambda>r. r = 0), release_targets = (\<lambda>r. False), totals = sample_totals\<rparr>"

definition sample_round :: "accept_answer list \<Rightarrow> read_tick list \<Rightarrow> write_tick list \<Rightarrow> gather_round" where
  "sample_round accepts reads writes = \<lparr>round_in_time = True, round_poll = Poll_ready, listener_broken = False, listener_ready = True,
     round_accepts = accepts, conn_ready = (\<lambda>i. True), conn_broken = (\<lambda>i. False), conn_reads = (\<lambda>i. reads),
     conn_writes = (\<lambda>i. writes)\<rparr>"

definition zeros :: "nat \<Rightarrow> 8 word list" where
  "zeros n = replicate n 0"

lemma zeros_simps [simp]:
  "length (zeros n) = n" "take k (zeros n) = zeros (min k n)" "drop k (zeros n) = zeros (n - k)" "zeros n = [] \<longleftrightarrow> n = 0"
  by (simp_all add: zeros_def)

definition sample_rounds :: "gather_round list" where
  "sample_rounds =
     [sample_round [Accepted True] [] [], sample_round [] [Received (zeros 272), Received (zeros 50)] [],
      sample_round [] [Read_interrupted, Received (zeros 30)] [], sample_round [] [] [Sent 25, Sent 15],
      sample_round [] [Received (zeros 40)] []]"

lemma sample_merge: "\<exists>r. merge_record sample_env (sample_record 5) (sample_record 3) = Some r"
  by (simp add: merge_record_def sample_env_def sample_record_def bool_flag_def nonnegative_float_def DBL_MAX_def FLT_MAX_def
      dle_def deq_def)

definition conn0 :: gather_connection where "conn0 = zero_connection\<lparr>conn_open := True\<rparr>"
definition conn1 :: gather_connection where
  "conn1 = conn0\<lparr>header_buffer := zeros 272, header := sample_header, report_tuple := header_report_tuple sample_header, phase := READING_PAYLOAD,
     record_buffer := zeros 50, payload_bytes := 50\<rparr>"
definition agg1 :: gather_aggregate where
  "agg1 = sample_aggregate\<lparr>claimed_ranks := (\<lambda>r. r = 0)(1 := True)\<rparr>"

lemma sample_tuple_ok: "rank_tuple_is_valid (header_report_tuple sample_header)"
  using sample_tuple_valid [of 1]
  by (simp add: sample_header_def header_set_report_tuple_def header_report_tuple_def rank_tuple_is_valid_def sample_tuple_def DBL_MAX_def)

lemma append_zeros: "zeros m @ zeros n = zeros (m + n)" by (simp add: zeros_def replicate_add)
lemma zeros0 [simp]: "zeros 0 = []" by (simp add: zeros_def)

lemma consume_zeros_nil: "consume_loop env [] c a = (True, c, a)"
  by (subst consume_loop.simps) simp

lemma sample_requests:
  "read_request conn0 sample_aggregate = 272" "read_request (conn1\<lparr>record_buffer := [], payload_bytes := 0\<rparr>) agg1 = 80"
  "read_request conn1 agg1 = 30" "phase conn0 = READING_HEADER" "phase conn1 = READING_PAYLOAD"
  "phase (conn1\<lparr>record_buffer := [], payload_bytes := 0\<rparr>) = READING_PAYLOAD"
  by (simp_all add: read_request_def conn0_def conn1_def agg1_def zero_connection_def sample_aggregate_def HEADER_SIZE_def PAYLOAD_BUFFER_def)

lemma sample_read1: "gather_read_ready sample_env [Received (zeros 272), Received (zeros 50)] conn0 sample_aggregate = (True, False, conn1, agg1)"
proof -
  have 1: "take_bytes sample_env (zeros 272) conn0 sample_aggregate = (True, False, conn1\<lparr>record_buffer := [], payload_bytes := 0\<rparr>, agg1)"
    using sample_tuple_ok
    by (simp add: take_bytes_def conn0_def conn1_def agg1_def zero_connection_def HEADER_SIZE_def gather_validate_header_def
       sample_env_def sample_aggregate_def Let_def sample_header_def header_set_report_tuple_def)
  have 2: "take_bytes sample_env (zeros 50) (conn1\<lparr>record_buffer := [], payload_bytes := 0\<rparr>) agg1 = (True, False, conn1, agg1)"
    by (simp add: take_bytes_def conn1_def gather_consume_payload_def agg1_def sample_aggregate_def conn0_def zero_connection_def
      consume_loop.simps [of _ "zeros 50"] consume_zeros_nil RECORD_SIZE_def Let_def)
  show ?thesis
    by (simp add: sample_requests 1 2)
qed

definition rec2 :: reduce_record where
  "rec2 = the (merge_record sample_env (sample_record 5) (sample_record 3))"

lemma sample_merged: "merge_record sample_env (sample_record 5) (sample_record 3) = Some rec2"
  using sample_merge by (auto simp: rec2_def)

definition conn_full :: gather_connection where
  "conn_full = conn1\<lparr>record_buffer := [], record_index := 1, payload_bytes := 80\<rparr>"
definition agg_full :: gather_aggregate where
  "agg_full = agg1\<lparr>aggregate_records := [rec2]\<rparr>"

lemma sample_consume: "consume_loop sample_env (zeros 30) conn1 agg1 = (True, conn_full, agg_full)"
  by (subst consume_loop.simps)
    (simp add: conn1_def agg1_def sample_aggregate_def conn0_def zero_connection_def consume_zeros_nil RECORD_SIZE_def Let_def
      append_zeros sample_env_def sample_merged [unfolded sample_env_def] conn_full_def agg_full_def)

definition conn2 :: gather_connection where
  "conn2 = fst (snd (gather_prepare_receipt sample_env conn_full agg_full))"
definition agg2 :: gather_aggregate where
  "agg2 = snd (snd (gather_prepare_receipt sample_env conn_full agg_full))"

lemma sample_prepare: "gather_prepare_receipt sample_env conn_full agg_full = (True, conn2, agg2)"
  and sample_prepared: "phase conn2 = SENDING_RECEIPT" "header conn2 = sample_header" "f_session_token (receipt conn2) = 13" "conn_open conn2"
    "rank_size agg2 = 2" "release_targets agg2 = (\<lambda>r. False)" "receipt_bytes conn2 = 0"
  by (simp_all add: gather_prepare_receipt_def maxima_consider_def conn_full_def agg_full_def conn1_def conn0_def zero_connection_def
    agg1_def sample_aggregate_def conn2_def agg2_def Let_def)

lemma sample_read2: "gather_read_ready sample_env [Read_interrupted, Received (zeros 30)] conn1 agg1 = (True, False, conn2, agg2)"
proof -
  have "take_bytes sample_env (zeros 30) conn1 agg1 = (True, False, conn2, agg2)"
    by (simp add: take_bytes_def sample_requests gather_consume_payload_def sample_consume sample_prepare)
      (simp add: conn_full_def agg_full_def agg1_def sample_aggregate_def)
  then show ?thesis
    by (simp add: sample_requests sample_prepared)
qed

lemma sample_write: "gather_write_ready [Sent 25, Sent 15] conn2 = (True, True, conn2\<lparr>receipt_bytes := 40\<rparr>)"
  by (simp add: sample_prepared FRAME_SIZE_def)

definition conn3 :: gather_connection where
  "conn3 = conn2\<lparr>receipt_bytes := 40, phase := READING_CONFIRM, confirmation_buffer := []\<rparr>"
definition agg3 :: gather_aggregate where
  "agg3 = agg2\<lparr>release_targets := (\<lambda>r. r = 1)\<rparr>"

lemma sample_rank: "h_rank sample_header = 1" "h_hook_count sample_header = 1"
  by (simp_all add: sample_header_def header_set_report_tuple_def)

lemma sample_confirm: "gather_read_ready sample_env [Received (zeros 40)] conn3 agg3 = (True, True, conn3\<lparr>confirmation_buffer := zeros 40\<rparr>, agg3)"
  by (simp add: conn3_def read_request_def take_bytes_def FRAME_SIZE_def confirmation_valid_def sample_env_def sample_prepared sample_rank)

text \<open>One open connection.\<close>

definition serving :: "gather_connection \<Rightarrow> gather_aggregate \<Rightarrow> gather_state" where
  "serving c a = \<lparr>connections = [c], accepted = 1, active = 1, completed = 0, aggregate = a, gather_ok = True\<rparr>"

lemma sample_serve:
  assumes "conn_open c"
  shows "phase c \<noteq> SENDING_RECEIPT \<Longrightarrow> gather_read_ready env reads c a = (True, False, c1, a1) \<Longrightarrow>
      serve_all env (sample_round acc reads writes) (serving c a) = serving c1 a1"
    and "phase c \<noteq> SENDING_RECEIPT \<Longrightarrow> gather_read_ready env reads c a = (True, True, c1, a1) \<Longrightarrow>
      completed (serve_all env (sample_round acc reads writes) (serving c a)) = 1 \<and>
      gather_ok (serve_all env (sample_round acc reads writes) (serving c a))"
    and "phase c = SENDING_RECEIPT \<Longrightarrow> gather_write_ready writes c = (True, True, c1) \<Longrightarrow>
      serve_all env (sample_round acc reads writes) (serving c a) = receipt_complete 0 c1 (serving c a)"
  using assms by (simp_all add: serve_all_def serve_connection_def serving_def sample_round_def Let_def receipt_complete_def gather_connection_close_def)

lemma sample_loop:
  assumes "conn_open c"
  shows "gather_loop env 1 (sample_round acc reads writes # rs) (serving c a) =
     gather_loop env 1 rs (serve_all env (sample_round acc reads writes) (serving c a))"
proof -
  have "serve_all env (polled (serving c a) (sample_round acc reads writes)) (serving c a) =
      serve_all env (sample_round acc reads writes) (serving c a)"
    using assms by (simp add: serve_all_def serve_connection_def polled_def sample_round_def serving_def)
  then show ?thesis
    by (simp add: sample_round_def serving_def)
qed

lemma sample_gather: "fst (root_gather sample_env None 2 sample_rounds sample_aggregate)"
proof -
  let ?s0 = "\<lparr>connections = [zero_connection], accepted = 0, active = 0, completed = 0, aggregate = sample_aggregate, gather_ok = True\<rparr>"
  have accept: "gather_loop sample_env 1 (sample_round [Accepted True] [] [] # rs) ?s0 =
      gather_loop sample_env 1 rs (serving conn0 sample_aggregate)" for rs
    by (simp add: sample_round_def serving_def conn0_def zero_connection_def polled_def serve_all_def serve_connection_def)
  have opened: "conn_open conn0" "conn_open conn1" "conn_open conn3" "phase conn3 = READING_CONFIRM"
    by (simp_all add: conn0_def conn1_def conn3_def sample_prepared)
  have 3: "receipt_complete 0 (conn2\<lparr>receipt_bytes := 40\<rparr>) (serving conn2 agg2) = serving conn3 agg3"
    by (simp add: receipt_complete_def serving_def sample_prepared sample_rank conn3_def agg3_def fun_eq_iff)
  have serve: "serve_all sample_env (sample_round [] [Received (zeros 272), Received (zeros 50)] []) (serving conn0 sample_aggregate) =
      serving conn1 agg1"
    "serve_all sample_env (sample_round [] [Read_interrupted, Received (zeros 30)] []) (serving conn1 agg1) = serving conn2 agg2"
    "serve_all sample_env (sample_round [] [] [Sent 25, Sent 15]) (serving conn2 agg2) = serving conn3 agg3"
    using sample_serve(1) [OF opened(1) _ sample_read1] sample_serve(1) [OF opened(2) _ sample_read2] sample_serve(3) [OF sample_prepared(4,1) sample_write] 3
    by (simp_all add: sample_requests)
  have "completed (gather_loop sample_env 1 sample_rounds ?s0) = 1 \<and> gather_ok (gather_loop sample_env 1 sample_rounds ?s0)"
    unfolding sample_rounds_def accept sample_loop [OF opened(1)] sample_loop [OF opened(2)] sample_loop [OF sample_prepared(4)]
      sample_loop [OF opened(3)] serve gather_loop.simps(1)
    using sample_serve(2) [OF opened(3) _ sample_confirm] opened(4) by simp
  then show ?thesis
    by (simp add: root_gather_def gather_active_limit_def GATHER_ACTIVE_MAX_def Let_def)
qed


end
