(* ===== verification/Malloc_Radix.thy ===== *)
theory Malloc_Radix
  imports Peak_Prelude
begin

text \<open>
  The table of tracked allocations of \<^verbatim>\<open>src/malloc_interceptor.c\<close>: a radix tree of seven levels over the
  pointer, ten bits each, in which every thread walks, allocates missing nodes and publishes them by
  compare-and-exchange without a lock. One step of a thread is one atomic access; any number of threads
  interleave. The nodes are memory of the original allocator, whose answers are given with the steps.
\<close>

subsection \<open>Nodes and threads\<close>

definition RADIX_BITS :: nat where
  "RADIX_BITS = 10"

definition RADIX_MASK :: uint64 where
  "RADIX_MASK = 1023"

definition RADIX_LEVELS :: nat where
  "RADIX_LEVELS = (64 + RADIX_BITS - 1) div RADIX_BITS"

record radix_heap =
  root :: uint64
  nodes :: "uint64 \<Rightarrow> (uint64 \<Rightarrow> uint64) option"

definition slot_value :: "radix_heap \<Rightarrow> uint64 \<Rightarrow> uint64 \<Rightarrow> uint64" where
  "slot_value h n i = (case nodes h n of None \<Rightarrow> 0 | Some slots \<Rightarrow> slots i)"

definition set_slot :: "uint64 \<Rightarrow> uint64 \<Rightarrow> uint64 \<Rightarrow> radix_heap \<Rightarrow> radix_heap" where
  "set_slot n i v h = (case nodes h n of None \<Rightarrow> h | Some slots \<Rightarrow> h\<lparr>nodes := (nodes h)(n \<mapsto> slots(i := v))\<rparr>)"

definition radix_index :: "uint64 \<Rightarrow> nat \<Rightarrow> uint64" where
  "radix_index key level = drop_bit (level * RADIX_BITS) key AND RADIX_MASK"

datatype radix_op = Insert uint64 | Remove

datatype radix_result = Inserted | Occupied | Refused | Removed uint64 | Absent

text \<open>\<open>Walk level n\<close> is the head of the loop of \<^verbatim>\<open>tracking_radix_slot\<close>; at level 0 the thread is at its slot.\<close>

datatype radix_pc = Walk nat uint64 | Allocate nat uint64 | Publish nat uint64 uint64 | Returned radix_result

record radix_thread =
  rkey :: uint64
  rop :: radix_op
  rpc :: radix_pc

definition radix_start :: "radix_heap \<Rightarrow> uint64 \<Rightarrow> radix_op \<Rightarrow> radix_thread" where
  "radix_start h key op =
     \<lparr>rkey = key, rop = op, rpc = (if op = Insert (- 1) then Returned Refused else Walk (RADIX_LEVELS - 1) (root h))\<rparr>"

text \<open>The access to the slot itself: the compare-and-exchange of an insertion, the exchange of a removal. A slot
  holds 0 or the size plus one.\<close>

definition radix_leaf :: "radix_heap \<Rightarrow> uint64 \<Rightarrow> radix_thread \<Rightarrow> radix_heap \<times> radix_result" where
  "radix_leaf h n t =
     (let i = rkey t AND RADIX_MASK; encoded = slot_value h n i in
      case rop t of
        Insert sz \<Rightarrow> if encoded = 0 then (set_slot n i (sz + 1) h, Inserted) else (h, Occupied)
      | Remove \<Rightarrow> if encoded = 0 then (set_slot n i 0 h, Absent) else (set_slot n i 0 h, Removed (encoded - 1)))"

definition radix_step :: "uint64 \<Rightarrow> radix_heap \<Rightarrow> radix_thread \<Rightarrow> radix_heap \<times> radix_thread" where
  "radix_step allocated h t =
     (case rpc t of
        Walk level n \<Rightarrow>
          if level = 0 then (case radix_leaf h n t of (h1, r) \<Rightarrow> (h1, t\<lparr>rpc := Returned r\<rparr>))
          else
            let child = slot_value h n (radix_index (rkey t) level) in
            if child \<noteq> 0 then (h, t\<lparr>rpc := Walk (level - 1) child\<rparr>)
            else if rop t = Remove then (h, t\<lparr>rpc := Returned Absent\<rparr>)
            else (h, t\<lparr>rpc := Allocate level n\<rparr>)
      | Allocate level n \<Rightarrow>
          if allocated = 0 then (h, t\<lparr>rpc := Returned Refused\<rparr>)
          else (h\<lparr>nodes := (nodes h)(allocated \<mapsto> (\<lambda>i. 0))\<rparr>, t\<lparr>rpc := Publish level n allocated\<rparr>)
      | Publish level n fresh \<Rightarrow>
          let i = radix_index (rkey t) level; expected = slot_value h n i in
          if expected = 0 then (set_slot n i fresh h, t\<lparr>rpc := Walk (level - 1) fresh\<rparr>)
          else (h\<lparr>nodes := (nodes h)(fresh := None)\<rparr>, t\<lparr>rpc := Walk (level - 1) expected\<rparr>)
      | Returned r \<Rightarrow> (h, t))"

subsection \<open>Any number of threads\<close>

type_synonym radix_event = "uint64 \<times> radix_op \<times> radix_result"

record radix_system =
  rheap :: radix_heap
  rthreads :: "nat \<Rightarrow> radix_thread option"
  returns :: "radix_event list"

datatype radix_action = Call nat uint64 radix_op | Step nat uint64

fun note_return :: "radix_thread \<Rightarrow> radix_event list \<Rightarrow> radix_event list" where
  "note_return t es = (case rpc t of Returned r \<Rightarrow> es @ [(rkey t, rop t, r)] | _ \<Rightarrow> es)"

text \<open>A thread calls when it is not inside a call; a call that returned leaves.\<close>

definition settle :: "nat \<Rightarrow> radix_heap \<Rightarrow> radix_thread \<Rightarrow> radix_system \<Rightarrow> radix_system" where
  "settle i h t s =
     s\<lparr>rheap := h, rthreads := (rthreads s)(i := (case rpc t of Returned r \<Rightarrow> None | _ \<Rightarrow> Some t)),
       returns := note_return t (returns s)\<rparr>"

fun radix_act :: "radix_action \<Rightarrow> radix_system \<Rightarrow> radix_system" where
  "radix_act (Call i key op) s =
     (case rthreads s i of None \<Rightarrow> settle i (rheap s) (radix_start (rheap s) key op) s | Some t \<Rightarrow> s)"
| "radix_act (Step i allocated) s =
     (case rthreads s i of
        None \<Rightarrow> s
      | Some t \<Rightarrow> (case radix_step allocated (rheap s) t of (h, t1) \<Rightarrow> settle i h t1 s))"

definition empty_radix :: "uint64 \<Rightarrow> radix_system" where
  "empty_radix r = \<lparr>rheap = \<lparr>root = r, nodes = [r \<mapsto> (\<lambda>i. 0)]\<rparr>, rthreads = (\<lambda>i. None), returns = []\<rparr>"

text \<open>What is relied on of the original allocator: it hands out memory that is not in use.\<close>

fun fresh_answer :: "radix_action \<Rightarrow> radix_system \<Rightarrow> bool" where
  "fresh_answer (Step i allocated) s \<longleftrightarrow> nodes (rheap s) allocated = None"
| "fresh_answer (Call i key op) s \<longleftrightarrow> True"

fun fresh_answers :: "radix_action list \<Rightarrow> radix_system \<Rightarrow> bool" where
  "fresh_answers [] s \<longleftrightarrow> True"
| "fresh_answers (a # as) s \<longleftrightarrow> fresh_answer a s \<and> fresh_answers as (radix_act a s)"

subsection \<open>The table as a map\<close>

text \<open>The specification: a map from pointers to sizes, on which every call acts at once.\<close>

fun map_call :: "radix_event \<Rightarrow> (uint64 \<rightharpoonup> uint64) option \<Rightarrow> (uint64 \<rightharpoonup> uint64) option" where
  "map_call (key, op, r) None = None"
| "map_call (key, op, r) (Some m) =
     (case (op, r) of
        (Insert sz, Inserted) \<Rightarrow> if m key = None then Some (m(key \<mapsto> sz)) else None
      | (Insert sz, Occupied) \<Rightarrow> if m key = None then None else Some m
      | (Insert sz, Refused) \<Rightarrow> Some m
      | (Remove, Removed sz) \<Rightarrow> if m key = Some sz then Some (m(key := None)) else None
      | (Remove, Absent) \<Rightarrow> if m key = None then Some m else None
      | _ \<Rightarrow> None)"

text \<open>The node a key reaches after \<open>d\<close> levels from the root.\<close>

fun reach :: "radix_heap \<Rightarrow> uint64 \<Rightarrow> nat \<Rightarrow> uint64 option" where
  "reach h key 0 = Some (root h)"
| "reach h key (Suc d) =
     (case reach h key d of
        None \<Rightarrow> None
      | Some n \<Rightarrow> let c = slot_value h n (radix_index key (6 - d)) in if c = 0 then None else Some c)"

definition table_of :: "radix_heap \<Rightarrow> uint64 \<rightharpoonup> uint64" where
  "table_of h key =
     (case reach h key 6 of
        None \<Rightarrow> None
      | Some n \<Rightarrow> let v = slot_value h n (key AND RADIX_MASK) in if v = 0 then None else Some (v - 1))"

definition radix_prefix :: "uint64 \<Rightarrow> nat \<Rightarrow> uint64" where
  "radix_prefix key d = drop_bit ((7 - d) * RADIX_BITS) key"

lemma RADIX_LEVELS_7: "RADIX_LEVELS = 7"
  by (simp add: RADIX_LEVELS_def RADIX_BITS_def)

lemma word_split_eq: "drop_bit n k = drop_bit n k' \<Longrightarrow> take_bit n k = take_bit n k' \<Longrightarrow> k = k'" for k k' :: uint64
  by (metis bits_ident)

lemma RADIX_MASK_take: "k AND RADIX_MASK = take_bit RADIX_BITS k" for k :: uint64
proof -
  have "RADIX_MASK = mask RADIX_BITS"
    by (simp add: RADIX_MASK_def RADIX_BITS_def mask_eq_exp_minus_1)
  then show ?thesis
    by (simp add: take_bit_eq_mask)
qed

lemma radix_prefix_Suc:
  assumes "d < 7"
  shows "radix_prefix k (Suc d) = radix_prefix k' (Suc d) \<longleftrightarrow>
    radix_prefix k d = radix_prefix k' d \<and> radix_index k (6 - d) = radix_index k' (6 - d)"
proof -
  let ?b = "(6 - d) * RADIX_BITS"
  have len: "(7 - d) * RADIX_BITS = RADIX_BITS + ?b" "(7 - Suc d) * RADIX_BITS = ?b"
    using assms by (auto simp: RADIX_BITS_def)
  have "drop_bit RADIX_BITS (drop_bit ?b k) = drop_bit (RADIX_BITS + ?b) k" for k :: uint64
    by (simp add: drop_bit_drop_bit add.commute)
  then show ?thesis
    unfolding radix_prefix_def radix_index_def RADIX_MASK_take len using word_split_eq by metis
qed

lemma radix_prefix_0: "radix_prefix k 0 = radix_prefix k' 0"
proof -
  have "drop_bit 70 x = 0" for x :: uint64
    by (rule bit_word_eqI) (simp add: bit_drop_bit_eq bit_word_def)
  then show ?thesis
    by (simp add: radix_prefix_def RADIX_BITS_def)
qed

lemma radix_prefix_7: "radix_prefix k 7 = k"
  by (simp add: radix_prefix_def)

lemma radix_index_0: "radix_index k 0 = k AND RADIX_MASK"
  by (simp add: radix_index_def)

lemma key_by_prefix: "radix_prefix k 6 = radix_prefix k' 6 \<Longrightarrow> k AND RADIX_MASK = k' AND RADIX_MASK \<Longrightarrow> k = k'"
  using radix_prefix_Suc [of 6 k k'] by (simp add: radix_prefix_7 radix_index_0)

end
