(* ===== verification/Malloc_Linear.thy ===== *)
theory Malloc_Linear
  imports Malloc_Radix
begin

text \<open>
  The radix tree of tracked allocations is linearizable: seen through \<open>table_of\<close>, every call acts at one
  of its steps on a map, whatever the interleaving, and it returns after a bounded number of its own steps.
\<close>

subsection \<open>Reachable nodes\<close>

lemma reach_prefix: "d \<le> 7 \<Longrightarrow> radix_prefix k d = radix_prefix k' d \<Longrightarrow> reach h k d = reach h k' d"
proof (induction d)
  case (Suc d)
  then have "radix_prefix k d = radix_prefix k' d" "radix_index k (6 - d) = radix_index k' (6 - d)"
    using radix_prefix_Suc [of d k k'] by auto
  with Suc show ?case
    by (simp cong: option.case_cong)
qed simp

lemma reach_None_up: "reach h k d = None \<Longrightarrow> d \<le> e \<Longrightarrow> reach h k e = None"
  by (induction e) (auto simp: le_Suc_eq)

definition heap_ok :: "radix_heap \<Rightarrow> bool" where
  "heap_ok h \<longleftrightarrow>
     (\<forall>k d n. d \<le> 6 \<longrightarrow> reach h k d = Some n \<longrightarrow> nodes h n \<noteq> None) \<and>
     (\<forall>k k' d d' n. d \<le> 6 \<longrightarrow> d' \<le> 6 \<longrightarrow> reach h k d = Some n \<longrightarrow> reach h k' d' = Some n \<longrightarrow>
        d = d' \<and> radix_prefix k d = radix_prefix k' d)"

lemma heap_okD:
  assumes "heap_ok h" and "d \<le> 6" and "reach h k d = Some n"
  shows "nodes h n \<noteq> None" and "d' \<le> 6 \<Longrightarrow> reach h k' d' = Some n \<Longrightarrow> d' = d \<and> radix_prefix k' d = radix_prefix k d"
  using assms unfolding heap_ok_def by metis+

definition spare :: "radix_heap \<Rightarrow> uint64 \<Rightarrow> bool" where
  "spare h b \<longleftrightarrow> b \<noteq> 0 \<and> nodes h b = Some (\<lambda>i. 0) \<and> (\<forall>k d. d \<le> 6 \<longrightarrow> reach h k d \<noteq> Some b)"

lemma slot_value_set_slot:
  "slot_value (set_slot n i v h) m j = (if m = n \<and> j = i \<and> nodes h n \<noteq> None then v else slot_value h m j)"
  by (auto simp: slot_value_def set_slot_def split: option.splits)

lemma set_slot_simps [simp]:
  "root (set_slot n i v h) = root h" "nodes (set_slot n i v h) m = None \<longleftrightarrow> nodes h m = None"
  "m \<noteq> n \<Longrightarrow> nodes (set_slot n i v h) m = nodes h m"
  by (auto simp: set_slot_def split: option.splits)

lemma reach_same:
  assumes "\<And>k d n i. d < 6 \<Longrightarrow> reach h k d = Some n \<Longrightarrow> slot_value h' n i = slot_value h n i" and "root h' = root h" and "d \<le> 6"
  shows "reach h' k d = reach h k d"
  using assms(3)
proof (induction d)
  case (Suc d)
  then show ?case
    using assms(1) [of d k] by (auto split: option.splits)
qed (simp add: assms(2))

lemma heap_ok_same:
  assumes "heap_ok h" and "\<And>k d. d \<le> 6 \<Longrightarrow> reach h' k d = reach h k d"
    and "\<And>k d n. d \<le> 6 \<Longrightarrow> reach h k d = Some n \<Longrightarrow> nodes h' n \<noteq> None"
  shows "heap_ok h'"
  using assms unfolding heap_ok_def by (metis (no_types, lifting))

lemma table_of_same:
  assumes "reach h' k 6 = reach h k 6" and "\<And>n. reach h k 6 = Some n \<Longrightarrow> slot_value h' n (k AND RADIX_MASK) = slot_value h n (k AND RADIX_MASK)"
  shows "table_of h' k = table_of h k"
  using assms by (auto simp: table_of_def split: option.splits)

subsection \<open>The slot of a key\<close>

lemma leaf_write:
  fixes v :: uint64
  assumes h: "heap_ok h" "reach h k 6 = Some n"
  defines "h' \<equiv> set_slot n (k AND RADIX_MASK) v h"
  shows "d \<le> 6 \<Longrightarrow> reach h' k' d = reach h k' d" and "heap_ok h'"
    and "table_of h' = (table_of h)(k := if v = 0 then None else Some (v - 1))"
proof -
  have inner: "m \<noteq> n" if "d < 6" "reach h k' d = Some m" for k' d m
    using heap_okD(2) [OF h(1) _ h(2), of d k'] that by auto
  have reach: "reach h' k' d = reach h k' d" if "d \<le> 6" for k' d
    using that inner by (intro reach_same) (auto simp: h'_def slot_value_set_slot)
  then show "d \<le> 6 \<Longrightarrow> reach h' k' d = reach h k' d" .
  show "heap_ok h'"
    using h(1) reach by (rule heap_ok_same) (use heap_okD(1) [OF h(1)] in \<open>auto simp: h'_def\<close>)
  show "table_of h' = (table_of h)(k := if v = 0 then None else Some (v - 1))"
  proof
    fix k'
    show "table_of h' k' = ((table_of h)(k := if v = 0 then None else Some (v - 1))) k'"
    proof (cases "k' = k")
      case True
      then show ?thesis
        using reach [of 6 k] h heap_okD(1) [OF h(1) _ h(2)] by (simp add: table_of_def h'_def slot_value_set_slot)
    next
      case False
      have "slot_value h' m (k' AND RADIX_MASK) = slot_value h m (k' AND RADIX_MASK)" if "reach h k' 6 = Some m" for m
        using heap_okD(2) [OF h(1) _ h(2), of 6 k'] that key_by_prefix [of k' k] False
        by (auto simp: h'_def slot_value_set_slot)
      then show ?thesis
        using False reach [of 6 k'] table_of_same [of h' k' h] by simp
    qed
  qed
qed

subsection \<open>Linking a node\<close>

lemma link_reach:
  assumes h: "heap_ok h" and n: "reach h k d = Some n" "d < 6" and b: "spare h b"
    and zero: "slot_value h n (radix_index k (6 - d)) = 0" and "e \<le> 6"
  defines "h' \<equiv> set_slot n (radix_index k (6 - d)) b h"
  shows "reach h' k' e =
    (if e > d \<and> radix_prefix k' (Suc d) = radix_prefix k (Suc d) then (if e = Suc d then Some b else None) else reach h k' e)"
  using \<open>e \<le> 6\<close>
proof (induction e)
  case (Suc e)
  have alloc: "nodes h n \<noteq> None" "b \<noteq> 0" "b \<noteq> n" "\<And>i. slot_value h b i = 0"
    using heap_okD(1) [OF h _ n(1)] n b by (auto simp: spare_def slot_value_def)
  have same: "slot_value h' m (radix_index k' (6 - e)) = slot_value h m (radix_index k' (6 - e))"
    if "m \<noteq> n \<or> radix_index k' (6 - e) \<noteq> radix_index k (6 - d)" for m
    using that by (auto simp: h'_def slot_value_set_slot)
  have split: "radix_prefix k' (Suc d) = radix_prefix k (Suc d) \<longleftrightarrow>
      radix_prefix k' d = radix_prefix k d \<and> radix_index k' (6 - d) = radix_index k (6 - d)"
    using n(2) by (intro radix_prefix_Suc) simp
  have IH: "reach h' k' e =
    (if e > d \<and> radix_prefix k' (Suc d) = radix_prefix k (Suc d) then (if e = Suc d then Some b else None) else reach h k' e)"
    using Suc by simp
  consider (above) "e < d" | (at) "e = d" | (below) "e > d"
    by linarith
  then show ?case
  proof cases
    case above
    then have "m \<noteq> n" if "reach h k' e = Some m" for m
      using that heap_okD(2) [OF h _ n(1), of e k'] n(2) by auto
    then show ?thesis
      using above IH same by (auto split: option.splits)
  next
    case at
    show ?thesis
    proof (cases "radix_prefix k' (Suc d) = radix_prefix k (Suc d)")
      case True
      then have "reach h k' d = Some n"
        using split reach_prefix [of d k' k h] n by simp
      then show ?thesis
        using at True IH alloc split by (simp add: h'_def slot_value_set_slot)
    next
      case False
      have "m \<noteq> n \<or> radix_index k' (6 - e) \<noteq> radix_index k (6 - d)" if "reach h k' e = Some m" for m
        using that heap_okD(2) [OF h _ n(1), of e k'] n(2) False split at by auto
      then show ?thesis
        using at False IH same by (auto split: option.splits)
    qed
  next
    case below
    then have "m \<noteq> n" if "reach h k' e = Some m" for m
      using that heap_okD(2) [OF h _ n(1), of e k'] n(2) Suc.prems by auto
    then show ?thesis
      using below IH same alloc by (auto split: option.splits simp: Let_def)
  qed
qed (simp add: h'_def)

lemma link_node:
  assumes h: "heap_ok h" and n: "reach h k d = Some n" "d < 6" and b: "spare h b"
    and zero: "slot_value h n (radix_index k (6 - d)) = 0"
  defines "h' \<equiv> set_slot n (radix_index k (6 - d)) b h"
  shows "heap_ok h'" and "table_of h' = table_of h" and "reach h' k (Suc d) = Some b"
    and "\<And>k' e m. e \<le> 6 \<Longrightarrow> reach h k' e = Some m \<Longrightarrow> reach h' k' e = Some m"
    and "\<And>k' e m. e \<le> 6 \<Longrightarrow> reach h' k' e = Some m \<Longrightarrow> m = b \<or> reach h k' e = Some m"
proof -
  note link = link_reach [OF h n b zero, folded h'_def]
  have b0: "nodes h b \<noteq> None" "\<And>i. slot_value h' b i = 0" "\<And>k d. d \<le> 6 \<Longrightarrow> reach h k d \<noteq> Some b"
    using b heap_okD(1) [OF h _ n(1)] n by (auto simp: spare_def h'_def slot_value_set_slot) (auto simp: slot_value_def)
  have missing: "reach h k' e = None" if "e > d" "radix_prefix k' (Suc d) = radix_prefix k (Suc d)" for k' e
  proof -
    have "reach h k' (Suc d) = reach h k (Suc d)"
      using that n(2) by (intro reach_prefix) auto
    also have "\<dots> = None"
      using n zero by simp
    finally show ?thesis
      using that(1) reach_None_up [of h k' "Suc d" e] by simp
  qed
  show mono: "reach h' k' e = Some m" if "e \<le> 6" "reach h k' e = Some m" for k' e m
    using link [OF that(1), of k'] missing [of e k'] that(2) by auto
  show new: "m = b \<or> reach h k' e = Some m" if "e \<le> 6" "reach h' k' e = Some m" for k' e m
    using link [OF that(1), of k'] that(2) by (auto split: if_splits)
  show "reach h' k (Suc d) = Some b"
    using link [of "Suc d" k] n(2) by simp
  have only: "e = Suc d \<and> radix_prefix k' (Suc d) = radix_prefix k (Suc d)" if "e \<le> 6" "reach h' k' e = Some b" for k' e
    using link [OF that(1), of k'] that(2) b0(3) [OF that(1)] by (auto split: if_splits)
  show "heap_ok h'"
    unfolding heap_ok_def
  proof (intro conjI allI impI)
    fix k' e m
    assume "e \<le> 6" "reach h' k' e = Some m"
    then have "nodes h m \<noteq> None"
      using new [of e k' m] heap_okD(1) [OF h, of e k' m] b0(1) by auto
    then show "nodes h' m \<noteq> None"
      by (simp add: h'_def)
  next
    fix k1 k2 d1 d2 m
    assume d: "d1 \<le> 6" "d2 \<le> 6" "reach h' k1 d1 = Some m" "reach h' k2 d2 = Some m"
    show "d1 = d2" and "radix_prefix k1 d1 = radix_prefix k2 d1"
      using only [of d1 k1] only [of d2 k2] new [OF d(1,3)] new [OF d(2,4)] d b0(3) heap_okD(2) [OF h d(1), of k1 m d2 k2] by auto
  qed
  show "table_of h' = table_of h"
  proof
    fix k'
    show "table_of h' k' = table_of h k'"
    proof (cases "radix_prefix k' (Suc d) = radix_prefix k (Suc d)")
      case True
      then show ?thesis
        using missing [of 6 k'] n(2) link [of 6 k'] b0(2) by (auto simp: table_of_def)
    next
      case False
      then have "reach h' k' 6 = reach h k' 6"
        using link [of 6 k'] by simp
      moreover have "m \<noteq> n" if "reach h k' 6 = Some m" for m
        using heap_okD(2) [OF h _ n(1), of 6 k'] that n(2) by auto
      ultimately show ?thesis
        by (intro table_of_same) (auto simp: h'_def slot_value_set_slot)
    qed
  qed
qed

text \<open>Memory outside the tree changes nothing.\<close>

lemma outside_node:
  fixes x :: "(uint64 \<Rightarrow> uint64) option"
  assumes h: "heap_ok h" and a: "\<And>k d. d \<le> 6 \<Longrightarrow> reach h k d \<noteq> Some a"
  defines "h' \<equiv> h\<lparr>nodes := (nodes h)(a := x)\<rparr>"
  shows "heap_ok h'" and "table_of h' = table_of h" and "d \<le> 6 \<Longrightarrow> reach h' k d = reach h k d"
proof -
  have slots: "slot_value h' n i = slot_value h n i" if "d \<le> 6" "reach h k d = Some n" for k d n i
    using a that by (auto simp: slot_value_def h'_def)
  have reach: "reach h' k d = reach h k d" if "d \<le> 6" for k d
    using that
  proof (rule reach_same [rotated -1])
    show "slot_value h' n i = slot_value h n i" if "d < 6" "reach h k d = Some n" for k d n i
      using slots [of d k] that by simp
  qed (simp add: h'_def)
  then show "d \<le> 6 \<Longrightarrow> reach h' k d = reach h k d" .
  show "heap_ok h'"
    using h reach by (rule heap_ok_same) (use heap_okD(1) [OF h] a in \<open>auto simp: h'_def\<close>)
  show "table_of h' = table_of h"
    using reach [of 6] slots [of 6] by (intro ext table_of_same) auto
qed

subsection \<open>Threads\<close>

fun pc_ok :: "radix_heap \<Rightarrow> uint64 \<Rightarrow> radix_op \<Rightarrow> radix_pc \<Rightarrow> bool" where
  "pc_ok h k op (Walk l n) \<longleftrightarrow> l \<le> 6 \<and> op \<noteq> Insert (- 1) \<and> reach h k (6 - l) = Some n"
| "pc_ok h k op (Allocate l n) \<longleftrightarrow> 1 \<le> l \<and> l \<le> 6 \<and> op \<noteq> Insert (- 1) \<and> reach h k (6 - l) = Some n \<and> op \<noteq> Remove"
| "pc_ok h k op (Publish l n b) \<longleftrightarrow> 1 \<le> l \<and> l \<le> 6 \<and> op \<noteq> Insert (- 1) \<and> reach h k (6 - l) = Some n \<and> op \<noteq> Remove \<and> spare h b"
| "pc_ok h k op (Returned r) \<longleftrightarrow> True"

definition thread_ok :: "radix_heap \<Rightarrow> radix_thread \<Rightarrow> bool" where
  "thread_ok h t \<longleftrightarrow> pc_ok h (rkey t) (rop t) (rpc t)"

fun own_node :: "radix_pc \<Rightarrow> uint64 option" where
  "own_node (Publish l n b) = Some b"
| "own_node pc = None"

text \<open>A step of one thread keeps what another relies on: reached nodes stay, and a private node stays private.\<close>

lemma pc_ok_mono:
  assumes "pc_ok h k op pc" and "\<And>k d n. d \<le> 6 \<Longrightarrow> reach h k d = Some n \<Longrightarrow> reach h' k d = Some n"
    and "\<And>b. own_node pc = Some b \<Longrightarrow> spare h b \<Longrightarrow> spare h' b"
  shows "pc_ok h' k op pc"
  using assms by (cases pc) auto

definition effect :: "radix_heap \<Rightarrow> radix_thread \<Rightarrow> radix_heap \<Rightarrow> bool" where
  "effect h t h' \<longleftrightarrow>
     (case rpc t of
        Returned r \<Rightarrow> map_call (rkey t, rop t, r) (Some (table_of h)) = Some (table_of h')
      | _ \<Rightarrow> table_of h' = table_of h)"

text \<open>What a step does: the heap stays a tree, the thread goes on from where it is, the others are not disturbed, and
  the map changes exactly when the call returns.\<close>

definition good_step :: "radix_heap \<Rightarrow> radix_thread \<Rightarrow> radix_heap \<Rightarrow> radix_thread \<Rightarrow> bool" where
  "good_step h t h' t' \<longleftrightarrow>
     heap_ok h' \<and> thread_ok h' t' \<and> rkey t' = rkey t \<and> rop t' = rop t \<and> effect h t' h' \<and>
     (\<forall>k d n. d \<le> 6 \<longrightarrow> reach h k d = Some n \<longrightarrow> reach h' k d = Some n) \<and>
     (\<forall>b. spare h b \<longrightarrow> own_node (rpc t) \<noteq> Some b \<longrightarrow> spare h' b \<and> own_node (rpc t') \<noteq> Some b)"

lemma leaf_step:
  assumes h: "heap_ok h" "thread_ok h t" and pc: "rpc t = Walk 0 n"
  shows "good_step h t (fst (radix_step a h t)) (snd (radix_step a h t))"
proof -
  have n: "reach h (rkey t) 6 = Some n" and ins: "rop t \<noteq> Insert (- 1)"
    using h(2) by (simp_all add: thread_ok_def pc)
  have alloc: "nodes h n \<noteq> None"
    using heap_okD(1) [OF h(1) _ n] by simp
  have now: "table_of h (rkey t) =
      (let v = slot_value h n (rkey t AND RADIX_MASK) in if v = 0 then None else Some (v - 1))"
    using n by (simp add: table_of_def)
  have spares: "spare (set_slot n (rkey t AND RADIX_MASK) v h) b" if "spare h b" for v b
    using that n leaf_write(1) [OF h(1) n, of _ v] by (auto simp: spare_def) (metis order_refl set_slot_simps(3))
  have code: "sz + 1 \<noteq> 0" if "rop t = Insert sz" for sz
    using ins that by (metis add_eq_0_iff2)
  show ?thesis
    using leaf_write [OF h(1) n] now ins spares code h n
    by (cases "rop t") (auto simp: good_step_def radix_step_def radix_leaf_def pc effect_def thread_ok_def Let_def)
qed

lemma walk_step:
  assumes h: "heap_ok h" "thread_ok h t" and pc: "rpc t = Walk l n" "l \<noteq> 0"
  shows "good_step h t (fst (radix_step a h t)) (snd (radix_step a h t))"
proof -
  have n: "reach h (rkey t) (6 - l) = Some n" "l \<le> 6" and ins: "rop t \<noteq> Insert (- 1)"
    using h(2) by (simp_all add: thread_ok_def pc)
  have down: "6 - (l - 1) = Suc (6 - l)" "6 - (6 - l) = l"
    using pc(2) n(2) by auto
  let ?c = "slot_value h n (radix_index (rkey t) l)"
  have child: "reach h (rkey t) (Suc (6 - l)) = (if ?c = 0 then None else Some ?c)"
    using n down by simp
  have absent: "table_of h (rkey t) = None" if "?c = 0"
    using reach_None_up [of h "rkey t" "Suc (6 - l)" 6] child that down by (simp add: table_of_def)
  show ?thesis
  proof (cases "?c = 0")
    case True
    then show ?thesis
      using h n ins pc absent by (cases "rop t") (auto simp: good_step_def radix_step_def effect_def thread_ok_def)
  next
    case False
    then show ?thesis
      using h(1) n ins pc child down by (auto simp: good_step_def radix_step_def effect_def thread_ok_def Let_def)
  qed
qed

lemma allocate_step:
  assumes h: "heap_ok h" "thread_ok h t" and pc: "rpc t = Allocate l n" and a: "nodes h a = None"
  shows "good_step h t (fst (radix_step a h t)) (snd (radix_step a h t))"
proof (cases "a = 0")
  case True
  then show ?thesis
    using h pc by (cases "rop t") (auto simp: good_step_def radix_step_def effect_def thread_ok_def)
next
  case False
  have unreached: "reach h k d \<noteq> Some a" if "d \<le> 6" for k d
    using heap_okD(1) [OF h(1) that, of k a] a by auto
  note out = outside_node [OF h(1) unreached, where x = "Some (\<lambda>i. 0)"]
  have fresh: "spare (h\<lparr>nodes := (nodes h)(a \<mapsto> (\<lambda>i. 0))\<rparr>) a"
    using False unreached out(3) by (simp add: spare_def)
  have "spare (h\<lparr>nodes := (nodes h)(a \<mapsto> (\<lambda>i. 0))\<rparr>) b \<and> b \<noteq> a" if "spare h b" for b
    using that a out(3) by (auto simp: spare_def)
  then show ?thesis
    using h pc False out fresh by (auto simp: good_step_def radix_step_def effect_def thread_ok_def)
qed

lemma publish_step:
  assumes h: "heap_ok h" "thread_ok h t" and pc: "rpc t = Publish l n b"
  shows "good_step h t (fst (radix_step a h t)) (snd (radix_step a h t))"
proof -
  have n: "reach h (rkey t) (6 - l) = Some n" "1 \<le> l" "l \<le> 6" "rop t \<noteq> Remove" "rop t \<noteq> Insert (- 1)" and b: "spare h b"
    using h(2) by (simp_all add: thread_ok_def pc)
  have down: "6 - (l - 1) = Suc (6 - l)" "6 - (6 - l) = l" "6 - l < 6"
    using n by auto
  let ?i = "radix_index (rkey t) l"
  show ?thesis
  proof (cases "slot_value h n ?i = 0")
    case True
    note link = link_node [OF h(1) n(1) down(3) b, unfolded down(2), OF True]
    have others: "spare (set_slot n ?i b h) b'" if "spare h b'" "b' \<noteq> b" for b'
    proof -
      have "b' \<noteq> n"
        using that(1) n(1) down by (auto simp: spare_def)
      then show ?thesis
        using that link(5) unfolding spare_def by (metis set_slot_simps(3))
    qed
    show ?thesis
      using link(1-4) others n pc down True
      by (auto simp: good_step_def radix_step_def effect_def thread_ok_def Let_def)
  next
    case False
    have unreached: "reach h k d \<noteq> Some b" if "d \<le> 6" for k d
      using b that by (simp add: spare_def)
    note out = outside_node [OF h(1) unreached, where x = None]
    have "reach h (rkey t) (Suc (6 - l)) = Some (slot_value h n ?i)"
      using n False down by simp
    then have "reach (h\<lparr>nodes := (nodes h)(b := None)\<rparr>) (rkey t) (6 - (l - 1)) = Some (slot_value h n ?i)"
      using out(3) [of "Suc (6 - l)" "rkey t"] down by (simp del: reach.simps)
    moreover have "spare (h\<lparr>nodes := (nodes h)(b := None)\<rparr>) b'" if "spare h b'" "b' \<noteq> b" for b'
      using that out(3) by (auto simp: spare_def)
    ultimately show ?thesis
      using out n pc False by (auto simp: good_step_def radix_step_def effect_def thread_ok_def Let_def simp del: reach.simps)
  qed
qed

lemma radix_step_good:
  assumes "heap_ok h" and "thread_ok h t" and "rop t \<noteq> Remove \<Longrightarrow> nodes h a = None" and "\<And>r. rpc t \<noteq> Returned r"
  shows "good_step h t (fst (radix_step a h t)) (snd (radix_step a h t))"
proof (cases "rpc t")
  case (Walk l n)
  then show ?thesis
    using assms leaf_step walk_step by (cases "l = 0") auto
next
  case (Allocate l n)
  then have "rop t \<noteq> Remove"
    using assms(2) by (simp add: thread_ok_def)
  then show ?thesis
    using assms allocate_step Allocate by simp
qed (use assms publish_step in auto)

subsection \<open>The whole system\<close>

definition system_ok :: "radix_system \<Rightarrow> bool" where
  "system_ok s \<longleftrightarrow>
     heap_ok (rheap s) \<and>
     (\<forall>i t. rthreads s i = Some t \<longrightarrow> thread_ok (rheap s) t \<and> (\<forall>r. rpc t \<noteq> Returned r)) \<and>
     (\<forall>i j t u b. rthreads s i = Some t \<longrightarrow> rthreads s j = Some u \<longrightarrow> own_node (rpc t) = Some b \<longrightarrow>
        own_node (rpc u) = Some b \<longrightarrow> i = j) \<and>
     fold map_call (returns s) (Some Map.empty) = Some (table_of (rheap s))"

lemma settle_simps [simp]:
  "rheap (settle i h t s) = h"
  "rthreads (settle i h t s) j = (if j = i then (case rpc t of Returned r \<Rightarrow> None | _ \<Rightarrow> Some t) else rthreads s j)"
  "returns (settle i h t s) = note_return t (returns s)"
  by (simp_all add: settle_def)

lemma fold_map_call_return:
  assumes "fold map_call es (Some Map.empty) = Some (table_of h)" and "effect h t h'"
  shows "fold map_call (note_return t es) (Some Map.empty) = Some (table_of h')"
  using assms by (cases "rpc t") (auto simp: effect_def)

lemma settle_ok:
  assumes s: "system_ok s" and step: "good_step (rheap s) t0 h t"
    and t0: "own_node (rpc t0) = None \<or> rthreads s i = Some t0"
  shows "system_ok (settle i h t s)"
proof -
  note good = step [unfolded good_step_def]
  have others: "thread_ok h u \<and> own_node (rpc u) \<noteq> own_node (rpc t) \<or> own_node (rpc u) = None \<and> thread_ok h u"
    if u: "rthreads s j = Some u" "j \<noteq> i" for j u
  proof -
    have ok: "thread_ok (rheap s) u" and foreign: "own_node (rpc u) = Some b \<Longrightarrow> own_node (rpc t0) \<noteq> Some b" for b
      using s u t0 by (auto simp: system_ok_def)
    have mine: "own_node (rpc u) = Some b \<Longrightarrow> spare (rheap s) b" for b
      using ok by (cases "rpc u") (auto simp: thread_ok_def)
    then have keep: "own_node (rpc u) = Some b \<Longrightarrow> spare h b \<and> own_node (rpc t) \<noteq> Some b" for b
      using foreign good by blast
    have "pc_ok h (rkey u) (rop u) (rpc u)"
      by (rule pc_ok_mono [of "rheap s"]) (use ok keep good in \<open>auto simp: thread_ok_def\<close>)
    then show ?thesis
      using ok keep by (cases "own_node (rpc u)") (auto simp: thread_ok_def)
  qed
  show ?thesis
    unfolding system_ok_def
  proof (intro conjI allI impI)
    show "heap_ok (rheap (settle i h t s))"
      using good by simp
    show "fold map_call (returns (settle i h t s)) (Some Map.empty) = Some (table_of (rheap (settle i h t s)))"
      using s good fold_map_call_return [of "returns s" "rheap s" t h] by (simp add: system_ok_def)
  next
    fix j u
    assume u: "rthreads (settle i h t s) j = Some u"
    show "thread_ok (rheap (settle i h t s)) u"
      using u others good by (cases "rpc t") (auto split: if_splits)
    show "rpc u \<noteq> Returned r" for r
      using u s by (cases "rpc t") (auto simp: system_ok_def split: if_splits)
  next
    fix j k u v b
    assume "rthreads (settle i h t s) j = Some u" "rthreads (settle i h t s) k = Some v"
      "own_node (rpc u) = Some b" "own_node (rpc v) = Some b"
    then show "j = k"
      using s others [of j u] others [of k v] by (cases "rpc t") (auto simp: system_ok_def split: if_splits)
  qed
qed

lemma radix_act_ok:
  assumes s: "system_ok s" and fresh: "fresh_answer a s"
  shows "system_ok (radix_act a s)"
proof (cases a)
  case (Call i key op)
  let ?t = "radix_start (rheap s) key op"
  have "good_step (rheap s) ?t (rheap s) ?t"
    using s by (cases op) (auto simp: good_step_def radix_start_def effect_def thread_ok_def system_ok_def RADIX_LEVELS_7)
  then show ?thesis
    using s settle_ok [of s ?t] Call by (auto simp: radix_start_def split: option.splits)
next
  case (Step i allocated)
  show ?thesis
  proof (cases "rthreads s i")
    case (Some t)
    have "good_step (rheap s) t (fst (radix_step allocated (rheap s) t)) (snd (radix_step allocated (rheap s) t))"
      using s Some fresh Step by (intro radix_step_good) (auto simp: system_ok_def)
    then have "system_ok (settle i (fst (radix_step allocated (rheap s) t)) (snd (radix_step allocated (rheap s) t)) s)"
      using s Some by (intro settle_ok) auto
    then show ?thesis
      using Some Step by (simp add: case_prod_beta)
  qed (use s Step in simp)
qed

lemma empty_radix_ok: "system_ok (empty_radix r)"
proof -
  let ?h = "\<lparr>root = r, nodes = [r \<mapsto> (\<lambda>i. 0)]\<rparr>"
  have zero: "slot_value ?h n i = 0" for n i
    by (simp add: slot_value_def)
  have "reach ?h k d = (if d = 0 then Some r else None)" for k d
    by (induction d) (simp_all add: zero del: fun_upd_apply)
  then show ?thesis
    by (auto simp: system_ok_def empty_radix_def heap_ok_def table_of_def radix_prefix_0 fun_eq_iff)
qed

lemma radix_run_ok: "system_ok s \<Longrightarrow> fresh_answers as s \<Longrightarrow> system_ok (fold radix_act as s)"
  by (induction as arbitrary: s) (auto intro: radix_act_ok)

text \<open>(C13) The radix tree is a linearizable map: for every interleaving of the steps of any number of threads that insert
  and remove, in which the allocator hands out unused memory or refuses, the results of the calls are, in the order
  of their last steps, those of the same calls executed one after the other on a map from pointers to sizes, and
  the tree holds exactly that map. A call refused for want of memory has no effect, and neither have the nodes
  that lose the race for a slot.\<close>

theorem radix_is_linearizable:
  assumes "fresh_answers actions (empty_radix r)"
  shows "fold map_call (returns (fold radix_act actions (empty_radix r))) (Some Map.empty) =
    Some (table_of (rheap (fold radix_act actions (empty_radix r))))"
  using radix_run_ok [OF empty_radix_ok assms] by (simp add: system_ok_def)

text \<open>Two threads race for the first node of neighbouring keys, one loses; then one of the entries is removed.\<close>

definition sample_walk :: "nat \<Rightarrow> uint64 \<Rightarrow> radix_action list" where
  "sample_walk i base = concat (map (\<lambda>k. [Step i 0, Step i (base + of_nat k), Step i 0]) [0..<5])"

definition sample_race :: "radix_action list" where
  "sample_race =
     [Call 0 5 (Insert 10), Call 1 6 (Insert 20), Step 0 0, Step 1 0, Step 0 100, Step 1 101, Step 0 0, Step 1 0] @
     sample_walk 0 200 @ [Step 0 0] @ replicate 6 (Step 1 0) @ Call 0 5 Remove # replicate 7 (Step 0 0) @
     Call 1 5 Remove # replicate 7 (Step 1 0)"

theorem radix_is_linearizable_witness:
  "fresh_answers sample_race (empty_radix 1) \<and>
   returns (fold radix_act sample_race (empty_radix 1)) =
     [(5, Insert 10, Inserted), (6, Insert 20, Inserted), (5, Remove, Removed 10), (5, Remove, Absent)] \<and>
   table_of (rheap (fold radix_act sample_race (empty_radix 1))) = [6 \<mapsto> 20]"
proof -
  have fresh: "fresh_answers sample_race (empty_radix 1)"
    by code_simp
  have returned: "returns (fold radix_act sample_race (empty_radix 1)) =
     [(5, Insert 10, Inserted), (6, Insert 20, Inserted), (5, Remove, Removed 10), (5, Remove, Absent)]"
    by code_simp
  show ?thesis
    using radix_is_linearizable [OF fresh] fresh returned by (simp add: fun_upd_idem fun_eq_iff)
qed

subsection \<open>Every call returns\<close>

fun pc_cost :: "radix_pc \<Rightarrow> nat" where
  "pc_cost (Walk l n) = 3 * l + 1"
| "pc_cost (Allocate l n) = 3 * (l - 1) + 3"
| "pc_cost (Publish l n b) = 3 * (l - 1) + 2"
| "pc_cost (Returned r) = 0"

fun step_of :: "nat \<Rightarrow> radix_action \<Rightarrow> bool" where
  "step_of i (Step j a) \<longleftrightarrow> j = i"
| "step_of i (Call j k op) \<longleftrightarrow> False"

lemma radix_step_cost: "pc_cost (rpc t) \<noteq> 0 \<Longrightarrow> pc_cost (rpc (snd (radix_step a h t))) < pc_cost (rpc t)"
  by (cases "rpc t") (auto simp: radix_step_def Let_def split: prod.splits)

lemma thread_kept:
  assumes "rthreads s i = Some t" and "\<not> step_of i a"
  shows "rthreads (radix_act a s) i = Some t"
  using assms by (cases a) (auto split: option.splits prod.splits)

lemma call_returns:
  assumes "rthreads s i = Some t" and "0 < pc_cost (rpc t)" and "pc_cost (rpc t) \<le> length (filter (step_of i) actions)"
  shows "\<exists>k \<le> length actions. rthreads (fold radix_act (take k actions) s) i = None"
  using assms
proof (induction actions arbitrary: s t)
  case (Cons a actions)
  show ?case
  proof (cases "step_of i a")
    case False
    then have "\<exists>k \<le> length actions. rthreads (fold radix_act (take k actions) (radix_act a s)) i = None"
      using Cons thread_kept by (intro Cons.IH [of _ t]) auto
    then show ?thesis
      by (metis Suc_le_mono fold_simps(2) length_Cons take_Suc_Cons)
  next
    case True
    then obtain x where a: "a = Step i x"
      by (cases a) auto
    let ?t = "snd (radix_step x (rheap s) t)"
    have cost: "pc_cost (rpc ?t) < pc_cost (rpc t)"
      using radix_step_cost Cons.prems(2) by simp
    have next_pc: "rthreads (radix_act a s) i = (case rpc ?t of Returned r \<Rightarrow> None | _ \<Rightarrow> Some ?t)"
      using Cons.prems(1) by (simp add: a case_prod_beta)
    show ?thesis
    proof (cases "pc_cost (rpc ?t) = 0")
      case finished: True
      then have "rthreads (radix_act a s) i = None"
        using next_pc by (cases "rpc ?t") auto
      then show ?thesis
        by (intro exI [of _ 1]) simp
    next
      case unfinished: False
      then have "rthreads (radix_act a s) i = Some ?t"
        using next_pc by (cases "rpc ?t") auto
      then have "\<exists>k \<le> length actions. rthreads (fold radix_act (take k actions) (radix_act a s)) i = None"
        using unfinished cost Cons.prems(3) True by (intro Cons.IH) auto
      then show ?thesis
        by (metis Suc_le_mono fold_simps(2) length_Cons take_Suc_Cons)
    qed
  qed
qed simp

text \<open>(C18) The tree is wait-free: a call on it has returned at the latest when its thread has taken nineteen steps, in
  whatever way the other threads interleave and whatever they do to the nodes it passes.\<close>

theorem radix_is_wait_free:
  assumes "rthreads s i = None" and "19 \<le> length (filter (step_of i) actions)"
  shows "\<exists>k \<le> length actions. rthreads (fold radix_act (take k actions) (radix_act (Call i key op) s)) i = None"
proof (cases "rthreads (radix_act (Call i key op) s) i")
  case (Some t)
  then have "pc_cost (rpc t) = 19"
    using assms(1) by (auto simp: radix_start_def RADIX_LEVELS_7 split: if_splits)
  then show ?thesis
    using call_returns [OF Some, of actions] assms(2) by auto
qed (intro exI [of _ 0]; simp)

theorem radix_is_wait_free_witness:
  "rthreads (empty_radix 1) 0 = None \<and> 19 \<le> length (filter (step_of 0) (replicate 19 (Step 0 0))) \<and>
   (\<exists>k \<le> 19. rthreads (fold radix_act (take k (replicate 19 (Step 0 0))) (radix_act (Call 0 7 Remove) (empty_radix 1))) 0 = None)"
proof -
  have "rthreads (empty_radix 1) 0 = None" "19 \<le> length (filter (step_of 0) (replicate 19 (Step 0 0)))"
    by (simp_all add: empty_radix_def)
  from radix_is_wait_free [OF this, of 7 Remove] this show ?thesis
    by (simp del: radix_act.simps)
qed

end
