(* ===== verification/Malloc_Tracking.thy ===== *)
theory Malloc_Tracking
  imports Malloc_Linear
begin

text \<open>
  The allocation hooks of \<^verbatim>\<open>src/malloc_interceptor.c\<close>: every replaced function enters, calls the original one,
  keeps the table of tracked allocations, the byte counters and the event log, and leaves. A hook call is one
  transition here; the concurrency of the table is that of theory \<^verbatim>\<open>Malloc_Linear\<close>. What the original functions, the
  clock, the backtrace and the allocator of tree nodes answer comes with the call (\<open>hook_env\<close>).
\<close>

subsection \<open>State\<close>

definition ACCOUNTING_SHARD_COUNT :: nat where
  "ACCOUNTING_SHARD_COUNT = 4096"

definition INT64_MAX :: uint64 where
  "INT64_MAX = 0x7FFFFFFFFFFFFFFF"

definition ENOMEM :: int where
  "ENOMEM = 12"

record PeakTrackingTransition =
  timestamp_ns :: uint64
  transition_seq :: uint64
  transition_shard :: nat

record PeakMemEvent =
  ts_ns :: uint64
  delta :: int
  current :: uint64
  accounting_sequence :: uint64
  tid :: uint32
  accounting_shard :: nat
  event_op :: nat

record malloc_state =
  tracking_root :: radix_heap
  shard_bytes :: "nat \<Rightarrow> uint64"
  next_sequence :: "nat \<Rightarrow> uint64"
  fallback_current_memory :: uint64
  max_memory :: uint64
  memlog_active :: bool
  logged :: "PeakMemEvent list"
  tracking_tables_active :: bool
  cleanup_in_progress :: bool
  tracking_degraded :: bool
  hook_activity :: "nat \<Rightarrow> uint32"
  thread_errno :: int

text \<open>\<open>original_ptr\<close> is 0 for a null pointer. \<open>node_answers\<close> are the answers to the allocations of tree nodes, \<open>clock\<close> the readings of the
  clock in their order, \<open>caller_names\<close> the function names of the backtrace.\<close>

record hook_env =
  env_thread :: uint32
  env_activity_shard :: nat
  env_in_hook :: bool
  env_in_backtrace :: bool
  original_ptr :: uint64
  original_errno :: int
  node_answers :: "nat \<Rightarrow> uint64"
  clock1 :: uint64
  clock2 :: uint64
  track_all :: bool
  caller_names :: "string list"
  caller_targets :: "string list"

subsection \<open>The table\<close>

fun radix_loop :: "nat \<Rightarrow> (nat \<Rightarrow> uint64) \<Rightarrow> radix_heap \<Rightarrow> radix_thread \<Rightarrow> radix_heap \<times> radix_result" where
  "radix_loop 0 answers h t = (h, (case rpc t of Returned r \<Rightarrow> r | _ \<Rightarrow> Refused))"
| "radix_loop (Suc n) answers h t =
     (case rpc t of
        Returned r \<Rightarrow> (h, r)
      | _ \<Rightarrow> (case radix_step (answers n) h t of (h1, t1) \<Rightarrow> radix_loop n answers h1 t1))"

definition tracking_radix_insert :: "(nat \<Rightarrow> uint64) \<Rightarrow> uint64 \<Rightarrow> uint64 \<Rightarrow> radix_heap \<Rightarrow> bool \<times> radix_heap" where
  "tracking_radix_insert answers ptr sz h =
     (case radix_loop 19 answers h (radix_start h ptr (Insert sz)) of (h1, r) \<Rightarrow> (r = Inserted, h1))"

definition tracking_radix_remove :: "uint64 \<Rightarrow> radix_heap \<Rightarrow> uint64 option \<times> radix_heap" where
  "tracking_radix_remove ptr h =
     (case radix_loop 19 (\<lambda>n. 0) h (radix_start h ptr Remove) of
        (h1, r) \<Rightarrow> (case r of Removed sz \<Rightarrow> (Some sz, h1) | _ \<Rightarrow> (None, h1)))"

subsection \<open>Accounting\<close>

definition accounting_shard_for :: "uint64 \<Rightarrow> nat" where
  "accounting_shard_for ptr =
     (let v0 = drop_bit 4 ptr; v1 = v0 XOR drop_bit 17 v0; v2 = v1 XOR drop_bit 9 v1
      in unat (v2 AND (of_nat ACCOUNTING_SHARD_COUNT - 1)))"

definition tracking_fallback_account_add :: "uint64 \<Rightarrow> malloc_state \<Rightarrow> bool \<times> malloc_state" where
  "tracking_fallback_account_add sz s =
     (let observed = fallback_current_memory s in
      if sz > - 1 - observed then (False, s)
      else
        let updated = observed + sz in
        (True, s\<lparr>fallback_current_memory := updated, max_memory := (if max_memory s < updated then updated else max_memory s)\<rparr>))"

text \<open>The transition of a shard: the time, then its next sequence number.\<close>

definition take_transition :: "uint64 \<Rightarrow> nat \<Rightarrow> malloc_state \<Rightarrow> PeakTrackingTransition \<times> malloc_state" where
  "take_transition now k s =
     (\<lparr>timestamp_ns = now, transition_seq = next_sequence s k, transition_shard = k\<rparr>,
      s\<lparr>next_sequence := (next_sequence s)(k := next_sequence s k + 1)\<rparr>)"

text \<open>The byte counters behind the transition; they rest while the event log is active.\<close>

definition account_bytes :: "nat \<Rightarrow> uint64 \<Rightarrow> malloc_state \<Rightarrow> bool \<times> malloc_state" where
  "account_bytes k sz s =
     (if memlog_active s then (True, s)
      else
        let observed = shard_bytes s k in
        if sz > - 1 - observed then (False, s)
        else
          let s1 = s\<lparr>shard_bytes := (shard_bytes s)(k := observed + sz)\<rparr> in
          case tracking_fallback_account_add sz s1 of
            (True, s2) \<Rightarrow> (True, s2)
          | (False, s2) \<Rightarrow> (False, s2\<lparr>shard_bytes := (shard_bytes s2)(k := shard_bytes s2 k - sz)\<rparr>))"

definition tracking_account_add ::
  "uint64 \<Rightarrow> nat \<Rightarrow> uint64 \<Rightarrow> malloc_state \<Rightarrow> bool \<times> PeakTrackingTransition \<times> malloc_state" where
  "tracking_account_add now k sz s =
     (case take_transition now k s of (tr, s1) \<Rightarrow> (case account_bytes k sz s1 of (v, s2) \<Rightarrow> (v, tr, s2)))"

definition tracking_account_remove :: "uint64 \<Rightarrow> nat \<Rightarrow> uint64 \<Rightarrow> malloc_state \<Rightarrow> PeakTrackingTransition \<times> malloc_state" where
  "tracking_account_remove now k sz s =
     (case take_transition now k s of
        (tr, s1) \<Rightarrow>
          (tr, if memlog_active s1 then s1
               else s1\<lparr>shard_bytes := (shard_bytes s1)(k := shard_bytes s1 k - sz),
                       fallback_current_memory := fallback_current_memory s1 - sz\<rparr>))"

definition tracking_account_restore :: "nat \<Rightarrow> uint64 \<Rightarrow> malloc_state \<Rightarrow> bool \<times> malloc_state" where
  "tracking_account_restore k sz s = account_bytes k sz s"

definition note_degraded :: "malloc_state \<Rightarrow> malloc_state" where
  "note_degraded s = s\<lparr>tracking_degraded := True\<rparr>"

definition size_to_event_delta :: "uint64 \<Rightarrow> int option" where
  "size_to_event_delta sz = (if sz > INT64_MAX then None else Some (uint sz))"

text \<open>An event offered to the log; what the log keeps of it is the subject of theory \<^verbatim>\<open>Memlog\<close>.\<close>

definition log_event :: "PeakTrackingTransition \<Rightarrow> int \<Rightarrow> nat \<Rightarrow> uint32 \<Rightarrow> malloc_state \<Rightarrow> malloc_state" where
  "log_event tr d op thread s =
     (if \<not> memlog_active s then s
      else s\<lparr>logged := logged s @
        [\<lparr>ts_ns = timestamp_ns tr, delta = d, current = 0, accounting_sequence = transition_seq tr, tid = thread,
          accounting_shard = transition_shard tr, event_op = op\<rparr>]\<rparr>)"

definition log_added :: "hook_env \<Rightarrow> PeakTrackingTransition \<Rightarrow> uint64 \<Rightarrow> malloc_state \<Rightarrow> malloc_state" where
  "log_added env tr sz s =
     (case size_to_event_delta sz of None \<Rightarrow> s | Some d \<Rightarrow> log_event tr d 1 (env_thread env) s)"

definition publish_removed_entry :: "hook_env \<Rightarrow> uint64 \<Rightarrow> PeakTrackingTransition \<Rightarrow> malloc_state \<Rightarrow> malloc_state" where
  "publish_removed_entry env sz tr s =
     (case size_to_event_delta sz of None \<Rightarrow> s | Some d \<Rightarrow> log_event tr (- d) 2 (env_thread env) s)"

subsection \<open>Entries\<close>

text \<open>Insert and account, or take the insertion back.\<close>

definition commit_entry ::
  "hook_env \<Rightarrow> uint64 \<Rightarrow> uint64 \<Rightarrow> uint64 \<Rightarrow> malloc_state \<Rightarrow> PeakTrackingTransition option \<times> malloc_state" where
  "commit_entry env now ptr sz s =
     (case tracking_radix_insert (node_answers env) ptr sz (tracking_root s) of
        (False, h1) \<Rightarrow> (None, note_degraded (s\<lparr>tracking_root := h1\<rparr>))
      | (True, h1) \<Rightarrow>
          (case tracking_account_add now (accounting_shard_for ptr) sz (s\<lparr>tracking_root := h1\<rparr>) of
             (True, tr, s2) \<Rightarrow> (Some tr, s2)
           | (False, tr, s2) \<Rightarrow>
               (None, note_degraded (s2\<lparr>tracking_root := snd (tracking_radix_remove ptr (tracking_root s2))\<rparr>))))"

definition add_tracking_entry :: "hook_env \<Rightarrow> uint64 \<Rightarrow> uint64 \<Rightarrow> uint64 \<Rightarrow> bool \<Rightarrow> malloc_state \<Rightarrow> malloc_state" where
  "add_tracking_entry env now ptr sz log s =
     (if \<not> tracking_tables_active s \<or> cleanup_in_progress s then s
      else if \<not> log then s
      else case commit_entry env now ptr sz s of
        (None, s1) \<Rightarrow> s1
      | (Some tr, s1) \<Rightarrow> log_added env tr sz s1)"

definition detach_tracking_entry ::
  "hook_env \<Rightarrow> uint64 \<Rightarrow> malloc_state \<Rightarrow> (uint64 \<times> PeakTrackingTransition) option \<times> malloc_state" where
  "detach_tracking_entry env ptr s =
     (if \<not> tracking_tables_active s \<or> cleanup_in_progress s then (None, s)
      else case tracking_radix_remove ptr (tracking_root s) of
        (None, h1) \<Rightarrow> (None, s\<lparr>tracking_root := h1\<rparr>)
      | (Some sz, h1) \<Rightarrow>
          (case tracking_account_remove (clock1 env) (accounting_shard_for ptr) sz (s\<lparr>tracking_root := h1\<rparr>) of
             (tr, s2) \<Rightarrow> (Some (sz, tr), s2)))"

definition restore_tracking_entry :: "hook_env \<Rightarrow> uint64 \<Rightarrow> uint64 \<Rightarrow> malloc_state \<Rightarrow> malloc_state" where
  "restore_tracking_entry env ptr sz s =
     (let k = accounting_shard_for ptr in
      case tracking_radix_insert (node_answers env) ptr sz (tracking_root s) of
        (False, h1) \<Rightarrow> note_degraded (s\<lparr>tracking_root := h1\<rparr>)
      | (True, h1) \<Rightarrow>
          (case tracking_account_restore k sz (s\<lparr>tracking_root := h1\<rparr>) of
             (True, s2) \<Rightarrow> s2
           | (False, s2) \<Rightarrow> note_degraded (s2\<lparr>shard_bytes := (shard_bytes s2)(k := - 1)\<rparr>)))"

definition commit_reallocated_entry ::
  "hook_env \<Rightarrow> uint64 \<Rightarrow> uint64 \<Rightarrow> malloc_state \<Rightarrow> PeakTrackingTransition option \<times> malloc_state" where
  "commit_reallocated_entry env ptr sz s = commit_entry env (clock2 env) ptr sz s"

definition log_backtrace_malloc :: "hook_env \<Rightarrow> bool" where
  "log_backtrace_malloc env =
     (if track_all env then True
      else if env_in_backtrace env then False
      else list_ex (\<lambda>func. func \<in> set (caller_targets env)) (caller_names env))"

subsection \<open>Hooks\<close>

datatype PeakMallocHookEntry = HOOK_RECURSIVE | HOOK_TRACKING | HOOK_FORWARDING

definition malloc_hook_enter :: "hook_env \<Rightarrow> malloc_state \<Rightarrow> PeakMallocHookEntry \<times> malloc_state" where
  "malloc_hook_enter env s =
     (if env_in_hook env then (HOOK_RECURSIVE, s)
      else
        let k = env_activity_shard env; s1 = s\<lparr>hook_activity := (hook_activity s)(k := hook_activity s k + 1)\<rparr> in
        if cleanup_in_progress s1 then (HOOK_FORWARDING, s1) else (HOOK_TRACKING, s1))"

definition malloc_hook_leave :: "hook_env \<Rightarrow> malloc_state \<Rightarrow> malloc_state" where
  "malloc_hook_leave env s =
     (let k = env_activity_shard env in s\<lparr>hook_activity := (hook_activity s)(k := hook_activity s k - 1)\<rparr>)"

text \<open>The original function sets its error number. A call that is not tracked only forwards.\<close>

definition forward :: "hook_env \<Rightarrow> PeakMallocHookEntry \<Rightarrow> malloc_state \<Rightarrow> malloc_state" where
  "forward env entry s =
     (let s1 = s\<lparr>thread_errno := original_errno env\<rparr> in if entry = HOOK_FORWARDING then malloc_hook_leave env s1 else s1)"

definition custom_malloc :: "hook_env \<Rightarrow> uint64 \<Rightarrow> malloc_state \<Rightarrow> uint64 \<times> malloc_state" where
  "custom_malloc env sz s =
     (case malloc_hook_enter env s of
        (entry, s1) \<Rightarrow>
          if entry \<noteq> HOOK_TRACKING then (original_ptr env, forward env entry s1)
          else
            let ptr = original_ptr env; s2 = s1\<lparr>thread_errno := original_errno env\<rparr>;
                s3 = (if ptr \<noteq> 0 then add_tracking_entry env (clock1 env) ptr sz (log_backtrace_malloc env) s2 else s2)
            in (ptr, malloc_hook_leave env s3))"

definition custom_free :: "hook_env \<Rightarrow> uint64 \<Rightarrow> malloc_state \<Rightarrow> malloc_state" where
  "custom_free env ptr s =
     (if ptr = 0 then s
      else case malloc_hook_enter env s of
        (entry, s1) \<Rightarrow>
          if entry \<noteq> HOOK_TRACKING then forward env entry s1
          else
            case detach_tracking_entry env ptr s1 of
              (tracked, s2) \<Rightarrow>
                let s3 = s2\<lparr>thread_errno := original_errno env\<rparr>;
                    s4 = (case tracked of None \<Rightarrow> s3 | Some (sz, tr) \<Rightarrow> publish_removed_entry env sz tr s3)
                in malloc_hook_leave env s4)"

definition custom_calloc :: "hook_env \<Rightarrow> uint64 \<Rightarrow> uint64 \<Rightarrow> malloc_state \<Rightarrow> uint64 \<times> malloc_state" where
  "custom_calloc env nmemb sz s =
     (case malloc_hook_enter env s of
        (entry, s1) \<Rightarrow>
          if entry \<noteq> HOOK_TRACKING then (original_ptr env, forward env entry s1)
          else if sz \<noteq> 0 \<and> nmemb > - 1 div sz then (0, malloc_hook_leave env (s1\<lparr>thread_errno := ENOMEM\<rparr>))
          else
            let ptr = original_ptr env; total_size = nmemb * sz; s2 = s1\<lparr>thread_errno := original_errno env\<rparr>;
                s3 = (if ptr \<noteq> 0 then add_tracking_entry env (clock1 env) ptr total_size (log_backtrace_malloc env) s2 else s2)
            in (ptr, malloc_hook_leave env s3))"

definition custom_realloc :: "hook_env \<Rightarrow> uint64 \<Rightarrow> uint64 \<Rightarrow> malloc_state \<Rightarrow> uint64 \<times> malloc_state" where
  "custom_realloc env ptr sz s =
     (case malloc_hook_enter env s of
        (entry, s1) \<Rightarrow>
          if entry \<noteq> HOOK_TRACKING then (original_ptr env, forward env entry s1)
          else if ptr = 0 then
            let new_ptr = original_ptr env; s2 = s1\<lparr>thread_errno := original_errno env\<rparr>;
                s3 = (if new_ptr \<noteq> 0 then add_tracking_entry env (clock1 env) new_ptr sz (log_backtrace_malloc env) s2 else s2)
            in (new_ptr, malloc_hook_leave env (s3\<lparr>thread_errno := original_errno env\<rparr>))
          else
            case detach_tracking_entry env ptr s1 of
              (tracked, s2) \<Rightarrow>
                let new_ptr = original_ptr env; saved_errno = thread_errno s2; realloc_errno = original_errno env;
                    result_errno = (if sz = 0 \<and> realloc_errno = 0 then saved_errno else realloc_errno);
                    finish = (\<lambda>s'. malloc_hook_leave env (s'\<lparr>thread_errno := result_errno\<rparr>))
                in if new_ptr = 0 \<and> (sz \<noteq> 0 \<or> realloc_errno = ENOMEM) then
                     (0, finish (case tracked of None \<Rightarrow> s2 | Some (old, tr) \<Rightarrow> restore_tracking_entry env ptr old s2))
                   else
                     (new_ptr, finish
                       (case tracked of
                          None \<Rightarrow> if new_ptr \<noteq> 0 then add_tracking_entry env (clock2 env) new_ptr sz (log_backtrace_malloc env) s2 else s2
                        | Some (old, tr) \<Rightarrow>
                            let s3 = publish_removed_entry env old tr s2 in
                            if new_ptr = 0 then s3
                            else case commit_reallocated_entry env new_ptr sz s3 of
                              (None, s4) \<Rightarrow> s4
                            | (Some added, s4) \<Rightarrow> log_added env added sz s4)))"

definition custom_aligned_alloc :: "hook_env \<Rightarrow> uint64 \<Rightarrow> uint64 \<Rightarrow> malloc_state \<Rightarrow> uint64 \<times> malloc_state" where
  "custom_aligned_alloc env alignment sz s =
     (case malloc_hook_enter env s of
        (entry, s1) \<Rightarrow>
          if entry \<noteq> HOOK_TRACKING then (original_ptr env, forward env entry s1)
          else
            let ptr = original_ptr env; s2 = s1\<lparr>thread_errno := original_errno env\<rparr>;
                s3 = (if ptr \<noteq> 0 then add_tracking_entry env (clock1 env) ptr sz (log_backtrace_malloc env) s2 else s2)
            in (ptr, malloc_hook_leave env s3))"

text \<open>\<^verbatim>\<open>posix_memalign\<close> returns an error number; the pointer behind \<open>memptr\<close> is \<open>original_ptr\<close>, and 0 where \<open>memptr\<close> is null.\<close>

definition custom_posix_memalign :: "hook_env \<Rightarrow> int \<Rightarrow> uint64 \<Rightarrow> uint64 \<Rightarrow> malloc_state \<Rightarrow> int \<times> malloc_state" where
  "custom_posix_memalign env ret alignment sz s =
     (case malloc_hook_enter env s of
        (entry, s1) \<Rightarrow>
          if entry \<noteq> HOOK_TRACKING then (ret, forward env entry s1)
          else
            let ptr = original_ptr env; s2 = s1\<lparr>thread_errno := original_errno env\<rparr>;
                s3 = (if ret = 0 \<and> ptr \<noteq> 0 then add_tracking_entry env (clock1 env) ptr sz (log_backtrace_malloc env) s2 else s2)
            in (ret, malloc_hook_leave env s3))"

end
