(* ===== verification/Malloc_Accounting.thy ===== *)
theory Malloc_Accounting
  imports Malloc_Tracking
begin

text \<open>
  What the allocation hooks of \<^verbatim>\<open>src/malloc_interceptor.c\<close> keep: the byte counters are the bytes of the tracked
  allocations, the maximum is their largest value, a failed \<^verbatim>\<open>realloc\<close> leaves everything as it was, and while
  the event log is active its events add up to the same bytes.
\<close>

subsection \<open>The table as an interface\<close>

locale tracking_table =
  fixes invar :: "'h \<Rightarrow> bool"
    and lookup :: "'h \<Rightarrow> uint64 \<rightharpoonup> uint64"
    and fresh :: "'a \<Rightarrow> 'h \<Rightarrow> bool"
    and insert_entry :: "'a \<Rightarrow> uint64 \<Rightarrow> uint64 \<Rightarrow> 'h \<Rightarrow> bool \<times> 'h"
    and remove_entry :: "uint64 \<Rightarrow> 'h \<Rightarrow> uint64 option \<times> 'h"
  assumes insert_law: "invar h \<Longrightarrow> fresh a h \<Longrightarrow> insert_entry a p sz h = (v, h') \<Longrightarrow>
      invar h' \<and> (if v then lookup h p = None \<and> lookup h' = (lookup h)(p \<mapsto> sz) else lookup h' = lookup h)"
    and remove_law: "invar h \<Longrightarrow> remove_entry p h = (r, h') \<Longrightarrow> invar h' \<and> r = lookup h p \<and> lookup h' = (lookup h)(p := None)"
    and reinsert_law: "invar h \<Longrightarrow> remove_entry p h = (Some sz, h') \<Longrightarrow> fst (insert_entry a p sz h')"
    and remove_fresh: "invar h \<Longrightarrow> fresh a h \<Longrightarrow> fresh a (snd (remove_entry p h))"
begin

lemma rollback:
  assumes "invar h" and "fresh a h" and "remove_entry p h = (Some sz, h1)" and "insert_entry a p sz h1 = (v, h2)"
  shows "v" and "invar h2" and "lookup h2 = lookup h"
proof -
  have removed: "invar h1" "lookup h p = Some sz" "lookup h1 = (lookup h)(p := None)"
    using remove_law [OF assms(1,3)] by auto
  have "fresh a h1"
    using remove_fresh [OF assms(1,2), of p] assms(3) by simp
  show "v"
    using reinsert_law [OF assms(1,3), of a] assms(4) by simp
  then show "invar h2" and "lookup h2 = lookup h"
    using insert_law [OF removed(1) \<open>fresh a h1\<close> assms(4)] removed by auto
qed

lemma undo_insert:
  assumes "invar h" and "fresh a h" and "insert_entry a p sz h = (True, h1)" and "remove_entry p h1 = (r, h2)"
  shows "invar h2" and "lookup h2 = lookup h" and "r = Some sz"
proof -
  have ins: "invar h1" "lookup h p = None" "lookup h1 = (lookup h)(p \<mapsto> sz)"
    using insert_law [OF assms(1-3)] by auto
  show "invar h2" "r = Some sz"
    using remove_law [OF ins(1) assms(4)] ins by auto
  show "lookup h2 = lookup h"
    using remove_law [OF ins(1) assms(4)] ins by (auto simp: fun_upd_idem)
qed

end

definition fresh_nodes :: "(nat \<Rightarrow> uint64) \<Rightarrow> radix_heap \<Rightarrow> bool" where
  "fresh_nodes answers h \<longleftrightarrow>
     (\<forall>n < 19. nodes h (answers n) = None) \<and> (\<forall>m < 19. \<forall>n < 19. answers m \<noteq> 0 \<longrightarrow> answers m = answers n \<longrightarrow> m = n)"

lemma radix_step_nodes:
  assumes "nodes h b = None" and "b \<noteq> a \<or> a = 0 \<or> rop t = Remove" and "thread_ok h t"
  shows "nodes (fst (radix_step a h t)) b = None"
  using assms by (cases "rpc t"; cases "rop t") (auto simp: radix_step_def radix_leaf_def Let_def thread_ok_def split: prod.splits if_splits)

lemma radix_loop_ok:
  assumes "heap_ok h" and "thread_ok h t" and "pc_cost (rpc t) \<le> n" and "0 < pc_cost (rpc t)"
    and "rop t \<noteq> Remove \<Longrightarrow> (\<forall>m < n. nodes h (answers m) = None) \<and> (\<forall>k < n. \<forall>m < n. answers k \<noteq> 0 \<longrightarrow> answers k = answers m \<longrightarrow> k = m)"
    and "radix_loop n answers h t = (h', r)"
  shows "heap_ok h' \<and> map_call (rkey t, rop t, r) (Some (table_of h)) = Some (table_of h')"
  using assms
proof (induction n arbitrary: h t)
  case (Suc n)
  obtain h1 t1 where step: "radix_step (answers n) h t = (h1, t1)"
    by fastforce
  have live: "rpc t \<noteq> Returned r" for r
    using Suc.prems(4) by (cases "rpc t") auto
  have good: "good_step h t h1 t1"
    using radix_step_good [OF Suc.prems(1,2) _ live, of "answers n"] Suc.prems(5) step by auto
  have loop: "radix_loop n answers h1 t1 = (h', r)"
    using Suc.prems(6) step live by (cases "rpc t") auto
  have cost: "pc_cost (rpc t1) < pc_cost (rpc t)"
    using radix_step_cost [of t "answers n" h] Suc.prems(4) step by simp
  show ?case
  proof (cases "pc_cost (rpc t1) = 0")
    case True
    then obtain r' where r': "rpc t1 = Returned r'"
      by (cases "rpc t1") auto
    then have "h' = h1" "r = r'"
      using loop by (cases n; simp)+
    then show ?thesis
      using good r' by (auto simp: good_step_def effect_def simp del: map_call.simps)
  next
    case False
    have same: "rop t1 = rop t" "rkey t1 = rkey t" "table_of h1 = table_of h"
      using good False by (cases "rpc t1"; simp add: good_step_def effect_def)+
    have "(\<forall>m < n. nodes h1 (answers m) = None) \<and> (\<forall>k < n. \<forall>m < n. answers k \<noteq> 0 \<longrightarrow> answers k = answers m \<longrightarrow> k = m)"
      if "rop t1 \<noteq> Remove"
    proof -
      have "nodes h1 (answers m) = None" if "m < n" for m
        using radix_step_nodes [of h "answers m" "answers n" t] Suc.prems(2,5) that step same(1) \<open>rop t1 \<noteq> Remove\<close>
        by (metis fst_conv less_SucI lessI nat_neq_iff)
      then show ?thesis
        using Suc.prems(5) that same(1) by simp
    qed
    then show ?thesis
      using Suc.IH [OF _ _ _ _ _ loop] good cost Suc.prems(3) False same by (simp add: good_step_def)
  qed
qed simp

lemma fresh_nodesD:
  assumes "fresh_nodes answers h"
  shows "(\<forall>m < 19. nodes h (answers m) = None) \<and> (\<forall>k < 19. \<forall>m < 19. answers k \<noteq> 0 \<longrightarrow> answers k = answers m \<longrightarrow> k = m)"
  using assms by (simp add: fresh_nodes_def)

lemma radix_call_ok:
  assumes "heap_ok h" and "op \<noteq> Remove \<Longrightarrow> fresh_nodes answers h"
    and "radix_loop 19 answers h (radix_start h p op) = (h', r)"
  shows "heap_ok h' \<and> map_call (p, op, r) (Some (table_of h)) = Some (table_of h')"
proof (cases "op = Insert (- 1)")
  case True
  then show ?thesis
    using assms(1,3) by (simp add: radix_start_def numeral_eq_Suc)
next
  case False
  let ?t = "radix_start h p op"
  have t: "thread_ok h ?t" "pc_cost (rpc ?t) = 19" "rop ?t = op" "rkey ?t = p"
    using False by (simp_all add: radix_start_def RADIX_LEVELS_7 thread_ok_def)
  then show ?thesis
    using radix_loop_ok [OF assms(1) t(1) _ _ _ assms(3)] fresh_nodesD [OF assms(2)] by simp
qed

lemma walk_existing:
  assumes "reach h (rkey t) 6 = Some m" and "rpc t = Walk l n" and "l \<le> 6" and "reach h (rkey t) (6 - l) = Some n" and "3 * l + 1 \<le> fuel"
  shows "radix_loop fuel answers h t = radix_leaf h m t"
  using assms
proof (induction l arbitrary: n t fuel)
  case 0
  then obtain f where f: "fuel = Suc f"
    by (cases fuel) auto
  obtain h1 r where leaf: "radix_leaf h m t = (h1, r)"
    by fastforce
  then show ?case
    using 0 f by (cases f) (simp_all add: radix_step_def)
next
  case (Suc l)
  then obtain f where f: "fuel = Suc f"
    by (cases fuel) auto
  have down: "6 - l = Suc (6 - Suc l)" "6 - (5 - l) = Suc l"
    using Suc.prems(3) by auto
  have "reach h (rkey t) (6 - l) \<noteq> None"
    using reach_None_up [of h "rkey t" "6 - l" 6] Suc.prems(1) by auto
  then have child: "slot_value h n (radix_index (rkey t) (Suc l)) \<noteq> 0"
      "reach h (rkey t) (6 - l) = Some (slot_value h n (radix_index (rkey t) (Suc l)))"
    using Suc.prems(4) unfolding down(1) by (auto simp: down(2) Let_def split: if_splits)
  have "radix_loop f answers h (t\<lparr>rpc := Walk l (slot_value h n (radix_index (rkey t) (Suc l)))\<rparr>) =
      radix_leaf h m (t\<lparr>rpc := Walk l (slot_value h n (radix_index (rkey t) (Suc l)))\<rparr>)"
    using Suc.prems child f by (intro Suc.IH) auto
  then show ?case
    using Suc.prems(2) child(1) by (simp add: f radix_step_def radix_leaf_def Let_def)
qed

lemma insert_ok:
  assumes "heap_ok h" and "fresh_nodes answers h" and "tracking_radix_insert answers p sz h = (v, h')"
  shows "heap_ok h' \<and> (if v then table_of h p = None \<and> table_of h' = (table_of h)(p \<mapsto> sz) else table_of h' = table_of h)"
proof -
  obtain r where r: "radix_loop 19 answers h (radix_start h p (Insert sz)) = (h', r)" "v = (r = Inserted)"
    using assms(3) by (auto simp: tracking_radix_insert_def split: prod.splits)
  show ?thesis
    using radix_call_ok [OF assms(1) assms(2) r(1)] r(2) by (cases r) (auto split: if_splits)
qed

lemma remove_ok:
  assumes "heap_ok h" and "tracking_radix_remove p h = (x, h')"
  shows "heap_ok h' \<and> x = table_of h p \<and> table_of h' = (table_of h)(p := None)"
proof -
  obtain r where r: "radix_loop 19 (\<lambda>n. 0) h (radix_start h p Remove) = (h', r)"
      "x = (case r of Removed sz \<Rightarrow> Some sz | _ \<Rightarrow> None)"
    using assms(2) by (auto simp: tracking_radix_remove_def split: prod.splits radix_result.splits)
  show ?thesis
    using radix_call_ok [OF assms(1) _ r(1)] r(2) by (cases r) (auto split: if_splits simp: fun_upd_idem)
qed

lemma walk_missing:
  assumes "reach h (rkey t) 6 = None" and "rop t = Remove" and "rpc t = Walk l n" and "l \<le> 6" and "reach h (rkey t) (6 - l) = Some n"
    and "3 * l + 1 \<le> fuel"
  shows "radix_loop fuel answers h t = (h, Absent)"
  using assms
proof (induction l arbitrary: n t fuel)
  case (Suc l)
  then obtain f where f: "fuel = Suc (Suc f)"
    by (cases fuel; cases "fuel - 1") auto
  have down: "6 - l = Suc (6 - Suc l)" "6 - (5 - l) = Suc l"
    using Suc.prems(4) by auto
  let ?c = "slot_value h n (radix_index (rkey t) (Suc l))"
  show ?case
  proof (cases "?c = 0")
    case True
    then show ?thesis
      using Suc.prems(2,3) by (simp add: f radix_step_def)
  next
    case False
    then have "reach h (rkey t) (6 - l) = Some ?c"
      using Suc.prems(5) unfolding down(1) by (simp add: down(2))
    then have "radix_loop (Suc f) answers h (t\<lparr>rpc := Walk l ?c\<rparr>) = (h, Absent)"
      using Suc.prems f by (intro Suc.IH) auto
    then show ?thesis
      using Suc.prems(3) False by (simp add: f radix_step_def)
  qed
qed simp

text \<open>A removal changes at most the slot of the key.\<close>

lemma remove_shape:
  "snd (tracking_radix_remove p h) =
     (case reach h p 6 of None \<Rightarrow> h | Some n \<Rightarrow> set_slot n (p AND RADIX_MASK) 0 h)"
proof (cases "reach h p 6")
  case None
  then show ?thesis
    using walk_missing [of h "radix_start h p Remove" 6 "root h" 19 "\<lambda>n. 0"]
    by (simp add: tracking_radix_remove_def radix_start_def RADIX_LEVELS_7)
next
  case (Some n)
  then show ?thesis
    using walk_existing [of h "radix_start h p Remove" n 6 "root h" 19 "\<lambda>n. 0"]
    by (simp add: tracking_radix_remove_def radix_start_def RADIX_LEVELS_7 radix_leaf_def Let_def)
qed

lemma remove_keeps_fresh: "fresh_nodes answers h \<Longrightarrow> fresh_nodes answers (snd (tracking_radix_remove p h))"
  by (auto simp: fresh_nodes_def remove_shape split: option.splits)

lemma reinsert_ok:
  assumes "heap_ok h" and "tracking_radix_remove p h = (Some sz, h')"
  shows "fst (tracking_radix_insert answers p sz h')"
proof -
  have found: "table_of h p = Some sz"
    using remove_ok [OF assms] by simp
  then obtain n where n: "reach h p 6 = Some n" "slot_value h n (p AND RADIX_MASK) \<noteq> 0" "sz = slot_value h n (p AND RADIX_MASK) - 1"
    by (auto simp: table_of_def Let_def split: option.splits if_splits)
  have h': "h' = set_slot n (p AND RADIX_MASK) 0 h"
    using remove_shape [of p h] n(1) assms(2) by simp
  have "reach h' p 6 = Some n"
    using leaf_write(1) [OF assms(1) n(1), of 6 0 p] n(1) by (simp add: h')
  moreover have "sz \<noteq> - 1"
    using n by auto
  moreover have "slot_value h' n (p AND RADIX_MASK) = 0"
    using heap_okD(1) [OF assms(1) _ n(1)] by (simp add: h' slot_value_set_slot)
  ultimately show ?thesis
    using walk_existing [of h' "radix_start h' p (Insert sz)" n 6 "root h'" 19 answers]
    by (simp add: tracking_radix_insert_def radix_start_def RADIX_LEVELS_7 radix_leaf_def Let_def)
qed

interpretation radix: tracking_table heap_ok table_of fresh_nodes tracking_radix_insert tracking_radix_remove
  by unfold_locales (use insert_ok remove_ok reinsert_ok remove_keeps_fresh in blast)+

subsection \<open>Sums over the table\<close>

definition weight :: "(uint64 \<Rightarrow> uint64 \<Rightarrow> int) \<Rightarrow> (uint64 \<rightharpoonup> uint64) \<Rightarrow> int" where
  "weight w m = (\<Sum>p\<in>dom m. w p (the (m p)))"

lemma weight_insert:
  assumes "finite (dom m)" and "m p = None"
  shows "weight w (m(p \<mapsto> v)) = weight w m + w p v"
proof -
  have "p \<notin> dom m"
    using assms(2) by auto
  then have "(\<Sum>q\<in>dom m. w q (the ((m(p \<mapsto> v)) q))) = weight w m"
    unfolding weight_def by (intro sum.cong) auto
  with \<open>p \<notin> dom m\<close> assms(1) show ?thesis
    by (simp add: weight_def)
qed

lemma weight_delete:
  assumes "finite (dom m)" and "m p = Some v"
  shows "weight w (m(p := None)) = weight w m - w p v"
proof -
  have "m = (m(p := None))(p \<mapsto> v)"
    using assms(2) by auto
  then have "weight w m = weight w (m(p := None)) + w p v"
    using weight_insert [of "m(p := None)" p w v] assms(1) by simp
  then show ?thesis
    by simp
qed

definition all_bytes :: "uint64 \<Rightarrow> uint64 \<Rightarrow> int" where
  "all_bytes p v = uint v"

definition bytes_of_shard :: "nat \<Rightarrow> uint64 \<Rightarrow> uint64 \<Rightarrow> int" where
  "bytes_of_shard k p v = (if accounting_shard_for p = k then uint v else 0)"

definition logged_bytes :: "uint64 \<Rightarrow> uint64 \<Rightarrow> int" where
  "logged_bytes p v = (if v > INT64_MAX then 0 else uint v)"

lemma weight_nonneg: "(\<And>p v. 0 \<le> w p v) \<Longrightarrow> 0 \<le> weight w m"
  by (simp add: weight_def sum_nonneg)

abbreviation tracked :: "malloc_state \<Rightarrow> uint64 \<rightharpoonup> uint64" where
  "tracked s \<equiv> table_of (tracking_root s)"

abbreviation live_bytes :: "malloc_state \<Rightarrow> int" where
  "live_bytes s \<equiv> weight all_bytes (tracked s)"

subsection \<open>Counters and events\<close>

text \<open>The counters hold the bytes of a table.\<close>

definition balanced :: "malloc_state \<Rightarrow> (uint64 \<rightharpoonup> uint64) \<Rightarrow> bool" where
  "balanced s m \<longleftrightarrow>
     uint (fallback_current_memory s) = weight all_bytes m \<and> (\<forall>k. uint (shard_bytes s k) = weight (bytes_of_shard k) m) \<and>
     fallback_current_memory s \<le> max_memory s"

text \<open>Up to \<open>d\<close> bytes that are still to be logged.\<close>

definition counted_with :: "int \<Rightarrow> malloc_state \<Rightarrow> bool" where
  "counted_with d s \<longleftrightarrow>
     heap_ok (tracking_root s) \<and> finite (dom (tracked s)) \<and>
     (if memlog_active s then sum_list (map delta (logged s)) + d = weight logged_bytes (tracked s) else balanced s (tracked s))"

definition same_frame :: "malloc_state \<Rightarrow> malloc_state \<Rightarrow> bool" where
  "same_frame s s' \<longleftrightarrow>
     memlog_active s' = memlog_active s \<and> hook_activity s' = hook_activity s \<and>
     tracking_tables_active s' = tracking_tables_active s \<and> cleanup_in_progress s' = cleanup_in_progress s"

lemma uint_add_guarded: "\<not> x > - 1 - y \<Longrightarrow> uint (x + y) = uint x + uint y" for x y :: uint64
  using unat_add_guarded [where x = x and y = y] unfolding uint_nat
  by (simp only: of_nat_add not_False_eq_True simp_thms)

lemma uint_sub_le: "uint b \<le> uint a \<Longrightarrow> uint (a - b) = uint a - uint b" for a b :: uint64
  by (simp add: uint_sub_lem)

lemma account_bytes_fields:
  assumes "account_bytes k sz s = (v, s')"
  shows "tracking_root s' = tracking_root s" and "logged s' = logged s" and "same_frame s s'"
    and "memlog_active s \<or> \<not> v \<Longrightarrow> s' = s" and "memlog_active s \<Longrightarrow> v"
  using assms by (cases s; auto simp: account_bytes_def tracking_fallback_account_add_def same_frame_def Let_def split: if_splits)+

lemma account_bytes_balanced:
  assumes "balanced s m" and "finite (dom m)" and "m p = None" and "\<not> memlog_active s"
    and "account_bytes (accounting_shard_for p) sz s = (True, s')"
  shows "balanced s' (m(p \<mapsto> sz))" and "uint (max_memory s') = max (uint (max_memory s)) (weight all_bytes (m(p \<mapsto> sz)))"
proof -
  let ?k = "accounting_shard_for p"
  let ?F = "fallback_current_memory s" and ?B = "shard_bytes s ?k"
  have room: "\<not> sz > - 1 - ?B" "\<not> sz > - 1 - ?F"
    and s': "s' = s\<lparr>shard_bytes := (shard_bytes s)(?k := ?B + sz), fallback_current_memory := ?F + sz,
      max_memory := (if max_memory s < ?F + sz then ?F + sz else max_memory s)\<rparr>"
    using assms(4,5) by (auto simp: account_bytes_def tracking_fallback_account_add_def Let_def split: if_splits)
  have sums: "uint (?B + sz) = uint ?B + uint sz" "uint (?F + sz) = uint ?F + uint sz"
    using room uint_add_guarded [where x = sz and y = ?B] uint_add_guarded [where x = sz and y = ?F] by (simp_all add: add.commute)
  show "balanced s' (m(p \<mapsto> sz))"
    using assms(1) sums
    by (auto simp: balanced_def s' weight_insert [OF assms(2,3)] all_bytes_def bytes_of_shard_def)
  show "uint (max_memory s') = max (uint (max_memory s)) (weight all_bytes (m(p \<mapsto> sz)))"
    using assms(1) sums by (auto simp: balanced_def s' weight_insert [OF assms(2,3)] all_bytes_def word_less_def word_le_def)
qed

lemma account_remove_balanced:
  assumes "balanced s m" and "finite (dom m)" and "m p = Some sz" and "\<not> memlog_active s"
  defines "k \<equiv> accounting_shard_for p"
  shows "balanced (s\<lparr>shard_bytes := (shard_bytes s)(k := shard_bytes s k - sz),
    fallback_current_memory := fallback_current_memory s - sz\<rparr>) (m(p := None))"
proof -
  have left: "0 \<le> weight all_bytes (m(p := None))" "0 \<le> weight (bytes_of_shard k) (m(p := None))"
    by (auto intro!: weight_nonneg simp: all_bytes_def bytes_of_shard_def)
  have sums: "uint (fallback_current_memory s - sz) = uint (fallback_current_memory s) - uint sz"
    "uint (shard_bytes s k - sz) = uint (shard_bytes s k) - uint sz"
    by (rule uint_sub_le; use left assms(1) in
      \<open>simp add: weight_delete [OF assms(2,3)] balanced_def all_bytes_def bytes_of_shard_def k_def\<close>)+
  have "uint (fallback_current_memory s - sz) \<le> uint (max_memory s)"
    using assms(1) sums by (auto simp: balanced_def word_le_def) (smt (verit) uint_ge_0)
  then show ?thesis
    using assms(1) sums
    by (auto simp: balanced_def weight_delete [OF assms(2,3)] all_bytes_def bytes_of_shard_def k_def word_le_def)
qed

lemma same_frame_refl [simp]: "same_frame s s"
  by (simp add: same_frame_def)

lemma same_frame_trans: "same_frame s s1 \<Longrightarrow> same_frame s1 s2 \<Longrightarrow> same_frame s s2"
  by (simp add: same_frame_def)

text \<open>The maximum follows the bytes.\<close>

definition peak_follows :: "malloc_state \<Rightarrow> malloc_state \<Rightarrow> bool" where
  "peak_follows s s' \<longleftrightarrow> \<not> memlog_active s \<longrightarrow> uint (max_memory s') = max (uint (max_memory s)) (live_bytes s')"

lemma counted_peak: "counted_with d s \<Longrightarrow> \<not> memlog_active s \<Longrightarrow> live_bytes s \<le> uint (max_memory s)"
  by (auto simp: counted_with_def balanced_def word_le_def)

lemma balanced_cong:
  "balanced (s\<lparr>tracking_root := h\<rparr>) m = balanced s m" "balanced (s\<lparr>next_sequence := q\<rparr>) m = balanced s m"
  by (simp_all add: balanced_def)

lemma account_add_fields:
  assumes "tracking_account_add now k sz s = (v, tr, s')"
  shows "tracking_root s' = tracking_root s" and "logged s' = logged s" and "same_frame s s'"
    and "memlog_active s \<or> \<not> v \<Longrightarrow> shard_bytes s' = shard_bytes s \<and> fallback_current_memory s' = fallback_current_memory s \<and> max_memory s' = max_memory s"
    and "memlog_active s \<Longrightarrow> v"
proof -
  have acc: "account_bytes k sz (s\<lparr>next_sequence := (next_sequence s)(k := next_sequence s k + 1)\<rparr>) = (v, s')"
    using assms by (auto simp: tracking_account_add_def take_transition_def split: prod.splits)
  show "tracking_root s' = tracking_root s" and "logged s' = logged s" and "same_frame s s'" and "memlog_active s \<Longrightarrow> v"
    using account_bytes_fields(1-3,5) [OF acc] by (simp_all add: same_frame_def)
  show "shard_bytes s' = shard_bytes s \<and> fallback_current_memory s' = fallback_current_memory s \<and> max_memory s' = max_memory s"
    if "memlog_active s \<or> \<not> v"
    using account_bytes_fields(4) [OF acc] that by simp
qed

lemma account_add_balanced:
  assumes "balanced s m" and "finite (dom m)" and "m p = None" and "\<not> memlog_active s"
    and "tracking_account_add now (accounting_shard_for p) sz s = (True, tr, s')"
  shows "balanced s' (m(p \<mapsto> sz))" and "uint (max_memory s') = max (uint (max_memory s)) (weight all_bytes (m(p \<mapsto> sz)))"
proof -
  let ?k = "accounting_shard_for p"
  let ?s = "s\<lparr>next_sequence := (next_sequence s)(?k := next_sequence s ?k + 1)\<rparr>"
  have "account_bytes ?k sz ?s = (True, s')"
    using assms(5) by (auto simp: tracking_account_add_def take_transition_def split: prod.splits)
  from account_bytes_balanced [OF _ assms(2,3) _ this] assms(1,4)
  show "balanced s' (m(p \<mapsto> sz))" and "uint (max_memory s') = max (uint (max_memory s)) (weight all_bytes (m(p \<mapsto> sz)))"
    by (simp_all add: balanced_cong)
qed

subsection \<open>Entries\<close>

lemma commit_ok:
  assumes s: "counted_with d s" and fresh: "fresh_nodes (node_answers env) (tracking_root s)"
    and call: "commit_entry env now p sz s = (r, s')"
  shows "same_frame s s'" and "logged s' = logged s" and "peak_follows s s'"
    and "r = None \<Longrightarrow> tracked s' = tracked s \<and> counted_with d s'"
    and "r \<noteq> None \<Longrightarrow> tracked s p = None \<and> tracked s' = (tracked s)(p \<mapsto> sz) \<and> counted_with (d + logged_bytes p sz) s'"
    and "r = None \<Longrightarrow> tracking_degraded s'"
proof -
  have heap: "heap_ok (tracking_root s)" and fin: "finite (dom (tracked s))"
    using s by (simp_all add: counted_with_def)
  obtain v h1 where ins: "tracking_radix_insert (node_answers env) p sz (tracking_root s) = (v, h1)"
    by fastforce
  note insert = radix.insert_law [OF heap fresh ins]
  let ?s1 = "s\<lparr>tracking_root := h1\<rparr>"
  obtain w tr s2 where add: "tracking_account_add now (accounting_shard_for p) sz ?s1 = (w, tr, s2)"
    by (metis prod_cases3)
  note fields = account_add_fields [OF add]
  have counters: "balanced s2 m = balanced s m" "max_memory s2 = max_memory s" if "memlog_active s \<or> \<not> w" for m
    using fields(4) that by (simp_all add: balanced_def)
  have undone: "heap_ok (snd (tracking_radix_remove p h1))" "table_of (snd (tracking_radix_remove p h1)) = tracked s" if "v"
    using radix.undo_insert [OF heap fresh, of p sz h1 "fst (tracking_radix_remove p h1)"] ins that by auto
  have active: "memlog_active s2 = memlog_active s" "tracking_root s2 = h1" "logged s2 = logged s"
    using fields(1-3) by (auto simp: same_frame_def)
  have result: "r = (if v \<and> w then Some tr else None)"
    "s' = (if \<not> v then note_degraded ?s1 else if w then s2
           else note_degraded (s2\<lparr>tracking_root := snd (tracking_radix_remove p h1)\<rparr>))"
    using call ins add active(2) by (auto simp: commit_entry_def split: bool.splits prod.splits)
  show "same_frame s s'" "logged s' = logged s" "r = None \<Longrightarrow> tracking_degraded s'"
    using fields(2,3) by (auto simp: result same_frame_def note_degraded_def split: if_splits)
  show "r = None \<Longrightarrow> tracked s' = tracked s \<and> counted_with d s'"
    using s insert undone counters active fields(5) fin
    by (auto simp: result counted_with_def note_degraded_def balanced_def split: if_splits)
  show some: "tracked s p = None \<and> tracked s' = (tracked s)(p \<mapsto> sz) \<and> counted_with (d + logged_bytes p sz) s'" if "r \<noteq> None"
  proof -
    have vw: "v" "w"
      using that by (auto simp: result split: if_splits)
    have table: "tracked s p = None" "tracked s' = (tracked s)(p \<mapsto> sz)" "heap_ok (tracking_root s')"
      using insert vw active by (simp_all add: result)
    then show ?thesis
      using s vw active counters account_add_balanced(1) [of ?s1 "tracked s", OF _ fin, of p now sz tr s2] add fin
      by (auto simp: counted_with_def result weight_insert [OF fin] balanced_cong)
  qed
  show "peak_follows s s'"
  proof (cases "r = None")
    case True
    then have "max_memory s' = max_memory s" "tracked s' = tracked s" if "\<not> memlog_active s"
      using insert undone counters(2) by (auto simp: result note_degraded_def split: if_splits)
    then show ?thesis
      using counted_peak [OF s] by (auto simp: peak_follows_def)
  next
    case False
    then have vw: "v" "w"
      by (auto simp: result split: if_splits)
    then show ?thesis
      using some [OF False] s account_add_balanced(2) [of ?s1 "tracked s", OF _ fin, of p now sz tr s2] add
      by (auto simp: peak_follows_def result counted_with_def balanced_cong)
  qed
qed

lemma log_event_fields [simp]:
  "tracking_root (log_event tr d op th s) = tracking_root s" "same_frame s (log_event tr d op th s)"
  "max_memory (log_event tr d op th s) = max_memory s" "tracking_degraded (log_event tr d op th s) = tracking_degraded s" "balanced (log_event tr d op th s) m = balanced s m"
  by (simp_all add: log_event_def same_frame_def balanced_def)

lemma log_event_sum: "memlog_active s \<Longrightarrow> sum_list (map delta (logged (log_event tr d op th s))) = sum_list (map delta (logged s)) + d"
  by (simp add: log_event_def)

lemma same_frame_active: "same_frame s s' \<Longrightarrow> memlog_active s' = memlog_active s"
  by (simp add: same_frame_def)

lemma logging_fields [simp]:
  "tracking_root (log_added env tr sz s) = tracking_root s" "same_frame s (log_added env tr sz s)"
  "max_memory (log_added env tr sz s) = max_memory s"
  "tracking_root (publish_removed_entry env sz tr s) = tracking_root s" "same_frame s (publish_removed_entry env sz tr s)"
  "max_memory (publish_removed_entry env sz tr s) = max_memory s"
  "tracking_degraded (log_added env tr sz s) = tracking_degraded s"
  by (auto simp: log_added_def publish_removed_entry_def split: option.splits)

lemma log_added_counted: "counted_with (logged_bytes p sz) s \<Longrightarrow> counted_with 0 (log_added env tr sz s)"
  using same_frame_active [of s "log_added env tr sz s"]
  by (auto simp: counted_with_def log_added_def size_to_event_delta_def logged_bytes_def log_event_sum split: if_splits)

lemma publish_counted: "counted_with (- logged_bytes p sz) s \<Longrightarrow> counted_with 0 (publish_removed_entry env sz tr s)"
  using same_frame_active [of s "publish_removed_entry env sz tr s"]
  by (auto simp: counted_with_def publish_removed_entry_def size_to_event_delta_def logged_bytes_def log_event_sum split: if_splits)

lemma peak_follows_same: "tracking_root s2 = tracking_root s1 \<Longrightarrow> max_memory s2 = max_memory s1 \<Longrightarrow> peak_follows s s1 \<Longrightarrow> peak_follows s s2"
  by (simp add: peak_follows_def)

lemma add_entry_ok:
  assumes "counted_with 0 s" and "fresh_nodes (node_answers env) (tracking_root s)"
    and s'_def: "s' = add_tracking_entry env now p sz flag s"
  shows "counted_with 0 s' \<and> same_frame s s' \<and> peak_follows s s' \<and>
    (tracked s' = tracked s \<or> tracked s p = None \<and> tracked s' = (tracked s)(p \<mapsto> sz))"
proof (cases "\<not> tracking_tables_active s \<or> cleanup_in_progress s \<or> \<not> flag")
  case True
  then show ?thesis
    using assms(1) counted_peak [OF assms(1)] by (auto simp: s'_def add_tracking_entry_def peak_follows_def)
next
  case False
  obtain r s1 where c: "commit_entry env now p sz s = (r, s1)"
    by fastforce
  note commit = commit_ok [OF assms(1,2) c]
  show ?thesis
  proof (cases r)
    case None
    then show ?thesis
      using False c commit by (simp add: s'_def add_tracking_entry_def)
  next
    case (Some tr)
    then have "s' = log_added env tr sz s1"
      using False c by (simp add: s'_def add_tracking_entry_def)
    then show ?thesis
      using Some commit log_added_counted [of p sz s1] same_frame_trans [OF commit(1)] peak_follows_same [of s' s1 s] by simp
  qed
qed

lemma detach_ok:
  assumes s: "counted_with 0 s" and call: "detach_tracking_entry env p s = (r, s')"
  shows "same_frame s s'" and "max_memory s' = max_memory s" and "thread_errno s' = thread_errno s" and "logged s' = logged s"
    and "fresh_nodes a (tracking_root s) \<Longrightarrow> fresh_nodes a (tracking_root s')"
    and "r = None \<Longrightarrow> counted_with 0 s' \<and> tracked s' = tracked s"
    and "r = Some (sz, tr) \<Longrightarrow> tracked s p = Some sz \<and> tracked s' = (tracked s)(p := None) \<and> counted_with (- logged_bytes p sz) s'"
    and "r \<noteq> None \<Longrightarrow> tracking_tables_active s \<and> \<not> cleanup_in_progress s"
    and "tracking_degraded s' = tracking_degraded s"
    and "tracking_tables_active s \<Longrightarrow> \<not> cleanup_in_progress s \<Longrightarrow> r = None \<Longrightarrow> tracked s p = None"
proof -
  have heap: "heap_ok (tracking_root s)" and fin: "finite (dom (tracked s))"
    using s by (simp_all add: counted_with_def)
  obtain x h1 where rem: "tracking_radix_remove p (tracking_root s) = (x, h1)"
    by fastforce
  note remove = radix.remove_law [OF heap rem]
  have h1: "h1 = snd (tracking_radix_remove p (tracking_root s))"
    by (simp add: rem)
  note shape = call [unfolded detach_tracking_entry_def rem tracking_account_remove_def take_transition_def]
  show "same_frame s s'" and "max_memory s' = max_memory s" and "thread_errno s' = thread_errno s" and "logged s' = logged s"
    and "r \<noteq> None \<Longrightarrow> tracking_tables_active s \<and> \<not> cleanup_in_progress s" and "tracking_degraded s' = tracking_degraded s"
    using shape by (auto simp: same_frame_def split: if_splits option.splits)
  show "tracking_tables_active s \<Longrightarrow> \<not> cleanup_in_progress s \<Longrightarrow> r = None \<Longrightarrow> tracked s p = None"
    using shape remove by (auto split: option.splits)
  show "fresh_nodes a (tracking_root s) \<Longrightarrow> fresh_nodes a (tracking_root s')"
    using shape remove_keeps_fresh [of a "tracking_root s" p] by (auto simp: h1 split: if_splits option.splits)
  show "r = None \<Longrightarrow> counted_with 0 s' \<and> tracked s' = tracked s"
    using shape s remove by (auto simp: counted_with_def balanced_cong fun_upd_idem split: if_splits option.splits)
  show "tracked s p = Some sz \<and> tracked s' = (tracked s)(p := None) \<and> counted_with (- logged_bytes p sz) s'" if "r = Some (sz, tr)"
  proof -
    have x: "x = Some sz"
      using shape that by (auto split: if_splits option.splits)
    then have found: "tracked s p = Some sz"
      using remove by simp
    note less = account_remove_balanced [OF _ fin found]
    show ?thesis
      using shape that x s remove found less [of s]
      by (auto simp: counted_with_def weight_delete [OF fin found] balanced_def split: if_splits)
  qed
qed

lemma word_room: "uint x + uint y < 2 ^ 64 \<Longrightarrow> \<not> x > - 1 - y" for x y :: uint64
proof -
  assume "uint x + uint y < 2 ^ 64"
  moreover have "uint (- 1 - y) = 2 ^ 64 - 1 - uint y"
  proof -
    have "uint (- 1 :: uint64) = 2 ^ 64 - 1"
      by (simp add: unsigned_minus_1_eq_mask mask_eq_exp_minus_1)
    then show ?thesis
      using uint_sub_le [of y "- 1"] uint_lt2p [of y] by simp
  qed
  ultimately show ?thesis
    by (simp add: word_less_def)
qed

lemma shard_weight_le: "weight (bytes_of_shard k) m \<le> weight all_bytes m"
  unfolding weight_def by (intro sum_mono) (simp add: bytes_of_shard_def all_bytes_def)

text \<open>Taking an entry out and putting it back: there is room for it in the table and in the counters.\<close>

lemma restore_ok:
  assumes s: "counted_with (- logged_bytes p sz) s" and fresh: "fresh_nodes (node_answers env) (tracking_root s)"
    and room: "fst (tracking_radix_insert (node_answers env) p sz (tracking_root s))"
    and bound: "\<not> memlog_active s \<Longrightarrow> weight all_bytes ((tracked s)(p \<mapsto> sz)) \<le> uint (max_memory s)"
    and s': "s' = restore_tracking_entry env p sz s"
  shows "counted_with 0 s'" and "same_frame s s'" and "tracked s' = (tracked s)(p \<mapsto> sz)" and "max_memory s' = max_memory s"
    and "logged s' = logged s" and "tracking_degraded s' = tracking_degraded s"
proof -
  let ?k = "accounting_shard_for p" and ?m = "(tracked s)(p \<mapsto> sz)"
  have heap: "heap_ok (tracking_root s)" and fin: "finite (dom (tracked s))"
    using s by (simp_all add: counted_with_def)
  obtain h1 where ins: "tracking_radix_insert (node_answers env) p sz (tracking_root s) = (True, h1)"
    using room by (cases "tracking_radix_insert (node_answers env) p sz (tracking_root s)") auto
  note insert = radix.insert_law [OF heap fresh ins]
  let ?s1 = "s\<lparr>tracking_root := h1\<rparr>"
  have fits: "fst (account_bytes ?k sz ?s1)"
  proof (cases "memlog_active s")
    case False
    have bal: "balanced s (tracked s)"
      using s False by (simp add: counted_with_def)
    have "weight all_bytes ?m < 2 ^ 64" "weight (bytes_of_shard ?k) ?m \<le> weight all_bytes ?m"
      using bound [OF False] uint_lt2p [of "max_memory s"] shard_weight_le by auto
    then have "uint sz + uint (fallback_current_memory s) < 2 ^ 64" "uint sz + uint (shard_bytes s ?k) < 2 ^ 64"
      using bal insert by (simp_all add: weight_insert [OF fin] balanced_def all_bytes_def bytes_of_shard_def)
    then show ?thesis
      using False word_room by (auto simp: account_bytes_def tracking_fallback_account_add_def Let_def)
  qed (simp add: account_bytes_def)
  then obtain s2 where s2: "account_bytes ?k sz ?s1 = (True, s2)"
    by (cases "account_bytes ?k sz ?s1") auto
  have is_s2: "s' = s2"
    using ins s2 by (simp add: s' restore_tracking_entry_def tracking_account_restore_def)
  note fields = account_bytes_fields [OF s2]
  show "same_frame s s'" and "tracked s' = ?m" and "logged s' = logged s"
    using fields insert by (auto simp: is_s2 same_frame_def)
  show "tracking_degraded s' = tracking_degraded s"
    using s2 by (auto simp: is_s2 account_bytes_def tracking_fallback_account_add_def Let_def split: if_splits)
  have active: "memlog_active s2 = memlog_active s"
    using fields(3) by (simp add: same_frame_def)
  show "counted_with 0 s'" and "max_memory s' = max_memory s"
  proof (atomize (full), cases "memlog_active s")
    case True
    then show "counted_with 0 s' \<and> max_memory s' = max_memory s"
      using s insert fin fields(4) by (auto simp: is_s2 counted_with_def weight_insert [OF fin] logged_bytes_def)
  next
    case False
    have "balanced s2 ?m" "uint (max_memory s2) = max (uint (max_memory s)) (weight all_bytes ?m)"
      using account_bytes_balanced [of ?s1 "tracked s" p sz s2] s False fin insert s2
      by (simp_all add: counted_with_def balanced_cong)
    then show "counted_with 0 s' \<and> max_memory s' = max_memory s"
      using False insert fin fields(1) active bound [OF False]
      by (simp add: is_s2 counted_with_def max_absorb1 word_uint_eq_iff)
  qed
qed

subsection \<open>Hook calls\<close>

datatype hook_call =
  Malloc uint64 | Free uint64 | Calloc uint64 uint64 | Realloc uint64 uint64 | Aligned_alloc uint64 uint64
| Posix_memalign int uint64 uint64

fun hook :: "hook_env \<times> hook_call \<Rightarrow> malloc_state \<Rightarrow> malloc_state" where
  "hook (env, Malloc sz) s = snd (custom_malloc env sz s)"
| "hook (env, Free p) s = custom_free env p s"
| "hook (env, Calloc n sz) s = snd (custom_calloc env n sz s)"
| "hook (env, Realloc p sz) s = snd (custom_realloc env p sz s)"
| "hook (env, Aligned_alloc al sz) s = snd (custom_aligned_alloc env al sz s)"
| "hook (env, Posix_memalign ret al sz) s = snd (custom_posix_memalign env ret al sz s)"

text \<open>What every hook call keeps.\<close>

definition kept :: "malloc_state \<Rightarrow> malloc_state \<Rightarrow> bool" where
  "kept s s' \<longleftrightarrow> counted_with 0 s' \<and> same_frame s s' \<and> peak_follows s s'"

lemma counted_cong [simp]:
  "counted_with d (s\<lparr>thread_errno := e\<rparr>) = counted_with d s" "counted_with d (s\<lparr>hook_activity := a\<rparr>) = counted_with d s"
  by (simp_all add: counted_with_def balanced_def)

lemma kept_errno [simp]: "kept s (s'\<lparr>thread_errno := e\<rparr>) = kept s s'"
  by (simp add: kept_def same_frame_def peak_follows_def)

lemma leave_errno [simp]:
  "malloc_hook_leave env (s\<lparr>thread_errno := e\<rparr>) = (malloc_hook_leave env s)\<lparr>thread_errno := e\<rparr>"
  by (simp add: malloc_hook_leave_def Let_def)

lemma kept_refl: "counted_with 0 s \<Longrightarrow> kept s s"
  using counted_peak [of 0 s] by (auto simp: kept_def peak_follows_def)

text \<open>Entering and leaving around work that keeps the frame.\<close>

lemma enter_leave:
  assumes "malloc_hook_enter env s = (entry, s1)" and "kept s1 s2" and "entry \<noteq> HOOK_RECURSIVE"
  shows "kept s (malloc_hook_leave env s2)"
  using assms
  by (auto simp: malloc_hook_enter_def malloc_hook_leave_def kept_def same_frame_def peak_follows_def Let_def split: if_splits)

lemma enter_fields:
  assumes "malloc_hook_enter env s = (entry, s1)"
  shows "tracking_root s1 = tracking_root s" and "counted_with d s1 = counted_with d s" and "entry = HOOK_RECURSIVE \<Longrightarrow> s1 = s"
    and "thread_errno s1 = thread_errno s" and "logged s1 = logged s" and "max_memory s1 = max_memory s"
    and "memlog_active s1 = memlog_active s" and "tracking_degraded s1 = tracking_degraded s"
    and "fallback_current_memory s1 = fallback_current_memory s" and "shard_bytes s1 = shard_bytes s"
  using assms by (auto simp: malloc_hook_enter_def Let_def split: if_splits)

lemma forward_kept:
  assumes "counted_with 0 s" and "malloc_hook_enter env s = (entry, s1)"  and "entry \<noteq> HOOK_TRACKING"
  shows "kept s (forward env entry s1)"
proof (cases entry)
  case HOOK_RECURSIVE
  then show ?thesis
    using assms(1) enter_fields(3) [OF assms(2)] kept_refl by (simp add: forward_def)
next
  case HOOK_FORWARDING
  have "kept s1 s1"
    using assms(1) enter_fields(2) [OF assms(2)] by (simp add: kept_refl)
  then show ?thesis
    using HOOK_FORWARDING enter_leave [OF assms(2), of "s1\<lparr>thread_errno := original_errno env\<rparr>"] by (simp add: forward_def Let_def)
qed (use assms(3) in simp)

text \<open>The allocating hooks differ in the size only.\<close>

lemma allocation_kept:
  assumes "counted_with 0 s" and "fresh_nodes (node_answers env) (tracking_root s)" and "malloc_hook_enter env s = (HOOK_TRACKING, s1)"
  shows "kept s (malloc_hook_leave env
    (if b then add_tracking_entry env now p sz flag (s1\<lparr>thread_errno := e\<rparr>) else s1\<lparr>thread_errno := e\<rparr>))"
proof -
  have s1: "counted_with 0 (s1\<lparr>thread_errno := e\<rparr>)" "fresh_nodes (node_answers env) (tracking_root (s1\<lparr>thread_errno := e\<rparr>))"
    using assms enter_fields(1,2) [OF assms(3)] by simp_all
  have "kept (s1\<lparr>thread_errno := e\<rparr>) (add_tracking_entry env now p sz flag (s1\<lparr>thread_errno := e\<rparr>))"
    using add_entry_ok [OF s1 refl] by (simp add: kept_def)
  then have "kept s1 (if b then add_tracking_entry env now p sz flag (s1\<lparr>thread_errno := e\<rparr>) else s1\<lparr>thread_errno := e\<rparr>)"
    using s1(1) kept_refl [of s1] by (auto simp: kept_def same_frame_def peak_follows_def)
  then show ?thesis
    using enter_leave [OF assms(3)] by simp
qed

lemma free_kept:
  assumes "counted_with 0 s"
  shows "kept s (custom_free env p s)"
proof (cases "p = 0")
  case False
  obtain entry s1 where enter: "malloc_hook_enter env s = (entry, s1)"
    by fastforce
  show ?thesis
  proof (cases "entry = HOOK_TRACKING")
    case track: True
    have s1: "counted_with 0 s1"
      using assms enter_fields(2) [OF enter] by simp
    obtain r s2 where det: "detach_tracking_entry env p s1 = (r, s2)"
      by fastforce
    note detach = detach_ok [OF s1 det]
    have "kept s1 (case r of None \<Rightarrow> s2\<lparr>thread_errno := original_errno env\<rparr>
      | Some (sz, tr) \<Rightarrow> publish_removed_entry env sz tr (s2\<lparr>thread_errno := original_errno env\<rparr>))"
    proof (cases r)
      case None
      then show ?thesis
        using detach(1,2,6) counted_peak [OF s1] by (auto simp: kept_def peak_follows_def same_frame_def)
    next
      case (Some x)
      then obtain sz tr where x: "r = Some (sz, tr)"
        by (cases x) auto
      let ?s2 = "s2\<lparr>thread_errno := original_errno env\<rparr>"
      note found = detach(7) [OF x]
      have "live_bytes s2 \<le> live_bytes s1"
        using found s1 by (simp add: weight_delete counted_with_def all_bytes_def)
      then have "peak_follows s1 ?s2"
        using counted_peak [OF s1] detach(2) by (auto simp: peak_follows_def)
      moreover have "counted_with 0 (publish_removed_entry env sz tr ?s2)"
        using found by (intro publish_counted [of p]) simp
      moreover have "same_frame s1 ?s2"
        using detach(1) by (simp add: same_frame_def)
      ultimately show ?thesis
        using x same_frame_trans [of s1 ?s2] peak_follows_same [of "publish_removed_entry env sz tr ?s2" ?s2 s1]
        by (simp add: kept_def)
    qed
    then show ?thesis
      using enter_leave [OF enter] track False enter det by (simp add: custom_free_def Let_def)
  qed (use forward_kept [OF assms enter] enter False in \<open>simp add: custom_free_def\<close>)
qed (simp add: custom_free_def kept_refl assms)

lemma kept_through:
  assumes "same_frame s s1" and "max_memory s1 = max_memory s" and "kept s1 s2"
  shows "kept s s2"
  using assms by (auto simp: kept_def peak_follows_def same_frame_def)

text \<open>The part of \<^verbatim>\<open>realloc\<close> behind the original call.\<close>

lemma reallocation_kept:
  assumes s: "counted_with 0 s" and fresh: "fresh_nodes (node_answers env) (tracking_root s)"
    and det: "detach_tracking_entry env p s = (r, s2)"
  shows "r = None \<Longrightarrow> kept s s2"
    and "r = None \<Longrightarrow> kept s (add_tracking_entry env now q sz flag s2)"
    and "r = Some (old, tr) \<Longrightarrow> kept s (restore_tracking_entry env p old s2) \<and>
      tracked (restore_tracking_entry env p old s2) = tracked s \<and>
      max_memory (restore_tracking_entry env p old s2) = max_memory s \<and> logged (restore_tracking_entry env p old s2) = logged s \<and>
      tracking_degraded (restore_tracking_entry env p old s2) = tracking_degraded s2"
    and "r = Some (old, tr) \<Longrightarrow> kept s (publish_removed_entry env old tr s2)"
    and "r = Some (old, tr) \<Longrightarrow> commit_reallocated_entry env q sz (publish_removed_entry env old tr s2) = (x, s4) \<Longrightarrow>
      kept s (case x of None \<Rightarrow> s4 | Some added \<Rightarrow> log_added env added sz s4)"
proof -
  note detach = detach_ok [OF s det]
  note fresh2 = detach(5) [OF fresh]
  have fin: "finite (dom (tracked s))" and heap: "heap_ok (tracking_root s)"
    using s by (simp_all add: counted_with_def)
  show "r = None \<Longrightarrow> kept s s2"
    using detach(1,2,6) counted_peak [OF s] by (auto simp: kept_def peak_follows_def)
  show "r = None \<Longrightarrow> kept s (add_tracking_entry env now q sz flag s2)"
    using kept_through [OF detach(1,2)] add_entry_ok [OF _ fresh2 refl, of now q sz flag] detach(6) by (simp add: kept_def)
  assume r: "r = Some (old, tr)"
  note found = detach(7) [OF r]
  have again: "(tracked s2)(p \<mapsto> old) = tracked s"
    using found by auto
  obtain h1 where rem: "tracking_radix_remove p (tracking_root s) = (Some old, h1)" "tracking_root s2 = h1"
    using det r detach(8) by (auto simp: detach_tracking_entry_def tracking_account_remove_def take_transition_def split: option.splits prod.splits)
  have room: "fst (tracking_radix_insert (node_answers env) p old (tracking_root s2))"
    using radix.reinsert_law [OF heap rem(1)] rem(2) by simp
  have bound: "weight all_bytes ((tracked s2)(p \<mapsto> old)) \<le> uint (max_memory s2)" if "\<not> memlog_active s2"
    unfolding again using that detach(1,2) counted_peak [OF s] by (simp add: same_frame_def)
  note restore = restore_ok [OF _ fresh2 room bound refl]
  show "kept s (restore_tracking_entry env p old s2) \<and> tracked (restore_tracking_entry env p old s2) = tracked s \<and>
      max_memory (restore_tracking_entry env p old s2) = max_memory s \<and> logged (restore_tracking_entry env p old s2) = logged s \<and>
      tracking_degraded (restore_tracking_entry env p old s2) = tracking_degraded s2"
  proof -
    have "tracked (restore_tracking_entry env p old s2) = tracked s"
      using restore(3) found again by simp
    then show ?thesis
      using restore(1,2,4-6) found detach(1,2,4) counted_peak [OF s] same_frame_trans [OF detach(1)]
      by (auto simp: kept_def peak_follows_def)
  qed
  let ?s3 = "publish_removed_entry env old tr s2"
  have s3: "counted_with 0 ?s3" "same_frame s ?s3" "max_memory ?s3 = max_memory s"
    using found publish_counted [of p old s2] same_frame_trans [OF detach(1)] detach(2) by auto
  have "live_bytes ?s3 \<le> live_bytes s"
    using found by (simp add: weight_delete fin all_bytes_def)
  then show "kept s ?s3"
    using s3 counted_peak [OF s] by (auto simp: kept_def peak_follows_def)
  assume "commit_reallocated_entry env q sz ?s3 = (x, s4)"
  then have c: "commit_entry env (clock2 env) q sz ?s3 = (x, s4)"
    by (simp add: commit_reallocated_entry_def)
  note commit = commit_ok [OF s3(1) _ c]
  have "kept ?s3 (case x of None \<Rightarrow> s4 | Some added \<Rightarrow> log_added env added sz s4)"
  proof (cases x)
    case None
    then show ?thesis
      using commit fresh2 by (simp add: kept_def)
  next
    case (Some added)
    then show ?thesis
      using commit fresh2 log_added_counted [of q sz s4] same_frame_trans [of ?s3 s4] peak_follows_same [of "log_added env added sz s4" s4 ?s3]
      by (simp add: kept_def)
  qed
  then show "kept s (case x of None \<Rightarrow> s4 | Some added \<Rightarrow> log_added env added sz s4)"
    using kept_through [OF s3(2,3)] by simp
qed

lemma realloc_kept:
  assumes "counted_with 0 s" and "fresh_nodes (node_answers env) (tracking_root s)"
  shows "kept s (snd (custom_realloc env p sz s))"
proof -
  obtain entry s1 where enter: "malloc_hook_enter env s = (entry, s1)"
    by fastforce
  show ?thesis
  proof (cases "entry = HOOK_TRACKING \<and> p \<noteq> 0")
    case False
    then show ?thesis
      using forward_kept [OF assms(1) enter] enter
        allocation_kept [OF assms, of s1 "original_ptr env \<noteq> 0" "clock1 env" "original_ptr env" sz "log_backtrace_malloc env" "original_errno env"]
      by (auto simp: custom_realloc_def Let_def split: if_splits)
  next
    case True
    have s1: "counted_with 0 s1" "fresh_nodes (node_answers env) (tracking_root s1)"
      using assms enter_fields(1,2) [OF enter] by simp_all
    obtain r s2 where det: "detach_tracking_entry env p s1 = (r, s2)"
      by fastforce
    note parts = reallocation_kept [OF s1 det]
    note leave = enter_leave [OF enter]
    show ?thesis
    proof (cases r)
      case None
      then show ?thesis
        using parts(1,2) leave True enter det by (simp add: custom_realloc_def Let_def)
    next
      case (Some y)
      obtain old tr where y: "y = (old, tr)"
        by fastforce
      obtain x s4 where c: "commit_reallocated_entry env (original_ptr env) sz (publish_removed_entry env old tr s2) = (x, s4)"
        by fastforce
      show ?thesis
        using parts(3) [of old tr] parts(4) [of old tr] parts(5) [OF _ c] leave True enter det Some y c by (cases x) (simp_all add: custom_realloc_def Let_def)
    qed
  qed
qed

lemma hook_kept:
  assumes "counted_with 0 s" and "fresh_nodes (node_answers env) (tracking_root s)"
  shows "kept s (hook (env, c) s)"
proof -
  obtain entry s1 where enter: "malloc_hook_enter env s = (entry, s1)"
    by fastforce
  have failed: "kept s (malloc_hook_leave env (s1\<lparr>thread_errno := ENOMEM\<rparr>))" if "entry = HOOK_TRACKING"
    using enter_leave [OF enter] kept_refl [of s1] assms(1) enter_fields(2) [OF enter] that by simp
  show ?thesis
    using assms free_kept realloc_kept forward_kept [OF assms(1) enter] allocation_kept [OF assms] enter failed
    by (cases c; cases "entry = HOOK_TRACKING")
      (simp_all add: custom_malloc_def custom_calloc_def custom_aligned_alloc_def custom_posix_memalign_def Let_def)
qed

fun fresh_run :: "(hook_env \<times> hook_call) list \<Rightarrow> malloc_state \<Rightarrow> bool" where
  "fresh_run [] s \<longleftrightarrow> True"
| "fresh_run (c # cs) s \<longleftrightarrow> fresh_nodes (node_answers (fst c)) (tracking_root s) \<and> fresh_run cs (hook c s)"

text \<open>The largest number of tracked bytes before, between and after the calls.\<close>

fun peak_bytes :: "(hook_env \<times> hook_call) list \<Rightarrow> malloc_state \<Rightarrow> int" where
  "peak_bytes [] s = live_bytes s"
| "peak_bytes (c # cs) s = max (live_bytes s) (peak_bytes cs (hook c s))"

lemma peak_bytes_ge: "live_bytes s \<le> peak_bytes cs s"
  by (cases cs) auto

lemma run_kept:
  assumes "counted_with 0 s" and "fresh_run cs s"
  shows "counted_with 0 (fold hook cs s) \<and> same_frame s (fold hook cs s) \<and>
    (\<not> memlog_active s \<longrightarrow> uint (max_memory (fold hook cs s)) = max (uint (max_memory s)) (peak_bytes cs s))"
  using assms
proof (induction cs arbitrary: s)
  case Nil
  then show ?case
    using counted_peak [of 0 s] by auto
next
  case (Cons c cs)
  obtain env call where c: "c = (env, call)"
    by fastforce
  have one: "counted_with 0 (hook c s)" "same_frame s (hook c s)" "peak_follows s (hook c s)"
    using hook_kept [of s env call] Cons.prems c by (simp_all add: kept_def)
  note rest = Cons.IH [OF one(1)]
  have "same_frame s (fold hook cs (hook c s))"
    using rest one(2) Cons.prems(2) same_frame_trans by auto
  moreover have "uint (max_memory (fold hook cs (hook c s))) = max (uint (max_memory s)) (peak_bytes (c # cs) s)" if "\<not> memlog_active s"
    using rest one(2,3) Cons.prems counted_peak [OF Cons.prems(1) that] that peak_bytes_ge [of "hook c s" cs]
    by (auto simp: peak_follows_def same_frame_def)
  ultimately show ?case
    using rest Cons.prems(2) by simp
qed

text \<open>(C14) Over any sequence of intercepted calls of the allocator, with whatever answers of the original functions, of the
  clock and of the backtrace, the accounting stays exact. Without the event log the global counter is the number of
  tracked bytes, each shard holds the bytes of its own pointers, and the reported maximum is the largest number of
  tracked bytes there ever was. With the log the deltas of its events add up to the tracked bytes. Every hook that
  was entered is left.\<close>

theorem allocation_accounting_is_exact:
  assumes "counted_with 0 s" and "fresh_run calls s" and "s' = fold hook calls s"
  shows "hook_activity s' = hook_activity s \<and>
    (if memlog_active s then sum_list (map delta (logged s')) = weight logged_bytes (tracked s')
     else uint (fallback_current_memory s') = live_bytes s' \<and>
       (\<forall>k. uint (shard_bytes s' k) = weight (bytes_of_shard k) (tracked s')) \<and>
       uint (max_memory s') = max (uint (max_memory s)) (peak_bytes calls s))"
  using run_kept [OF assms(1,2)] by (auto simp: assms(3) counted_with_def balanced_def same_frame_def)

text \<open>Tracking everything: a failed allocation, an array whose size overflows, and an allocation of 100 bytes at 64.\<close>

definition sample_hook_env :: "uint64 \<Rightarrow> int \<Rightarrow> (nat \<Rightarrow> uint64) \<Rightarrow> hook_env" where
  "sample_hook_env p e answers = \<lparr>env_thread = 7, env_activity_shard = 3, env_in_hook = False, env_in_backtrace = False, original_ptr = p,
     original_errno = e, node_answers = answers, clock1 = 10, clock2 = 11, track_all = True, caller_names = [],
     caller_targets = []\<rparr>"

definition sample_malloc_state :: malloc_state where
  "sample_malloc_state = \<lparr>tracking_root = \<lparr>root = 1, nodes = [1 \<mapsto> (\<lambda>i. 0)]\<rparr>, shard_bytes = (\<lambda>k. 0), next_sequence = (\<lambda>k. 0),
     fallback_current_memory = 0, max_memory = 0, memlog_active = False, logged = [], tracking_tables_active = True,
     cleanup_in_progress = False, tracking_degraded = False, hook_activity = (\<lambda>k. 0), thread_errno = 0\<rparr>"

definition sample_answers :: "nat \<Rightarrow> uint64" where
  "sample_answers n = of_nat (1000 + n)"

definition sample_calls :: "(hook_env \<times> hook_call) list" where
  "sample_calls =
     [(sample_hook_env 0 ENOMEM sample_answers, Malloc 50), (sample_hook_env 96 0 sample_answers, Calloc 0x8000000000000000 4),
      (sample_hook_env 64 0 sample_answers, Malloc 100)]"

lemma sample_malloc_counted: "counted_with 0 sample_malloc_state"
proof -
  have heap: "tracking_root sample_malloc_state = rheap (empty_radix 1)"
    by (simp add: sample_malloc_state_def empty_radix_def)
  have ok: "heap_ok (rheap (empty_radix 1))" "table_of (rheap (empty_radix 1)) = Map.empty"
    using empty_radix_ok [of 1] by (simp_all add: system_ok_def empty_radix_def)
  show ?thesis
    unfolding counted_with_def heap using ok by (simp add: balanced_def weight_def sample_malloc_state_def)
qed

lemma sample_answers_fresh: "fresh_nodes sample_answers (tracking_root sample_malloc_state)"
proof -
  have unat: "unat (sample_answers n) = 1000 + n" if "n < 19" for n
    unfolding sample_answers_def using that by (subst unat_of_nat) simp
  have "sample_answers n \<noteq> 1" if "n < 19" for n
  proof
    assume one: "sample_answers n = 1"
    show False
      using unat [OF that, unfolded one] by simp
  qed
  moreover have "m = n" if "m < 19" "n < 19" "sample_answers m = sample_answers n" for m n
    using arg_cong [OF that(3), of unat] unat [OF that(1)] unat [OF that(2)] by linarith
  ultimately show ?thesis
    by (auto simp: fresh_nodes_def sample_malloc_state_def)
qed

lemma sample_fresh: "fresh_run sample_calls sample_malloc_state"
proof -
  have "tracking_root (hook (sample_hook_env 0 ENOMEM sample_answers, Malloc 50) s) = tracking_root s"
    "tracking_root (hook (sample_hook_env 96 0 sample_answers, Calloc 0x8000000000000000 4) s) = tracking_root s"
    if "\<not> cleanup_in_progress s" for s
    using that by (simp_all add: custom_malloc_def custom_calloc_def malloc_hook_enter_def malloc_hook_leave_def sample_hook_env_def Let_def)
  moreover have "cleanup_in_progress (hook (sample_hook_env 0 ENOMEM sample_answers, Malloc 50) sample_malloc_state) = False"
    "cleanup_in_progress sample_malloc_state = False"
    by (simp_all add: custom_malloc_def malloc_hook_enter_def malloc_hook_leave_def sample_hook_env_def Let_def sample_malloc_state_def)
  ultimately show ?thesis
    using sample_answers_fresh by (simp add: sample_calls_def sample_hook_env_def)
qed

theorem allocation_accounting_is_exact_witness:
  "counted_with 0 sample_malloc_state \<and> fresh_run sample_calls sample_malloc_state \<and>
   uint (fallback_current_memory (fold hook sample_calls sample_malloc_state)) = live_bytes (fold hook sample_calls sample_malloc_state)"
  using allocation_accounting_is_exact [OF sample_malloc_counted sample_fresh refl] sample_malloc_counted sample_fresh
  by (simp add: sample_malloc_state_def)

text \<open>Without the log the table determines the counters.\<close>

lemma balanced_unique:
  assumes "balanced s m" and "balanced s' m"
  shows "fallback_current_memory s' = fallback_current_memory s \<and> shard_bytes s' = shard_bytes s"
  using assms by (auto simp: balanced_def word_uint_eq_iff fun_eq_iff)

lemma leave_fields [simp]:
  "tracking_root (malloc_hook_leave env s) = tracking_root s" "logged (malloc_hook_leave env s) = logged s"
  "max_memory (malloc_hook_leave env s) = max_memory s" "fallback_current_memory (malloc_hook_leave env s) = fallback_current_memory s"
  "shard_bytes (malloc_hook_leave env s) = shard_bytes s" "tracking_degraded (malloc_hook_leave env s) = tracking_degraded s"
  by (simp_all add: malloc_hook_leave_def Let_def)

text \<open>(C17) What \<^verbatim>\<open>realloc\<close> of a pointer does to the tracking. When the original call fails, nothing is left of it: the table,
  the counters, the maximum and the log are as before and nothing is degraded. When it releases the block, the entry
  is gone. When it returns a block, a tracked entry moves to it with the new size (or is dropped and the tracking
  marked degraded), and an untracked one may become tracked.\<close>

theorem realloc_outcome:
  assumes "counted_with 0 s" and "fresh_nodes (node_answers env) (tracking_root s)" and "p \<noteq> 0" and "\<not> env_in_hook env"
    and "tracking_tables_active s" and "\<not> cleanup_in_progress s" and "custom_realloc env p sz s = (q, s')"
  shows "q = original_ptr env \<and>
    (if q = 0 \<and> (sz \<noteq> 0 \<or> original_errno env = ENOMEM)
     then tracked s' = tracked s \<and> logged s' = logged s \<and> max_memory s' = max_memory s \<and>
       (\<not> memlog_active s \<longrightarrow> fallback_current_memory s' = fallback_current_memory s \<and> shard_bytes s' = shard_bytes s) \<and>
       tracking_degraded s' = tracking_degraded s
     else if q = 0 then tracked s' = (tracked s)(p := None)
     else if tracked s p = None then tracked s' = tracked s \<or> tracked s' = (tracked s)(q \<mapsto> sz)
     else tracked s' = (tracked s)(p := None, q \<mapsto> sz) \<or> tracked s' = (tracked s)(p := None) \<and> tracking_degraded s')"
proof -
  obtain s1 where enter: "malloc_hook_enter env s = (HOOK_TRACKING, s1)" and live: "tracking_tables_active s1" "\<not> cleanup_in_progress s1"
    using assms(4-6) by (auto simp: malloc_hook_enter_def Let_def)
  note entered = enter_fields [OF enter]
  have s1: "counted_with 0 s1" "fresh_nodes (node_answers env) (tracking_root s1)"
    using assms(1,2) entered(1,2) by simp_all
  obtain r s2 where det: "detach_tracking_entry env p s1 = (r, s2)"
    by fastforce
  note detach = detach_ok [OF s1(1) det] and parts = reallocation_kept [OF s1 det]
  let ?new = "original_ptr env" and ?failed = "original_ptr env = 0 \<and> (sz \<noteq> 0 \<or> original_errno env = ENOMEM)"
  have q: "q = ?new"
    using assms(3,7) enter det by (auto simp: custom_realloc_def Let_def split: if_splits)
  show ?thesis
  proof (cases r)
    case None
    have untracked: "tracked s p = None" "tracked s2 = tracked s"
      using detach(6,10) live None entered(1) by simp_all
    have same: "fallback_current_memory s2 = fallback_current_memory s1 \<and> shard_bytes s2 = shard_bytes s1" if "\<not> memlog_active s"
      using balanced_unique [of s1 "tracked s1" s2] s1(1) parts(1) None that entered(7) untracked entered(1) detach(1)
      by (auto simp: kept_def counted_with_def same_frame_def)
    show ?thesis
      using assms(3,7) enter det None q untracked same entered detach(2,4,9) 
        add_entry_ok [OF _ detach(5) [OF s1(2)] refl, of "clock2 env" ?new sz "log_backtrace_malloc env"] detach(6)
      by (auto simp: custom_realloc_def Let_def fun_upd_idem)
  next
    case (Some y)
    obtain old tr where y: "y = (old, tr)"
      by fastforce
    note found = detach(7) [OF Some [unfolded y]] and restored = parts(3) [OF Some [unfolded y]]
    let ?put = "restore_tracking_entry env p old s2" and ?s3 = "publish_removed_entry env old tr s2"
    have same: "fallback_current_memory ?put = fallback_current_memory s1 \<and> shard_bytes ?put = shard_bytes s1" if "\<not> memlog_active s"
      using balanced_unique [of s1 "tracked s1" ?put] s1(1) restored that entered(7) by (auto simp: kept_def counted_with_def same_frame_def)
    obtain x s4 where c: "commit_reallocated_entry env ?new sz ?s3 = (x, s4)"
      by fastforce
    have "counted_with 0 ?s3" "fresh_nodes (node_answers env) (tracking_root ?s3)"
      using parts(4) [OF Some [unfolded y]] detach(5) [OF s1(2)] by (simp_all add: kept_def)
    note commit = commit_ok [OF this c [unfolded commit_reallocated_entry_def]]
    define work where "work = (if ?failed then ?put else if ?new = 0 then ?s3
      else case x of None \<Rightarrow> s4 | Some added \<Rightarrow> log_added env added sz s4)"
    obtain e where s': "s' = (malloc_hook_leave env work)\<lparr>thread_errno := e\<rparr>"
      using assms(3,7) enter det Some y c by (cases x) (auto simp: custom_realloc_def Let_def work_def split: if_splits)
    have fields: "tracked s' = tracked work" "logged s' = logged work" "max_memory s' = max_memory work"
      "fallback_current_memory s' = fallback_current_memory work" "shard_bytes s' = shard_bytes work"
      "tracking_degraded s' = tracking_degraded work"
      by (simp_all add: s')
    have gone: "tracked ?s3 = (tracked s)(p := None)" "tracked s p \<noteq> None"
      using found entered(1) by simp_all
    consider (failed) "?failed" | (released) "\<not> ?failed" "?new = 0" | (moved) "?new \<noteq> 0"
      by blast
    then show ?thesis
    proof cases
      case failed
      then show ?thesis
        using restored same entered detach(9) q by (simp add: fields work_def)
    next
      case released
      then show ?thesis
        using gone q by (simp add: fields work_def)
    next
      case moved
      then show ?thesis
        using gone q commit(4-6) by (cases x) (auto simp: fields work_def)
    qed
  qed
qed

theorem realloc_outcome_witness:
  "\<exists>q s'. custom_realloc (sample_hook_env 0 ENOMEM sample_answers) 64 200 sample_malloc_state = (q, s') \<and>
     tracked s' = tracked sample_malloc_state \<and> max_memory s' = 0"
proof -
  let ?env = "sample_hook_env 0 ENOMEM sample_answers" and ?s = sample_malloc_state
  obtain q s' where call: "custom_realloc ?env 64 200 ?s = (q, s')"
    by fastforce
  have env: "node_answers ?env = sample_answers" "\<not> env_in_hook ?env" "original_ptr ?env = 0" "tracking_tables_active ?s"
      "\<not> cleanup_in_progress ?s" "max_memory ?s = 0"
    by (simp_all add: sample_hook_env_def sample_malloc_state_def)
  show ?thesis
    using realloc_outcome [OF sample_malloc_counted _ _ _ _ _ call] sample_answers_fresh env call by auto
qed

end
