(* ===== verification/Memlog.thy ===== *)
theory Memlog
  imports Malloc_Accounting "HOL-Library.Product_Lexorder" "HOL-Library.Multiset"
begin

text \<open>
  The event log of \<^verbatim>\<open>src/malloc_interceptor.c\<close>: slots of a fixed mapping that threads reserve one by one or in
  blocks of 64, the compaction of the written slots, and the replay that orders the events and rebuilds the
  number of tracked bytes. A write of an event is one transition; the shared counter is advanced by one
  fetch-and-add. The counters are natural numbers: \<^verbatim>\<open>reserved\<close> stops growing soon behind the capacity.
\<close>

subsection \<open>Reserving slots\<close>

definition MEMLOG_RESERVATION_BLOCK :: nat where
  "MEMLOG_RESERVATION_BLOCK = 64"

definition MEMLOG_BLOCK_THRESHOLD :: nat where
  "MEMLOG_BLOCK_THRESHOLD = 65536"

definition MEMLOG_MAX_TRACKED_THREADS :: nat where
  "MEMLOG_MAX_TRACKED_THREADS = 4096"

record memlog =
  capacity_events :: nat
  storage_capacity_events :: nat
  reserved :: nat
  dropped :: nat
  memlog_full :: bool
  slots :: "PeakMemEvent option list"
  reservation_next :: "nat \<Rightarrow> nat"
  reservation_end :: "nat \<Rightarrow> nat"

text \<open>The sizing of the log; a slot with operation 0 is \<open>None\<close>.\<close>

definition SIZE_MAX :: nat where
  "SIZE_MAX = 2 ^ 64 - 1"

definition checked_add_size :: "nat \<Rightarrow> nat \<Rightarrow> nat option" where
  "checked_add_size a b = (if a > SIZE_MAX - b then None else Some (a + b))"

definition checked_mul_size :: "nat \<Rightarrow> nat \<Rightarrow> nat option" where
  "checked_mul_size a b = (if a \<noteq> 0 \<and> b > SIZE_MAX div a then None else Some (a * b))"

definition page_align_up :: "nat \<Rightarrow> nat \<Rightarrow> nat option" where
  "page_align_up page v =
     (if page = 0 then None else let remainder = v mod page in if remainder = 0 then Some v else checked_add_size v (page - remainder))"

definition storage_capacity :: "nat \<Rightarrow> nat option" where
  "storage_capacity capacity =
     (if capacity \<ge> MEMLOG_BLOCK_THRESHOLD
      then checked_add_size capacity (MEMLOG_MAX_TRACKED_THREADS * (MEMLOG_RESERVATION_BLOCK - 1))
      else Some capacity)"

definition map_size :: "nat \<Rightarrow> nat \<Rightarrow> (nat \<times> nat \<times> nat) option" where
  "map_size page storage =
     (case page_align_up page 40 of
        None \<Rightarrow> None
      | Some header_bytes \<Rightarrow>
          if header_bytes > 2 ^ 32 - 1 then None
          else case checked_mul_size storage 39 of
            None \<Rightarrow> None
          | Some event_bytes \<Rightarrow>
              (case checked_add_size header_bytes event_bytes of
                 None \<Rightarrow> None
               | Some ready_offset \<Rightarrow>
                   (case checked_mul_size storage 1 of
                      None \<Rightarrow> None
                    | Some ready_bytes \<Rightarrow>
                        (case checked_add_size ready_offset ready_bytes of
                           None \<Rightarrow> None
                         | Some map_bytes \<Rightarrow>
                             if map_bytes > 2 ^ 63 - 1 then None else Some (header_bytes, ready_offset, map_bytes)))))"

definition memlog_open :: "nat \<Rightarrow> nat \<Rightarrow> memlog option" where
  "memlog_open page capacity =
     (case storage_capacity capacity of
        None \<Rightarrow> None
      | Some storage \<Rightarrow>
          (case map_size page storage of
             None \<Rightarrow> None
           | Some sizes \<Rightarrow>
               Some \<lparr>capacity_events = capacity, storage_capacity_events = storage, reserved = 0, dropped = 0, memlog_full = False,
                     slots = replicate storage None, reservation_next = (\<lambda>t. 0), reservation_end = (\<lambda>t. 0)\<rparr>))"

definition memlog_reserve_slot :: "nat \<Rightarrow> memlog \<Rightarrow> nat option \<times> memlog" where
  "memlog_reserve_slot t m =
     (if memlog_full m then (None, m\<lparr>dropped := dropped m + 1\<rparr>)
      else if storage_capacity_events m \<noteq> capacity_events m \<and> reservation_next m t \<noteq> reservation_end m t
      then (Some (reservation_next m t), m\<lparr>reservation_next := (reservation_next m)(t := reservation_next m t + 1)\<rparr>)
      else
        let reservation_count = (if storage_capacity_events m \<noteq> capacity_events m then MEMLOG_RESERVATION_BLOCK else 1);
            r = reserved m; m1 = m\<lparr>reserved := r + reservation_count\<rparr>
        in if r \<ge> storage_capacity_events m then (None, m1\<lparr>memlog_full := True, dropped := dropped m + 1\<rparr>)
           else
             let e = r + reservation_count in
             (Some r, m1\<lparr>reservation_next := (reservation_next m)(t := r + 1),
                reservation_end := (reservation_end m)(t := if e > storage_capacity_events m then storage_capacity_events m else e)\<rparr>))"

definition log_event_write :: "nat \<Rightarrow> PeakMemEvent \<Rightarrow> memlog \<Rightarrow> bool \<times> memlog" where
  "log_event_write t e m =
     (case memlog_reserve_slot t m of
        (None, m1) \<Rightarrow> (False, m1)
      | (Some i, m1) \<Rightarrow> (True, m1\<lparr>slots := (slots m1)[i := Some e]\<rparr>))"

fun write_all :: "(nat \<times> PeakMemEvent) list \<Rightarrow> memlog \<Rightarrow> PeakMemEvent list \<times> memlog" where
  "write_all [] m = ([], m)"
| "write_all ((t, e) # ws) m =
     (case log_event_write t e m of
        (v, m1) \<Rightarrow> (case write_all ws m1 of (es, m2) \<Rightarrow> ((if v then e # es else es), m2)))"

subsection \<open>Compaction and replay\<close>

fun compact_loop :: "nat \<Rightarrow> nat \<Rightarrow> nat \<Rightarrow> PeakMemEvent option list \<Rightarrow> nat \<times> PeakMemEvent option list" where
  "compact_loop 0 i complete xs = (complete, xs)"
| "compact_loop (Suc n) i complete xs =
     (if xs ! i = None then compact_loop n (i + 1) complete xs
      else compact_loop n (i + 1) (complete + 1) (if complete \<noteq> i then xs[complete := xs ! i] else xs))"

definition memlog_compact_committed :: "memlog \<Rightarrow> nat \<times> PeakMemEvent option list" where
  "memlog_compact_committed m =
     (let r = (if reserved m > storage_capacity_events m then storage_capacity_events m else reserved m)
      in compact_loop r 0 0 (slots m))"

definition event_order_compare :: "PeakMemEvent \<Rightarrow> PeakMemEvent \<Rightarrow> int" where
  "event_order_compare l r =
     (if ts_ns l \<noteq> ts_ns r then if ts_ns l < ts_ns r then - 1 else 1
      else if accounting_shard l = accounting_shard r \<and> accounting_shard l \<noteq> 65535 \<and> accounting_sequence l \<noteq> accounting_sequence r
      then if accounting_sequence l < accounting_sequence r then - 1 else 1
      else if accounting_shard l \<noteq> accounting_shard r then if accounting_shard l < accounting_shard r then - 1 else 1
      else if accounting_sequence l \<noteq> accounting_sequence r
      then if accounting_sequence l < accounting_sequence r then - 1 else 1
      else if tid l \<noteq> tid r then if tid l < tid r then - 1 else 1
      else 0)"

definition event_key :: "PeakMemEvent \<Rightarrow> uint64 \<times> nat \<times> uint64 \<times> uint32" where
  "event_key e = (ts_ns e, accounting_shard e, accounting_sequence e, tid e)"

text \<open>\<^verbatim>\<open>qsort\<close>; by \<open>event_order_key\<close> below the comparison is that of the keys. The order of events it calls equal is that
  of a stable sort here.\<close>

definition sort_events :: "PeakMemEvent list \<Rightarrow> PeakMemEvent list" where
  "sort_events es = sort_key event_key es"

text \<open>One event of the replay: the bytes, the largest value so far and whether all was well.\<close>

definition replay_event :: "int \<Rightarrow> uint64 \<Rightarrow> uint64 \<times> bool" where
  "replay_event d cur =
     (if d \<ge> 0 then
        let increase = of_int d in if increase > - 1 - cur then (- 1, False) else (cur + increase, True)
      else
        let decrease = of_int (- (d + 1)) + 1 in if decrease > cur then (0, False) else (cur - decrease, True))"

fun replay_loop :: "PeakMemEvent list \<Rightarrow> uint64 \<Rightarrow> uint64 \<Rightarrow> bool \<Rightarrow> PeakMemEvent list \<times> uint64 \<times> bool" where
  "replay_loop [] cur maximum valid = ([], maximum, valid)"
| "replay_loop (e # es) cur maximum valid =
     (case replay_event (delta e) cur of
        (cur1, v) \<Rightarrow>
          (case replay_loop es cur1 (if cur1 > maximum then cur1 else maximum) (valid \<and> v) of
             (es1, m, v1) \<Rightarrow> (e\<lparr>current := cur1\<rparr> # es1, m, v1)))"

definition memlog_replay_accounting :: "PeakMemEvent list \<Rightarrow> PeakMemEvent list \<times> uint64 \<times> bool" where
  "memlog_replay_accounting es = replay_loop (sort_events es) 0 0 True"

text \<open>The export of the log: the events, with what does not fit in the configured capacity dropped.\<close>

definition memlog_export :: "memlog \<Rightarrow> PeakMemEvent list \<times> uint64 \<times> bool \<times> nat" where
  "memlog_export m =
     (case memlog_compact_committed m of
        (n, xs) \<Rightarrow>
          let d = (if n > capacity_events m then dropped m + (n - capacity_events m) else dropped m);
              events = (if n > capacity_events m then capacity_events m else n)
          in case memlog_replay_accounting (map the (take events xs)) of (es, maximum, valid) \<Rightarrow> (es, maximum, valid, d))"

end
