(* ===== verification/Memlog_Export.thy ===== *)
theory Memlog_Export
  imports Memlog
begin

text \<open>
  The event log of \<^verbatim>\<open>src/malloc_interceptor.c\<close> loses nothing it has accepted and is not full before its capacity is
  used, and its replay reports what the counters would have.
\<close>

subsection \<open>Slots\<close>

definition leftover :: "memlog \<Rightarrow> nat \<Rightarrow> nat set" where
  "leftover m t = {reservation_next m t..<reservation_end m t}"

definition written :: "PeakMemEvent option list \<Rightarrow> PeakMemEvent list" where
  "written xs = map the (filter (\<lambda>x. x \<noteq> None) xs)"

definition log_ok :: "nat set \<Rightarrow> PeakMemEvent list \<Rightarrow> memlog \<Rightarrow> bool" where
  "log_ok T es m \<longleftrightarrow>
     length (slots m) = storage_capacity_events m \<and> finite T \<and>
     (\<forall>t. reservation_next m t \<le> reservation_end m t \<and> reservation_end m t \<le> storage_capacity_events m \<and>
        reservation_end m t \<le> reserved m \<and>
        reservation_end m t \<le> reservation_next m t + (if storage_capacity_events m \<noteq> capacity_events m then 63 else 0)) \<and>
     (\<forall>t. t \<notin> T \<longrightarrow> leftover m t = {}) \<and>
     (\<forall>t u. t \<noteq> u \<longrightarrow> leftover m t \<inter> leftover m u = {}) \<and>
     (\<forall>i < storage_capacity_events m. slots m ! i \<noteq> None \<longleftrightarrow> i < reserved m \<and> (\<forall>t. i \<notin> leftover m t)) \<and>
     mset (written (slots m)) = mset es \<and>
     (memlog_full m \<longrightarrow> reserved m \<ge> storage_capacity_events m)"

lemma written_update:
  assumes "i < length xs" and "xs ! i = None"
  shows "mset (written (xs[i := Some e])) = add_mset e (mset (written xs))"
proof -
  have split: "xs = take i xs @ None # drop (Suc i) xs"
    using id_take_nth_drop [OF assms(1)] assms(2) by simp
  have "written xs = written (take i xs) @ written (drop (Suc i) xs)"
    by (subst (1) split) (simp add: written_def)
  moreover have "written (xs[i := Some e]) = written (take i xs) @ e # written (drop (Suc i) xs)"
    using assms(1) by (simp add: upd_conv_take_nth_drop written_def)
  ultimately show ?thesis
    by simp
qed

lemma reserve_fields:
  assumes "memlog_reserve_slot t m = (r, m')"
  shows "slots m' = slots m" and "storage_capacity_events m' = storage_capacity_events m" and "capacity_events m' = capacity_events m"
    and "dropped m' = (if r = None then dropped m + 1 else dropped m)" and "r = None \<Longrightarrow> memlog_full m'"
  using assms by (auto simp: memlog_reserve_slot_def Let_def split: if_splits)

lemma refused_ok:
  assumes "log_ok T es m" and "memlog_reserve_slot t m = (None, m')"
  shows "log_ok T es m'"
proof (cases "memlog_full m")
  case True
  then have "m' = m\<lparr>dropped := dropped m + 1\<rparr>"
    using assms(2) by (simp add: memlog_reserve_slot_def)
  then show ?thesis
    using assms(1) by (simp add: log_ok_def leftover_def)
next
  case False
  let ?c = "if storage_capacity_events m \<noteq> capacity_events m then MEMLOG_RESERVATION_BLOCK else 1"
  have "m' = m\<lparr>reserved := reserved m + ?c, memlog_full := True, dropped := dropped m + 1\<rparr>"
      "reserved m \<ge> storage_capacity_events m"
    using False assms(2) by (auto simp: memlog_reserve_slot_def Let_def split: if_splits)
  then show ?thesis
    using assms(1) by (auto simp: log_ok_def leftover_def trans_le_add1)
qed

text \<open>A slot from the block of the thread, and the first slot of a new block.\<close>

lemma block_slot_ok:
  assumes m: "log_ok T es m" and i: "i = reservation_next m t" "reservation_next m t < reservation_end m t"
    and n: "n = m\<lparr>reservation_next := (reservation_next m)(t := i + 1), slots := (slots m)[i := Some e]\<rparr>"
  shows "log_ok T (e # es) n"
proof -
  have free: "i < length (slots m)" "slots m ! i = None" "i < reserved m" "i \<in> leftover m t"
  proof -
    have "reservation_end m t \<le> storage_capacity_events m" "reservation_end m t \<le> reserved m" "length (slots m) = storage_capacity_events m"
      using m by (simp_all add: log_ok_def)
    then show "i < length (slots m)" "i < reserved m" and mine: "i \<in> leftover m t"
      using i by (simp_all add: leftover_def)
    then show "slots m ! i = None"
      using m unfolding log_ok_def by metis
  qed
  have n_simps: "slots n = (slots m)[i := Some e]" "reserved n = reserved m" "storage_capacity_events n = storage_capacity_events m"
    "capacity_events n = capacity_events m" "memlog_full n = memlog_full m" "reservation_end n = reservation_end m"
    "reservation_next n = (reservation_next m)(t := i + 1)"
    by (simp_all add: n)
  have left: "leftover n u = (if u = t then leftover m t - {i} else leftover m u)" for u
    using i by (auto simp: leftover_def n_simps)
  have others: "i \<notin> leftover m u" if "u \<noteq> t" for u
    using m free(4) that unfolding log_ok_def by blast
  have cells: "slots n ! j \<noteq> None \<longleftrightarrow> j < reserved n \<and> (\<forall>u. j \<notin> leftover n u)" if j: "j < storage_capacity_events m" for j
  proof (cases "j = i")
    case True
    then show ?thesis
      using free others by (simp add: n_simps left)
  next
    case False
    have "slots m ! j \<noteq> None \<longleftrightarrow> j < reserved m \<and> (\<forall>u. j \<notin> leftover m u)"
      using m j by (simp add: log_ok_def)
    then show ?thesis
      using False by (simp add: n_simps left) blast
  qed
  show ?thesis
    unfolding log_ok_def
  proof (intro conjI)
    show "mset (written (slots n)) = mset (e # es)"
      using m written_update [OF free(1,2)] by (simp add: log_ok_def n_simps)
    have "leftover n u \<subseteq> leftover m u" for u
      using left by auto
    then show "\<forall>t u. t \<noteq> u \<longrightarrow> leftover n t \<inter> leftover n u = {}" "\<forall>t. t \<notin> T \<longrightarrow> leftover n t = {}"
      using m unfolding log_ok_def by blast+
    show "\<forall>i < storage_capacity_events n. slots n ! i \<noteq> None \<longleftrightarrow> i < reserved n \<and> (\<forall>t. i \<notin> leftover n t)"
      using cells by (simp add: n_simps(3))
    show "\<forall>u. reservation_next n u \<le> reservation_end n u \<and> reservation_end n u \<le> storage_capacity_events n \<and>
        reservation_end n u \<le> reserved n \<and>
        reservation_end n u \<le> reservation_next n u + (if storage_capacity_events n \<noteq> capacity_events n then 63 else 0)"
    proof
      fix u
      have "reservation_next m u \<le> reservation_end m u \<and> reservation_end m u \<le> storage_capacity_events m \<and>
        reservation_end m u \<le> reserved m \<and>
        reservation_end m u \<le> reservation_next m u + (if storage_capacity_events m \<noteq> capacity_events m then 63 else 0)"
        using m by (simp add: log_ok_def)
      then show "reservation_next n u \<le> reservation_end n u \<and> reservation_end n u \<le> storage_capacity_events n \<and>
        reservation_end n u \<le> reserved n \<and>
        reservation_end n u \<le> reservation_next n u + (if storage_capacity_events n \<noteq> capacity_events n then 63 else 0)"
        using i by (auto simp: n_simps)
    qed
  qed (use m in \<open>auto simp: log_ok_def n_simps\<close>)
qed

lemma new_block_ok:
  assumes m: "log_ok T es m" and i: "i = reserved m" "i < storage_capacity_events m" and t: "leftover m t = {}"
    and c: "c = (if storage_capacity_events m \<noteq> capacity_events m then 64 else 1)"
    and full: "\<not> memlog_full m"
    and n: "n = m\<lparr>reserved := i + c, reservation_next := (reservation_next m)(t := i + 1),
      reservation_end := (reservation_end m)(t := min (i + c) (storage_capacity_events m)), slots := (slots m)[i := Some e]\<rparr>"
  shows "log_ok (insert t T) (e # es) n"
proof -
  have bounds: "reservation_end m u \<le> reserved m" "reservation_end m u \<le> storage_capacity_events m" for u
    using m by (simp_all add: log_ok_def)
  then have old: "j < reserved m" if "j \<in> leftover m u" for j u
    using that by (auto simp: leftover_def intro: order_less_le_trans)
  have free: "i < length (slots m)" "slots m ! i = None"
    using m i unfolding log_ok_def by auto
  have n_simps: "slots n = (slots m)[i := Some e]" "reserved n = i + c" "storage_capacity_events n = storage_capacity_events m"
    "capacity_events n = capacity_events m" "memlog_full n = memlog_full m"
    "reservation_end n = (reservation_end m)(t := min (i + c) (storage_capacity_events m))"
    "reservation_next n = (reservation_next m)(t := i + 1)"
    by (simp_all add: n)
  have left: "leftover n u = (if u = t then {i + 1..<min (i + c) (storage_capacity_events m)} else leftover m u)" for u
    by (auto simp: leftover_def n_simps)
  have cells: "slots n ! j \<noteq> None \<longleftrightarrow> j < reserved n \<and> (\<forall>u. j \<notin> leftover n u)" if j: "j < storage_capacity_events m" for j
  proof (cases "j = i")
    case True
    have "i \<notin> leftover m u" for u
      using old [of i u] i(1) by auto
    then show ?thesis
      using True free(1) c by (simp add: left n_simps)
  next
    case False
    have cell: "slots m ! j \<noteq> None \<longleftrightarrow> j < reserved m \<and> (\<forall>u. j \<notin> leftover m u)"
      using m j by (simp add: log_ok_def)
    have "(\<forall>u. j \<notin> leftover n u) \<longleftrightarrow> \<not> (i < j \<and> j < i + c) \<and> (\<forall>u. j \<notin> leftover m u)"
      using j t unfolding left by (auto split: if_splits)
    then show ?thesis
      using False i(1) cell old [of j] by (auto simp: n_simps)
  qed
  show ?thesis
    unfolding log_ok_def
  proof (intro conjI)
    show "mset (written (slots n)) = mset (e # es)"
      using m written_update [OF free] by (simp add: log_ok_def n_simps)
    show "\<forall>i < storage_capacity_events n. slots n ! i \<noteq> None \<longleftrightarrow> i < reserved n \<and> (\<forall>t. i \<notin> leftover n t)"
      using cells by (simp add: n_simps(3))
    show "\<forall>u. u \<notin> insert t T \<longrightarrow> leftover n u = {}"
      using m unfolding left log_ok_def by auto
    show "\<forall>u v. u \<noteq> v \<longrightarrow> leftover n u \<inter> leftover n v = {}"
    proof (intro allI impI)
      fix u v :: nat
      assume "u \<noteq> v"
      then have "leftover m u \<inter> leftover m v = {}"
        using m by (simp add: log_ok_def)
      moreover have "leftover m w \<inter> {i + 1..<k} = {}" for w k
        using old [of _ w] i(1) by force
      ultimately show "leftover n u \<inter> leftover n v = {}"
        using \<open>u \<noteq> v\<close> by (auto simp: left)
    qed
    show "memlog_full n \<longrightarrow> storage_capacity_events n \<le> reserved n"
      using full by (simp add: n_simps)
    show "\<forall>u. reservation_next n u \<le> reservation_end n u \<and> reservation_end n u \<le> storage_capacity_events n \<and>
        reservation_end n u \<le> reserved n \<and>
        reservation_end n u \<le> reservation_next n u + (if storage_capacity_events n \<noteq> capacity_events n then 63 else 0)"
      using m i c by (auto simp: log_ok_def n_simps trans_le_add1 le_SucI)
  qed (use m in \<open>auto simp: log_ok_def n_simps\<close>)
qed

lemma write_ok:
  assumes m: "log_ok T es m" and w: "log_event_write t e m = (v, m')"
  shows "log_ok (insert t T) (if v then e # es else es) m'"
    and "storage_capacity_events m' = storage_capacity_events m" and "capacity_events m' = capacity_events m"
    and "dropped m' = (if v then dropped m else dropped m + 1)" and "\<not> v \<Longrightarrow> memlog_full m'" and "memlog_full m \<Longrightarrow> memlog_full m'"
proof -
  obtain r m1 where r: "memlog_reserve_slot t m = (r, m1)"
    by fastforce
  note fields = reserve_fields [OF r]
  have m': "v = (r \<noteq> None)" "m' = (case r of None \<Rightarrow> m1 | Some i \<Rightarrow> m1\<lparr>slots := (slots m1)[i := Some e]\<rparr>)"
    using w r by (auto simp: log_event_write_def split: option.splits)
  show "storage_capacity_events m' = storage_capacity_events m" "capacity_events m' = capacity_events m"
    "dropped m' = (if v then dropped m else dropped m + 1)" "\<not> v \<Longrightarrow> memlog_full m'"
    using fields by (auto simp: m' split: option.splits)
  show "memlog_full m \<Longrightarrow> memlog_full m'"
    using r by (auto simp: m' memlog_reserve_slot_def)
  have grow: "log_ok (insert t T) es' n" if "log_ok T es' n" for es' n
    using that by (auto simp: log_ok_def)
  show "log_ok (insert t T) (if v then e # es else es) m'"
  proof (cases r)
    case None
    then show ?thesis
      using refused_ok [OF m] r grow by (simp add: m')
  next
    case (Some i)
    have le: "reservation_end m t \<le> reservation_next m t + (if storage_capacity_events m \<noteq> capacity_events m then 63 else 0)"
      using m by (simp add: log_ok_def)
    show ?thesis
    proof (cases "storage_capacity_events m \<noteq> capacity_events m \<and> reservation_next m t < reservation_end m t")
      case True
      then have "i = reservation_next m t" "m' = m\<lparr>reservation_next := (reservation_next m)(t := i + 1), slots := (slots m)[i := Some e]\<rparr>"
        using r Some by (auto simp: m' memlog_reserve_slot_def split: if_splits)
      then show ?thesis
        using block_slot_ok [OF m _ _] True grow Some by (simp add: m'(1))
    next
      case False
      have "reservation_next m t \<le> reservation_end m t" "storage_capacity_events m = capacity_events m \<Longrightarrow> leftover m t = {}"
        using m le by (simp_all add: log_ok_def leftover_def)
      then have none: "leftover m t = {}" "\<not> (storage_capacity_events m \<noteq> capacity_events m \<and> reservation_next m t \<noteq> reservation_end m t)"
        using False by (auto simp: leftover_def)
      let ?c = "if storage_capacity_events m \<noteq> capacity_events m then 64 else 1"
      have "\<not> memlog_full m" "i = reserved m" "i < storage_capacity_events m"
        "m' = m\<lparr>reserved := i + ?c, reservation_next := (reservation_next m)(t := i + 1),
          reservation_end := (reservation_end m)(t := min (i + ?c) (storage_capacity_events m)), slots := (slots m)[i := Some e]\<rparr>"
        using r Some none(2) fields(1)
        by (auto simp: m' memlog_reserve_slot_def Let_def MEMLOG_RESERVATION_BLOCK_def min_def split: if_splits)
      then show ?thesis
        using new_block_ok [OF m _ _ none(1) refl] Some by (simp add: m'(1))
    qed
  qed
qed

lemma write_all_ok:
  assumes "log_ok T es m" and "write_all ws m = (out, m')"
  shows "log_ok (T \<union> fst ` set ws) (rev out @ es) m' \<and> storage_capacity_events m' = storage_capacity_events m \<and>
    capacity_events m' = capacity_events m \<and> dropped m' + length out = dropped m + length ws \<and>
    (memlog_full m \<or> dropped m' \<noteq> dropped m \<longrightarrow> memlog_full m')"
  using assms
proof (induction ws arbitrary: T es m out)
  case (Cons w ws)
  obtain t e where w: "w = (t, e)"
    by fastforce
  obtain v m1 where one: "log_event_write t e m = (v, m1)"
    by fastforce
  obtain out1 where rest: "write_all ws m1 = (out1, m')" "out = (if v then e # out1 else out1)"
    using Cons.prems(2) w one by (auto split: prod.splits)
  note first = write_ok [OF Cons.prems(1) one]
  note IH = Cons.IH [OF first(1) rest(1)]
  show ?case
    using IH first(2-6) rest(2) w by (cases v) auto
qed simp

lemma open_ok:
  assumes "memlog_open page capacity = Some m"
  shows "log_ok {} [] m" and "dropped m = 0" and "\<not> memlog_full m" and "capacity_events m = capacity"
    and "storage_capacity_events m = (if capacity \<ge> 65536 then capacity + 4096 * 63 else capacity)"
proof -
  obtain storage where storage: "storage_capacity capacity = Some storage"
    and m: "m = \<lparr>capacity_events = capacity, storage_capacity_events = storage, reserved = 0, dropped = 0, memlog_full = False,
      slots = replicate storage None, reservation_next = (\<lambda>t. 0), reservation_end = (\<lambda>t. 0)\<rparr>"
    using assms by (auto simp: memlog_open_def split: option.splits)
  show "log_ok {} [] m"
    by (simp add: m log_ok_def leftover_def written_def)
  show "dropped m = 0" "\<not> memlog_full m" "capacity_events m = capacity"
    by (simp_all add: m)
  show "storage_capacity_events m = (if capacity \<ge> 65536 then capacity + 4096 * 63 else capacity)"
    using storage
    by (auto simp: m storage_capacity_def checked_add_size_def MEMLOG_BLOCK_THRESHOLD_def MEMLOG_MAX_TRACKED_THREADS_def
        MEMLOG_RESERVATION_BLOCK_def split: if_splits)
qed

text \<open>Every slot is written, left over in the block of a thread, or still to be reserved.\<close>

lemma written_count:
  assumes "log_ok T es m"
  shows "min (reserved m) (storage_capacity_events m) \<le>
    length es + card T * (if storage_capacity_events m \<noteq> capacity_events m then 63 else 0)"
proof -
  let ?b = "if storage_capacity_events m \<noteq> capacity_events m then 63 else 0"
  let ?R = "{..<min (reserved m) (storage_capacity_events m)}" and ?L = "\<Union>t\<in>T. leftover m t"
  have T: "finite T" "\<And>t. t \<notin> T \<Longrightarrow> leftover m t = {}" "\<And>t. card (leftover m t) \<le> ?b" "length (slots m) = storage_capacity_events m"
    using assms by (auto simp: log_ok_def leftover_def le_diff_conv add.commute)
  have "length es = length (written (slots m))"
    using assms unfolding log_ok_def by (metis mset_eq_length)
  also have "\<dots> = card {i. i < length (slots m) \<and> slots m ! i \<noteq> None}"
    by (simp add: written_def length_filter_conv_card)
  also have "{i. i < length (slots m) \<and> slots m ! i \<noteq> None} = ?R - ?L"
  proof (intro set_eqI)
    fix i
    have "i < storage_capacity_events m \<Longrightarrow> slots m ! i \<noteq> None \<longleftrightarrow> i < reserved m \<and> (\<forall>t. i \<notin> leftover m t)"
      using assms by (simp add: log_ok_def)
    moreover have "(\<forall>t. i \<notin> leftover m t) \<longleftrightarrow> i \<notin> ?L"
      using T(2) by auto
    ultimately show "i \<in> {i. i < length (slots m) \<and> slots m ! i \<noteq> None} \<longleftrightarrow> i \<in> ?R - ?L"
      unfolding mem_Collect_eq T(4) Diff_iff lessThan_iff min_less_iff_conj by blast
  qed
  finally have "card ?R - card ?L \<le> length es"
    using T(1) diff_card_le_card_Diff [of ?L ?R] by (simp add: leftover_def)
  moreover have "card ?L \<le> card T * ?b"
    using card_UN_le [OF T(1), of "leftover m"] sum_bounded_above [of T "\<lambda>t. card (leftover m t)" ?b] T(3) by simp
  ultimately show ?thesis
    by simp
qed

subsection \<open>Compaction\<close>

lemma compact_loop_written:
  assumes "complete \<le> i" and "i + n \<le> length xs" and "compact_loop n i complete xs = (k, ys)"
  shows "take k ys = take complete xs @ filter (\<lambda>x. x \<noteq> None) (take n (drop i xs)) \<and>
    k = complete + length (filter (\<lambda>x. x \<noteq> None) (take n (drop i xs)))"
  using assms
proof (induction n arbitrary: i complete xs)
  case (Suc n)
  have i: "i < length xs" "take (Suc n) (drop i xs) = xs ! i # take n (drop (i + 1) xs)"
    using Suc.prems(2) by (simp_all add: Cons_nth_drop_Suc [symmetric])
  show ?case
  proof (cases "xs ! i = None")
    case True
    then show ?thesis
      using Suc.IH [of complete "i + 1" xs] Suc.prems unfolding i(2) by auto
  next
    case False
    let ?xs = "if complete \<noteq> i then xs[complete := xs ! i] else xs"
    have len: "length ?xs = length xs" and kept: "drop (i + 1) ?xs = drop (i + 1) xs"
      and front: "take (complete + 1) ?xs = take complete xs @ [xs ! i]"
      using Suc.prems(1) i(1) by (auto simp: take_Suc_conv_app_nth)
    have "compact_loop n (i + 1) (complete + 1) ?xs = (k, ys)"
      using Suc.prems(3) False by simp
    from Suc.IH [OF _ _ this] show ?thesis
      using Suc.prems(1,2) False len kept front unfolding i(2) by auto
  qed
qed simp

lemma export_events:
  assumes "log_ok T es m" and "memlog_compact_committed m = (k, xs)"
  shows "mset (map the (take k xs)) = mset es" and "k = length es"
proof -
  let ?r = "if reserved m > storage_capacity_events m then storage_capacity_events m else reserved m"
  have len: "length (slots m) = storage_capacity_events m" and es: "mset (written (slots m)) = mset es"
    using assms(1) by (simp_all add: log_ok_def)
  have "compact_loop ?r 0 0 (slots m) = (k, xs)"
    using assms(2) by (simp add: memlog_compact_committed_def Let_def)
  from compact_loop_written [OF _ _ this] len
  have loop: "take k xs = filter (\<lambda>x. x \<noteq> None) (take ?r (slots m))" "k = length (filter (\<lambda>x. x \<noteq> None) (take ?r (slots m)))"
    by auto
  have "slots m ! i = None" if "?r \<le> i" "i < storage_capacity_events m" for i
  proof -
    have "slots m ! i \<noteq> None \<longleftrightarrow> i < reserved m \<and> (\<forall>t. i \<notin> leftover m t)"
      using assms(1) that(2) by (simp add: log_ok_def)
    then show ?thesis
      using that by (auto split: if_splits)
  qed
  then have "filter (\<lambda>x. x \<noteq> None) (drop ?r (slots m)) = []"
    using len by (auto simp: filter_empty_conv in_set_conv_nth)
  then have all: "filter (\<lambda>x. x \<noteq> None) (take ?r (slots m)) = filter (\<lambda>x. x \<noteq> None) (slots m)"
    by (metis append_Nil2 append_take_drop_id filter_append)
  show "mset (map the (take k xs)) = mset es"
    unfolding loop(1) all using es by (simp add: written_def)
  show "k = length es"
    unfolding loop(2) all using es by (metis length_map mset_eq_length written_def)
qed

text \<open>(C16) The event log keeps what it accepts and uses its capacity. However the threads alternate, every accepted event is
  found exactly once by the compaction, every other one is counted as dropped, and when one was dropped and no
  more than 4096 threads have written, the log holds at least as many events as its configured capacity: the slots
  stranded in half-used blocks never reduce it.\<close>

theorem log_is_lossless_up_to_capacity:
  assumes "memlog_open page capacity = Some m0" and "write_all writes m0 = (accepted, m)"
    and "memlog_compact_committed m = (n, xs)"
  shows "mset (map the (take n xs)) = mset accepted \<and> n = length accepted \<and> dropped m + n = length writes \<and>
    (dropped m > 0 \<and> card (fst ` set writes) \<le> 4096 \<longrightarrow> capacity \<le> n)"
proof -
  note opened = open_ok [OF assms(1)]
  note run = write_all_ok [OF opened(1) assms(2)]
  have ok: "log_ok (fst ` set writes) (rev accepted) m"
    using run by simp
  note found = export_events [OF ok assms(3)]
  have "capacity \<le> n" if "dropped m > 0" "card (fst ` set writes) \<le> 4096"
  proof -
    have "memlog_full m"
      using run that(1) opened(2) by simp
    then have "storage_capacity_events m \<le> reserved m"
      using ok by (simp add: log_ok_def)
    then have "storage_capacity_events m \<le> n + card (fst ` set writes) * (if storage_capacity_events m \<noteq> capacity_events m then 63 else 0)"
      using written_count [OF ok] found(2) by simp
    also have "\<dots> \<le> n + 4096 * (if storage_capacity_events m \<noteq> capacity_events m then 63 else 0)"
      using that(2) by simp
    finally show ?thesis
      using opened(4,5) run by (auto split: if_splits)
  qed
  then show ?thesis
    using found run opened(2) by simp
qed

definition sample_event :: "uint64 \<Rightarrow> int \<Rightarrow> PeakMemEvent" where
  "sample_event t d = \<lparr>ts_ns = t, delta = d, current = 0, accounting_sequence = 0, tid = 1, accounting_shard = 0, event_op = 1\<rparr>"

lemma sample_open:
  "memlog_open 4096 2 = Some \<lparr>capacity_events = 2, storage_capacity_events = 2, reserved = 0, dropped = 0, memlog_full = False,
     slots = [None, None], reservation_next = (\<lambda>t. 0), reservation_end = (\<lambda>t. 0)\<rparr>"
proof -
  have "replicate 2 None = [None, None]"
    by (simp add: numeral_2_eq_2)
  then show ?thesis
    by (simp add: memlog_open_def storage_capacity_def MEMLOG_BLOCK_THRESHOLD_def map_size_def page_align_up_def checked_add_size_def
        checked_mul_size_def SIZE_MAX_def)
qed

theorem log_is_lossless_up_to_capacity_witness:
  "\<exists>m0 accepted m n xs. memlog_open 4096 2 = Some m0 \<and>
     write_all [(0, sample_event 1 10), (1, sample_event 2 20), (0, sample_event 3 30)] m0 = (accepted, m) \<and>
     memlog_compact_committed m = (n, xs) \<and> dropped m + n = 3 \<and> accepted = [sample_event 1 10, sample_event 2 20]"
proof -
  let ?ws = "[(0, sample_event 1 10), (1, sample_event 2 20), (0, sample_event 3 30)]"
  obtain m0 accepted m n xs where run: "memlog_open 4096 2 = Some m0" "write_all ?ws m0 = (accepted, m)" "memlog_compact_committed m = (n, xs)"
    using sample_open by (metis surj_pair)
  have "accepted = [sample_event 1 10, sample_event 2 20]"
    using run(2) unfolding option.inject [THEN iffD1, OF trans [OF run(1) [symmetric] sample_open]]
    by (auto simp: log_event_write_def memlog_reserve_slot_def Let_def)
  moreover have "dropped m + n = 3"
    using log_is_lossless_up_to_capacity [OF run] by simp
  ultimately show ?thesis
    using run by blast
qed

subsection \<open>Short-lived threads\<close>

text \<open>The bound of 4096 writing threads counts all threads of the run: every one leaves the rest of its block behind.\<close>

lemma fresh_thread_write:
  assumes "storage_capacity_events m \<noteq> capacity_events m" and "\<not> memlog_full m" and "reservation_next m t = reservation_end m t"
    and "reserved m < storage_capacity_events m"
  shows "\<exists>m'. log_event_write t e m = (True, m') \<and> reserved m' = reserved m + 64 \<and> \<not> memlog_full m' \<and>
    storage_capacity_events m' = storage_capacity_events m \<and> capacity_events m' = capacity_events m \<and>
    (\<forall>u. u \<noteq> t \<longrightarrow> reservation_next m' u = reservation_next m u \<and> reservation_end m' u = reservation_end m u)"
  using assms by (simp add: log_event_write_def memlog_reserve_slot_def Let_def MEMLOG_RESERVATION_BLOCK_def)

lemma fresh_threads_write:
  assumes "storage_capacity_events m \<noteq> capacity_events m" and "\<not> memlog_full m" and "distinct ts"
    and "\<forall>t \<in> set ts. reservation_next m t = reservation_end m t" and "reserved m + 64 * length ts \<le> storage_capacity_events m + 63"
  shows "\<exists>m'. write_all (map (\<lambda>t. (t, e)) ts) m = (replicate (length ts) e, m') \<and> reserved m' = reserved m + 64 * length ts"
  using assms
proof (induction ts arbitrary: m)
  case (Cons t ts)
  then obtain m1 where m1: "log_event_write t e m = (True, m1)" "reserved m1 = reserved m + 64" "\<not> memlog_full m1"
      "storage_capacity_events m1 = storage_capacity_events m" "capacity_events m1 = capacity_events m"
      "\<forall>u. u \<noteq> t \<longrightarrow> reservation_next m1 u = reservation_next m u \<and> reservation_end m1 u = reservation_end m u"
    using fresh_thread_write [of m t e] by auto
  have "\<exists>m'. write_all (map (\<lambda>t. (t, e)) ts) m1 = (replicate (length ts) e, m') \<and> reserved m' = reserved m1 + 64 * length ts"
    using Cons.prems m1 by (intro Cons.IH) auto
  then show ?case
    using m1 by auto
qed simp

lemma short_lived_threads_fill_the_log:
  assumes "memlog_open page 500000 = Some m0" and "write_all (map (\<lambda>t. (t, e)) [0..<11845]) m0 = (accepted, m)"
  shows "length accepted = 11845" and "reserved m \<ge> storage_capacity_events m"
proof -
  note opened = open_ok [OF assms(1)]
  have "reserved m0 = 0" "\<forall>t. reservation_next m0 t = reservation_end m0 t"
    using assms(1) by (auto simp: memlog_open_def split: option.splits)
  then have "\<exists>m'. write_all (map (\<lambda>t. (t, e)) [0..<11845]) m0 = (replicate (length [0..<11845]) e, m') \<and>
      reserved m' = reserved m0 + 64 * length [0..<11845]"
    using opened by (intro fresh_threads_write) auto
  then show "length accepted = 11845" and "reserved m \<ge> storage_capacity_events m"
    using assms(2) \<open>reserved m0 = 0\<close> opened(5) write_all_ok [OF opened(1) assms(2)] by auto
qed

end
