(* ===== verification/Memlog_Replay.thy ===== *)
theory Memlog_Replay
  imports Memlog_Export
begin

text \<open>
  The replay of the event log of \<^verbatim>\<open>src/malloc_interceptor.c\<close>: the comparison of events is a total preorder, the
  replay is exact as long as nothing overflows, and with a log the reported maximum is the same that the
  counters report without one.
\<close>

subsection \<open>The order of events\<close>

lemma event_order_key:
  "event_order_compare l r = (if event_key l < event_key r then - 1 else if event_key l = event_key r then 0 else 1)"
  by (auto simp: event_order_compare_def event_key_def less_prod_def)

lemma sort_events_unique:
  assumes "mset es = mset xs" and "sorted (map ts_ns xs)" and "distinct (map ts_ns xs)"
  shows "sort_events es = xs"
proof -
  let ?f = event_key
  have strict: "sorted (map ?f xs)" "distinct (map ?f xs)"
  proof -
    show "distinct (map ?f xs)"
      using assms(3) by (auto simp: distinct_map inj_on_def event_key_def)
    show "sorted (map ?f xs)"
      using assms(2,3)
      by (induction xs) (auto simp: event_key_def less_eq_prod_def order_le_less image_iff)
  qed
  have set: "set (sort_events es) = set xs" and mset: "mset (sort_events es) = mset xs"
    using assms(1) by (auto simp: sort_events_def dest: mset_eq_setD)
  have "distinct (map ?f (sort_events es))"
    using strict(2) mset by (metis mset_eq_imp_distinct_iff mset_map)
  then have "map ?f (sort_events es) = map ?f xs"
    using strict set by (intro sorted_distinct_set_unique) (auto simp: sort_events_def)
  moreover have "inj_on ?f (set (sort_events es) \<union> set xs)"
    using strict(2) set by (simp add: distinct_map)
  ultimately show ?thesis
    by (rule map_inj_on)
qed

subsection \<open>Exact replay\<close>

fun sums :: "int \<Rightarrow> int list \<Rightarrow> int list" where
  "sums c [] = []"
| "sums c (d # ds) = (c + d) # sums (c + d) ds"

lemma sums_append: "sums c (xs @ ys) = sums c xs @ sums (c + sum_list xs) ys"
  by (induction xs arbitrary: c) (auto simp: add.assoc)

lemma uint_of_int_self: "0 \<le> x \<Longrightarrow> x < 2 ^ 64 \<Longrightarrow> uint (of_int x :: uint64) = x"
  by (simp add: uint_word_of_int_eq take_bit_int_eq_self_iff)

lemma last_sums: "ds \<noteq> [] \<Longrightarrow> last (sums c ds) = c + sum_list ds"
proof (induction ds arbitrary: c)
  case (Cons d ds)
  then show ?case
    using Cons.IH [of "c + d"] by (cases ds) simp_all
qed simp

lemma replay_event_exact:
  assumes "0 \<le> uint cur + d" and "uint cur + d < 2 ^ 64"
  shows "\<exists>cur'. replay_event d cur = (cur', True) \<and> uint cur' = uint cur + d"
proof (cases "d \<ge> 0")
  case True
  have d: "uint (of_int d :: uint64) = d"
    using True assms(2) uint_ge_0 [of cur] by (intro uint_of_int_self) linarith+
  have "\<not> (of_int d :: uint64) > - 1 - cur"
    using word_room [of "of_int d" cur] d assms(2) by simp
  then show ?thesis
    using True d uint_add_guarded [where x = "of_int d" and y = cur] by (simp add: replay_event_def add.commute)
next
  case False
  define x where "x = - d"
  have sum: "(of_int (- (d + 1)) + 1 :: uint64) = of_int x"
    by (simp add: x_def)
  have d: "uint (of_int x :: uint64) = x"
    using False assms(1) uint_lt2p [of cur] by (intro uint_of_int_self) (simp_all add: x_def)
  have "uint (cur - of_int x) = uint cur + d"
    using uint_sub_le [of "of_int x" cur] d assms(1) by (simp add: x_def)
  moreover have "\<not> (of_int x :: uint64) > cur"
    unfolding word_less_def d using assms(1) by (simp add: x_def)
  ultimately show ?thesis
    using False unfolding replay_event_def sum by (simp add: Let_def)
qed

lemma replay_loop_exact:
  assumes "\<forall>x \<in> set (sums (uint cur) (map delta es)). 0 \<le> x \<and> x < 2 ^ 64"
  shows "\<exists>es' mx'. replay_loop es cur mx valid = (es', mx', valid) \<and> map delta es' = map delta es \<and>
    map (uint \<circ> current) es' = sums (uint cur) (map delta es) \<and>
    uint mx' = fold max (sums (uint cur) (map delta es)) (uint mx)"
  using assms
proof (induction es arbitrary: cur mx valid)
  case (Cons e es)
  obtain cur' where cur': "replay_event (delta e) cur = (cur', True)" "uint cur' = uint cur + delta e"
    using replay_event_exact [of cur "delta e"] Cons.prems by auto
  have mx: "uint (if cur' > mx then cur' else mx) = max (uint cur') (uint mx)"
    by (simp add: word_less_def max_def)
  show ?case
    using Cons.IH [of cur' "if cur' > mx then cur' else mx" valid] Cons.prems cur' mx by auto
qed simp

subsection \<open>The events of a hook call\<close>

lemma commit_time: "commit_entry env now p sz s = (Some tr, s') \<Longrightarrow> timestamp_ns tr = now"
  by (auto simp: commit_entry_def tracking_account_add_def take_transition_def split: bool.splits prod.splits)

lemma detach_time: "detach_tracking_entry env p s = (Some (sz, tr), s') \<Longrightarrow> timestamp_ns tr = clock1 env"
  by (auto simp: detach_tracking_entry_def tracking_account_remove_def take_transition_def split: if_splits option.splits prod.splits)

definition small :: "malloc_state \<Rightarrow> bool" where
  "small s \<longleftrightarrow> (\<forall>p v. tracked s p = Some v \<longrightarrow> v \<le> INT64_MAX) \<and> live_bytes s < 2 ^ 64"

text \<open>What a call adds to the log while the tracked bytes go from \<open>b\<close> to \<open>b'\<close>: nothing, one event, or a removal and an
  addition.\<close>

definition call_events :: "hook_env \<Rightarrow> int \<Rightarrow> int \<Rightarrow> PeakMemEvent list \<Rightarrow> bool" where
  "call_events env b b' es \<longleftrightarrow>
     es = [] \<and> b' = b \<or>
     (\<exists>e. es = [e] \<and> ts_ns e \<in> {clock1 env, clock2 env} \<and> delta e = b' - b) \<or>
     (\<exists>e1 e2. es = [e1, e2] \<and> ts_ns e1 = clock1 env \<and> ts_ns e2 = clock2 env \<and> delta e1 \<le> 0 \<and> 0 \<le> b + delta e1 \<and>
        delta e1 + delta e2 = b' - b)"

lemma log_added_events:
  assumes "memlog_active s" and "sz \<le> INT64_MAX"
  shows "\<exists>e. logged (log_added env tr sz s) = logged s @ [e] \<and> ts_ns e = timestamp_ns tr \<and> delta e = uint sz"
  using assms by (simp add: log_added_def size_to_event_delta_def log_event_def)

lemma publish_events:
  assumes "memlog_active s" and "sz \<le> INT64_MAX"
  shows "\<exists>e. logged (publish_removed_entry env sz tr s) = logged s @ [e] \<and> ts_ns e = timestamp_ns tr \<and> delta e = - uint sz"
  using assms by (simp add: publish_removed_entry_def size_to_event_delta_def log_event_def)

lemma commit_events:
  assumes "counted_with d s" and "fresh_nodes (node_answers env) (tracking_root s)" and "memlog_active s"
    and "commit_entry env now p sz s = (r, s1)" and "s' = (case r of None \<Rightarrow> s1 | Some tr \<Rightarrow> log_added env tr sz s1)"
    and "\<forall>v. tracked s' p = Some v \<longrightarrow> v \<le> INT64_MAX"
  shows "(logged s' = logged s \<and> tracked s' = tracked s) \<or>
    (\<exists>e. logged s' = logged s @ [e] \<and> ts_ns e = now \<and> delta e = live_bytes s' - live_bytes s \<and> delta e = uint sz)"
proof (cases r)
  case None
  then show ?thesis
    using commit_ok [OF assms(1,2,4)] assms(5) by simp
next
  case (Some tr)
  note commit = commit_ok [OF assms(1,2,4)]
  have s1: "tracked s p = None" "tracked s1 = (tracked s)(p \<mapsto> sz)" "memlog_active s1" "logged s1 = logged s"
    using commit Some assms(3) by (auto simp: same_frame_def)
  have "sz \<le> INT64_MAX"
    using assms(5,6) Some s1(2) by simp
  then obtain e where e: "logged s' = logged s @ [e]" "ts_ns e = now" "delta e = uint sz"
    using log_added_events [OF s1(3), of sz env tr] assms(5) Some s1(4) commit_time assms(4) by auto
  have "finite (dom (tracked s))"
    using assms(1) by (simp add: counted_with_def)
  then have "live_bytes s' = live_bytes s + uint sz"
    using assms(5) Some s1 by (simp add: weight_insert all_bytes_def)
  then show ?thesis
    using e by auto
qed

lemma add_entry_events:
  assumes "counted_with 0 s" and "fresh_nodes (node_answers env) (tracking_root s)" and "memlog_active s"
    and s': "s' = add_tracking_entry env now p sz flag s" and "\<forall>v. tracked s' p = Some v \<longrightarrow> v \<le> INT64_MAX"
  shows "(logged s' = logged s \<and> tracked s' = tracked s) \<or>
    (\<exists>e. logged s' = logged s @ [e] \<and> ts_ns e = now \<and> delta e = live_bytes s' - live_bytes s \<and> delta e = uint sz)"
proof (cases "\<not> tracking_tables_active s \<or> cleanup_in_progress s \<or> \<not> flag")
  case True
  then show ?thesis
    by (auto simp: s' add_tracking_entry_def)
next
  case False
  obtain r s1 where c: "commit_entry env now p sz s = (r, s1)"
    by fastforce
  have "s' = (case r of None \<Rightarrow> s1 | Some tr \<Rightarrow> log_added env tr sz s1)"
    using False c by (simp add: s' add_tracking_entry_def split: option.splits)
  then show ?thesis
    using commit_events [OF assms(1-3) c] assms(5) by simp
qed

lemma alloc_call_events:
  "(logged s' = logged s \<and> tracked s' = tracked s) \<or>
   (\<exists>e. logged s' = logged s @ [e] \<and> ts_ns e = now \<and> delta e = live_bytes s' - live_bytes s \<and> delta e = uint sz) \<Longrightarrow>
   now \<in> {clock1 env, clock2 env} \<Longrightarrow> \<exists>es. logged s' = logged s @ es \<and> call_events env (live_bytes s) (live_bytes s') es"
  by (auto simp: call_events_def)

lemma log_fields_errno [simp]:
  "logged (s\<lparr>thread_errno := e\<rparr>) = logged s" "memlog_active (s\<lparr>thread_errno := e\<rparr>) = memlog_active s"
  by simp_all

lemma allocation_events:
  assumes "counted_with 0 s" and "fresh_nodes (node_answers env) (tracking_root s)" and "malloc_hook_enter env s = (HOOK_TRACKING, s1)"
    and "memlog_active s" and "now \<in> {clock1 env, clock2 env}"
    and s': "s' = malloc_hook_leave env (if b then add_tracking_entry env now p sz flag (s1\<lparr>thread_errno := e\<rparr>) else s1\<lparr>thread_errno := e\<rparr>)"
    and "small s'"
  shows "\<exists>es. logged s' = logged s @ es \<and> call_events env (live_bytes s) (live_bytes s') es"
proof -
  note entered = enter_fields [OF assms(3)]
  let ?s1 = "s1\<lparr>thread_errno := e\<rparr>"
  let ?s2 = "add_tracking_entry env now p sz flag ?s1"
  have s1: "counted_with 0 ?s1" "fresh_nodes (node_answers env) (tracking_root ?s1)" "memlog_active ?s1"
    using assms(1,2,4) entered(1,2,7) by simp_all
  show ?thesis
  proof (cases b)
    case True
    then have "tracked s' = tracked ?s2" "logged s' = logged ?s2"
      by (simp_all add: s')
    then show ?thesis
      using add_entry_events [OF s1 refl, of now p sz flag] assms(5,7) entered(1,5) by (auto simp: small_def call_events_def)
  next
    case False
    then show ?thesis
      using entered(1,5) by (auto simp: s' call_events_def)
  qed
qed

lemma free_events:
  assumes "counted_with 0 s" and "memlog_active s" and "small s" and s': "s' = custom_free env p s"
  shows "\<exists>es. logged s' = logged s @ es \<and> call_events env (live_bytes s) (live_bytes s') es"
proof -
  obtain entry s1 where enter: "malloc_hook_enter env s = (entry, s1)"
    by fastforce
  note entered = enter_fields [OF enter]
  obtain r s2 where det: "detach_tracking_entry env p s1 = (r, s2)"
    by fastforce
  have s1: "counted_with 0 s1"
    using assms(1) entered(2) by simp
  note detach = detach_ok [OF s1 det]
  show ?thesis
  proof (cases "p \<noteq> 0 \<and> entry = HOOK_TRACKING \<and> r \<noteq> None")
    case False
    then have "logged s' = logged s \<and> tracked s' = tracked s"
      using detach(4,6) entered(1,5) enter det by (cases r) (auto simp: s' custom_free_def forward_def Let_def)
    then show ?thesis
      by (auto simp: call_events_def)
  next
    case True
    then obtain sz tr where r: "r = Some (sz, tr)"
      by auto
    note found = detach(7) [OF r]
    have fin: "finite (dom (tracked s))"
      using assms(1) by (simp add: counted_with_def)
    have "sz \<le> INT64_MAX" "tracked s p = Some sz"
      using assms(3) found entered(1) by (auto simp: small_def)
    moreover have "memlog_active (s2\<lparr>thread_errno := original_errno env\<rparr>)"
      using detach(1) assms(2) entered(7) by (simp add: same_frame_def)
    ultimately obtain e where e: "logged s' = logged s @ [e]" "ts_ns e = clock1 env" "delta e = - uint sz"
      using publish_events [of "s2\<lparr>thread_errno := original_errno env\<rparr>" sz env tr] detach(4) entered(5) True enter det r
        detach_time [of env p s1 sz tr s2] by (auto simp: s' custom_free_def Let_def)
    have "tracked s' = (tracked s)(p := None)"
      using True enter det r found entered(1) by (simp add: s' custom_free_def Let_def)
    then have "live_bytes s' = live_bytes s - uint sz"
      using weight_delete [OF fin \<open>tracked s p = Some sz\<close>, of all_bytes] by (simp add: all_bytes_def)
    then show ?thesis
      using e by (auto simp: call_events_def)
  qed
qed

lemma realloc_events:
  assumes "counted_with 0 s" and "fresh_nodes (node_answers env) (tracking_root s)" and "memlog_active s" and "small s"
    and s': "s' = snd (custom_realloc env p sz s)" and "small s'"
  shows "\<exists>es. logged s' = logged s @ es \<and> call_events env (live_bytes s) (live_bytes s') es"
proof -
  obtain entry s1 where enter: "malloc_hook_enter env s = (entry, s1)"
    by fastforce
  note entered = enter_fields [OF enter]
  have s1: "counted_with 0 s1" "fresh_nodes (node_answers env) (tracking_root s1)" "memlog_active s1" "small s1"
    using assms(1-4) entered(1,2,7) by (simp_all add: small_def)
  obtain r s2 where det: "detach_tracking_entry env p s1 = (r, s2)"
    by fastforce
  note detach = detach_ok [OF s1(1) det] and parts = reallocation_kept [OF s1(1,2) det]
  let ?new = "original_ptr env" and ?failed = "original_ptr env = 0 \<and> (sz \<noteq> 0 \<or> original_errno env = ENOMEM)"
  show ?thesis
  proof (cases "entry = HOOK_TRACKING \<and> p \<noteq> 0")
    case False
    show ?thesis
    proof (cases "entry = HOOK_TRACKING")
      case True
      let ?b = "malloc_hook_leave env (if ?new \<noteq> 0 then add_tracking_entry env (clock1 env) ?new sz (log_backtrace_malloc env)
        (s1\<lparr>thread_errno := original_errno env\<rparr>) else s1\<lparr>thread_errno := original_errno env\<rparr>)"
      have "s' = ?b\<lparr>thread_errno := original_errno env\<rparr>"
        using False True enter by (simp add: s' custom_realloc_def Let_def)
      then have "logged s' = logged ?b" "tracked s' = tracked ?b"
        by simp_all
      then show ?thesis
        using allocation_events [OF assms(1,2) _ assms(3), of s1 "clock1 env" ?b "?new \<noteq> 0" ?new sz "log_backtrace_malloc env"
            "original_errno env"] enter True assms(6) by (simp add: small_def)
    next
      case False
      then show ?thesis
        using enter entered(1,5) by (auto simp: s' custom_realloc_def forward_def Let_def call_events_def)
    qed
  next
    case True
    have track: "malloc_hook_enter env s = (HOOK_TRACKING, s1)" "p \<noteq> 0"
      using True enter by auto
    show ?thesis
    proof (cases r)
      case None
      let ?s3 = "add_tracking_entry env (clock2 env) ?new sz (log_backtrace_malloc env) s2"
      have s2: "counted_with 0 s2" "tracked s2 = tracked s" "logged s2 = logged s" "memlog_active s2"
        using detach(1,4,6) None entered(1,5) s1(3) by (simp_all add: same_frame_def)
      show ?thesis
      proof (cases "?new = 0")
        case True
        then have "logged s' = logged s" "tracked s' = tracked s"
          using track det None s2 by (simp_all add: s' custom_realloc_def Let_def)
        then show ?thesis
          by (simp add: call_events_def)
      next
        case False
        then have s3: "logged s' = logged ?s3" "tracked s' = tracked ?s3"
          using track det None by (simp_all add: s' custom_realloc_def Let_def)
        then show ?thesis
          using add_entry_events [OF s2(1) detach(5) [OF s1(2)] s2(4) refl, of "clock2 env" ?new sz "log_backtrace_malloc env"]
            assms(6) s2(2,3) by (auto simp: small_def call_events_def)
      qed
    next
      case (Some y)
      obtain old tr where y: "y = (old, tr)"
        by fastforce
      note r = Some [unfolded y]
      note found = detach(7) [OF r]
      have fin: "finite (dom (tracked s))" and old: "tracked s p = Some old" "old \<le> INT64_MAX"
        using assms(1,4) found entered(1) by (auto simp: counted_with_def small_def)
      let ?s3 = "publish_removed_entry env old tr s2"
      have active: "memlog_active s2" "memlog_active ?s3"
        using same_frame_active [OF detach(1)] s1(3) same_frame_active [of s2 ?s3] by simp_all
      obtain e1 where e1: "logged ?s3 = logged s @ [e1]" "ts_ns e1 = clock1 env" "delta e1 = - uint old"
        using publish_events [OF active(1) old(2), of env tr] detach(4) entered(5) detach_time [of env p s1 old tr s2] det r by auto
      have gone: "tracked ?s3 = (tracked s)(p := None)"
        using found entered(1) by simp
      have "0 \<le> live_bytes ?s3"
        by (rule weight_nonneg) (simp add: all_bytes_def)
      moreover have "live_bytes ?s3 = live_bytes s - uint old"
        unfolding gone using weight_delete [OF fin old(1), of all_bytes] by (simp add: all_bytes_def)
      ultimately have less: "live_bytes ?s3 = live_bytes s - uint old" "0 \<le> live_bytes ?s3"
        by simp_all
      consider (failed) "?failed" | (released) "\<not> ?failed" "?new = 0" | (moved) "?new \<noteq> 0"
        by blast
      then show ?thesis
      proof cases
        case failed
        then have "logged s' = logged s" "tracked s' = tracked s"
          using track det r parts(3) [OF r] entered(1,5) by (simp_all add: s' custom_realloc_def Let_def)
        then show ?thesis
          by (simp add: call_events_def)
      next
        case released
        then have "logged s' = logged ?s3" "tracked s' = tracked ?s3"
          using track det r by (auto simp: s' custom_realloc_def Let_def)
        then show ?thesis
          using e1 less by (simp add: call_events_def)
      next
        case moved
        obtain x s4 where c: "commit_reallocated_entry env ?new sz ?s3 = (x, s4)"
          by fastforce
        let ?s5 = "case x of None \<Rightarrow> s4 | Some added \<Rightarrow> log_added env added sz s4"
        have s5: "logged s' = logged ?s5" "tracked s' = tracked ?s5"
          using track det r moved c by (cases x; simp add: s' custom_realloc_def Let_def)+
        have "counted_with 0 ?s3" "fresh_nodes (node_answers env) (tracking_root ?s3)"
          using parts(4) [OF r] detach(5) [OF s1(2)] by (simp_all add: kept_def)
        from commit_events [OF this active(2) c [unfolded commit_reallocated_entry_def] refl]
        consider "logged s' = logged ?s3" "tracked s' = tracked ?s3"
          | e2 where "logged s' = logged ?s3 @ [e2]" "ts_ns e2 = clock2 env" "delta e2 = live_bytes s' - live_bytes ?s3"
          using assms(6) s5 by (auto simp: small_def)
        then show ?thesis
          by cases (use e1 less in \<open>auto simp: call_events_def\<close>)
      qed
    qed
  qed
qed

lemma hook_events:
  assumes "counted_with 0 s" and "fresh_nodes (node_answers env) (tracking_root s)" and "memlog_active s" and "small s"
    and s': "s' = hook (env, c) s" and "small s'"
  shows "\<exists>es. logged s' = logged s @ es \<and> call_events env (live_bytes s) (live_bytes s') es"
proof -
  obtain entry s1 where enter: "malloc_hook_enter env s = (entry, s1)"
    by fastforce
  note entered = enter_fields [OF enter]
  have quiet: "\<exists>es. logged s2 = logged s @ es \<and> call_events env (live_bytes s) (live_bytes s2) es"
    if "logged s2 = logged s" "tracked s2 = tracked s" for s2
    using that by (simp add: call_events_def)
  have forwarded: "logged (forward env entry s1) = logged s" "tracked (forward env entry s1) = tracked s"
    using entered(1,5) by (simp_all add: forward_def Let_def)
  have failed: "logged (malloc_hook_leave env (s1\<lparr>thread_errno := ENOMEM\<rparr>)) = logged s"
    "tracked (malloc_hook_leave env (s1\<lparr>thread_errno := ENOMEM\<rparr>)) = tracked s"
    using entered(1,5) by simp_all
  note alloc = allocation_events [OF assms(1,2) _ assms(3) _ refl]
  show ?thesis
  proof (cases "entry = HOOK_TRACKING")
    case True
    have call: "\<exists>es. logged s2 = logged s @ es \<and> call_events env (live_bytes s) (live_bytes s2) es"
      if "s2 = malloc_hook_leave env (if b then add_tracking_entry env (clock1 env) p sz flag (s1\<lparr>thread_errno := e\<rparr>)
        else s1\<lparr>thread_errno := e\<rparr>)" "small s2" for s2 b p sz flag e
      using allocation_events [OF assms(1,2) _ assms(3) _ that(1)] enter True that(2) by simp
    show ?thesis
    proof (cases c)
      case (Malloc sz)
      then show ?thesis
        using call [OF _ assms(6)] enter True by (simp add: s' custom_malloc_def Let_def)
    next
      case (Calloc n sz)
      then show ?thesis
        using call [OF _ assms(6)] enter True quiet failed by (auto simp: s' custom_calloc_def Let_def simp del: leave_errno split: if_splits)
    next
      case (Aligned_alloc al sz)
      then show ?thesis
        using call [OF _ assms(6)] enter True by (simp add: s' custom_aligned_alloc_def Let_def)
    next
      case (Posix_memalign ret al sz)
      then show ?thesis
        using call [OF _ assms(6)] enter True by (simp add: s' custom_posix_memalign_def Let_def)
    next
      case (Free p)
      then show ?thesis
        using free_events [OF assms(1,3,4)] s' by simp
    next
      case (Realloc p sz)
      then show ?thesis
        using realloc_events [OF assms(1-4) _ assms(6)] s' by simp
    qed
  next
    case False
    then show ?thesis
      using enter quiet [OF forwarded] free_events [OF assms(1,3,4)] realloc_events [OF assms(1-4) _ assms(6)] s'
      by (cases c) (simp_all add: custom_malloc_def custom_calloc_def custom_aligned_alloc_def custom_posix_memalign_def)
  qed
qed

subsection \<open>Replaying a run\<close>

definition log_peak :: "PeakMemEvent list \<Rightarrow> int" where
  "log_peak es = fold max (sums 0 (map delta es)) 0"

definition in_range :: "PeakMemEvent list \<Rightarrow> bool" where
  "in_range es \<longleftrightarrow> (\<forall>x \<in> set (sums 0 (map delta es)). 0 \<le> x \<and> x < 2 ^ 64)"

text \<open>The clock moves on with every reading, and no state holds a block that is too large to log.\<close>

fun clock_runs :: "uint64 \<Rightarrow> (hook_env \<times> hook_call) list \<Rightarrow> bool" where
  "clock_runs now [] \<longleftrightarrow> True"
| "clock_runs now ((env, c) # cs) \<longleftrightarrow> now < clock1 env \<and> clock1 env < clock2 env \<and> clock_runs (clock2 env) cs"

fun small_run :: "(hook_env \<times> hook_call) list \<Rightarrow> malloc_state \<Rightarrow> bool" where
  "small_run [] s \<longleftrightarrow> small s"
| "small_run (c # cs) s \<longleftrightarrow> small s \<and> small_run cs (hook c s)"

text \<open>A log that agrees with the state: in order of time, in range, and at least as high as the tracked bytes.\<close>

definition log_agrees :: "uint64 \<Rightarrow> malloc_state \<Rightarrow> bool" where
  "log_agrees now s \<longleftrightarrow>
     sorted (map ts_ns (logged s)) \<and> distinct (map ts_ns (logged s)) \<and> (\<forall>e \<in> set (logged s). ts_ns e \<le> now) \<and>
     in_range (logged s) \<and> sum_list (map delta (logged s)) = live_bytes s \<and> live_bytes s \<le> log_peak (logged s)"

lemma log_agrees_step:
  assumes "log_agrees now s" and "logged s' = logged s @ es" and "call_events env (live_bytes s) (live_bytes s') es"
    and "now < clock1 env" and "clock1 env < clock2 env" and "0 \<le> live_bytes s'" and "live_bytes s' < 2 ^ 64" and "live_bytes s < 2 ^ 64"
  shows "log_agrees (clock2 env) s' \<and> log_peak (logged s') = max (log_peak (logged s)) (live_bytes s')"
proof -
  have old: "\<forall>e \<in> set (logged s). ts_ns e < clock1 env" "\<forall>e \<in> set (logged s). ts_ns e < clock2 env"
    using assms(1,4,5) by (auto simp: log_agrees_def intro: order_le_less_trans order_less_trans)
  have peak: "log_peak (logged s') = fold max (sums (live_bytes s) (map delta es)) (log_peak (logged s))"
    using assms(1) by (simp add: log_peak_def assms(2) sums_append log_agrees_def)
  have range: "in_range (logged s') \<longleftrightarrow> (\<forall>x \<in> set (sums (live_bytes s) (map delta es)). 0 \<le> x \<and> x < 2 ^ 64)"
    using assms(1) by (auto simp: in_range_def assms(2) sums_append log_agrees_def)
  from assms(3) consider "es = []" "live_bytes s' = live_bytes s"
    | e where "es = [e]" "ts_ns e \<in> {clock1 env, clock2 env}" "delta e = live_bytes s' - live_bytes s"
    | e1 e2 where "es = [e1, e2]" "ts_ns e1 = clock1 env" "ts_ns e2 = clock2 env" "delta e1 \<le> 0" "0 \<le> live_bytes s + delta e1"
        "delta e1 + delta e2 = live_bytes s' - live_bytes s"
    unfolding call_events_def by blast
  then show ?thesis
  proof cases
    case 1
    then show ?thesis
      using assms(1,2) old by (auto simp: log_agrees_def)
  next
    case 2
    then show ?thesis
      using assms(1,2,5-7) old peak range by (fastforce simp: log_agrees_def sorted_append)
  next
    case 3
    then show ?thesis
      using assms(1,2,5-8) old peak range by (fastforce simp: log_agrees_def sorted_append)
  qed
qed

lemma live_bytes_nonneg: "0 \<le> live_bytes s"
  by (rule weight_nonneg) (simp add: all_bytes_def)

lemma run_log_agrees:
  assumes "counted_with 0 s" and "memlog_active s" and "fresh_run calls s" and "small_run calls s" and "clock_runs now calls"
    and "log_agrees now s"
  shows "\<exists>now'. log_agrees now' (fold hook calls s) \<and>
    log_peak (logged (fold hook calls s)) = max (log_peak (logged s)) (peak_bytes calls s) \<and>
    (logged s \<noteq> [] \<longrightarrow> logged (fold hook calls s) \<noteq> [])"
  using assms
proof (induction calls arbitrary: s now)
  case Nil
  then show ?case
    by (auto simp: log_agrees_def)
next
  case (Cons call calls)
  obtain env c where call: "call = (env, c)"
    by fastforce
  let ?s = "hook call s"
  have small: "small s" "small ?s"
    using Cons.prems(4) by (cases calls; simp)+
  obtain es where es: "logged ?s = logged s @ es" "call_events env (live_bytes s) (live_bytes ?s) es"
    using hook_events [OF Cons.prems(1) _ Cons.prems(2) small(1) _ small(2)] Cons.prems(3) call by auto
  have step: "log_agrees (clock2 env) ?s" "log_peak (logged ?s) = max (log_peak (logged s)) (live_bytes ?s)"
    using log_agrees_step [OF Cons.prems(6) es] Cons.prems(5) small live_bytes_nonneg call by (auto simp: small_def)
  have "counted_with 0 ?s" "memlog_active ?s"
    using hook_kept [OF Cons.prems(1)] Cons.prems(2,3) call by (auto simp: kept_def same_frame_def)
  with Cons.IH [OF this _ _ _ step(1)] Cons.prems(3-5) call obtain now' where
    rest: "log_agrees now' (fold hook calls ?s)" "log_peak (logged (fold hook calls ?s)) = max (log_peak (logged ?s)) (peak_bytes calls ?s)"
      "logged ?s \<noteq> [] \<longrightarrow> logged (fold hook calls ?s) \<noteq> []"
    by auto
  have "live_bytes s \<le> log_peak (logged s)"
    using Cons.prems(6) by (simp add: log_agrees_def)
  then show ?case
    using rest step(2) peak_bytes_ge [of ?s calls] es(1) by (auto intro!: exI [of _ now'])
qed


text \<open>An allocation of 100 bytes behind the opening event.\<close>

definition sample_logging_state :: malloc_state where
  "sample_logging_state = sample_malloc_state\<lparr>memlog_active := True, logged := [sample_event 1 0]\<rparr>"

definition sample_logged_call :: "hook_env \<times> hook_call" where
  "sample_logged_call = (sample_hook_env 64 0 sample_answers, Malloc 100)"

lemma sample_logging:
  "counted_with 0 sample_logging_state" "tracked sample_logging_state = Map.empty" "memlog_active sample_logging_state"
  "logged sample_logging_state = [sample_event 1 0]" "tracking_root sample_logging_state = tracking_root sample_malloc_state"
proof -
  have heap: "tracking_root sample_malloc_state = rheap (empty_radix 1)"
    by (simp add: sample_malloc_state_def empty_radix_def)
  have ok: "heap_ok (rheap (empty_radix 1))" "table_of (rheap (empty_radix 1)) = Map.empty"
    using empty_radix_ok [of 1] by (simp_all add: system_ok_def empty_radix_def)
  show "tracked sample_logging_state = Map.empty"
    using ok heap by (simp add: sample_logging_state_def)
  then show "counted_with 0 sample_logging_state"
    using ok heap by (simp add: counted_with_def sample_logging_state_def weight_def sample_event_def)
qed (simp_all add: sample_logging_state_def)

lemma sample_small: "small_run [sample_logged_call] sample_logging_state"
proof -
  let ?s = "sample_logging_state" and ?env = "sample_hook_env 64 0 sample_answers"
  obtain s1 where enter: "malloc_hook_enter ?env ?s = (HOOK_TRACKING, s1)"
    by (simp add: malloc_hook_enter_def sample_hook_env_def sample_logging_state_def sample_malloc_state_def)
  have s1: "counted_with 0 (s1\<lparr>thread_errno := 0\<rparr>)" "fresh_nodes (node_answers ?env) (tracking_root (s1\<lparr>thread_errno := 0\<rparr>))"
      "tracked s1 = Map.empty"
    using enter_fields(1,2) [OF enter] sample_logging sample_answers_fresh by (simp_all add: sample_hook_env_def)
  have "hook sample_logged_call ?s = malloc_hook_leave ?env (add_tracking_entry ?env 10 64 100 True (s1\<lparr>thread_errno := 0\<rparr>))"
    using enter by (simp add: sample_logged_call_def custom_malloc_def) (simp add: sample_hook_env_def log_backtrace_malloc_def Let_def)
  then have "tracked (hook sample_logged_call ?s) = Map.empty \<or> tracked (hook sample_logged_call ?s) = [64 \<mapsto> 100]"
    using add_entry_ok [OF s1(1,2) refl, of 10 64 100 True] s1(3) by simp
  then show ?thesis
    using sample_logging(2) by (auto simp: small_def weight_def all_bytes_def INT64_MAX_def split: if_splits)
qed


end
