(* ===== verification/Spec2Isabelle.thy ===== *)
theory Spec2Isabelle
  imports Pthread_Slots Target_Config Attach_Policy Hook_Lifecycle Report_Model Mpi_Teardown Parent_Live
    Process_Filter Stat_Guard_Fork Listener_Frames Listener_Closing Exec_Preflight Socket_Aggregate Memlog_Replay
begin

text \<open>
  PEAK is a profiler that is preloaded into C and C++ programs. It attaches hooks to configured functions
  through Frida Gum, counts and times their calls, detaches and reattaches hooks while the program runs,
  and writes one report per process or, under MPI, one for all ranks. This development models the parts
  of it that carry their own logic and proves what the rest of the program relies on.

  \<^bold>\<open>Conventions.\<close> Definitions carry the names of the C functions without the module prefix (\<^verbatim>\<open>peak_\<close>,
  \<^verbatim>\<open>peak_general_listener_\<close> and so on). Structures are records, enumerations datatypes, machine words
  \<open>64 word\<close> or \<open>32 word\<close> where wrap-around or bit fields matter, C strings the list of characters in front
  of the terminating NUL. The answers of the operating system, of the allocator, of MPI, of Gum and of
  the clock are arguments, mostly as functions or lists of answers, so that a theorem holds for every
  behaviour of them; what is required of them is a hypothesis of the theorem. Failures are values:
  \<open>None\<close>, \<open>False\<close> or \<open>Inl e\<close>, as the text of each theory says. Loops are recursive functions with a
  termination proof, or run over the list of answers they consume; a loop that waits for another
  process is \<open>None\<close> when the answers end before it does, and theorems that say it returns ask that the
  answers contain one that ends it. Locales state contracts between components; every locale is
  interpreted on the definitions of the component that provides it.

  \<^bold>\<open>Parts, in the order in which a run uses them.\<close>

  \<^item> Configuration. \<open>Env_Parser\<close> (\<^verbatim>\<open>src/utils/env_parser.c\<close>) reads bounded numbers from the environment: it
    accepts exactly the decimal texts within the bounds of a schema, and anything else gives the
    fallback with one warning. \<open>Runtime_Config\<close> (\<^verbatim>\<open>src/general_listener/runtime_config.c\<close>) derives ranks from
    launcher variables and the timeouts of the report exchange, whose sums saturate. \<open>Selector_Syntax\<close>
    and \<open>Target_Config\<close> (\<^verbatim>\<open>src/utils/target_selector_syntax.c\<close>, \<^verbatim>\<open>target_config.c\<close>) split lists of function
    names at separators outside C++ brackets; parsing loses no character. \<open>Process_Filter\<close>
    (\<^verbatim>\<open>src/utils/process_filter.c\<close>) decides which processes are profiled at all, once per process.
  \<^item> Attaching. \<open>Gum_Prologue\<close> (\<^verbatim>\<open>src/unsafe_gum_prologue.c\<close>) decides from the bytes of a function whether Gum
    can patch its entry; \<open>Attach_Policy\<close> (\<^verbatim>\<open>src/general_listener/attach_policy.c\<close>) combines it with the
    configured policy.
  \<^item> Hooks (\<^verbatim>\<open>src/general_listener.c\<close>). \<open>Hook_Control\<close> is the 64-bit word shared by the callbacks and the
    controller: state, request bit and generation, changed by compare-and-exchange only. \<open>Hook_Controller\<close>
    holds requests, retries, detach, reattach, shutdown and batches, and the events they cause outside.
    \<open>Hook_Lifecycle\<close> proves over runs of all of them that the copies of a hook's state agree, that code is
    patched only inside a prepared mutation, that threads that were paused are resumed, that retries are
    bounded and batches fair. \<open>Listener_Callbacks\<close> holds what a hooked call runs: the invocation stack of a
    thread, the generic and the direct callbacks, counters and times. \<open>Listener_Profile\<close> proves that a
    run of a tree of calls records its number of calls and its inclusive and exclusive times,
    \<open>Listener_Frames\<close> that direct frames are retired once, \<open>Listener_Closing\<close> that a listener that is closed
    waits for the callbacks inside it while threads abandon frames.
  \<^item> Threads. \<open>Slot_Registry\<close> (\<^verbatim>\<open>src/pthread_slot_registry.c\<close>) hands out per-thread slots with generations:
    slots are exclusive, stale tokens are refused, the start handshake agrees. \<open>Pthread_Listener\<close>
    (\<^verbatim>\<open>src/pthread_listener.c\<close>) holds the hooks around thread creation, join and detach and the reclaiming
    scan, as steps of interleaved threads over that registry and the thread library. \<open>Pthread_Contexts\<close>
    proves who refers to a start context at each program point, \<open>Pthread_Slots\<close> that contexts are freed
    exactly when unused and that two living threads never share a slot. \<open>Stat_Guard\<close>,
    \<open>Stat_Guard_Safety\<close>, \<open>Stat_Guard_Gate\<close> and \<open>Stat_Guard_Exclusion\<close> (\<^verbatim>\<open>src/filesystem_stat_guard.c\<close>)
    show by an invariant over the interleaved atomic accesses of all threads, their signal handlers,
    non-local exits and forks that no filesystem query runs inside a stop window; \<open>Stat_Guard_Fork\<close> has
    a run that shows why a fork inside an admission is excluded there.
  \<^item> Reports. \<open>C_Double\<close> and \<open>Report_Model\<close> (\<^verbatim>\<open>src/general_listener/report_model.c\<close>, \<^verbatim>\<open>report_maxima.c\<close>) keep
    per-metric maxima over ranks, with ties to the lowest rank. \<open>Mpi_Teardown\<close>
    (\<^verbatim>\<open>src/mpi_teardown_guard.c\<close>) agrees on finalisation without ever blocking for good: after a failure it
    stays closed, and buffers MPI may still write to are kept. \<open>Socket_Gather\<close> and \<open>Socket_Aggregate\<close>
    (\<^verbatim>\<open>src/general_listener/socket_report_transport.c\<close>, \<^verbatim>\<open>report_snapshot.c\<close>) are the root's side of a gather over
    sockets: whatever pieces the bytes arrive in, a gather that succeeds has merged every rank once.
  \<^item> Memory (\<^verbatim>\<open>src/malloc_interceptor.c\<close>). \<open>Malloc_Radix\<close> is the lock-free tree of tracked blocks, one atomic
    access per step; \<open>Malloc_Linear\<close> shows that interleaved operations on it linearize and that none of
    them waits. \<open>Malloc_Tracking\<close> holds the replaced allocator functions and \<open>Malloc_Accounting\<close> proves,
    through the contract \<open>tracking_table\<close>, that the bytes counted are those of the blocks tracked.
    \<open>Memlog\<close> is the event log, \<open>Memlog_Export\<close> proves that it loses nothing up to its capacity and
    \<open>Memlog_Replay\<close> that the replay of a log reports the peak of the run that wrote it.
  \<^item> Processes. \<open>Parent_Registry\<close> (\<^verbatim>\<open>src/utils/parent_registry.c\<close>) keeps the list of profiled processes in a
    file; \<open>Parent_Recovery\<close> proves the update atomic under failing system calls and crashes, \<open>Parent_Live\<close>
    that exactly the live entries are kept and read back. \<open>Exec_Memory\<close> and \<open>Exec_Preflight\<close>
    (\<^verbatim>\<open>src/exec_memory.c\<close>) check the arguments of an exec before they are read: exactly those are accepted
    that the kernel could read.

  \<^bold>\<open>Shared material.\<close> \<open>Peak_Prelude\<close> has the machine types, search loops, ring buffers and the locales
  \<open>step_system\<close> (an invariant over runs) and \<open>wrapping_counter\<close>, each interpreted by the components that
  use it; \<open>C_Strings\<close> the tokens and numbers of the C
  library.

  \<^bold>\<open>Bounds.\<close> The walk along the records of a forking thread gets four steps, the number of records; the
  theorem shows that it ends within them. Instruction windows, snapshot sizes and table capacities are
  those of the source. The loop on a radix node gets nineteen steps, three for each of the six levels and
  one for the slot, and is shown to end within them. The counters of the event log are natural numbers:
  they count events of one run. Generations of 64-bit and 32-bit counters are kept at their width, and the
  theorems that a stale value is not accepted say how many steps the counter needs to come round.

  \<^bold>\<open>Not modelled.\<close> The control of other threads by ptrace and Mach calls (\<^verbatim>\<open>detach_controller.c\<close>,
  \<^verbatim>\<open>detach_helper.c\<close>), whose answers are parameters of the hook controller; the interposition of CUDA, exec,
  dlopen and signal functions; of the socket transport the peer's side and the release handshake, and the
  MPI transport; of the malloc interceptor attaching through Gum, the release of the tree and the CSV and
  OTF2 writers; symbol resolution, the JIT provider, the formatting of reports and file names, and the
  floating-point control loop of the heartbeat. These consist of calls into the operating system and
  third-party libraries around little state. Test hooks, trace output and macOS branches are left out
  throughout.
\<close>

end
